(* ===== verification/JsPrelude.thy ===== *)
theory JsPrelude
  imports Complex_Main "HOL-Library.Word" "HOL-Library.AList" "HOL-Library.Multiset"
    "HOL-Library.List_Lexorder" "HOL-Library.Char_ord"
begin

text \<open>
  Prelude of the development: the JavaScript values the components share and the
  generic lemmas about them.

  \<^item> A JavaScript \<^verbatim>\<open>Map\<close> iterates in insertion order and \<^verbatim>\<open>set\<close> on a
    present key keeps its position. It is an association list with distinct keys, updated by
    \<open>AList.update\<close> and \<open>AList.delete\<close> of the library and read by \<open>map_of\<close>.
  \<^item> A JavaScript \<^verbatim>\<open>Set\<close> also iterates in insertion order: a distinct list
    extended by \<open>set_add\<close>. \<open>js_dedup\<close> is \<^verbatim>\<open>Array.from(new Set(xs))\<close>.
  \<^item> \<^verbatim>\<open>Array.prototype.sort\<close> is stable. \<open>js_sort\<close> is the stable sort by a
    comparator that returns a number; the locale \<open>js_comparator\<close> states when the
    comparator is consistent and proves what the sort then promises.
  \<^item> Strings are lists of code units, compared by code unit as the operators
    \<^verbatim>\<open><\<close> and \<^verbatim>\<open><=\<close> of JavaScript compare them (\<open>HOL-Library.Char_ord\<close>
    and \<open>HOL-Library.List_Lexorder\<close>); the code units of the model are \<open>0..255\<close>.
  \<^item> Numbers that the code uses as times, counters, sizes and indices are integers.
\<close>

named_theorems js_simps \<open>rewrite rules for JavaScript maps, sets and sorting\<close>
named_theorems store_defs \<open>definitions of the store operations\<close>

type_synonym bytes = "8 word list"
type_synonym ('k, 'v) jsmap = "('k \<times> 'v) list"
type_synonym 'a jsset = "'a list"

section \<open>Maps\<close>

abbreviation map_keys :: "('k, 'v) jsmap \<Rightarrow> 'k list" where
  "map_keys m \<equiv> map fst m"

abbreviation map_values :: "('k, 'v) jsmap \<Rightarrow> 'v list" where
  "map_values m \<equiv> map snd m"

definition map_has :: "('k, 'v) jsmap \<Rightarrow> 'k \<Rightarrow> bool" where
  "map_has m k \<longleftrightarrow> map_of m k \<noteq> None"

lemma map_has_iff [js_simps]: "map_has m k \<longleftrightarrow> k \<in> set (map_keys m)"
  by (simp add: map_has_def map_of_eq_None_iff)

lemma map_of_update [js_simps]: "map_of (AList.update k v m) = (map_of m)(k \<mapsto> v)"
  by (rule AList.update_conv')

lemma map_of_delete [js_simps]: "map_of (AList.delete k m) = (map_of m)(k := None)"
  by (rule AList.delete_conv')

lemma keys_update [js_simps]:
  "map_keys (AList.update k v m) = (if k \<in> set (map_keys m) then map_keys m else map_keys m @ [k])"
  by (induction m) auto

lemma update_fresh [js_simps]:
  "k \<notin> set (map_keys m) \<Longrightarrow> AList.update k v m = m @ [(k, v)]"
  by (induction m) auto

lemma distinct_keys_update [simp]:
  "distinct (map_keys (AList.update k v m)) = distinct (map_keys m)"
  by (auto simp: keys_update)

lemma keys_delete [js_simps]: "map_keys (AList.delete k m) = filter (\<lambda>k'. k' \<noteq> k) (map_keys m)"
  by (induction m) (auto simp: AList.delete_eq)

lemma set_keys_delete [simp]: "set (map_keys (AList.delete k m)) = set (map_keys m) - {k}"
  by (auto simp: keys_delete)

lemma distinct_keys_delete [simp]:
  "distinct (map_keys m) \<Longrightarrow> distinct (map_keys (AList.delete k m))"
  by (auto simp: keys_delete)

lemma delete_absent [js_simps]: "k \<notin> set (map_keys m) \<Longrightarrow> AList.delete k m = m"
  by (induction m) (auto simp: AList.delete_eq)

lemma map_of_Some_iff [js_simps]:
  "distinct (map_keys m) \<Longrightarrow> map_of m k = Some v \<longleftrightarrow> (k, v) \<in> set m"
  by (auto dest: map_of_SomeD)

lemma map_values_mem:
  "map_of m k = Some v \<Longrightarrow> v \<in> set (map_values m)"
  by (force dest: map_of_SomeD)

lemma map_values_iff:
  "distinct (map_keys m) \<Longrightarrow> v \<in> set (map_values m) \<longleftrightarrow> (\<exists>k. map_of m k = Some v)"
  by force

lemma map_of_Some_key: "map_of m k = Some v \<Longrightarrow> k \<in> fst ` set m"
  by (force dest: map_of_SomeD)

lemma map_of_filter_vals [js_simps]:
  "distinct (map_keys m) \<Longrightarrow>
   map_of (filter (\<lambda>(k, v). P k v) m) k =
     (case map_of m k of None \<Rightarrow> None | Some v \<Rightarrow> if P k v then Some v else None)"
  by (induction m) (auto simp: map_of_eq_None_iff split: option.splits)

lemma set_update_subset: "set (AList.update k v m) \<subseteq> insert (k, v) (set m)"
  by (induction m) auto

lemma update_idem [js_simps]: "map_of m k = Some v \<Longrightarrow> AList.update k v m = m"
  by (induction m) (auto split: if_splits)

section \<open>Sets\<close>

definition set_add :: "'a \<Rightarrow> 'a jsset \<Rightarrow> 'a jsset" where
  "set_add x xs = (if x \<in> set xs then xs else xs @ [x])"

lemma set_set_add [simp]: "set (set_add x xs) = insert x (set xs)"
  by (auto simp: set_add_def)

lemma distinct_set_add [simp]: "distinct (set_add x xs) = distinct xs"
  by (auto simp: set_add_def)

definition js_dedup :: "'a list \<Rightarrow> 'a jsset" where
  "js_dedup xs = fold set_add xs []"

lemma fold_set_add: "set (fold set_add xs acc) = set acc \<union> set xs"
  by (induction xs arbitrary: acc) auto

lemma distinct_fold_set_add: "distinct (fold set_add xs acc) = distinct acc"
  by (induction xs arbitrary: acc) auto

lemma set_js_dedup [simp]: "set (js_dedup xs) = set xs"
  by (simp add: js_dedup_def fold_set_add)

lemma distinct_js_dedup [simp]: "distinct (js_dedup xs)"
  by (simp add: js_dedup_def distinct_fold_set_add)

lemma fold_set_add_distinct:
  "distinct xs \<Longrightarrow> set xs \<inter> set acc = {} \<Longrightarrow> fold set_add xs acc = acc @ xs"
  by (induction xs arbitrary: acc) (auto simp: set_add_def)

lemma js_dedup_distinct [js_simps]: "distinct xs \<Longrightarrow> js_dedup xs = xs"
  by (simp add: js_dedup_def fold_set_add_distinct)

section \<open>Sorting by a comparator\<close>

fun sort_insert :: "('a \<Rightarrow> 'a \<Rightarrow> int) \<Rightarrow> 'a \<Rightarrow> 'a list \<Rightarrow> 'a list" where
  "sort_insert cmp x [] = [x]"
| "sort_insert cmp x (y # ys) = (if cmp x y \<le> 0 then x # y # ys else y # sort_insert cmp x ys)"

definition js_sort :: "('a \<Rightarrow> 'a \<Rightarrow> int) \<Rightarrow> 'a list \<Rightarrow> 'a list" where
  "js_sort cmp xs = foldr (sort_insert cmp) xs []"

text \<open>Comparison of strings and numbers as the comparators of the code write it.\<close>

definition compare_by :: "('a::linorder) \<Rightarrow> 'a \<Rightarrow> int" where
  "compare_by a b = (if a < b then -1 else if a > b then 1 else 0)"

lemma compare_by_le0 [simp]: "compare_by a b \<le> 0 \<longleftrightarrow> a \<le> b"
  by (auto simp: compare_by_def)

lemma mset_sort_insert [simp]: "mset (sort_insert cmp x xs) = add_mset x (mset xs)"
  by (induction xs) auto

lemma mset_js_sort [simp]: "mset (js_sort cmp xs) = mset xs"
  by (induction xs) (auto simp: js_sort_def)

lemma set_js_sort [simp]: "set (js_sort cmp xs) = set xs"
  by (rule mset_eq_setD) simp

lemma length_js_sort [simp]: "length (js_sort cmp xs) = length xs"
  by (rule mset_eq_length) simp

lemma distinct_js_sort [simp]: "distinct (js_sort cmp xs) = distinct xs"
  by (rule mset_eq_imp_distinct_iff) simp

lemma js_sort_Nil [simp]: "js_sort cmp [] = []"
  by (simp add: js_sort_def)

lemma js_sort_Cons: "js_sort cmp (x # xs) = sort_insert cmp x (js_sort cmp xs)"
  by (simp add: js_sort_def)

text \<open>
  The interface of a comparator: what \<^verbatim>\<open>sort\<close> requires of the function it is
  given. Every comparator of the code is shown to satisfy it where it is defined.
\<close>

locale js_comparator =
  fixes cmp :: "'a \<Rightarrow> 'a \<Rightarrow> int"
  assumes cmp_trans: "cmp x y \<le> 0 \<Longrightarrow> cmp y z \<le> 0 \<Longrightarrow> cmp x z \<le> 0"
    and cmp_total: "cmp x y \<le> 0 \<or> cmp y x \<le> 0"
begin

abbreviation cmp_le :: "'a \<Rightarrow> 'a \<Rightarrow> bool" where
  "cmp_le x y \<equiv> cmp x y \<le> 0"

lemma sort_insert_sorted:
  "sorted_wrt cmp_le xs \<Longrightarrow> sorted_wrt cmp_le (sort_insert cmp x xs)"
proof (induction xs)
  case (Cons y ys)
  show ?case
  proof (cases "cmp x y \<le> 0")
    case True
    with Cons.prems show ?thesis by (auto intro: cmp_trans)
  next
    case False
    then have "cmp y x \<le> 0" using cmp_total by blast
    moreover have "set (sort_insert cmp x ys) = insert x (set ys)"
      by (rule set_mset_mset [THEN subst]) (simp flip: set_mset_mset)
    ultimately show ?thesis using Cons False by auto
  qed
qed simp

lemma js_sort_sorted: "sorted_wrt cmp_le (js_sort cmp xs)"
  by (induction xs) (auto simp: js_sort_Cons sort_insert_sorted)

lemma sorted_perm_unique:
  assumes "sorted_wrt cmp_le xs" and "sorted_wrt cmp_le ys" and "mset xs = mset ys"
    and anti: "\<And>x y. x \<in> set xs \<Longrightarrow> y \<in> set xs \<Longrightarrow> cmp x y \<le> 0 \<Longrightarrow> cmp y x \<le> 0 \<Longrightarrow> x = y"
  shows "xs = ys"
  using assms
proof (induction xs arbitrary: ys)
  case (Cons x xs)
  then obtain y ys' where ys: "ys = y # ys'" by (cases ys) auto
  have sets: "set (x # xs) = set ys" using Cons.prems(3) by (rule mset_eq_setD)
  have "x = y"
  proof (rule ccontr)
    assume "x \<noteq> y"
    with sets ys have "x \<in> set ys'" "y \<in> set xs" by auto
    then have "cmp y x \<le> 0" "cmp x y \<le> 0" using Cons.prems(1,2) ys by auto
    with Cons.prems(4) [of x y] \<open>y \<in> set xs\<close> \<open>x \<noteq> y\<close> show False by auto
  qed
  moreover have "xs = ys'"
    using Cons.IH [of ys'] Cons.prems ys \<open>x = y\<close> by auto
  ultimately show ?case using ys by simp
qed simp

lemma js_sort_perm_eq:
  assumes "mset xs = mset ys"
    and "\<And>x y. x \<in> set xs \<Longrightarrow> y \<in> set xs \<Longrightarrow> cmp x y \<le> 0 \<Longrightarrow> cmp y x \<le> 0 \<Longrightarrow> x = y"
  shows "js_sort cmp xs = js_sort cmp ys"
  by (rule sorted_perm_unique) (use assms in \<open>auto simp: js_sort_sorted\<close>)

lemma js_sort_id: "sorted_wrt cmp_le xs \<Longrightarrow> js_sort cmp xs = xs"
proof (induction xs)
  case (Cons x xs)
  then show ?case by (cases xs) (auto simp: js_sort_Cons)
qed simp

end

text \<open>\<^verbatim>\<open>Array.prototype.sort()\<close> without a comparator, on strings.\<close>

abbreviation js_sort_strings :: "string list \<Rightarrow> string list" where
  "js_sort_strings \<equiv> js_sort compare_by"

interpretation compare_by: js_comparator "compare_by :: 'a::linorder \<Rightarrow> 'a \<Rightarrow> int"
  by unfold_locales auto

lemma js_sort_strings_eq_sort: "js_sort compare_by xs = sort (xs :: 'a::linorder list)"
proof (rule compare_by.sorted_perm_unique [OF compare_by.js_sort_sorted])
  show "sorted_wrt (\<lambda>x y. compare_by x y \<le> 0) (sort xs)" by simp
qed auto

section \<open>Lists and options\<close>

lemma find_SomeD: "find P xs = Some x \<Longrightarrow> x \<in> set xs \<and> P x"
  by (induction xs) (auto split: if_splits)

lemma find_None_iff_ball: "find P xs = None \<longleftrightarrow> (\<forall>x \<in> set xs. \<not> P x)"
  by (induction xs) auto

lemma find_append:
  "find P (xs @ ys) = (case find P xs of None \<Rightarrow> find P ys | Some x \<Rightarrow> Some x)"
  by (induction xs) auto

section \<open>Work lists\<close>

text \<open>
  The graph walks of the code keep a visited set and a queue or stack. Their termination
  measure is the number of known nodes not yet visited, then the length of the queue.
\<close>

lemma card_unvisited_le: "card (set ks - insert i V) \<le> card (set ks - V)"
  by (rule card_mono) auto

lemma card_unvisited_less:
  "i \<in> set ks \<Longrightarrow> i \<notin> V \<Longrightarrow> card (set ks - insert i V) < card (set ks - V)"
  by (rule psubset_card_mono) auto

lemma card_unvisited_known:
  "map_of m i = Some e \<Longrightarrow> i \<notin> V \<Longrightarrow>
   card (fst ` set m - insert i V) < card (fst ` set m - V)"
  using card_unvisited_less [of i "map_keys m" V] map_of_eq_None_iff [of m i] by simp

lemma card_unvisited_cases:
  "card (fst ` set m - insert i V) < card (fst ` set m - V) \<or>
   card (fst ` set m - insert i V) = card (fst ` set m - V)"
  using card_unvisited_le [of "map_keys m" i V] by auto

text \<open>
  The invariant of such a walk along edges \<open>E\<close> from roots \<open>R\<close>, with pending nodes \<open>Q\<close>
  and visited nodes \<open>V\<close>: everything pending or visited is reachable, and the successors of
  visited nodes are pending or visited. When nothing is pending the visited nodes are exactly
  the reachable ones.
\<close>

definition walk_inv :: "('a \<Rightarrow> 'a \<Rightarrow> bool) \<Rightarrow> 'a set \<Rightarrow> 'a set \<Rightarrow> 'a set \<Rightarrow> bool" where
  "walk_inv E R Q V \<longleftrightarrow>
     R \<subseteq> Q \<union> V \<and> (\<forall>i \<in> Q \<union> V. \<exists>r \<in> R. E\<^sup>*\<^sup>* r i) \<and> (\<forall>a \<in> V. \<forall>b. E a b \<longrightarrow> b \<in> Q \<union> V)"

lemma walk_inv_init: "walk_inv E R R {}"
  by (auto simp: walk_inv_def)

lemma walk_inv_done:
  assumes "walk_inv E R {} V"
  shows "V = {i. \<exists>r \<in> R. E\<^sup>*\<^sup>* r i}"
proof -
  have "i \<in> V" if "E\<^sup>*\<^sup>* r i" "r \<in> R" for r i
    using that assms by (induction rule: rtranclp_induct) (auto simp: walk_inv_def)
  then show ?thesis using assms by (auto simp: walk_inv_def)
qed

lemma walk_inv_skip: "walk_inv E R (insert i Q) V \<Longrightarrow> i \<in> V \<Longrightarrow> walk_inv E R Q V"
  by (auto simp: walk_inv_def)

lemma walk_inv_visit:
  assumes "walk_inv E R (insert i Q) V" and "D \<subseteq> {b. E i b}" and "{b. E i b} \<subseteq> D \<union> insert i V"
  shows "walk_inv E R (Q \<union> D) (insert i V)"
proof -
  have "\<exists>r \<in> R. E\<^sup>*\<^sup>* r b" if "b \<in> D" for b
    using assms(1,2) that by (auto simp: walk_inv_def intro: rtranclp.rtrancl_into_rtrancl)
  then show ?thesis using assms(1,3) unfolding walk_inv_def by blast
qed

end
