(* ===== verification/StoreTypes.thy ===== *)
theory StoreTypes
  imports JsPrelude
begin

text \<open>
  The data of the append-only stores: entry types, entry metadata and entries
  (\<^verbatim>\<open>core/types.ts\<close>), scan cursors, filters, results and store heads
  (\<^verbatim>\<open>core/appendonlystores/types.ts\<close>), the signed trailing blocks of an entry
  (\<^verbatim>\<open>core/crypto/EntrySignature.ts\<close>, \<^verbatim>\<open>core/userkeys/sealedTypes.ts\<close>), and
  the trusted-time rule of \<^verbatim>\<open>core/storeEntryTime.ts\<close>.

  An optional field of an interface is an \<open>option\<close> field of the record. Field names that
  several interfaces share carry a prefix (\<open>entry_id\<close> for \<^verbatim>\<open>id\<close> of an entry).
\<close>

section \<open>Entries\<close>

datatype store_entry_type =
    doc_create
  | doc_change
  | doc_snapshot
  | doc_delete
  | doc_undelete
  | pending_attachment_upload
  | attachment_chunk

record store_entry_attachment_ref =
  ref_attachmentId :: string
  ref_lastChunkId :: string
  ref_size :: int

datatype recipient_kind = kind_user | kind_device

record entry_recipient_wrap =
  wrap_kind :: recipient_kind
  wrap_keyFingerprint :: string
  wrap_wrapped :: string

record entry_recipients =
  rcpt_epoch :: int
  rcpt_bundle :: string
  rcpt_wraps :: "entry_recipient_wrap list"
  rcpt_namesEncrypted :: "string option"

text \<open>
  The signed field projection of an entry and the provenance record are mutually recursive:
  copying a copy nests provenance. Fields in the order of the interfaces
  \<^verbatim>\<open>EntrySignatureFields\<close> and \<^verbatim>\<open>EntryProvenance\<close>.
\<close>

datatype entry_signature_fields =
  EntrySignatureFields
    (sf_entryType: store_entry_type)
    (sf_id: string)
    (sf_docId: string)
    (sf_decryptionKeyId: string)
    (sf_createdAt: int)
    (sf_dependencyIds: "string list")
    (sf_contentHash: string)
    (sf_createdByPublicKey: string)
    (sf_attachmentRefs: "store_entry_attachment_ref list option")
    (sf_provenance: "entry_provenance option")
    (sf_recipients: "entry_recipients option")
and entry_provenance =
  EntryProvenance
    (prov_sourceTenantId: string)
    (prov_sourceDbId: string)
    (prov_source: entry_signature_fields)
    (prov_sourceMetadataSignature: "string option")

record store_entry_metadata =
  entryType :: store_entry_type
  entry_id :: string
  contentHash :: string
  docId :: string
  dependencyIds :: "string list"
  snapshotHeadHashes :: "string list option"
  snapshotHeadEntryIds :: "string list option"
  createdAt :: int
  receiptOrder :: "int option"
  attachmentId :: "string option"
  attachmentIds :: "string list option"
  attachmentRefs :: "store_entry_attachment_ref list option"
  uploadStartedAt :: "int option"
  createdByPublicKey :: string
  decryptionKeyId :: string
  signature :: bytes
  metadataSignature :: "bytes option"
  provenance :: "entry_provenance option"
  recipients :: "entry_recipients option"
  originalSize :: int
  encryptedSize :: int
  receivedAt :: "int option"
  receivedByPublicKey :: "string option"
  receivedDateSignature :: "bytes option"
  receiptScheme :: "string option"
  entryVersion :: "int option"

record store_entry = store_entry_metadata +
  encryptedData :: bytes

text \<open>\<^verbatim>\<open>{ encryptedData, ...rest } = entry\<close> and \<^verbatim>\<open>{ ...metadata, encryptedData }\<close>.\<close>

abbreviation entry_rest :: "store_entry \<Rightarrow> store_entry_metadata" where
  "entry_rest \<equiv> store_entry_metadata.truncate"

definition entry_with_data :: "store_entry_metadata \<Rightarrow> bytes \<Rightarrow> store_entry" where
  "entry_with_data m d = store_entry_metadata.extend m (store_entry.fields d)"

lemma entry_with_data_sel [simp]:
  "entry_id (entry_with_data m d) = entry_id m"
  "docId (entry_with_data m d) = docId m"
  "contentHash (entry_with_data m d) = contentHash m"
  "encryptedSize (entry_with_data m d) = encryptedSize m"
  "encryptedData (entry_with_data m d) = d"
  by (simp_all add: entry_with_data_def store_entry_metadata.extend_def store_entry.fields_def)

lemma entry_rest_with_data [simp]: "entry_rest (entry_with_data m d) = m"
  by (cases m) (simp add: entry_with_data_def store_entry_metadata.defs store_entry.defs)

lemma entry_rest_sel [simp]:
  "entry_id (entry_rest e) = entry_id e"
  "docId (entry_rest e) = docId e"
  "contentHash (entry_rest e) = contentHash e"
  "receiptOrder (entry_rest e) = receiptOrder e"
  by (simp_all add: store_entry_metadata.truncate_def)

text \<open>\<^verbatim>\<open>meta.receiptOrder ?? 0\<close>\<close>

definition receipt_order_of :: "store_entry_metadata \<Rightarrow> int" where
  "receipt_order_of m = (case receiptOrder m of None \<Rightarrow> 0 | Some n \<Rightarrow> n)"

section \<open>Scans and heads\<close>

record store_scan_cursor =
  cursor_receiptOrder :: int
  cursor_id :: string

record store_scan_filters =
  filter_docId :: "string option"
  filter_entryTypes :: "store_entry_type list option"
  filter_creationDateFrom :: "int option"
  filter_creationDateUntil :: "int option"

record store_scan_result =
  scan_entries :: "store_entry_metadata list"
  scan_nextCursor :: "store_scan_cursor option"
  scan_hasMore :: bool

record store_head =
  head_epoch :: string
  head_maxReceiptOrder :: int

datatype store_kind = kind_docs | kind_attachments

section \<open>Trusted time\<close>

definition isProvisional :: "store_entry_metadata \<Rightarrow> bool" where
  "isProvisional meta \<longleftrightarrow> receivedAt meta = None \<and> entryVersion meta \<noteq> None"

definition isVersioned :: "store_entry_metadata \<Rightarrow> bool" where
  "isVersioned meta \<longleftrightarrow> entryVersion meta \<noteq> None"

record witness_state =
  awaitingWitness :: bool
  witnessed :: bool

definition metadataWitnessState :: "store_entry_metadata list \<Rightarrow> witness_state" where
  "metadataWitnessState metas =
     (let awaiting = list_ex isProvisional metas
      in \<lparr> awaitingWitness = awaiting,
           witnessed = (\<not> awaiting \<and> list_ex isVersioned metas) \<rparr>)"

definition entryTrustedTime :: "store_entry_metadata \<Rightarrow> int \<Rightarrow> int" where
  "entryTrustedTime meta now =
     (case receivedAt meta of
        Some t \<Rightarrow> t
      | None \<Rightarrow> (if entryVersion meta \<noteq> None then now else createdAt meta))"

section \<open>Sample entries\<close>

text \<open>Entries with the fields that matter given and the others blank, for concrete evaluations.\<close>

definition sample_metadata ::
  "store_entry_type \<Rightarrow> string \<Rightarrow> string \<Rightarrow> string list \<Rightarrow> string \<Rightarrow> int \<Rightarrow> store_entry_metadata" where
  "sample_metadata ty i d deps h t =
     \<lparr> entryType = ty, entry_id = i, contentHash = h, docId = d, dependencyIds = deps,
       snapshotHeadHashes = None, snapshotHeadEntryIds = None, createdAt = t, receiptOrder = None,
       attachmentId = None, attachmentIds = None, attachmentRefs = None, uploadStartedAt = None,
       createdByPublicKey = ''pk'', decryptionKeyId = ''default'', signature = [],
       metadataSignature = None, provenance = None, recipients = None, originalSize = 0,
       encryptedSize = 0, receivedAt = None, receivedByPublicKey = None,
       receivedDateSignature = None, receiptScheme = None, entryVersion = None \<rparr>"

definition sample_entry ::
  "string \<Rightarrow> string \<Rightarrow> string list \<Rightarrow> string \<Rightarrow> bytes \<Rightarrow> store_entry" where
  "sample_entry i d deps h data = entry_with_data (sample_metadata doc_change i d deps h 0) data"

lemma sample_metadata_sel [simp]:
  "entryType (sample_metadata ty i d deps h t) = ty"
  "entry_id (sample_metadata ty i d deps h t) = i"
  "contentHash (sample_metadata ty i d deps h t) = h"
  "docId (sample_metadata ty i d deps h t) = d"
  "dependencyIds (sample_metadata ty i d deps h t) = deps"
  "createdAt (sample_metadata ty i d deps h t) = t"
  "receiptOrder (sample_metadata ty i d deps h t) = None"
  "receivedAt (sample_metadata ty i d deps h t) = None"
  "entryVersion (sample_metadata ty i d deps h t) = None"
  "snapshotHeadEntryIds (sample_metadata ty i d deps h t) = None"
  "snapshotHeadHashes (sample_metadata ty i d deps h t) = None"
  by (simp_all add: sample_metadata_def)

lemma sample_entry_sel [simp]:
  "entry_id (sample_entry i d deps h data) = i"
  "contentHash (sample_entry i d deps h data) = h"
  "docId (sample_entry i d deps h data) = d"
  "encryptedData (sample_entry i d deps h data) = data"
  "entry_rest (sample_entry i d deps h data) = sample_metadata doc_change i d deps h 0"
  by (simp_all add: sample_entry_def)

end
