(* ===== verification/ScanUtils.thy ===== *)
theory ScanUtils
  imports StoreTypes
begin

text \<open>
  Cursor-based metadata scans shared by the stores
  (\<^verbatim>\<open>core/appendonlystores/scanUtils.ts\<close>): the canonical scan ordering
  \<open>(receiptOrder, id)\<close>, the cursor test, the filters, and the doc-scoped scan. The section
  \<open>Paging\<close> states the contract of a scan as a locale and proves once that a client that
  follows \<^verbatim>\<open>nextCursor\<close> until \<^verbatim>\<open>hasMore\<close> is false sees every matching entry
  exactly once and in order.
\<close>

section \<open>Operations\<close>

definition compareByReceiptOrderAndId ::
  "store_entry_metadata \<Rightarrow> store_entry_metadata \<Rightarrow> int" where
  "compareByReceiptOrderAndId a b =
     (let orderA = receipt_order_of a; orderB = receipt_order_of b
      in if orderA \<noteq> orderB then orderA - orderB
         else if entry_id a < entry_id b then -1
         else if entry_id a > entry_id b then 1 else 0)"

definition isAfterScanCursor :: "store_entry_metadata \<Rightarrow> store_scan_cursor \<Rightarrow> bool" where
  "isAfterScanCursor meta cursor \<longleftrightarrow>
     (let order = receipt_order_of meta
      in order > cursor_receiptOrder cursor \<or>
         order = cursor_receiptOrder cursor \<and> entry_id meta > cursor_id cursor)"

definition metadataMatchesScanFilters ::
  "store_entry_metadata \<Rightarrow> store_scan_filters option \<Rightarrow> bool" where
  "metadataMatchesScanFilters meta filters =
     (case filters of
        None \<Rightarrow> True
      | Some f \<Rightarrow>
          if (case filter_docId f of None \<Rightarrow> False | Some d \<Rightarrow> d \<noteq> '''' \<and> docId meta \<noteq> d) then False
          else if (case filter_entryTypes f of None \<Rightarrow> False
                   | Some ts \<Rightarrow> ts \<noteq> [] \<and> entryType meta \<notin> set ts) then False
          else if (case filter_creationDateFrom f of None \<Rightarrow> False | Some t \<Rightarrow> createdAt meta < t) then False
          else if (case filter_creationDateUntil f of None \<Rightarrow> False | Some t \<Rightarrow> createdAt meta \<ge> t) then False
          else True)"

text \<open>\<^verbatim>\<open>cursor === null || isAfterScanCursor(meta, cursor)\<close>\<close>

definition after_cursor :: "store_scan_cursor option \<Rightarrow> store_entry_metadata \<Rightarrow> bool" where
  "after_cursor c meta = (case c of None \<Rightarrow> True | Some cur \<Rightarrow> isAfterScanCursor meta cur)"

text \<open>\<^verbatim>\<open>{ receiptOrder: last.receiptOrder ?? 0, id: last.id }\<close>\<close>

definition cursor_of :: "store_entry_metadata \<Rightarrow> store_scan_cursor" where
  "cursor_of m = \<lparr> cursor_receiptOrder = receipt_order_of m, cursor_id = entry_id m \<rparr>"

definition next_cursor ::
  "store_entry_metadata list \<Rightarrow> store_scan_cursor option \<Rightarrow> store_scan_cursor option" where
  "next_cursor page cursor = (if page \<noteq> [] then Some (cursor_of (last page)) else cursor)"

fun scan_doc_loop ::
  "store_scan_cursor option \<Rightarrow> int \<Rightarrow> store_scan_filters option \<Rightarrow> store_entry_metadata list \<Rightarrow>
   store_entry_metadata list \<Rightarrow> store_entry_metadata list \<times> bool" where
  "scan_doc_loop cursor limit filters [] page = (page, False)"
| "scan_doc_loop cursor limit filters (meta # rest) page =
     (if \<not> after_cursor cursor meta then scan_doc_loop cursor limit filters rest page
      else if \<not> metadataMatchesScanFilters meta filters
        then scan_doc_loop cursor limit filters rest page
      else if int (length page) < limit
        then scan_doc_loop cursor limit filters rest (page @ [meta])
      else (page, True))"

definition scanDocScopedEntries ::
  "store_entry_metadata list \<Rightarrow> store_scan_cursor option \<Rightarrow> int \<Rightarrow> store_scan_filters option \<Rightarrow>
   store_scan_result" where
  "scanDocScopedEntries docEntries cursor limit filters =
     (let sorted = js_sort compareByReceiptOrderAndId docEntries;
          (page, hasMore) = scan_doc_loop cursor limit filters sorted []
      in \<lparr> scan_entries = page, scan_nextCursor = next_cursor page cursor,
           scan_hasMore = hasMore \<rparr>)"

section \<open>The scan order\<close>

lemma compare_scan_le0:
  "compareByReceiptOrderAndId a b \<le> 0 \<longleftrightarrow>
     (receipt_order_of a, entry_id a) = (receipt_order_of b, entry_id b) \<or>
     receipt_order_of a < receipt_order_of b \<or>
     receipt_order_of a = receipt_order_of b \<and> entry_id a < entry_id b"
  by (auto simp: compareByReceiptOrderAndId_def Let_def)

interpretation scan_order: js_comparator compareByReceiptOrderAndId
  by unfold_locales (auto simp: compare_scan_le0)

lemma after_cursor_of_iff:
  "isAfterScanCursor m (cursor_of l) \<longleftrightarrow> \<not> compareByReceiptOrderAndId m l \<le> 0"
  by (auto simp: isAfterScanCursor_def cursor_of_def compare_scan_le0 Let_def)

lemma after_cursor_mono:
  "after_cursor c l \<Longrightarrow> compareByReceiptOrderAndId l m \<le> 0 \<Longrightarrow> after_cursor c m"
  by (auto simp: after_cursor_def isAfterScanCursor_def compare_scan_le0 Let_def
      split: option.splits)

section \<open>What one page returns\<close>

text \<open>
  The abstract specification of a scan over the entries \<open>xs\<close>: the matching entries
  strictly after the cursor, in scan order, cut at the limit.
\<close>

definition scan_candidates ::
  "store_entry_metadata list \<Rightarrow> store_scan_cursor option \<Rightarrow> store_scan_filters option \<Rightarrow>
   store_entry_metadata list" where
  "scan_candidates xs cursor filters =
     filter (\<lambda>m. after_cursor cursor m \<and> metadataMatchesScanFilters m filters)
       (js_sort compareByReceiptOrderAndId xs)"

definition scan_spec ::
  "store_entry_metadata list \<Rightarrow> store_scan_cursor option \<Rightarrow> int \<Rightarrow> store_scan_filters option \<Rightarrow>
   store_scan_result" where
  "scan_spec xs cursor limit filters =
     (let cs = scan_candidates xs cursor filters; page = take (nat limit) cs
      in \<lparr> scan_entries = page, scan_nextCursor = next_cursor page cursor,
           scan_hasMore = (nat limit < length cs) \<rparr>)"

lemma scan_doc_loop_eq:
  "scan_doc_loop cursor limit filters ms page =
     (let cs = filter (\<lambda>m. after_cursor cursor m \<and> metadataMatchesScanFilters m filters) ms;
          k = nat limit - length page
      in (page @ take k cs, k < length cs))"
proof (induction ms arbitrary: page)
  case (Cons m ms)
  show ?case
  proof (cases "after_cursor cursor m \<and> metadataMatchesScanFilters m filters")
    case True
    show ?thesis
    proof (cases "int (length page) < limit")
      case lt: True
      then have "nat limit - length page = Suc (nat limit - Suc (length page))" by simp
      then show ?thesis using True lt Cons.IH [of "page @ [m]"] by (simp add: Let_def)
    next
      case False
      then show ?thesis using True by (simp add: Let_def)
    qed
  next
    case False
    then show ?thesis using Cons.IH by (auto simp: Let_def)
  qed
qed simp

lemma scanDocScopedEntries_eq_spec:
  "scanDocScopedEntries xs cursor limit filters = scan_spec xs cursor limit filters"
  by (simp add: scanDocScopedEntries_def scan_spec_def scan_candidates_def scan_doc_loop_eq Let_def)

section \<open>Paging\<close>

text \<open>
  Following a scan to its end: fetch a page, go on from its \<^verbatim>\<open>nextCursor\<close> while
  \<^verbatim>\<open>hasMore\<close> holds. The fuel bounds the number of pages; \<open>None\<close> is running out.
\<close>

fun scan_all ::
  "(store_scan_cursor option \<Rightarrow> store_scan_result) \<Rightarrow> nat \<Rightarrow> store_scan_cursor option \<Rightarrow>
   store_entry_metadata list option" where
  "scan_all scan 0 cursor = None"
| "scan_all scan (Suc fuel) cursor =
     (let r = scan cursor
      in if scan_hasMore r
         then map_option (\<lambda>rest. scan_entries r @ rest) (scan_all scan fuel (scan_nextCursor r))
         else Some (scan_entries r))"

text \<open>Keys of the scan order are unique among the entries of one store.\<close>

definition scan_keys_unique :: "store_entry_metadata list \<Rightarrow> bool" where
  "scan_keys_unique xs \<longleftrightarrow> distinct (map (\<lambda>m. (receipt_order_of m, entry_id m)) xs)"

lemma scan_keys_uniqueD:
  "scan_keys_unique xs \<Longrightarrow> x \<in> set xs \<Longrightarrow> y \<in> set xs \<Longrightarrow>
   compareByReceiptOrderAndId x y \<le> 0 \<Longrightarrow> compareByReceiptOrderAndId y x \<le> 0 \<Longrightarrow> x = y"
  by (force simp: scan_keys_unique_def distinct_map compare_scan_le0 inj_on_def)

lemma scan_keys_unique_sort [simp]:
  "scan_keys_unique (js_sort cmp xs) = scan_keys_unique xs"
  unfolding scan_keys_unique_def
  by (rule mset_eq_imp_distinct_iff) simp

lemma scan_candidates_sorted:
  "sorted_wrt (\<lambda>x y. compareByReceiptOrderAndId x y \<le> 0) (scan_candidates xs c f)"
  by (simp add: scan_candidates_def sorted_wrt_filter scan_order.js_sort_sorted)

lemma scan_candidates_after:
  assumes uniq: "scan_keys_unique xs" and cs: "scan_candidates xs c f = ps @ l # rest"
  shows "scan_candidates xs (Some (cursor_of l)) f = rest"
proof -
  let ?s = "js_sort compareByReceiptOrderAndId xs"
  let ?P = "\<lambda>m. after_cursor c m \<and> metadataMatchesScanFilters m f"
  let ?A = "\<lambda>m. isAfterScanCursor m (cursor_of l)"
  have "l \<in> set (scan_candidates xs c f)" using cs by simp
  then have l: "l \<in> set ?s" "?P l" by (simp_all add: scan_candidates_def)
  have uniqs: "scan_keys_unique ?s" using uniq by simp
  have srt: "sorted_wrt (\<lambda>x y. compareByReceiptOrderAndId x y \<le> 0) (ps @ l # rest)"
    using scan_candidates_sorted [of xs c f] cs by simp
  have dist: "distinct (ps @ l # rest)"
    using uniq cs [symmetric] by (auto simp: scan_keys_unique_def scan_candidates_def distinct_map)
  have sub: "set (ps @ l # rest) \<subseteq> set ?s"
    using cs [symmetric] by (auto simp: scan_candidates_def)
  have "after_cursor c m" if "?A m" for m
    using that l(2) after_cursor_mono scan_order.cmp_total [of l m]
    by (auto simp: after_cursor_of_iff)
  then have "filter (\<lambda>m. ?A m \<and> metadataMatchesScanFilters m f) ?s = filter ?A (filter ?P ?s)"
    by (auto intro!: filter_cong)
  also have "\<dots> = filter ?A (ps @ l # rest)" using cs by (simp add: scan_candidates_def)
  also have "\<dots> = rest"
  proof -
    have "\<not> ?A m" if "m \<in> set ps" for m
      using that srt by (auto simp: after_cursor_of_iff sorted_wrt_append)
    moreover have "\<not> ?A l"
      using scan_order.cmp_total [of l l] by (auto simp: after_cursor_of_iff)
    moreover have "?A m" if m: "m \<in> set rest" for m
    proof (rule ccontr)
      assume "\<not> ?A m"
      then have "compareByReceiptOrderAndId m l \<le> 0" by (simp add: after_cursor_of_iff)
      moreover have "compareByReceiptOrderAndId l m \<le> 0"
        using m srt by (auto simp: sorted_wrt_append)
      ultimately have "m = l"
        using scan_keys_uniqueD [OF uniqs] m sub by auto
      with m dist show False by auto
    qed
    ultimately show ?thesis by simp
  qed
  finally show ?thesis by (simp add: scan_candidates_def after_cursor_def)
qed

text \<open>
  The interface of a paged scan over a source \<open>s\<close>: each page is a non-empty prefix of
  what is still to come (or there is nothing more), and the cursor it returns stands right
  after it. The laws hold for the sources the provider calls valid.
\<close>

locale paged_scan =
  fixes valid :: "'s \<Rightarrow> bool"
    and scan :: "'s \<Rightarrow> store_scan_cursor option \<Rightarrow> store_scan_result"
    and remaining :: "'s \<Rightarrow> store_scan_cursor option \<Rightarrow> store_entry_metadata list"
  assumes page_split:
      "valid s \<Longrightarrow> remaining s c = scan_entries (scan s c) @ remaining s (scan_nextCursor (scan s c))"
    and page_more: "valid s \<Longrightarrow> scan_hasMore (scan s c) \<Longrightarrow> scan_entries (scan s c) \<noteq> []"
    and page_done: "valid s \<Longrightarrow> \<not> scan_hasMore (scan s c) \<Longrightarrow> remaining s c = scan_entries (scan s c)"
begin

lemma scan_all_complete:
  assumes "valid s"
  shows "length (remaining s c) < fuel \<Longrightarrow> scan_all (scan s) fuel c = Some (remaining s c)"
proof (induction fuel arbitrary: c)
  case (Suc fuel)
  show ?case
  proof (cases "scan_hasMore (scan s c)")
    case True
    with assms have "scan_entries (scan s c) \<noteq> []" by (rule page_more)
    then have "0 < length (scan_entries (scan s c))" by simp
    with Suc.prems arg_cong [OF page_split [OF assms, of c], of length]
    have "length (remaining s (scan_nextCursor (scan s c))) < fuel" by (simp only: length_append)
    then show ?thesis using True Suc.IH page_split [OF assms, of c] by (simp add: Let_def)
  next
    case False
    then show ?thesis using page_done [OF assms, of c] by (simp add: Let_def)
  qed
qed simp

end

lemma scan_spec_page:
  assumes "scan_keys_unique xs" and "0 < limit" and r_def: "r = scan_spec xs c limit f"
  shows "scan_candidates xs c f = scan_entries r @ scan_candidates xs (scan_nextCursor r) f"
    and "scan_hasMore r \<Longrightarrow> scan_entries r \<noteq> []"
    and "\<not> scan_hasMore r \<Longrightarrow> scan_candidates xs c f = scan_entries r"
proof -
  let ?cs = "scan_candidates xs c f"
  have r: "scan_entries r = take (nat limit) ?cs"
    "scan_nextCursor r = next_cursor (take (nat limit) ?cs) c"
    "scan_hasMore r = (nat limit < length ?cs)"
    by (simp_all add: r_def scan_spec_def Let_def)
  show "?cs = scan_entries r @ scan_candidates xs (scan_nextCursor r) f"
  proof (cases "take (nat limit) ?cs = []")
    case True
    then show ?thesis using assms(2) by (auto simp: r next_cursor_def)
  next
    case False
    then obtain ps l where ps: "take (nat limit) ?cs = ps @ [l]" by (metis rev_exhaust)
    then have split: "?cs = ps @ l # drop (nat limit) ?cs"
      using append_take_drop_id [of "nat limit" ?cs] by simp
    from scan_candidates_after [OF assms(1) split]
    have "scan_candidates xs (scan_nextCursor r) f = drop (nat limit) ?cs"
      using ps by (simp add: r next_cursor_def)
    then show ?thesis by (simp add: r)
  qed
  show "scan_hasMore r \<Longrightarrow> scan_entries r \<noteq> []" using assms(2) by (auto simp: r)
  show "\<not> scan_hasMore r \<Longrightarrow> ?cs = scan_entries r" by (simp add: r)
qed

text \<open>The doc-scoped scan is a paged scan over any list of entries with unique scan keys.\<close>

interpretation doc_scan: paged_scan
  "\<lambda>(xs, limit). scan_keys_unique xs \<and> 0 < limit"
  "\<lambda>(xs, limit) c. scanDocScopedEntries xs c limit f"
  "\<lambda>(xs, limit) c. scan_candidates xs c f" for f
  by unfold_locales
    (auto simp: scanDocScopedEntries_eq_spec split: prod.splits dest: scan_spec_page(2) [OF _ _ refl]
      intro: scan_spec_page(1,3) [OF _ _ refl])

end
