(* ===== verification/InMemoryStore.thy ===== *)
theory InMemoryStore
  imports ScanUtils
begin

text \<open>
  The in-memory content-addressed store
  (\<^verbatim>\<open>core/appendonlystores/InMemoryContentAddressedStore.ts\<close>).

  The state is the record of the class's fields, the cached sorted list included. An operation
  that changes the state returns the new one; \<^verbatim>\<open>scanEntriesSince\<close> may fill the cache
  and returns it as well. The methods are \<^verbatim>\<open>async\<close> but contain no \<^verbatim>\<open>await\<close>
  before their last statement, so each is one atomic step. Logging is left out.

  \<open>lc\<close> is \<^verbatim>\<open>String.prototype.localeCompare\<close>, whose result depends on the
  host's collation: it is a parameter and no law is assumed of it. The fresh epoch of
  \<^verbatim>\<open>clearAllLocalData\<close> comes from the \<^verbatim>\<open>uuid\<close> package and is an argument.
\<close>

section \<open>State\<close>

record in_memory_store =
  store_dbId :: string
  storeKind :: store_kind
  entries :: "(string, store_entry_metadata) jsmap"
  contentStore :: "(string, bytes) jsmap"
  docIndex :: "(string, string jsset) jsmap"
  sortedEntriesCache :: "store_entry_metadata list option"
  nextReceiptOrder :: int
  storeEpoch :: string
  contentRefCount :: "(string, int) jsmap"
  indexingEnabled :: bool

definition new_store :: "string \<Rightarrow> store_kind \<Rightarrow> string \<Rightarrow> bool \<Rightarrow> in_memory_store" where
  "new_store dbId kind epoch indexing =
     \<lparr> store_dbId = dbId, storeKind = kind, entries = [], contentStore = [], docIndex = [],
       sortedEntriesCache = None, nextReceiptOrder = 1, storeEpoch = epoch,
       contentRefCount = [], indexingEnabled = indexing \<rparr>"

section \<open>Writing\<close>

definition put_entry :: "in_memory_store \<Rightarrow> store_entry \<Rightarrow> in_memory_store" where
  "put_entry s entry =
     (if map_has (entries s) (entry_id entry) then s
      else
        let metadata = (entry_rest entry)\<lparr> receiptOrder := Some (nextReceiptOrder s) \<rparr>;
            h = contentHash entry;
            d = docId entry;
            ids = (case map_of (docIndex s) d of None \<Rightarrow> [] | Some xs \<Rightarrow> xs);
            refs = (case map_of (contentRefCount s) h of None \<Rightarrow> 0 | Some n \<Rightarrow> n)
        in s\<lparr> entries := AList.update (entry_id entry) metadata (entries s),
              nextReceiptOrder := nextReceiptOrder s + 1,
              contentStore := (if map_has (contentStore s) h then contentStore s
                               else AList.update h (encryptedData entry) (contentStore s)),
              docIndex := AList.update d (set_add (entry_id entry) ids) (docIndex s),
              contentRefCount := AList.update h (refs + 1) (contentRefCount s) \<rparr>)"

definition putEntries :: "in_memory_store \<Rightarrow> store_entry list \<Rightarrow> in_memory_store" where
  "putEntries s es = (foldl put_entry s es)\<lparr> sortedEntriesCache := None \<rparr>"

text \<open>
  One receipt of \<^verbatim>\<open>applyWitnessReceipts\<close>; the flag is the local
  \<^verbatim>\<open>mutated\<close>.
\<close>

definition apply_receipt ::
  "in_memory_store \<times> bool \<Rightarrow> store_entry_metadata \<Rightarrow> in_memory_store \<times> bool" where
  "apply_receipt sm receipt =
     (let (s, mutated) = sm
      in if receivedAt receipt = None then (s, mutated)
         else case map_of (entries s) (entry_id receipt) of
           None \<Rightarrow> (s, mutated)
         | Some existing \<Rightarrow>
             if receivedAt existing = receivedAt receipt \<and>
                receivedByPublicKey existing = receivedByPublicKey receipt
             then (s, mutated)
             else (s\<lparr> entries := AList.update (entry_id receipt)
                       (existing\<lparr> receivedAt := receivedAt receipt,
                                  receivedByPublicKey := receivedByPublicKey receipt,
                                  receivedDateSignature := receivedDateSignature receipt,
                                  receiptScheme := receiptScheme receipt,
                                  receiptOrder := Some (nextReceiptOrder s) \<rparr>) (entries s),
                       nextReceiptOrder := nextReceiptOrder s + 1 \<rparr>, True))"

definition applyWitnessReceipts ::
  "in_memory_store \<Rightarrow> store_entry_metadata list \<Rightarrow> in_memory_store" where
  "applyWitnessReceipts s receipts =
     (let (s', mutated) = foldl apply_receipt (s, False) receipts
      in if mutated then s'\<lparr> sortedEntriesCache := None \<rparr> else s')"

definition purge_entry :: "in_memory_store \<Rightarrow> string \<Rightarrow> in_memory_store" where
  "purge_entry s i =
     (case map_of (entries s) i of
        None \<Rightarrow> s
      | Some metadata \<Rightarrow>
          let h = contentHash metadata;
              newCount = (case map_of (contentRefCount s) h of
                            None \<Rightarrow> 1 | Some n \<Rightarrow> if n = 0 then 1 else n) - 1;
              s1 = (if newCount \<le> 0
                    then s\<lparr> contentStore := AList.delete h (contentStore s),
                            contentRefCount := AList.delete h (contentRefCount s) \<rparr>
                    else s\<lparr> contentRefCount := AList.update h newCount (contentRefCount s) \<rparr>)
          in s1\<lparr> entries := AList.delete i (entries s1) \<rparr>)"

definition purgeDocHistory :: "in_memory_store \<Rightarrow> string \<Rightarrow> in_memory_store" where
  "purgeDocHistory s d =
     (case map_of (docIndex s) d of
        None \<Rightarrow> s
      | Some ids \<Rightarrow>
          if ids = [] then s
          else (let s1 = foldl purge_entry s ids
                in s1\<lparr> docIndex := AList.delete d (docIndex s1), sortedEntriesCache := None \<rparr>))"

definition clearAllLocalData :: "in_memory_store \<Rightarrow> string \<Rightarrow> in_memory_store" where
  "clearAllLocalData s freshEpoch =
     s\<lparr> entries := [], contentStore := [], docIndex := [], contentRefCount := [],
        sortedEntriesCache := None, nextReceiptOrder := 1, storeEpoch := freshEpoch \<rparr>"

section \<open>Reading\<close>

definition getEntries :: "in_memory_store \<Rightarrow> string list \<Rightarrow> store_entry list" where
  "getEntries s ids =
     concat (map (\<lambda>i. case map_of (entries s) i of
                        None \<Rightarrow> []
                      | Some metadata \<Rightarrow>
                          (case map_of (contentStore s) (contentHash metadata) of
                             None \<Rightarrow> []
                           | Some encrypted \<Rightarrow> [entry_with_data metadata encrypted])) ids)"

definition getEntryMetadata :: "in_memory_store \<Rightarrow> string \<Rightarrow> store_entry_metadata option" where
  "getEntryMetadata s i = map_of (entries s) i"

definition hasEntries :: "in_memory_store \<Rightarrow> string list \<Rightarrow> string list" where
  "hasEntries s ids = filter (map_has (entries s)) ids"

definition findNewEntries :: "in_memory_store \<Rightarrow> string list \<Rightarrow> store_entry_metadata list" where
  "findNewEntries s knownIds =
     map snd (filter (\<lambda>(i, metadata). i \<notin> set knownIds) (entries s))"

definition doc_ids :: "in_memory_store \<Rightarrow> string \<Rightarrow> string list" where
  "doc_ids s d = (case map_of (docIndex s) d of None \<Rightarrow> [] | Some ids \<Rightarrow> ids)"

definition doc_entries :: "in_memory_store \<Rightarrow> string \<Rightarrow> store_entry_metadata list" where
  "doc_entries s d = List.map_filter (map_of (entries s)) (doc_ids s d)"

definition findNewEntriesForDoc ::
  "in_memory_store \<Rightarrow> string list \<Rightarrow> string \<Rightarrow> store_entry_metadata list" where
  "findNewEntriesForDoc s knownIds d =
     List.map_filter (map_of (entries s)) (filter (\<lambda>i. i \<notin> set knownIds) (doc_ids s d))"

definition findEntries ::
  "in_memory_store \<Rightarrow> store_entry_type \<Rightarrow> int option \<Rightarrow> int option \<Rightarrow> store_entry_metadata list" where
  "findEntries s ty from until =
     filter (\<lambda>m. entryType m = ty
               \<and> \<not> (case from of None \<Rightarrow> False | Some t \<Rightarrow> createdAt m < t)
               \<and> \<not> (case until of None \<Rightarrow> False | Some t \<Rightarrow> createdAt m \<ge> t))
       (map_values (entries s))"

definition getAllIds :: "in_memory_store \<Rightarrow> string list" where
  "getAllIds s = map_keys (entries s)"

definition getStoreHead :: "in_memory_store \<Rightarrow> store_head" where
  "getStoreHead s = \<lparr> head_epoch = storeEpoch s, head_maxReceiptOrder = nextReceiptOrder s - 1 \<rparr>"

record store_stats =
  entryCount :: nat
  contentCount :: nat
  docCount :: nat

definition getStats :: "in_memory_store \<Rightarrow> store_stats" where
  "getStats s = \<lparr> entryCount = length (entries s), contentCount = length (contentStore s),
                  docCount = length (docIndex s) \<rparr>"

section \<open>Scanning\<close>

definition sorted_entries_compare ::
  "(string \<Rightarrow> string \<Rightarrow> int) \<Rightarrow> store_entry_metadata \<Rightarrow> store_entry_metadata \<Rightarrow> int" where
  "sorted_entries_compare lc a b =
     (if receipt_order_of a = receipt_order_of b then lc (entry_id a) (entry_id b)
      else receipt_order_of a - receipt_order_of b)"

definition getSortedEntries ::
  "(string \<Rightarrow> string \<Rightarrow> int) \<Rightarrow> in_memory_store \<Rightarrow> store_entry_metadata list \<times> in_memory_store" where
  "getSortedEntries lc s =
     (case sortedEntriesCache s of
        Some cached \<Rightarrow> (cached, s)
      | None \<Rightarrow>
          let srt = js_sort (sorted_entries_compare lc) (map_values (entries s))
          in (srt, s\<lparr> sortedEntriesCache := Some srt \<rparr>))"

text \<open>
  \<^verbatim>\<open>(lo + hi) >>> 1\<close> is the halving of the 32-bit sum; below \<open>2^31\<close> entries it
  is \<open>(lo + hi) div 2\<close>.
\<close>

function binarySearchAfterCursor ::
  "store_entry_metadata list \<Rightarrow> store_scan_cursor \<Rightarrow> nat \<Rightarrow> nat \<Rightarrow> nat" where
  "binarySearchAfterCursor srt cursor lo hi =
     (if lo < hi
      then let mid = (lo + hi) div 2; m = srt ! mid
           in if receipt_order_of m < cursor_receiptOrder cursor \<or>
                 receipt_order_of m = cursor_receiptOrder cursor \<and> entry_id m \<le> cursor_id cursor
              then binarySearchAfterCursor srt cursor (mid + 1) hi
              else binarySearchAfterCursor srt cursor lo mid
      else lo)"
  by pat_completeness auto
termination
  by (relation "measure (\<lambda>(_, _, lo, hi). hi - lo)") auto

declare binarySearchAfterCursor.simps [simp del]

definition matchesScanFilters ::
  "store_entry_metadata \<Rightarrow> store_scan_filters option \<Rightarrow> bool" where
  "matchesScanFilters meta filters =
     (case filters of
        None \<Rightarrow> True
      | Some f \<Rightarrow>
          if (case filter_docId f of None \<Rightarrow> False | Some d \<Rightarrow> d \<noteq> '''' \<and> docId meta \<noteq> d) then False
          else if (case filter_entryTypes f of None \<Rightarrow> False
                   | Some ts \<Rightarrow> ts \<noteq> [] \<and> entryType meta \<notin> set ts) then False
          else if (case filter_creationDateFrom f of None \<Rightarrow> False | Some t \<Rightarrow> createdAt meta < t) then False
          else if (case filter_creationDateUntil f of None \<Rightarrow> False | Some t \<Rightarrow> createdAt meta \<ge> t) then False
          else True)"

text \<open>The forward pass: the page and the entries after the index where the loop stopped.\<close>

fun scan_collect ::
  "store_scan_filters option \<Rightarrow> int \<Rightarrow> store_entry_metadata list \<Rightarrow> store_entry_metadata list \<Rightarrow>
   store_entry_metadata list \<times> store_entry_metadata list" where
  "scan_collect filters limit [] page = (page, [])"
| "scan_collect filters limit (m # rest) page =
     (if int (length page) < limit
      then scan_collect filters limit rest (if matchesScanFilters m filters then page @ [m] else page)
      else (page, m # rest))"

definition scan_store ::
  "(string \<Rightarrow> string \<Rightarrow> int) \<Rightarrow> in_memory_store \<Rightarrow> store_scan_cursor option \<Rightarrow> int \<Rightarrow>
   store_scan_filters option \<Rightarrow> store_scan_result \<times> in_memory_store" where
  "scan_store lc s cursor limit filters =
     (let (srt, s') = getSortedEntries lc s;
          startIdx = (case cursor of None \<Rightarrow> 0
                      | Some c \<Rightarrow> binarySearchAfterCursor srt c 0 (length srt));
          (page, rest) = scan_collect filters limit (drop startIdx srt) [];
          hasMore = list_ex (\<lambda>m. matchesScanFilters m filters) rest
      in (\<lparr> scan_entries = page, scan_nextCursor = next_cursor page cursor,
            scan_hasMore = hasMore \<rparr>, s'))"

definition scanEntriesSince ::
  "(string \<Rightarrow> string \<Rightarrow> int) \<Rightarrow> in_memory_store \<Rightarrow> store_scan_cursor option \<Rightarrow> int \<Rightarrow>
   store_scan_filters option \<Rightarrow> store_scan_result \<times> in_memory_store" where
  "scanEntriesSince lc s cursor limit filters =
     (case Option.bind filters filter_docId of
        Some d \<Rightarrow>
          if d \<noteq> '''' then (scanDocScopedEntries (doc_entries s d) cursor limit filters, s)
          else scan_store lc s cursor limit filters
      | None \<Rightarrow> scan_store lc s cursor limit filters)"

section \<open>Dependency resolution\<close>

record resolve_options =
  stopAtEntryType :: "store_entry_type option"
  maxDepth :: "int option"
  includeStart :: bool

text \<open>
  The work list of \<^verbatim>\<open>resolveDependencies\<close>: the queue from \<^verbatim>\<open>queueIdx\<close> on,
  the visited set and the result. Each step either drops a queue element or visits a stored
  entry that was not visited before.
\<close>

function resolve_loop ::
  "(string, store_entry_metadata) jsmap \<Rightarrow> resolve_options \<Rightarrow> string \<Rightarrow>
   (string \<times> int) list \<Rightarrow> string jsset \<Rightarrow> string list \<Rightarrow> string list" where
  "resolve_loop es opt startId [] visited result = result"
| "resolve_loop es opt startId ((i, depth) # queue) visited result =
     (if i \<in> set visited then resolve_loop es opt startId queue visited result
      else
        let visited' = set_add i visited
        in if (case maxDepth opt of None \<Rightarrow> False | Some d \<Rightarrow> depth > d)
           then resolve_loop es opt startId queue visited' result
           else case map_of es i of
             None \<Rightarrow> resolve_loop es opt startId queue visited' result
           | Some entry \<Rightarrow>
               if stopAtEntryType opt = Some (entryType entry) \<and> i \<noteq> startId
               then resolve_loop es opt startId queue visited' (result @ [i])
               else resolve_loop es opt startId
                      (queue @ map (\<lambda>d. (d, depth + 1))
                                 (filter (\<lambda>d. d \<notin> set visited') (dependencyIds entry)))
                      visited'
                      (if i \<noteq> startId \<or> includeStart opt then result @ [i] else result))"
  by pat_completeness auto
termination
  by (relation "measures [\<lambda>(es, opt, startId, queue, visited, result).
                             card (set (map_keys es) - set visited),
                           \<lambda>(es, opt, startId, queue, visited, result). length queue]")
    (auto simp: card_unvisited_known card_unvisited_cases)

declare resolve_loop.simps(2) [simp del]

definition resolveDependencies ::
  "in_memory_store \<Rightarrow> string \<Rightarrow> resolve_options \<Rightarrow> string list" where
  "resolveDependencies s startId opt =
     rev (resolve_loop (entries s) opt startId [(startId, 0)] [] [])"

section \<open>The invariant\<close>

text \<open>
  \<open>entries_inv\<close>: entries are keyed by their own id and carry pairwise different receipt
  orders below the counter. \<open>content_inv\<close>: the reference count of a content hash is the
  number of entries that carry it, and exactly the referenced contents are stored.
  \<open>index_inv\<close>: the document index lists exactly the entries of each document.
  \<open>cache_inv\<close>: a cached list is the sorted list of the current entries.
\<close>

definition entries_inv :: "in_memory_store \<Rightarrow> bool" where
  "entries_inv s \<longleftrightarrow>
     distinct (map_keys (entries s)) \<and>
     (\<forall>(i, m) \<in> set (entries s). entry_id m = i) \<and>
     (\<forall>m \<in> set (map_values (entries s)).
        \<exists>n. receiptOrder m = Some n \<and> 1 \<le> n \<and> n < nextReceiptOrder s) \<and>
     distinct (map receipt_order_of (map_values (entries s))) \<and>
     1 \<le> nextReceiptOrder s"

definition refs_of :: "(string, store_entry_metadata) jsmap \<Rightarrow> string \<Rightarrow> nat" where
  "refs_of es h = length (filter (\<lambda>(i, m). contentHash m = h) es)"

definition content_inv :: "in_memory_store \<Rightarrow> bool" where
  "content_inv s \<longleftrightarrow>
     distinct (map_keys (contentStore s)) \<and>
     distinct (map_keys (contentRefCount s)) \<and>
     (\<forall>h. map_of (contentRefCount s) h =
            (if refs_of (entries s) h = 0 then None else Some (int (refs_of (entries s) h)))) \<and>
     (\<forall>h. map_of (contentStore s) h = None \<longleftrightarrow> refs_of (entries s) h = 0)"

definition index_inv :: "in_memory_store \<Rightarrow> bool" where
  "index_inv s \<longleftrightarrow>
     distinct (map_keys (docIndex s)) \<and>
     (\<forall>d. distinct (doc_ids s d) \<and>
          set (doc_ids s d) = {i. \<exists>m. map_of (entries s) i = Some m \<and> docId m = d} \<and>
          map_of (docIndex s) d \<noteq> Some [])"

definition cache_inv :: "in_memory_store \<Rightarrow> bool" where
  "cache_inv s \<longleftrightarrow>
     (\<forall>c. sortedEntriesCache s = Some c \<longrightarrow>
          c = js_sort compareByReceiptOrderAndId (map_values (entries s)))"

definition store_inv :: "in_memory_store \<Rightarrow> bool" where
  "store_inv s \<longleftrightarrow> entries_inv s \<and> content_inv s \<and> index_inv s \<and> cache_inv s"

lemmas store_inv_defs = store_inv_def entries_inv_def content_inv_def index_inv_def cache_inv_def

lemma inv_frame [simp]:
  "entries_inv (s\<lparr> sortedEntriesCache := c \<rparr>) = entries_inv s"
  "content_inv (s\<lparr> sortedEntriesCache := c \<rparr>) = content_inv s"
  "index_inv (s\<lparr> sortedEntriesCache := c \<rparr>) = index_inv s"
  "doc_ids (s\<lparr> sortedEntriesCache := c \<rparr>) d = doc_ids s d"
  "entries_inv (s\<lparr> docIndex := x \<rparr>) = entries_inv s"
  "content_inv (s\<lparr> docIndex := x \<rparr>) = content_inv s"
  by (simp_all add: entries_inv_def content_inv_def index_inv_def doc_ids_def)

lemma doc_ids_frame [simp]:
  "doc_ids (s\<lparr> entries := x \<rparr>) d = doc_ids s d"
  "doc_ids (s\<lparr> nextReceiptOrder := n \<rparr>) d = doc_ids s d"
  by (simp_all add: doc_ids_def)

lemma cache_inv_None [simp]: "cache_inv (s\<lparr> sortedEntriesCache := None \<rparr>)"
  by (simp add: cache_inv_def)

lemma store_inv_new: "store_inv (new_store dbId kind epoch indexing)"
  by (simp add: store_inv_defs new_store_def refs_of_def doc_ids_def)

lemma entries_invD:
  assumes "entries_inv s"
  shows "distinct (map_keys (entries s))"
    and "map_of (entries s) i = Some m \<Longrightarrow> entry_id m = i"
    and "map_of (entries s) i = Some m \<Longrightarrow>
           receiptOrder m = Some (receipt_order_of m) \<and> 1 \<le> receipt_order_of m \<and>
           receipt_order_of m < nextReceiptOrder s"
    and "distinct (map receipt_order_of (map_values (entries s)))"
    and "1 \<le> nextReceiptOrder s"
  using assms
  by (auto simp: entries_inv_def receipt_order_of_def dest!: map_of_SomeD) (force)?

subsection \<open>Lists of entries under update and delete\<close>

lemma refs_of_append [simp]: "refs_of (es @ fs) h = refs_of es h + refs_of fs h"
  by (simp add: refs_of_def)

lemma refs_of_single [simp]: "refs_of [(i, m)] h = (if contentHash m = h then 1 else 0)"
  by (simp add: refs_of_def)

lemma refs_of_update_same:
  "map_of es i = Some m \<Longrightarrow> contentHash m' = contentHash m \<Longrightarrow>
   refs_of (AList.update i m' es) h = refs_of es h"
  by (induction es) (auto simp: refs_of_def split: if_splits)

lemma refs_of_delete:
  "distinct (map_keys es) \<Longrightarrow> map_of es i = Some m \<Longrightarrow>
   refs_of es h = refs_of (AList.delete i es) h + (if contentHash m = h then 1 else 0)"
proof (induction es)
  case (Cons p es)
  then show ?case
    by (cases p) (auto simp: refs_of_def delete_absent split: if_splits dest: map_of_SomeD)
qed simp

lemma refs_of_pos: "map_of es i = Some m \<Longrightarrow> 0 < refs_of es (contentHash m)"
  by (induction es) (auto simp: refs_of_def split: if_splits)

lemma values_update_subset:
  "set (map_values (AList.update i m es)) \<subseteq> insert m (set (map_values es))"
  by (induction es) auto

lemma orders_update_distinct:
  "distinct (map (f \<circ> snd) es) \<Longrightarrow> f m \<notin> (f \<circ> snd) ` set es \<Longrightarrow>
   distinct (map (f \<circ> snd) (AList.update i m es))"
proof (induction es)
  case (Cons p es)
  have "(f \<circ> snd) ` set (AList.update i m es) \<subseteq> insert (f m) ((f \<circ> snd) ` set es)"
    using image_mono [OF values_update_subset [of i m es], of f] by (simp add: image_comp)
  with Cons show ?case by (cases p) auto
qed simp

lemma orders_delete_distinct:
  "distinct (map (f \<circ> snd) es) \<Longrightarrow> distinct (map (f \<circ> snd) (AList.delete i es))"
  unfolding AList.delete_eq by (rule distinct_map_filter)

subsection \<open>Every operation keeps it\<close>

lemma put_entry_old: "map_has (entries s) (entry_id e) \<Longrightarrow> put_entry s e = s"
  by (simp add: put_entry_def)

lemma put_entry_entries:
  assumes "\<not> map_has (entries s) (entry_id e)"
  shows "entries (put_entry s e) =
           entries s @ [(entry_id e, (entry_rest e)\<lparr> receiptOrder := Some (nextReceiptOrder s) \<rparr>)]"
    and "nextReceiptOrder (put_entry s e) = nextReceiptOrder s + 1"
  using assms by (simp_all add: put_entry_def Let_def update_fresh map_has_iff)

lemma put_entry_maps:
  assumes "\<not> map_has (entries s) (entry_id e)"
  shows "map_of (entries (put_entry s e)) =
           (map_of (entries s))
             (entry_id e \<mapsto> (entry_rest e)\<lparr> receiptOrder := Some (nextReceiptOrder s) \<rparr>)"
    and "map_of (contentStore (put_entry s e)) =
           (if map_has (contentStore s) (contentHash e) then map_of (contentStore s)
            else (map_of (contentStore s))(contentHash e \<mapsto> encryptedData e))"
    and "map_of (contentRefCount (put_entry s e)) =
           (map_of (contentRefCount s))(contentHash e \<mapsto>
              (case map_of (contentRefCount s) (contentHash e) of None \<Rightarrow> 0 | Some n \<Rightarrow> n) + 1)"
    and "doc_ids (put_entry s e) d =
           (if d = docId e then set_add (entry_id e) (doc_ids s d) else doc_ids s d)"
    and "map_of (docIndex (put_entry s e)) d =
           (if d = docId e then Some (set_add (entry_id e) (doc_ids s d)) else map_of (docIndex s) d)"
  using assms by (simp_all add: put_entry_def Let_def map_of_update doc_ids_def)

lemma put_entry_entries_inv: "entries_inv s \<Longrightarrow> entries_inv (put_entry s e)"
proof (cases "map_has (entries s) (entry_id e)")
  case False
  let ?n = "nextReceiptOrder s"
  assume inv: "entries_inv s"
  have "?n \<notin> receipt_order_of ` set (map_values (entries s))"
    using inv by (auto simp: entries_inv_def receipt_order_of_def)
  with inv False show ?thesis
    by (force simp: entries_inv_def put_entry_entries map_has_iff receipt_order_of_def)
qed (simp add: put_entry_old)

lemma put_entry_content_inv: "content_inv s \<Longrightarrow> content_inv (put_entry s e)"
proof (cases "map_has (entries s) (entry_id e)")
  case False
  assume inv: "content_inv s"
  have "distinct (map_keys (contentRefCount (put_entry s e)))"
    using inv False by (simp add: put_entry_def Let_def content_inv_def)
  moreover have "distinct (map_keys (contentStore (put_entry s e)))"
    using inv False by (simp add: put_entry_def Let_def content_inv_def)
  ultimately show ?thesis
    using inv False
    by (auto simp: content_inv_def put_entry_entries put_entry_maps map_has_def split: option.splits)
qed (simp add: put_entry_old)

lemma put_entry_index_inv: "index_inv s \<Longrightarrow> index_inv (put_entry s e)"
proof (cases "map_has (entries s) (entry_id e)")
  case False
  assume inv: "index_inv s"
  have "distinct (map_keys (docIndex (put_entry s e)))"
    using inv False by (simp add: put_entry_def Let_def index_inv_def)
  moreover have "map_of (entries s) (entry_id e) = None" using False by (simp add: map_has_def)
  ultimately show ?thesis
    using inv False by (auto simp: index_inv_def put_entry_maps set_add_def)
qed (simp add: put_entry_old)

lemma foldl_inv: "(\<And>s x. P s \<Longrightarrow> P (f s x)) \<Longrightarrow> P s \<Longrightarrow> P (foldl f s xs)"
  by (induction xs arbitrary: s) auto

lemma putEntries_inv: "store_inv s \<Longrightarrow> store_inv (putEntries s es)"
proof -
  assume "store_inv s"
  then have "entries_inv s \<and> content_inv s \<and> index_inv s" by (simp add: store_inv_def)
  then have "entries_inv (foldl put_entry s es) \<and> content_inv (foldl put_entry s es) \<and>
      index_inv (foldl put_entry s es)"
    by (rule foldl_inv [rotated])
      (auto intro: put_entry_entries_inv put_entry_content_inv put_entry_index_inv)
  then show ?thesis by (simp add: store_inv_def putEntries_def)
qed

lemma apply_receipt_inv:
  assumes "entries_inv s \<and> content_inv s \<and> index_inv s"
  shows "entries_inv (fst (apply_receipt (s, b) r)) \<and> content_inv (fst (apply_receipt (s, b) r)) \<and>
         index_inv (fst (apply_receipt (s, b) r))"
proof (cases "fst (apply_receipt (s, b) r) = s")
  case False
  then obtain m where m: "map_of (entries s) (entry_id r) = Some m"
    by (auto simp: apply_receipt_def split: if_splits option.splits)
  define m' where "m' = m\<lparr> receivedAt := receivedAt r, receivedByPublicKey := receivedByPublicKey r,
      receivedDateSignature := receivedDateSignature r, receiptScheme := receiptScheme r,
      receiptOrder := Some (nextReceiptOrder s) \<rparr>"
  have s': "fst (apply_receipt (s, b) r) =
      s\<lparr> entries := AList.update (entry_id r) m' (entries s),
         nextReceiptOrder := nextReceiptOrder s + 1 \<rparr>"
    using False m by (auto simp: apply_receipt_def m'_def split: if_splits)
  have m'_sel: "entry_id m' = entry_id m" "contentHash m' = contentHash m" "docId m' = docId m"
    "receiptOrder m' = Some (nextReceiptOrder s)" by (simp_all add: m'_def)
  have inv: "entries_inv s" "content_inv s" "index_inv s" using assms by auto
  have fresh: "receipt_order_of m' \<notin> (receipt_order_of \<circ> snd) ` set (entries s)"
    using inv(1) m'_sel by (auto simp: entries_inv_def receipt_order_of_def)
  have keys: "set (map_keys (AList.update (entry_id r) m' (entries s))) = set (map_keys (entries s))"
    using m by (simp add: keys_update map_of_Some_key)
  have vals: "set (AList.update (entry_id r) m' (entries s)) \<subseteq>
      insert (entry_id r, m') (set (entries s))"
    by (rule set_update_subset)
  have old: "entry_id n = i \<and> (\<exists>k. receiptOrder n = Some k \<and> 1 \<le> k \<and> k < nextReceiptOrder s + 1)"
    if "(i, n) \<in> set (entries s)" for i n
    using inv(1) that by (force simp: entries_inv_def)
  have "1 \<le> nextReceiptOrder s" using inv(1) by (simp add: entries_inv_def)
  then have "entry_id n = i \<and> (\<exists>k. receiptOrder n = Some k \<and> 1 \<le> k \<and> k < nextReceiptOrder s + 1)"
    if "(i, n) \<in> set (AList.update (entry_id r) m' (entries s))" for i n
    using that vals old m'_sel entries_invD(2) [OF inv(1) m] by auto
  then have "entries_inv (fst (apply_receipt (s, b) r))"
    using inv(1) orders_update_distinct [OF _ fresh] by (auto simp: s' entries_inv_def)
  moreover have "content_inv (fst (apply_receipt (s, b) r))"
    using inv(2) refs_of_update_same [OF m m'_sel(2)] by (simp add: s' content_inv_def)
  moreover have "index_inv (fst (apply_receipt (s, b) r))"
    using inv(3) m m'_sel by (auto simp: s' index_inv_def map_of_update)
  ultimately show ?thesis by blast
qed (use assms in simp)

lemma apply_receipt_frame:
  assumes "apply_receipt (s, b) r = (s', b')"
  shows "sortedEntriesCache s' = sortedEntriesCache s" and "b' \<or> s' = s" and "b \<longrightarrow> b'"
  using assms by (auto simp: apply_receipt_def split: if_splits option.splits)

lemma apply_receipts_inv:
  assumes "entries_inv s \<and> content_inv s \<and> index_inv s"
    and "foldl apply_receipt (s, b) rs = (s', b')"
  shows "entries_inv s' \<and> content_inv s' \<and> index_inv s' \<and> (b \<longrightarrow> b') \<and> (b' \<or> s' = s)"
  using assms
proof (induction rs arbitrary: s b)
  case (Cons r rs)
  obtain s1 b1 where s1: "apply_receipt (s, b) r = (s1, b1)" by fastforce
  from Cons.IH [of s1 b1] apply_receipt_inv [OF Cons.prems(1), of b r] Cons.prems(2)
  show ?case using apply_receipt_frame [OF s1] s1 by auto
qed auto

lemma applyWitnessReceipts_inv: "store_inv s \<Longrightarrow> store_inv (applyWitnessReceipts s rs)"
proof -
  assume inv: "store_inv s"
  obtain s' b' where f: "foldl apply_receipt (s, False) rs = (s', b')" by (rule prod.exhaust)
  have "entries_inv s' \<and> content_inv s' \<and> index_inv s' \<and> (b' \<or> s' = s)"
    using apply_receipts_inv [OF _ f] inv by (simp add: store_inv_def)
  then show ?thesis
    using inv by (cases b') (simp_all add: applyWitnessReceipts_def f store_inv_def)
qed

subsection \<open>Purging\<close>

lemma purge_entry_effect:
  assumes ent: "entries_inv s" and con: "content_inv s" and m: "map_of (entries s) i = Some m"
  shows "entries (purge_entry s i) = AList.delete i (entries s)"
    and "nextReceiptOrder (purge_entry s i) = nextReceiptOrder s"
    and "docIndex (purge_entry s i) = docIndex s"
    and "entries_inv (purge_entry s i)" and "content_inv (purge_entry s i)"
    and "map_of (contentStore (purge_entry s i)) h =
           (if refs_of (AList.delete i (entries s)) h = 0 then None else map_of (contentStore s) h)"
proof -
  let ?h = "contentHash m" and ?es = "AList.delete i (entries s)"
  have dist: "distinct (map_keys (entries s))" using ent by (simp add: entries_inv_def)
  note del = refs_of_delete [OF dist m]
  have cnt: "map_of (contentRefCount s) ?h = Some (int (refs_of (entries s) ?h))"
    using con refs_of_pos [OF m] by (auto simp: content_inv_def)
  have eff: "purge_entry s i =
      (if refs_of ?es ?h = 0
       then s\<lparr> contentStore := AList.delete ?h (contentStore s),
               contentRefCount := AList.delete ?h (contentRefCount s), entries := ?es \<rparr>
       else s\<lparr> contentRefCount := AList.update ?h (int (refs_of ?es ?h)) (contentRefCount s),
               entries := ?es \<rparr>)"
    using del [of ?h] by (simp add: purge_entry_def m cnt Let_def)
  show "entries (purge_entry s i) = ?es" "nextReceiptOrder (purge_entry s i) = nextReceiptOrder s"
    "docIndex (purge_entry s i) = docIndex s"
    by (simp_all add: eff)
  show "entries_inv (purge_entry s i)"
    using ent orders_delete_distinct [of receipt_order_of "entries s" i]
    by (auto simp: entries_inv_def eff AList.delete_eq intro: distinct_map_filter)
  show "content_inv (purge_entry s i)"
    using con del by (auto simp: content_inv_def eff map_of_update map_of_delete)
  show "map_of (contentStore (purge_entry s i)) h =
           (if refs_of ?es h = 0 then None else map_of (contentStore s) h)"
    using con del [of h] by (auto simp: content_inv_def eff map_of_delete)
qed

lemma purge_entries_effect:
  assumes "entries_inv s" and "content_inv s"
  shows "entries (foldl purge_entry s ids) = filter (\<lambda>(i, m). i \<notin> set ids) (entries s) \<and>
         nextReceiptOrder (foldl purge_entry s ids) = nextReceiptOrder s \<and>
         docIndex (foldl purge_entry s ids) = docIndex s \<and>
         entries_inv (foldl purge_entry s ids) \<and> content_inv (foldl purge_entry s ids) \<and>
         (\<forall>h. map_of (contentStore (foldl purge_entry s ids)) h =
                (if refs_of (filter (\<lambda>(i, m). i \<notin> set ids) (entries s)) h = 0 then None
                 else map_of (contentStore s) h))"
  using assms
proof (induction ids arbitrary: s)
  case Nil
  then show ?case by (auto simp: content_inv_def)
next
  case (Cons i ids)
  show ?case
  proof (cases "map_of (entries s) i")
    case None
    then have "filter (\<lambda>(k, m). k \<notin> set (i # ids)) (entries s) =
        filter (\<lambda>(k, m). k \<notin> set ids) (entries s)"
      by (intro filter_cong) (force simp: map_of_eq_None_iff)+
    moreover have "purge_entry s i = s" using None by (simp add: purge_entry_def)
    ultimately show ?thesis using Cons.IH [OF Cons.prems] by simp
  next
    case (Some m)
    note eff = purge_entry_effect [OF Cons.prems Some]
    have f: "filter (\<lambda>(k, m). k \<notin> set ids) (AList.delete i (entries s)) =
        filter (\<lambda>(k, m). k \<notin> set (i # ids)) (entries s)"
      by (auto simp: AList.delete_eq intro!: filter_cong)
    have "refs_of (AList.delete i (entries s)) h = 0 \<Longrightarrow>
        refs_of (filter (\<lambda>(k, m). k \<notin> set (i # ids)) (entries s)) h = 0" for h
      by (auto simp: refs_of_def AList.delete_eq filter_empty_conv)
    then show ?thesis using Cons.IH [OF eff(4,5)] by (simp add: eff f del: set_simps)
  qed
qed

lemma doc_ids_entries:
  assumes "index_inv s" and "distinct (map_keys (entries s))"
  shows "filter (\<lambda>(i, m). i \<notin> set (doc_ids s d)) (entries s) =
         filter (\<lambda>(i, m). docId m \<noteq> d) (entries s)"
  using assms by (auto simp: index_inv_def intro!: filter_cong dest: eq_key_imp_eq_value)

lemma purgeDocHistory_effect:
  assumes "store_inv s"
  shows "entries (purgeDocHistory s d) = filter (\<lambda>(i, m). docId m \<noteq> d) (entries s)"
    and "map_of (contentStore (purgeDocHistory s d)) h =
           (if refs_of (filter (\<lambda>(i, m). docId m \<noteq> d) (entries s)) h = 0 then None
            else map_of (contentStore s) h)"
    and "nextReceiptOrder (purgeDocHistory s d) = nextReceiptOrder s"
    and "store_inv (purgeDocHistory s d)"
proof -
  have inv: "entries_inv s" "content_inv s" "index_inv s" "cache_inv s"
    using assms by (auto simp: store_inv_def)
  have dist: "distinct (map_keys (entries s))" using inv(1) by (simp add: entries_inv_def)
  note flt = doc_ids_entries [OF inv(3) dist, of d]
  note eff = purge_entries_effect [OF inv(1,2), of "doc_ids s d", unfolded flt]
  have "entries (purgeDocHistory s d) = filter (\<lambda>(i, m). docId m \<noteq> d) (entries s) \<and>
    (\<forall>h. map_of (contentStore (purgeDocHistory s d)) h =
           (if refs_of (filter (\<lambda>(i, m). docId m \<noteq> d) (entries s)) h = 0 then None
            else map_of (contentStore s) h)) \<and>
    nextReceiptOrder (purgeDocHistory s d) = nextReceiptOrder s \<and>
    store_inv (purgeDocHistory s d)"
  proof (cases "map_of (docIndex s) d")
    case None
    then have "doc_ids s d = []" by (simp add: doc_ids_def)
    then have "filter (\<lambda>(i, m). docId m \<noteq> d) (entries s) = entries s" using flt by simp
    moreover have "purgeDocHistory s d = s" using None by (simp add: purgeDocHistory_def)
    ultimately show ?thesis using assms inv(2) by (simp add: content_inv_def)
  next
    case (Some ids)
    then have ids: "doc_ids s d = ids" "ids \<noteq> []" using inv(3) by (auto simp: doc_ids_def index_inv_def)
    define s1 where "s1 = foldl purge_entry s ids"
    have p: "purgeDocHistory s d = s1\<lparr> docIndex := AList.delete d (docIndex s1), sortedEntriesCache := None \<rparr>"
      using Some ids by (simp add: purgeDocHistory_def s1_def Let_def)
    note e1 = eff [unfolded ids(1), folded s1_def]
    have "doc_ids (purgeDocHistory s d) d' = (if d' = d then [] else doc_ids s d')" for d'
      using e1 by (simp add: doc_ids_def p map_of_delete)
    moreover have "{i. \<exists>m. map_of (entries s1) i = Some m \<and> docId m = d'} =
        (if d' = d then {} else {i. \<exists>m. map_of (entries s) i = Some m \<and> docId m = d'})" for d'
      using e1 by (auto simp: map_of_filter_vals [OF dist] split: option.splits)
    ultimately have "index_inv (purgeDocHistory s d)"
      using inv(3) e1 by (simp add: index_inv_def p map_of_delete)
    then show ?thesis using e1 by (simp add: p store_inv_def)
  qed
  then show "entries (purgeDocHistory s d) = filter (\<lambda>(i, m). docId m \<noteq> d) (entries s)"
    and "map_of (contentStore (purgeDocHistory s d)) h =
           (if refs_of (filter (\<lambda>(i, m). docId m \<noteq> d) (entries s)) h = 0 then None
            else map_of (contentStore s) h)"
    and "nextReceiptOrder (purgeDocHistory s d) = nextReceiptOrder s"
    and "store_inv (purgeDocHistory s d)" by blast+
qed

lemma clearAllLocalData_inv: "store_inv (clearAllLocalData s ep)"
  by (simp add: store_inv_defs clearAllLocalData_def refs_of_def doc_ids_def)

section \<open>Scanning\<close>

lemma matchesScanFilters_eq: "matchesScanFilters m f = metadataMatchesScanFilters m f"
  by (simp add: matchesScanFilters_def metadataMatchesScanFilters_def)

lemma sort_insert_cong:
  "(\<And>y. y \<in> set ys \<Longrightarrow> cmp x y = cmp' x y) \<Longrightarrow> sort_insert cmp x ys = sort_insert cmp' x ys"
  by (induction ys) auto

lemma js_sort_cong_distinct:
  "distinct xs \<Longrightarrow> (\<And>x y. x \<in> set xs \<Longrightarrow> y \<in> set xs \<Longrightarrow> x \<noteq> y \<Longrightarrow> cmp x y = cmp' x y) \<Longrightarrow>
   js_sort cmp xs = js_sort cmp' xs"
proof (induction xs)
  case (Cons x xs)
  then have "js_sort cmp xs = js_sort cmp' xs" by auto
  moreover have "cmp x y = cmp' x y" if "y \<in> set xs" for y
    using Cons.prems(1) that by (intro Cons.prems(2)) auto
  ultimately show ?case by (auto simp: js_sort_Cons intro!: sort_insert_cong)
qed simp

text \<open>
  Receipt orders are unique, so the host's collation never decides the order: the sorted list
  is the one by \<open>(receiptOrder, id)\<close>.
\<close>

lemma entries_inv_keys_unique: "entries_inv s \<Longrightarrow> scan_keys_unique (map_values (entries s))"
  by (auto simp: entries_inv_def scan_keys_unique_def distinct_map inj_on_def)

lemma sorted_entries_eq:
  assumes "entries_inv s"
  shows "js_sort (sorted_entries_compare lc) (map_values (entries s)) =
         js_sort compareByReceiptOrderAndId (map_values (entries s))"
proof (rule js_sort_cong_distinct)
  have d: "distinct (map receipt_order_of (map_values (entries s)))"
    using assms by (simp add: entries_inv_def)
  then show "distinct (map_values (entries s))"
    unfolding distinct_map [of receipt_order_of] by (rule conjunct1)
  fix x y assume "x \<in> set (map_values (entries s))" "y \<in> set (map_values (entries s))" "x \<noteq> y"
  then have "receipt_order_of x \<noteq> receipt_order_of y" using d by (auto simp: distinct_map inj_on_def)
  then show "sorted_entries_compare lc x y = compareByReceiptOrderAndId x y"
    by (simp add: sorted_entries_compare_def compareByReceiptOrderAndId_def Let_def)
qed

lemma getSortedEntries_eq:
  assumes "store_inv s"
  shows "fst (getSortedEntries lc s) = js_sort compareByReceiptOrderAndId (map_values (entries s))"
    and "entries (snd (getSortedEntries lc s)) = entries s"
    and "store_inv (snd (getSortedEntries lc s))"
  using assms sorted_entries_eq [of s lc]
  by (auto simp: getSortedEntries_def store_inv_def cache_inv_def Let_def split: option.splits)

lemma binarySearch_correct:
  assumes "sorted_wrt (\<lambda>x y. compareByReceiptOrderAndId x y \<le> 0) srt"
    and "lo \<le> hi" and "hi \<le> length srt"
    and "\<And>k. k < lo \<Longrightarrow> \<not> isAfterScanCursor (srt ! k) c"
    and "\<And>k. hi \<le> k \<Longrightarrow> k < length srt \<Longrightarrow> isAfterScanCursor (srt ! k) c"
  shows "drop (binarySearchAfterCursor srt c lo hi) srt = filter (\<lambda>m. isAfterScanCursor m c) srt"
  using assms
proof (induction srt c lo hi rule: binarySearchAfterCursor.induct)
  case (1 srt c lo hi)
  let ?mid = "(lo + hi) div 2"
  have before: "(receipt_order_of m < cursor_receiptOrder c \<or>
      receipt_order_of m = cursor_receiptOrder c \<and> entry_id m \<le> cursor_id c) \<longleftrightarrow>
      \<not> isAfterScanCursor m c" for m
    by (auto simp: isAfterScanCursor_def Let_def)
  have mono: "isAfterScanCursor (srt ! j) c \<Longrightarrow> j \<le> k \<Longrightarrow> k < length srt \<Longrightarrow> isAfterScanCursor (srt ! k) c"
    for j k
    using "1.prems"(1) after_cursor_mono [of "Some c" "srt ! j" "srt ! k"]
    by (cases "j = k") (auto simp: after_cursor_def sorted_wrt_iff_nth_less)
  show ?case
  proof (cases "lo < hi")
    case True
    then have mid: "lo \<le> ?mid" "?mid < hi" "?mid < length srt" using "1.prems"(3) by auto
    show ?thesis
    proof (cases "isAfterScanCursor (srt ! ?mid) c")
      case aft: True
      have "drop (binarySearchAfterCursor srt c lo ?mid) srt = filter (\<lambda>m. isAfterScanCursor m c) srt"
        by (rule "1.IH"(2)) (use True aft mid "1.prems" before mono in auto)
      then show ?thesis using True aft
        by (simp add: binarySearchAfterCursor.simps [of srt c lo hi] before Let_def)
    next
      case notaft: False
      then have "\<not> isAfterScanCursor (srt ! k) c" if "k < ?mid + 1" for k
        using mono [of k ?mid] mid that by auto
      then have "drop (binarySearchAfterCursor srt c (?mid + 1) hi) srt = filter (\<lambda>m. isAfterScanCursor m c) srt"
        by (intro "1.IH"(1)) (use True notaft mid "1.prems" before in auto)
      then show ?thesis using True notaft
        by (simp add: binarySearchAfterCursor.simps [of srt c lo hi] before Let_def)
    qed
  next
    case False
    then have "lo = hi" using "1.prems"(2) by simp
    then have "filter (\<lambda>m. isAfterScanCursor m c) (take lo srt) = []"
      "filter (\<lambda>m. isAfterScanCursor m c) (drop lo srt) = drop lo srt"
      using "1.prems"(3-5) by (auto simp: filter_empty_conv filter_id_conv in_set_conv_nth)
    then have "filter (\<lambda>m. isAfterScanCursor m c) srt = drop lo srt"
      by (metis append_Nil append_take_drop_id filter_append)
    then show ?thesis using False by (simp add: binarySearchAfterCursor.simps [of srt c lo hi])
  qed
qed

lemma scan_collect_eq:
  "scan_collect f limit ms page = (p, rest) \<Longrightarrow>
   p = page @ take (nat limit - length page) (filter (\<lambda>m. matchesScanFilters m f) ms) \<and>
   list_ex (\<lambda>m. matchesScanFilters m f) rest =
     (nat limit - length page < length (filter (\<lambda>m. matchesScanFilters m f) ms))"
proof (induction ms arbitrary: page)
  case (Cons m ms)
  show ?case
  proof (cases "int (length page) < limit")
    case True
    then have "nat limit - length page = Suc (nat limit - Suc (length page))" by simp
    with True Cons.prems Cons.IH [of "if matchesScanFilters m f then page @ [m] else page"]
    show ?thesis by (auto split: if_splits)
  next
    case False
    then show ?thesis using Cons.prems by (auto simp: list_ex_iff filter_empty_conv)
  qed
qed simp

lemma scan_store_eq_spec:
  assumes "store_inv s"
  shows "fst (scan_store lc s cursor limit f) = scan_spec (map_values (entries s)) cursor limit f"
proof -
  let ?srt = "js_sort compareByReceiptOrderAndId (map_values (entries s))"
  let ?idx = "case cursor of None \<Rightarrow> 0 | Some c \<Rightarrow> binarySearchAfterCursor ?srt c 0 (length ?srt)"
  have "drop (binarySearchAfterCursor ?srt c 0 (length ?srt)) ?srt =
      filter (\<lambda>m. isAfterScanCursor m c) ?srt" for c
    by (rule binarySearch_correct [OF scan_order.js_sort_sorted]) auto
  then have "drop ?idx ?srt = filter (after_cursor cursor) ?srt"
    by (cases cursor) (simp_all add: after_cursor_def [abs_def])
  then have cands: "filter (\<lambda>m. matchesScanFilters m f) (drop ?idx ?srt) =
      scan_candidates (map_values (entries s)) cursor f"
    by (simp add: scan_candidates_def matchesScanFilters_eq conj_commute)
  obtain p rest where pr: "scan_collect f limit (drop ?idx ?srt) [] = (p, rest)" by fastforce
  obtain s' where "getSortedEntries lc s = (?srt, s')"
    using getSortedEntries_eq(1) [OF assms, of lc] by (metis prod.collapse)
  with pr scan_collect_eq [OF pr, unfolded cands] show ?thesis
    by (simp add: scan_store_def scan_spec_def Let_def)
qed

lemma set_doc_entries:
  assumes "store_inv s"
  shows "set (doc_entries s d) = {m \<in> set (map_values (entries s)). docId m = d}"
    and "distinct (doc_entries s d)"
proof -
  have inv: "entries_inv s" "index_inv s" using assms by (auto simp: store_inv_def)
  then have ids: "set (doc_ids s d) = {i. \<exists>m. map_of (entries s) i = Some m \<and> docId m = d}"
    and dist: "distinct (doc_ids s d)" by (auto simp: index_inv_def)
  then have "filter (\<lambda>i. map_of (entries s) i \<noteq> None) (doc_ids s d) = doc_ids s d"
    by (intro filter_True) auto
  then have mf: "doc_entries s d = map (the \<circ> map_of (entries s)) (doc_ids s d)"
    by (simp add: doc_entries_def List.map_filter_def)
  show "set (doc_entries s d) = {m \<in> set (map_values (entries s)). docId m = d}"
    unfolding set_eq_iff mem_Collect_eq map_values_iff [OF entries_invD(1) [OF inv(1)]]
    using ids by (auto simp: mf simp del: map_of_eq_Some_iff intro: rev_image_eqI)
  have "inj_on (the \<circ> map_of (entries s)) (set (doc_ids s d))"
  proof (rule inj_onI)
    fix i j assume ij: "i \<in> set (doc_ids s d)" "j \<in> set (doc_ids s d)"
      and eq: "(the \<circ> map_of (entries s)) i = (the \<circ> map_of (entries s)) j"
    then obtain m n where "map_of (entries s) i = Some m" "map_of (entries s) j = Some n"
      using ids by blast
    with eq show "i = j" using entries_invD(2) [OF inv(1)] by (metis comp_apply option.sel)
  qed
  then show "distinct (doc_entries s d)" using dist by (simp add: mf distinct_map)
qed

lemma scan_candidates_doc:
  assumes inv: "store_inv s" and f: "filter_docId f = Some d" "d \<noteq> ''''"
  shows "scan_candidates (doc_entries s d) c (Some f) =
         scan_candidates (map_values (entries s)) c (Some f)"
proof (rule scan_order.sorted_perm_unique [OF scan_candidates_sorted scan_candidates_sorted])
  let ?vs = "map_values (entries s)"
  have ent: "entries_inv s" using inv by (simp add: store_inv_def)
  then have uniq: "scan_keys_unique ?vs" by (rule entries_inv_keys_unique)
  then have "distinct ?vs" unfolding scan_keys_unique_def distinct_map [of _ ?vs] by (rule conjunct1)
  moreover have "metadataMatchesScanFilters m (Some f) \<Longrightarrow> docId m = d" for m
    using f by (auto simp: metadataMatchesScanFilters_def split: if_splits)
  ultimately show "mset (scan_candidates (doc_entries s d) c (Some f)) =
      mset (scan_candidates ?vs c (Some f))"
    using set_doc_entries [OF inv, of d]
    by (intro set_eq_iff_mset_eq_distinct [THEN iffD1]) (auto simp: scan_candidates_def)
  fix x y assume "x \<in> set (scan_candidates (doc_entries s d) c (Some f))"
    "y \<in> set (scan_candidates (doc_entries s d) c (Some f))"
    "compareByReceiptOrderAndId x y \<le> 0" "compareByReceiptOrderAndId y x \<le> 0"
  then show "x = y"
    using set_doc_entries(1) [OF inv, of d]
    by (intro scan_keys_uniqueD [OF uniq]) (auto simp: scan_candidates_def)
qed

lemma scanEntriesSince_eq_spec:
  assumes "store_inv s"
  shows "fst (scanEntriesSince lc s cursor limit f) = scan_spec (map_values (entries s)) cursor limit f"
proof (cases "\<exists>g d. f = Some g \<and> filter_docId g = Some d \<and> d \<noteq> ''''")
  case True
  then obtain g d where g: "f = Some g" "filter_docId g = Some d" "d \<noteq> ''''" by blast
  then show ?thesis
    using scan_candidates_doc [OF assms g(2,3)]
    by (simp add: scanEntriesSince_def scanDocScopedEntries_eq_spec scan_spec_def)
next
  case False
  then have "scanEntriesSince lc s cursor limit f = scan_store lc s cursor limit f"
    by (cases f) (auto simp: scanEntriesSince_def split: option.splits)
  then show ?thesis using scan_store_eq_spec [OF assms] by simp
qed

lemma scanEntriesSince_state:
  assumes "store_inv s"
  shows "entries (snd (scanEntriesSince lc s cursor limit f)) = entries s"
    and "store_inv (snd (scanEntriesSince lc s cursor limit f))"
proof -
  have "snd (scanEntriesSince lc s cursor limit f) = s \<or>
      snd (scanEntriesSince lc s cursor limit f) = snd (getSortedEntries lc s)"
    by (auto simp: scanEntriesSince_def scan_store_def split: option.splits prod.splits)
  then show "entries (snd (scanEntriesSince lc s cursor limit f)) = entries s"
    and "store_inv (snd (scanEntriesSince lc s cursor limit f))"
    using assms getSortedEntries_eq(2,3) [OF assms, of lc] by auto
qed

end
