(* ===== verification/StoreBehaviour.thy ===== *)
theory StoreBehaviour
  imports InMemoryStore
begin

text \<open>
  What the in-memory store promises to its clients: the invariant over every sequence of
  operations, the round trip of writing and reading, paging to completion, purging, and the
  result of \<^verbatim>\<open>resolveDependencies\<close>.
\<close>

section \<open>Sequences of operations\<close>

text \<open>
  One step of a store: a public operation that changes the state, a filled cache included.
\<close>

inductive store_step ::
  "(string \<Rightarrow> string \<Rightarrow> int) \<Rightarrow> in_memory_store \<Rightarrow> in_memory_store \<Rightarrow> bool"
  for lc :: "string \<Rightarrow> string \<Rightarrow> int" where
  step_put: "store_step lc s (putEntries s es)"
| step_receipts: "store_step lc s (applyWitnessReceipts s rs)"
| step_purge: "store_step lc s (purgeDocHistory s d)"
| step_clear: "store_step lc s (clearAllLocalData s epoch)"
| step_scan: "store_step lc s (snd (scanEntriesSince lc s cursor limit f))"

inductive store_reachable ::
  "(string \<Rightarrow> string \<Rightarrow> int) \<Rightarrow> in_memory_store \<Rightarrow> bool"
  for lc :: "string \<Rightarrow> string \<Rightarrow> int" where
  reach_new: "store_reachable lc (new_store dbId kind epoch indexing)"
| reach_step: "store_reachable lc s \<Longrightarrow> store_step lc s s' \<Longrightarrow> store_reachable lc s'"

inductive_cases store_stepE: "store_step lc s s'"

lemma store_step_inv: "store_step lc s s' \<Longrightarrow> store_inv s \<Longrightarrow> store_inv s'"
  by (induction rule: store_step.induct)
    (auto intro: putEntries_inv applyWitnessReceipts_inv purgeDocHistory_effect(4)
      clearAllLocalData_inv scanEntriesSince_state(2))

section \<open>Writing and reading\<close>

lemma foldl_put_frame:
  "map_of (entries s) i = Some m \<Longrightarrow> map_of (entries (foldl put_entry s es)) i = Some m"
  "map_of (contentStore s) h = Some d \<Longrightarrow> map_of (contentStore (foldl put_entry s es)) h = Some d"
proof (induction es arbitrary: s)
  case (Cons e es)
  {
    case 1
    have "map_of (entries (put_entry s e)) i = Some m"
      using 1 by (cases "map_has (entries s) (entry_id e)")
        (auto simp: put_entry_old put_entry_maps, auto simp: map_has_def)
    then show ?case using Cons.IH(1) by simp
  next
    case 2
    have "map_of (contentStore (put_entry s e)) h = Some d"
      using 2 by (cases "map_has (entries s) (entry_id e)")
        (auto simp: put_entry_old put_entry_maps map_has_def)
    then show ?case using Cons.IH(2) by simp
  }
qed simp_all

lemma putEntries_sel [simp]:
  "entries (putEntries s es) = entries (foldl put_entry s es)"
  "contentStore (putEntries s es) = contentStore (foldl put_entry s es)"
  "nextReceiptOrder (putEntries s es) = nextReceiptOrder (foldl put_entry s es)"
  by (simp_all add: putEntries_def)

lemma stored_content:
  "store_inv s \<Longrightarrow> map_of (entries s) i = Some m \<Longrightarrow> \<exists>d. map_of (contentStore s) (contentHash m) = Some d"
proof -
  assume inv: "store_inv s" and m: "map_of (entries s) i = Some m"
  then have "map_of (contentStore s) (contentHash m) \<noteq> None"
    using refs_of_pos [OF m] by (simp add: store_inv_def content_inv_def)
  then show ?thesis by (rule not_None_eq [THEN iffD1])
qed

lemma getEntries_putEntries [simp]: "getEntries (putEntries s es) = getEntries (foldl put_entry s es)"
  by (rule ext) (simp add: getEntries_def cong: option.case_cong)

lemma getEntries_Cons: "getEntries s (i # is) = getEntries s [i] @ getEntries s is"
  by (simp add: getEntries_def)

lemma getEntries_old:
  assumes "store_inv s" and "set ids \<subseteq> set (getAllIds s)"
  shows "getEntries (putEntries s es) ids = getEntries s ids"
  using assms(2)
proof (induction ids)
  case (Cons i ids)
  then obtain m where m: "map_of (entries s) i = Some m"
    using map_of_eq_None_iff [of "entries s" i] by (auto simp: getAllIds_def)
  moreover obtain d where "map_of (contentStore s) (contentHash m) = Some d"
    using stored_content [OF assms(1) m] by blast
  ultimately have "getEntries (putEntries s es) [i] = getEntries s [i]"
    using foldl_put_frame by (simp add: getEntries_def)
  then show ?case
    using Cons by (simp add: getEntries_Cons [of _ i ids])
qed (simp add: getEntries_def)

text \<open>
  Content addressing: two entries with the same content hash carry the same bytes. The code
  relies on it when it stores only the first of them.
\<close>

definition content_addressed :: "in_memory_store \<Rightarrow> store_entry list \<Rightarrow> bool" where
  "content_addressed s es \<longleftrightarrow>
     (\<forall>e \<in> set es. (\<forall>e' \<in> set es. contentHash e' = contentHash e \<longrightarrow> encryptedData e' = encryptedData e) \<and>
        (case map_of (contentStore s) (contentHash e) of None \<Rightarrow> True | Some d \<Rightarrow> d = encryptedData e))"

text \<open>The entry as the store hands it back: with the receipt order it was given.\<close>

abbreviation stamped :: "store_entry \<Rightarrow> int \<Rightarrow> store_entry" where
  "stamped e n \<equiv> e\<lparr> receiptOrder := Some n \<rparr>"

lemma entry_with_data_stamped:
  "entry_with_data ((entry_rest e)\<lparr> receiptOrder := Some n \<rparr>) (encryptedData e) = stamped e n"
  by (cases e) (simp add: entry_with_data_def store_entry_metadata.defs store_entry.defs)

lemma put_new_get:
  assumes "\<not> map_has (entries s) (entry_id e)" and "content_addressed s (e # es)"
  shows "getEntries (foldl put_entry (put_entry s e) es) [entry_id e] = [stamped e (nextReceiptOrder s)]"
proof -
  have "map_of (contentStore (put_entry s e)) (contentHash e) = Some (encryptedData e)"
    using assms by (auto simp: put_entry_maps map_has_def content_addressed_def split: option.splits)
  moreover have "map_of (entries (put_entry s e)) (entry_id e) =
      Some ((entry_rest e)\<lparr> receiptOrder := Some (nextReceiptOrder s) \<rparr>)"
    using assms by (simp add: put_entry_maps)
  ultimately show ?thesis
    using foldl_put_frame [where es = es and s = "put_entry s e"]
    by (simp add: getEntries_def entry_with_data_stamped)
qed

lemma content_addressed_step:
  assumes ca: "content_addressed s (e # es)"
  shows "content_addressed (put_entry s e) es"
proof (cases "map_has (entries s) (entry_id e)")
  case True
  then show ?thesis
    using ca unfolding content_addressed_def put_entry_old [OF True] by (meson list.set_intros(2))
next
  case False
  have "case map_of (contentStore (put_entry s e)) (contentHash e') of None \<Rightarrow> True
      | Some d \<Rightarrow> d = encryptedData e'" if "e' \<in> set es" for e'
  proof -
    have e': "e' \<in> set (e # es)" "e \<in> set (e # es)" using that by simp_all
    note props = bspec [OF ca [unfolded content_addressed_def] e'(1)]
    note same = bspec [OF conjunct1 [OF props] e'(2)] and old = conjunct2 [OF props]
    show ?thesis
    proof (cases "contentHash e = contentHash e'")
      case True
      then have "encryptedData e = encryptedData e'" using same by blast
      then show ?thesis using True old by (simp add: put_entry_maps(2) [OF False])
    qed (use old in \<open>simp add: put_entry_maps(2) [OF False]\<close>)
  qed
  then show ?thesis using ca unfolding content_addressed_def by (meson list.set_intros(2))
qed

lemma foldl_put_get:
  assumes "distinct (map entry_id es)" and "set (map entry_id es) \<inter> set (getAllIds s) = {}"
    and "content_addressed s es"
  shows "getEntries (foldl put_entry s es) (map entry_id es) =
         map2 stamped es (map (\<lambda>k. nextReceiptOrder s + int k) [0..<length es])"
  using assms
proof (induction es arbitrary: s)
  case (Cons e es)
  have new: "\<not> map_has (entries s) (entry_id e)"
    using Cons.prems by (auto simp: getAllIds_def map_has_iff)
  have "set (map entry_id es) \<inter> set (getAllIds (put_entry s e)) = {}"
    using Cons.prems new by (auto simp: getAllIds_def put_entry_entries)
  then have "getEntries (foldl put_entry (put_entry s e) es) (map entry_id es) =
      map2 stamped es (map (\<lambda>k. nextReceiptOrder s + 1 + int k) [0..<length es])"
    using Cons.IH [of "put_entry s e"] Cons.prems content_addressed_step new
    by (simp add: put_entry_entries)
  moreover have "map (\<lambda>k. nextReceiptOrder s + int k) [0..<length (e # es)] =
      nextReceiptOrder s # map (\<lambda>k. nextReceiptOrder s + 1 + int k) [0..<length es]"
    by (simp add: upt_conv_Cons map_Suc_upt [symmetric] del: upt_Suc)
  ultimately show ?case
    using put_new_get [OF new Cons.prems(3)]
      getEntries_Cons [of "foldl put_entry (put_entry s e) es" "entry_id e" "map entry_id es"]
    by simp
qed (simp add: getEntries_def)

lemma foldl_put_old:
  "set (map entry_id es) \<subseteq> set (map_keys (entries s)) \<Longrightarrow> foldl put_entry s es = s"
  by (induction es) (simp_all add: put_entry_old map_has_iff)

lemma keys_put_entry: "set (map_keys (entries (put_entry s e))) = insert (entry_id e) (set (map_keys (entries s)))"
  by (cases "map_has (entries s) (entry_id e)")
    (auto simp: put_entry_old put_entry_entries, auto simp: map_has_iff)

lemma keys_foldl_put:
  "set (map_keys (entries (foldl put_entry s es))) = set (map_keys (entries s)) \<union> set (map entry_id es)"
  by (induction es arbitrary: s) (auto simp: keys_put_entry simp del: set_map)

text \<open>A store with two entries of one document and one of another that shares its content.\<close>

definition demo_entries :: "store_entry list" where
  "demo_entries = [sample_entry ''a'' ''d1'' [] ''h1'' [1], sample_entry ''b'' ''d1'' [''a''] ''h2'' [2],
     sample_entry ''c'' ''d2'' [] ''h1'' [1]]"

definition demo_store :: in_memory_store where
  "demo_store = putEntries (new_store ''db'' kind_docs ''e0'' True) demo_entries"

lemma demo_store_inv: "store_inv demo_store"
  unfolding demo_store_def by (intro putEntries_inv store_inv_new)

lemma demo_ids: "getAllIds demo_store = [''a'', ''b'', ''c'']"
  by (simp add: demo_store_def demo_entries_def getAllIds_def put_entry_def new_store_def
      map_has_def Let_def)

lemma demo_not_new: "getAllIds (new_store dbId kind epoch indexing) = []"
  by (simp add: getAllIds_def new_store_def)

text \<open>
  C1. Every store state that a sequence of public operations can produce from a new store
  satisfies the invariant: entries are keyed by their ids with pairwise different receipt
  orders below the counter, content is stored and counted exactly as it is referenced, the
  document index lists exactly the entries of each document, and a cached list is current.
\<close>

theorem store_reachable_inv: "store_reachable lc s \<Longrightarrow> store_inv s"
  by (induction rule: store_reachable.induct) (auto intro: store_inv_new store_step_inv)

lemma demo_reachable: "store_reachable lc demo_store"
  unfolding demo_store_def by (rule reach_step, rule reach_new, rule step_put)

theorem store_reachable_inv_witness: "store_inv demo_store"
  using store_reachable_inv [OF demo_reachable] .

text \<open>
  Writing new entries and reading them by id gives back the entries that were written, in
  the order asked for, stamped with consecutive receipt orders from the store's counter: no
  field and no byte of content changes. The content store is keyed by hash, so this needs that
  entries with the same hash carry the same bytes.
\<close>

theorem put_get_roundtrip:
  assumes "distinct (map entry_id es)" and "set (map entry_id es) \<inter> set (getAllIds s) = {}"
    and "content_addressed s es"
  shows "getEntries (putEntries s es) (map entry_id es) =
         map2 stamped es (map (\<lambda>k. nextReceiptOrder s + int k) [0..<length es])"
  using foldl_put_get [OF assms] by simp

theorem put_get_roundtrip_witness:
  "getEntries demo_store [''a'', ''b'', ''c''] =
   [stamped (sample_entry ''a'' ''d1'' [] ''h1'' [1]) 1,
    stamped (sample_entry ''b'' ''d1'' [''a''] ''h2'' [2]) 2,
    stamped (sample_entry ''c'' ''d2'' [] ''h1'' [1]) 3]"
proof -
  let ?s = "new_store ''db'' kind_docs ''e0'' True"
  have "content_addressed ?s demo_entries"
    by (simp add: content_addressed_def demo_entries_def new_store_def)
  moreover have "nextReceiptOrder ?s = 1" by (simp add: new_store_def)
  ultimately show ?thesis
    using put_get_roundtrip [of demo_entries ?s] demo_not_new
    by (simp add: demo_store_def demo_entries_def upt_rec)
qed

text \<open>
  The store is append-only and writing is idempotent: after any write the entries that
  were there read exactly as before, and writing the same entries again changes nothing.
\<close>

theorem put_append_only:
  assumes "store_inv s" and "set ids \<subseteq> set (getAllIds s)"
  shows "getEntries (putEntries s es) ids = getEntries s ids \<and>
         putEntries (putEntries s es) es = putEntries s es"
proof -
  have "foldl put_entry (putEntries s es) es = putEntries s es"
    by (rule foldl_put_old) (simp add: keys_foldl_put del: set_map)
  then have "putEntries (putEntries s es) es = putEntries s es"
    by (simp add: putEntries_def [of "putEntries s es"]) (simp add: putEntries_def)
  then show ?thesis using getEntries_old [OF assms] by blast
qed

theorem put_append_only_witness:
  "getEntries (putEntries demo_store [sample_entry ''x'' ''d1'' [''b''] ''h2'' [2]]) [''b''] =
     getEntries demo_store [''b'']"
  using put_append_only [OF demo_store_inv, of "[''b'']"
      "[sample_entry ''x'' ''d1'' [''b''] ''h2'' [2]]"]
  by (simp add: demo_ids)

section \<open>Scanning to the end\<close>

text \<open>The store is a paged scan with respect to the abstract specification of a scan.\<close>

interpretation store_scan: paged_scan
  "\<lambda>(s, limit). store_inv s \<and> 0 < limit"
  "\<lambda>(s, limit) c. fst (scanEntriesSince lc s c limit f)"
  "\<lambda>(s, limit) c. scan_candidates (map_values (entries s)) c f" for lc f
  by unfold_locales
    (auto simp: scanEntriesSince_eq_spec split: prod.splits
      dest: scan_spec_page(2) [OF entries_inv_keys_unique _ refl, rotated 2]
      intro: scan_spec_page(1,3) [OF entries_inv_keys_unique _ refl] simp: store_inv_def)

text \<open>
  C2. One scan page of the store, whichever internal path serves it (the document index, or the
  cached sorted list with binary search), is the abstract one: the matching entries strictly
  after the cursor in \<open>(receiptOrder, id)\<close> order, cut at the limit, with
  \<^verbatim>\<open>hasMore\<close> telling exactly whether some were left. The host's string collation never
  matters.
\<close>

theorem scan_page_refines_spec:
  assumes "store_inv s"
  shows "fst (scanEntriesSince lc s cursor limit f) = scan_spec (map_values (entries s)) cursor limit f"
  using scanEntriesSince_eq_spec [OF assms] .

theorem scan_page_refines_spec_witness:
  "fst (scanEntriesSince (\<lambda>_ _. 0) demo_store None 2 None) =
     scan_spec (map_values (entries demo_store)) None 2 None \<and>
   length (scan_entries (scan_spec (map_values (entries demo_store)) None 2 None)) = 2"
proof -
  have "length (entries demo_store) = 3" using arg_cong [OF demo_ids, of length] by (simp add: getAllIds_def)
  then have "length (scan_candidates (map_values (entries demo_store)) None None) = 3"
    by (simp add: scan_candidates_def after_cursor_def metadataMatchesScanFilters_def)
  then show ?thesis
    using scan_page_refines_spec [OF demo_store_inv, of "\<lambda>_ _. 0" None 2 None]
    by (simp add: scan_spec_def Let_def)
qed

text \<open>
  C3. A client that follows \<^verbatim>\<open>nextCursor\<close> while \<^verbatim>\<open>hasMore\<close> holds sees every
  stored entry that passes the filters exactly once and in scan order, whatever positive page
  size it uses, and needs at most one page per entry and one more.
\<close>

theorem scan_pages_complete:
  assumes "store_inv s" and "0 < limit"
  shows "scan_all (\<lambda>c. fst (scanEntriesSince lc s c limit f)) (Suc (length (entries s))) None =
         Some (filter (\<lambda>m. metadataMatchesScanFilters m f)
                (js_sort compareByReceiptOrderAndId (map_values (entries s))))"
proof -
  let ?cs = "scan_candidates (map_values (entries s)) None f"
  have cs: "?cs = filter (\<lambda>m. metadataMatchesScanFilters m f)
      (js_sort compareByReceiptOrderAndId (map_values (entries s)))"
    by (simp add: scan_candidates_def after_cursor_def)
  have "length ?cs \<le> length (js_sort compareByReceiptOrderAndId (map_values (entries s)))"
    unfolding cs by (rule length_filter_le)
  then have "length ?cs < Suc (length (entries s))" by simp
  with store_scan.scan_all_complete [of "(s, limit)" f None "Suc (length (entries s))" lc] assms cs
  show ?thesis by simp
qed

theorem scan_pages_complete_witness:
  "\<exists>ms. scan_all (\<lambda>c. fst (scanEntriesSince (\<lambda>_ _. 0) demo_store c 2 None)) 4 None = Some ms \<and>
        length ms = 3"
proof -
  have "length (entries demo_store) = 3" using arg_cong [OF demo_ids, of length] by (simp add: getAllIds_def)
  then show ?thesis
    using scan_pages_complete [OF demo_store_inv, of 2 "\<lambda>_ _. 0" None]
    by (simp add: metadataMatchesScanFilters_def)
qed

section \<open>Purging\<close>

text \<open>
  \<^verbatim>\<open>purgeDocHistory\<close> removes every entry of the document and no other, keeps the
  content bytes that entries of other documents still reference and drops the others, and the
  receipt counter never goes back, so cursors persisted by a peer stay valid.
\<close>

theorem purge_exact:
  assumes "store_inv s"
  shows "entries (purgeDocHistory s d) = filter (\<lambda>(i, m). docId m \<noteq> d) (entries s) \<and>
         map_of (contentStore (purgeDocHistory s d)) h =
           (if \<exists>(i, m) \<in> set (entries s). docId m \<noteq> d \<and> contentHash m = h
            then map_of (contentStore s) h else None) \<and>
         nextReceiptOrder (purgeDocHistory s d) = nextReceiptOrder s"
  using purgeDocHistory_effect(1-3) [OF assms, of d]
  by (auto simp: refs_of_def filter_empty_conv)

theorem purge_exact_witness:
  "getAllIds (purgeDocHistory demo_store ''d1'') = [''c''] \<and>
   map_of (contentStore (purgeDocHistory demo_store ''d1'')) ''h2'' = None"
proof -
  have es: "entries demo_store =
      [(''a'', (sample_metadata doc_change ''a'' ''d1'' [] ''h1'' 0)\<lparr> receiptOrder := Some 1 \<rparr>),
       (''b'', (sample_metadata doc_change ''b'' ''d1'' [''a''] ''h2'' 0)\<lparr> receiptOrder := Some 2 \<rparr>),
       (''c'', (sample_metadata doc_change ''c'' ''d2'' [] ''h1'' 0)\<lparr> receiptOrder := Some 3 \<rparr>)]"
    by (simp add: demo_store_def demo_entries_def put_entry_def new_store_def map_has_def Let_def)
  show ?thesis
    using purge_exact [OF demo_store_inv, of "''d1''" "''h2''"] by (simp add: es getAllIds_def)
qed

section \<open>Dependency resolution\<close>

text \<open>
  The edges a resolution without depth limit follows: from a stored entry to its dependencies,
  unless the entry stops the walk by its type.
\<close>

definition resolve_edge ::
  "(string, store_entry_metadata) jsmap \<Rightarrow> resolve_options \<Rightarrow> string \<Rightarrow> string \<Rightarrow> string \<Rightarrow> bool" where
  "resolve_edge es opt start a b \<longleftrightarrow>
     (\<exists>m. map_of es a = Some m \<and> b \<in> set (dependencyIds m) \<and>
          \<not> (stopAtEntryType opt = Some (entryType m) \<and> a \<noteq> start))"

text \<open>What the result holds of the visited ids: the stored ones, the start only when asked for.\<close>

definition resolve_keep ::
  "(string, store_entry_metadata) jsmap \<Rightarrow> resolve_options \<Rightarrow> string \<Rightarrow> string \<Rightarrow> bool" where
  "resolve_keep es opt start i \<longleftrightarrow> map_has es i \<and> (i \<noteq> start \<or> includeStart opt)"

definition resolve_loop_inv ::
  "(string, store_entry_metadata) jsmap \<Rightarrow> resolve_options \<Rightarrow> string \<Rightarrow> string set \<Rightarrow> string set \<Rightarrow>
   string list \<Rightarrow> bool" where
  "resolve_loop_inv es opt start Q V r \<longleftrightarrow>
     start \<in> Q \<union> V \<and> (\<forall>i \<in> Q \<union> V. (resolve_edge es opt start)\<^sup>*\<^sup>* start i) \<and>
     (\<forall>a \<in> V. \<forall>b. resolve_edge es opt start a b \<longrightarrow> b \<in> Q \<union> V) \<and>
     set r = {i \<in> V. resolve_keep es opt start i} \<and> distinct r"

lemma resolve_loop_inv_skip:
  assumes "resolve_loop_inv es opt start (insert i Q) V r" and "i \<notin> V"
    and "\<And>b. \<not> resolve_edge es opt start i b"
  shows "resolve_loop_inv es opt start Q (insert i V)
           (if resolve_keep es opt start i then r @ [i] else r)"
  using assms by (auto simp: resolve_loop_inv_def)

lemma resolve_loop_inv_visit:
  assumes "resolve_loop_inv es opt start (insert i Q) V r" and "i \<notin> V"
    and "\<And>b. resolve_edge es opt start i b \<longleftrightarrow> b \<in> D"
  shows "resolve_loop_inv es opt start (Q \<union> (D - insert i V)) (insert i V)
           (if resolve_keep es opt start i then r @ [i] else r)"
proof -
  have "(resolve_edge es opt start)\<^sup>*\<^sup>* start b" if "b \<in> D" for b
    using assms(1) that assms(3) [of b]
    by (auto simp: resolve_loop_inv_def intro: rtranclp.rtrancl_into_rtrancl)
  then show ?thesis using assms by (auto simp: resolve_loop_inv_def)
qed

lemma resolve_loop_result:
  assumes "maxDepth opt = None"
    and "resolve_loop_inv es opt start (fst ` set queue) (set visited) r"
  shows "set (resolve_loop es opt start queue visited r) =
           {i. (resolve_edge es opt start)\<^sup>*\<^sup>* start i \<and> resolve_keep es opt start i} \<and>
         distinct (resolve_loop es opt start queue visited r)"
  using assms
proof (induction es opt start queue visited r rule: resolve_loop.induct)
  case (1 es opt start visited r)
  have "i \<in> set visited" if "(resolve_edge es opt start)\<^sup>*\<^sup>* start i" for i
    using that 1(2) by (induction rule: rtranclp_induct) (auto simp: resolve_loop_inv_def)
  moreover have "(resolve_edge es opt start)\<^sup>*\<^sup>* start i" if "i \<in> set visited" for i
    using 1(2) that by (simp add: resolve_loop_inv_def)
  ultimately have "{i \<in> set visited. resolve_keep es opt start i} =
      {i. (resolve_edge es opt start)\<^sup>*\<^sup>* start i \<and> resolve_keep es opt start i}" by blast
  then show ?case using 1(2) by (simp add: resolve_loop_inv_def)
next
  case (2 es opt start i depth queue visited r)
  note inv = "2.prems"(2) [simplified]
  show ?case
  proof (cases "i \<in> set visited")
    case True
    then have "resolve_loop_inv es opt start (fst ` set queue) (set visited) r"
      using inv by (auto simp: resolve_loop_inv_def)
    then show ?thesis using True "2.IH"(1) "2.prems"(1) by (simp add: resolve_loop.simps(2))
  next
    case new: False
    show ?thesis
    proof (cases "map_of es i")
      case None
      then have "resolve_loop_inv es opt start (fst ` set queue) (set (set_add i visited)) r"
        using resolve_loop_inv_skip [OF inv new]
        by (simp add: resolve_edge_def resolve_keep_def map_has_def)
      then show ?thesis
        using new None "2.IH"(3) "2.prems"(1) by (simp add: resolve_loop.simps(2))
    next
      case (Some e)
      show ?thesis
      proof (cases "stopAtEntryType opt = Some (entryType e) \<and> i \<noteq> start")
        case True
        then have "resolve_loop_inv es opt start (fst ` set queue) (set (set_add i visited)) (r @ [i])"
          using Some resolve_loop_inv_skip [OF inv new]
          by (simp add: resolve_edge_def resolve_keep_def map_has_def)
        then show ?thesis
          using new Some True "2.IH"(4) "2.prems"(1) by (simp add: resolve_loop.simps(2))
      next
        case False
        let ?q = "queue @ map (\<lambda>d. (d, depth + 1)) (filter (\<lambda>d. d \<notin> set (set_add i visited)) (dependencyIds e))"
        have "fst ` set ?q = fst ` set queue \<union> (set (dependencyIds e) - insert i (set visited))"
          by (auto simp: image_Un image_image)
        moreover have "resolve_edge es opt start i b \<longleftrightarrow> b \<in> set (dependencyIds e)" for b
          using Some False by (auto simp: resolve_edge_def)
        ultimately have "resolve_loop_inv es opt start (fst ` set ?q) (set (set_add i visited))
            (if i \<noteq> start \<or> includeStart opt then r @ [i] else r)"
          using Some resolve_loop_inv_visit [OF inv new, of "set (dependencyIds e)"]
          by (simp add: resolve_keep_def map_has_def)
        with "2.IH"(5) [OF new refl _ Some False "2.prems"(1)] "2.prems"(1)
        have "set (resolve_loop es opt start ?q (set_add i visited)
                (if i \<noteq> start \<or> includeStart opt then r @ [i] else r)) =
              {i. (resolve_edge es opt start)\<^sup>*\<^sup>* start i \<and> resolve_keep es opt start i} \<and>
            distinct (resolve_loop es opt start ?q (set_add i visited)
                (if i \<noteq> start \<or> includeStart opt then r @ [i] else r))"
          by simp
        then show ?thesis
          by (simp only: resolve_loop.simps(2) Let_def new Some False "2.prems"(1) if_False
              option.case)
      qed
    qed
  qed
qed

text \<open>
  Without a depth limit \<^verbatim>\<open>resolveDependencies\<close> returns every stored entry that is
  reachable from the start along dependencies, not passing through an entry of the stop type,
  each exactly once, and nothing else; the start itself only when it is asked for. Missing
  dependencies are skipped and cycles do no harm.
\<close>

theorem resolveDependencies_reachable:
  assumes "maxDepth opt = None"
  shows "set (resolveDependencies s start opt) =
           {i. (resolve_edge (entries s) opt start)\<^sup>*\<^sup>* start i \<and> resolve_keep (entries s) opt start i} \<and>
         distinct (resolveDependencies s start opt)"
  using resolve_loop_result [OF assms, of "entries s" start "[(start, 0)]" "[]" "[]"]
  by (auto simp: resolveDependencies_def resolve_loop_inv_def)

text \<open>Three entries: \<open>a\<close> depends on \<open>c\<close> and \<open>b\<close>, and \<open>b\<close> depends on \<open>c\<close>.\<close>

definition diamond_store :: in_memory_store where
  "diamond_store = putEntries (new_store ''db'' kind_docs ''e0'' True)
     [sample_entry ''c'' ''d'' [] ''h1'' [1], sample_entry ''b'' ''d'' [''c''] ''h2'' [2],
      sample_entry ''a'' ''d'' [''c'', ''b''] ''h3'' [3]]"

definition default_resolve :: resolve_options where
  "default_resolve = \<lparr> stopAtEntryType = None, maxDepth = None, includeStart = True \<rparr>"

lemma diamond_entries: "entries diamond_store =
    [(''c'', (sample_metadata doc_change ''c'' ''d'' [] ''h1'' 0)\<lparr> receiptOrder := Some 1 \<rparr>),
     (''b'', (sample_metadata doc_change ''b'' ''d'' [''c''] ''h2'' 0)\<lparr> receiptOrder := Some 2 \<rparr>),
     (''a'', (sample_metadata doc_change ''a'' ''d'' [''c'', ''b''] ''h3'' 0)\<lparr> receiptOrder := Some 3 \<rparr>)]"
  by (simp add: diamond_store_def put_entry_def new_store_def map_has_def Let_def)

lemma diamond_resolve: "resolveDependencies diamond_store ''a'' default_resolve = [''b'', ''c'', ''a'']"
  by (simp add: resolveDependencies_def diamond_entries default_resolve_def resolve_loop.simps(2)
      set_add_def Let_def)

theorem resolveDependencies_reachable_witness:
  "(resolve_edge (entries diamond_store) default_resolve ''a'')\<^sup>*\<^sup>* ''a'' ''c'' \<and>
   distinct (resolveDependencies diamond_store ''a'' default_resolve)"
proof -
  have "maxDepth default_resolve = None" by (simp add: default_resolve_def)
  moreover have "''c'' \<in> set (resolveDependencies diamond_store ''a'' default_resolve)"
    by (simp add: diamond_resolve)
  ultimately show ?thesis
    using resolveDependencies_reachable [of default_resolve diamond_store "''a''"] by auto
qed

text \<open>
  The order of the result is not a dependency order, as the interface comment says (oldest
  first): the walk is breadth first and is then reversed, and an entry that is reached both
  directly and through another one comes after an entry that depends on it.
\<close>

theorem resolveDependencies_not_dependency_order:
  "resolveDependencies diamond_store ''a'' default_resolve = [''b'', ''c'', ''a''] \<and>
   (\<exists>m. getEntryMetadata diamond_store ''b'' = Some m \<and> ''c'' \<in> set (dependencyIds m))"
  by (simp add: diamond_resolve getEntryMetadata_def diamond_entries)

end
