(* ===== verification/Base64.thy ===== *)
theory Base64
  imports JsPrelude
begin

text \<open>
  The base64 functions of the language environment that the code uses: \<^verbatim>\<open>btoa\<close> on
  the bytes of a binary string and \<^verbatim>\<open>atob\<close> (the forgiving decoder: whitespace is
  dropped, padding is optional, leftover bits are discarded, any other character raises, here
  \<open>None\<close>), with the conversions of \<^verbatim>\<open>bloom.ts\<close> on top of them.
\<close>

section \<open>Characters\<close>

definition b64_char :: "nat \<Rightarrow> char" where
  "b64_char n = char_of (if n < 26 then 65 + n else if n < 52 then 71 + n
                         else if n < 62 then n - 4 else if n = 62 then 43 else (47 :: nat))"

definition b64_val :: "char \<Rightarrow> nat option" where
  "b64_val c = (let k = of_char c :: nat
     in if 65 \<le> k \<and> k \<le> 90 then Some (k - 65)
        else if 97 \<le> k \<and> k \<le> 122 then Some (k - 71)
        else if 48 \<le> k \<and> k \<le> 57 then Some (k + 4)
        else if k = 43 then Some 62 else if k = 47 then Some 63 else None)"

lemma b64_val_char: "n < 64 \<Longrightarrow> b64_val (b64_char n) = Some n"
  by (auto simp: b64_val_def b64_char_def Let_def of_char_of)

lemma b64_val_pad: "b64_val (CHR ''='') = None"
  by (simp add: b64_val_def)

definition ascii_space :: "char \<Rightarrow> bool" where
  "ascii_space c \<longleftrightarrow> of_char c \<in> {9, 10, 12, 13, 32 :: nat}"

lemma b64_val_space: "b64_val c \<noteq> None \<Longrightarrow> \<not> ascii_space c"
  by (auto simp: b64_val_def ascii_space_def Let_def)

section \<open>Encoder and decoder\<close>

fun btoa_nats :: "nat list \<Rightarrow> string" where
  "btoa_nats [] = []"
| "btoa_nats [a] = [b64_char (a div 4), b64_char ((a mod 4) * 16), CHR ''='', CHR ''='']"
| "btoa_nats [a, b] =
     [b64_char (a div 4), b64_char ((a mod 4) * 16 + b div 16), b64_char ((b mod 16) * 4), CHR ''='']"
| "btoa_nats (a # b # c # r) =
     b64_char (a div 4) # b64_char ((a mod 4) * 16 + b div 16) #
     b64_char ((b mod 16) * 4 + c div 64) # b64_char (c mod 64) # btoa_nats r"

fun unpack_sextets :: "nat list \<Rightarrow> nat list option" where
  "unpack_sextets [] = Some []"
| "unpack_sextets [p] = None"
| "unpack_sextets [p, q] = Some [p * 4 + q div 16]"
| "unpack_sextets [p, q, r] = Some [p * 4 + q div 16, (q mod 16) * 16 + r div 4]"
| "unpack_sextets (p # q # r # s # rest) =
     map_option (\<lambda>xs. (p * 4 + q div 16) # ((q mod 16) * 16 + r div 4) # ((r mod 4) * 64 + s) # xs)
       (unpack_sextets rest)"

fun sextets_of :: "string \<Rightarrow> nat list option" where
  "sextets_of [] = Some []"
| "sextets_of (c # cs) =
     (case b64_val c of None \<Rightarrow> None | Some v \<Rightarrow> map_option (\<lambda>vs. v # vs) (sextets_of cs))"

definition strip_padding :: "string \<Rightarrow> string" where
  "strip_padding s =
     (if length s mod 4 = 0 \<and> s \<noteq> [] \<and> last s = CHR ''=''
      then (if last (butlast s) = CHR ''='' then butlast (butlast s) else butlast s)
      else s)"

definition atob_nats :: "string \<Rightarrow> nat list option" where
  "atob_nats s =
     Option.bind (sextets_of (strip_padding (filter (\<lambda>c. \<not> ascii_space c) s))) unpack_sextets"

section \<open>Bytes\<close>

definition uint8ArrayToBase64 :: "bytes \<Rightarrow> string" where
  "uint8ArrayToBase64 bs = btoa_nats (map unat bs)"

definition base64ToUint8Array :: "string \<Rightarrow> bytes option" where
  "base64ToUint8Array s = map_option (map of_nat) (atob_nats s)"

section \<open>Round trip\<close>

text \<open>The unpadded encoding: what is left of \<open>btoa_nats\<close> after stripping.\<close>

fun pack_sextets :: "nat list \<Rightarrow> nat list" where
  "pack_sextets [] = []"
| "pack_sextets [a] = [a div 4, (a mod 4) * 16]"
| "pack_sextets [a, b] = [a div 4, (a mod 4) * 16 + b div 16, (b mod 16) * 4]"
| "pack_sextets (a # b # c # r) =
     a div 4 # ((a mod 4) * 16 + b div 16) # ((b mod 16) * 4 + c div 64) # (c mod 64) # pack_sextets r"

lemma pack_sextets_less: "\<forall>a \<in> set xs. a < 256 \<Longrightarrow> \<forall>v \<in> set (pack_sextets xs). v < 64"
  by (induction xs rule: pack_sextets.induct) auto

lemma pack_sextets_ne: "\<exists>v vs. pack_sextets (a # xs) = v # vs"
  by (cases xs; cases "tl xs") auto

lemma unpack_pack:
  "\<forall>a \<in> set xs. a < 256 \<Longrightarrow> unpack_sextets (pack_sextets xs) = Some xs"
proof (induction xs rule: pack_sextets.induct)
  case (4 a b c r)
  have "a div 4 * 4 + (a mod 4 * 16 + b div 16) div 16 = a"
    "(a mod 4 * 16 + b div 16) mod 16 * 16 + (b mod 16 * 4 + c div 64) div 4 = b"
    "(b mod 16 * 4 + c div 64) mod 4 * 64 + c mod 64 = c"
    using 4(2) by auto
  then show ?case using 4 by simp
qed auto

lemma sextets_of_map: "\<forall>v \<in> set vs. v < 64 \<Longrightarrow> sextets_of (map b64_char vs) = Some vs"
  by (induction vs) (auto simp: b64_val_char)

definition padding :: "nat \<Rightarrow> string" where
  "padding n = (if n mod 3 = 1 then ''=='' else if n mod 3 = 2 then ''='' else '''')"

lemma btoa_nats_eq: "btoa_nats xs = map b64_char (pack_sextets xs) @ padding (length xs)"
proof (induction xs rule: btoa_nats.induct)
  case (4 a b c r)
  have "padding (length (a # b # c # r)) = padding (length r)" by (simp add: padding_def)
  then show ?case using 4 by simp
qed (simp_all add: padding_def)

lemma length_btoa_nats: "length (btoa_nats xs) mod 4 = 0"
  by (induction xs rule: btoa_nats.induct) auto

lemma strip_btoa:
  assumes "\<forall>a \<in> set xs. a < 256"
  shows "strip_padding (btoa_nats xs) = map b64_char (pack_sextets xs)"
proof (cases xs)
  case (Cons a ys)
  obtain v vs where ne: "pack_sextets xs = v # vs" using pack_sextets_ne Cons by blast
  have "last (map b64_char (pack_sextets xs)) \<noteq> CHR ''=''"
  proof
    assume eq: "last (map b64_char (pack_sextets xs)) = CHR ''=''"
    have "last (pack_sextets xs) < 64"
      using pack_sextets_less [OF assms] ne by (metis last_in_set list.distinct(1))
    then show False
      using eq ne b64_val_char [of "last (pack_sextets xs)"] b64_val_pad 
      by (metis last_map list.distinct(1) option.distinct(1))
  qed
  moreover have "map b64_char (pack_sextets xs) \<noteq> []" using ne by simp
  ultimately show ?thesis
    using length_btoa_nats [of xs]
    by (auto simp: strip_padding_def btoa_nats_eq padding_def butlast_append)
qed (simp add: strip_padding_def)

lemma btoa_no_space:
  assumes "\<forall>a \<in> set xs. a < 256"
  shows "filter (\<lambda>c. \<not> ascii_space c) (btoa_nats xs) = btoa_nats xs"
proof -
  have "\<not> ascii_space (b64_char v)" if "v \<in> set (pack_sextets xs)" for v
    using that pack_sextets_less [OF assms] b64_val_char [of v] b64_val_space [of "b64_char v"] by auto
  moreover have "\<not> ascii_space c" if "c \<in> set (padding n)" for c n
    using that by (auto simp: padding_def ascii_space_def split: if_splits)
  ultimately show ?thesis by (auto simp: btoa_nats_eq filter_id_conv)
qed

lemma atob_btoa: "\<forall>a \<in> set xs. a < 256 \<Longrightarrow> atob_nats (btoa_nats xs) = Some xs"
  by (simp add: atob_nats_def btoa_no_space strip_btoa sextets_of_map pack_sextets_less unpack_pack)

lemma base64_inverse [simp]: "base64ToUint8Array (uint8ArrayToBase64 bs) = Some bs"
proof -
  have "\<forall>a \<in> set (map unat bs). a < 256"
    using unsigned_less [where 'b = 8 and 'a = nat] by auto
  then show ?thesis
    by (simp add: base64ToUint8Array_def uint8ArrayToBase64_def atob_btoa o_def)
qed

lemma length_base64: "length (uint8ArrayToBase64 bs) = 4 * ((length bs + 2) div 3)"
proof -
  have "length (btoa_nats xs) = 4 * ((length xs + 2) div 3)" for xs
  proof (induction xs rule: btoa_nats.induct)
    case (4 a b c r)
    have "length (a # b # c # r) + 2 = 3 + (length r + 2)" by simp
    then have "(length (a # b # c # r) + 2) div 3 = Suc ((length r + 2) div 3)" by presburger
    then show ?case using 4 by simp
  qed auto
  then show ?thesis by (simp add: uint8ArrayToBase64_def)
qed

text \<open>
  Base64 round trip: decoding the base64 form of any byte array gives the array back, so
  different arrays have different forms, and the form has four characters for every started
  group of three bytes.
\<close>

theorem base64_roundtrip:
  "base64ToUint8Array (uint8ArrayToBase64 bs) = Some bs \<and>
   (uint8ArrayToBase64 bs = uint8ArrayToBase64 cs \<longleftrightarrow> bs = cs) \<and>
   length (uint8ArrayToBase64 bs) = 4 * ((length bs + 2) div 3)"
  using base64_inverse [of bs] base64_inverse [of cs] length_base64 [of bs]
  by (metis option.inject)

end
