(* ===== verification/Bloom.thy ===== *)
theory Bloom
  imports Base64
begin

text \<open>
  The Bloom filter summary of entry ids (\<^verbatim>\<open>core/appendonlystores/bloom.ts\<close>). The
  hashes are on 32-bit words: \<^verbatim>\<open>Math.imul\<close>, \<^verbatim>\<open>^\<close>, \<^verbatim>\<open><<\<close> and
  \<^verbatim>\<open>>>> 0\<close> work on the low 32 bits, and the sum in \<^verbatim>\<open>djb2_32\<close> is reduced to
  them. The shape of the filter uses real arithmetic where the code uses floating point; what
  is proved holds for every shape with at least one bit.
\<close>

unbundle bit_operations_syntax

section \<open>Hashes\<close>

definition fnv1a32 :: "string \<Rightarrow> 32 word" where
  "fnv1a32 input = foldl (\<lambda>hash c. (hash XOR of_nat (of_char c)) * 0x01000193) 0x811c9dc5 input"

definition djb2_32 :: "string \<Rightarrow> 32 word" where
  "djb2_32 input = foldl (\<lambda>hash c. push_bit 5 hash + hash + of_nat (of_char c)) 5381 input"

section \<open>Filter\<close>

record id_bloom_summary =
  bloom_version :: string
  totalIds :: nat
  bitCount :: nat
  hashCount :: nat
  bloom_salt :: string
  bitsetBase64 :: string

definition DEFAULT_SALT :: string where
  "DEFAULT_SALT = ''mindoodb-bloom-v1''"

definition computeBloomShape :: "nat \<Rightarrow> real \<Rightarrow> nat \<times> nat" where
  "computeBloomShape itemCount falsePositiveRate =
     (if itemCount \<le> 0 then (64, 2)
      else let bits = max 64 (nat \<lceil>(- real itemCount * ln falsePositiveRate) / (ln 2 * ln 2)\<rceil>);
               hashes = max 1 (nat \<lfloor>real bits / real itemCount * ln 2 + 1 / 2\<rfloor>)
           in (bits, hashes))"

text \<open>Writes and reads of a typed array out of range do nothing and give no bit.\<close>

definition setBit :: "bytes \<Rightarrow> nat \<Rightarrow> bytes" where
  "setBit bitset bitIndex =
     (let byteIndex = bitIndex div 8; bitOffset = bitIndex mod 8
      in if byteIndex < length bitset
         then bitset[byteIndex := (bitset ! byteIndex) OR push_bit bitOffset 1] else bitset)"

definition getBit :: "bytes \<Rightarrow> nat \<Rightarrow> bool" where
  "getBit bitset bitIndex =
     (let byteIndex = bitIndex div 8; bitOffset = bitIndex mod 8
      in byteIndex < length bitset \<and> (bitset ! byteIndex) AND push_bit bitOffset 1 \<noteq> 0)"

definition bloomIndexes :: "string \<Rightarrow> nat \<Rightarrow> nat \<Rightarrow> string \<Rightarrow> nat list" where
  "bloomIndexes i bits hashes salt =
     (let h1 = unat (fnv1a32 (salt @ '':'' @ i));
          d = unat (djb2_32 (i @ '':'' @ salt));
          h2 = (if d = 0 then 1 else d)
      in map (\<lambda>k. (h1 + k * h2) mod bits) [0..<hashes])"

definition createIdBloomSummary :: "string list \<Rightarrow> real \<Rightarrow> id_bloom_summary" where
  "createIdBloomSummary ids falsePositiveRate =
     (let (bits, hashes) = computeBloomShape (length ids) falsePositiveRate;
          bitset = foldl (\<lambda>b i. foldl setBit b (bloomIndexes i bits hashes DEFAULT_SALT))
                     (replicate ((bits + 7) div 8) 0) ids
      in \<lparr> bloom_version = ''bloom-v1'', totalIds = length ids, bitCount = bits, hashCount = hashes,
           bloom_salt = DEFAULT_SALT, bitsetBase64 = uint8ArrayToBase64 bitset \<rparr>)"

text \<open>\<^verbatim>\<open>base64ToUint8Array\<close> raises on an undecodable string: \<open>None\<close>.\<close>

definition bloomMightContainId :: "id_bloom_summary \<Rightarrow> string \<Rightarrow> bool option" where
  "bloomMightContainId summary i =
     (if bloom_version summary \<noteq> ''bloom-v1'' then Some True
      else map_option
             (\<lambda>bitset. list_all (getBit bitset)
                (bloomIndexes i (bitCount summary) (hashCount summary) (bloom_salt summary)))
             (base64ToUint8Array (bitsetBase64 summary)))"

section \<open>Bits\<close>

lemma length_setBit [simp]: "length (setBit bs i) = length bs"
  by (simp add: setBit_def Let_def)

lemma length_foldl_setBit [simp]: "length (foldl setBit bs is) = length bs"
  by (induction "is" arbitrary: bs) auto

lemma getBit_bit:
  "getBit bs j \<longleftrightarrow> j div 8 < length bs \<and> bit (bs ! (j div 8)) (j mod 8)"
proof -
  have "w AND push_bit (j mod 8) 1 \<noteq> 0 \<longleftrightarrow> bit w (j mod 8)" for w :: "8 word"
    by (simp add: bit_iff_and_push_bit_not_eq_0)
  then show ?thesis by (simp add: getBit_def Let_def)
qed

lemma getBit_setBit:
  assumes "i div 8 < length bs"
  shows "getBit (setBit bs i) j \<longleftrightarrow> j = i \<or> getBit bs j"
proof -
  have "j = i \<longleftrightarrow> j div 8 = i div 8 \<and> j mod 8 = i mod 8"
    by (metis div_mult_mod_eq)
  moreover have "i mod 8 < 8" "j mod 8 < 8" by auto
  ultimately show ?thesis
    using assms
    by (auto simp: getBit_bit setBit_def Let_def nth_list_update bit_or_iff bit_exp_iff)
qed

lemma getBit_foldl_setBit:
  "\<forall>i \<in> set is. i div 8 < length bs \<Longrightarrow>
   getBit (foldl setBit bs is) j \<longleftrightarrow> j \<in> set is \<or> getBit bs j"
  by (induction "is" arbitrary: bs) (auto simp: getBit_setBit)

lemma getBit_zero: "\<not> getBit (replicate n 0) j"
  by (simp add: getBit_bit)

lemma bloomIndexes_less: "0 < bits \<Longrightarrow> k \<in> set (bloomIndexes i bits hashes salt) \<Longrightarrow> k < bits"
  by (auto simp: bloomIndexes_def Let_def)

lemma byte_index: "k < bits \<Longrightarrow> k div 8 < (bits + 7) div (8 :: nat)"
proof -
  assume "k < bits"
  then have "k div 8 \<le> (bits - 1) div 8" by (intro div_le_mono) simp
  moreover have "bits + 7 = (bits - 1) + 8" using \<open>k < bits\<close> by simp
  ultimately show ?thesis by (simp add: div_add_self2)
qed

lemma getBit_ids:
  assumes "0 < bits" and "length bs = (bits + 7) div 8"
  shows "getBit (foldl (\<lambda>b i. foldl setBit b (bloomIndexes i bits hashes salt)) bs ids) j \<longleftrightarrow>
         (\<exists>i \<in> set ids. j \<in> set (bloomIndexes i bits hashes salt)) \<or> getBit bs j"
  using assms(2)
proof (induction ids arbitrary: bs)
  case (Cons i ids)
  have "\<forall>k \<in> set (bloomIndexes i bits hashes salt). k div 8 < length bs"
    using bloomIndexes_less [OF assms(1)] byte_index Cons.prems by metis
  then show ?case using Cons by (auto simp: getBit_foldl_setBit)
qed simp

lemma bloom_shape_pos: "computeBloomShape n p = (bits, hashes) \<Longrightarrow> 64 \<le> bits \<and> 1 \<le> hashes"
  by (auto simp: computeBloomShape_def Let_def split: if_splits)

lemma bloomMightContainId_iff:
  assumes "b = createIdBloomSummary ids rate"
  shows "bloomMightContainId b x =
           Some (\<forall>k \<in> set (bloomIndexes x (bitCount b) (hashCount b) DEFAULT_SALT).
                   \<exists>i \<in> set ids. k \<in> set (bloomIndexes i (bitCount b) (hashCount b) DEFAULT_SALT))"
proof -
  obtain bits hashes where shape: "computeBloomShape (length ids) rate = (bits, hashes)"
    by fastforce
  then have "0 < bits" using bloom_shape_pos by fastforce
  then show ?thesis
    using shape
    by (simp add: assms bloomMightContainId_def createIdBloomSummary_def getBit_ids getBit_zero
        list_all_iff)
qed

lemma bloom_no_false_negative:
  "x \<in> set ids \<Longrightarrow> bloomMightContainId (createIdBloomSummary ids rate) x = Some True"
  by (auto simp: bloomMightContainId_iff [OF refl])

text \<open>
  C4. The Bloom test answers exactly whether every bit position of the id was set by some id
  of the set. The decoding never fails, every position is inside the transmitted bitset, and
  in particular an id of the set is never reported absent.
\<close>

theorem bloom_exact:
  assumes "b = createIdBloomSummary ids rate"
  shows "bloomMightContainId b x =
           Some (\<forall>k \<in> set (bloomIndexes x (bitCount b) (hashCount b) DEFAULT_SALT).
                   \<exists>i \<in> set ids. k \<in> set (bloomIndexes i (bitCount b) (hashCount b) DEFAULT_SALT)) \<and>
         (x \<in> set ids \<longrightarrow> bloomMightContainId b x = Some True)"
  unfolding assms by (intro conjI impI bloomMightContainId_iff [OF refl] bloom_no_false_negative)

theorem bloom_exact_witness:
  "bloomMightContainId (createIdBloomSummary [''id1'', ''id2''] (1 / 100)) ''id2'' = Some True"
  using bloom_exact [OF refl, of "[''id1'', ''id2'']" "1 / 100" "''id2''"] by simp

end
