(* ===== verification/MaterializationPlanner.thy ===== *)
theory MaterializationPlanner
  imports ScanUtils
begin

text \<open>
  The metadata-only planner for causal document materialization
  (\<^verbatim>\<open>core/appendonlystores/MaterializationPlanner.ts\<close>): the latest-state
  reachability walk, snapshot coverage, Kahn's topological sort with its cycle fallback, the
  plan of one document and the batch of plans. A JavaScript array used as a stack is a list
  with the top first.
\<close>

section \<open>Plans\<close>

record plan_diagnostics =
  headEntryIds :: "string list"
  coveredLatestEntryCount :: int
  uncoveredLatestEntryCount :: int

record document_plan =
  plan_docId :: string
  snapshotEntryId :: "string option"
  entryIdsToApply :: "string list"
  diagnostics :: "plan_diagnostics option"

section \<open>Reachability and coverage\<close>

definition DOC_REPLAY_TYPES :: "store_entry_type list" where
  "DOC_REPLAY_TYPES = [doc_create, doc_change, doc_delete, doc_undelete]"

definition isReplayEntry :: "store_entry_metadata \<Rightarrow> bool" where
  "isReplayEntry meta \<longleftrightarrow> entryType meta \<in> set DOC_REPLAY_TYPES"

text \<open>\<^verbatim>\<open>new Map(entries.map((e) => [e.id, e]))\<close>: a later entry replaces an earlier one.\<close>

definition by_id :: "store_entry_metadata list \<Rightarrow> (string, store_entry_metadata) jsmap" where
  "by_id es = fold (\<lambda>e m. AList.update (entry_id e) e m) es []"

function latest_walk ::
  "(string, store_entry_metadata) jsmap \<Rightarrow> string list \<Rightarrow> string jsset \<Rightarrow> string jsset" where
  "latest_walk byId [] latestReachable = latestReachable"
| "latest_walk byId (i # stack) latestReachable =
     (if i \<in> set latestReachable then latest_walk byId stack latestReachable
      else case map_of byId i of
        None \<Rightarrow> latest_walk byId stack (set_add i latestReachable)
      | Some entry \<Rightarrow>
          latest_walk byId
            (rev (filter (\<lambda>d. map_has byId d \<and> d \<notin> set (set_add i latestReachable)) (dependencyIds entry))
              @ stack)
            (set_add i latestReachable))"
  by pat_completeness auto
termination
  by (relation "measures [\<lambda>(m, stack, v). card (set (map_keys m) - set v), \<lambda>(m, stack, v). length stack]")
    (auto simp: card_unvisited_known card_unvisited_cases)

definition buildLatestStateReachability ::
  "store_entry_metadata list \<Rightarrow> string list \<times> string jsset" where
  "buildLatestStateReachability replayEntries =
     (let byId = by_id replayEntries;
          referenced = js_dedup (concat (map (\<lambda>e. filter (map_has byId) (dependencyIds e)) replayEntries));
          latestHeads = map entry_id (filter (\<lambda>e. entry_id e \<notin> set referenced) replayEntries)
      in (latestHeads, latest_walk byId (rev latestHeads) []))"

function covered_walk ::
  "(string, store_entry_metadata) jsmap \<Rightarrow> string list \<Rightarrow> string jsset \<Rightarrow> string jsset" where
  "covered_walk replayById [] covered = covered"
| "covered_walk replayById (i # stack) covered =
     (if i \<in> set covered then covered_walk replayById stack covered
      else case map_of replayById i of
        None \<Rightarrow> covered_walk replayById stack covered
      | Some entry \<Rightarrow>
          covered_walk replayById
            (rev (filter (\<lambda>d. d \<notin> set (set_add i covered)) (dependencyIds entry)) @ stack)
            (set_add i covered))"
  by pat_completeness auto
termination
  by (relation "measures [\<lambda>(m, stack, v). card (set (map_keys m) - set v), \<lambda>(m, stack, v). length stack]")
    (auto simp: card_unvisited_known)

declare latest_walk.simps(2) [simp del] covered_walk.simps(2) [simp del]

text \<open>The coverage roots of a snapshot.\<close>

definition snapshot_roots :: "store_entry_metadata \<Rightarrow> string list" where
  "snapshot_roots snapshot =
     (case snapshotHeadEntryIds snapshot of
        Some ids \<Rightarrow> if ids \<noteq> [] then ids else dependencyIds snapshot
      | None \<Rightarrow> dependencyIds snapshot)"

definition coveredBySnapshot ::
  "store_entry_metadata option \<Rightarrow> (string, store_entry_metadata) jsmap \<Rightarrow> string jsset" where
  "coveredBySnapshot snapshot replayById =
     (case snapshot of
        None \<Rightarrow> []
      | Some s \<Rightarrow> covered_walk replayById (rev (snapshot_roots s)) [])"

section \<open>Topological order\<close>

text \<open>The dependencies of an id inside the set being sorted.\<close>

definition in_set_deps ::
  "string jsset \<Rightarrow> (string, store_entry_metadata) jsmap \<Rightarrow> string \<Rightarrow> string list" where
  "in_set_deps ids replayById i =
     (case map_of replayById i of
        None \<Rightarrow> []
      | Some entry \<Rightarrow> filter (\<lambda>d. d \<in> set ids) (dependencyIds entry))"

text \<open>\<^verbatim>\<open>m.get(k) || 0\<close>\<close>

definition get_or_0 :: "(string, int) jsmap \<Rightarrow> string \<Rightarrow> int" where
  "get_or_0 m k = (case map_of m k of None \<Rightarrow> 0 | Some n \<Rightarrow> n)"

text \<open>\<^verbatim>\<open>m.get(k) || []\<close>\<close>

definition get_or_nil :: "(string, string list) jsmap \<Rightarrow> string \<Rightarrow> string list" where
  "get_or_nil m k = (case map_of m k of None \<Rightarrow> [] | Some xs \<Rightarrow> xs)"

definition kahn_edge ::
  "string \<Rightarrow> (string, int) jsmap \<times> (string, string list) jsmap \<Rightarrow> string \<Rightarrow>
   (string, int) jsmap \<times> (string, string list) jsmap" where
  "kahn_edge i gr depId =
     (let (indegree, dependents) = gr
      in (AList.update i (get_or_0 indegree i + 1) indegree,
          AList.update depId (get_or_nil dependents depId @ [i]) dependents))"

definition kahn_init ::
  "string jsset \<Rightarrow> (string, store_entry_metadata) jsmap \<Rightarrow>
   (string, int) jsmap \<times> (string, string list) jsmap" where
  "kahn_init ids replayById =
     foldl (\<lambda>gr i. foldl (kahn_edge i) gr (in_set_deps ids replayById i))
       (map (\<lambda>i. (i, 0)) ids, map (\<lambda>i. (i, [])) ids) ids"

definition kahn_release ::
  "(string, int) jsmap \<times> string list \<Rightarrow> string \<Rightarrow> (string, int) jsmap \<times> string list" where
  "kahn_release iq dep =
     (let (indegree, queue) = iq; next = get_or_0 indegree dep - 1
      in (AList.update dep next indegree, if next = 0 then queue @ [dep] else queue))"

text \<open>
  The main loop ends on every input: an id is queued only when its in-degree goes from one to
  zero, so the positive in-degrees plus the queue shrink in every round.
\<close>

definition pos_sum :: "(string, int) jsmap \<Rightarrow> nat" where
  "pos_sum m = sum_list (map (\<lambda>(k, n). nat n) m)"

lemma pos_sum_update:
  "pos_sum (AList.update k v m) + nat (get_or_0 m k) = pos_sum m + nat v"
  by (induction m) (auto simp: pos_sum_def get_or_0_def)

lemma kahn_release_measure:
  "kahn_release (ind, q) d = (ind', q') \<Longrightarrow> pos_sum ind' + length q' \<le> pos_sum ind + length q"
  using pos_sum_update [of d "get_or_0 ind d - 1" ind]
  by (auto simp: kahn_release_def Let_def split: if_splits)

lemma kahn_releases_measure:
  "foldl kahn_release (ind, q) ds = (ind', q') \<Longrightarrow>
   pos_sum ind' + length q' \<le> pos_sum ind + length q"
proof (induction ds arbitrary: ind q)
  case (Cons d ds)
  obtain ind1 q1 where "kahn_release (ind, q) d = (ind1, q1)" by fastforce
  then show ?case using Cons kahn_release_measure by fastforce
qed simp

function kahn_loop ::
  "(string, string list) jsmap \<Rightarrow> (string, int) jsmap \<Rightarrow> string list \<Rightarrow> string list \<Rightarrow> string list" where
  "kahn_loop dependents indegree [] ordered = ordered"
| "kahn_loop dependents indegree (i # queue) ordered =
     (case foldl kahn_release (indegree, queue) (get_or_nil dependents i) of
        (indegree', queue') \<Rightarrow>
          kahn_loop dependents indegree' (js_sort_strings queue') (ordered @ [i]))"
  by pat_completeness auto
termination
  by (relation "measure (\<lambda>(dependents, indegree, queue, ordered). pos_sum indegree + length queue)")
    (auto dest!: kahn_releases_measure [OF sym])

declare kahn_loop.simps(2) [simp del]

definition topologicalByDependencies ::
  "string jsset \<Rightarrow> (string, store_entry_metadata) jsmap \<Rightarrow> string list" where
  "topologicalByDependencies ids replayById =
     (let (indegree, dependents) = kahn_init ids replayById;
          queue = js_sort_strings (filter (\<lambda>i. get_or_0 indegree i = 0) ids);
          ordered = kahn_loop dependents indegree queue []
      in if length ordered \<noteq> length ids then js_sort_strings ids else ordered)"

section \<open>Plan of a document\<close>

text \<open>One snapshot of the scoring loop: the best one so far and its covered count.\<close>

definition score_snapshot ::
  "(string, store_entry_metadata) jsmap \<Rightarrow> string jsset \<Rightarrow> store_entry_metadata option \<times> int \<Rightarrow>
   store_entry_metadata \<Rightarrow> store_entry_metadata option \<times> int" where
  "score_snapshot replayById latestReachable best snapshot =
     (let (bestSnapshot, bestCoveredCount) = best;
          covered = coveredBySnapshot (Some snapshot) replayById;
          coveredLatest = int (length (filter (\<lambda>i. i \<in> set covered) latestReachable));
          best1 = (if coveredLatest > bestCoveredCount \<or>
                      coveredLatest = bestCoveredCount \<and>
                      (case bestSnapshot of None \<Rightarrow> False | Some b \<Rightarrow> createdAt snapshot > createdAt b)
                   then (Some snapshot, coveredLatest) else (bestSnapshot, bestCoveredCount))
      in if fst best1 = None then (Some snapshot, coveredLatest) else best1)"

text \<open>\<^verbatim>\<open>snapshots.reduce((a, b) => (b.createdAt > a.createdAt ? b : a))\<close>\<close>

definition newest_snapshot :: "store_entry_metadata list \<Rightarrow> store_entry_metadata" where
  "newest_snapshot snapshots =
     foldl (\<lambda>a b. if createdAt b > createdAt a then b else a) (hd snapshots) (tl snapshots)"

definition computeDocumentMaterializationPlan ::
  "string \<Rightarrow> store_entry_metadata list \<Rightarrow> bool \<Rightarrow> document_plan" where
  "computeDocumentMaterializationPlan d allEntriesForDoc includeDiagnostics =
     (let replayEntries = filter isReplayEntry allEntriesForDoc;
          replayById = by_id replayEntries;
          snapshots = filter (\<lambda>e. entryType e = doc_snapshot) allEntriesForDoc
      in if replayEntries = [] then
           \<lparr> plan_docId = d,
             snapshotEntryId = (if snapshots \<noteq> [] then Some (entry_id (newest_snapshot snapshots)) else None),
             entryIdsToApply = [],
             diagnostics = (if includeDiagnostics
               then Some \<lparr> headEntryIds = [], coveredLatestEntryCount = 0, uncoveredLatestEntryCount = 0 \<rparr>
               else None) \<rparr>
         else
           let (latestHeads, latestReachable) = buildLatestStateReachability replayEntries;
               (bestSnapshot, bestCoveredCount) =
                 foldl (score_snapshot replayById latestReachable) (None, -1) snapshots;
               covered = coveredBySnapshot bestSnapshot replayById;
               uncovered = filter (\<lambda>i. i \<notin> set covered) latestReachable
           in \<lparr> plan_docId = d, snapshotEntryId = map_option entry_id bestSnapshot,
                entryIdsToApply = topologicalByDependencies uncovered replayById,
                diagnostics = (if includeDiagnostics
                  then Some \<lparr> headEntryIds = latestHeads,
                              coveredLatestEntryCount = (if bestCoveredCount < 0 then 0 else bestCoveredCount),
                              uncoveredLatestEntryCount = int (length uncovered) \<rparr>
                  else None) \<rparr>)"

definition group_by_doc ::
  "store_entry_metadata list \<Rightarrow> (string, store_entry_metadata list) jsmap" where
  "group_by_doc es =
     foldl (\<lambda>m e. AList.update (docId e)
                    ((case map_of m (docId e) of None \<Rightarrow> [] | Some xs \<Rightarrow> xs) @ [e]) m) [] es"

definition computeBatchMaterializationPlan ::
  "store_entry_metadata list \<Rightarrow> string list \<Rightarrow> bool \<Rightarrow> document_plan list" where
  "computeBatchMaterializationPlan allEntries docIds includeDiagnostics =
     (let byDoc = group_by_doc allEntries
      in map (\<lambda>d. computeDocumentMaterializationPlan d
                    (case map_of byDoc d of None \<Rightarrow> [] | Some xs \<Rightarrow> xs) includeDiagnostics) docIds)"

section \<open>What the walks compute\<close>

definition replay_edge :: "(string, store_entry_metadata) jsmap \<Rightarrow> string \<Rightarrow> string \<Rightarrow> bool" where
  "replay_edge m a b \<longleftrightarrow>
     (\<exists>e. map_of m a = Some e \<and> b \<in> set (dependencyIds e) \<and> map_has m b)"

lemma replay_edge_Some:
  "map_of m i = Some e \<Longrightarrow> {b. replay_edge m i b} = {b \<in> set (dependencyIds e). map_has m b}"
  by (auto simp: replay_edge_def)

lemma latest_walk_correct:
  assumes "walk_inv (replay_edge m) R (set stack) (set v)" and "\<forall>i \<in> set stack. map_has m i"
    and "distinct v"
  shows "set (latest_walk m stack v) = {i. \<exists>r \<in> R. (replay_edge m)\<^sup>*\<^sup>* r i} \<and>
         distinct (latest_walk m stack v)"
  using assms
proof (induction m stack v rule: latest_walk.induct)
  case (1 m v)
  then show ?case using walk_inv_done [of "replay_edge m" R "set v"] by simp
next
  case (2 m i stack v)
  show ?case
  proof (cases "i \<in> set v")
    case True
    then show ?thesis
      using "2.IH"(1) [OF True] "2.prems" walk_inv_skip [of "replay_edge m" R i "set stack" "set v"]
      by (simp add: latest_walk.simps(2))
  next
    case False
    obtain e where e: "map_of m i = Some e" using "2.prems"(2) by (auto simp: map_has_def)
    let ?D = "filter (\<lambda>d. map_has m d \<and> d \<notin> set (set_add i v)) (dependencyIds e)"
    have "walk_inv (replay_edge m) R (set stack \<union> set ?D) (insert i (set v))"
      by (rule walk_inv_visit) (use "2.prems"(1) replay_edge_Some [OF e] in auto)
    then have w: "walk_inv (replay_edge m) R (set (rev ?D @ stack)) (set (set_add i v))"
      by (simp add: Un_commute)
    have h: "\<forall>j \<in> set (rev ?D @ stack). map_has m j" using "2.prems"(2) by auto
    have eq: "latest_walk m (i # stack) v = latest_walk m (rev ?D @ stack) (set_add i v)"
      using False e by (simp add: latest_walk.simps(2))
    show ?thesis
      unfolding eq by (rule "2.IH"(3) [OF False e w h]) (simp add: "2.prems"(3))
  qed
qed

lemma covered_walk_correct:
  assumes "walk_inv (replay_edge m) R (set stack \<inter> set (map_keys m)) (set v)" and "distinct v"
  shows "set (covered_walk m stack v) = {i. \<exists>r \<in> R. (replay_edge m)\<^sup>*\<^sup>* r i} \<and>
         distinct (covered_walk m stack v)"
  using assms
proof (induction m stack v rule: covered_walk.induct)
  case (1 m v)
  then show ?case using walk_inv_done [of "replay_edge m" R "set v"] by simp
next
  case (2 m i stack v)
  show ?case
  proof (cases "map_of m i")
    case None
    then have "i \<notin> set (map_keys m)" by (simp add: map_of_eq_None_iff)
    then show ?thesis
      using "2.IH"(1,2) "2.prems" None
      by (cases "i \<in> set v") (simp_all add: covered_walk.simps(2))
  next
    case (Some e)
    then have key: "i \<in> set (map_keys m)" using map_of_Some_key [of m i e] by simp
    show ?thesis
    proof (cases "i \<in> set v")
      case True
      then show ?thesis
        using "2.IH"(1) [OF True] "2.prems" key
          walk_inv_skip [of "replay_edge m" R i "set stack \<inter> set (map_keys m)" "set v"]
        by (simp add: covered_walk.simps(2))
    next
      case False
      let ?D = "filter (\<lambda>d. d \<notin> set (set_add i v)) (dependencyIds e)"
      have "walk_inv (replay_edge m) R
          (set stack \<inter> set (map_keys m) \<union> (set ?D \<inter> set (map_keys m))) (insert i (set v))"
        by (rule walk_inv_visit)
          (use "2.prems"(1) replay_edge_Some [OF Some] key in \<open>auto simp: map_has_iff\<close>)
      then have "walk_inv (replay_edge m) R (set (rev ?D @ stack) \<inter> set (map_keys m)) (set (set_add i v))"
        by (simp add: Un_commute Int_Un_distrib2)
      then show ?thesis
        using "2.IH"(3) [OF False Some] "2.prems" False Some
        by (simp add: covered_walk.simps(2))
    qed
  qed
qed

text \<open>The replay entries a snapshot covers: everything its roots reach inside the replay graph.\<close>

definition covers :: "store_entry_metadata \<Rightarrow> (string, store_entry_metadata) jsmap \<Rightarrow> string set" where
  "covers s m = {i. \<exists>r \<in> set (snapshot_roots s) \<inter> set (map_keys m). (replay_edge m)\<^sup>*\<^sup>* r i}"

lemma coveredBySnapshot_eq:
  "set (coveredBySnapshot (Some s) m) = covers s m" "distinct (coveredBySnapshot (Some s) m)"
  using covered_walk_correct [of m "set (snapshot_roots s) \<inter> set (map_keys m)" "rev (snapshot_roots s)" "[]"]
    walk_inv_init [of "replay_edge m"]
  by (simp_all add: coveredBySnapshot_def covers_def)

lemma covers_closed: "a \<in> covers s m \<Longrightarrow> replay_edge m a b \<Longrightarrow> b \<in> covers s m"
  by (auto simp: covers_def intro: rtranclp.rtrancl_into_rtrancl)

subsection \<open>Latest state\<close>

lemma by_id_fold:
  "map_of (fold (\<lambda>e m. AList.update (entry_id e) e m) es m0) i =
     (case find (\<lambda>e. entry_id e = i) (rev es) of Some e \<Rightarrow> Some e | None \<Rightarrow> map_of m0 i)"
proof (induction es arbitrary: m0)
  case (Cons e es)
  then show ?case by (auto simp: map_of_update find_append split: option.splits)
qed simp

lemma by_id_Some:
  assumes "distinct (map entry_id es)"
  shows "map_of (by_id es) i = Some e \<longleftrightarrow> e \<in> set es \<and> entry_id e = i"
proof
  assume "map_of (by_id es) i = Some e"
  then have "find (\<lambda>e. entry_id e = i) (rev es) = Some e"
    by (auto simp: by_id_def by_id_fold split: option.splits)
  from find_SomeD [OF this] show "e \<in> set es \<and> entry_id e = i" by simp
next
  assume e: "e \<in> set es \<and> entry_id e = i"
  then obtain f where f: "find (\<lambda>e. entry_id e = i) (rev es) = Some f"
    using find_None_iff_ball [of "\<lambda>e. entry_id e = i" "rev es"] by fastforce
  then have "f = e" using e find_SomeD [OF f] assms by (auto simp: distinct_map inj_on_def)
  then show "map_of (by_id es) i = Some e" using f by (simp add: by_id_def by_id_fold)
qed

lemma by_id_has: "map_has (by_id es) i \<longleftrightarrow> i \<in> entry_id ` set es"
proof -
  have "find (\<lambda>e. entry_id e = i) (rev es) = None \<longleftrightarrow> i \<notin> entry_id ` set es"
    by (auto simp: find_None_iff_ball)
  then show ?thesis by (auto simp: map_has_def by_id_def by_id_fold split: option.splits)
qed

lemma by_id_keys: "set (map_keys (by_id es)) = entry_id ` set es"
  by (rule set_eqI) (simp only: by_id_has flip: map_has_iff)

definition replay_heads :: "store_entry_metadata list \<Rightarrow> string set" where
  "replay_heads es =
     {i \<in> entry_id ` set es. \<not> (\<exists>e \<in> set es. i \<in> set (dependencyIds e))}"

lemma latestHeads_eq: "set (fst (buildLatestStateReachability es)) = replay_heads es"
  by (auto simp: buildLatestStateReachability_def Let_def by_id_has replay_heads_def)

lemma latestReachable_eq:
  "set (snd (buildLatestStateReachability es)) =
     {i. \<exists>h \<in> replay_heads es. (replay_edge (by_id es))\<^sup>*\<^sup>* h i}"
  "distinct (snd (buildLatestStateReachability es))"
proof -
  let ?m = "by_id es"
  have walk: "snd (buildLatestStateReachability es) =
      latest_walk ?m (rev (fst (buildLatestStateReachability es))) []"
    by (simp add: buildLatestStateReachability_def Let_def)
  have "\<forall>i \<in> set (rev (fst (buildLatestStateReachability es))). map_has ?m i"
    using latestHeads_eq by (auto simp: by_id_has replay_heads_def)
  then have "set (latest_walk ?m (rev (fst (buildLatestStateReachability es))) []) =
      {i. \<exists>h \<in> replay_heads es. (replay_edge ?m)\<^sup>*\<^sup>* h i} \<and>
      distinct (latest_walk ?m (rev (fst (buildLatestStateReachability es))) [])"
    by (intro latest_walk_correct) (simp_all add: latestHeads_eq walk_inv_init)
  then show "set (snd (buildLatestStateReachability es)) =
     {i. \<exists>h \<in> replay_heads es. (replay_edge (by_id es))\<^sup>*\<^sup>* h i}"
    "distinct (snd (buildLatestStateReachability es))" by (simp_all add: walk)
qed

text \<open>A replay graph is acyclic when no entry reaches itself along one or more dependencies.\<close>

definition replay_acyclic :: "(string, store_entry_metadata) jsmap \<Rightarrow> bool" where
  "replay_acyclic m \<longleftrightarrow> (\<forall>i. \<not> (replay_edge m)\<^sup>+\<^sup>+ i i)"

lemma replay_edge_finite: "finite {(a, b). replay_edge m a b}"
proof (rule finite_subset)
  show "{(a, b). replay_edge m a b} \<subseteq> set (map_keys m) \<times> set (map_keys m)"
    by (auto simp: replay_edge_def map_has_iff map_of_Some_key)
qed simp

lemma replay_wf:
  assumes "replay_acyclic m"
  shows "wf {(a, b). replay_edge m a b}" and "wf ({(a, b). replay_edge m a b}\<inverse>)"
proof -
  have "acyclic {(a, b). replay_edge m a b}"
    using assms by (simp add: acyclic_def replay_acyclic_def tranclp_unfold)
  with replay_edge_finite [of m] show "wf {(a, b). replay_edge m a b}"
    "wf ({(a, b). replay_edge m a b}\<inverse>)"
    by (auto intro: finite_acyclic_wf finite_acyclic_wf_converse)
qed

text \<open>In an acyclic graph the heads reach every replay entry.\<close>

lemma latestReachable_all:
  assumes "distinct (map entry_id es)" and "replay_acyclic (by_id es)"
  shows "set (snd (buildLatestStateReachability es)) = entry_id ` set es"
proof -
  let ?E = "replay_edge (by_id es)"
  have "i \<in> entry_id ` set es \<Longrightarrow> \<exists>h \<in> replay_heads es. ?E\<^sup>*\<^sup>* h i" for i
    using replay_wf(1) [OF assms(2)]
  proof (induction i rule: wf_induct_rule)
    case (less i)
    show ?case
    proof (cases "i \<in> replay_heads es")
      case False
      then obtain e where e: "e \<in> set es" "i \<in> set (dependencyIds e)"
        using less.prems by (auto simp: replay_heads_def)
      then have edge: "?E (entry_id e) i"
        using less.prems assms(1) by (auto simp: replay_edge_def by_id_Some by_id_has)
      with less.IH [of "entry_id e"] e show ?thesis
        by (auto intro: rtranclp.rtrancl_into_rtrancl)
    qed auto
  qed
  moreover have "i \<in> entry_id ` set es" if "?E\<^sup>*\<^sup>* h i" "h \<in> replay_heads es" for h i
    using that by (induction rule: rtranclp_induct) (auto simp: replay_heads_def replay_edge_def by_id_has)
  ultimately show ?thesis unfolding latestReachable_eq by blast
qed

section \<open>Kahn's algorithm\<close>

text \<open>
  The abstract specification: starting from an empty list, append the least id all of whose
  dependencies are in the list, as long as there is one. It speaks of sets only, so it does
  not depend on any iteration order.
\<close>

definition ready :: "string set \<Rightarrow> (string \<Rightarrow> string set) \<Rightarrow> string list \<Rightarrow> string set" where
  "ready S D ordered = {i \<in> S. i \<notin> set ordered \<and> D i \<subseteq> set ordered}"

function greedy_order :: "string set \<Rightarrow> (string \<Rightarrow> string set) \<Rightarrow> string list \<Rightarrow> string list" where
  "greedy_order S D ordered =
     (if finite S \<and> ready S D ordered \<noteq> {}
      then greedy_order S D (ordered @ [Min (ready S D ordered)]) else ordered)"
  by pat_completeness auto
termination
proof (relation "measure (\<lambda>(S, D, ordered). card (S - set ordered))")
  fix S :: "string set" and D ordered
  assume fin: "finite S \<and> ready S D ordered \<noteq> {}"
  then have "Min (ready S D ordered) \<in> ready S D ordered"
    by (intro Min_in) (auto simp: ready_def)
  then have "Min (ready S D ordered) \<in> S - set ordered" by (simp add: ready_def)
  moreover have "S - set (ordered @ [x]) = (S - set ordered) - {x}" for x by auto
  ultimately show "((S, D, ordered @ [Min (ready S D ordered)]), S, D, ordered) \<in>
      measure (\<lambda>(S, D, ordered). card (S - set ordered))"
    using fin by (simp only: in_measure split_conv) (metis card_Diff1_less finite_Diff)
qed simp

declare greedy_order.simps [simp del]

text \<open>Every element comes after all of its dependencies.\<close>

definition deps_first :: "(string \<Rightarrow> string set) \<Rightarrow> string list \<Rightarrow> bool" where
  "deps_first D xs \<longleftrightarrow> (\<forall>k < length xs. D (xs ! k) \<subseteq> set (take k xs))"

lemma deps_first_Nil [simp]: "deps_first D []"
  by (simp add: deps_first_def)

lemma deps_first_snoc [simp]: "deps_first D (xs @ [x]) \<longleftrightarrow> deps_first D xs \<and> D x \<subseteq> set xs"
  by (auto simp: deps_first_def nth_append less_Suc_eq all_conj_distrib)

lemma deps_first_closed: "deps_first D xs \<Longrightarrow> x \<in> set xs \<Longrightarrow> D x \<subseteq> set xs"
  by (induction xs rule: rev_induct) auto

lemma greedy_order_sound:
  assumes "distinct ordered" and "set ordered \<subseteq> S" and "deps_first D ordered"
  shows "distinct (greedy_order S D ordered) \<and> set (greedy_order S D ordered) \<subseteq> S \<and>
         deps_first D (greedy_order S D ordered) \<and>
         (finite S \<longrightarrow> ready S D (greedy_order S D ordered) = {})"
  using assms
proof (induction S D ordered rule: greedy_order.induct)
  case (1 S D ordered)
  show ?case
  proof (cases "finite S \<and> ready S D ordered \<noteq> {}")
    case True
    then have "Min (ready S D ordered) \<in> ready S D ordered"
      by (intro Min_in) (auto simp: ready_def)
    then show ?thesis
      using True 1 by (simp add: greedy_order.simps [of S D ordered] ready_def)
  next
    case False
    then show ?thesis using 1(2-4) by (auto simp: greedy_order.simps [of S D ordered])
  qed
qed

lemma greedy_order_complete:
  assumes "finite S" and "\<And>i. i \<in> S \<Longrightarrow> D i \<subseteq> S" and wf: "wf {(d, i). i \<in> S \<and> d \<in> D i}"
  shows "set (greedy_order S D []) = S"
proof -
  let ?r = "greedy_order S D []"
  have sound: "set ?r \<subseteq> S" "ready S D ?r = {}"
    using greedy_order_sound [of "[]" S D] assms(1) by auto
  have "i \<in> S \<Longrightarrow> i \<in> set ?r" for i
    using wf
  proof (induction i rule: wf_induct_rule)
    case (less i)
    then have "D i \<subseteq> set ?r" using assms(2) [of i] by auto
    then show ?case using sound(2) less.prems by (auto simp: ready_def)
  qed
  with sound(1) show ?thesis by blast
qed

subsection \<open>The implementation follows the specification\<close>

lemma get_or_0_update [simp]:
  "get_or_0 (AList.update k v m) x = (if x = k then v else get_or_0 m x)"
  by (simp add: get_or_0_def map_of_update)

lemma get_or_nil_update [simp]:
  "get_or_nil (AList.update k v m) x = (if x = k then v else get_or_nil m x)"
  by (simp add: get_or_nil_def map_of_update)

lemma kahn_releases:
  assumes "foldl kahn_release (ind, q) L = (ind', q')"
    and "\<forall>x. int (count (mset L) x) \<le> get_or_0 ind x \<or> x \<notin> set L"
  shows "(\<forall>x. get_or_0 ind' x = get_or_0 ind x - int (count (mset L) x)) \<and>
         set q' = set q \<union> {x \<in> set L. get_or_0 ind x = int (count (mset L) x)} \<and>
         (distinct q \<and> set q \<inter> set L = {} \<longrightarrow> distinct q')"
  using assms
proof (induction L arbitrary: ind q)
  case (Cons d L)
  define ind1 where "ind1 = AList.update d (get_or_0 ind d - 1) ind"
  define q1 where "q1 = (if get_or_0 ind d = 1 then q @ [d] else q)"
  have "kahn_release (ind, q) d = (ind1, q1)"
    by (simp add: kahn_release_def Let_def ind1_def q1_def)
  then have rest: "foldl kahn_release (ind1, q1) L = (ind', q')"
    using Cons.prems(1) by simp
  have bound: "1 + int (count (mset L) d) \<le> get_or_0 ind d"
    using spec [OF Cons.prems(2), of d] by simp
  have bounds: "int (count (mset L) y) \<le> get_or_0 ind y \<or> y \<notin> set L" for y
    using spec [OF Cons.prems(2), of y] by (auto split: if_splits)
  have pre: "\<forall>y. int (count (mset L) y) \<le> get_or_0 ind1 y \<or> y \<notin> set L"
    using bound bounds by (auto simp: ind1_def)
  have last: "d \<notin> set L" if "get_or_0 ind d = 1"
  proof -
    have "count (mset L) d = 0" using bound that by simp
    then show ?thesis by (metis count_eq_zero_iff set_mset_mset)
  qed
  have IH: "get_or_0 ind' x = get_or_0 ind1 x - int (count (mset L) x)"
    "set q' = set q1 \<union> {x \<in> set L. get_or_0 ind1 x = int (count (mset L) x)}"
    "distinct q1 \<and> set q1 \<inter> set L = {} \<longrightarrow> distinct q'" for x
    using Cons.IH [OF rest pre] by blast+
  have "{x \<in> set (d # L). get_or_0 ind x = int (count (mset (d # L)) x)} =
      (if get_or_0 ind d = 1 then {d} else {}) \<union> {x \<in> set L. get_or_0 ind1 x = int (count (mset L) x)}"
    using bound last by (auto simp: ind1_def)
  then have "set q' = set q \<union> {x \<in> set (d # L). get_or_0 ind x = int (count (mset (d # L)) x)}"
    using IH(2) by (auto simp: q1_def)
  moreover have "\<forall>x. get_or_0 ind' x = get_or_0 ind x - int (count (mset (d # L)) x)"
    using IH(1) by (simp add: ind1_def)
  moreover have "distinct q \<and> set q \<inter> set (d # L) = {} \<longrightarrow> distinct q'"
    using IH(3) last by (auto simp: q1_def split: if_splits)
  ultimately show ?case by blast
qed simp

lemma length_filter_remove:
  "i \<notin> A \<Longrightarrow> length (filter (\<lambda>d. d \<notin> A) xs) =
     length (filter (\<lambda>d. d \<notin> insert i A) xs) + count (mset xs) i"
  by (induction xs) auto

text \<open>
  The state of the loop against the list built so far: in-degrees count the dependencies not
  yet emitted, the queue holds the ready ids in order, and the reverse edges are complete.
\<close>

definition kahn_inv ::
  "string set \<Rightarrow> (string \<Rightarrow> string list) \<Rightarrow> (string, string list) jsmap \<Rightarrow> (string, int) jsmap \<Rightarrow>
   string list \<Rightarrow> string list \<Rightarrow> bool" where
  "kahn_inv S D dependents ind q ordered \<longleftrightarrow>
     (\<forall>i \<in> S. get_or_0 ind i = int (length (filter (\<lambda>d. d \<notin> set ordered) (D i)))) \<and>
     (\<forall>j. \<forall>i. count (mset (get_or_nil dependents j)) i = (if i \<in> S then count (mset (D i)) j else 0)) \<and>
     sorted q \<and> distinct q \<and> set q = ready S (\<lambda>i. set (D i)) ordered \<and>
     deps_first (\<lambda>i. set (D i)) ordered"

lemma mem_count: "x \<in> set xs \<longleftrightarrow> 0 < count (mset xs) x"
  by (metis count_greater_zero_iff set_mset_mset)

lemma ready_step:
  assumes r: "i \<in> ready S (\<lambda>i. set (D i)) ordered" and first: "deps_first (\<lambda>i. set (D i)) ordered"
    and L: "\<And>x. x \<in> L \<longleftrightarrow> x \<in> S \<and> i \<in> set (D x)"
  shows "ready S (\<lambda>i. set (D i)) (ordered @ [i]) =
           (ready S (\<lambda>i. set (D i)) ordered - {i}) \<union>
           {x \<in> L. filter (\<lambda>d. d \<notin> insert i (set ordered)) (D x) = []}"
    and "ready S (\<lambda>i. set (D i)) ordered \<inter> L = {}"
proof -
  have i: "i \<notin> set ordered" "set (D i) \<subseteq> set ordered" using r by (auto simp: ready_def)
  then have "i \<notin> L" using L by auto
  moreover have "x \<notin> set ordered" if "x \<in> L" for x
    using that i(1) L deps_first_closed [OF first] by blast
  ultimately show "ready S (\<lambda>i. set (D i)) (ordered @ [i]) =
      (ready S (\<lambda>i. set (D i)) ordered - {i}) \<union>
      {x \<in> L. filter (\<lambda>d. d \<notin> insert i (set ordered)) (D x) = []}"
    using L by (auto simp: ready_def filter_empty_conv)
  show "ready S (\<lambda>i. set (D i)) ordered \<inter> L = {}"
    using i(1) L by (auto simp: ready_def)
qed

lemma kahn_inv_step:
  assumes inv: "kahn_inv S D dependents ind (i # q) ordered"
    and rel: "foldl kahn_release (ind, q) (get_or_nil dependents i) = (ind', q')"
  shows "kahn_inv S D dependents ind' (js_sort_strings q') (ordered @ [i])"
proof -
  let ?L = "get_or_nil dependents i"
  let ?open = "\<lambda>x. length (filter (\<lambda>d. d \<notin> insert i (set ordered)) (D x))"
  have ind: "get_or_0 ind x = int (length (filter (\<lambda>d. d \<notin> set ordered) (D x)))" if "x \<in> S" for x
    using inv that by (simp add: kahn_inv_def)
  have cnt: "count (mset ?L) x = (if x \<in> S then count (mset (D x)) i else 0)" for x
    using inv by (simp add: kahn_inv_def)
  have q: "distinct (i # q)" "set (i # q) = ready S (\<lambda>i. set (D i)) ordered"
    and first: "deps_first (\<lambda>i. set (D i)) ordered" using inv by (simp_all add: kahn_inv_def)
  then have r: "i \<in> ready S (\<lambda>i. set (D i)) ordered" by auto
  then have new: "i \<notin> set ordered" by (simp add: ready_def)
  have L: "x \<in> set ?L \<longleftrightarrow> x \<in> S \<and> i \<in> set (D x)" for x
    using mem_count [of x ?L] mem_count [of i "D x"] cnt [of x] by simp
  have open_eq: "get_or_0 ind x = int (?open x) + int (count (mset ?L) x)" if "x \<in> S" for x
    using ind [OF that] length_filter_remove [OF new, of "D x"] cnt [of x] that by simp
  have pre: "\<forall>x. int (count (mset ?L) x) \<le> get_or_0 ind x \<or> x \<notin> set ?L"
    using open_eq L by auto
  note rs = kahn_releases [OF rel pre] and st = ready_step [where D = D, OF r first L]
  have "{x \<in> set ?L. get_or_0 ind x = int (count (mset ?L) x)} = {x \<in> set ?L. ?open x = 0}"
    using open_eq L by auto
  then have "set q' = set q \<union> {x \<in> set ?L. ?open x = 0}" using rs by simp
  moreover have "set q = ready S (\<lambda>i. set (D i)) ordered - {i}" using q by auto
  ultimately have "set q' = ready S (\<lambda>i. set (D i)) (ordered @ [i])" using st(1) by simp
  moreover have "distinct q'" using rs q st(2) by auto
  moreover have "get_or_0 ind' x = int (?open x)" if "x \<in> S" for x
    using rs open_eq [OF that] by simp
  ultimately show ?thesis
    using inv r first by (auto simp: kahn_inv_def js_sort_strings_eq_sort ready_def)
qed

lemma kahn_loop_greedy:
  assumes "finite S" and "kahn_inv S D dependents ind q ordered"
  shows "kahn_loop dependents ind q ordered = greedy_order S (\<lambda>i. set (D i)) ordered"
  using assms(2)
proof (induction dependents ind q ordered rule: kahn_loop.induct)
  case (1 dependents ind ordered)
  then show ?case by (simp add: kahn_inv_def greedy_order.simps [of S _ ordered])
next
  case (2 dependents ind i q ordered)
  obtain ind' q' where rel: "foldl kahn_release (ind, q) (get_or_nil dependents i) = (ind', q')"
    by fastforce
  have q: "sorted (i # q)" "set (i # q) = ready S (\<lambda>i. set (D i)) ordered"
    using "2.prems" by (simp_all add: kahn_inv_def)
  then have "Min (ready S (\<lambda>i. set (D i)) ordered) = i"
    using assms(1) by (intro Min_eqI) (auto simp flip: q(2))
  moreover have "ready S (\<lambda>i. set (D i)) ordered \<noteq> {}" using q(2) by auto
  ultimately have "greedy_order S (\<lambda>i. set (D i)) ordered =
      greedy_order S (\<lambda>i. set (D i)) (ordered @ [i])"
    using assms(1) by (simp add: greedy_order.simps [of S _ ordered])
  then show ?case
    using "2.IH" [OF rel [symmetric]] kahn_inv_step [OF "2.prems" rel]
    by (simp add: kahn_loop.simps(2) rel)
qed

subsection \<open>Building the graph\<close>

lemma kahn_edges:
  assumes "foldl (kahn_edge i) (ind, dep) ds = (ind', dep')"
  shows "get_or_0 ind' x = get_or_0 ind x + (if x = i then int (length ds) else 0)"
    and "count (mset (get_or_nil dep' j)) x =
           count (mset (get_or_nil dep j)) x + (if x = i then count (mset ds) j else 0)"
proof -
  have "get_or_0 ind' x = get_or_0 ind x + (if x = i then int (length ds) else 0) \<and>
    count (mset (get_or_nil dep' j)) x =
           count (mset (get_or_nil dep j)) x + (if x = i then count (mset ds) j else 0)"
    using assms
  proof (induction ds arbitrary: ind dep)
    case (Cons d ds)
    have "kahn_edge i (ind, dep) d =
        (AList.update i (get_or_0 ind i + 1) ind, AList.update d (get_or_nil dep d @ [i]) dep)"
      by (simp add: kahn_edge_def)
    with Cons.prems Cons.IH show ?case by fastforce
  qed simp
  then show "get_or_0 ind' x = get_or_0 ind x + (if x = i then int (length ds) else 0)"
    and "count (mset (get_or_nil dep' j)) x =
           count (mset (get_or_nil dep j)) x + (if x = i then count (mset ds) j else 0)" by auto
qed

lemma kahn_graph:
  assumes "distinct is" and "foldl (\<lambda>gr i. foldl (kahn_edge i) gr (D i)) (ind, dep) is = (ind', dep')"
  shows "get_or_0 ind' x = get_or_0 ind x + (if x \<in> set is then int (length (D x)) else 0) \<and>
    count (mset (get_or_nil dep' j)) x =
           count (mset (get_or_nil dep j)) x + (if x \<in> set is then count (mset (D x)) j else 0)"
  using assms
proof (induction "is" arbitrary: ind dep)
  case (Cons i "is")
  obtain ind1 dep1 where e: "foldl (kahn_edge i) (ind, dep) (D i) = (ind1, dep1)" by fastforce
  show ?case
    using Cons.IH [of ind1 dep1] Cons.prems e kahn_edges(1) [OF e, of x] kahn_edges(2) [OF e, of j x]
    by auto
qed simp

lemma kahn_init_inv:
  assumes "distinct ids" and "kahn_init ids m = (ind, dep)"
  shows "kahn_inv (set ids) (in_set_deps ids m) dep ind
           (js_sort_strings (filter (\<lambda>i. get_or_0 ind i = 0) ids)) []"
proof -
  have zero: "get_or_0 (map (\<lambda>i. (i, 0)) ids) x = 0" "get_or_nil (map (\<lambda>i. (i, [])) ids) x = []" for x
    by (auto simp: get_or_0_def get_or_nil_def map_of_map_restrict restrict_map_def)
  have g: "get_or_0 ind x = (if x \<in> set ids then int (length (in_set_deps ids m x)) else 0)"
    "count (mset (get_or_nil dep j)) x = (if x \<in> set ids then count (mset (in_set_deps ids m x)) j else 0)"
    for x j
    using kahn_graph [OF assms(1) assms(2) [unfolded kahn_init_def], of x j] zero [of x] zero [of j]
    by simp_all
  then show ?thesis
    using assms(1) by (auto simp: kahn_inv_def js_sort_strings_eq_sort ready_def)
qed

section \<open>Properties of the planner\<close>

text \<open>The dependencies among the given ids have no cycle.\<close>

definition deps_acyclic :: "string jsset \<Rightarrow> (string, store_entry_metadata) jsmap \<Rightarrow> bool" where
  "deps_acyclic ids m \<longleftrightarrow> acyclic {(d, i). i \<in> set ids \<and> d \<in> set (in_set_deps ids m i)}"

lemma in_set_deps_subset: "set (in_set_deps ids m i) \<subseteq> set ids"
  by (auto simp: in_set_deps_def split: option.splits)

lemma topological_greedy:
  assumes "distinct ids"
  shows "topologicalByDependencies ids m =
     (let r = greedy_order (set ids) (\<lambda>i. set (in_set_deps ids m i)) []
      in if set r \<noteq> set ids then sort ids else r)"
proof -
  let ?r = "greedy_order (set ids) (\<lambda>i. set (in_set_deps ids m i)) []"
  obtain ind dep where init: "kahn_init ids m = (ind, dep)" by fastforce
  have loop: "kahn_loop dep ind (js_sort_strings (filter (\<lambda>i. get_or_0 ind i = 0) ids)) [] = ?r"
    by (rule kahn_loop_greedy [OF _ kahn_init_inv [OF assms init]]) simp
  have r: "distinct ?r" "set ?r \<subseteq> set ids"
    using greedy_order_sound [of "[]" "set ids" "\<lambda>i. set (in_set_deps ids m i)"] by auto
  then have "length ?r = length ids \<longleftrightarrow> set ?r = set ids"
    using assms by (metis List.finite_set card_subset_eq distinct_card)
  then show ?thesis
    by (simp add: topologicalByDependencies_def init loop Let_def) (simp add: js_sort_strings_eq_sort)
qed

lemma topological_sound:
  assumes "distinct ids"
  shows "distinct (topologicalByDependencies ids m) \<and> set (topologicalByDependencies ids m) = set ids"
  using greedy_order_sound [of "[]" "set ids" "\<lambda>i. set (in_set_deps ids m i)"] assms
  by (simp add: topological_greedy Let_def)

lemma topological_deps_first:
  assumes "distinct ids" and "deps_acyclic ids m"
  shows "deps_first (\<lambda>i. set (in_set_deps ids m i)) (topologicalByDependencies ids m)"
proof -
  let ?E = "{(d, i). i \<in> set ids \<and> d \<in> set (in_set_deps ids m i)}"
  have "?E \<subseteq> set ids \<times> set ids" using in_set_deps_subset by auto
  then have "wf ?E" using assms(2)
    by (intro finite_acyclic_wf) (auto simp: deps_acyclic_def intro: finite_subset)
  then have "set (greedy_order (set ids) (\<lambda>i. set (in_set_deps ids m i)) []) = set ids"
    by (intro greedy_order_complete) (auto dest: in_set_deps_subset [THEN subsetD])
  then show ?thesis
    using greedy_order_sound [of "[]" "set ids" "\<lambda>i. set (in_set_deps ids m i)"] assms(1)
    by (simp add: topological_greedy)
qed

lemma topological_set_only:
  assumes "distinct ids" and "distinct ids'" and "set ids' = set ids"
  shows "topologicalByDependencies ids' m = topologicalByDependencies ids m"
proof -
  have "in_set_deps ids' m = in_set_deps ids m" 
    using assms(3) by (simp add: in_set_deps_def fun_eq_iff cong: option.case_cong)
  moreover have "sort ids' = sort ids" using assms by (metis sorted_list_of_set_sort_remdups remdups_id_iff_distinct)
  ultimately show ?thesis using assms by (simp add: topological_greedy Let_def)
qed

text \<open>Three changes \<open>a\<close>, \<open>b\<close>, \<open>c\<close> where \<open>a\<close> depends on \<open>c\<close> and \<open>b\<close>, \<open>b\<close> on \<open>c\<close>, and a snapshot of \<open>c\<close>.\<close>

definition demo_replay :: "store_entry_metadata list" where
  "demo_replay = [sample_metadata doc_create ''c'' ''d'' [] ''h'' 1,
     sample_metadata doc_change ''b'' ''d'' [''c''] ''h'' 2,
     sample_metadata doc_change ''a'' ''d'' [''c'', ''b''] ''h'' 3]"

lemma demo_by_id: "by_id demo_replay =
   [(''c'', sample_metadata doc_create ''c'' ''d'' [] ''h'' 1),
    (''b'', sample_metadata doc_change ''b'' ''d'' [''c''] ''h'' 2),
    (''a'', sample_metadata doc_change ''a'' ''d'' [''c'', ''b''] ''h'' 3)]"
  by (simp add: by_id_def demo_replay_def)

lemma demo_deps:
  "in_set_deps [''a'', ''b'', ''c''] (by_id demo_replay) i =
     (if i = ''a'' then [''c'', ''b''] else if i = ''b'' then [''c''] else [])"
  by (simp add: in_set_deps_def demo_by_id)

lemma acyclic_by_rank:
  fixes f :: "'a \<Rightarrow> nat"
  assumes "\<And>a b. (a, b) \<in> r \<Longrightarrow> f a < f b"
  shows "acyclic r"
proof (rule wf_acyclic, rule wf_subset)
  show "r \<subseteq> measure f" using assms by auto
qed simp

lemma demo_deps_acyclic: "deps_acyclic [''a'', ''b'', ''c''] (by_id demo_replay)"
  unfolding deps_acyclic_def demo_deps
  by (rule acyclic_by_rank [of _ "\<lambda>i. if i = ''a'' then 2 else if i = ''b'' then 1 else 0"])
    (auto split: if_splits)

text \<open>
  The topological sort returns every given id exactly once, cycles or not; without cycles
  every id comes after all its dependencies in the set; and the result depends on the set of
  ids only, not on the order in which the set is iterated.
\<close>

theorem topological_correct:
  assumes "distinct ids"
  shows "mset (topologicalByDependencies ids m) = mset ids \<and>
         (deps_acyclic ids m \<longrightarrow>
            deps_first (\<lambda>i. set (in_set_deps ids m i)) (topologicalByDependencies ids m)) \<and>
         (\<forall>ids'. distinct ids' \<and> set ids' = set ids \<longrightarrow>
            topologicalByDependencies ids' m = topologicalByDependencies ids m)"
  using topological_sound [OF assms] topological_deps_first [OF assms] topological_set_only [OF assms]
    assms set_eq_iff_mset_eq_distinct by blast

theorem topological_correct_witness:
  "deps_first (\<lambda>i. set (in_set_deps [''a'', ''b'', ''c''] (by_id demo_replay) i))
     (topologicalByDependencies [''a'', ''b'', ''c''] (by_id demo_replay)) \<and>
   topologicalByDependencies [''c'', ''a'', ''b''] (by_id demo_replay) =
     topologicalByDependencies [''a'', ''b'', ''c''] (by_id demo_replay)"
proof -
  have "distinct [''a'', ''b'', ''c'']" "distinct [''c'', ''a'', ''b'']"
    "set [''c'', ''a'', ''b''] = set [''a'', ''b'', ''c'']" by auto
  then show ?thesis
    using topological_correct [of "[''a'', ''b'', ''c'']" "by_id demo_replay"] demo_deps_acyclic by blast
qed

subsection \<open>The chosen snapshot and the plan\<close>

abbreviation covered_count ::
  "(string, store_entry_metadata) jsmap \<Rightarrow> string jsset \<Rightarrow> store_entry_metadata \<Rightarrow> int" where
  "covered_count m latest s \<equiv> int (length (filter (\<lambda>i. i \<in> covers s m) latest))"

lemma best_snapshot:
  assumes "foldl (score_snapshot m latest) (None, -1) snaps = (b, n)"
  shows "(snaps = [] \<longrightarrow> b = None) \<and>
         (snaps \<noteq> [] \<longrightarrow> (\<exists>s \<in> set snaps. b = Some s \<and> n = covered_count m latest s \<and>
            (\<forall>s' \<in> set snaps. covered_count m latest s' \<le> n)))"
  using assms
proof (induction snaps arbitrary: b n rule: rev_induct)
  case (snoc s snaps)
  obtain b0 n0 where f: "foldl (score_snapshot m latest) (None, -1) snaps = (b0, n0)" by fastforce
  with snoc.prems have bn: "score_snapshot m latest (b0, n0) s = (b, n)" by simp
  show ?case
  proof (cases "snaps = []")
    case True
    then have "b0 = None" "n0 = -1" using f by auto
    then show ?thesis using True bn by (auto simp: score_snapshot_def coveredBySnapshot_eq Let_def)
  next
    case False
    then obtain s0 where "s0 \<in> set snaps" "b0 = Some s0" "n0 = covered_count m latest s0"
      "\<forall>s' \<in> set snaps. covered_count m latest s' \<le> n0"
      using snoc.IH [OF f] by blast
    then show ?thesis
      using bn by (auto simp: score_snapshot_def coveredBySnapshot_eq Let_def split: if_splits)
  qed
qed simp

lemma covers_keys: "covers s m \<subseteq> set (map_keys m)"
proof
  fix i assume "i \<in> covers s m"
  then obtain r where "(replay_edge m)\<^sup>*\<^sup>* r i" "r \<in> set (map_keys m)" by (auto simp: covers_def)
  then show "i \<in> set (map_keys m)"
    by (induction rule: rtranclp_induct) (auto simp: replay_edge_def map_has_iff)
qed

text \<open>Whether a plan is right for a set of entries: the parts of the statement of the planner's contract.\<close>

definition replay_ids :: "store_entry_metadata list \<Rightarrow> string set" where
  "replay_ids es = entry_id ` set (filter isReplayEntry es)"

definition snapshots_of :: "store_entry_metadata list \<Rightarrow> store_entry_metadata set" where
  "snapshots_of es = {e \<in> set es. entryType e = doc_snapshot}"

abbreviation replay_map :: "store_entry_metadata list \<Rightarrow> (string, store_entry_metadata) jsmap" where
  "replay_map es \<equiv> by_id (filter isReplayEntry es)"

lemma plan_cases:
  assumes "replay = filter isReplayEntry es" and "replay \<noteq> []"
    and "latest = snd (buildLatestStateReachability replay)"
    and "foldl (score_snapshot (by_id replay) latest) (None, -1)
           (filter (\<lambda>e. entryType e = doc_snapshot) es) = (b, n)"
  shows "snapshotEntryId (computeDocumentMaterializationPlan d es diag) = map_option entry_id b \<and>
         entryIdsToApply (computeDocumentMaterializationPlan d es diag) =
           topologicalByDependencies
             (filter (\<lambda>i. i \<notin> set (coveredBySnapshot b (by_id replay))) latest) (by_id replay)"
  using assms
  by (cases "buildLatestStateReachability replay")
    (auto simp: computeDocumentMaterializationPlan_def Let_def)

lemma newest_snapshot_mem:
  assumes "ss \<noteq> []"
  shows "newest_snapshot ss \<in> set ss"
proof -
  have "foldl (\<lambda>a b. if createdAt b > createdAt a then b else a) s xs \<in> insert s (set xs)"
    for s and xs :: "store_entry_metadata list"
    by (induction xs arbitrary: s) (auto split: if_splits)
  then show ?thesis using assms by (cases ss) (auto simp: newest_snapshot_def)
qed

lemma covered_count_card:
  assumes "distinct latest" and "set latest = set (map_keys m)"
  shows "length (filter (\<lambda>i. i \<in> covers s m) latest) = card (covers s m)"
proof -
  have "set (filter (\<lambda>i. i \<in> covers s m) latest) = covers s m"
    using covers_keys [of s m] assms(2) by auto
  then show ?thesis using assms(1) by (metis distinct_card distinct_filter)
qed

lemma topological_edges:
  assumes "distinct ids" and "set ids \<subseteq> set (map_keys m)" and "replay_acyclic m"
    and "k < length (topologicalByDependencies ids m)"
    and edge: "replay_edge m (topologicalByDependencies ids m ! k) dep" and "dep \<in> set ids"
  shows "dep \<in> set (take k (topologicalByDependencies ids m))"
proof -
  let ?t = "topologicalByDependencies ids m"
  have "acyclic {(a, b). replay_edge m a b}"
    using assms(3) by (simp add: acyclic_def replay_acyclic_def tranclp_unfold)
  then have "acyclic ({(a, b). replay_edge m a b}\<inverse>)" by (rule acyclic_converse [THEN iffD2])
  moreover have "{(d, i). i \<in> set ids \<and> d \<in> set (in_set_deps ids m i)} \<subseteq> {(a, b). replay_edge m a b}\<inverse>"
  proof (rule subrelI)
    fix d i assume "(d, i) \<in> {(d, i). i \<in> set ids \<and> d \<in> set (in_set_deps ids m i)}"
    then have d: "d \<in> set (in_set_deps ids m i)" by simp
    then obtain e where "map_of m i = Some e" "d \<in> set (dependencyIds e)"
      by (cases "map_of m i") (simp_all add: in_set_deps_def)
    moreover have "map_has m d"
      using d assms(2) in_set_deps_subset [of ids m i] by (auto simp: map_has_iff)
    ultimately show "(d, i) \<in> {(a, b). replay_edge m a b}\<inverse>"
      by (simp add: replay_edge_def)
  qed
  ultimately have "deps_acyclic ids m" unfolding deps_acyclic_def by (rule acyclic_subset)
  then have "set (in_set_deps ids m (?t ! k)) \<subseteq> set (take k ?t)"
    using topological_deps_first [OF assms(1)] assms(4) by (simp add: deps_first_def)
  moreover have "dep \<in> set (in_set_deps ids m (?t ! k))"
    using edge assms(6) by (auto simp: in_set_deps_def replay_edge_def)
  ultimately show ?thesis by blast
qed

lemma topological_uncovered:
  assumes "distinct ids" and "set ids = set (map_keys m) - covered" and "replay_acyclic m"
    and "k < length (topologicalByDependencies ids m)"
    and "replay_edge m (topologicalByDependencies ids m ! k) dep"
  shows "dep \<in> covered \<or> dep \<in> set (take k (topologicalByDependencies ids m))"
proof (cases "dep \<in> covered")
  case False
  then have "dep \<in> set ids" using assms(2,5) by (auto simp: replay_edge_def map_has_iff)
  then show ?thesis using topological_edges [OF assms(1) _ assms(3-5)] assms(2) by blast
qed simp

lemma coveredBySnapshot_None [simp]: "coveredBySnapshot None m = []"
  by (simp add: coveredBySnapshot_def)

text \<open>
  C5. The plan of a document reconstructs the latest state. For an acyclic history the
  snapshot it names covers at least as many replay entries as any other snapshot (none is
  named only when there is none), and the entries to apply are exactly the replay entries the
  snapshot does not cover, each once. Applied in the given order, every dependency of an entry
  is covered by the snapshot or was applied before.
\<close>

theorem plan_complete:
  assumes "distinct (map entry_id es)" and "replay_acyclic (replay_map es)"
    and "plan = computeDocumentMaterializationPlan d es diag"
  shows "\<exists>covered.
     (snapshotEntryId plan = None \<and> snapshots_of es = {} \<and> covered = {} \<or>
      (\<exists>s \<in> snapshots_of es. snapshotEntryId plan = Some (entry_id s) \<and>
         covered = covers s (replay_map es) \<and>
         (\<forall>s' \<in> snapshots_of es. card (covers s' (replay_map es)) \<le> card covered))) \<and>
     distinct (entryIdsToApply plan) \<and>
     set (entryIdsToApply plan) = replay_ids es - covered \<and>
     (\<forall>k < length (entryIdsToApply plan). \<forall>dep.
        replay_edge (replay_map es) (entryIdsToApply plan ! k) dep \<longrightarrow>
        dep \<in> covered \<or> dep \<in> set (take k (entryIdsToApply plan)))"
proof (cases "filter isReplayEntry es = []")
  case True
  let ?snaps = "filter (\<lambda>e. entryType e = doc_snapshot) es"
  have "newest_snapshot ?snaps \<in> set ?snaps" if "?snaps \<noteq> []"
    using that newest_snapshot_mem by blast
  moreover have "covers s (replay_map es) = {}" for s
    using covers_keys [of s "replay_map es"] by (simp add: by_id_def True)
  moreover have "snapshots_of es = set ?snaps" by (simp add: snapshots_of_def)
  ultimately show ?thesis
    using True
    by (auto simp: assms(3) computeDocumentMaterializationPlan_def Let_def replay_ids_def filter_empty_conv)
next
  case False
  let ?replay = "filter isReplayEntry es" and ?m = "replay_map es"
  let ?snaps = "filter (\<lambda>e. entryType e = doc_snapshot) es"
  define latest where "latest = snd (buildLatestStateReachability ?replay)"
  obtain b n where best: "foldl (score_snapshot ?m latest) (None, -1) ?snaps = (b, n)" by fastforce
  define uncovered where "uncovered = filter (\<lambda>i. i \<notin> set (coveredBySnapshot b ?m)) latest"
  have plan: "snapshotEntryId plan = map_option entry_id b"
    "entryIdsToApply plan = topologicalByDependencies uncovered ?m"
    using plan_cases [OF refl False latest_def best, of d diag] by (simp_all add: assms(3) uncovered_def)
  have "distinct (map entry_id ?replay)" using assms(1) by (rule distinct_map_filter)
  then have latest: "set latest = set (map_keys ?m)" "distinct latest"
    using latestReachable_all [OF _ assms(2)] latestReachable_eq(2)
    by (simp_all add: latest_def by_id_keys [simplified])
  have unc: "distinct uncovered" "set uncovered = set (map_keys ?m) - set (coveredBySnapshot b ?m)"
    using latest by (auto simp: uncovered_def)
  have apply_props: "distinct (entryIdsToApply plan)"
    "set (entryIdsToApply plan) = replay_ids es - set (coveredBySnapshot b ?m)"
    "\<forall>k < length (entryIdsToApply plan). \<forall>dep. replay_edge ?m (entryIdsToApply plan ! k) dep \<longrightarrow>
        dep \<in> set (coveredBySnapshot b ?m) \<or> dep \<in> set (take k (entryIdsToApply plan))"
    using topological_sound [OF unc(1), of ?m] unc(2) topological_uncovered [OF unc assms(2)]
    by (simp_all add: plan by_id_keys [simplified] replay_ids_def)
  have "snapshotEntryId plan = None \<and> snapshots_of es = {} \<and> set (coveredBySnapshot b ?m) = {} \<or>
      (\<exists>s \<in> snapshots_of es. snapshotEntryId plan = Some (entry_id s) \<and>
         set (coveredBySnapshot b ?m) = covers s ?m \<and>
         (\<forall>s' \<in> snapshots_of es. card (covers s' ?m) \<le> card (set (coveredBySnapshot b ?m))))"
    using best_snapshot [OF best] plan(1) covered_count_card [OF latest(2,1)]
    by (cases "?snaps = []") (auto simp: snapshots_of_def filter_empty_conv coveredBySnapshot_eq)
  with apply_props show ?thesis by blast
qed

lemma demo_replay_acyclic: "replay_acyclic (by_id demo_replay)"
proof -
  have "acyclic ({(a, b). replay_edge (by_id demo_replay) a b}\<inverse>)"
    by (rule acyclic_by_rank [of _ "\<lambda>i. if i = ''a'' then 2 else if i = ''b'' then 1 else 0"])
      (auto simp: replay_edge_def demo_by_id split: if_splits)
  then have "acyclic {(a, b). replay_edge (by_id demo_replay) a b}" by (rule acyclic_converse [THEN iffD1])
  then show ?thesis by (simp add: acyclic_def replay_acyclic_def tranclp_unfold)
qed

lemma demo_replay_filter: "filter isReplayEntry demo_replay = demo_replay"
  by (simp add: demo_replay_def isReplayEntry_def DOC_REPLAY_TYPES_def)

theorem plan_complete_witness:
  "distinct (entryIdsToApply (computeDocumentMaterializationPlan ''d'' demo_replay False)) \<and>
   set (entryIdsToApply (computeDocumentMaterializationPlan ''d'' demo_replay False)) = {''a'', ''b'', ''c''}"
proof -
  have "distinct (map entry_id demo_replay)" by (simp add: demo_replay_def)
  moreover have "replay_acyclic (replay_map demo_replay)"
    by (simp add: demo_replay_filter demo_replay_acyclic)
  moreover have "snapshots_of demo_replay = {}" by (auto simp: snapshots_of_def demo_replay_def)
  moreover have "replay_ids demo_replay = {''a'', ''b'', ''c''}"
    unfolding replay_ids_def demo_replay_filter by (auto simp: demo_replay_def)
  ultimately show ?thesis
    using plan_complete [of demo_replay "computeDocumentMaterializationPlan ''d'' demo_replay False" "''d''" False]
    by auto
qed

subsection \<open>Batches\<close>

lemma group_by_doc_fold:
  "map_of (foldl (\<lambda>m e. AList.update (docId e)
                    ((case map_of m (docId e) of None \<Rightarrow> [] | Some xs \<Rightarrow> xs) @ [e]) m) m0 es) d =
   (if filter (\<lambda>e. docId e = d) es = [] then map_of m0 d
    else Some ((case map_of m0 d of None \<Rightarrow> [] | Some xs \<Rightarrow> xs) @ filter (\<lambda>e. docId e = d) es))"
  by (induction es arbitrary: m0) (auto simp: map_of_update split: option.splits)

lemma group_by_doc_get:
  "(case map_of (group_by_doc es) d of None \<Rightarrow> [] | Some xs \<Rightarrow> xs) = filter (\<lambda>e. docId e = d) es"
  by (simp add: group_by_doc_def group_by_doc_fold)

text \<open>
  Planning a batch is planning each document on its own entries: the grouping pass loses,
  mixes up and reorders nothing.
\<close>

theorem batch_plan_pointwise:
  "computeBatchMaterializationPlan es ds diag =
     map (\<lambda>d. computeDocumentMaterializationPlan d (filter (\<lambda>e. docId e = d) es) diag) ds"
  by (simp add: computeBatchMaterializationPlan_def group_by_doc_get)

end
