(* ===== verification/AttachmentReadPlanner.thy ===== *)
theory AttachmentReadPlanner
  imports StoreTypes
begin

text \<open>
  Planning a plaintext byte range of an attachment from chunk metadata alone
  (\<^verbatim>\<open>core/appendonlystores/AttachmentReadPlanner.ts\<close>). The store is the argument
  \<open>get\<close>, its \<^verbatim>\<open>getEntryMetadata\<close>. Thrown errors are values of \<open>attachment_error\<close>.
\<close>

datatype attachment_error =
    InvalidByteRange int int
  | EndExceedsSize int int
  | ChunkNotFound string
  | NotAttachmentChunk string
  | DependencyFanout string
  | InvalidOriginalSize string int
  | ChunkExceedsSize string int
  | ChainEndedEarly int
  | PlanWithoutChunks int int

record attachment_chunk_plan =
  chunk_id :: string
  chunk_startByte :: int
  chunk_endByteExclusive :: int
  chunk_originalSize :: int

record attachment_read_plan =
  plan_attachmentSize :: int
  plan_startByte :: int
  plan_endByteExclusive :: int
  chunkPlans :: "attachment_chunk_plan list"
  offsetInFirstChunk :: int

definition normalizeAttachmentReadRange ::
  "int \<Rightarrow> int \<Rightarrow> int option \<Rightarrow> attachment_error + int \<times> int" where
  "normalizeAttachmentReadRange attachmentSize startByte endOption =
     (let endByte = (case endOption of None \<Rightarrow> attachmentSize | Some e \<Rightarrow> e)
      in if startByte < 0 \<or> endByte < startByte then Inl (InvalidByteRange startByte endByte)
         else if endByte > attachmentSize then Inl (EndExceedsSize endByte attachmentSize)
         else Inr (startByte, endByte))"

definition validateAttachmentChunkMetadata ::
  "store_entry_metadata option \<Rightarrow> string \<Rightarrow> attachment_error + store_entry_metadata" where
  "validateAttachmentChunkMetadata metadata i =
     (case metadata of
        None \<Rightarrow> Inl (ChunkNotFound i)
      | Some m \<Rightarrow>
          if entryType m \<noteq> attachment_chunk then Inl (NotAttachmentChunk i)
          else if length (dependencyIds m) > 1 then Inl (DependencyFanout i)
          else if originalSize m \<le> 0 then Inl (InvalidOriginalSize i (originalSize m))
          else Inr m)"

definition finalizeAttachmentReadPlan ::
  "int \<Rightarrow> int \<times> int \<Rightarrow> attachment_chunk_plan list \<Rightarrow> attachment_error + attachment_read_plan" where
  "finalizeAttachmentReadPlan attachmentSize byteRange chunks =
     (let (startByte, endByte) = byteRange
      in if startByte = endByte then
           Inr \<lparr> plan_attachmentSize = attachmentSize, plan_startByte = startByte,
                 plan_endByteExclusive = endByte, chunkPlans = [], offsetInFirstChunk = 0 \<rparr>
         else case chunks of
           [] \<Rightarrow> Inl (PlanWithoutChunks startByte endByte)
         | first # _ \<Rightarrow>
             Inr \<lparr> plan_attachmentSize = attachmentSize, plan_startByte = startByte,
                   plan_endByteExclusive = endByte, chunkPlans = chunks,
                   offsetInFirstChunk = startByte - chunk_startByte first \<rparr>)"

text \<open>\<^verbatim>\<open>metadata.dependencyIds[0] ?? null\<close>\<close>

definition first_dependency :: "store_entry_metadata \<Rightarrow> string option" where
  "first_dependency m = (case dependencyIds m of [] \<Rightarrow> None | d # _ \<Rightarrow> Some d)"

lemma validated:
  "validateAttachmentChunkMetadata md i = Inr m \<Longrightarrow>
   md = Some m \<and> entryType m = attachment_chunk \<and> length (dependencyIds m) \<le> 1 \<and> 0 < originalSize m"
  by (auto simp: validateAttachmentChunkMetadata_def split: option.splits if_splits)

text \<open>The backward walk. An empty id ends it like a missing one, as in the code's condition.\<close>

function walk_chunks ::
  "(string \<Rightarrow> store_entry_metadata option) \<Rightarrow> int \<Rightarrow> int \<Rightarrow> int \<Rightarrow> string option \<Rightarrow> int \<Rightarrow>
   attachment_chunk_plan list \<Rightarrow>
   attachment_error + (string option \<times> int \<times> attachment_chunk_plan list)" where
  "walk_chunks get attachmentSize startByte endByte currentId currentChunkEnd plans =
     (case currentId of
        None \<Rightarrow> Inr (None, currentChunkEnd, plans)
      | Some i \<Rightarrow>
          if i = '''' \<or> \<not> currentChunkEnd > startByte then Inr (currentId, currentChunkEnd, plans)
          else case validateAttachmentChunkMetadata (get i) i of
            Inl e \<Rightarrow> Inl e
          | Inr metadata \<Rightarrow>
              let currentChunkStart = currentChunkEnd - originalSize metadata
              in if currentChunkStart < 0 then Inl (ChunkExceedsSize i attachmentSize)
                 else walk_chunks get attachmentSize startByte endByte (first_dependency metadata)
                        currentChunkStart
                        (if currentChunkEnd > startByte \<and> currentChunkStart < endByte
                         then plans @ [\<lparr> chunk_id = i, chunk_startByte = currentChunkStart,
                                         chunk_endByteExclusive = currentChunkEnd,
                                         chunk_originalSize = originalSize metadata \<rparr>]
                         else plans))"
  by pat_completeness auto
termination
  by (relation "measure (\<lambda>(get, sz, s, e, cur, chunkEnd, plans). nat chunkEnd)")
    (auto dest!: validated)

declare walk_chunks.simps [simp del]

definition planAttachmentReadByWalkingMetadata ::
  "(string \<Rightarrow> store_entry_metadata option) \<Rightarrow> string \<Rightarrow> int \<Rightarrow> int \<Rightarrow> int option \<Rightarrow>
   attachment_error + attachment_read_plan" where
  "planAttachmentReadByWalkingMetadata get lastChunkId attachmentSize startByte endOption =
     (case normalizeAttachmentReadRange attachmentSize startByte endOption of
        Inl e \<Rightarrow> Inl e
      | Inr (s, e) \<Rightarrow>
          if s = e \<or> attachmentSize = 0 then finalizeAttachmentReadPlan attachmentSize (s, e) []
          else case walk_chunks get attachmentSize s e (Some lastChunkId) attachmentSize [] of
            Inl err \<Rightarrow> Inl err
          | Inr (currentId, currentChunkEnd, plans) \<Rightarrow>
              if (currentId = None \<or> currentId = Some '''') \<and> currentChunkEnd > s
              then Inl (ChainEndedEarly attachmentSize)
              else finalizeAttachmentReadPlan attachmentSize (s, e) (rev plans))"

section \<open>Well-formed chunk chains\<close>

text \<open>
  The chunks of an attachment, newest first, as ids with plaintext sizes: each is a valid chunk
  whose only dependency is the next one, the oldest has none.
\<close>

fun chunk_chain ::
  "(string \<Rightarrow> store_entry_metadata option) \<Rightarrow> string option \<Rightarrow> (string \<times> int) list \<Rightarrow> bool" where
  "chunk_chain get cur [] \<longleftrightarrow> cur = None"
| "chunk_chain get cur ((i, n) # rest) \<longleftrightarrow>
     cur = Some i \<and> i \<noteq> '''' \<and>
     (case get i of
        None \<Rightarrow> False
      | Some m \<Rightarrow> validateAttachmentChunkMetadata (Some m) i = Inr m \<and> originalSize m = n \<and>
                  chunk_chain get (first_dependency m) rest)"

text \<open>The byte windows of the chunks, newest first from the end, and oldest first from the start.\<close>

fun back_ranges :: "int \<Rightarrow> (string \<times> int) list \<Rightarrow> attachment_chunk_plan list" where
  "back_ranges ce [] = []"
| "back_ranges ce ((i, n) # rest) =
     \<lparr> chunk_id = i, chunk_startByte = ce - n, chunk_endByteExclusive = ce, chunk_originalSize = n \<rparr>
       # back_ranges (ce - n) rest"

fun forward_ranges :: "int \<Rightarrow> (string \<times> int) list \<Rightarrow> attachment_chunk_plan list" where
  "forward_ranges s [] = []"
| "forward_ranges s ((i, n) # rest) =
     \<lparr> chunk_id = i, chunk_startByte = s, chunk_endByteExclusive = s + n, chunk_originalSize = n \<rparr>
       # forward_ranges (s + n) rest"

abbreviation total_size :: "(string \<times> int) list \<Rightarrow> int" where
  "total_size cs \<equiv> sum_list (map snd cs)"

abbreviation overlaps :: "int \<Rightarrow> int \<Rightarrow> attachment_chunk_plan \<Rightarrow> bool" where
  "overlaps s e c \<equiv> s < chunk_endByteExclusive c \<and> chunk_startByte c < e"

lemma forward_ranges_snoc:
  "forward_ranges s (xs @ [(i, n)]) = forward_ranges s xs @
     [\<lparr> chunk_id = i, chunk_startByte = s + total_size xs,
        chunk_endByteExclusive = s + total_size xs + n, chunk_originalSize = n \<rparr>]"
  by (induction xs arbitrary: s) (auto simp: add.assoc)

lemma rev_back_ranges: "rev (back_ranges ce cs) = forward_ranges (ce - total_size cs) (rev cs)"
proof (induction cs arbitrary: ce)
  case (Cons c cs)
  obtain i n where c: "c = (i, n)" by fastforce
  have "total_size (rev cs) = total_size cs" by (simp add: rev_map [symmetric])
  then show ?case using Cons by (simp add: c forward_ranges_snoc diff_diff_eq)
qed simp

lemma chunk_chain_sizes: "chunk_chain get cur cs \<Longrightarrow> \<forall>(i, n) \<in> set cs. 0 < n"
  by (induction get cur cs rule: chunk_chain.induct) (auto dest: validated split: option.splits)

lemma total_size_nonneg: "\<forall>(i, n) \<in> set cs. 0 < n \<Longrightarrow> 0 \<le> total_size cs"
  by (induction cs) auto

lemma back_ranges_end: "\<forall>(i, n) \<in> set cs. 0 < n \<Longrightarrow> c \<in> set (back_ranges ce cs) \<Longrightarrow>
   chunk_endByteExclusive c \<le> ce"
  by (induction cs arbitrary: ce) (auto, fastforce)

lemma walk_chunks_chain:
  assumes "chunk_chain get cur cs" and "0 \<le> s" and "total_size cs = ce" and "s < e"
  shows "\<exists>cur' ce'. walk_chunks get sz s e cur ce plans =
           Inr (cur', ce', plans @ filter (overlaps s e) (back_ranges ce cs)) \<and> ce' \<le> s"
  using assms
proof (induction get cur cs arbitrary: ce plans rule: chunk_chain.induct)
  case (1 get cur)
  then show ?case by (simp add: walk_chunks.simps [of get sz s e None])
next
  case (2 get cur i n rest)
  obtain m where m: "get i = Some m" "validateAttachmentChunkMetadata (Some m) i = Inr m"
    "originalSize m = n" "chunk_chain get (first_dependency m) rest"
    using "2.prems"(1) by (auto split: option.splits)
  have cur: "cur = Some i" "i \<noteq> ''''" using "2.prems"(1) by auto
  have sizes: "\<forall>(i, n) \<in> set ((i, n) # rest). 0 < n" by (rule chunk_chain_sizes [OF "2.prems"(1)])
  then have n: "0 < n" "0 \<le> ce - n" using total_size_nonneg [of rest] "2.prems"(3) by auto
  show ?case
  proof (cases "s < ce")
    case True
    define plans' where "plans' = (if ce - n < e then plans @ [\<lparr> chunk_id = i, chunk_startByte = ce - n,
        chunk_endByteExclusive = ce, chunk_originalSize = n \<rparr>] else plans)"
    have step: "walk_chunks get sz s e cur ce plans =
        walk_chunks get sz s e (first_dependency m) (ce - n) plans'"
      using True cur m n 
      by (simp add: walk_chunks.simps [of get sz s e "Some i" ce] plans'_def Let_def)
    have "\<exists>cur' ce'. walk_chunks get sz s e (first_dependency m) (ce - n) plans' =
        Inr (cur', ce', plans' @ filter (overlaps s e) (back_ranges (ce - n) rest)) \<and> ce' \<le> s"
      by (rule "2.IH") (use m "2.prems" in auto)
    then show ?thesis using step True by (auto simp: plans'_def)
  next
    case False
    have "filter (overlaps s e) (back_ranges ce ((i, n) # rest)) = []"
      using back_ranges_end [OF sizes] False by (fastforce simp: filter_empty_conv)
    then show ?thesis using False cur by (simp add: walk_chunks.simps [of get sz s e "Some i" ce])
  qed
qed

section \<open>Reading through a plan\<close>

text \<open>
  The bytes a reader gets from a plan: the contents of the planned chunks in order, less the
  offset in the first, cut at the length of the range.
\<close>

definition read_plan :: "(string \<Rightarrow> bytes) \<Rightarrow> attachment_read_plan \<Rightarrow> bytes" where
  "read_plan content p =
     take (nat (plan_endByteExclusive p - plan_startByte p))
       (drop (nat (offsetInFirstChunk p)) (concat (map (content \<circ> chunk_id) (chunkPlans p))))"

lemma take_forward_tail:
  assumes "\<forall>(i, n) \<in> set xs. 0 < n \<and> length (content i) = nat n" and "s \<le> o'" and "0 \<le> o'"
  shows "take (nat (e - o')) (concat (map (content \<circ> chunk_id) (filter (overlaps s e) (forward_ranges o' xs)))) =
         take (nat (e - o')) (concat (map (content \<circ> fst) xs))"
  using assms
proof (induction xs arbitrary: o')
  case (Cons x xs)
  obtain i n where x: "x = (i, n)" by fastforce
  then have n: "0 < n" "length (content i) = nat n" using Cons.prems(1) by auto
  show ?case
  proof (cases "o' < e")
    case True
    have "nat (e - o') - nat n = nat (e - (o' + n))" using True n by auto
    then show ?thesis using Cons.IH [of "o' + n"] Cons.prems x n True by simp
  qed (simp add: x)
qed simp

lemma take_forward:
  assumes "\<forall>(i, n) \<in> set xs. 0 < n \<and> length (content i) = nat n"
    and "o' \<le> s" and "0 \<le> o'" and "s < e" and "s < o' + total_size xs"
  shows "\<exists>c cs. filter (overlaps s e) (forward_ranges o' xs) = c # cs \<and> chunk_startByte c \<le> s \<and>
     take (nat (e - s)) (drop (nat (s - chunk_startByte c)) (concat (map (content \<circ> chunk_id) (c # cs)))) =
     take (nat (e - s)) (drop (nat (s - o')) (concat (map (content \<circ> fst) xs)))"
  using assms
proof (induction xs arbitrary: o')
  case (Cons x xs)
  obtain i n where x: "x = (i, n)" by fastforce
  then have n: "0 < n" "length (content i) = nat n" using Cons.prems(1) by auto
  show ?case
  proof (cases "o' + n \<le> s")
    case True
    have "nat (s - o') = nat n + nat (s - (o' + n))" using True n Cons.prems by auto
    then have "drop (nat (s - o')) (content i @ ys) = drop (nat (s - (o' + n))) ys" for ys
      using n by simp
    then show ?thesis using Cons.IH [of "o' + n"] Cons.prems x n True by auto
  next
    case False
    let ?cs = "filter (overlaps s e) (forward_ranges (o' + n) xs)"
    have tail: "take (nat (e - (o' + n))) (concat (map (content \<circ> chunk_id) ?cs)) =
        take (nat (e - (o' + n))) (concat (map (content \<circ> fst) xs))"
      by (rule take_forward_tail) (use Cons.prems False n in auto)
    have "nat (s - o') - length (content i) = 0" "nat (e - s) - (length (content i) - nat (s - o')) = nat (e - (o' + n))"
      using n False Cons.prems by auto
    then have "take (nat (e - s)) (drop (nat (s - o')) (content i @ concat (map (content \<circ> chunk_id) ?cs))) =
        take (nat (e - s)) (drop (nat (s - o')) (content i @ concat (map (content \<circ> fst) xs)))"
      using tail by simp
    then show ?thesis using x False n Cons.prems by (auto simp: o_def)
  qed
qed simp

lemma plan_chain_eq:
  assumes chain: "chunk_chain get (Some l) cs" and "total_size cs = n"
    and "0 \<le> s" and "s < e" and "e \<le> n"
    and c: "filter (overlaps s e) (forward_ranges 0 (rev cs)) = c # rest"
  shows "planAttachmentReadByWalkingMetadata get l n s (Some e) =
     Inr \<lparr> plan_attachmentSize = n, plan_startByte = s, plan_endByteExclusive = e,
           chunkPlans = c # rest, offsetInFirstChunk = s - chunk_startByte c \<rparr>"
proof -
  obtain cur' ce' where w: "walk_chunks get n s e (Some l) n [] =
      Inr (cur', ce', filter (overlaps s e) (back_ranges n cs))" "ce' \<le> s"
    using walk_chunks_chain [OF chain assms(3,2,4), of n "[]"] by auto
  have "rev (filter (overlaps s e) (back_ranges n cs)) = c # rest"
    using rev_back_ranges [of n cs] assms(2) c by (simp add: rev_filter)
  then show ?thesis
    using w assms(3-5)
    by (simp add: planAttachmentReadByWalkingMetadata_def normalizeAttachmentReadRange_def
        finalizeAttachmentReadPlan_def)
qed

text \<open>
  C6. Range reads are exact. For every well-formed chain of chunks whose sizes add up to the
  declared attachment size, and every non-empty range inside it, the backward walk succeeds,
  and the planned chunks with the returned offset give exactly the requested bytes of the whole
  attachment, whatever chunk sizes it was written with.
\<close>

theorem attachment_plan_reads_range:
  assumes "chunk_chain get (Some l) cs" and "total_size cs = n"
    and "\<forall>(i, k) \<in> set cs. length (content i) = nat k"
    and "0 \<le> s" and "s < e" and "e \<le> n"
  shows "\<exists>p. planAttachmentReadByWalkingMetadata get l n s (Some e) = Inr p \<and>
           read_plan content p =
             take (nat (e - s)) (drop (nat s) (concat (map (content \<circ> fst) (rev cs))))"
proof -
  have sizes: "\<forall>(i, k) \<in> set (rev cs). 0 < k \<and> length (content i) = nat k"
    using chunk_chain_sizes [OF assms(1)] assms(3) by auto
  moreover have "total_size (rev cs) = n" using assms(2) by (simp add: rev_map [symmetric])
  ultimately obtain c rest where c: "filter (overlaps s e) (forward_ranges 0 (rev cs)) = c # rest"
    "take (nat (e - s)) (drop (nat (s - chunk_startByte c)) (concat (map (content \<circ> chunk_id) (c # rest)))) =
     take (nat (e - s)) (drop (nat (s - 0)) (concat (map (content \<circ> fst) (rev cs))))"
    using take_forward [of "rev cs" content 0 s e] assms(4-6) by auto
  show ?thesis
    using plan_chain_eq [OF assms(1,2,4-6) c(1)] c(2) by (simp add: read_plan_def)
qed

text \<open>Two chunks of two and three bytes.\<close>

definition demo_chunk :: "string \<Rightarrow> store_entry_metadata option" where
  "demo_chunk i =
     (if i = ''c2'' then Some ((sample_metadata attachment_chunk ''c2'' ''d'' [''c1''] ''h2'' 2)\<lparr> originalSize := 3 \<rparr>)
      else if i = ''c1'' then Some ((sample_metadata attachment_chunk ''c1'' ''d'' [] ''h1'' 1)\<lparr> originalSize := 2 \<rparr>)
      else None)"

definition demo_content :: "string \<Rightarrow> bytes" where
  "demo_content i = (if i = ''c1'' then [1, 2] else [3, 4, 5])"

theorem attachment_plan_reads_range_witness:
  "\<exists>p. planAttachmentReadByWalkingMetadata demo_chunk ''c2'' 5 1 (Some 4) = Inr p \<and>
       read_plan demo_content p = [2, 3, 4]"
  using attachment_plan_reads_range [of demo_chunk "''c2''" "[(''c2'', 3), (''c1'', 2)]" 5 demo_content 1 4]
  by (simp add: demo_chunk_def demo_content_def validateAttachmentChunkMetadata_def first_dependency_def)

text \<open>
  The invariant of the walk: the windows planned so far, newest first, touch each other, the
  newest reaches the end of the range and the oldest starts where the walk stands.
\<close>

definition walk_inv_plans ::
  "(string \<Rightarrow> store_entry_metadata option) \<Rightarrow> int \<Rightarrow> int \<Rightarrow> attachment_chunk_plan list \<Rightarrow> bool" where
  "walk_inv_plans get e ce plans \<longleftrightarrow>
     (\<forall>c \<in> set plans. \<exists>m. get (chunk_id c) = Some m \<and> entryType m = attachment_chunk \<and>
        originalSize m = chunk_endByteExclusive c - chunk_startByte c \<and> 0 \<le> chunk_startByte c) \<and>
     successively (\<lambda>a b. chunk_endByteExclusive b = chunk_startByte a) plans \<and>
     (plans = [] \<longrightarrow> e \<le> ce) \<and>
     (plans \<noteq> [] \<longrightarrow> chunk_startByte (last plans) = ce \<and> e \<le> chunk_endByteExclusive (hd plans) \<and> ce < e)"

lemma walk_chunks_inv:
  assumes "walk_chunks get n s e cur ce plans = Inr (cur', ce', plans')" and "walk_inv_plans get e ce plans"
  shows "walk_inv_plans get e ce' plans' \<and> (cur' = None \<or> cur' = Some '''' \<or> ce' \<le> s)"
  using assms
proof (induction get n s e cur ce plans rule: walk_chunks.induct)
  case (1 get n s e cur ce plans)
  show ?case
  proof (cases "\<exists>i. cur = Some i \<and> i \<noteq> '''' \<and> s < ce")
    case True
    then obtain i where i: "cur = Some i" "i \<noteq> ''''" "s < ce" by blast
    obtain m where m: "validateAttachmentChunkMetadata (get i) i = Inr m" "0 \<le> ce - originalSize m"
      using "1.prems"(1) i
      by (auto simp: walk_chunks.simps [of get n s e "Some i" ce] Let_def split: sum.splits if_splits)
    let ?c = "\<lparr> chunk_id = i, chunk_startByte = ce - originalSize m, chunk_endByteExclusive = ce,
        chunk_originalSize = originalSize m \<rparr>"
    let ?plans = "if s < ce \<and> ce - originalSize m < e then plans @ [?c] else plans"
    have step: "walk_chunks get n s e (first_dependency m) (ce - originalSize m) ?plans = Inr (cur', ce', plans')"
      using "1.prems"(1) i m by (simp add: walk_chunks.simps [of get n s e "Some i" ce] Let_def)
    have "walk_inv_plans get e (ce - originalSize m) ?plans"
      using "1.prems"(2) i m validated [OF m(1)]
      by (auto simp: walk_inv_plans_def successively_append_iff hd_append)
    with step i m show ?thesis by (intro "1.IH" [of i m]) auto
  next
    case False
    then show ?thesis
      using "1.prems" by (cases cur) (auto simp: walk_chunks.simps [of get n s e _ ce] split: if_splits)
  qed
qed

text \<open>
  A plan that is returned is well formed for any store, corrupt ones included: it is for
  the requested range inside the declared size, every planned chunk is a stored attachment
  chunk with the size its window has, consecutive windows touch, and they cover the range.
\<close>

theorem attachment_plan_covers:
  assumes "planAttachmentReadByWalkingMetadata get l n s (Some e) = Inr p"
  shows "0 \<le> s \<and> s \<le> e \<and> e \<le> n \<and> plan_startByte p = s \<and> plan_endByteExclusive p = e \<and>
     (\<forall>c \<in> set (chunkPlans p). \<exists>m. get (chunk_id c) = Some m \<and> entryType m = attachment_chunk \<and>
        originalSize m = chunk_endByteExclusive c - chunk_startByte c \<and> 0 \<le> chunk_startByte c) \<and>
     successively (\<lambda>a b. chunk_endByteExclusive a = chunk_startByte b) (chunkPlans p) \<and>
     (s < e \<longrightarrow> chunkPlans p \<noteq> [] \<and>
        chunk_startByte (hd (chunkPlans p)) \<le> s \<and> e \<le> chunk_endByteExclusive (last (chunkPlans p)) \<and>
        offsetInFirstChunk p = s - chunk_startByte (hd (chunkPlans p)))"
proof (cases "s < e")
  case True
  have range_ok: "normalizeAttachmentReadRange n s (Some e) = Inr (s, e)" "0 \<le> s" "e \<le> n"
    using assms
    by (auto simp: planAttachmentReadByWalkingMetadata_def normalizeAttachmentReadRange_def Let_def
        split: if_splits)
  obtain cur ce plans where w: "walk_chunks get n s e (Some l) n [] = Inr (cur, ce, plans)"
    "finalizeAttachmentReadPlan n (s, e) (rev plans) = Inr p"
    and ended: "\<not> ((cur = None \<or> cur = Some '''') \<and> ce > s)"
    using assms range_ok True
    by (auto simp: planAttachmentReadByWalkingMetadata_def split: if_splits sum.splits)
  have inv: "walk_inv_plans get e ce plans" and "cur = None \<or> cur = Some '''' \<or> ce \<le> s"
    using walk_chunks_inv [OF w(1)] range_ok by (auto simp: walk_inv_plans_def)
  with ended have ce: "ce \<le> s" by auto
  with inv True have ne: "plans \<noteq> []" by (auto simp: walk_inv_plans_def)
  then have "chunkPlans p = rev plans" "plan_startByte p = s" "plan_endByteExclusive p = e"
    "offsetInFirstChunk p = s - chunk_startByte (hd (rev plans))"
    using w(2) True by (auto simp: finalizeAttachmentReadPlan_def split: list.splits)
  then show ?thesis
    using inv ne ce True range_ok
    by (auto simp: walk_inv_plans_def hd_rev last_rev)
next
  case False
  then show ?thesis
    using assms
    by (auto simp: planAttachmentReadByWalkingMetadata_def normalizeAttachmentReadRange_def Let_def
        finalizeAttachmentReadPlan_def split: if_splits)
qed

theorem attachment_plan_covers_witness:
  "\<exists>p. planAttachmentReadByWalkingMetadata demo_chunk ''c2'' 5 1 (Some 4) = Inr p \<and>
       chunkPlans p \<noteq> [] \<and> 4 \<le> chunk_endByteExclusive (last (chunkPlans p))"
proof -
  obtain p where "planAttachmentReadByWalkingMetadata demo_chunk ''c2'' 5 1 (Some 4) = Inr p"
    using plan_chain_eq [of demo_chunk "''c2''" "[(''c2'', 3), (''c1'', 2)]" 5 1 4]
    by (simp add: demo_chunk_def validateAttachmentChunkMetadata_def first_dependency_def)
  with attachment_plan_covers [OF this] show ?thesis by auto
qed

end
