(* ===== verification/ByteLayout.thy ===== *)
theory ByteLayout
  imports Base64
begin

text \<open>
  Byte layouts shared by the binary framing and the entry signatures: fixed-width big-endian
  integers (\<^verbatim>\<open>DataView.setUint32\<close>, \<^verbatim>\<open>setBigInt64\<close> and their wrap-around),
  UTF-8 of a string (\<^verbatim>\<open>TextEncoder\<close>), and length-prefixed bytes. The locale
  \<open>prefix_code\<close> is the interface of an encoder that can be read back from the front of a
  longer byte sequence; every encoder used in a layout is shown to be one.
\<close>

section \<open>Big-endian integers\<close>

fun be_bytes :: "nat \<Rightarrow> int \<Rightarrow> bytes" where
  "be_bytes 0 v = []"
| "be_bytes (Suc k) v = of_int (v div 256 ^ k) # be_bytes k v"

definition be_value :: "bytes \<Rightarrow> int" where
  "be_value bs = foldl (\<lambda>a b. a * 256 + uint b) 0 bs"

abbreviation u32be :: "int \<Rightarrow> bytes" where
  "u32be \<equiv> be_bytes 4"

abbreviation int64be :: "int \<Rightarrow> bytes" where
  "int64be \<equiv> be_bytes 8"

lemma length_be_bytes [simp]: "length (be_bytes k v) = k"
  by (induction k) auto

lemma be_value_snoc: "be_value (bs @ [b]) = be_value bs * 256 + uint b"
  by (simp add: be_value_def)

lemma be_bytes_snoc: "be_bytes (Suc k) v = be_bytes k (v div 256) @ [of_int v]"
proof (induction k arbitrary: v)
  case (Suc k)
  have "v div 256 div 256 ^ k = v div 256 ^ Suc k"
    by (simp add: zdiv_zmult2_eq)
  then show ?case using Suc by simp
qed simp

lemma uint_byte: "uint (of_int v :: 8 word) = v mod 256"
  by (simp add: unsigned_of_int take_bit_eq_mod)

lemma be_value_bytes: "be_value (be_bytes k v) = v mod 256 ^ k"
proof (induction k arbitrary: v)
  case (Suc k)
  have "v mod 256 ^ Suc k = v mod (256 * 256 ^ k)" by simp
  also have "\<dots> = 256 * (v div 256 mod 256 ^ k) + v mod 256" by (rule zmod_zmult2_eq) simp
  finally show ?case
    using Suc [of "v div 256"]
    by (simp only: be_bytes_snoc be_value_snoc uint_byte)
qed (simp add: be_value_def)

lemma be_bytes_mod_eq: "be_bytes k v = be_bytes k w \<Longrightarrow> v mod 256 ^ k = w mod 256 ^ k"
  using be_value_bytes [of k v] be_value_bytes [of k w] by simp

lemma append_same_length: "xs @ r = ys @ r' \<Longrightarrow> length xs = length ys \<Longrightarrow> xs = ys \<and> r = r'"
  by simp

section \<open>Hexadecimal\<close>

definition hex_digit :: "nat \<Rightarrow> char" where
  "hex_digit n = char_of (if n < 10 then 48 + n else 87 + n)"

text \<open>\<^verbatim>\<open>b.toString(16).padStart(2, '0')\<close>\<close>

definition byte_hex :: "8 word \<Rightarrow> string" where
  "byte_hex b = [hex_digit (unat b div 16), hex_digit (unat b mod 16)]"

lemma of_char_hex_digit: "n < 16 \<Longrightarrow> of_char (hex_digit n) = (if n < 10 then 48 + n else 87 + n)"
  by (simp add: hex_digit_def of_char_of)

lemma hex_digit_less: "m < 16 \<Longrightarrow> n < 16 \<Longrightarrow> hex_digit m < hex_digit n \<longleftrightarrow> m < n"
  by (simp add: less_char_def of_char_hex_digit)

lemma hex_digit_inj: "m < 16 \<Longrightarrow> n < 16 \<Longrightarrow> hex_digit m = hex_digit n \<longleftrightarrow> m = n"
  by (metis hex_digit_less less_irrefl linorder_neqE_nat)

section \<open>Prefix codes\<close>

locale prefix_code =
  fixes valid :: "'a \<Rightarrow> bool" and enc :: "'a \<Rightarrow> bytes"
  assumes prefix: "valid x \<Longrightarrow> valid y \<Longrightarrow> enc x @ r = enc y @ r' \<Longrightarrow> x = y"
begin

lemma rest: "valid x \<Longrightarrow> valid y \<Longrightarrow> enc x @ r = enc y @ r' \<Longrightarrow> x = y \<and> r = r'"
  using prefix by blast

lemma list_rest:
  "length xs = length ys \<Longrightarrow> \<forall>x \<in> set xs. valid x \<Longrightarrow> \<forall>y \<in> set ys. valid y \<Longrightarrow>
   concat (map enc xs) @ r = concat (map enc ys) @ r' \<Longrightarrow> xs = ys \<and> r = r'"
proof (induction xs ys rule: list_induct2)
  case (Cons x xs y ys)
  then have "x = y \<and> concat (map enc xs) @ r = concat (map enc ys) @ r'"
    using rest [of x y "concat (map enc xs) @ r" "concat (map enc ys) @ r'"] by simp
  then show ?case using Cons by simp
qed simp

end

definition valid_u32 :: "int \<Rightarrow> bool" where
  "valid_u32 v \<longleftrightarrow> 0 \<le> v \<and> v < 2 ^ 32"

definition valid_int64 :: "int \<Rightarrow> bool" where
  "valid_int64 v \<longleftrightarrow> - (2 ^ 63) \<le> v \<and> v < 2 ^ 63"

lemma u32_prefix:
  assumes "valid_u32 x" and "valid_u32 y" and "u32be x @ r = u32be y @ r'"
  shows "x = y"
proof -
  have "u32be x = u32be y" using append_same_length [OF assms(3)] by simp
  then have "x mod 256 ^ 4 = y mod 256 ^ 4" by (rule be_bytes_mod_eq)
  then show ?thesis using assms(1,2) by (simp add: valid_u32_def)
qed

lemma int64_prefix:
  assumes "valid_int64 x" and "valid_int64 y" and "int64be x @ r = int64be y @ r'"
  shows "x = y"
proof -
  have "int64be x = int64be y" using append_same_length [OF assms(3)] by simp
  then have "x mod 2 ^ 64 = y mod 2 ^ 64" using be_bytes_mod_eq [of 8 x y] by simp
  then have "2 ^ 64 dvd x - y" by (simp add: mod_eq_dvd_iff)
  moreover have "\<bar>x - y\<bar> < 2 ^ 64" using assms(1,2) unfolding valid_int64_def by (simp add: abs_less_iff)
  ultimately show ?thesis using zdvd_not_zless [of "\<bar>x - y\<bar>" "2 ^ 64"] by force
qed

interpretation u32: prefix_code valid_u32 "be_bytes 4"
  by unfold_locales (rule u32_prefix)

interpretation i64: prefix_code valid_int64 "be_bytes 8"
  by unfold_locales (rule int64_prefix)

section \<open>UTF-8 and length prefixes\<close>

definition utf8_char :: "char \<Rightarrow> bytes" where
  "utf8_char c = (let n = of_char c :: nat
     in if n < 128 then [of_nat n] else [of_nat (192 + n div 64), of_nat (128 + n mod 64)])"

definition utf8_encode :: "string \<Rightarrow> bytes" where
  "utf8_encode s = concat (map utf8_char s)"

definition lp :: "bytes \<Rightarrow> bytes" where
  "lp bs = u32be (int (length bs)) @ bs"

abbreviation lp_string :: "string \<Rightarrow> bytes" where
  "lp_string s \<equiv> lp (utf8_encode s)"

definition valid_lp :: "bytes \<Rightarrow> bool" where
  "valid_lp bs \<longleftrightarrow> length bs < 2 ^ 32"

definition valid_string :: "string \<Rightarrow> bool" where
  "valid_string s \<longleftrightarrow> valid_lp (utf8_encode s)"

lemma word8_of_nat_eq: "m < 256 \<Longrightarrow> n < 256 \<Longrightarrow> (of_nat m :: 8 word) = of_nat n \<Longrightarrow> m = n"
proof -
  assume lt: "m < 256" "n < 256" and eq: "(of_nat m :: 8 word) = of_nat n"
  have "unat (of_nat k :: 8 word) = k" if "k < 256" for k
    using that by (simp add: unsigned_of_nat take_bit_eq_mod)
  with lt eq show ?thesis by metis
qed

interpretation utf8c: prefix_code "\<lambda>_. True" utf8_char
proof
  fix x y :: char and r r' :: bytes
  assume eq: "utf8_char x @ r = utf8_char y @ r'"
  let ?m = "of_char x :: nat" and ?n = "of_char y :: nat"
  have lt: "?m < 256" "?n < 256" by simp_all
  have div4: "k div 64 < 4" if "k < 256" for k :: nat
    using that by (simp add: div_less_iff_less_mult)
  have "?m = ?n"
  proof (cases "?m < 128")
    case True
    have "192 + ?n div 64 < 256" using div4 [OF lt(2)] by simp
    then have "of_nat ?m \<noteq> (of_nat (192 + ?n div 64) :: 8 word)"
      using True lt word8_of_nat_eq [of ?m "192 + ?n div 64"] by auto
    then show ?thesis using eq lt True word8_of_nat_eq [of ?m ?n]
      by (simp add: utf8_char_def Let_def split: if_splits del: of_nat_add of_char_eq_iff)
  next
    case False
    then have "192 + ?m div 64 < 256" "192 + ?n div 64 < 256" "128 + ?m mod 64 < 256" "128 + ?n mod 64 < 256"
      using div4 [OF lt(1)] div4 [OF lt(2)] by simp_all
    then have "192 + ?m div 64 = 192 + ?n div 64" "128 + ?m mod 64 = 128 + ?n mod 64" "\<not> ?n < 128"
      using eq False lt word8_of_nat_eq [of "192 + ?m div 64" "192 + ?n div 64"]
        word8_of_nat_eq [of "128 + ?m mod 64" "128 + ?n mod 64"]
        word8_of_nat_eq [of "192 + ?m div 64" ?n]
      by (auto simp: utf8_char_def Let_def split: if_splits)
    then show ?thesis by (metis add_left_cancel div_mult_mod_eq)
  qed
  then show "x = y" by simp
qed

lemma utf8_char_ne: "utf8_char c \<noteq> []"
  by (simp add: utf8_char_def Let_def)

lemma utf8_encode_inj: "utf8_encode s = utf8_encode t \<Longrightarrow> s = t"
proof (induction s arbitrary: t)
  case Nil
  then show ?case by (cases t) (auto simp: utf8_encode_def utf8_char_ne)
next
  case (Cons c s)
  then obtain d u where t: "t = d # u" by (cases t) (auto simp: utf8_encode_def utf8_char_ne)
  then have "utf8_char c @ utf8_encode s = utf8_char d @ utf8_encode u"
    using Cons.prems by (simp add: utf8_encode_def)
  then show ?case using utf8c.rest [OF TrueI TrueI] Cons.IH [of u] t by blast
qed

lemma lp_prefix:
  assumes "valid_lp x" and "valid_lp y" and "lp x @ r = lp y @ r'"
  shows "x = y"
proof -
  have "u32be (int (length x)) @ (x @ r) = u32be (int (length y)) @ (y @ r')"
    using assms(3) by (simp add: lp_def)
  from u32.rest [OF _ _ this] assms(1,2)
  have "x @ r = y @ r'" "length x = length y" by (simp_all add: valid_lp_def valid_u32_def)
  then show ?thesis using append_same_length by blast
qed

interpretation lpb: prefix_code valid_lp lp
  by unfold_locales (rule lp_prefix)

interpretation lps: prefix_code valid_string "\<lambda>s. lp (utf8_encode s)"
  by unfold_locales (use lp_prefix utf8_encode_inj in \<open>auto simp: valid_string_def\<close>)

end
