(* ===== verification/BinaryFraming.thy ===== *)
theory BinaryFraming
  imports ByteLayout
begin

text \<open>
  The binary wire format of entry transfers
  (\<^verbatim>\<open>core/appendonlystores/network/binaryEntryFraming.ts\<close>). Headers and metadata
  are arbitrary JSON objects, a type variable: \<open>stringify\<close> is \<^verbatim>\<open>JSON.stringify\<close> on
  them and \<open>parse\<close> is \<^verbatim>\<open>JSON.parse\<close> after \<^verbatim>\<open>TextDecoder.decode\<close>, \<open>None\<close>
  for a syntax error. A reader position is the list of the bytes that are left.
\<close>

record 'j binary_frame =
  frame_meta :: 'j
  frame_payload :: bytes

record 'j binary_message =
  msg_header :: 'j
  msg_entries :: "'j binary_frame list"

datatype framing_error =
    TruncatedLength string
  | TruncatedChunk string int
  | InvalidJson

definition encode_frame :: "('j \<Rightarrow> string) \<Rightarrow> 'j binary_frame \<Rightarrow> bytes" where
  "encode_frame stringify f = lp (utf8_encode (stringify (frame_meta f))) @ lp (frame_payload f)"

definition encodeBinaryEntryMessage :: "('j \<Rightarrow> string) \<Rightarrow> 'j binary_message \<Rightarrow> bytes" where
  "encodeBinaryEntryMessage stringify m =
     lp (utf8_encode (stringify (msg_header m))) @ concat (map (encode_frame stringify) (msg_entries m))"

definition measureBinaryEntryMessage :: "('j \<Rightarrow> string) \<Rightarrow> 'j \<Rightarrow> 'j binary_frame list \<Rightarrow> nat" where
  "measureBinaryEntryMessage stringify header es =
     foldl (\<lambda>total e. total + (4 + length (utf8_encode (stringify (frame_meta e))) + 4
                               + length (frame_payload e)))
       (4 + length (utf8_encode (stringify header))) es"

definition readChunk :: "string \<Rightarrow> bytes \<Rightarrow> framing_error + bytes \<times> bytes" where
  "readChunk what data =
     (if length data < 4 then Inl (TruncatedLength what)
      else let len = be_value (take 4 data); rest = drop 4 data
           in if int (length rest) < len then Inl (TruncatedChunk what len)
              else Inr (take (nat len) rest, drop (nat len) rest))"

lemma readChunk_length: "readChunk what data = Inr (chunk, rest) \<Longrightarrow> length rest + 4 \<le> length data"
  by (auto simp: readChunk_def Let_def split: if_splits)

function decode_frames ::
  "(bytes \<Rightarrow> 'j option) \<Rightarrow> bytes \<Rightarrow> framing_error + 'j binary_frame list" where
  "decode_frames parse data =
     (if data = [] then Inr []
      else case readChunk ''entry metadata'' data of
        Inl e \<Rightarrow> Inl e
      | Inr (metaChunk, rest) \<Rightarrow>
          (case readChunk ''entry payload'' rest of
             Inl e \<Rightarrow> Inl e
           | Inr (payload, rest') \<Rightarrow>
               (case parse metaChunk of
                  None \<Rightarrow> Inl InvalidJson
                | Some meta \<Rightarrow>
                    (case decode_frames parse rest' of
                       Inl e \<Rightarrow> Inl e
                     | Inr fs \<Rightarrow> Inr (\<lparr> frame_meta = meta, frame_payload = payload \<rparr> # fs)))))"
  by pat_completeness auto
termination
  by (relation "measure (\<lambda>(parse, data). length data)") (auto dest!: readChunk_length)

declare decode_frames.simps [simp del]

definition decodeBinaryEntryMessage ::
  "(bytes \<Rightarrow> 'j option) \<Rightarrow> bytes \<Rightarrow> framing_error + 'j binary_message" where
  "decodeBinaryEntryMessage parse data =
     (case readChunk ''header'' data of
        Inl e \<Rightarrow> Inl e
      | Inr (headerChunk, rest) \<Rightarrow>
          (case parse headerChunk of
             None \<Rightarrow> Inl InvalidJson
           | Some header \<Rightarrow>
               (case decode_frames parse rest of
                  Inl e \<Rightarrow> Inl e
                | Inr fs \<Rightarrow> Inr \<lparr> msg_header = header, msg_entries = fs \<rparr>)))"

section \<open>Round trip\<close>

lemma readChunk_lp: "valid_lp bs \<Longrightarrow> readChunk what (lp bs @ rest) = Inr (bs, rest)"
  by (simp add: readChunk_def lp_def be_value_bytes valid_lp_def)

lemma length_lp [simp]: "length (lp bs) = 4 + length bs"
  by (simp add: lp_def)

text \<open>
  What a message needs for the format: every chunk is shorter than \<open>2^32\<close> bytes and the JSON
  values parse back to themselves.
\<close>

definition framable :: "('j \<Rightarrow> string) \<Rightarrow> (bytes \<Rightarrow> 'j option) \<Rightarrow> 'j \<Rightarrow> bool" where
  "framable stringify parse j \<longleftrightarrow>
     valid_string (stringify j) \<and> parse (utf8_encode (stringify j)) = Some j"

definition framable_message ::
  "('j \<Rightarrow> string) \<Rightarrow> (bytes \<Rightarrow> 'j option) \<Rightarrow> 'j binary_message \<Rightarrow> bool" where
  "framable_message stringify parse m \<longleftrightarrow>
     framable stringify parse (msg_header m) \<and>
     (\<forall>f \<in> set (msg_entries m). framable stringify parse (frame_meta f) \<and> valid_lp (frame_payload f))"

lemma decode_encode_frames:
  assumes "\<forall>f \<in> set fs. framable stringify parse (frame_meta f) \<and> valid_lp (frame_payload f)"
  shows "decode_frames parse (concat (map (encode_frame stringify) fs)) = Inr fs"
  using assms
proof (induction fs)
  case Nil
  then show ?case by (simp add: decode_frames.simps)
next
  case (Cons f fs)
  let ?meta = "utf8_encode (stringify (frame_meta f))"
  have f: "valid_lp ?meta" "parse ?meta = Some (frame_meta f)" "valid_lp (frame_payload f)"
    using Cons.prems by (auto simp: framable_def valid_string_def)
  have "decode_frames parse (lp ?meta @ lp (frame_payload f) @ concat (map (encode_frame stringify) fs)) =
      Inr (f # fs)"
    using f Cons by (subst decode_frames.simps) (auto simp: readChunk_lp simp flip: length_0_conv)
  then show ?case by (simp add: encode_frame_def [of _ f])
qed

text \<open>
  C7. Binary framing round trip: decoding an encoded message gives the message back, for any
  JSON serializer that parses its own output and any payload bytes below the format's length
  limit; and \<^verbatim>\<open>measureBinaryEntryMessage\<close> is the exact size of the encoding.
\<close>

theorem framing_roundtrip:
  assumes "framable_message stringify parse m"
  shows "decodeBinaryEntryMessage parse (encodeBinaryEntryMessage stringify m) = Inr m \<and>
         length (encodeBinaryEntryMessage stringify m) =
           measureBinaryEntryMessage stringify (msg_header m) (msg_entries m)"
proof -
  have "decodeBinaryEntryMessage parse (encodeBinaryEntryMessage stringify m) = Inr m"
    using assms decode_encode_frames [of "msg_entries m" stringify parse]
    by (simp add: decodeBinaryEntryMessage_def encodeBinaryEntryMessage_def framable_message_def
        framable_def valid_string_def readChunk_lp)
  moreover have "length (concat (map (encode_frame stringify) fs)) + n =
      foldl (\<lambda>total e. total + length (encode_frame stringify e)) n fs" for fs n
    by (induction fs arbitrary: n) (simp_all add: ac_simps, metis add.assoc add.commute)
  from this [of "msg_entries m" "4 + length (utf8_encode (stringify (msg_header m)))"]
  have "measureBinaryEntryMessage stringify (msg_header m) (msg_entries m) =
      length (encodeBinaryEntryMessage stringify m)"
    by (simp add: encodeBinaryEntryMessage_def measureBinaryEntryMessage_def encode_frame_def
        add.commute add.assoc)
  ultimately show ?thesis by simp
qed

definition demo_message :: "string binary_message" where
  "demo_message = \<lparr> msg_header = ''{}'', msg_entries = [\<lparr> frame_meta = ''[1]'', frame_payload = [7, 8] \<rparr>] \<rparr>"

definition demo_parse :: "bytes \<Rightarrow> string option" where
  "demo_parse bs = (if bs = utf8_encode ''{}'' then Some ''{}''
                    else if bs = utf8_encode ''[1]'' then Some ''[1]'' else None)"

lemma demo_framable: "framable_message id demo_parse demo_message"
  by (simp add: framable_message_def framable_def demo_message_def demo_parse_def valid_string_def
      valid_lp_def utf8_encode_def utf8_char_def)

theorem framing_roundtrip_witness:
  "decodeBinaryEntryMessage demo_parse (encodeBinaryEntryMessage id demo_message) = Inr demo_message"
  using framing_roundtrip [OF demo_framable] by blast

text \<open>
  C8. The format has no entry count: an encoded message cut at an entry boundary is again a
  valid message with fewer entries, so such a truncation is not detected.
\<close>

theorem framing_truncation_at_boundary:
  assumes "framable_message stringify parse m" and "k \<le> length (msg_entries m)"
  shows "\<exists>n \<le> length (encodeBinaryEntryMessage stringify m).
           decodeBinaryEntryMessage parse (take n (encodeBinaryEntryMessage stringify m)) =
             Inr (m\<lparr> msg_entries := take k (msg_entries m) \<rparr>)"
proof -
  let ?m = "m\<lparr> msg_entries := take k (msg_entries m) \<rparr>"
  let ?e = "encodeBinaryEntryMessage stringify"
  have "?e m = ?e ?m @ concat (map (encode_frame stringify) (drop k (msg_entries m)))"
    by (simp add: encodeBinaryEntryMessage_def flip: concat_append map_append)
  then have "take (length (?e ?m)) (?e m) = ?e ?m" "length (?e ?m) \<le> length (?e m)" by simp_all
  moreover have "framable_message stringify parse ?m"
    using assms(1) by (auto simp: framable_message_def dest: in_set_takeD)
  then have "decodeBinaryEntryMessage parse (?e ?m) = Inr ?m"
    using decode_encode_frames [of "take k (msg_entries m)" stringify parse]
    by (simp add: decodeBinaryEntryMessage_def encodeBinaryEntryMessage_def framable_message_def
        framable_def valid_string_def readChunk_lp)
  ultimately show ?thesis by metis
qed

theorem framing_truncation_at_boundary_witness:
  "\<exists>n \<le> length (encodeBinaryEntryMessage id demo_message).
     decodeBinaryEntryMessage demo_parse (take n (encodeBinaryEntryMessage id demo_message)) =
       Inr (demo_message\<lparr> msg_entries := [] \<rparr>)"
  using framing_truncation_at_boundary [OF demo_framable, of 0] by simp

end
