(* ===== verification/EntrySignature.thy ===== *)
theory EntrySignature
  imports ByteLayout StoreTypes
begin

text \<open>
  Author signatures of entries (\<^verbatim>\<open>core/crypto/EntrySignature.ts\<close>): the canonical byte
  layout the author signs, the projection of an entry to the signed fields, and the
  version-aware verification.

  \<open>json\<close> is \<^verbatim>\<open>JSON.stringify\<close> on a recipients block; its result depends on the
  insertion order of the object's keys, which the type does not record, so it is a parameter.
  \<open>verify\<close> is the host's Ed25519 verification. Decoding a malformed base64 signature raises:
  \<open>None\<close>.
\<close>

section \<open>Layout\<close>

definition ENTRY_SIGNATURE_LAYOUT_VERSION :: int where
  "ENTRY_SIGNATURE_LAYOUT_VERSION = 1"

definition ENTRY_PROVENANCE_BLOCK_TAG :: "8 word" where
  "ENTRY_PROVENANCE_BLOCK_TAG = 2"

definition ENTRY_RECIPIENTS_BLOCK_TAG :: "8 word" where
  "ENTRY_RECIPIENTS_BLOCK_TAG = 3"

definition base64ToBytes :: "string \<Rightarrow> bytes option" where
  "base64ToBytes s = map_option (map of_nat) (atob_nats s)"

definition bytesToBase64 :: "bytes \<Rightarrow> string" where
  "bytesToBase64 bs = btoa_nats (map unat bs)"

lemma base64_bytes_inverse [simp]: "base64ToBytes (bytesToBase64 bs) = Some bs"
  using base64_inverse [of bs]
  by (simp add: base64ToBytes_def bytesToBase64_def base64ToUint8Array_def uint8ArrayToBase64_def)

definition entry_type_name :: "store_entry_type \<Rightarrow> string" where
  "entry_type_name t = (case t of
      doc_create \<Rightarrow> ''doc_create'' | doc_change \<Rightarrow> ''doc_change'' | doc_snapshot \<Rightarrow> ''doc_snapshot''
    | doc_delete \<Rightarrow> ''doc_delete'' | doc_undelete \<Rightarrow> ''doc_undelete''
    | pending_attachment_upload \<Rightarrow> ''pending_attachment_upload''
    | attachment_chunk \<Rightarrow> ''attachment_chunk'')"

definition ref_bytes :: "store_entry_attachment_ref \<Rightarrow> bytes" where
  "ref_bytes ref = lp_string (ref_attachmentId ref) @ lp_string (ref_lastChunkId ref) @ int64be (ref_size ref)"

definition refs_block :: "store_entry_attachment_ref list option \<Rightarrow> bytes" where
  "refs_block refs = (case refs of
      None \<Rightarrow> []
    | Some rs \<Rightarrow> if rs = [] then [] else u32be (int (length rs)) @ concat (map ref_bytes rs))"

definition recipients_block :: "(entry_recipients \<Rightarrow> string) \<Rightarrow> entry_recipients option \<Rightarrow> bytes" where
  "recipients_block json rc = (case rc of
      None \<Rightarrow> []
    | Some r \<Rightarrow> if rcpt_wraps r = [] then [] else ENTRY_RECIPIENTS_BLOCK_TAG # lp_string (json r))"

definition provenance_block :: "(string \<times> string \<times> bytes \<times> bytes) option \<Rightarrow> bytes" where
  "provenance_block p = (case p of
      None \<Rightarrow> []
    | Some (tenant, db, source, sig) \<Rightarrow>
        ENTRY_PROVENANCE_BLOCK_TAG # lp_string tenant @ lp_string db @ lp source @ lp sig)"

definition source_signature_bytes :: "string option \<Rightarrow> bytes option" where
  "source_signature_bytes sig = (case sig of
      None \<Rightarrow> Some [] | Some b \<Rightarrow> if b = '''' then Some [] else base64ToBytes b)"

definition head_bytes ::
  "int \<Rightarrow> store_entry_type \<Rightarrow> string \<Rightarrow> string \<Rightarrow> string \<Rightarrow> int \<Rightarrow> string list \<Rightarrow> string \<Rightarrow> string \<Rightarrow> bytes" where
  "head_bytes version ty i d key created deps hash author =
     of_int version # lp_string (entry_type_name ty) @ lp_string i @ lp_string d @ lp_string key @
     int64be created @ u32be (int (length deps)) @ concat (map (\<lambda>s. lp (utf8_encode s)) deps) @
     lp_string hash @ lp_string author"

fun buildEntrySigningBytes ::
  "(entry_recipients \<Rightarrow> string) \<Rightarrow> int \<Rightarrow> entry_signature_fields \<Rightarrow> bytes option" where
  "buildEntrySigningBytes json version
     (EntrySignatureFields ty i d key created deps hash author refs prov rc) =
     (let head = head_bytes version ty i d key created deps hash author
      in case prov of
           None \<Rightarrow> Some (head @ refs_block refs @ provenance_block None @ recipients_block json rc)
         | Some (EntryProvenance tenant db source sig) \<Rightarrow>
             (case buildEntrySigningBytes json version source of
                None \<Rightarrow> None
              | Some sb \<Rightarrow>
                  map_option (\<lambda>sg. head @ refs_block refs @ provenance_block (Some (tenant, db, sb, sg))
                                     @ recipients_block json rc)
                    (source_signature_bytes sig)))"

definition entrySignatureFieldsFromEntry :: "store_entry_metadata \<Rightarrow> entry_signature_fields" where
  "entrySignatureFieldsFromEntry entry =
     EntrySignatureFields (entryType entry) (entry_id entry) (docId entry) (decryptionKeyId entry)
       (createdAt entry) (dependencyIds entry) (contentHash entry) (createdByPublicKey entry)
       (case attachmentRefs entry of None \<Rightarrow> None | Some rs \<Rightarrow> if rs \<noteq> [] then Some rs else None)
       (provenance entry) (recipients entry)"

text \<open>
  Verification with an imported key. The result is \<open>None\<close> when building the bytes raises.
\<close>

definition verifyEntrySignatureWithImportedKey ::
  "(entry_recipients \<Rightarrow> string) \<Rightarrow> ('key \<Rightarrow> bytes \<Rightarrow> bytes \<Rightarrow> bool) \<Rightarrow> store_entry_metadata \<Rightarrow> bytes \<Rightarrow>
   'key \<Rightarrow> bool \<Rightarrow> bool option" where
  "verifyEntrySignatureWithImportedKey json verify entry encrypted key requireMetadataSignature =
     (case metadataSignature entry of
        Some sig \<Rightarrow>
          map_option (\<lambda>bytes. verify key sig bytes)
            (buildEntrySigningBytes json ENTRY_SIGNATURE_LAYOUT_VERSION (entrySignatureFieldsFromEntry entry))
      | None \<Rightarrow>
          if requireMetadataSignature then Some False
          else Some (verify key (signature entry) encrypted))"

definition signEntryMetadata ::
  "(entry_recipients \<Rightarrow> string) \<Rightarrow> ('key \<Rightarrow> bytes \<Rightarrow> bytes) \<Rightarrow> entry_signature_fields \<Rightarrow> 'key \<Rightarrow> int \<Rightarrow>
   bytes option" where
  "signEntryMetadata json sign fs key version =
     map_option (sign key) (buildEntrySigningBytes json version fs)"

section \<open>The layout is unambiguous\<close>

lemma entry_type_name_inj: "entry_type_name a = entry_type_name b \<Longrightarrow> a = b"
  by (cases a; cases b) (simp_all add: entry_type_name_def)

lemma entry_type_name_valid: "valid_string (entry_type_name a)"
  by (cases a) (simp_all add: entry_type_name_def valid_string_def valid_lp_def utf8_encode_def utf8_char_def)

definition valid_ref :: "store_entry_attachment_ref \<Rightarrow> bool" where
  "valid_ref r \<longleftrightarrow> valid_string (ref_attachmentId r) \<and> valid_string (ref_lastChunkId r) \<and> valid_int64 (ref_size r)"

interpretation refc: prefix_code valid_ref ref_bytes
proof
  fix x y r r' assume "valid_ref x" "valid_ref y" "ref_bytes x @ r = ref_bytes y @ r'"
  then have "ref_attachmentId x = ref_attachmentId y" "ref_lastChunkId x = ref_lastChunkId y"
    "ref_size x = ref_size y"
    by (auto simp: valid_ref_def ref_bytes_def dest!: lps.rest [rotated 2] i64.prefix [rotated 2])
  then show "x = y" by simp
qed

text \<open>
  Fields within the limits of the layout, with empty optional parts written as absent. The
  attachment count stays below \<open>2^25\<close>, so that its first byte cannot be a block tag. \<open>R\<close> is
  the set of recipient blocks the serializer is used on.
\<close>

fun signable ::
  "(entry_recipients \<Rightarrow> string) \<Rightarrow> entry_recipients set \<Rightarrow> int \<Rightarrow> entry_signature_fields \<Rightarrow> bool" where
  "signable json R version (EntrySignatureFields ty i d key created deps hash author refs prov rc) \<longleftrightarrow>
     valid_string i \<and> valid_string d \<and> valid_string key \<and> valid_int64 created \<and>
     length deps < 2 ^ 32 \<and> (\<forall>s \<in> set deps. valid_string s) \<and> valid_string hash \<and> valid_string author \<and>
     (case refs of None \<Rightarrow> True | Some rs \<Rightarrow> rs \<noteq> [] \<and> length rs < 2 ^ 25 \<and> (\<forall>r \<in> set rs. valid_ref r)) \<and>
     (case rc of None \<Rightarrow> True | Some r \<Rightarrow> rcpt_wraps r \<noteq> [] \<and> valid_string (json r) \<and> r \<in> R) \<and>
     (case prov of
        None \<Rightarrow> True
      | Some (EntryProvenance tenant db source sig) \<Rightarrow>
          valid_string tenant \<and> valid_string db \<and> signable json R version source \<and>
          (case buildEntrySigningBytes json version source of None \<Rightarrow> False | Some sb \<Rightarrow> valid_lp sb) \<and>
          (case sig of None \<Rightarrow> True | Some b \<Rightarrow> \<exists>bs. bs \<noteq> [] \<and> valid_lp bs \<and> b = bytesToBase64 bs))"

lemma head_prefix:
  assumes "head_bytes v ty i d key t deps h a @ r = head_bytes v ty' i' d' key' t' deps' h' a' @ r'"
    and "valid_string i" "valid_string d" "valid_string key" "valid_int64 t" "length deps < 2 ^ 32"
      "\<forall>s \<in> set deps. valid_string s" "valid_string h" "valid_string a"
    and "valid_string i'" "valid_string d'" "valid_string key'" "valid_int64 t'" "length deps' < 2 ^ 32"
      "\<forall>s \<in> set deps'. valid_string s" "valid_string h'" "valid_string a'"
  shows "(ty, i, d, key, t, deps, h, a, r) = (ty', i', d', key', t', deps', h', a', r')"
proof -
  note eq = assms(1) [unfolded head_bytes_def append_Cons append_assoc list.inject]
  from lps.rest [OF entry_type_name_valid entry_type_name_valid eq [THEN conjunct2]] entry_type_name_inj
  have 1: "ty = ty'" and e1: "lp_string i @ lp_string d @ lp_string key @ int64be t @ u32be (int (length deps)) @
      concat (map (\<lambda>s. lp (utf8_encode s)) deps) @ lp_string h @ lp_string a @ r =
    lp_string i' @ lp_string d' @ lp_string key' @ int64be t' @ u32be (int (length deps')) @
      concat (map (\<lambda>s. lp (utf8_encode s)) deps') @ lp_string h' @ lp_string a' @ r'" by blast+
  note e2 = lps.rest [OF assms(2) assms(10) e1]
  note e3 = lps.rest [OF assms(3) assms(11) e2 [THEN conjunct2]]
  note e4 = lps.rest [OF assms(4) assms(12) e3 [THEN conjunct2]]
  note e5 = i64.rest [OF assms(5) assms(13) e4 [THEN conjunct2]]
  have "valid_u32 (int (length deps))" "valid_u32 (int (length deps'))"
    using assms(6,14) by (simp_all add: valid_u32_def)
  note e6 = u32.rest [OF this e5 [THEN conjunct2]]
  then have "length deps = length deps'" by simp
  note e7 = lps.list_rest [OF this assms(7) assms(15) e6 [THEN conjunct2]]
  note e8 = lps.rest [OF assms(8) assms(16) e7 [THEN conjunct2]]
  note e9 = lps.rest [OF assms(9) assms(17) e8 [THEN conjunct2]]
  show ?thesis using 1 e2 e3 e4 e5 e7 e8 e9 by simp
qed

subsection \<open>The trailing blocks\<close>

definition valid_refs :: "store_entry_attachment_ref list option \<Rightarrow> bool" where
  "valid_refs refs \<longleftrightarrow>
     (case refs of None \<Rightarrow> True | Some rs \<Rightarrow> rs \<noteq> [] \<and> length rs < 2 ^ 25 \<and> (\<forall>r \<in> set rs. valid_ref r))"

definition valid_prov :: "(string \<times> string \<times> bytes \<times> bytes) option \<Rightarrow> bool" where
  "valid_prov p \<longleftrightarrow>
     (case p of None \<Rightarrow> True
      | Some (tenant, db, sb, sg) \<Rightarrow> valid_string tenant \<and> valid_string db \<and> valid_lp sb \<and> valid_lp sg)"

definition valid_rc ::
  "(entry_recipients \<Rightarrow> string) \<Rightarrow> entry_recipients set \<Rightarrow> entry_recipients option \<Rightarrow> bool" where
  "valid_rc json R rc \<longleftrightarrow>
     (case rc of None \<Rightarrow> True | Some r \<Rightarrow> rcpt_wraps r \<noteq> [] \<and> valid_string (json r) \<and> r \<in> R)"

lemma refs_block_first:
  assumes "valid_refs (Some rs)"
  shows "\<exists>b bs. refs_block (Some rs) = b # bs \<and> b \<noteq> 2 \<and> b \<noteq> 3"
proof -
  let ?n = "int (length rs)"
  have "?n < 2 ^ 25" "rs \<noteq> []" using assms by (auto simp: valid_refs_def)
  then have "0 \<le> ?n div 256 ^ 3" "?n div 256 ^ 3 < 2" by (auto simp: div_less_iff_less_mult)
  moreover have "x = 0 \<or> x = 1" if "0 \<le> x" "x < 2" for x :: int using that by presburger
  ultimately have "?n div 256 ^ 3 = 0 \<or> ?n div 256 ^ 3 = 1" by blast
  then have "(of_int (?n div 256 ^ 3) :: 8 word) \<noteq> 2 \<and> (of_int (?n div 256 ^ 3) :: 8 word) \<noteq> 3" by auto
  moreover have "u32be ?n = of_int (?n div 256 ^ 3) # be_bytes 3 ?n"
    using be_bytes.simps(2) [of 3 ?n] eval_nat_numeral(2) [of "num.Bit1 num.One"] by simp
  ultimately show ?thesis using \<open>rs \<noteq> []\<close> by (auto simp: refs_block_def)
qed

lemma refs_block_prefix:
  assumes "valid_refs refs" and "valid_refs refs'"
    and "hd_ok t" "hd_ok t'" and ok: "hd_ok = (\<lambda>t. t = [] \<or> hd t = 2 \<or> hd t = (3 :: 8 word))"
    and eq: "refs_block refs @ t = refs_block refs' @ t'"
  shows "refs = refs' \<and> t = t'"
proof (cases refs)
  case None
  have "refs' = None"
  proof (rule ccontr)
    assume "refs' \<noteq> None"
    then obtain rs b bs where "refs' = Some rs" "refs_block refs' = b # bs" "b \<noteq> 2" "b \<noteq> 3"
      using refs_block_first assms(2) by fastforce
    then show False using None eq assms(3) ok by (auto simp: refs_block_def)
  qed
  then show ?thesis using None eq by (simp add: refs_block_def)
next
  case (Some rs)
  have "refs' \<noteq> None"
  proof
    assume n: "refs' = None"
    obtain b bs where "refs_block refs = b # bs" "b \<noteq> 2" "b \<noteq> 3"
      using refs_block_first assms(1) Some by fastforce
    then show False using n eq assms(4) ok by (auto simp: refs_block_def)
  qed
  then obtain rs' where s': "refs' = Some rs'" by blast
  have v: "rs \<noteq> []" "rs' \<noteq> []" "\<forall>r \<in> set rs. valid_ref r" "\<forall>r \<in> set rs'. valid_ref r"
    "valid_u32 (int (length rs))" "valid_u32 (int (length rs'))"
    using assms(1,2) Some s' by (auto simp: valid_refs_def valid_u32_def)
  then have "u32be (int (length rs)) @ (concat (map ref_bytes rs) @ t) =
      u32be (int (length rs')) @ (concat (map ref_bytes rs') @ t')"
    using eq Some s' by (simp add: refs_block_def)
  from u32.rest [OF v(5,6) this]
  have "length rs = length rs'" "concat (map ref_bytes rs) @ t = concat (map ref_bytes rs') @ t'"
    by simp_all
  from refc.list_rest [OF this(1) v(3,4) this(2)] show ?thesis using Some s' by simp
qed

lemma provenance_block_prefix:
  assumes "valid_prov p" and "valid_prov p'"
    and "t = [] \<or> hd t = 3" "t' = [] \<or> hd t' = 3"
    and eq: "provenance_block p @ t = provenance_block p' @ t'"
  shows "p = p' \<and> t = t'"
proof (cases p; cases p')
  fix x x' assume s: "p = Some x" "p' = Some x'"
  obtain a b c d a' b' c' d' where x: "x = (a, b, c, d)" "x' = (a', b', c', d')"
    by (metis prod.exhaust)
  have v: "valid_string a" "valid_string a'" "valid_string b" "valid_string b'" "valid_lp c" "valid_lp c'"
    "valid_lp d" "valid_lp d'" using assms(1,2) s x by (simp_all add: valid_prov_def)
  have "lp_string a @ lp_string b @ lp c @ lp d @ t = lp_string a' @ lp_string b' @ lp c' @ lp d' @ t'"
    using eq s x by (simp add: provenance_block_def)
  note e1 = lps.rest [OF v(1,2) this]
  note e2 = lps.rest [OF v(3,4) e1 [THEN conjunct2]]
  note e3 = lpb.rest [OF v(5,6) e2 [THEN conjunct2]]
  note e4 = lpb.rest [OF v(7,8) e3 [THEN conjunct2]]
  show ?thesis using e1 e2 e3 e4 s x by simp
qed (use assms in \<open>auto simp: provenance_block_def ENTRY_PROVENANCE_BLOCK_TAG_def split: prod.splits\<close>)

lemma recipients_block_inj:
  assumes "valid_rc json R rc" and "valid_rc json R rc'" and "inj_on json R"
    and "recipients_block json rc = recipients_block json rc'"
  shows "rc = rc'"
proof (cases rc; cases rc')
  fix r r' assume s: "rc = Some r" "rc' = Some r'"
  then have "lp_string (json r) @ [] = lp_string (json r') @ []"
    using assms(1,2,4) by (simp add: valid_rc_def recipients_block_def)
  then have "json r = json r'"
    using lps.prefix [of "json r" "json r'"] assms(1,2) s by (simp add: valid_rc_def)
  then show ?thesis using s assms(1-3) by (simp add: valid_rc_def inj_on_def)
qed (use assms in \<open>auto simp: recipients_block_def valid_rc_def\<close>)

lemma recipients_block_first: "recipients_block json rc = [] \<or> hd (recipients_block json rc) = 3"
  by (auto simp: recipients_block_def ENTRY_RECIPIENTS_BLOCK_TAG_def split: option.splits)

lemma trailing_inj:
  assumes "valid_refs refs" "valid_refs refs'" "valid_prov p" "valid_prov p'"
    and "valid_rc json R rc" "valid_rc json R rc'" "inj_on json R"
    and "refs_block refs @ provenance_block p @ recipients_block json rc =
         refs_block refs' @ provenance_block p' @ recipients_block json rc'"
  shows "refs = refs' \<and> p = p' \<and> rc = rc'"
proof -
  have "provenance_block p @ recipients_block json rc = [] \<or>
      hd (provenance_block p @ recipients_block json rc) \<in> {2, 3}" for p rc
    using recipients_block_first [of json rc]
    by (auto simp: provenance_block_def ENTRY_PROVENANCE_BLOCK_TAG_def split: option.splits)
  then have "refs = refs' \<and> provenance_block p @ recipients_block json rc =
      provenance_block p' @ recipients_block json rc'"
    by (intro refs_block_prefix [OF assms(1,2) _ _ refl assms(8)]) auto
  moreover from this have "p = p' \<and> recipients_block json rc = recipients_block json rc'"
    by (intro provenance_block_prefix [OF assms(3,4)] recipients_block_first) auto
  ultimately show ?thesis using recipients_block_inj [OF assms(5,6,7)] by blast
qed

subsection \<open>Injectivity\<close>

text \<open>The provenance record as the bytes its block is made of.\<close>

definition prov_parts ::
  "(entry_recipients \<Rightarrow> string) \<Rightarrow> int \<Rightarrow> entry_provenance option \<Rightarrow> (string \<times> string \<times> bytes \<times> bytes) option" where
  "prov_parts json v prov = (case prov of
      None \<Rightarrow> None
    | Some (EntryProvenance tenant db source sig) \<Rightarrow>
        Some (tenant, db, the (buildEntrySigningBytes json v source), the (source_signature_bytes sig)))"

lemma source_signature_valid:
  "(case sig of None \<Rightarrow> True | Some b \<Rightarrow> \<exists>bs. bs \<noteq> [] \<and> valid_lp bs \<and> b = bytesToBase64 bs) \<Longrightarrow>
   \<exists>bs. source_signature_bytes sig = Some bs \<and> valid_lp bs \<and> sig = (if bs = [] then None else Some (bytesToBase64 bs))"
proof (cases sig)
  case (Some b)
  assume "case sig of None \<Rightarrow> True | Some b \<Rightarrow> \<exists>bs. bs \<noteq> [] \<and> valid_lp bs \<and> b = bytesToBase64 bs"
  then obtain bs where bs: "bs \<noteq> []" "valid_lp bs" "b = bytesToBase64 bs" using Some by auto
  then have "b \<noteq> ''''" using base64_bytes_inverse [of bs] by (auto simp: base64ToBytes_def atob_nats_def strip_padding_def)
  then show ?thesis using bs Some by (simp add: source_signature_bytes_def)
qed (simp add: source_signature_bytes_def valid_lp_def)

lemma signable_prov:
  assumes "signable json R v
    (EntrySignatureFields ty i d key t deps h a refs (Some (EntryProvenance tenant db source sig)) rc)"
  obtains sb sg where "buildEntrySigningBytes json v source = Some sb" and "valid_lp sb"
    and "source_signature_bytes sig = Some sg" and "valid_lp sg"
    and "sig = (if sg = [] then None else Some (bytesToBase64 sg))"
    and "signable json R v source" and "valid_string tenant" and "valid_string db"
proof -
  have 1: "case buildEntrySigningBytes json v source of None \<Rightarrow> False | Some sb \<Rightarrow> valid_lp sb"
    and 2: "case sig of None \<Rightarrow> True | Some b \<Rightarrow> \<exists>bs. bs \<noteq> [] \<and> valid_lp bs \<and> b = bytesToBase64 bs"
    and 3: "signable json R v source" "valid_string tenant" "valid_string db"
    using assms by simp_all
  obtain sb where sb: "buildEntrySigningBytes json v source = Some sb" "valid_lp sb"
    using 1 by (cases "buildEntrySigningBytes json v source") auto
  show ?thesis using source_signature_valid [OF 2] sb 3 that by blast
qed

lemma build_signable:
  assumes "signable json R v (EntrySignatureFields ty i d key t deps h a refs prov rc)"
  shows "buildEntrySigningBytes json v (EntrySignatureFields ty i d key t deps h a refs prov rc) =
           Some (head_bytes v ty i d key t deps h a @ refs_block refs @ provenance_block (prov_parts json v prov)
                 @ recipients_block json rc)"
    and "valid_prov (prov_parts json v prov)" and "valid_refs refs" and "valid_rc json R rc"
proof -
  show "valid_refs refs" "valid_rc json R rc"
    using assms by (auto simp: valid_refs_def valid_rc_def)
  have "valid_prov (prov_parts json v prov) \<and>
      buildEntrySigningBytes json v (EntrySignatureFields ty i d key t deps h a refs prov rc) =
      Some (head_bytes v ty i d key t deps h a @ refs_block refs @ provenance_block (prov_parts json v prov)
            @ recipients_block json rc)"
  proof (cases prov)
    case None
    then show ?thesis by (simp add: prov_parts_def valid_prov_def Let_def)
  next
    case (Some p)
    obtain tenant db source sig where p: "p = EntryProvenance tenant db source sig" by (cases p)
    obtain sb sg where "buildEntrySigningBytes json v source = Some sb" "valid_lp sb"
      "source_signature_bytes sig = Some sg" "valid_lp sg" "valid_string tenant" "valid_string db"
      by (rule signable_prov [OF assms [unfolded Some p]])
    then show ?thesis using Some p by (simp add: prov_parts_def valid_prov_def Let_def)
  qed
  then show "valid_prov (prov_parts json v prov)"
    "buildEntrySigningBytes json v (EntrySignatureFields ty i d key t deps h a refs prov rc) =
      Some (head_bytes v ty i d key t deps h a @ refs_block refs @ provenance_block (prov_parts json v prov)
            @ recipients_block json rc)" by blast+
qed

lemma build_defined: "signable json R v f \<Longrightarrow> \<exists>b. buildEntrySigningBytes json v f = Some b"
  using build_signable(1) by (cases f) blast

lemma build_inj:
  assumes "inj_on json R"
  shows "signable json R v f \<Longrightarrow> signable json R v g \<Longrightarrow>
    buildEntrySigningBytes json v f = buildEntrySigningBytes json v g \<Longrightarrow> f = g"
proof (induction f arbitrary: g rule: measure_induct_rule [of size])
  case (less f)
  obtain ty i d key t deps h a refs prov rc where f: "f = EntrySignatureFields ty i d key t deps h a refs prov rc"
    by (cases f)
  obtain ty' i' d' key' t' deps' h' a' refs' prov' rc' where
    g: "g = EntrySignatureFields ty' i' d' key' t' deps' h' a' refs' prov' rc'" by (cases g)
  note sf = less.prems(1) [unfolded f] and sg = less.prems(2) [unfolded g]
  have "head_bytes v ty i d key t deps h a @ (refs_block refs @ provenance_block (prov_parts json v prov)
        @ recipients_block json rc) =
      head_bytes v ty' i' d' key' t' deps' h' a' @ (refs_block refs' @ provenance_block (prov_parts json v prov')
        @ recipients_block json rc')"
    using less.prems(3) build_signable(1) [OF sf] build_signable(1) [OF sg] by (simp add: f g)
  from head_prefix [OF this] sf sg
  have heads: "(ty, i, d, key, t, deps, h, a) = (ty', i', d', key', t', deps', h', a')"
    and tails: "refs_block refs @ provenance_block (prov_parts json v prov) @ recipients_block json rc =
      refs_block refs' @ provenance_block (prov_parts json v prov') @ recipients_block json rc'"
    by auto
  have tl: "refs = refs'" "prov_parts json v prov = prov_parts json v prov'" "rc = rc'"
    using trailing_inj [OF build_signable(3) [OF sf] build_signable(3) [OF sg] build_signable(2) [OF sf]
        build_signable(2) [OF sg] build_signable(4) [OF sf] build_signable(4) [OF sg] assms tails] by auto
  have "prov = prov'"
  proof (cases prov; cases prov')
    fix p p' assume s: "prov = Some p" "prov' = Some p'"
    obtain tenant db source sig where p: "p = EntryProvenance tenant db source sig" by (cases p)
    obtain tenant' db' source' sig' where p': "p' = EntryProvenance tenant' db' source' sig'" by (cases p')
    obtain sb sg1 where b: "buildEntrySigningBytes json v source = Some sb" "source_signature_bytes sig = Some sg1"
      "sig = (if sg1 = [] then None else Some (bytesToBase64 sg1))" "signable json R v source"
      by (rule signable_prov [OF sf [unfolded s p]])
    obtain sb' sg1' where b': "buildEntrySigningBytes json v source' = Some sb'"
      "source_signature_bytes sig' = Some sg1'"
      "sig' = (if sg1' = [] then None else Some (bytesToBase64 sg1'))" "signable json R v source'"
      by (rule signable_prov [OF sg [unfolded s p']])
    have eq: "tenant = tenant'" "db = db'" "sb = sb'" "sg1 = sg1'"
      using tl(2) s p p' b b' by (auto simp: prov_parts_def)
    have "source = source'"
      by (rule less.IH) (use b b' eq in \<open>auto simp: f s p\<close>)
    then show ?thesis using s p p' eq b(3) b'(3) by simp
  qed (use tl(2) in \<open>auto simp: prov_parts_def split: entry_provenance.splits\<close>)
  then show ?case using heads tl f g by simp
qed

text \<open>
  C9. The signing layout is unambiguous: two different field sets within the layout's limits
  never have the same signing bytes, the nested provenance and the optional trailing blocks
  included. So a metadata signature binds every signed field of the entry.
\<close>

theorem signing_bytes_injective:
  assumes "inj_on json R" and "signable json R v f" and "signable json R v g"
  shows "(\<exists>b. buildEntrySigningBytes json v f = Some b) \<and>
         (buildEntrySigningBytes json v f = buildEntrySigningBytes json v g \<longleftrightarrow> f = g)"
proof -
  show ?thesis using build_defined [OF assms(2)] build_inj [OF assms] by auto
qed

definition demo_fields :: "string \<Rightarrow> entry_signature_fields" where
  "demo_fields i = EntrySignatureFields doc_change i ''d'' ''default'' 5 [''p''] ''h'' ''pk'' None None None"

theorem signing_bytes_injective_witness:
  "buildEntrySigningBytes (\<lambda>_. '''') 1 (demo_fields ''a'') \<noteq>
   buildEntrySigningBytes (\<lambda>_. '''') 1 (demo_fields ''b'')"
proof -
  have "signable (\<lambda>_. '''') {} 1 (demo_fields [c])" for c
    by (simp add: demo_fields_def valid_string_def valid_lp_def utf8_encode_def utf8_char_def valid_int64_def Let_def)
  then show ?thesis
    using signing_bytes_injective [of "\<lambda>_. ''''" "{}" 1 "demo_fields ''a''" "demo_fields ''b''"]
    by (simp add: demo_fields_def)
qed

text \<open>
  A signature under a key is forged when it verifies for a byte string that the holder of the key
  never signed. Signature schemes are meant to make forgeries infeasible to find, not to rule
  them out, so what follows says where one would have to be.
\<close>

definition forged_signature ::
  "('key \<Rightarrow> bytes \<Rightarrow> bytes \<Rightarrow> bool) \<Rightarrow> 'key \<Rightarrow> bytes set \<Rightarrow> bytes \<Rightarrow> bytes \<Rightarrow> bool" where
  "forged_signature verify key genuine sig m \<longleftrightarrow> verify key sig m \<and> m \<notin> genuine"

definition signed_entry_bytes :: "(entry_recipients \<Rightarrow> string) \<Rightarrow> entry_signature_fields set \<Rightarrow> bytes set" where
  "signed_entry_bytes json history =
     {m. \<exists>f \<in> history. buildEntrySigningBytes json ENTRY_SIGNATURE_LAYOUT_VERSION f = Some m}"

lemma fields_without_signature [simp]:
  "entrySignatureFieldsFromEntry (e\<lparr> metadataSignature := s \<rparr>) = entrySignatureFieldsFromEntry e"
  by (simp add: entrySignatureFieldsFromEntry_def)

text \<open>
  C10. What an accepted metadata signature says. Let \<open>history\<close> be the fields of the entries that
  the holder of a key pair signed, let these and the entry at hand be within the limits of the
  layout, let the JSON text of a recipient list determine the list, and let signatures made with
  the private key verify under the public one. Then an entry that carries the signature made
  for its own fields is accepted; and when the metadata-binding signature is required, an entry is
  accepted only if it has one, and only if its fields, every one of them, are those of an entry in
  \<open>history\<close>, or its signature is forged: it verifies for bytes that were never signed. So a
  signature that the author made for one entry is no use on an entry that differs from all that
  the author signed, and the ciphertext-only signature is never enough.
\<close>

theorem verify_binds_metadata:
  assumes pair: "\<And>m. verify pub (sign priv m) m"
    and "inj_on json R"
    and "signable json R ENTRY_SIGNATURE_LAYOUT_VERSION (entrySignatureFieldsFromEntry e)"
    and "\<And>f. f \<in> history \<Longrightarrow> signable json R ENTRY_SIGNATURE_LAYOUT_VERSION f"
  shows "(\<exists>s. signEntryMetadata json sign (entrySignatureFieldsFromEntry e) priv ENTRY_SIGNATURE_LAYOUT_VERSION = Some s \<and>
        verifyEntrySignatureWithImportedKey json verify (e\<lparr> metadataSignature := Some s \<rparr>) data pub True = Some True) \<and>
    (verifyEntrySignatureWithImportedKey json verify e data pub True = Some True \<longrightarrow>
       (\<exists>sig m. metadataSignature e = Some sig \<and>
          buildEntrySigningBytes json ENTRY_SIGNATURE_LAYOUT_VERSION (entrySignatureFieldsFromEntry e) = Some m \<and>
          (entrySignatureFieldsFromEntry e \<in> history \<or>
           forged_signature verify pub (signed_entry_bytes json history) sig m)))"
proof (intro conjI impI)
  let ?build = "buildEntrySigningBytes json ENTRY_SIGNATURE_LAYOUT_VERSION" and ?f = "entrySignatureFieldsFromEntry e"
  obtain b where b: "?build ?f = Some b" using build_defined [OF assms(3)] by blast
  show "\<exists>s. signEntryMetadata json sign ?f priv ENTRY_SIGNATURE_LAYOUT_VERSION = Some s \<and>
      verifyEntrySignatureWithImportedKey json verify (e\<lparr> metadataSignature := Some s \<rparr>) data pub True = Some True"
    using b pair by (simp add: signEntryMetadata_def verifyEntrySignatureWithImportedKey_def)
  assume "verifyEntrySignatureWithImportedKey json verify e data pub True = Some True"
  then obtain sig where sig: "metadataSignature e = Some sig" "verify pub sig b"
    using b by (auto simp: verifyEntrySignatureWithImportedKey_def split: option.splits)
  have "?f \<in> history" if h: "g \<in> history" "?build g = Some b" for g
    using build_inj [OF assms(2,3) assms(4) [OF h(1)]] h b by simp
  then have "?f \<in> history \<or> forged_signature verify pub (signed_entry_bytes json history) sig b"
    using sig by (auto simp: forged_signature_def signed_entry_bytes_def)
  then show "\<exists>sig m. metadataSignature e = Some sig \<and> ?build ?f = Some m \<and>
      (?f \<in> history \<or> forged_signature verify pub (signed_entry_bytes json history) sig m)"
    using sig b by blast
qed

text \<open>
  An author who signed one entry: the same signature on an entry with another plaintext size is
  accepted, since the size is not a signed field; on an entry of another document it is not.
\<close>

theorem verify_binds_metadata_witness:
  "\<exists>sig. verifyEntrySignatureWithImportedKey (\<lambda>_. '''') (\<lambda>(k :: unit) sig m. sig = m)
       ((sample_metadata doc_change ''a'' ''d'' [] ''h'' 0)\<lparr> metadataSignature := Some sig \<rparr>) [] () True = Some True \<and>
     verifyEntrySignatureWithImportedKey (\<lambda>_. '''') (\<lambda>(k :: unit) sig m. sig = m)
       ((sample_metadata doc_change ''a'' ''other'' [] ''h'' 0)\<lparr> metadataSignature := Some sig \<rparr>) [] () True \<noteq> Some True"
proof -
  let ?v = "\<lambda>(k :: unit) sig m. sig = (m :: bytes)" and ?j = "\<lambda>_ :: entry_recipients. ''''"
  let ?e = "sample_metadata doc_change ''a'' ''d'' [] ''h'' 0" and ?o = "sample_metadata doc_change ''a'' ''other'' [] ''h'' 0"
  let ?f = "entrySignatureFieldsFromEntry ?e" and ?g = "entrySignatureFieldsFromEntry ?o"
  have s: "signable ?j {} ENTRY_SIGNATURE_LAYOUT_VERSION (entrySignatureFieldsFromEntry (sample_metadata doc_change ''a'' d [] ''h'' 0))"
    if "d = ''d'' \<or> d = ''other''" for d
    using that by (auto simp: entrySignatureFieldsFromEntry_def sample_metadata_def valid_string_def valid_lp_def
        utf8_encode_def utf8_char_def valid_int64_def)
  note T = verify_binds_metadata [where verify = ?v and sign = "\<lambda>(k :: unit) m. m" and json = ?j and R = "{}"
      and pub = "()" and priv = "()" and history = "{?f}", OF refl]
  obtain sig where sig: "signEntryMetadata ?j (\<lambda>(k :: unit) m. m) ?f () ENTRY_SIGNATURE_LAYOUT_VERSION = Some sig"
    "verifyEntrySignatureWithImportedKey ?j ?v (?e\<lparr> metadataSignature := Some sig \<rparr>) [] () True = Some True"
    using T [of ?e "[]"] s by auto
  have "?g \<noteq> ?f" by (simp add: entrySignatureFieldsFromEntry_def sample_metadata_def)
  moreover have "\<not> forged_signature ?v () (signed_entry_bytes ?j {?f}) sig m" for m
    using sig(1) by (auto simp: forged_signature_def signed_entry_bytes_def signEntryMetadata_def)
  ultimately have "verifyEntrySignatureWithImportedKey ?j ?v (?o\<lparr> metadataSignature := Some sig \<rparr>) [] () True \<noteq> Some True"
    using T [of "?o\<lparr> metadataSignature := Some sig \<rparr>" "[]"] s by auto
  then show ?thesis using sig(2) by blast
qed

end
