(* ===== verification/EntryWireCodec.thy ===== *)
theory EntryWireCodec
  imports EntrySignature
begin

text \<open>
  The JSON wire codec for entry metadata
  (\<^verbatim>\<open>core/appendonlystores/network/entryWireCodec.ts\<close>): binary fields become
  base64 strings, the other transmitted fields are copied, and the fields the codec does not
  list are not transmitted. Decoding fails (\<open>None\<close>) on malformed base64.
\<close>

record serialized_entry_metadata =
  ser_entryType :: store_entry_type
  ser_id :: string
  ser_contentHash :: string
  ser_docId :: string
  ser_dependencyIds :: "string list"
  ser_createdAt :: int
  ser_receiptOrder :: "int option"
  ser_createdByPublicKey :: string
  ser_decryptionKeyId :: string
  ser_snapshotHeadHashes :: "string list option"
  ser_snapshotHeadEntryIds :: "string list option"
  ser_signature :: string
  ser_metadataSignature :: "string option"
  ser_originalSize :: int
  ser_encryptedSize :: int
  ser_receivedAt :: "int option"
  ser_receivedByPublicKey :: "string option"
  ser_receivedDateSignature :: "string option"
  ser_attachmentRefs :: "store_entry_attachment_ref list option"
  ser_provenance :: "entry_provenance option"
  ser_recipients :: "entry_recipients option"
  ser_entryVersion :: "int option"

record serialized_entry = serialized_entry_metadata +
  ser_encryptedData :: string

definition serializeEntryMetadata :: "store_entry_metadata \<Rightarrow> serialized_entry_metadata" where
  "serializeEntryMetadata m =
     \<lparr> ser_entryType = entryType m, ser_id = entry_id m, ser_contentHash = contentHash m,
       ser_docId = docId m, ser_dependencyIds = dependencyIds m, ser_createdAt = createdAt m,
       ser_receiptOrder = receiptOrder m, ser_createdByPublicKey = createdByPublicKey m,
       ser_decryptionKeyId = decryptionKeyId m, ser_snapshotHeadHashes = snapshotHeadHashes m,
       ser_snapshotHeadEntryIds = snapshotHeadEntryIds m, ser_signature = bytesToBase64 (signature m),
       ser_metadataSignature = map_option bytesToBase64 (metadataSignature m),
       ser_originalSize = originalSize m, ser_encryptedSize = encryptedSize m,
       ser_receivedAt = receivedAt m, ser_receivedByPublicKey = receivedByPublicKey m,
       ser_receivedDateSignature = map_option bytesToBase64 (receivedDateSignature m),
       ser_attachmentRefs = attachmentRefs m, ser_provenance = provenance m,
       ser_recipients = recipients m, ser_entryVersion = entryVersion m \<rparr>"

text \<open>\<^verbatim>\<open>x ? base64ToBytes(x) : undefined\<close>: absent and empty strings give no value.\<close>

definition decode_optional :: "string option \<Rightarrow> bytes option option" where
  "decode_optional s = (case s of
      None \<Rightarrow> Some None
    | Some b \<Rightarrow> if b = '''' then Some None else map_option Some (base64ToBytes b))"

definition deserializeEntryMetadata :: "serialized_entry_metadata \<Rightarrow> store_entry_metadata option" where
  "deserializeEntryMetadata s =
     (case (base64ToBytes (ser_signature s), decode_optional (ser_metadataSignature s),
            decode_optional (ser_receivedDateSignature s)) of
        (Some sig, Some metaSig, Some dateSig) \<Rightarrow> Some
          \<lparr> entryType = ser_entryType s, entry_id = ser_id s, contentHash = ser_contentHash s,
            docId = ser_docId s, dependencyIds = ser_dependencyIds s,
            snapshotHeadHashes = ser_snapshotHeadHashes s,
            snapshotHeadEntryIds = ser_snapshotHeadEntryIds s, createdAt = ser_createdAt s,
            receiptOrder = ser_receiptOrder s, attachmentId = None, attachmentIds = None,
            attachmentRefs = ser_attachmentRefs s, uploadStartedAt = None,
            createdByPublicKey = ser_createdByPublicKey s, decryptionKeyId = ser_decryptionKeyId s,
            signature = sig, metadataSignature = metaSig, provenance = ser_provenance s,
            recipients = ser_recipients s, originalSize = ser_originalSize s,
            encryptedSize = ser_encryptedSize s, receivedAt = ser_receivedAt s,
            receivedByPublicKey = ser_receivedByPublicKey s, receivedDateSignature = dateSig,
            receiptScheme = None, entryVersion = ser_entryVersion s \<rparr>
      | _ \<Rightarrow> None)"

definition serializeStoreEntry :: "store_entry \<Rightarrow> serialized_entry" where
  "serializeStoreEntry e =
     serialized_entry_metadata.extend (serializeEntryMetadata (entry_rest e))
       (serialized_entry.fields (bytesToBase64 (encryptedData e)))"

definition deserializeStoreEntry :: "serialized_entry \<Rightarrow> store_entry option" where
  "deserializeStoreEntry s =
     (case (deserializeEntryMetadata (serialized_entry_metadata.truncate s),
            base64ToBytes (ser_encryptedData s)) of
        (Some m, Some d) \<Rightarrow> Some (entry_with_data m d)
      | _ \<Rightarrow> None)"

section \<open>Round trip\<close>

text \<open>An entry as it arrives: the fields the codec does not carry are absent, and so is an empty signature.\<close>

definition absent_if_empty :: "bytes option \<Rightarrow> bytes option" where
  "absent_if_empty b = (if b = Some [] then None else b)"

definition on_wire :: "store_entry_metadata \<Rightarrow> store_entry_metadata" where
  "on_wire m = m\<lparr> attachmentId := None, attachmentIds := None, uploadStartedAt := None,
                  receiptScheme := None, metadataSignature := absent_if_empty (metadataSignature m),
                  receivedDateSignature := absent_if_empty (receivedDateSignature m) \<rparr>"

lemma bytesToBase64_Nil: "bytesToBase64 bs = '''' \<longleftrightarrow> bs = []"
  using base64_bytes_inverse [of bs]
  by (cases bs) (auto simp: bytesToBase64_def base64ToBytes_def atob_nats_def strip_padding_def)

lemma decode_optional_encode:
  "decode_optional (map_option bytesToBase64 b) = Some (absent_if_empty b)"
  by (cases b) (simp_all add: decode_optional_def absent_if_empty_def bytesToBase64_Nil)

lemma deserialize_serialize: "deserializeEntryMetadata (serializeEntryMetadata m) = Some (on_wire m)"
  by (cases m)
    (simp add: deserializeEntryMetadata_def serializeEntryMetadata_def decode_optional_encode on_wire_def)

text \<open>
  An entry survives the JSON wire: decoding what was encoded succeeds and gives the same
  payload bytes and the same metadata up to the fields the codec does not carry
  (\<^verbatim>\<open>attachmentId\<close>, \<^verbatim>\<open>attachmentIds\<close>, \<^verbatim>\<open>uploadStartedAt\<close>,
  \<^verbatim>\<open>receiptScheme\<close>) and empty signatures. Every signed field is preserved, so the
  author's metadata signature verifies on the receiver exactly when it does on the sender.
\<close>

theorem wire_codec_roundtrip:
  assumes "metadataSignature e \<noteq> Some []"
  shows "\<exists>e'. deserializeStoreEntry (serializeStoreEntry e) = Some e' \<and>
           encryptedData e' = encryptedData e \<and> entry_rest e' = on_wire (entry_rest e) \<and>
           entrySignatureFieldsFromEntry (entry_rest e') = entrySignatureFieldsFromEntry (entry_rest e) \<and>
           verifyEntrySignatureWithImportedKey json verify (entry_rest e') (encryptedData e') key req =
             verifyEntrySignatureWithImportedKey json verify (entry_rest e) (encryptedData e) key req"
proof -
  have "serialized_entry_metadata.truncate (serializeStoreEntry e) = serializeEntryMetadata (entry_rest e)"
    "ser_encryptedData (serializeStoreEntry e) = bytesToBase64 (encryptedData e)"
    by (simp_all add: serializeStoreEntry_def serializeEntryMetadata_def serialized_entry_metadata.defs
        serialized_entry.defs)
  then have "deserializeStoreEntry (serializeStoreEntry e) =
      Some (entry_with_data (on_wire (entry_rest e)) (encryptedData e))"
    by (simp add: deserializeStoreEntry_def deserialize_serialize)
  moreover have fields_eq: "entrySignatureFieldsFromEntry (on_wire m) = entrySignatureFieldsFromEntry m" for m
    by (simp add: on_wire_def entrySignatureFieldsFromEntry_def)
  moreover have "metadataSignature (on_wire (entry_rest e)) = metadataSignature (entry_rest e)"
    "signature (on_wire (entry_rest e)) = signature (entry_rest e)"
    using assms by (simp_all add: on_wire_def absent_if_empty_def store_entry_metadata.truncate_def)
  ultimately show ?thesis
    by (simp add: verifyEntrySignatureWithImportedKey_def cong: option.case_cong)
qed

theorem wire_codec_roundtrip_witness:
  "\<exists>e'. deserializeStoreEntry (serializeStoreEntry (sample_entry ''a'' ''d'' [''p''] ''h'' [1, 2])) = Some e' \<and>
        encryptedData e' = [1, 2]"
  using wire_codec_roundtrip [of "sample_entry ''a'' ''d'' [''p''] ''h'' [1, 2]"
      "\<lambda>_. ''''" "\<lambda>(k :: unit) s m. True" "()" True]
  by (auto simp: sample_entry_def entry_with_data_def sample_metadata_def store_entry_metadata.defs
      store_entry.defs)

text \<open>
  The codec drops the receipt scheme: an entry witnessed under a named scheme arrives with
  its witness fields but without the scheme that tells how to verify them.
\<close>

theorem wire_codec_drops_receipt_scheme:
  "\<exists>m'. deserializeEntryMetadata (serializeEntryMetadata (m\<lparr> receiptScheme := Some scheme \<rparr>)) = Some m' \<and>
        receiptScheme m' = None \<and> receivedAt m' = receivedAt m \<and>
        receivedByPublicKey m' = receivedByPublicKey m"
  by (simp add: deserialize_serialize on_wire_def)

end
