(* ===== verification/JsValue.thy ===== *)
theory JsValue
  imports JsPrelude
begin

text \<open>
  Decoded document content. A document read from the directory or handed to the access-control
  engine is an untyped JavaScript value; the model keeps it as a datatype, so that every
  \<^verbatim>\<open>typeof\<close> test and \<^verbatim>\<open>Array.isArray\<close> of the code is a case of it. Numbers are finite, hence
  rationals. Function values only occur as inherited members.
\<close>

datatype js_value =
    JUndefined
  | JNull
  | JBool bool
  | JNum rat
  | JStr string
  | JFun string
  | JArr "js_value list"
  | JObj "(string \<times> js_value) list"

type_synonym js_object = "(string, js_value) jsmap"

text \<open>An own property of a record, for a name that no prototype defines.\<close>

definition js_prop :: "js_object \<Rightarrow> string \<Rightarrow> js_value" where
  "js_prop obj name = (case map_of obj name of None \<Rightarrow> JUndefined | Some v \<Rightarrow> v)"

fun js_string :: "js_value \<Rightarrow> string option" where
  "js_string (JStr s) = Some s"
| "js_string _ = None"

fun js_boolean :: "js_value \<Rightarrow> bool option" where
  "js_boolean (JBool b) = Some b"
| "js_boolean _ = None"

fun js_number :: "js_value \<Rightarrow> rat option" where
  "js_number (JNum n) = Some n"
| "js_number _ = None"

fun js_array :: "js_value \<Rightarrow> js_value list option" where
  "js_array (JArr xs) = Some xs"
| "js_array _ = None"

text \<open>\<^verbatim>\<open>!!v && typeof v === "object"\<close>, with the members of the object; an array has none of the names the code reads.\<close>

fun js_members :: "js_value \<Rightarrow> js_object option" where
  "js_members (JObj ps) = Some ps"
| "js_members (JArr xs) = Some []"
| "js_members _ = None"

text \<open>
  \<^verbatim>\<open>===\<close> and the SameValueZero of \<^verbatim>\<open>includes\<close>. Objects, arrays and functions are compared by
  identity; the two operands of the code come from different documents, so they are never the
  same object.
\<close>

fun js_primitive :: "js_value \<Rightarrow> bool" where
  "js_primitive (JArr _) = False"
| "js_primitive (JObj _) = False"
| "js_primitive (JFun _) = False"
| "js_primitive _ = True"

definition js_strict_eq :: "js_value \<Rightarrow> js_value \<Rightarrow> bool" where
  "js_strict_eq a b \<longleftrightarrow> a = b \<and> js_primitive a"

definition js_includes :: "js_value list \<Rightarrow> js_value \<Rightarrow> bool" where
  "js_includes xs v = list_ex (\<lambda>x. js_strict_eq x v) xs"

lemma js_includes_iff: "js_includes xs v \<longleftrightarrow> v \<in> set xs \<and> js_primitive v"
  by (auto simp: js_includes_def list_ex_iff js_strict_eq_def)

text \<open>\<^verbatim>\<open>haystack.includes(needle)\<close> on strings.\<close>

fun str_includes :: "string \<Rightarrow> string \<Rightarrow> bool" where
  "str_includes [] needle = (needle = [])"
| "str_includes (c # cs) needle = (take (length needle) (c # cs) = needle \<or> str_includes cs needle)"

lemma str_includes_iff: "str_includes s needle \<longleftrightarrow> (\<exists>pre post. s = pre @ needle @ post)"
proof (induction s)
  case (Cons c cs)
  have "(\<exists>pre post. c # cs = pre @ needle @ post) \<longleftrightarrow>
        (\<exists>post. c # cs = needle @ post) \<or> (\<exists>pre post. cs = pre @ needle @ post)"
    by (auto simp: Cons_eq_append_conv)
  moreover have "(\<exists>post. c # cs = needle @ post) \<longleftrightarrow> take (length needle) (c # cs) = needle"
    by (metis append_take_drop_id append_eq_conv_conj)
  ultimately show ?case using Cons.IH by simp
qed auto

text \<open>White space as in the regular expression \<^verbatim>\<open>\s\<close>, for the model's code units.\<close>

definition js_space :: "char \<Rightarrow> bool" where
  "js_space c \<longleftrightarrow> of_char c \<in> {9, 10, 11, 12, 13, 32, 160 :: nat}"

text \<open>\<^verbatim>\<open>s.split(".")\<close>\<close>

fun split_on :: "char \<Rightarrow> string \<Rightarrow> string list" where
  "split_on c [] = [[]]"
| "split_on c (x # xs) =
     (if x = c then [] # split_on c xs
      else case split_on c xs of [] \<Rightarrow> [[x]] | w # ws \<Rightarrow> (x # w) # ws)"

text \<open>A property name that is an array index: digits without a leading zero.\<close>

definition is_digit :: "char \<Rightarrow> bool" where
  "is_digit c \<longleftrightarrow> 48 \<le> (of_char c :: nat) \<and> (of_char c :: nat) \<le> 57"

definition array_index :: "string \<Rightarrow> nat option" where
  "array_index s =
     (if s \<noteq> [] \<and> list_all is_digit s \<and> (length s = 1 \<or> hd s \<noteq> CHR ''0'')
      then Some (foldl (\<lambda>n c. 10 * n + (of_char c - 48)) 0 s) else None)"

text \<open>
  \<^verbatim>\<open>cur[part]\<close> on an object or array. \<open>proto\<close> is the lookup along the prototype chain for a name
  that is not an own property (\<^verbatim>\<open>toString\<close>, \<^verbatim>\<open>constructor\<close>, \<dots>), which the runtime defines.
\<close>

fun member_get :: "(js_value \<Rightarrow> string \<Rightarrow> js_value) \<Rightarrow> js_value \<Rightarrow> string \<Rightarrow> js_value" where
  "member_get proto (JObj ps) part =
     (case map_of ps part of Some v \<Rightarrow> v | None \<Rightarrow> proto (JObj ps) part)"
| "member_get proto (JArr xs) part =
     (if part = ''length'' then JNum (of_nat (length xs))
      else case array_index part of
        Some i \<Rightarrow> if i < length xs then xs ! i else proto (JArr xs) part
      | None \<Rightarrow> proto (JArr xs) part)"
| "member_get proto v part = JUndefined"

fun js_is_object :: "js_value \<Rightarrow> bool" where
  "js_is_object (JObj _) = True"
| "js_is_object (JArr _) = True"
| "js_is_object _ = False"

end
