(* ===== verification/AclTypes.thy ===== *)
theory AclTypes
  imports ByteLayout JsValue
begin

text \<open>
  The documents of access control (\<^verbatim>\<open>core/accesscontrol/types.ts\<close>): rule types,
  operators, clauses, policies, rules, witnesses and decisions, the encoding of names into
  document ids, the rule validator and the layering of policies.
\<close>

section \<open>Data\<close>

datatype rule_type =
    rt_doc_create | rt_doc_change | rt_doc_delete | rt_doc_undelete | rt_doc_snapshot | rt_doc_read

text \<open>
  A clause read from a stored rule is not validated: \<open>op_unknown\<close> and \<open>when_other\<close> stand for
  every other value that field may have, and the clause's value is arbitrary content.
\<close>

datatype clause_operator =
    op_equals | op_notEquals | op_contains | op_containsAny | op_containsAll | op_exists | op_notExists
  | op_gt | op_gte | op_lt | op_lte | op_unknown

datatype with_field_when = when_before | when_after | when_other

record with_field_clause =
  clause_key :: string
  clause_op :: clause_operator
  clause_val :: js_value
  clause_when :: "with_field_when option"

datatype database_creation_policy = dbc_open | dbc_directory_restricted

record access_policy =
  disableAllAccessChecksAndPolicies :: "bool option"
  denyDocCreate :: "bool option"
  denyDocChange :: "bool option"
  denyDocDelete :: "bool option"
  denyDocUndelete :: "bool option"
  denyDocSnapshot :: "bool option"
  denyDocRead :: "bool option"
  defaultCreateKeyId :: "string option"
  databaseCreationPolicy :: "database_creation_policy option"
  allowedDbIds :: "string list option"
  requireMetadataSignatureSince :: "rat option"

datatype rule_action = action_allow | action_deny

record acl_rule =
  rule_type_of :: rule_type
  ruleId :: string
  rule_description :: "string option"
  rule_dbid :: string
  withfields :: "with_field_clause list option"
  users_hashes :: "string list"
  users_encrypted :: string
  rule_action_of :: rule_action

record trusted_witness =
  witnessPublicKey :: string
  serverUrl :: "string option"

datatype access_tier = tier1 | tier2

record access_decision =
  allowed :: bool
  reason :: string
  matchedRuleId :: "string option"
  decision_tier :: access_tier

section \<open>Placeholders\<close>

definition PLACEHOLDERS :: "string list" where
  "PLACEHOLDERS = [''${user.username}'', ''${user.usernames}'', ''${user.groups}'']"

definition isPlaceholder :: "js_value \<Rightarrow> bool" where
  "isPlaceholder v = (case v of JStr s \<Rightarrow> s \<in> set PLACEHOLDERS | _ \<Rightarrow> False)"

section \<open>Document ids\<close>

definition encode_byte :: "8 word \<Rightarrow> string" where
  "encode_byte b =
     (let n = unat b
      in if 97 \<le> n \<and> n \<le> 122 \<or> 48 \<le> n \<and> n \<le> 57 then [char_of n]
         else [CHR ''_'', hex_digit (n div 16), hex_digit (n mod 16)])"

definition encodeAclIdComponent :: "string \<Rightarrow> string" where
  "encodeAclIdComponent raw = concat (map encode_byte (utf8_encode raw))"

definition hex_val :: "char \<Rightarrow> nat option" where
  "hex_val c = (let k = of_char c :: nat
     in if 48 \<le> k \<and> k \<le> 57 then Some (k - 48)
        else if 97 \<le> k \<and> k \<le> 102 then Some (k - 87)
        else if 65 \<le> k \<and> k \<le> 70 then Some (k - 55) else None)"

text \<open>
  \<^verbatim>\<open>parseInt(hex, 16)\<close> on a string of at most two characters, stored in a byte array:
  \<^verbatim>\<open>NaN\<close> becomes 0. White space is skipped, a sign is taken, and parsing stops at the
  first character that is no digit.
\<close>

fun parse_digits :: "string \<Rightarrow> nat \<Rightarrow> nat" where
  "parse_digits [] acc = acc"
| "parse_digits (c # cs) acc =
     (case hex_val c of None \<Rightarrow> acc | Some d \<Rightarrow> parse_digits cs (acc * 16 + d))"

fun parse_hex_byte :: "string \<Rightarrow> 8 word" where
  "parse_hex_byte [] = 0"
| "parse_hex_byte (c # cs) =
     (if ascii_space c then parse_hex_byte cs
      else if c = CHR ''-'' then - of_nat (parse_digits cs 0)
      else if c = CHR ''+'' then of_nat (parse_digits cs 0)
      else of_nat (parse_digits (c # cs) 0))"

fun decode_acl_bytes :: "string \<Rightarrow> bytes" where
  "decode_acl_bytes [] = []"
| "decode_acl_bytes (c # cs) =
     (if c = CHR ''_'' then parse_hex_byte (take 2 cs) # decode_acl_bytes (drop 2 cs)
      else of_nat (of_char c) # decode_acl_bytes cs)"

text \<open>
  \<^verbatim>\<open>TextDecoder.decode\<close> for the one- and two-byte sequences that the model's code units
  have; \<open>None\<close> for text outside them.
\<close>

fun utf8_decode :: "bytes \<Rightarrow> string option" where
  "utf8_decode [] = Some []"
| "utf8_decode (b # bs) =
     (if unat b < 128 then map_option (\<lambda>s. char_of (unat b) # s) (utf8_decode bs)
      else case bs of
        [] \<Rightarrow> None
      | c # cs \<Rightarrow>
          if (unat b = 194 \<or> unat b = 195) \<and> 128 \<le> unat c \<and> unat c < 192
          then map_option (\<lambda>s. char_of ((unat b - 192) * 64 + (unat c - 128)) # s) (utf8_decode cs)
          else None)"

definition decodeAclIdComponent :: "string \<Rightarrow> string option" where
  "decodeAclIdComponent encoded = utf8_decode (decode_acl_bytes encoded)"

section \<open>Validation\<close>

datatype rule_error =
    EmptyClauseKey | UnknownOperator | UnknownPlaceholder string | InvalidWhen | BeforeOnCreate
  | EmptyDbid | EmptyUsersHashes | WithFieldsOnRead

text \<open>\<^verbatim>\<open>typeof v === "string" && v.startsWith("${") && !isPlaceholder(v)\<close>\<close>

definition bad_placeholder :: "js_value \<Rightarrow> string option" where
  "bad_placeholder v =
     (case js_string v of
        Some s \<Rightarrow> if take 2 s = ''${'' \<and> \<not> isPlaceholder v then Some s else None
      | None \<Rightarrow> None)"

definition validateWithFieldClause :: "with_field_clause \<Rightarrow> rule_type \<Rightarrow> rule_error option" where
  "validateWithFieldClause clause ruleType =
     (if clause_key clause = '''' then Some EmptyClauseKey
      else if clause_op clause = op_unknown then Some UnknownOperator
      else case bad_placeholder (clause_val clause) of
        Some s \<Rightarrow> Some (UnknownPlaceholder s)
      | None \<Rightarrow>
          if clause_when clause = Some when_other then Some InvalidWhen
          else if ruleType = rt_doc_create \<and> clause_when clause = Some when_before then Some BeforeOnCreate
          else None)"

fun first_error :: "('a \<Rightarrow> 'e option) \<Rightarrow> 'a list \<Rightarrow> 'e option" where
  "first_error f [] = None"
| "first_error f (x # xs) = (case f x of Some e \<Rightarrow> Some e | None \<Rightarrow> first_error f xs)"

text \<open>\<^verbatim>\<open>rule.withfields ?? []\<close>\<close>

definition clauses_of :: "acl_rule \<Rightarrow> with_field_clause list" where
  "clauses_of rule = (case withfields rule of None \<Rightarrow> [] | Some cs \<Rightarrow> cs)"

definition validateAclRule :: "acl_rule \<Rightarrow> rule_error option" where
  "validateAclRule rule =
     (if rule_dbid rule = '''' then Some EmptyDbid
      else if users_hashes rule = [] then Some EmptyUsersHashes
      else if rule_type_of rule = rt_doc_read \<and> clauses_of rule \<noteq> [] then Some WithFieldsOnRead
      else first_error (\<lambda>c. validateWithFieldClause c (rule_type_of rule)) (clauses_of rule))"

section \<open>Effective policy\<close>

record effective_policy =
  eff_disable :: bool
  eff_denyDocCreate :: bool
  eff_denyDocChange :: bool
  eff_denyDocDelete :: bool
  eff_denyDocUndelete :: bool
  eff_denyDocSnapshot :: bool
  eff_denyDocRead :: bool
  eff_defaultCreateKeyId :: "string option"

text \<open>The local \<^verbatim>\<open>pick\<close>: the database policy, then the tenant default, then the built-in default.\<close>

definition pick_field ::
  "access_policy option \<Rightarrow> access_policy option \<Rightarrow> (access_policy \<Rightarrow> 'a option) \<Rightarrow> 'a \<Rightarrow> 'a" where
  "pick_field tenantDefault dbPolicy field dflt =
     (case Option.bind dbPolicy field of
        Some v \<Rightarrow> v
      | None \<Rightarrow> (case Option.bind tenantDefault field of Some v \<Rightarrow> v | None \<Rightarrow> dflt))"

definition effectivePolicy ::
  "access_policy option \<Rightarrow> access_policy option \<Rightarrow> effective_policy" where
  "effectivePolicy tenantDefault dbPolicy =
     \<lparr> eff_disable = pick_field tenantDefault dbPolicy disableAllAccessChecksAndPolicies False,
       eff_denyDocCreate = pick_field tenantDefault dbPolicy denyDocCreate False,
       eff_denyDocChange = pick_field tenantDefault dbPolicy denyDocChange False,
       eff_denyDocDelete = pick_field tenantDefault dbPolicy denyDocDelete False,
       eff_denyDocUndelete = pick_field tenantDefault dbPolicy denyDocUndelete False,
       eff_denyDocSnapshot = pick_field tenantDefault dbPolicy denyDocSnapshot True,
       eff_denyDocRead = pick_field tenantDefault dbPolicy denyDocRead False,
       eff_defaultCreateKeyId =
         (case Option.bind dbPolicy defaultCreateKeyId of
            Some k \<Rightarrow> Some k | None \<Rightarrow> Option.bind tenantDefault defaultCreateKeyId) \<rparr>"

section \<open>The id encoding is reversible\<close>

lemma hex_val_digit: "n < 16 \<Longrightarrow> hex_val (hex_digit n) = Some n"
  by (auto simp: hex_val_def hex_digit_def Let_def of_char_of)

lemma hex_digit_plain:
  "n < 16 \<Longrightarrow> \<not> ascii_space (hex_digit n) \<and> hex_digit n \<noteq> CHR ''-'' \<and> hex_digit n \<noteq> CHR ''+''"
proof -
  assume "n < 16"
  then have h: "hex_val (hex_digit n) \<noteq> None" by (simp add: hex_val_digit)
  have "hex_val CHR ''-'' = None" "hex_val CHR ''+'' = None" by (simp_all add: hex_val_def)
  moreover have "\<not> ascii_space c" if "hex_val c \<noteq> None" for c
    using that by (auto simp: hex_val_def ascii_space_def Let_def)
  ultimately show ?thesis using h by metis
qed

lemma parse_hex_digits:
  "a < 16 \<Longrightarrow> b < 16 \<Longrightarrow> parse_hex_byte [hex_digit a, hex_digit b] = of_nat (a * 16 + b)"
  by (simp add: hex_val_digit hex_digit_plain)

lemma unat_byte: "unat (b :: 8 word) < 256"
  using unsigned_less [where 'b = 8 and 'a = nat, of b] by simp

lemma decode_encode_byte: "decode_acl_bytes (encode_byte b @ rest) = b # decode_acl_bytes rest"
proof -
  let ?n = "unat b"
  have n: "?n < 256" by (rule unat_byte)
  show ?thesis
  proof (cases "97 \<le> ?n \<and> ?n \<le> 122 \<or> 48 \<le> ?n \<and> ?n \<le> 57")
    case True
    have "of_char (char_of ?n :: char) = ?n" using n by (simp add: of_char_of)
    moreover have "char_of ?n \<noteq> CHR ''_''"
    proof
      assume "char_of ?n = CHR ''_''"
      then have "of_char (char_of ?n :: char) = (of_char CHR ''_'' :: nat)" by (rule arg_cong)
      then show False using True n by (auto simp: of_char_of)
    qed
    ultimately show ?thesis using True by (simp add: encode_byte_def Let_def)
  next
    case False
    have "?n div 16 < 16" "?n mod 16 < 16" using n by (simp_all add: div_less_iff_less_mult)
    then have "parse_hex_byte [hex_digit (?n div 16), hex_digit (?n mod 16)] = b"
      by (simp add: parse_hex_digits del: parse_hex_byte.simps)
    moreover have "encode_byte b = [CHR ''_'', hex_digit (?n div 16), hex_digit (?n mod 16)]"
      using False by (auto simp: encode_byte_def Let_def)
    ultimately show ?thesis by (simp del: parse_hex_byte.simps)
  qed
qed

lemma decode_encode_bytes: "decode_acl_bytes (concat (map encode_byte bs)) = bs"
  by (induction bs) (simp_all add: decode_encode_byte del: decode_acl_bytes.simps(2))

lemma utf8_decode_encode: "utf8_decode (utf8_encode s) = Some s"
proof (induction s)
  case (Cons c s)
  let ?n = "of_char c :: nat"
  have n: "?n < 256" by simp
  have small: "unat (of_nat k :: 8 word) = k" if "k < 256" for k
    using that by (simp add: unsigned_of_nat take_bit_eq_mod)
  have IH: "utf8_decode (concat (map utf8_char s)) = Some s" using Cons by (simp add: utf8_encode_def)
  show ?case
  proof (cases "?n < 128")
    case True
    then show ?thesis using IH n small [of ?n] by (simp add: utf8_encode_def utf8_char_def)
  next
    case False
    have "2 \<le> ?n div 64" "?n div 64 < 4"
      using False n by (simp_all add: less_eq_div_iff_mult_less_eq div_less_iff_less_mult)
    then have d: "?n div 64 = 2 \<or> ?n div 64 = 3" by linarith
    then have "192 + ?n div 64 < 256" "128 + ?n mod 64 < 256" by auto
    then have b: "unat (of_nat (192 + ?n div 64) :: 8 word) = 192 + ?n div 64"
      "unat (of_nat (128 + ?n mod 64) :: 8 word) = 128 + ?n mod 64" by (simp_all only: small)
    have "?n div 64 * 64 + ?n mod 64 = ?n" by simp
    then show ?thesis using False IH b d
      by (auto simp: utf8_encode_def utf8_char_def Let_def simp del: of_nat_add)
  qed
qed (simp add: utf8_encode_def)

text \<open>
  The encoding of names into access-control document ids is reversible, hence injective:
  two different database ids, rule ids or witnesses never share a document. The encoded form
  uses only lower-case letters, digits and the underscore.
\<close>

theorem acl_id_roundtrip:
  "decodeAclIdComponent (encodeAclIdComponent raw) = Some raw \<and>
   (encodeAclIdComponent raw = encodeAclIdComponent raw' \<longleftrightarrow> raw = raw') \<and>
   (\<forall>c \<in> set (encodeAclIdComponent raw).
      c = CHR ''_'' \<or> of_char c \<in> {97..122 :: nat} \<or> of_char c \<in> {48..57 :: nat})"
proof -
  have rt: "decodeAclIdComponent (encodeAclIdComponent r) = Some r" for r
    by (simp add: decodeAclIdComponent_def encodeAclIdComponent_def decode_encode_bytes utf8_decode_encode)
  have hex: "of_char (hex_digit n) \<in> {97..122 :: nat} \<or> of_char (hex_digit n) \<in> {48..57 :: nat}"
    if "n < 16" for n
    using that by (auto simp: hex_digit_def of_char_of)
  have enc: "c = CHR ''_'' \<or> of_char c \<in> {97..122 :: nat} \<or> of_char c \<in> {48..57 :: nat}"
    if "c \<in> set (encode_byte b)" for c b
  proof -
    have "unat b div 16 < 16" "unat b mod 16 < 16" using unat_byte [of b]
      by (simp_all add: div_less_iff_less_mult)
    note hx = hex [OF this(1)] hex [OF this(2)]
    from that consider "c = CHR ''_''" | "c = hex_digit (unat b div 16)" | "c = hex_digit (unat b mod 16)"
      | "c = char_of (unat b)" "unat b \<in> {97..122} \<or> unat b \<in> {48..57}"
      by (auto simp: encode_byte_def Let_def split: if_splits)
    then show ?thesis
    proof cases
      case 2
      then show ?thesis using hx(1) by blast
    next
      case 3
      then show ?thesis using hx(2) by blast
    next
      case 4
      then show ?thesis using unat_byte [of b] by (simp add: of_char_of)
    qed simp
  qed
  have "\<forall>c \<in> set (encodeAclIdComponent raw).
      c = CHR ''_'' \<or> of_char c \<in> {97..122 :: nat} \<or> of_char c \<in> {48..57 :: nat}"
  proof
    fix c assume "c \<in> set (encodeAclIdComponent raw)"
    then obtain b where "c \<in> set (encode_byte b)" by (auto simp: encodeAclIdComponent_def)
    then show "c = CHR ''_'' \<or> of_char c \<in> {97..122 :: nat} \<or> of_char c \<in> {48..57 :: nat}" by (rule enc)
  qed
  moreover have "encodeAclIdComponent raw = encodeAclIdComponent raw' \<longleftrightarrow> raw = raw'"
    using rt [of raw] rt [of raw'] by (metis option.inject)
  ultimately show ?thesis using rt by blast
qed

theorem acl_id_roundtrip_witness:
  "decodeAclIdComponent (encodeAclIdComponent ''Sales-DB'') = Some ''Sales-DB'' \<and>
   encodeAclIdComponent ''Sales'' \<noteq> encodeAclIdComponent ''sales''"
  using acl_id_roundtrip [of "''Sales-DB''" "''sales''"] acl_id_roundtrip [of "''Sales''" "''sales''"]
  by simp

end
