(* ===== verification/DirectoryChain.thy ===== *)
theory DirectoryChain
  imports AclTypes
begin

text \<open>
  The time-travel chain of directory states (\<^verbatim>\<open>core/accesscontrol/DirectoryStateNode.ts\<close>).
  A node is a record; the \<^verbatim>\<open>prev\<close> pointers make the chain a list of nodes with the head
  first and the genesis node last. The bound \<^verbatim>\<open>Number.NEGATIVE_INFINITY\<close> of the genesis
  node is \<open>None\<close>. The builder is the record of the class's fields, the delta log included.
\<close>

section \<open>Nodes\<close>

record user_grant_snapshot =
  grant_usernameHash :: string
  grant_signingKeys :: "string list"
  grant_encryptionKeys :: "string list"
  grant_wipeRequestedSigningKeys :: "string list"
  grant_active :: bool

record group_snapshot =
  group_name :: string
  group_memberHashes :: "string list"

record directory_state_node =
  trustedTimeUpperBound :: "int option"
  defaultPolicy :: "access_policy option"
  dbPolicies :: "(string, access_policy) jsmap"
  rulesByType :: "(rule_type, acl_rule list) jsmap"
  groupsByName :: "(string, group_snapshot) jsmap"
  usersByHash :: "(string, user_grant_snapshot) jsmap"
  bySigningKey :: "(string, user_grant_snapshot) jsmap"
  trustedWitnessKeys :: "(string, trusted_witness) jsmap"

definition createGenesisNode :: directory_state_node where
  "createGenesisNode =
     \<lparr> trustedTimeUpperBound = None, defaultPolicy = None, dbPolicies = [], rulesByType = [],
       groupsByName = [], usersByHash = [], bySigningKey = [], trustedWitnessKeys = [] \<rparr>"

text \<open>\<^verbatim>\<open>node.trustedTimeUpperBound > T\<close>\<close>

definition bound_after :: "directory_state_node \<Rightarrow> int \<Rightarrow> bool" where
  "bound_after node T = (case trustedTimeUpperBound node of None \<Rightarrow> False | Some b \<Rightarrow> b > T)"

fun nodeCovering :: "directory_state_node list \<Rightarrow> int \<Rightarrow> directory_state_node" where
  "nodeCovering [] T = createGenesisNode"
| "nodeCovering (node # prevs) T = (if bound_after node T then nodeCovering prevs T else node)"

definition signingKeysEqual :: "string \<Rightarrow> string \<Rightarrow> bool" where
  "signingKeysEqual a b =
     (if a = b then True
      else let left = filter (\<lambda>c. \<not> js_space c) a; right = filter (\<lambda>c. \<not> js_space c) b
           in left \<noteq> [] \<and> left = right)"

definition grantForSigningKey :: "directory_state_node \<Rightarrow> string \<Rightarrow> user_grant_snapshot option" where
  "grantForSigningKey node signingKey =
     (case map_of (bySigningKey node) signingKey of
        Some g \<Rightarrow> Some g
      | None \<Rightarrow> map_option snd (find (\<lambda>(key, g). signingKeysEqual key signingKey) (bySigningKey node)))"

fun grantAtOrBefore :: "directory_state_node list \<Rightarrow> string \<Rightarrow> user_grant_snapshot option" where
  "grantAtOrBefore [] signingKey = None"
| "grantAtOrBefore (node # prevs) signingKey =
     (case grantForSigningKey node signingKey of
        Some g \<Rightarrow> Some g | None \<Rightarrow> grantAtOrBefore prevs signingKey)"

text \<open>The creator is looked up along the creator node's chain, the signer at its node only.\<close>

definition isSamePerson ::
  "directory_state_node list \<Rightarrow> directory_state_node \<Rightarrow> string \<Rightarrow> string \<Rightarrow> bool" where
  "isSamePerson creatorChain signerNode creatorSigningKey signerSigningKey =
     (case (grantAtOrBefore creatorChain creatorSigningKey, grantForSigningKey signerNode signerSigningKey) of
        (Some c, Some s) \<Rightarrow> grant_usernameHash c = grant_usernameHash s
      | (_, Some s) \<Rightarrow> False
      | (Some c, None) \<Rightarrow> False
      | (None, None) \<Rightarrow> creatorSigningKey = signerSigningKey)"

definition buildBySigningKey ::
  "(string, user_grant_snapshot) jsmap \<Rightarrow> (string, user_grant_snapshot) jsmap" where
  "buildBySigningKey users =
     foldl (\<lambda>m g. if \<not> grant_active g then m
                  else foldl (\<lambda>m key. AList.update key g m) m (grant_signingKeys g))
       [] (map_values users)"

section \<open>The builder\<close>

datatype directory_revision_delta =
    DDefaultPolicy int access_policy
  | DDbPolicy int string access_policy
  | DRule int acl_rule
  | DRemoveRule int string rule_type
  | DTrustedWitness int trusted_witness
  | DRemoveTrustedWitness int string
  | DGrant int user_grant_snapshot
  | DGrantDoc int string user_grant_snapshot
  | DRemoveGrantDoc int string
  | DRevokeBySigningKey int string
  | DGroupDoc int string string "string list"
  | DRemoveGroupDoc int string
  | DSetGroups int "group_snapshot list"

record chain_builder =
  b_head :: directory_state_node
  b_prevs :: "directory_state_node list"
  deltaLog :: "directory_revision_delta list"
  groupContributions :: "(string, string \<times> string list) jsmap"
  grantContributions :: "(string, user_grant_snapshot) jsmap"

definition reset_builder :: chain_builder where
  "reset_builder = \<lparr> b_head = createGenesisNode, b_prevs = [], deltaLog = [],
                     groupContributions = [], grantContributions = [] \<rparr>"

definition getStateAt :: "chain_builder \<Rightarrow> int \<Rightarrow> directory_state_node" where
  "getStateAt b T = nodeCovering (b_head b # b_prevs b) T"

definition log_delta :: "directory_revision_delta \<Rightarrow> chain_builder \<Rightarrow> chain_builder" where
  "log_delta d b = b\<lparr> deltaLog := deltaLog b @ [d] \<rparr>"

definition push_node ::
  "int \<Rightarrow> (directory_state_node \<Rightarrow> directory_state_node) \<Rightarrow> chain_builder \<Rightarrow> chain_builder" where
  "push_node trustedTime mutate b =
     (let bound = (case trustedTimeUpperBound (b_head b) of
                     None \<Rightarrow> trustedTime | Some h \<Rightarrow> max trustedTime h);
          next = mutate ((b_head b)\<lparr> trustedTimeUpperBound := Some bound \<rparr>)
      in b\<lparr> b_head := next, b_prevs := b_head b # b_prevs b \<rparr>)"

definition applyDefaultPolicy :: "access_policy \<Rightarrow> int \<Rightarrow> chain_builder \<Rightarrow> chain_builder" where
  "applyDefaultPolicy policy t b =
     push_node t (\<lambda>n. n\<lparr> defaultPolicy := Some policy \<rparr>) (log_delta (DDefaultPolicy t policy) b)"

definition applyDbPolicy :: "string \<Rightarrow> access_policy \<Rightarrow> int \<Rightarrow> chain_builder \<Rightarrow> chain_builder" where
  "applyDbPolicy dbid policy t b =
     push_node t (\<lambda>n. n\<lparr> dbPolicies := AList.update dbid policy (dbPolicies n) \<rparr>)
       (log_delta (DDbPolicy t dbid policy) b)"

text \<open>\<^verbatim>\<open>rulesByType.get(type) ?? []\<close>\<close>

definition rules_for :: "directory_state_node \<Rightarrow> rule_type \<Rightarrow> acl_rule list" where
  "rules_for node ty = (case map_of (rulesByType node) ty of None \<Rightarrow> [] | Some rs \<Rightarrow> rs)"

definition applyRule :: "acl_rule \<Rightarrow> int \<Rightarrow> chain_builder \<Rightarrow> chain_builder" where
  "applyRule rule t b =
     push_node t
       (\<lambda>n. n\<lparr> rulesByType := AList.update (rule_type_of rule)
                 (filter (\<lambda>r. ruleId r \<noteq> ruleId rule) (rules_for n (rule_type_of rule)) @ [rule])
                 (rulesByType n) \<rparr>)
       (log_delta (DRule t rule) b)"

definition removeRule :: "string \<Rightarrow> rule_type \<Rightarrow> int \<Rightarrow> chain_builder \<Rightarrow> chain_builder" where
  "removeRule rid ty t b =
     push_node t
       (\<lambda>n. n\<lparr> rulesByType := AList.update ty (filter (\<lambda>r. ruleId r \<noteq> rid) (rules_for n ty)) (rulesByType n) \<rparr>)
       (log_delta (DRemoveRule t rid ty) b)"

definition applyTrustedWitness :: "trusted_witness \<Rightarrow> int \<Rightarrow> chain_builder \<Rightarrow> chain_builder" where
  "applyTrustedWitness w t b =
     push_node t (\<lambda>n. n\<lparr> trustedWitnessKeys := AList.update (witnessPublicKey w) w (trustedWitnessKeys n) \<rparr>)
       (log_delta (DTrustedWitness t w) b)"

definition removeTrustedWitness :: "string \<Rightarrow> int \<Rightarrow> chain_builder \<Rightarrow> chain_builder" where
  "removeTrustedWitness key t b =
     push_node t (\<lambda>n. n\<lparr> trustedWitnessKeys := AList.delete key (trustedWitnessKeys n) \<rparr>)
       (log_delta (DRemoveTrustedWitness t key) b)"

text \<open>
  The union over the grant documents of one user: signing keys in the order they are first
  seen, each with the encryption key at the same index of that document, and the wipe requests.
\<close>

definition add_device_keys :: "user_grant_snapshot \<Rightarrow> (string, string) jsmap \<Rightarrow> (string, string) jsmap" where
  "add_device_keys c enc =
     foldl (\<lambda>m (i, key). if map_has m key then m
              else AList.update key (if i < length (grant_encryptionKeys c)
                                     then grant_encryptionKeys c ! i else '''') m)
       enc (zip [0..<length (grant_signingKeys c)] (grant_signingKeys c))"

definition user_contributions ::
  "(string, user_grant_snapshot) jsmap \<Rightarrow> string \<Rightarrow> user_grant_snapshot list" where
  "user_contributions contributions h =
     filter (\<lambda>c. grant_usernameHash c = h) (map_values contributions)"

definition merged_grant :: "user_grant_snapshot list \<Rightarrow> string \<Rightarrow> user_grant_snapshot" where
  "merged_grant cs h =
     (let enc = foldl (\<lambda>m c. add_device_keys c m) [] cs;
          wipe = foldl (\<lambda>w c. fold set_add (grant_wipeRequestedSigningKeys c) w) [] cs;
          signing = map_keys enc
      in \<lparr> grant_usernameHash = h, grant_signingKeys = signing,
           grant_encryptionKeys = map (\<lambda>k. case map_of enc k of None \<Rightarrow> '''' | Some e \<Rightarrow> e) signing,
           grant_wipeRequestedSigningKeys = wipe, grant_active = (signing \<noteq> []) \<rparr>)"

definition recomputeUser :: "string \<Rightarrow> int \<Rightarrow> chain_builder \<Rightarrow> chain_builder" where
  "recomputeUser h t b =
     (let cs = user_contributions (grantContributions b) h
      in push_node t
           (\<lambda>n. let users = (if cs \<noteq> [] then AList.update h (merged_grant cs h) (usersByHash n)
                             else AList.delete h (usersByHash n))
                in n\<lparr> usersByHash := users, bySigningKey := buildBySigningKey users \<rparr>) b)"

definition applyGrantDoc :: "string \<Rightarrow> user_grant_snapshot \<Rightarrow> int \<Rightarrow> chain_builder \<Rightarrow> chain_builder" where
  "applyGrantDoc d grant t b =
     (let previous = map_of (grantContributions b) d;
          b1 = log_delta (DGrantDoc t d grant) b;
          b2 = b1\<lparr> grantContributions := AList.update d grant (grantContributions b1) \<rparr>;
          b3 = (case previous of
                  None \<Rightarrow> b2
                | Some p \<Rightarrow> if grant_usernameHash p \<noteq> grant_usernameHash grant
                            then recomputeUser (grant_usernameHash p) t b2 else b2)
      in recomputeUser (grant_usernameHash grant) t b3)"

definition applyGrant :: "user_grant_snapshot \<Rightarrow> int \<Rightarrow> chain_builder \<Rightarrow> chain_builder" where
  "applyGrant grant t b = applyGrantDoc (''grant:'' @ grant_usernameHash grant) grant t b"

definition removeGrantDoc :: "string \<Rightarrow> int \<Rightarrow> chain_builder \<Rightarrow> chain_builder" where
  "removeGrantDoc d t b =
     (case map_of (grantContributions b) d of
        None \<Rightarrow> b
      | Some existing \<Rightarrow>
          let b1 = log_delta (DRemoveGrantDoc t d) b
          in recomputeUser (grant_usernameHash existing) t
               (b1\<lparr> grantContributions := AList.delete d (grantContributions b1) \<rparr>))"

definition revokeBySigningKey :: "string \<Rightarrow> int \<Rightarrow> chain_builder \<Rightarrow> chain_builder" where
  "revokeBySigningKey key t b =
     (case grantForSigningKey (b_head b) key of
        None \<Rightarrow> b
      | Some grant \<Rightarrow>
          push_node t
            (\<lambda>n. let users = AList.update (grant_usernameHash grant) (grant\<lparr> grant_active := False \<rparr>) (usersByHash n)
                 in n\<lparr> usersByHash := users, bySigningKey := buildBySigningKey users \<rparr>)
            (log_delta (DRevokeBySigningKey t key) b))"

definition group_members :: "(string, string \<times> string list) jsmap \<Rightarrow> string \<Rightarrow> string list" where
  "group_members contributions name =
     js_dedup (concat (map snd (filter (\<lambda>(n, hs). n = name) (map_values contributions))))"

definition recomputeGroup :: "string \<Rightarrow> int \<Rightarrow> chain_builder \<Rightarrow> chain_builder" where
  "recomputeGroup name t b =
     (let hasContribution = list_ex (\<lambda>(n, hs). n = name) (map_values (groupContributions b));
          members = group_members (groupContributions b) name
      in push_node t
           (\<lambda>n. n\<lparr> groupsByName :=
                     (if hasContribution
                      then AList.update name \<lparr> group_name = name, group_memberHashes = members \<rparr> (groupsByName n)
                      else AList.delete name (groupsByName n)) \<rparr>) b)"

definition applyGroupDoc :: "string \<Rightarrow> string \<Rightarrow> string list \<Rightarrow> int \<Rightarrow> chain_builder \<Rightarrow> chain_builder" where
  "applyGroupDoc d name members t b =
     (let b1 = log_delta (DGroupDoc t d name members) b
      in recomputeGroup name t
           (b1\<lparr> groupContributions := AList.update d (name, members) (groupContributions b1) \<rparr>))"

definition removeGroupDoc :: "string \<Rightarrow> int \<Rightarrow> chain_builder \<Rightarrow> chain_builder" where
  "removeGroupDoc d t b =
     (case map_of (groupContributions b) d of
        None \<Rightarrow> b
      | Some (name, members) \<Rightarrow>
          let b1 = log_delta (DRemoveGroupDoc t d) b
          in recomputeGroup name t
               (b1\<lparr> groupContributions := AList.delete d (groupContributions b1) \<rparr>))"

definition setGroups :: "(string, group_snapshot) jsmap \<Rightarrow> int \<Rightarrow> chain_builder \<Rightarrow> chain_builder" where
  "setGroups groups t b =
     push_node t (\<lambda>n. n\<lparr> groupsByName := groups \<rparr>) (log_delta (DSetGroups t (map_values groups)) b)"

text \<open>One case of the switch in \<^verbatim>\<open>importDeltaLog\<close>.\<close>

definition groups_by_name :: "group_snapshot list \<Rightarrow> (string, group_snapshot) jsmap" where
  "groups_by_name gs = foldl (\<lambda>m g. AList.update (group_name g) g m) [] gs"

fun apply_delta :: "chain_builder \<Rightarrow> directory_revision_delta \<Rightarrow> chain_builder" where
  "apply_delta b (DDefaultPolicy t p) = applyDefaultPolicy p t b"
| "apply_delta b (DDbPolicy t d p) = applyDbPolicy d p t b"
| "apply_delta b (DRule t r) = applyRule r t b"
| "apply_delta b (DRemoveRule t i ty) = removeRule i ty t b"
| "apply_delta b (DTrustedWitness t w) = applyTrustedWitness w t b"
| "apply_delta b (DRemoveTrustedWitness t k) = removeTrustedWitness k t b"
| "apply_delta b (DGrant t g) = applyGrant g t b"
| "apply_delta b (DGrantDoc t d g) = applyGrantDoc d g t b"
| "apply_delta b (DRemoveGrantDoc t d) = removeGrantDoc d t b"
| "apply_delta b (DRevokeBySigningKey t k) = revokeBySigningKey k t b"
| "apply_delta b (DGroupDoc t d n ms) = applyGroupDoc d n ms t b"
| "apply_delta b (DRemoveGroupDoc t d) = removeGroupDoc d t b"
| "apply_delta b (DSetGroups t gs) = setGroups (groups_by_name gs) t b"

definition importDeltaLog :: "directory_revision_delta list \<Rightarrow> chain_builder" where
  "importDeltaLog deltas = foldl apply_delta reset_builder deltas"

section \<open>The delta log\<close>

text \<open>
  States of a builder that sequences of its public methods produce. A map of groups is keyed
  by the group names.
\<close>

definition groups_keyed :: "(string, group_snapshot) jsmap \<Rightarrow> bool" where
  "groups_keyed groups \<longleftrightarrow> distinct (map_keys groups) \<and> (\<forall>(k, g) \<in> set groups. group_name g = k)"

inductive builder_reachable :: "chain_builder \<Rightarrow> bool" where
  br_reset: "builder_reachable reset_builder"
| br_defaultPolicy: "builder_reachable b \<Longrightarrow> builder_reachable (applyDefaultPolicy p t b)"
| br_dbPolicy: "builder_reachable b \<Longrightarrow> builder_reachable (applyDbPolicy d p t b)"
| br_rule: "builder_reachable b \<Longrightarrow> builder_reachable (applyRule r t b)"
| br_removeRule: "builder_reachable b \<Longrightarrow> builder_reachable (removeRule i ty t b)"
| br_witness: "builder_reachable b \<Longrightarrow> builder_reachable (applyTrustedWitness w t b)"
| br_removeWitness: "builder_reachable b \<Longrightarrow> builder_reachable (removeTrustedWitness k t b)"
| br_grant: "builder_reachable b \<Longrightarrow> builder_reachable (applyGrant g t b)"
| br_grantDoc: "builder_reachable b \<Longrightarrow> builder_reachable (applyGrantDoc d g t b)"
| br_removeGrantDoc: "builder_reachable b \<Longrightarrow> builder_reachable (removeGrantDoc d t b)"
| br_revoke: "builder_reachable b \<Longrightarrow> builder_reachable (revokeBySigningKey k t b)"
| br_groupDoc: "builder_reachable b \<Longrightarrow> builder_reachable (applyGroupDoc d n ms t b)"
| br_removeGroupDoc: "builder_reachable b \<Longrightarrow> builder_reachable (removeGroupDoc d t b)"
| br_setGroups: "builder_reachable b \<Longrightarrow> groups_keyed gs \<Longrightarrow> builder_reachable (setGroups gs t b)"
| br_import: "builder_reachable (importDeltaLog ds)"

lemma push_node_frame [simp]:
  "deltaLog (push_node t f b) = deltaLog b"
  "groupContributions (push_node t f b) = groupContributions b"
  "grantContributions (push_node t f b) = grantContributions b"
  by (simp_all add: push_node_def Let_def)

lemma log_delta_sel [simp]:
  "deltaLog (log_delta d b) = deltaLog b @ [d]"
  "b_head (log_delta d b) = b_head b" "b_prevs (log_delta d b) = b_prevs b"
  "groupContributions (log_delta d b) = groupContributions b"
  "grantContributions (log_delta d b) = grantContributions b"
  by (simp_all add: log_delta_def)

lemma recompute_log [simp]:
  "deltaLog (recomputeUser h t b) = deltaLog b"
  "deltaLog (recomputeGroup n t b) = deltaLog b"
  by (simp_all add: recomputeUser_def recomputeGroup_def Let_def)

text \<open>
  The effect of a method on the log: nothing happened, or one delta was appended that replays
  to the same state.
\<close>

definition logged :: "chain_builder \<Rightarrow> chain_builder \<Rightarrow> bool" where
  "logged b b' \<longleftrightarrow> b' = b \<or> (\<exists>d. deltaLog b' = deltaLog b @ [d] \<and> apply_delta b d = b')"

lemma loggedI: "deltaLog b' = deltaLog b @ [d] \<Longrightarrow> apply_delta b d = b' \<Longrightarrow> logged b b'"
  by (auto simp: logged_def)

lemma groups_by_name_values:
  assumes "groups_keyed gs"
  shows "groups_by_name (map_values gs) = gs"
proof -
  have "foldl (\<lambda>m g. AList.update (group_name g) g m) m0 (map_values gs) = m0 @ gs"
    if "groups_keyed gs" "set (map_keys m0) \<inter> set (map_keys gs) = {}" for m0 gs
    using that
  proof (induction gs arbitrary: m0)
    case (Cons x gs)
    then have "AList.update (group_name (snd x)) (snd x) m0 = m0 @ [x]"
      by (cases x) (auto simp: groups_keyed_def update_fresh)
    then show ?case using Cons by (cases x) (auto simp: groups_keyed_def)
  qed simp
  from this [of gs "[]"] assms show ?thesis by (simp add: groups_by_name_def)
qed

lemma grantDoc_logged: "logged b (applyGrantDoc d g t b)"
  by (rule loggedI [where d = "DGrantDoc t d g"])
    (auto simp: applyGrantDoc_def Let_def split: option.splits)

lemma logged_methods:
  "logged b (applyDefaultPolicy p t b)" "logged b (applyDbPolicy dbid p t b)" "logged b (applyRule r t b)"
  "logged b (removeRule i ty t b)" "logged b (applyTrustedWitness w t b)"
  "logged b (removeTrustedWitness k t b)" "logged b (applyGrant g t b)" "logged b (removeGrantDoc d t b)"
  "logged b (revokeBySigningKey k t b)" "logged b (applyGroupDoc d n ms t b)" "logged b (removeGroupDoc d t b)"
  "groups_keyed gs \<Longrightarrow> logged b (setGroups gs t b)"
proof -
  show "logged b (applyDefaultPolicy p t b)"
    by (rule loggedI [where d = "DDefaultPolicy t p"]) (simp_all add: applyDefaultPolicy_def)
  show "logged b (applyDbPolicy dbid p t b)"
    by (rule loggedI [where d = "DDbPolicy t dbid p"]) (simp_all add: applyDbPolicy_def)
  show "logged b (applyRule r t b)"
    by (rule loggedI [where d = "DRule t r"]) (simp_all add: applyRule_def)
  show "logged b (removeRule i ty t b)"
    by (rule loggedI [where d = "DRemoveRule t i ty"]) (simp_all add: removeRule_def)
  show "logged b (applyTrustedWitness w t b)"
    by (rule loggedI [where d = "DTrustedWitness t w"]) (simp_all add: applyTrustedWitness_def)
  show "logged b (removeTrustedWitness k t b)"
    by (rule loggedI [where d = "DRemoveTrustedWitness t k"]) (simp_all add: removeTrustedWitness_def)
  show "logged b (applyGrant g t b)" unfolding applyGrant_def by (rule grantDoc_logged)
  show "logged b (removeGrantDoc d t b)"
    by (cases "map_of (grantContributions b) d") (auto simp: logged_def removeGrantDoc_def Let_def)
  show "logged b (revokeBySigningKey k t b)"
    by (cases "grantForSigningKey (b_head b) k") (auto simp: logged_def revokeBySigningKey_def Let_def)
  show "logged b (applyGroupDoc d n ms t b)"
    by (rule loggedI [where d = "DGroupDoc t d n ms"]) (simp_all add: applyGroupDoc_def Let_def)
  show "logged b (removeGroupDoc d t b)"
    by (cases "map_of (groupContributions b) d") (auto simp: logged_def removeGroupDoc_def Let_def)
  show "logged b (setGroups gs t b)" if "groups_keyed gs"
    by (rule loggedI [where d = "DSetGroups t (map_values gs)"])
      (simp_all add: setGroups_def groups_by_name_values [OF that])
qed

lemma import_log_step:
  assumes "importDeltaLog (deltaLog b) = b" and "logged b b'"
  shows "importDeltaLog (deltaLog b') = b'"
  using assms by (auto simp: logged_def importDeltaLog_def)

lemma groups_keyed_by_name: "groups_keyed (groups_by_name gs)"
proof -
  have "groups_keyed m0 \<Longrightarrow> groups_keyed (foldl (\<lambda>m g. AList.update (group_name g) g m) m0 gs)" for m0
  proof (induction gs arbitrary: m0)
    case (Cons g gs)
    have "groups_keyed (AList.update (group_name g) g m0)"
      using Cons.prems set_update_subset [of "group_name g" g m0] by (auto simp: groups_keyed_def)
    then show ?case using Cons.IH by simp
  qed simp
  from this [of "[]"] show ?thesis by (simp add: groups_by_name_def groups_keyed_def)
qed

lemma apply_delta_logged: "logged b (apply_delta b d)"
  by (cases d) (simp_all add: logged_methods grantDoc_logged groups_keyed_by_name)

text \<open>
  The exported delta log is a complete representation of the chain: importing the log of
  any builder that its methods can produce rebuilds exactly the same builder, every historic
  node and both contribution maps included.
\<close>

theorem delta_log_roundtrip:
  assumes "builder_reachable b"
  shows "importDeltaLog (deltaLog b) = b"
  using assms
proof (induction rule: builder_reachable.induct)
  case br_reset
  then show ?case by (simp add: importDeltaLog_def reset_builder_def)
next
  case (br_import ds)
  have "importDeltaLog (deltaLog (foldl apply_delta b ds)) = foldl apply_delta b ds"
    if "importDeltaLog (deltaLog b) = b" for b
    using that by (induction ds arbitrary: b) (simp_all add: import_log_step [OF _ apply_delta_logged])
  from this [of reset_builder] show ?case by (simp add: importDeltaLog_def reset_builder_def)
qed (blast intro: import_log_step logged_methods grantDoc_logged)+

definition demo_grant :: "string \<Rightarrow> string list \<Rightarrow> user_grant_snapshot" where
  "demo_grant h keys = \<lparr> grant_usernameHash = h, grant_signingKeys = keys, grant_encryptionKeys = [],
     grant_wipeRequestedSigningKeys = [], grant_active = True \<rparr>"

theorem delta_log_roundtrip_witness:
  "importDeltaLog (deltaLog (removeGroupDoc ''g1'' 6 (applyGroupDoc ''g1'' ''staff'' [''h''] 5
      (applyGrantDoc ''d1'' (demo_grant ''h'' [''k1'']) 4 reset_builder)))) =
   removeGroupDoc ''g1'' 6 (applyGroupDoc ''g1'' ''staff'' [''h''] 5
      (applyGrantDoc ''d1'' (demo_grant ''h'' [''k1'']) 4 reset_builder))"
  by (intro delta_log_roundtrip builder_reachable.intros)

section \<open>Time travel\<close>

fun delta_time :: "directory_revision_delta \<Rightarrow> int" where
  "delta_time (DDefaultPolicy t _) = t"
| "delta_time (DDbPolicy t _ _) = t"
| "delta_time (DRule t _) = t"
| "delta_time (DRemoveRule t _ _) = t"
| "delta_time (DTrustedWitness t _) = t"
| "delta_time (DRemoveTrustedWitness t _) = t"
| "delta_time (DGrant t _) = t"
| "delta_time (DGrantDoc t _ _) = t"
| "delta_time (DRemoveGrantDoc t _) = t"
| "delta_time (DRevokeBySigningKey t _) = t"
| "delta_time (DGroupDoc t _ _ _) = t"
| "delta_time (DRemoveGroupDoc t _) = t"
| "delta_time (DSetGroups t _) = t"

abbreviation chain_of :: "chain_builder \<Rightarrow> directory_state_node list" where
  "chain_of b \<equiv> b_head b # b_prevs b"

definition next_bound :: "int \<Rightarrow> int option \<Rightarrow> int" where
  "next_bound t h = (case h of None \<Rightarrow> t | Some x \<Rightarrow> max t x)"

text \<open>A method with trusted time \<open>t\<close> only puts nodes with the new bound in front of the chain.\<close>

definition extends :: "int \<Rightarrow> chain_builder \<Rightarrow> chain_builder \<Rightarrow> bool" where
  "extends t b b' \<longleftrightarrow>
     (\<exists>new. chain_of b' = new @ chain_of b \<and>
        (\<forall>n \<in> set new. trustedTimeUpperBound n = Some (next_bound t (trustedTimeUpperBound (b_head b)))))"

lemma extends_refl: "extends t b b"
  by (auto simp: extends_def intro: exI [of _ "[]"])

lemma extends_frame [simp]:
  "extends t (log_delta d b) b' = extends t b b'"
  "extends t (b\<lparr> grantContributions := x \<rparr>) b' = extends t b b'"
  "extends t (b\<lparr> groupContributions := y \<rparr>) b' = extends t b b'"
  by (simp_all add: extends_def)

lemma extends_head:
  assumes "extends t b b'"
  shows "b_head b' = b_head b \<or>
         trustedTimeUpperBound (b_head b') = Some (next_bound t (trustedTimeUpperBound (b_head b)))"
proof -
  obtain new where new: "chain_of b' = new @ chain_of b"
    "\<forall>n \<in> set new. trustedTimeUpperBound n = Some (next_bound t (trustedTimeUpperBound (b_head b)))"
    using assms by (auto simp: extends_def)
  show ?thesis
  proof (cases new)
    case Nil
    then show ?thesis using new(1) by simp
  next
    case (Cons n ns)
    then have "b_head b' = n" using new(1) by simp
    then show ?thesis using new(2) Cons list.set_intros(1) by metis
  qed
qed

lemma next_bound_idem: "next_bound t (Some (next_bound t h)) = next_bound t h"
  by (simp add: next_bound_def split: option.splits)

lemma extends_trans:
  assumes "extends t b b1" and "extends t b1 b2"
  shows "extends t b b2"
proof -
  obtain new1 where n1: "chain_of b1 = new1 @ chain_of b"
    "\<forall>n \<in> set new1. trustedTimeUpperBound n = Some (next_bound t (trustedTimeUpperBound (b_head b)))"
    using assms(1) by (auto simp: extends_def)
  obtain new2 where n2: "chain_of b2 = new2 @ chain_of b1"
    "\<forall>n \<in> set new2. trustedTimeUpperBound n = Some (next_bound t (trustedTimeUpperBound (b_head b1)))"
    using assms(2) by (auto simp: extends_def)
  have "next_bound t (trustedTimeUpperBound (b_head b1)) = next_bound t (trustedTimeUpperBound (b_head b))"
    using extends_head [OF assms(1)] next_bound_idem by metis
  then have "chain_of b2 = (new2 @ new1) @ chain_of b \<and> (\<forall>n \<in> set (new2 @ new1).
      trustedTimeUpperBound n = Some (next_bound t (trustedTimeUpperBound (b_head b))))"
    using n1 n2 by auto
  then show ?thesis unfolding extends_def by blast
qed

lemma push_extends:
  assumes "\<And>n. trustedTimeUpperBound (f n) = trustedTimeUpperBound n"
  shows "extends t b (push_node t f b)"
  unfolding extends_def
  by (rule exI [of _ "[b_head (push_node t f b)]"])
    (simp add: push_node_def Let_def assms next_bound_def split: option.splits)

lemma recompute_extends: "extends t b (recomputeUser h t b)" "extends t b (recomputeGroup n t b)"
  unfolding recomputeUser_def recomputeGroup_def Let_def by (rule push_extends, simp)+

lemma grantDoc_extends: "extends t b (applyGrantDoc d g t b)"
proof -
  let ?b2 = "(log_delta (DGrantDoc t d g) b)\<lparr> grantContributions := AList.update d g (grantContributions b) \<rparr>"
  have "extends t ?b2 (recomputeUser h t ?b2)" for h by (rule recompute_extends)
  moreover have "extends t ?b2 (recomputeUser h' t (recomputeUser h t ?b2))" for h h'
    by (rule extends_trans [OF recompute_extends(1) recompute_extends(1)])
  ultimately show ?thesis by (simp add: applyGrantDoc_def Let_def split: option.splits)
qed

lemma remove_extends:
  "extends t b (removeGrantDoc d t b)" "extends t b (removeGroupDoc d t b)" "extends t b (applyGroupDoc d n ms t b)"
proof -
  have u: "extends t b (recomputeUser h t (b'\<lparr> grantContributions := x \<rparr>))"
    and g: "extends t b (recomputeGroup h t (b'\<lparr> groupContributions := y \<rparr>))"
    if "b' = log_delta e b" for b' h x y e
    using recompute_extends(1) [of t "b'\<lparr> grantContributions := x \<rparr>" h]
      recompute_extends(2) [of t "b'\<lparr> groupContributions := y \<rparr>" h] that by simp_all
  show "extends t b (removeGrantDoc d t b)" "extends t b (removeGroupDoc d t b)"
    "extends t b (applyGroupDoc d n ms t b)"
    using u [OF refl] g [OF refl]
    by (auto simp: removeGrantDoc_def removeGroupDoc_def applyGroupDoc_def Let_def extends_refl
        split: option.splits)
qed

lemma push_log_extends:
  "(\<And>n. trustedTimeUpperBound (f n) = trustedTimeUpperBound n) \<Longrightarrow>
   extends t b (push_node t f (log_delta e b))"
  using push_extends [of f t "log_delta e b"] by simp

lemma revoke_extends: "extends t b (revokeBySigningKey k t b)"
  by (cases "grantForSigningKey (b_head b) k")
    (simp_all add: revokeBySigningKey_def Let_def extends_refl push_log_extends)

lemma apply_delta_extends: "extends (delta_time d) b (apply_delta b d)"
  by (cases d)
    (simp_all add: applyDefaultPolicy_def applyDbPolicy_def applyRule_def removeRule_def
      applyTrustedWitness_def removeTrustedWitness_def applyGrant_def setGroups_def grantDoc_extends
      remove_extends revoke_extends push_log_extends)

lemma nodeCovering_skip: "\<forall>n \<in> set new. bound_after n T \<Longrightarrow> nodeCovering (new @ ns) T = nodeCovering ns T"
  by (induction new) auto

lemma covering_later:
  "\<forall>d \<in> set ds. T < delta_time d \<Longrightarrow> getStateAt (foldl apply_delta b ds) T = getStateAt b T"
proof (induction ds arbitrary: b)
  case (Cons d ds)
  obtain new where new: "chain_of (apply_delta b d) = new @ chain_of b"
    "\<forall>n \<in> set new. trustedTimeUpperBound n = Some (next_bound (delta_time d) (trustedTimeUpperBound (b_head b)))"
    using apply_delta_extends [of d b] by (auto simp: extends_def)
  have "T < next_bound (delta_time d) h" for h
    using Cons.prems by (auto simp: next_bound_def less_max_iff_disj split: option.splits)
  then have "\<forall>n \<in> set new. bound_after n T" using new(2) by (simp add: bound_after_def)
  with new(1) have "getStateAt (apply_delta b d) T = getStateAt b T"
    using nodeCovering_skip [of new T "chain_of b"] by (simp only: getStateAt_def)
  then show ?case using Cons by simp
qed simp

lemma bound_earlier:
  "\<forall>d \<in> set ds. delta_time d \<le> T \<Longrightarrow> \<not> bound_after (b_head b) T \<Longrightarrow>
   \<not> bound_after (b_head (foldl apply_delta b ds)) T"
proof (induction ds arbitrary: b)
  case (Cons d ds)
  have "\<not> bound_after (b_head (apply_delta b d)) T"
    using extends_head [OF apply_delta_extends, of b d] Cons.prems
    by (cases "trustedTimeUpperBound (b_head b)") (auto simp: bound_after_def next_bound_def)
  then show ?case using Cons by simp
qed simp

lemma filter_sorted_split:
  fixes f :: "'a \<Rightarrow> int"
  assumes "sorted (map f xs)"
  shows "xs = filter (\<lambda>x. f x \<le> T) xs @ filter (\<lambda>x. T < f x) xs"
  using assms
proof (induction xs)
  case (Cons x xs)
  show ?case
  proof (cases "f x \<le> T")
    case False
    then have "\<forall>y \<in> set xs. T < f y" using Cons.prems by auto
    then have "filter (\<lambda>x. f x \<le> T) xs = []" "filter (\<lambda>x. T < f x) xs = xs"
      by (auto simp: filter_empty_conv filter_id_conv)
    then show ?thesis using False by simp
  qed (use Cons in simp)
qed simp

text \<open>
  C11. Time travel is exact: when the revisions were applied in trusted-time order, the state
  the chain gives for time \<open>T\<close> is the state that results from exactly the revisions up to
  \<open>T\<close>. Later revisions never change what was allowed earlier.
\<close>

theorem state_at_is_prefix_state:
  assumes "sorted (map delta_time lg)"
  shows "getStateAt (importDeltaLog lg) T = b_head (importDeltaLog (filter (\<lambda>d. delta_time d \<le> T) lg))"
proof -
  let ?early = "filter (\<lambda>d. delta_time d \<le> T) lg" and ?late = "filter (\<lambda>d. T < delta_time d) lg"
  have "importDeltaLog lg = foldl apply_delta (importDeltaLog ?early) ?late"
    using filter_sorted_split [OF assms, of T] unfolding importDeltaLog_def by (metis foldl_append)
  then have "getStateAt (importDeltaLog lg) T = getStateAt (importDeltaLog ?early) T"
    using covering_later [of ?late T "importDeltaLog ?early"] by simp
  moreover have "\<not> bound_after (b_head (importDeltaLog ?early)) T"
    unfolding importDeltaLog_def
    by (rule bound_earlier) (auto simp: reset_builder_def createGenesisNode_def bound_after_def)
  ultimately show ?thesis by (simp add: getStateAt_def)
qed

definition demo_policy :: access_policy where
  "demo_policy = \<lparr> disableAllAccessChecksAndPolicies = None, denyDocCreate = Some True, denyDocChange = None,
     denyDocDelete = None, denyDocUndelete = None, denyDocSnapshot = None, denyDocRead = None,
     defaultCreateKeyId = None, databaseCreationPolicy = None, allowedDbIds = None,
     requireMetadataSignatureSince = None \<rparr>"

theorem state_at_is_prefix_state_witness:
  "getStateAt (importDeltaLog [DGrantDoc 3 ''d'' (demo_grant ''h'' [''k'']), DDefaultPolicy 7 demo_policy]) 5 =
   b_head (importDeltaLog [DGrantDoc 3 ''d'' (demo_grant ''h'' [''k''])])"
  using state_at_is_prefix_state [of "[DGrantDoc 3 ''d'' (demo_grant ''h'' [''k'']), DDefaultPolicy 7 demo_policy]" 5]
  by simp

section \<open>Grants\<close>

lemma reachable_induct:
  assumes "P reset_builder" and "\<And>b d. P b \<Longrightarrow> P (apply_delta b d)" and "builder_reachable b"
  shows "P b"
proof -
  have step: "P b'" if "P b" "logged b b'" for b b'
    using that assms(2) by (auto simp: logged_def)
  have "P (foldl apply_delta b ds)" if "P b" for b ds
    using that assms(2) by (induction ds arbitrary: b) auto
  with assms(1) have "P (importDeltaLog ds)" for ds by (simp add: importDeltaLog_def)
  with assms(3) show ?thesis
    by (induction rule: builder_reachable.induct)
      (blast intro: assms(1) step logged_methods grantDoc_logged)+
qed

lemma map_of_set_keys:
  "map_of (foldl (\<lambda>m key. AList.update key g m) m ks) k = (if k \<in> set ks then Some g else map_of m k)"
  by (induction ks arbitrary: m) (auto simp: map_of_update)

text \<open>The index holds, for each key, the last active grant that lists it.\<close>

lemma buildBySigningKey_lookup:
  "map_of (buildBySigningKey users) k =
   find (\<lambda>g. grant_active g \<and> k \<in> set (grant_signingKeys g)) (rev (map_values users))"
proof -
  have "map_of (foldl (\<lambda>m g. if \<not> grant_active g then m
                  else foldl (\<lambda>m key. AList.update key g m) m (grant_signingKeys g)) [] gs) k =
        find (\<lambda>g. grant_active g \<and> k \<in> set (grant_signingKeys g)) (rev gs)" for gs
    by (induction gs rule: rev_induct) (simp_all add: map_of_set_keys)
  then show ?thesis unfolding buildBySigningKey_def .
qed

lemma buildBySigningKey_Some:
  assumes "map_of (buildBySigningKey users) k = Some g"
  shows "g \<in> set (map_values users) \<and> grant_active g \<and> k \<in> set (grant_signingKeys g)"
  using find_SomeD [OF assms [unfolded buildBySigningKey_lookup]] by simp

lemma buildBySigningKey_distinct: "distinct (map_keys (buildBySigningKey users))"
proof -
  have d: "distinct (map_keys (foldl (\<lambda>m key. AList.update key x m) m ks)) = distinct (map_keys m)"
    for x :: user_grant_snapshot and m and ks :: "string list" by (induction ks arbitrary: m) (auto simp: distinct_update)
  have "distinct (map_keys (foldl (\<lambda>m g. if \<not> grant_active g then m
                  else foldl (\<lambda>m key. AList.update key g m) m (grant_signingKeys g)) [] xs))" for xs :: "user_grant_snapshot list"
    by (induction xs rule: rev_induct) (simp_all add: d)
  then show ?thesis unfolding buildBySigningKey_def .
qed

definition keys_indexed :: "directory_state_node \<Rightarrow> bool" where
  "keys_indexed n \<longleftrightarrow> bySigningKey n = buildBySigningKey (usersByHash n)"

definition chain_indexed :: "chain_builder \<Rightarrow> bool" where
  "chain_indexed b \<longleftrightarrow> (\<forall>n \<in> set (chain_of b). keys_indexed n)"

lemma chain_indexed_frame [simp]:
  "chain_indexed (log_delta d b) = chain_indexed b"
  "chain_indexed (b\<lparr> grantContributions := x \<rparr>) = chain_indexed b"
  "chain_indexed (b\<lparr> groupContributions := y \<rparr>) = chain_indexed b"
  by (simp_all add: chain_indexed_def)

lemma push_indexed:
  assumes "chain_indexed b" and "\<And>n. keys_indexed n \<Longrightarrow> keys_indexed (f n)"
  shows "chain_indexed (push_node t f b)"
proof -
  have "keys_indexed (n\<lparr> trustedTimeUpperBound := x \<rparr>) = keys_indexed n" for n x
    by (simp add: keys_indexed_def)
  then show ?thesis using assms by (simp add: push_node_def Let_def chain_indexed_def)
qed

lemma keys_indexed_update [simp]:
  "keys_indexed (n\<lparr> defaultPolicy := p \<rparr>) = keys_indexed n"
  "keys_indexed (n\<lparr> dbPolicies := ps \<rparr>) = keys_indexed n"
  "keys_indexed (n\<lparr> rulesByType := rs \<rparr>) = keys_indexed n"
  "keys_indexed (n\<lparr> groupsByName := gs \<rparr>) = keys_indexed n"
  "keys_indexed (n\<lparr> trustedWitnessKeys := ws \<rparr>) = keys_indexed n"
  "keys_indexed (n\<lparr> usersByHash := us, bySigningKey := buildBySigningKey us \<rparr>)"
  by (simp_all add: keys_indexed_def)

lemma recompute_indexed:
  assumes "chain_indexed b"
  shows "chain_indexed (recomputeUser h t b)" "chain_indexed (recomputeGroup m t b)"
  unfolding recomputeUser_def recomputeGroup_def Let_def by (rule push_indexed [OF assms], simp)+

lemma apply_delta_indexed:
  assumes "chain_indexed b"
  shows "chain_indexed (apply_delta b d)"
proof -
  have grant: "chain_indexed (applyGrantDoc i g t b)" for i g t
    using assms by (cases "map_of (grantContributions b) i") (simp_all add: applyGrantDoc_def Let_def recompute_indexed)
  show ?thesis
    using assms
    by (cases d)
      (auto simp: applyDefaultPolicy_def applyDbPolicy_def applyRule_def removeRule_def
        applyTrustedWitness_def removeTrustedWitness_def applyGrant_def setGroups_def grant
        removeGrantDoc_def removeGroupDoc_def applyGroupDoc_def revokeBySigningKey_def Let_def
        intro!: push_indexed recompute_indexed split: option.splits)
qed

lemma chain_indexed_reset: "chain_indexed reset_builder"
  by (simp add: chain_indexed_def reset_builder_def createGenesisNode_def keys_indexed_def buildBySigningKey_def)

text \<open>
  C12. Only active grants are found by signing key: in every node of every reachable chain, the
  grant that a signing key resolves to is an active grant of that node, and the key equals,
  up to white space, one of the grant's signing keys. A revoked device or user resolves to
  nothing.
\<close>

theorem signing_key_grant_active:
  assumes "builder_reachable b" and "n \<in> set (chain_of b)" and "grantForSigningKey n key = Some g"
  shows "g \<in> set (map_values (usersByHash n)) \<and> grant_active g \<and>
         (\<exists>k \<in> set (grant_signingKeys g). signingKeysEqual k key)"
proof -
  have "\<forall>n \<in> set (chain_of b). keys_indexed n"
    unfolding chain_indexed_def [symmetric]
    by (rule reachable_induct [of chain_indexed, OF chain_indexed_reset apply_delta_indexed assms(1)])
  then have ix: "bySigningKey n = buildBySigningKey (usersByHash n)"
    using assms(2) by (auto simp: keys_indexed_def)
  have "\<exists>k. map_of (bySigningKey n) k = Some g \<and> signingKeysEqual k key"
  proof (cases "map_of (bySigningKey n) key")
    case None
    then obtain p where p: "find (\<lambda>(k, g). signingKeysEqual k key) (bySigningKey n) = Some p" "snd p = g"
      using assms(3) by (auto simp: grantForSigningKey_def)
    have "distinct (map_keys (bySigningKey n))" by (simp add: ix buildBySigningKey_distinct)
    with find_SomeD [OF p(1)] p(2) show ?thesis by (cases p) auto
  next
    case (Some g')
    then show ?thesis using assms(3) by (auto simp: grantForSigningKey_def signingKeysEqual_def)
  qed
  then show ?thesis using buildBySigningKey_Some ix by metis
qed

theorem signing_key_grant_active_witness:
  "\<exists>g. grantForSigningKey (b_head (applyGrantDoc ''d'' (demo_grant ''h'' [''k'']) 4 reset_builder)) ''k'' = Some g \<and>
       grant_active g"
proof -
  let ?b = "applyGrantDoc ''d'' (demo_grant ''h'' [''k'']) 4 reset_builder"
  obtain g where g: "grantForSigningKey (b_head ?b) ''k'' = Some g"
    by (simp add: applyGrantDoc_def reset_builder_def createGenesisNode_def recomputeUser_def push_node_def
        user_contributions_def merged_grant_def add_device_keys_def demo_grant_def buildBySigningKey_def
        grantForSigningKey_def log_delta_def map_has_def)
  have "builder_reachable ?b" by (intro builder_reachable.intros)
  with signing_key_grant_active [of ?b "b_head ?b" "''k''" g] g show ?thesis by simp
qed

lemma update_append_fresh:
  "k \<notin> fst ` set m \<Longrightarrow> AList.update k v (m @ [(k, w)]) = m @ [(k, v)]"
  by (induction m) auto

section \<open>The union of the grant documents of a user\<close>

definition expected_grant :: "(string, user_grant_snapshot) jsmap \<Rightarrow> string \<Rightarrow> user_grant_snapshot option" where
  "expected_grant contributions h =
     (let cs = user_contributions contributions h in if cs = [] then None else Some (merged_grant cs h))"

definition users_ok :: "chain_builder \<Rightarrow> bool" where
  "users_ok b \<longleftrightarrow> distinct (map_keys (grantContributions b)) \<and> distinct (map_keys (usersByHash (b_head b))) \<and>
     (\<forall>h. map_of (usersByHash (b_head b)) h = expected_grant (grantContributions b) h)"

text \<open>The same up to the users in \<open>H\<close>, whose entries are about to be recomputed.\<close>

definition users_ok_except :: "string set \<Rightarrow> chain_builder \<Rightarrow> bool" where
  "users_ok_except H b \<longleftrightarrow>
     distinct (map_keys (grantContributions b)) \<and> distinct (map_keys (usersByHash (b_head b))) \<and>
     (\<forall>h. h \<notin> H \<longrightarrow> map_of (usersByHash (b_head b)) h = expected_grant (grantContributions b) h)"

lemma users_ok_except_empty: "users_ok b \<longleftrightarrow> users_ok_except {} b"
  by (simp add: users_ok_def users_ok_except_def)

lemma recompute_users_ok:
  assumes "users_ok_except H b"
  shows "users_ok_except (H - {h}) (recomputeUser h t b)"
  using assms
  by (auto simp: users_ok_except_def recomputeUser_def push_node_def Let_def expected_grant_def
      map_of_update map_of_delete)

lemma contributions_update:
  assumes "grant_usernameHash g \<noteq> h" and "\<And>p. map_of cs d = Some p \<Longrightarrow> grant_usernameHash p \<noteq> h"
  shows "user_contributions (AList.update d g cs) h = user_contributions cs h"
  using assms by (induction cs) (auto simp: user_contributions_def split: if_splits)

lemma contributions_delete:
  assumes "distinct (map_keys cs)" and "\<And>p. map_of cs d = Some p \<Longrightarrow> grant_usernameHash p \<noteq> h"
  shows "user_contributions (AList.delete d cs) h = user_contributions cs h"
  using assms
proof (induction cs)
  case (Cons x cs)
  show ?case
  proof (cases "fst x = d")
    case True
    with Cons.prems have "AList.delete d cs = cs" "grant_usernameHash (snd x) \<noteq> h"
      by (auto simp: delete_absent)
    with True show ?thesis by (simp add: user_contributions_def AList.delete_eq)
  qed (use Cons in \<open>auto simp: user_contributions_def AList.delete_eq\<close>)
qed (simp add: user_contributions_def)

lemma grantDoc_users_ok:
  assumes "users_ok b"
  shows "users_ok (applyGrantDoc d g t b)"
proof -
  let ?b2 = "(log_delta (DGrantDoc t d g) b)\<lparr> grantContributions := AList.update d g (grantContributions b) \<rparr>"
  let ?H = "insert (grant_usernameHash g) (case map_of (grantContributions b) d of None \<Rightarrow> {} | Some p \<Rightarrow> {grant_usernameHash p})"
  have ex: "expected_grant (AList.update d g (grantContributions b)) h = expected_grant (grantContributions b) h"
    if "h \<notin> ?H" for h
    using contributions_update [of g h "grantContributions b" d] that
    by (auto simp: expected_grant_def split: option.splits)
  have "users_ok_except ?H ?b2"
    using assms ex unfolding users_ok_def users_ok_except_def by simp
  note step = recompute_users_ok [OF this]
  show ?thesis
  proof (cases "map_of (grantContributions b) d")
    case None
    with step [of "grant_usernameHash g" t] show ?thesis
      by (simp add: applyGrantDoc_def users_ok_except_empty)
  next
    case (Some p)
    have "users_ok_except (?H - {grant_usernameHash p} - {grant_usernameHash g})
            (recomputeUser (grant_usernameHash g) t (recomputeUser (grant_usernameHash p) t ?b2))"
      by (rule recompute_users_ok [OF step])
    with Some step [of "grant_usernameHash g" t] show ?thesis
      by (cases "grant_usernameHash p = grant_usernameHash g")
        (simp_all add: applyGrantDoc_def users_ok_except_empty insert_Diff_if)
  qed
qed

lemma removeGrantDoc_users_ok:
  assumes "users_ok b"
  shows "users_ok (removeGrantDoc d t b)"
proof (cases "map_of (grantContributions b) d")
  case (Some p)
  let ?b2 = "(log_delta (DRemoveGrantDoc t d) b)\<lparr> grantContributions := AList.delete d (grantContributions b) \<rparr>"
  have ex: "expected_grant (AList.delete d (grantContributions b)) h = expected_grant (grantContributions b) h"
    if "h \<noteq> grant_usernameHash p" for h
    using contributions_delete [of "grantContributions b" d h] that Some assms
    by (simp add: expected_grant_def users_ok_def)
  have "users_ok_except {grant_usernameHash p} ?b2"
    using assms ex unfolding users_ok_def users_ok_except_def by simp
  from recompute_users_ok [OF this, of "grant_usernameHash p" t] Some show ?thesis
    by (simp add: removeGrantDoc_def Let_def users_ok_except_empty)
qed (use assms in \<open>simp add: removeGrantDoc_def\<close>)

lemma push_users_ok:
  assumes "users_ok b" and "\<And>n. usersByHash (f n) = usersByHash n"
  shows "users_ok (push_node t f (log_delta e b))"
  using assms by (simp add: users_ok_def push_node_def Let_def)

definition is_revoke :: "directory_revision_delta \<Rightarrow> bool" where
  "is_revoke d = (case d of DRevokeBySigningKey t k \<Rightarrow> True | _ \<Rightarrow> False)"

lemma apply_delta_users_ok:
  assumes "users_ok b" and "\<not> is_revoke d"
  shows "users_ok (apply_delta b d)"
proof -
  have group: "users_ok (recomputeGroup m t ((log_delta e b)\<lparr> groupContributions := y \<rparr>))" for m t e y
    using assms(1) by (simp add: users_ok_def recomputeGroup_def push_node_def Let_def)
  show ?thesis
    using assms
    by (cases d)
      (auto simp: applyDefaultPolicy_def applyDbPolicy_def applyRule_def removeRule_def
        applyTrustedWitness_def removeTrustedWitness_def applyGrant_def setGroups_def is_revoke_def
        removeGroupDoc_def applyGroupDoc_def Let_def group
        intro!: push_users_ok grantDoc_users_ok removeGrantDoc_users_ok split: option.splits)
qed

lemma import_users_ok:
  assumes "\<forall>d \<in> set ds. \<not> is_revoke d"
  shows "users_ok (importDeltaLog ds)"
proof -
  have "users_ok b \<Longrightarrow> users_ok (foldl apply_delta b ds)" for b
    using assms by (induction ds arbitrary: b) (auto intro: apply_delta_users_ok)
  moreover have "users_ok reset_builder"
    by (simp add: users_ok_def reset_builder_def createGenesisNode_def expected_grant_def user_contributions_def)
  ultimately show ?thesis by (simp add: importDeltaLog_def)
qed

lemma add_device_keys_keys: "fst ` set (add_device_keys c m) = fst ` set m \<union> set (grant_signingKeys c)"
proof -
  have step: "fst ` set (if map_has m key then m else AList.update key e m) = insert key (fst ` set m)"
    for key e :: string and m
    by (auto simp: map_has_iff dom_update)
  have "fst ` set (foldl (\<lambda>m (i, key). if map_has m key then m else AList.update key (f i) m) m ps) =
        fst ` set m \<union> snd ` set ps" for f :: "nat \<Rightarrow> string" and ps and m :: "(string, string) jsmap"
    by (induction ps arbitrary: m) (simp_all add: step split_beta)
  from this [of "\<lambda>i. if i < length (grant_encryptionKeys c) then grant_encryptionKeys c ! i else ''''"]
  show ?thesis unfolding add_device_keys_def by (simp add: set_map [symmetric] del: set_map)
qed

lemma merged_grant_keys:
  "set (grant_signingKeys (merged_grant cs h)) = (\<Union>c \<in> set cs. set (grant_signingKeys c))"
proof -
  have "fst ` set (foldl (\<lambda>m c. add_device_keys c m) m cs) =
        fst ` set m \<union> (\<Union>c \<in> set cs. set (grant_signingKeys c))" for m
    by (induction cs arbitrary: m) (simp_all add: add_device_keys_keys Un_assoc)
  from this [of "[]"] show ?thesis by (simp add: merged_grant_def Let_def)
qed

lemma users_ok_union:
  assumes ok: "users_ok b" and idx: "chain_indexed b"
  shows "((\<exists>g. map_of (usersByHash (b_head b)) h = Some g \<and> grant_active g \<and> k \<in> set (grant_signingKeys g)) \<longleftrightarrow>
           (\<exists>c \<in> set (map_values (grantContributions b)). grant_usernameHash c = h \<and> k \<in> set (grant_signingKeys c))) \<and>
         (map_has (bySigningKey (b_head b)) k \<longleftrightarrow>
           (\<exists>c \<in> set (map_values (grantContributions b)). k \<in> set (grant_signingKeys c)))"
proof -
  have active: "grant_active (merged_grant cs h) \<longleftrightarrow> grant_signingKeys (merged_grant cs h) \<noteq> []" for cs h
    by (simp add: merged_grant_def Let_def)
  have user: "(\<exists>g. map_of (usersByHash (b_head b)) h = Some g \<and> grant_active g \<and> k \<in> set (grant_signingKeys g)) \<longleftrightarrow>
      (\<exists>c \<in> set (map_values (grantContributions b)). grant_usernameHash c = h \<and> k \<in> set (grant_signingKeys c))" for h
  proof -
    have "(\<exists>g. expected_grant (grantContributions b) h = Some g \<and> grant_active g \<and> k \<in> set (grant_signingKeys g)) \<longleftrightarrow>
          k \<in> set (grant_signingKeys (merged_grant (user_contributions (grantContributions b) h) h))"
      using merged_grant_keys [of "user_contributions (grantContributions b) h" h]
      by (force simp: expected_grant_def Let_def active)
    then show ?thesis
      using ok by (auto simp: users_ok_def merged_grant_keys user_contributions_def)
  qed
  from idx have ix: "bySigningKey (b_head b) = buildBySigningKey (usersByHash (b_head b))"
    by (simp add: chain_indexed_def keys_indexed_def)
  have "map_has (bySigningKey (b_head b)) k \<longleftrightarrow>
      (\<exists>g \<in> set (map_values (usersByHash (b_head b))). grant_active g \<and> k \<in> set (grant_signingKeys g))"
    unfolding map_has_def ix buildBySigningKey_lookup by (auto simp: find_None_iff_ball)
  also have "\<dots> \<longleftrightarrow> (\<exists>h g. map_of (usersByHash (b_head b)) h = Some g \<and> grant_active g \<and> k \<in> set (grant_signingKeys g))"
    using map_values_iff [of "usersByHash (b_head b)"] ok unfolding users_ok_def by blast
  finally show ?thesis using user by blast
qed

text \<open>
  The grants of a directory state are the union of the current grant documents: after any
  sequence of revisions without the legacy revocation, the state lists a signing key as an
  active key of user \<open>h\<close> exactly when one of the grant documents that are currently present for
  \<open>h\<close> lists it, and the reverse index knows a signing key exactly when some document lists it.
\<close>

theorem grants_are_union_of_documents:
  assumes "\<forall>d \<in> set ds. \<not> is_revoke d" and "b = importDeltaLog ds"
  shows "((\<exists>g. map_of (usersByHash (b_head b)) h = Some g \<and> grant_active g \<and> k \<in> set (grant_signingKeys g)) \<longleftrightarrow>
           (\<exists>c \<in> set (map_values (grantContributions b)). grant_usernameHash c = h \<and> k \<in> set (grant_signingKeys c))) \<and>
         (map_has (bySigningKey (b_head b)) k \<longleftrightarrow>
           (\<exists>c \<in> set (map_values (grantContributions b)). k \<in> set (grant_signingKeys c)))"
proof (rule users_ok_union)
  show "users_ok b" using import_users_ok [OF assms(1)] assms(2) by simp
  show "chain_indexed b" unfolding assms(2)
    by (rule reachable_induct [of chain_indexed, OF chain_indexed_reset apply_delta_indexed br_import])
qed

theorem grants_are_union_of_documents_witness:
  "map_has (bySigningKey (b_head (importDeltaLog [DGrantDoc 1 ''d1'' (demo_grant ''h'' [''k1'']),
     DGrantDoc 2 ''d2'' (demo_grant ''h'' [''k2'']), DRemoveGrantDoc 3 ''d1'']))) ''k2'' \<and>
   \<not> map_has (bySigningKey (b_head (importDeltaLog [DGrantDoc 1 ''d1'' (demo_grant ''h'' [''k1'']),
     DGrantDoc 2 ''d2'' (demo_grant ''h'' [''k2'']), DRemoveGrantDoc 3 ''d1'']))) ''k1''"
proof -
  let ?ds = "[DGrantDoc 1 ''d1'' (demo_grant ''h'' [''k1'']), DGrantDoc 2 ''d2'' (demo_grant ''h'' [''k2'']),
     DRemoveGrantDoc 3 ''d1'']"
  have "grantContributions (importDeltaLog ?ds) = [(''d2'', demo_grant ''h'' [''k2''])]"
    by (simp add: importDeltaLog_def applyGrantDoc_def removeGrantDoc_def reset_builder_def demo_grant_def
        recomputeUser_def push_node_def log_delta_def Let_def AList.delete_eq)
  with grants_are_union_of_documents [of ?ds "importDeltaLog ?ds" "''h''"] show ?thesis
    by (simp add: is_revoke_def demo_grant_def)
qed

text \<open>
  A group document that changes its group's name leaves the old group behind: the members
  stay in the group with the old name, although no document contributes to it any more.
\<close>

theorem group_rename_keeps_old_group:
  assumes "map_of (groupContributions b) d = None" and "a \<noteq> c"
    and "\<forall>(n, hs) \<in> set (map_values (groupContributions b)). n \<noteq> a"
  shows "let b' = applyGroupDoc d c ms' t' (applyGroupDoc d a ms t b)
         in map_of (groupsByName (b_head b')) a = Some \<lparr> group_name = a, group_memberHashes = js_dedup ms \<rparr> \<and>
            (\<forall>(n, hs) \<in> set (map_values (groupContributions b')). n \<noteq> a)"
proof -
  let ?b1 = "applyGroupDoc d a ms t b"
  have c1: "groupContributions ?b1 = groupContributions b @ [(d, a, ms)]"
    using assms(1) by (simp add: applyGroupDoc_def Let_def recomputeGroup_def update_fresh map_of_eq_None_iff)
  have none: "filter (\<lambda>(n, hs). n = a) (map_values (groupContributions b)) = []"
    using assms(3) by (auto simp: filter_empty_conv)
  have "group_members (groupContributions ?b1) a = js_dedup ms"
    unfolding c1 by (simp add: group_members_def none)
  then have g1: "map_of (groupsByName (b_head ?b1)) a = Some \<lparr> group_name = a, group_memberHashes = js_dedup ms \<rparr>"
    using c1 by (simp add: applyGroupDoc_def Let_def recomputeGroup_def push_node_def map_of_update)
  have "groupContributions (applyGroupDoc d c ms' t' ?b1) = groupContributions b @ [(d, c, ms')]"
    using assms(1) c1
    by (simp add: applyGroupDoc_def [of d c] Let_def recomputeGroup_def map_of_eq_None_iff update_append_fresh)
  moreover have "map_of (groupsByName (b_head (applyGroupDoc d c ms' t' ?b1))) a = map_of (groupsByName (b_head ?b1)) a"
    using assms(2)
    by (simp add: applyGroupDoc_def [of d c] Let_def recomputeGroup_def push_node_def map_of_update map_of_delete)
  ultimately show ?thesis using g1 assms(2,3) by auto
qed

theorem group_rename_keeps_old_group_witness:
  "map_of (groupsByName (b_head (applyGroupDoc ''d'' ''new'' [''h''] 2 (applyGroupDoc ''d'' ''old'' [''h''] 1 reset_builder)))) ''old''
     = Some \<lparr> group_name = ''old'', group_memberHashes = js_dedup [''h''] \<rparr>"
  using group_rename_keeps_old_group [of reset_builder "''d''" "''old''" "''new''" "[''h'']" 2 "[''h'']" 1]
  by (simp add: reset_builder_def Let_def)

end
