(* ===== verification/AccessEvaluate.thy ===== *)
theory AccessEvaluate
  imports DirectoryChain
begin

text \<open>
  The access-control engine (\<^verbatim>\<open>core/accesscontrol/evaluate.ts\<close>): placeholder resolution, the
  clause evaluator, and the verdict of \<^verbatim>\<open>evaluateAccess\<close> with its client and server modes. The
  loop over the candidate rules is a fold over a record of the four local variables.
\<close>

section \<open>Inputs\<close>

record identity_set =
  id_username :: string
  id_usernames :: "string list"
  id_groups :: "string list"
  id_hashes :: "string jsset"

record evaluate_access_input =
  in_op :: rule_type
  in_dbid :: string
  in_identity :: identity_set
  in_node :: directory_state_node
  in_beforeDoc :: "js_object option"
  in_afterDoc :: "js_object option"
  in_isServer :: bool

definition defaultWhenForOp :: "rule_type \<Rightarrow> with_field_when" where
  "defaultWhenForOp op = (if op = rt_doc_create then when_after else when_before)"

definition allow_decision :: "string \<Rightarrow> access_tier \<Rightarrow> string option \<Rightarrow> access_decision" where
  "allow_decision why tier i = \<lparr> allowed = True, reason = why, matchedRuleId = i, decision_tier = tier \<rparr>"

definition deny_decision :: "string \<Rightarrow> access_tier \<Rightarrow> string option \<Rightarrow> access_decision" where
  "deny_decision why tier i = \<lparr> allowed = False, reason = why, matchedRuleId = i, decision_tier = tier \<rparr>"

fun rule_type_name :: "rule_type \<Rightarrow> string" where
  "rule_type_name rt_doc_create = ''doc_create''"
| "rule_type_name rt_doc_change = ''doc_change''"
| "rule_type_name rt_doc_delete = ''doc_delete''"
| "rule_type_name rt_doc_undelete = ''doc_undelete''"
| "rule_type_name rt_doc_snapshot = ''doc_snapshot''"
| "rule_type_name rt_doc_read = ''doc_read''"

section \<open>Clauses\<close>

text \<open>The fields \<^verbatim>\<open>scalar\<close> and \<^verbatim>\<open>list\<close> of the result; an absent or undefined scalar is \<open>None\<close>.\<close>

record resolved_value =
  res_scalar :: "js_value option"
  res_list :: "js_value list option"

definition resolveValue :: "js_value \<Rightarrow> identity_set \<Rightarrow> resolved_value" where
  "resolveValue v identity =
     (if v = JStr ''${user.username}'' then
        \<lparr> res_scalar = Some (JStr (id_username identity)), res_list = Some [JStr (id_username identity)] \<rparr>
      else if v = JStr ''${user.usernames}'' then
        \<lparr> res_scalar = None, res_list = Some (map JStr (id_usernames identity)) \<rparr>
      else if v = JStr ''${user.groups}'' then
        \<lparr> res_scalar = None, res_list = Some (map JStr (id_groups identity)) \<rparr>
      else case v of
        JArr xs \<Rightarrow> \<lparr> res_scalar = None, res_list = Some xs \<rparr>
      | JUndefined \<Rightarrow> \<lparr> res_scalar = None, res_list = None \<rparr>
      | _ \<Rightarrow> \<lparr> res_scalar = Some v, res_list = None \<rparr>)"

fun read_parts :: "(js_value \<Rightarrow> string \<Rightarrow> js_value) \<Rightarrow> js_value \<Rightarrow> string list \<Rightarrow> js_value" where
  "read_parts proto cur [] = cur"
| "read_parts proto cur (part # parts) =
     (if \<not> js_is_object cur then JUndefined else read_parts proto (member_get proto cur part) parts)"

definition readPath :: "(js_value \<Rightarrow> string \<Rightarrow> js_value) \<Rightarrow> js_object option \<Rightarrow> string \<Rightarrow> js_value" where
  "readPath proto doc key =
     (case doc of None \<Rightarrow> JUndefined | Some d \<Rightarrow> read_parts proto (JObj d) (split_on (CHR ''.'') key))"

text \<open>\<^verbatim>\<open>resolved.list ?? (resolved.scalar !== undefined ? [resolved.scalar] : [])\<close>\<close>

definition resolved_list :: "resolved_value \<Rightarrow> js_value list" where
  "resolved_list r =
     (case res_list r of Some xs \<Rightarrow> xs
      | None \<Rightarrow> (case res_scalar r of Some s \<Rightarrow> [s] | None \<Rightarrow> []))"

definition compare_numbers :: "(rat \<Rightarrow> rat \<Rightarrow> bool) \<Rightarrow> js_value \<Rightarrow> resolved_value \<Rightarrow> bool" where
  "compare_numbers rel docValue r =
     (case (js_number docValue, Option.bind (res_scalar r) js_number) of
        (Some a, Some b) \<Rightarrow> rel a b | _ \<Rightarrow> False)"

definition evaluateClause ::
  "(js_value \<Rightarrow> string \<Rightarrow> js_value) \<Rightarrow> with_field_clause \<Rightarrow> js_object option \<Rightarrow> identity_set \<Rightarrow> bool" where
  "evaluateClause proto clause doc identity =
     (let docValue = readPath proto doc (clause_key clause);
          resolved = resolveValue (clause_val clause) identity
      in case clause_op clause of
        op_exists \<Rightarrow> docValue \<noteq> JUndefined
      | op_notExists \<Rightarrow> docValue = JUndefined
      | op_equals \<Rightarrow> (case res_scalar resolved of None \<Rightarrow> False | Some s \<Rightarrow> js_strict_eq docValue s)
      | op_notEquals \<Rightarrow> (case res_scalar resolved of None \<Rightarrow> True | Some s \<Rightarrow> \<not> js_strict_eq docValue s)
      | op_contains \<Rightarrow>
          (case res_scalar resolved of
             None \<Rightarrow> False
           | Some needle \<Rightarrow>
               (case docValue of
                  JArr xs \<Rightarrow> js_includes xs needle
                | JStr s \<Rightarrow> (case needle of JStr n \<Rightarrow> str_includes s n | _ \<Rightarrow> False)
                | _ \<Rightarrow> False))
      | op_containsAny \<Rightarrow>
          (case docValue of JArr xs \<Rightarrow> list_ex (js_includes xs) (resolved_list resolved) | _ \<Rightarrow> False)
      | op_containsAll \<Rightarrow>
          (case docValue of JArr xs \<Rightarrow> list_all (js_includes xs) (resolved_list resolved) | _ \<Rightarrow> False)
      | op_gt \<Rightarrow> compare_numbers (>) docValue resolved
      | op_gte \<Rightarrow> compare_numbers (\<ge>) docValue resolved
      | op_lt \<Rightarrow> compare_numbers (<) docValue resolved
      | op_lte \<Rightarrow> compare_numbers (\<le>) docValue resolved
      | op_unknown \<Rightarrow> False)"

definition withFieldsPass ::
  "(js_value \<Rightarrow> string \<Rightarrow> js_value) \<Rightarrow> acl_rule \<Rightarrow> evaluate_access_input \<Rightarrow> bool" where
  "withFieldsPass proto rule inp =
     list_all (\<lambda>clause.
        let w = (case clause_when clause of Some w \<Rightarrow> w | None \<Rightarrow> defaultWhenForOp (in_op inp));
            doc = (if w = when_after then in_afterDoc inp else in_beforeDoc inp)
        in evaluateClause proto clause doc (in_identity inp)) (clauses_of rule)"

section \<open>The verdict\<close>

definition intersects :: "string list \<Rightarrow> string jsset \<Rightarrow> bool" where
  "intersects hs s = list_ex (\<lambda>h. h \<in> set s) hs"

record eval_acc =
  denyMatched :: "(acl_rule \<times> access_tier) option"
  allowMatched :: "(acl_rule \<times> access_tier) option"
  tier2AllowDeferred :: bool
  tier2DenyDeferred :: bool

definition isTier2 :: "acl_rule \<Rightarrow> bool" where
  "isTier2 rule \<longleftrightarrow> clauses_of rule \<noteq> []"

definition rule_tier :: "acl_rule \<Rightarrow> access_tier" where
  "rule_tier rule = (if isTier2 rule then tier2 else tier1)"

definition eval_rule ::
  "(js_value \<Rightarrow> string \<Rightarrow> js_value) \<Rightarrow> evaluate_access_input \<Rightarrow> eval_acc \<Rightarrow> acl_rule \<Rightarrow> eval_acc" where
  "eval_rule proto inp acc rule =
     (if isTier2 rule \<and> in_isServer inp then
        (if rule_action_of rule = action_allow then acc\<lparr> tier2AllowDeferred := True \<rparr>
         else acc\<lparr> tier2DenyDeferred := True \<rparr>)
      else if isTier2 rule \<and> \<not> withFieldsPass proto rule inp then acc
      else
        let acc1 = (if rule_action_of rule = action_deny \<and> denyMatched acc = None
                    then acc\<lparr> denyMatched := Some (rule, rule_tier rule) \<rparr> else acc)
        in if rule_action_of rule = action_allow \<and> allowMatched acc1 = None
           then acc1\<lparr> allowMatched := Some (rule, rule_tier rule) \<rparr> else acc1)"

definition eval_acc0 :: eval_acc where
  "eval_acc0 = \<lparr> denyMatched = None, allowMatched = None, tier2AllowDeferred = False, tier2DenyDeferred = False \<rparr>"

fun deny_field :: "effective_policy \<Rightarrow> rule_type \<Rightarrow> bool" where
  "deny_field eff rt_doc_create = eff_denyDocCreate eff"
| "deny_field eff rt_doc_change = eff_denyDocChange eff"
| "deny_field eff rt_doc_delete = eff_denyDocDelete eff"
| "deny_field eff rt_doc_undelete = eff_denyDocUndelete eff"
| "deny_field eff rt_doc_snapshot = eff_denyDocSnapshot eff"
| "deny_field eff rt_doc_read = eff_denyDocRead eff"

definition candidate_rules :: "evaluate_access_input \<Rightarrow> acl_rule list" where
  "candidate_rules inp =
     filter (\<lambda>r. (rule_dbid r = in_dbid inp \<or> rule_dbid r = ''*'') \<and>
                 intersects (users_hashes r) (id_hashes (in_identity inp)))
       (rules_for (in_node inp) (in_op inp))"

definition effective_for :: "evaluate_access_input \<Rightarrow> effective_policy" where
  "effective_for inp =
     effectivePolicy (defaultPolicy (in_node inp)) (map_of (dbPolicies (in_node inp)) (in_dbid inp))"

definition evaluateAccess ::
  "(js_value \<Rightarrow> string \<Rightarrow> js_value) \<Rightarrow> evaluate_access_input \<Rightarrow> access_decision" where
  "evaluateAccess proto inp =
     (if defaultPolicy (in_node inp) = None
      then allow_decision ''access control not enabled (no default policy)'' tier1 None
      else let eff = effective_for inp
      in if eff_disable eff
         then allow_decision ''access control disabled by master switch'' tier1 None
      else let baselineDenied = deny_field eff (in_op inp);
               acc = foldl (eval_rule proto inp) eval_acc0 (candidate_rules inp)
      in case denyMatched acc of
           Some (rule, tier) \<Rightarrow> deny_decision (''denied by rule '' @ ruleId rule) tier (Some (ruleId rule))
         | None \<Rightarrow>
             (case allowMatched acc of
                Some (rule, tier) \<Rightarrow> allow_decision (''allowed by rule '' @ ruleId rule) tier (Some (ruleId rule))
              | None \<Rightarrow>
                  if in_isServer inp \<and> baselineDenied \<and> tier2AllowDeferred acc
                  then allow_decision ''baseline deny may be overridden by a Tier 2 allow (deferred to client)'' tier1 None
                  else if in_isServer inp \<and> \<not> baselineDenied \<and> tier2DenyDeferred acc
                  then allow_decision ''baseline allow; Tier 2 deny deferred to client'' tier1 None
                  else if baselineDenied
                  then deny_decision (''denied by baseline policy for '' @ rule_type_name (in_op inp)) tier1 None
                  else allow_decision (''allowed by baseline policy for '' @ rule_type_name (in_op inp)) tier1 None))"

section \<open>What a verdict means\<close>

text \<open>A candidate rule takes part in the decision: it is not deferred to the client and its clauses hold.\<close>

definition rule_applies :: "(js_value \<Rightarrow> string \<Rightarrow> js_value) \<Rightarrow> evaluate_access_input \<Rightarrow> acl_rule \<Rightarrow> bool" where
  "rule_applies proto inp rule \<longleftrightarrow>
     \<not> (isTier2 rule \<and> in_isServer inp) \<and> (isTier2 rule \<longrightarrow> withFieldsPass proto rule inp)"

definition first_match :: "(acl_rule \<Rightarrow> bool) \<Rightarrow> acl_rule list \<Rightarrow> (acl_rule \<times> access_tier) option" where
  "first_match P rules = map_option (\<lambda>r. (r, rule_tier r)) (find P rules)"

lemma first_match_append:
  "first_match P (rs @ [r]) =
     (case first_match P rs of Some m \<Rightarrow> Some m | None \<Rightarrow> if P r then Some (r, rule_tier r) else None)"
  by (auto simp: first_match_def find_append split: option.splits)

lemma action_cases: "a = action_deny \<longleftrightarrow> a \<noteq> action_allow"
  by (cases a) auto

text \<open>The fold in closed form: the first matching rule of each action, and the deferral flags.\<close>

lemma eval_rules:
  "foldl (eval_rule proto inp) eval_acc0 rules =
     \<lparr> denyMatched = first_match (\<lambda>r. rule_applies proto inp r \<and> rule_action_of r = action_deny) rules,
       allowMatched = first_match (\<lambda>r. rule_applies proto inp r \<and> rule_action_of r = action_allow) rules,
       tier2AllowDeferred = (in_isServer inp \<and> (\<exists>r \<in> set rules. isTier2 r \<and> rule_action_of r = action_allow)),
       tier2DenyDeferred = (in_isServer inp \<and> (\<exists>r \<in> set rules. isTier2 r \<and> rule_action_of r = action_deny)) \<rparr>"
proof (induction rules rule: rev_induct)
  case Nil
  then show ?case by (simp add: eval_acc0_def first_match_def)
next
  case (snoc r rs)
  let ?D = "first_match (\<lambda>r. rule_applies proto inp r \<and> rule_action_of r = action_deny) rs"
  let ?A = "first_match (\<lambda>r. rule_applies proto inp r \<and> rule_action_of r = action_allow) rs"
  have step: "foldl (eval_rule proto inp) eval_acc0 (rs @ [r]) =
      eval_rule proto inp (foldl (eval_rule proto inp) eval_acc0 rs) r" by simp
  consider "rule_applies proto inp r" | "\<not> rule_applies proto inp r" "isTier2 r" "in_isServer inp"
    | "\<not> rule_applies proto inp r" "isTier2 r" "\<not> in_isServer inp" "\<not> withFieldsPass proto r inp"
    by (auto simp: rule_applies_def)
  then show ?case
  proof cases
    case 1
    then have "\<not> (isTier2 r \<and> in_isServer inp)" "\<not> (isTier2 r \<and> \<not> withFieldsPass proto r inp)"
      by (auto simp: rule_applies_def)
    with 1 show ?thesis unfolding step snoc unfolding eval_rule_def [of proto inp _ r] first_match_append
      by (cases "rule_action_of r"; cases ?D; cases ?A; cases "in_isServer inp") (simp_all add: Let_def)
  next
    case 2
    then show ?thesis unfolding step snoc unfolding eval_rule_def [of proto inp _ r] first_match_append
      by (cases "rule_action_of r"; cases ?D; cases ?A; cases "in_isServer inp") (simp_all add: Let_def)
  next
    case 3
    then show ?thesis unfolding step snoc unfolding eval_rule_def [of proto inp _ r] first_match_append
      by (cases "rule_action_of r"; cases ?D; cases ?A; cases "in_isServer inp") (simp_all add: Let_def)
  qed
qed

lemma first_match_None: "first_match P rs = None \<longleftrightarrow> (\<forall>r \<in> set rs. \<not> P r)"
  by (simp add: first_match_def find_None_iff_ball)

lemma first_match_Some: "first_match P rs = Some (r, t) \<Longrightarrow> r \<in> set rs \<and> P r \<and> t = rule_tier r"
  by (auto simp: first_match_def dest: find_SomeD)

text \<open>The specification: deny rules override allow rules, which override the baseline.\<close>

definition access_granted :: "(js_value \<Rightarrow> string \<Rightarrow> js_value) \<Rightarrow> evaluate_access_input \<Rightarrow> bool" where
  "access_granted proto inp \<longleftrightarrow>
     defaultPolicy (in_node inp) = None \<or> eff_disable (effective_for inp) \<or>
     (\<forall>r \<in> set (candidate_rules inp). rule_applies proto inp r \<longrightarrow> rule_action_of r \<noteq> action_deny) \<and>
     ((\<exists>r \<in> set (candidate_rules inp). rule_applies proto inp r \<and> rule_action_of r = action_allow) \<or>
      \<not> deny_field (effective_for inp) (in_op inp) \<or>
      in_isServer inp \<and> (\<exists>r \<in> set (candidate_rules inp). isTier2 r \<and> rule_action_of r = action_allow))"

lemma allowed_simps [simp]:
  "allowed (allow_decision w t i)" "\<not> allowed (deny_decision w t i)"
  "matchedRuleId (allow_decision w t i) = i" "matchedRuleId (deny_decision w t i) = i"
  by (simp_all add: allow_decision_def deny_decision_def)

lemma evaluateAccess_allowed: "allowed (evaluateAccess proto inp) \<longleftrightarrow> access_granted proto inp"
proof -
  let ?D = "first_match (\<lambda>r. rule_applies proto inp r \<and> rule_action_of r = action_deny) (candidate_rules inp)"
  let ?A = "first_match (\<lambda>r. rule_applies proto inp r \<and> rule_action_of r = action_allow) (candidate_rules inp)"
  have D: "(?D = None) \<longleftrightarrow> (\<forall>r \<in> set (candidate_rules inp). rule_applies proto inp r \<longrightarrow> rule_action_of r \<noteq> action_deny)"
    by (auto simp: first_match_None)
  have A: "(?A \<noteq> None) \<longleftrightarrow> (\<exists>r \<in> set (candidate_rules inp). rule_applies proto inp r \<and> rule_action_of r = action_allow)"
    by (auto simp: first_match_None)
  have "allowed (evaluateAccess proto inp) \<longleftrightarrow>
     defaultPolicy (in_node inp) = None \<or> eff_disable (effective_for inp) \<or>
     ?D = None \<and> (?A \<noteq> None \<or> \<not> deny_field (effective_for inp) (in_op inp) \<or>
      in_isServer inp \<and> (\<exists>r \<in> set (candidate_rules inp). isTier2 r \<and> rule_action_of r = action_allow))"
    unfolding evaluateAccess_def eval_rules Let_def
    by (cases ?D; cases ?A) (auto split: prod.splits)
  then show ?thesis unfolding access_granted_def D A .
qed

text \<open>
  C13. The verdict of the engine is the deny-overrides policy: access is granted exactly when
  access control is off, or no applicable candidate rule denies and an applicable rule allows or
  the baseline does not deny, a server also granting what only a content rule could allow. A rule
  named in the verdict is an applicable candidate rule with that action.
\<close>

theorem access_verdict_correct:
  "(allowed (evaluateAccess proto inp) \<longleftrightarrow> access_granted proto inp) \<and>
   (\<forall>i. matchedRuleId (evaluateAccess proto inp) = Some i \<longrightarrow>
      (\<exists>r \<in> set (candidate_rules inp). ruleId r = i \<and> rule_applies proto inp r \<and>
         (allowed (evaluateAccess proto inp) \<longleftrightarrow> rule_action_of r = action_allow)))"
proof -
  have "\<exists>r \<in> set (candidate_rules inp). ruleId r = i \<and> rule_applies proto inp r \<and>
         (allowed (evaluateAccess proto inp) \<longleftrightarrow> rule_action_of r = action_allow)"
    if "matchedRuleId (evaluateAccess proto inp) = Some i" for i
    using that unfolding evaluateAccess_def eval_rules Let_def
    by (auto split: if_splits option.splits prod.splits dest!: first_match_Some)
  then show ?thesis by (simp add: evaluateAccess_allowed)
qed

text \<open>
  C14. The server never denies what a client would grant, whatever the document content is: it is
  sound to reject an entry at the server. And when the server grants what the client denies,
  a content rule of the operation is the reason.
\<close>

theorem server_deny_sound:
  assumes "in_isServer srv" and "cl = srv\<lparr> in_isServer := False, in_beforeDoc := bd, in_afterDoc := ad \<rparr>"
  shows "(\<not> allowed (evaluateAccess proto srv) \<longrightarrow> \<not> allowed (evaluateAccess proto cl)) \<and>
         (allowed (evaluateAccess proto srv) \<and> \<not> allowed (evaluateAccess proto cl) \<longrightarrow>
            (\<exists>r \<in> set (candidate_rules cl). isTier2 r))"
proof -
  have c: "candidate_rules cl = candidate_rules srv" "effective_for cl = effective_for srv"
    "in_node cl = in_node srv" "in_op cl = in_op srv"
    by (simp_all add: assms(2) candidate_rules_def effective_for_def)
  have s: "rule_applies proto srv r \<longleftrightarrow> \<not> isTier2 r" for r
    using assms(1) by (auto simp: rule_applies_def)
  have k: "rule_applies proto cl r \<longleftrightarrow> (isTier2 r \<longrightarrow> withFieldsPass proto r cl)" for r
    by (simp add: rule_applies_def assms(2))
  have "in_isServer srv" "\<not> in_isServer cl" using assms by simp_all
  then show ?thesis unfolding evaluateAccess_allowed access_granted_def c s k action_cases by blast
qed

text \<open>
  Verdicts do not depend on the order in which rules reached the directory: two directory
  states with the same policies and the same set of rules for the operation give the same
  answer, so replicas that hold the same rules agree.
\<close>

theorem verdict_order_independent:
  assumes "defaultPolicy n1 = defaultPolicy n2" and "map_of (dbPolicies n1) = map_of (dbPolicies n2)"
    and "set (rules_for n1 (in_op inp)) = set (rules_for n2 (in_op inp))"
  shows "allowed (evaluateAccess proto (inp\<lparr> in_node := n1 \<rparr>)) = allowed (evaluateAccess proto (inp\<lparr> in_node := n2 \<rparr>))"
proof -
  have "set (candidate_rules (inp\<lparr> in_node := n1 \<rparr>)) = set (candidate_rules (inp\<lparr> in_node := n2 \<rparr>))"
    using assms(3) by (simp add: candidate_rules_def)
  moreover have "effective_for (inp\<lparr> in_node := n1 \<rparr>) = effective_for (inp\<lparr> in_node := n2 \<rparr>)"
    using assms(1,2) by (simp add: effective_for_def)
  moreover have "rule_applies proto (inp\<lparr> in_node := n1 \<rparr>) = rule_applies proto (inp\<lparr> in_node := n2 \<rparr>)"
    by (rule ext) (simp add: rule_applies_def withFieldsPass_def cong: option.case_cong)
  ultimately show ?thesis using assms(1) by (simp add: evaluateAccess_allowed access_granted_def)
qed

text \<open>Concrete inputs: one user, a tenant policy that denies creation, and three rules.\<close>

definition no_proto :: "js_value \<Rightarrow> string \<Rightarrow> js_value" where
  "no_proto v name = JUndefined"

definition demo_rule :: "string \<Rightarrow> rule_action \<Rightarrow> with_field_clause list option \<Rightarrow> acl_rule" where
  "demo_rule i action clauses =
     \<lparr> rule_type_of = rt_doc_create, ruleId = i, rule_description = None, rule_dbid = ''*'', withfields = clauses,
       users_hashes = [''$everyone''], users_encrypted = '''', rule_action_of = action \<rparr>"

definition owner_clause :: with_field_clause where
  "owner_clause = \<lparr> clause_key = ''owner'', clause_op = op_equals, clause_val = JStr ''${user.username}'', clause_when = None \<rparr>"

definition demo_node :: "acl_rule list \<Rightarrow> directory_state_node" where
  "demo_node rules = createGenesisNode\<lparr> defaultPolicy := Some demo_policy, rulesByType := [(rt_doc_create, rules)] \<rparr>"

definition demo_input :: "acl_rule list \<Rightarrow> bool \<Rightarrow> js_object option \<Rightarrow> evaluate_access_input" where
  "demo_input rules srv doc =
     \<lparr> in_op = rt_doc_create, in_dbid = ''main'',
       in_identity = \<lparr> id_username = ''ada'', id_usernames = [''ada''], id_groups = [], id_hashes = [''$everyone''] \<rparr>,
       in_node = demo_node rules, in_beforeDoc = None, in_afterDoc = doc, in_isServer = srv \<rparr>"

lemmas demo_eval =
  demo_input_def demo_node_def demo_rule_def owner_clause_def demo_policy_def createGenesisNode_def
  evaluateAccess_def candidate_rules_def effective_for_def effectivePolicy_def pick_field_def rules_for_def
  intersects_def eval_rule_def eval_acc0_def isTier2_def clauses_of_def withFieldsPass_def evaluateClause_def
  resolveValue_def readPath_def js_strict_eq_def defaultWhenForOp_def rule_tier_def

theorem server_deny_sound_witness:
  "\<not> allowed (evaluateAccess no_proto (demo_input [] False (Some [(''owner'', JStr ''ada'')])))"
proof -
  have "\<not> allowed (evaluateAccess no_proto (demo_input [] True None))"
    by (simp add: demo_eval)
  moreover have "demo_input [] False (Some [(''owner'', JStr ''ada'')]) = (demo_input [] True None)
      \<lparr> in_isServer := False, in_beforeDoc := None, in_afterDoc := Some [(''owner'', JStr ''ada'')] \<rparr>"
    by (simp add: demo_input_def)
  moreover have "in_isServer (demo_input [] True None)" by (simp add: demo_input_def)
  ultimately show ?thesis using server_deny_sound by blast
qed

theorem verdict_order_independent_witness:
  "allowed (evaluateAccess no_proto ((demo_input [] False (Some [(''owner'', JStr ''ada'')]))
      \<lparr> in_node := demo_node [demo_rule ''r1'' action_allow (Some [owner_clause]), demo_rule ''r2'' action_allow None] \<rparr>)) \<and>
   allowed (evaluateAccess no_proto ((demo_input [] False (Some [(''owner'', JStr ''ada'')]))
      \<lparr> in_node := demo_node [demo_rule ''r2'' action_allow None, demo_rule ''r1'' action_allow (Some [owner_clause])] \<rparr>))"
proof -
  let ?inp = "demo_input [] False (Some [(''owner'', JStr ''ada'')])"
  let ?n1 = "demo_node [demo_rule ''r1'' action_allow (Some [owner_clause]), demo_rule ''r2'' action_allow None]"
  let ?n2 = "demo_node [demo_rule ''r2'' action_allow None, demo_rule ''r1'' action_allow (Some [owner_clause])]"
  have "allowed (evaluateAccess no_proto (?inp\<lparr> in_node := ?n1 \<rparr>))" by (simp add: demo_eval)
  moreover have "allowed (evaluateAccess no_proto (?inp\<lparr> in_node := ?n1 \<rparr>)) = allowed (evaluateAccess no_proto (?inp\<lparr> in_node := ?n2 \<rparr>))"
    by (rule verdict_order_independent) (auto simp: demo_node_def rules_for_def demo_input_def)
  ultimately show ?thesis by simp
qed

theorem access_verdict_correct_witness:
  "\<exists>r \<in> set (candidate_rules (demo_input [demo_rule ''r1'' action_deny (Some [owner_clause])] False (Some [(''owner'', JStr ''ada'')]))).
     ruleId r = ''r1'' \<and> rule_action_of r \<noteq> action_allow"
proof -
  let ?inp = "demo_input [demo_rule ''r1'' action_deny (Some [owner_clause])] False (Some [(''owner'', JStr ''ada'')])"
  have "matchedRuleId (evaluateAccess no_proto ?inp) = Some ''r1''" "\<not> allowed (evaluateAccess no_proto ?inp)"
    by (simp_all add: demo_eval)
  with access_verdict_correct [of no_proto ?inp] show ?thesis by blast
qed

end
