(* ===== verification/GrantKeys.thy ===== *)
theory GrantKeys
  imports JsValue
begin

text \<open>
  The key fields of a grant document (\<^verbatim>\<open>core/accesscontrol/grantKeys.ts\<close>): the canonical lists
  of active and revoked devices, the legacy parallel arrays and scalars, and the writer that
  keeps all of them in step. The document is an untyped record; \<^verbatim>\<open>Date.now()\<close> is the
  argument \<open>now\<close>.
\<close>

section \<open>Readers\<close>

record grant_key_pair =
  signingPublicKey :: string
  encryptionPublicKey :: string
  pair_label :: "string option"
  addedAt :: "rat option"
  joinResponseWrapped :: "string option"
  revoked :: "bool option"
  revokedAt :: "rat option"

definition asScalarString :: "js_value \<Rightarrow> string option" where
  "asScalarString v = (case js_string v of Some s \<Rightarrow> if s \<noteq> '''' then Some s else None | None \<Rightarrow> None)"

definition asStringArray :: "js_value \<Rightarrow> string list" where
  "asStringArray v = (case js_array v of None \<Rightarrow> [] | Some xs \<Rightarrow> List.map_filter asScalarString xs)"

definition asLabel :: "js_value \<Rightarrow> string option" where
  "asLabel v = (case js_string v of Some s \<Rightarrow> if s \<noteq> '''' then Some s else None | None \<Rightarrow> None)"

definition legacy_list :: "js_value \<Rightarrow> js_value \<Rightarrow> string list" where
  "legacy_list arr scalar =
     (if js_array arr \<noteq> None then js_dedup (asStringArray arr)
      else case asScalarString scalar of Some s \<Rightarrow> [s] | None \<Rightarrow> [])"

definition legacySigningKeys :: "js_object \<Rightarrow> string list" where
  "legacySigningKeys data = legacy_list (js_prop data ''userSigningPublicKeys'') (js_prop data ''userSigningPublicKey'')"

definition legacyEncryptionKeys :: "js_object \<Rightarrow> string list" where
  "legacyEncryptionKeys data = legacy_list (js_prop data ''userEncryptionPublicKeys'') (js_prop data ''userEncryptionPublicKey'')"

text \<open>One entry of a key list, when it has a signing key.\<close>

definition parse_pair :: "bool \<Rightarrow> js_value \<Rightarrow> grant_key_pair option" where
  "parse_pair markRevoked entry =
     (case js_members entry of
        None \<Rightarrow> None
      | Some rec \<Rightarrow>
          (case asScalarString (js_prop rec ''signingPublicKey'') of
             None \<Rightarrow> None
           | Some key \<Rightarrow>
               Some \<lparr> signingPublicKey = key,
                      encryptionPublicKey =
                        (case asScalarString (js_prop rec ''encryptionPublicKey'') of Some e \<Rightarrow> e | None \<Rightarrow> ''''),
                      pair_label = asLabel (js_prop rec ''label''),
                      addedAt = js_number (js_prop rec ''addedAt''),
                      joinResponseWrapped = asScalarString (js_prop rec ''joinResponseWrapped''),
                      revoked = (if markRevoked then Some True else None),
                      revokedAt = (if markRevoked then js_number (js_prop rec ''revokedAt'') else None) \<rparr>))"

fun parse_entries :: "bool \<Rightarrow> string jsset \<Rightarrow> js_value list \<Rightarrow> grant_key_pair list" where
  "parse_entries markRevoked seen [] = []"
| "parse_entries markRevoked seen (entry # es) =
     (case parse_pair markRevoked entry of
        None \<Rightarrow> parse_entries markRevoked seen es
      | Some p \<Rightarrow>
          if signingPublicKey p \<in> set seen then parse_entries markRevoked seen es
          else p # parse_entries markRevoked (set_add (signingPublicKey p) seen) es)"

definition parsePairEntries :: "js_value \<Rightarrow> bool \<Rightarrow> grant_key_pair list" where
  "parsePairEntries v markRevoked =
     (case js_array v of None \<Rightarrow> [] | Some xs \<Rightarrow> parse_entries markRevoked [] xs)"

definition hasCanonicalKeyLists :: "js_object \<Rightarrow> bool" where
  "hasCanonicalKeyLists data \<longleftrightarrow>
     js_array (js_prop data ''userKeyPairs'') \<noteq> None \<or> js_array (js_prop data ''revokedUserKeyPairs'') \<noteq> None"

definition canonicalActivePairs :: "js_object \<Rightarrow> grant_key_pair list" where
  "canonicalActivePairs data = parsePairEntries (js_prop data ''userKeyPairs'') False"

definition canonicalRevokedPairs :: "js_object \<Rightarrow> grant_key_pair list" where
  "canonicalRevokedPairs data = parsePairEntries (js_prop data ''revokedUserKeyPairs'') True"

definition plain_pair :: "string \<Rightarrow> string \<Rightarrow> grant_key_pair" where
  "plain_pair sk ek = \<lparr> signingPublicKey = sk, encryptionPublicKey = ek, pair_label = None, addedAt = None,
     joinResponseWrapped = None, revoked = None, revokedAt = None \<rparr>"

fun zip_legacy :: "string list \<Rightarrow> nat \<Rightarrow> string jsset \<Rightarrow> string list \<Rightarrow> grant_key_pair list" where
  "zip_legacy encryption index seen [] = []"
| "zip_legacy encryption index seen (sk # sks) =
     (if sk \<in> set seen then zip_legacy encryption (Suc index) seen sks
      else plain_pair sk (if index < length encryption then encryption ! index else '''')
           # zip_legacy encryption (Suc index) (set_add sk seen) sks)"

definition legacyKeyPairs :: "js_object \<Rightarrow> grant_key_pair list" where
  "legacyKeyPairs data = zip_legacy (legacyEncryptionKeys data) 0 [] (legacySigningKeys data)"

definition extractKeyPairs :: "js_object \<Rightarrow> grant_key_pair list" where
  "extractKeyPairs data =
     (if hasCanonicalKeyLists data then canonicalActivePairs data @ canonicalRevokedPairs data
      else legacyKeyPairs data)"

definition extractActiveKeyPairs :: "js_object \<Rightarrow> grant_key_pair list" where
  "extractActiveKeyPairs data =
     (if hasCanonicalKeyLists data then canonicalActivePairs data else legacyKeyPairs data)"

definition extractRevokedKeyPairs :: "js_object \<Rightarrow> grant_key_pair list" where
  "extractRevokedKeyPairs data = canonicalRevokedPairs data"

definition extractSigningPublicKeys :: "js_object \<Rightarrow> string list" where
  "extractSigningPublicKeys data =
     (if hasCanonicalKeyLists data then js_dedup (map signingPublicKey (extractActiveKeyPairs data))
      else legacySigningKeys data)"

definition extractEncryptionPublicKeys :: "js_object \<Rightarrow> string list" where
  "extractEncryptionPublicKeys data =
     (if hasCanonicalKeyLists data
      then js_dedup (filter (\<lambda>k. k \<noteq> '''') (map encryptionPublicKey (extractActiveKeyPairs data)))
      else legacyEncryptionKeys data)"

definition first_or_null :: "string list \<Rightarrow> string option" where
  "first_or_null ks = (case ks of [] \<Rightarrow> None | k # _ \<Rightarrow> Some k)"

definition primarySigningPublicKey :: "js_object \<Rightarrow> string option" where
  "primarySigningPublicKey data = first_or_null (extractSigningPublicKeys data)"

definition primaryEncryptionPublicKey :: "js_object \<Rightarrow> string option" where
  "primaryEncryptionPublicKey data = first_or_null (extractEncryptionPublicKeys data)"

definition extractWipeRequestedSigningKeys :: "js_object \<Rightarrow> string list" where
  "extractWipeRequestedSigningKeys data = js_dedup (asStringArray (js_prop data ''wipeRequestedForSigningKeys''))"

section \<open>Writers\<close>

definition opt_field :: "string \<Rightarrow> string option \<Rightarrow> js_object" where
  "opt_field name v = (case v of Some s \<Rightarrow> if s \<noteq> '''' then [(name, JStr s)] else [] | None \<Rightarrow> [])"

definition pair_entry :: "rat \<Rightarrow> grant_key_pair \<Rightarrow> js_object" where
  "pair_entry now p =
     [(''signingPublicKey'', JStr (signingPublicKey p)), (''encryptionPublicKey'', JStr (encryptionPublicKey p))]
     @ opt_field ''label'' (pair_label p)
     @ [(''addedAt'', JNum (case addedAt p of Some t \<Rightarrow> t | None \<Rightarrow> now))]
     @ opt_field ''joinResponseWrapped'' (joinResponseWrapped p)"

definition revoked_entry :: "rat \<Rightarrow> grant_key_pair \<Rightarrow> js_object" where
  "revoked_entry now p =
     pair_entry now p @ (case revokedAt p of Some t \<Rightarrow> [(''revokedAt'', JNum t)] | None \<Rightarrow> [])"

definition active_pairs :: "grant_key_pair list \<Rightarrow> grant_key_pair list" where
  "active_pairs pairs = filter (\<lambda>p. revoked p \<noteq> Some True) pairs"

definition revoked_pairs :: "grant_key_pair list \<Rightarrow> grant_key_pair list" where
  "revoked_pairs pairs = filter (\<lambda>p. revoked p = Some True) pairs"

definition applyKeyPairFields :: "rat \<Rightarrow> grant_key_pair list \<Rightarrow> js_object \<Rightarrow> js_object" where
  "applyKeyPairFields now pairs data =
     (let activePairs = active_pairs pairs;
          d1 = AList.update ''userKeyPairs'' (JArr (map (\<lambda>p. JObj (pair_entry now p)) activePairs)) data;
          d2 = AList.update ''revokedUserKeyPairs'' (JArr (map (\<lambda>p. JObj (revoked_entry now p)) (revoked_pairs pairs))) d1;
          d3 = AList.update ''userSigningPublicKeys'' (JArr (map (\<lambda>p. JStr (signingPublicKey p)) activePairs)) d2;
          d4 = AList.update ''userEncryptionPublicKeys''
                 (JArr (map JStr (filter (\<lambda>k. k \<noteq> '''') (map encryptionPublicKey activePairs)))) d3
      in case activePairs of
           [] \<Rightarrow> d4
         | p # _ \<Rightarrow> AList.update ''userEncryptionPublicKey'' (JStr (encryptionPublicKey p))
                      (AList.update ''userSigningPublicKey'' (JStr (signingPublicKey p)) d4))"

definition merge_one :: "(string, grant_key_pair) jsmap \<Rightarrow> grant_key_pair \<Rightarrow> (string, grant_key_pair) jsmap" where
  "merge_one merged p =
     (case map_of merged (signingPublicKey p) of
        None \<Rightarrow> AList.update (signingPublicKey p) p merged
      | Some previous \<Rightarrow>
          let n1 = (if addedAt p = None \<and> addedAt previous \<noteq> None then p\<lparr> addedAt := addedAt previous \<rparr> else p);
              n2 = (if joinResponseWrapped p \<in> {None, Some ''''} \<and> joinResponseWrapped previous \<notin> {None, Some ''''}
                    then n1\<lparr> joinResponseWrapped := joinResponseWrapped previous \<rparr> else n1)
          in AList.update (signingPublicKey p) n2 merged)"

definition mergeKeyPairs :: "grant_key_pair list \<Rightarrow> grant_key_pair list \<Rightarrow> grant_key_pair list" where
  "mergeKeyPairs existing additional =
     map_values (foldl merge_one (foldl (\<lambda>m p. AList.update (signingPublicKey p) p m) [] existing) additional)"

section \<open>What a written document says\<close>

definition nonempty :: "string option \<Rightarrow> string option" where
  "nonempty v = (case v of Some s \<Rightarrow> if s \<noteq> '''' then Some s else None | None \<Rightarrow> None)"

text \<open>A pair as the lists keep it: empty texts are dropped and the time it was added is filled in.\<close>

definition stored_pair :: "rat \<Rightarrow> bool \<Rightarrow> grant_key_pair \<Rightarrow> grant_key_pair" where
  "stored_pair now isRevoked p =
     p\<lparr> pair_label := nonempty (pair_label p),
        addedAt := Some (case addedAt p of Some t \<Rightarrow> t | None \<Rightarrow> now),
        joinResponseWrapped := nonempty (joinResponseWrapped p),
        revoked := (if isRevoked then Some True else None),
        revokedAt := (if isRevoked then revokedAt p else None) \<rparr>"

lemma stored_pair_key [simp]: "signingPublicKey (stored_pair now r p) = signingPublicKey p"
  by (simp add: stored_pair_def)

lemma map_of_opt_field:
  "map_of (opt_field n v) k = (if k = n then map_option JStr (nonempty v) else None)"
  by (simp add: opt_field_def nonempty_def split: option.splits)

lemma pair_entry_lookup:
  "map_of (pair_entry now p) ''signingPublicKey'' = Some (JStr (signingPublicKey p))"
  "map_of (pair_entry now p) ''encryptionPublicKey'' = Some (JStr (encryptionPublicKey p))"
  "map_of (pair_entry now p) ''label'' = map_option JStr (nonempty (pair_label p))"
  "map_of (pair_entry now p) ''addedAt'' = Some (JNum (case addedAt p of Some t \<Rightarrow> t | None \<Rightarrow> now))"
  "map_of (pair_entry now p) ''joinResponseWrapped'' = map_option JStr (nonempty (joinResponseWrapped p))"
  "map_of (pair_entry now p) ''revokedAt'' = None"
  by (simp_all add: pair_entry_def map_add_def map_of_opt_field split: option.splits)

lemma revoked_entry_lookup:
  "k \<noteq> ''revokedAt'' \<Longrightarrow> map_of (revoked_entry now p) k = map_of (pair_entry now p) k"
  "map_of (revoked_entry now p) ''revokedAt'' = map_option JNum (revokedAt p)"
  by (simp_all add: revoked_entry_def map_add_def pair_entry_lookup split: option.splits)

lemma text_value:
  "asLabel (JStr v) = nonempty (Some v)" "asScalarString (JStr v) = nonempty (Some v)"
  "asLabel JUndefined = None" "asScalarString JUndefined = None"
  "nonempty (nonempty w) = nonempty w" "nonempty None = None"
  by (simp_all add: asLabel_def asScalarString_def nonempty_def split: option.splits)

lemma text_case: "(case nonempty (Some v) of None \<Rightarrow> '''' | Some e \<Rightarrow> e) = v"
  by (simp add: nonempty_def)

lemma entry_fields:
  "asScalarString (js_prop (pair_entry now p) ''signingPublicKey'') = nonempty (Some (signingPublicKey p))"
  "asScalarString (js_prop (pair_entry now p) ''encryptionPublicKey'') = nonempty (Some (encryptionPublicKey p))"
  "asLabel (js_prop (pair_entry now p) ''label'') = nonempty (pair_label p)"
  "js_number (js_prop (pair_entry now p) ''addedAt'') = Some (case addedAt p of Some t \<Rightarrow> t | None \<Rightarrow> now)"
  "asScalarString (js_prop (pair_entry now p) ''joinResponseWrapped'') = nonempty (joinResponseWrapped p)"
  "k \<noteq> ''revokedAt'' \<Longrightarrow> js_prop (revoked_entry now p) k = js_prop (pair_entry now p) k"
  "js_number (js_prop (revoked_entry now p) ''revokedAt'') = revokedAt p"
  by (simp_all add: js_prop_def pair_entry_lookup revoked_entry_lookup text_value split: option.splits)
    (auto simp: text_value nonempty_def split: option.splits)

lemma parse_written:
  assumes "signingPublicKey p \<noteq> ''''"
  shows "parse_pair False (JObj (pair_entry now p)) = Some (stored_pair now False p)"
    and "parse_pair True (JObj (revoked_entry now p)) = Some (stored_pair now True p)"
proof -
  have sk: "nonempty (Some (signingPublicKey p)) = Some (signingPublicKey p)"
    using assms by (simp add: nonempty_def)
  show "parse_pair False (JObj (pair_entry now p)) = Some (stored_pair now False p)"
    by (simp add: parse_pair_def entry_fields text_case sk stored_pair_def grant_key_pair.defs)
  show "parse_pair True (JObj (revoked_entry now p)) = Some (stored_pair now True p)"
    by (simp add: parse_pair_def entry_fields text_case sk stored_pair_def)
qed

lemma parse_entries_map:
  assumes "\<And>p. p \<in> set ps \<Longrightarrow> parse_pair r (f p) = Some (g p) \<and> signingPublicKey (g p) = signingPublicKey p"
    and "distinct (map signingPublicKey ps)" and "set (map signingPublicKey ps) \<inter> set seen = {}"
  shows "parse_entries r seen (map f ps) = map g ps"
  using assms by (induction ps arbitrary: seen) auto

lemma apply_lookup:
  "js_prop (applyKeyPairFields now pairs data) ''userKeyPairs'' = JArr (map (\<lambda>p. JObj (pair_entry now p)) (active_pairs pairs))"
  "js_prop (applyKeyPairFields now pairs data) ''revokedUserKeyPairs'' = JArr (map (\<lambda>p. JObj (revoked_entry now p)) (revoked_pairs pairs))"
  "js_prop (applyKeyPairFields now pairs data) ''userSigningPublicKeys'' = JArr (map (\<lambda>p. JStr (signingPublicKey p)) (active_pairs pairs))"
  "js_prop (applyKeyPairFields now pairs data) ''userEncryptionPublicKeys'' =
     JArr (map JStr (filter (\<lambda>k. k \<noteq> '''') (map encryptionPublicKey (active_pairs pairs))))"
  by (simp_all add: applyKeyPairFields_def js_prop_def map_of_update Let_def split: list.splits)

lemma apply_other:
  assumes "name \<notin> {''userKeyPairs'', ''revokedUserKeyPairs'', ''userSigningPublicKeys'', ''userEncryptionPublicKeys'',
                   ''userSigningPublicKey'', ''userEncryptionPublicKey''}"
  shows "js_prop (applyKeyPairFields now pairs data) name = js_prop data name"
  using assms by (simp add: applyKeyPairFields_def js_prop_def map_of_update Let_def split: list.splits)

lemma apply_canonical: "hasCanonicalKeyLists (applyKeyPairFields now pairs data)"
  by (simp add: hasCanonicalKeyLists_def apply_lookup)

text \<open>
  Writing a list of devices into a grant document and reading it back gives the same
  devices, the active ones first: every field survives, empty labels and responses become absent,
  and a missing time of addition is the time of the write. No field of an older form of the
  document takes part.
\<close>

theorem grant_keys_roundtrip:
  assumes "\<forall>p \<in> set pairs. signingPublicKey p \<noteq> ''''" and "distinct (map signingPublicKey pairs)"
  shows "extractKeyPairs (applyKeyPairFields now pairs data) =
           map (stored_pair now False) (active_pairs pairs) @ map (stored_pair now True) (revoked_pairs pairs) \<and>
         extractActiveKeyPairs (applyKeyPairFields now pairs data) = map (stored_pair now False) (active_pairs pairs) \<and>
         extractRevokedKeyPairs (applyKeyPairFields now pairs data) = map (stored_pair now True) (revoked_pairs pairs)"
proof -
  have d: "distinct (map signingPublicKey (filter P pairs))" for P
    using assms(2) by (rule distinct_map_filter)
  have "canonicalActivePairs (applyKeyPairFields now pairs data) = map (stored_pair now False) (active_pairs pairs)"
    unfolding canonicalActivePairs_def parsePairEntries_def apply_lookup js_array.simps option.case
    by (rule parse_entries_map) (use assms(1) parse_written(1) d in \<open>auto simp: active_pairs_def\<close>)
  moreover have "canonicalRevokedPairs (applyKeyPairFields now pairs data) = map (stored_pair now True) (revoked_pairs pairs)"
    unfolding canonicalRevokedPairs_def parsePairEntries_def apply_lookup js_array.simps option.case
    by (rule parse_entries_map) (use assms(1) parse_written(2) d in \<open>auto simp: revoked_pairs_def\<close>)
  ultimately show ?thesis
    by (simp add: extractKeyPairs_def extractActiveKeyPairs_def extractRevokedKeyPairs_def apply_canonical)
qed

definition demo_pair :: "string \<Rightarrow> string \<Rightarrow> bool option \<Rightarrow> grant_key_pair" where
  "demo_pair sk ek r = (plain_pair sk ek)\<lparr> revoked := r \<rparr>"

theorem grant_keys_roundtrip_witness:
  "extractActiveKeyPairs (applyKeyPairFields 9 [demo_pair ''a'' ''x'' None, demo_pair ''b'' '''' (Some True)] []) =
     [stored_pair 9 False (demo_pair ''a'' ''x'' None)]"
  using grant_keys_roundtrip [of "[demo_pair ''a'' ''x'' None, demo_pair ''b'' '''' (Some True)]" 9 "[]"]
  by (simp add: demo_pair_def plain_pair_def active_pairs_def)

lemma parse_entries_keys:
  "signingPublicKey ` set (parse_entries r seen es) = {signingPublicKey p | p e. e \<in> set es \<and> parse_pair r e = Some p} - set seen"
  by (induction es arbitrary: seen) (auto split: option.splits)

lemma parse_written_key:
  "parse_pair False (JObj (pair_entry now p)) =
     (if signingPublicKey p = '''' then None else Some (stored_pair now False p))"
  by (cases "signingPublicKey p = ''''") (simp_all add: parse_written, simp add: parse_pair_def entry_fields nonempty_def)

lemma active_keys_written:
  "signingPublicKey ` set (extractActiveKeyPairs (applyKeyPairFields now pairs data)) =
     {signingPublicKey p | p. p \<in> set pairs \<and> revoked p \<noteq> Some True \<and> signingPublicKey p \<noteq> ''''}"
proof -
  have "signingPublicKey ` set (canonicalActivePairs (applyKeyPairFields now pairs data)) =
     {signingPublicKey q | q e. e \<in> (\<lambda>p. JObj (pair_entry now p)) ` set (active_pairs pairs) \<and> parse_pair False e = Some q}"
    unfolding canonicalActivePairs_def parsePairEntries_def apply_lookup js_array.simps option.case parse_entries_keys
    by simp
  also have "\<dots> = {signingPublicKey q | q p. p \<in> set (active_pairs pairs) \<and> signingPublicKey p \<noteq> '''' \<and> q = stored_pair now False p}"
  proof -
    have "(e \<in> (\<lambda>p. JObj (pair_entry now p)) ` set (active_pairs pairs) \<and> parse_pair False e = Some q) \<longleftrightarrow>
        (\<exists>p \<in> set (active_pairs pairs). e = JObj (pair_entry now p) \<and> signingPublicKey p \<noteq> '''' \<and> q = stored_pair now False p)"
      for e q by (auto simp: parse_written_key split: if_splits)
    then show ?thesis by blast
  qed
  also have "\<dots> = {signingPublicKey p | p. p \<in> set pairs \<and> revoked p \<noteq> Some True \<and> signingPublicKey p \<noteq> ''''}"
    by (auto simp: active_pairs_def) (metis stored_pair_key)
  finally show ?thesis by (simp add: extractActiveKeyPairs_def apply_canonical)
qed

text \<open>
  A revoked device has no access: the signing keys a written grant document grants are
  exactly the keys of the devices that are not revoked, both for readers of the current form and
  for older readers of the parallel arrays.
\<close>

theorem revoked_device_not_granted:
  "set (extractSigningPublicKeys (applyKeyPairFields now pairs data)) =
     {signingPublicKey p | p. p \<in> set pairs \<and> revoked p \<noteq> Some True \<and> signingPublicKey p \<noteq> ''''} \<and>
   set (legacySigningKeys (applyKeyPairFields now pairs data)) =
     {signingPublicKey p | p. p \<in> set pairs \<and> revoked p \<noteq> Some True \<and> signingPublicKey p \<noteq> ''''}"
proof
  show "set (extractSigningPublicKeys (applyKeyPairFields now pairs data)) =
     {signingPublicKey p | p. p \<in> set pairs \<and> revoked p \<noteq> Some True \<and> signingPublicKey p \<noteq> ''''}"
    using active_keys_written [of now pairs data] by (simp add: extractSigningPublicKeys_def apply_canonical)
  have "List.map_filter asScalarString (map (\<lambda>p. JStr (signingPublicKey p)) ps) =
        filter (\<lambda>k. k \<noteq> '''') (map signingPublicKey ps)" for ps :: "grant_key_pair list"
    by (induction ps) (auto simp: map_filter_def asScalarString_def)
  then show "set (legacySigningKeys (applyKeyPairFields now pairs data)) =
     {signingPublicKey p | p. p \<in> set pairs \<and> revoked p \<noteq> Some True \<and> signingPublicKey p \<noteq> ''''}"
    by (auto simp: legacySigningKeys_def legacy_list_def apply_lookup asStringArray_def active_pairs_def)
qed

text \<open>
  Older readers can see a device with the encryption key of another device: the parallel
  array of encryption keys that is written leaves out empty keys, while the readers of that form
  pair the two arrays by index.
\<close>

theorem legacy_pairs_misaligned:
  assumes "ek \<noteq> ''''" and "a \<noteq> b" and "a \<noteq> ''''" and "b \<noteq> ''''"
  shows "legacyKeyPairs (applyKeyPairFields now [plain_pair a '''', plain_pair b ek] data) =
         [plain_pair a ek, plain_pair b '''']"
  using assms
  by (simp add: legacyKeyPairs_def legacySigningKeys_def legacyEncryptionKeys_def legacy_list_def apply_lookup
      asStringArray_def asScalarString_def active_pairs_def plain_pair_def map_filter_simps js_dedup_def set_add_def)

theorem legacy_pairs_misaligned_witness:
  "legacyKeyPairs (applyKeyPairFields 1 [plain_pair ''a'' '''', plain_pair ''b'' ''e''] []) =
     [plain_pair ''a'' ''e'', plain_pair ''b'' '''']"
  by (rule legacy_pairs_misaligned) simp_all

section \<open>Merging\<close>

text \<open>What a device is, apart from the two fields that a merge may carry over.\<close>

definition pair_core :: "grant_key_pair \<Rightarrow> grant_key_pair" where
  "pair_core p = p\<lparr> addedAt := None, joinResponseWrapped := None \<rparr>"

lemma find_rev_snoc: "find P (rev (xs @ [x])) = (if P x then Some x else find P (rev xs))"
  by simp

definition keyed_pairs :: "(string, grant_key_pair) jsmap \<Rightarrow> grant_key_pair list \<Rightarrow> bool" where
  "keyed_pairs m ps \<longleftrightarrow> map_keys m = js_dedup (map signingPublicKey ps) \<and>
     (\<forall>k p. map_of m k = Some p \<longrightarrow> signingPublicKey p = k) \<and>
     (\<forall>k. map_option pair_core (map_of m k) = map_option pair_core (find (\<lambda>p. signingPublicKey p = k) (rev ps)))"

lemma js_dedup_snoc: "js_dedup (xs @ [x]) = set_add x (js_dedup xs)"
  by (simp add: js_dedup_def)

lemma keyed_pairs_update:
  assumes "keyed_pairs m ps" and "pair_core q = pair_core p"
  shows "keyed_pairs (AList.update (signingPublicKey p) q m) (ps @ [p])"
proof -
  have k: "signingPublicKey q = signingPublicKey p"
    using arg_cong [OF assms(2), of signingPublicKey] by (simp add: pair_core_def)
  have "map_keys (AList.update (signingPublicKey p) q m) = js_dedup (map signingPublicKey (ps @ [p]))"
    using assms(1) by (auto simp: keyed_pairs_def keys_update js_dedup_snoc set_add_def simp del: set_map)
  then show ?thesis
    using assms k by (auto simp: keyed_pairs_def map_of_update)
qed

lemma merge_one_keyed: "keyed_pairs m ps \<Longrightarrow> keyed_pairs (merge_one m p) (ps @ [p])"
  by (auto simp: merge_one_def Let_def pair_core_def intro!: keyed_pairs_update split: option.splits)

lemma merge_keyed:
  "keyed_pairs (foldl merge_one (foldl (\<lambda>m p. AList.update (signingPublicKey p) p m) [] es) as) (es @ as)"
proof (induction as rule: rev_induct)
  case Nil
  show ?case
  proof (induction es rule: rev_induct)
    case Nil
    show ?case by (simp add: keyed_pairs_def js_dedup_def)
  qed (use keyed_pairs_update in simp)
qed (use merge_one_keyed in \<open>simp flip: append_assoc\<close>)

text \<open>
  Merging device lists keeps one entry per signing key, in the order in which the keys were
  first seen, and for each key the device as it was given last, its revocation and encryption key
  included.
\<close>

theorem merge_key_pairs_last_wins:
  "map signingPublicKey (mergeKeyPairs existing additional) =
     js_dedup (map signingPublicKey (existing @ additional)) \<and>
   map_option pair_core (find (\<lambda>p. signingPublicKey p = k) (mergeKeyPairs existing additional)) =
     map_option pair_core (find (\<lambda>p. signingPublicKey p = k) (rev (existing @ additional)))"
proof -
  let ?m = "foldl merge_one (foldl (\<lambda>m p. AList.update (signingPublicKey p) p m) [] existing) additional"
  have ok: "keyed_pairs ?m (existing @ additional)" by (rule merge_keyed)
  then have d: "distinct (map_keys ?m)" unfolding keyed_pairs_def by (metis distinct_js_dedup)
  have pairs: "\<forall>(k, p) \<in> set ?m. signingPublicKey p = k"
    using ok map_of_Some_iff [OF d] unfolding keyed_pairs_def by blast
  have keys: "map signingPublicKey (map_values xs) = map_keys xs"
    and look: "find (\<lambda>p. signingPublicKey p = k) (map_values xs) = map_of xs k"
    if "\<forall>(k, p) \<in> set xs. signingPublicKey p = k" for xs
    using that by (induction xs) auto
  from keys [OF pairs] look [OF pairs] ok show ?thesis unfolding mergeKeyPairs_def keyed_pairs_def by metis
qed

end
