(* ===== verification/DirectoryProjection.thy ===== *)
theory DirectoryProjection
  imports DirectoryChain GrantKeys
begin

text \<open>
  The projection of directory document revisions onto the state chain
  (\<^verbatim>\<open>core/accesscontrol/directoryProjection.ts\<close>): the parsers of policy and rule documents and
  the classification of a revision into one call of the chain builder. The normalization of group
  names is an argument, as in the code. The projection is \<open>None\<close> only where a database id in a
  document id decodes to text outside the model's code units.
\<close>

section \<open>Parsers\<close>

definition js_strings :: "js_value list \<Rightarrow> string list" where
  "js_strings xs = List.map_filter js_string xs"

definition parsePolicyDoc :: "js_object \<Rightarrow> access_policy" where
  "parsePolicyDoc data =
     \<lparr> disableAllAccessChecksAndPolicies = js_boolean (js_prop data ''disableAllAccessChecksAndPolicies''),
       denyDocCreate = js_boolean (js_prop data ''denyDocCreate''),
       denyDocChange = js_boolean (js_prop data ''denyDocChange''),
       denyDocDelete = js_boolean (js_prop data ''denyDocDelete''),
       denyDocUndelete = js_boolean (js_prop data ''denyDocUndelete''),
       denyDocSnapshot = js_boolean (js_prop data ''denyDocSnapshot''),
       denyDocRead = js_boolean (js_prop data ''denyDocRead''),
       defaultCreateKeyId = js_string (js_prop data ''defaultCreateKeyId''),
       databaseCreationPolicy =
         (if js_prop data ''databaseCreationPolicy'' = JStr ''directory-restricted'' then Some dbc_directory_restricted
          else if js_prop data ''databaseCreationPolicy'' = JStr ''open'' then Some dbc_open else None),
       allowedDbIds = map_option js_strings (js_array (js_prop data ''allowedDbIds'')),
       requireMetadataSignatureSince = js_number (js_prop data ''requireMetadataSignatureSince'') \<rparr>"

fun operator_of_name :: "string \<Rightarrow> clause_operator" where
  "operator_of_name s =
     (if s = ''equals'' then op_equals else if s = ''notEquals'' then op_notEquals
      else if s = ''contains'' then op_contains else if s = ''containsAny'' then op_containsAny
      else if s = ''containsAll'' then op_containsAll else if s = ''exists'' then op_exists
      else if s = ''notExists'' then op_notExists else if s = ''gt'' then op_gt
      else if s = ''gte'' then op_gte else if s = ''lt'' then op_lt
      else if s = ''lte'' then op_lte else op_unknown)"

text \<open>The clauses stay as they are stored; only the key is checked.\<close>

definition parse_clause :: "js_value \<Rightarrow> with_field_clause option" where
  "parse_clause c =
     (case js_members c of
        None \<Rightarrow> None
      | Some rec \<Rightarrow>
          (case js_string (js_prop rec ''key'') of
             None \<Rightarrow> None
           | Some key \<Rightarrow>
               Some \<lparr> clause_key = key,
                      clause_op = (case js_string (js_prop rec ''op'') of Some s \<Rightarrow> operator_of_name s | None \<Rightarrow> op_unknown),
                      clause_val = js_prop rec ''value'',
                      clause_when =
                        (case js_prop rec ''when'' of
                           JUndefined \<Rightarrow> None | JNull \<Rightarrow> None
                         | w \<Rightarrow> Some (if w = JStr ''after'' then when_after
                                      else if w = JStr ''before'' then when_before else when_other)) \<rparr>))"

definition parseRuleDoc :: "js_object \<Rightarrow> string \<Rightarrow> rule_type \<Rightarrow> acl_rule" where
  "parseRuleDoc data rid ruleType =
     \<lparr> rule_type_of = ruleType, ruleId = rid,
       rule_description = js_string (js_prop data ''description''),
       rule_dbid = (case js_string (js_prop data ''dbid'') of Some s \<Rightarrow> s | None \<Rightarrow> ''*''),
       withfields = map_option (List.map_filter parse_clause) (js_array (js_prop data ''withfields'')),
       users_hashes = (case js_array (js_prop data ''users_hashes'') of Some xs \<Rightarrow> js_strings xs | None \<Rightarrow> []),
       users_encrypted = (case js_string (js_prop data ''users_encrypted'') of Some s \<Rightarrow> s | None \<Rightarrow> ''''),
       rule_action_of = (if js_prop data ''action'' = JStr ''deny'' then action_deny else action_allow) \<rparr>"

fun rule_type_of_name :: "string \<Rightarrow> rule_type option" where
  "rule_type_of_name s =
     (if s = ''doc_create'' then Some rt_doc_create else if s = ''doc_change'' then Some rt_doc_change
      else if s = ''doc_delete'' then Some rt_doc_delete else if s = ''doc_undelete'' then Some rt_doc_undelete
      else if s = ''doc_snapshot'' then Some rt_doc_snapshot else if s = ''doc_read'' then Some rt_doc_read
      else None)"

section \<open>The projection\<close>

record directory_revision_input =
  rev_docId :: string
  rev_data :: js_object
  rev_deleted :: bool
  rev_trustedTime :: int

definition ACL_DEFAULT_POLICY_DOC_ID :: string where
  "ACL_DEFAULT_POLICY_DOC_ID = ''acl_defaultpolicy''"

definition ACL_DB_POLICY_PREFIX :: string where
  "ACL_DB_POLICY_PREFIX = ''acl_dbpolicy_''"

definition projectAccessControlDoc ::
  "chain_builder \<Rightarrow> string \<Rightarrow> js_object \<Rightarrow> bool \<Rightarrow> int \<Rightarrow> chain_builder option" where
  "projectAccessControlDoc b d data deleted t =
     (let ty = js_prop data ''type'' in
      if ty = JStr ''defaultpolicy'' then
        (if deleted then Some b
         else if d = ACL_DEFAULT_POLICY_DOC_ID then Some (applyDefaultPolicy (parsePolicyDoc data) t b)
         else if take (length ACL_DB_POLICY_PREFIX) d = ACL_DB_POLICY_PREFIX then
           map_option (\<lambda>dbid. applyDbPolicy dbid (parsePolicyDoc data) t b)
             (decodeAclIdComponent (drop (length ACL_DB_POLICY_PREFIX) d))
         else Some b)
      else if ty \<in> {JStr ''keydistribution'', JStr ''appdistribution'', JStr ''syncsetuppolicy'', JStr ''dochistorypurge''}
        then Some b
      else case (if ty = JStr ''trustedwitness'' then js_string (js_prop data ''witnessPublicKey'') else None) of
        Some key \<Rightarrow>
          Some (if deleted then removeTrustedWitness key t b
                else applyTrustedWitness
                       \<lparr> witnessPublicKey = key, serverUrl = js_string (js_prop data ''serverUrl'') \<rparr> t b)
      | None \<Rightarrow>
          (case (Option.bind (js_string ty) rule_type_of_name, js_string (js_prop data ''ruleId'')) of
             (Some ruleType, Some rid) \<Rightarrow>
               Some (if deleted then removeRule rid ruleType t b
                     else applyRule (parseRuleDoc data rid ruleType) t b)
           | _ \<Rightarrow> Some b))"

definition grant_of_data :: "js_object \<Rightarrow> string \<Rightarrow> user_grant_snapshot" where
  "grant_of_data data h =
     (let pairs = extractActiveKeyPairs data; signing = map signingPublicKey pairs
      in \<lparr> grant_usernameHash = h, grant_signingKeys = signing,
           grant_encryptionKeys = map encryptionPublicKey pairs,
           grant_wipeRequestedSigningKeys = extractWipeRequestedSigningKeys data,
           grant_active = (signing \<noteq> []) \<rparr>)"

definition projectDirectoryRevision ::
  "(string \<Rightarrow> string) \<Rightarrow> chain_builder \<Rightarrow> directory_revision_input \<Rightarrow> chain_builder option" where
  "projectDirectoryRevision normalizeGroupName b r =
     (let d = rev_docId r; data = rev_data r; t = rev_trustedTime r;
          form = js_prop data ''form''; ty = js_prop data ''type'' in
      if form = JStr ''useroperation'' \<and> ty = JStr ''grantaccess'' then
        Some (if rev_deleted r then removeGrantDoc d t b
              else case js_string (js_prop data ''username_hash'') of
                     Some h \<Rightarrow> applyGrantDoc d (grant_of_data data h) t b
                   | None \<Rightarrow> b)
      else if form = JStr ''accesscontrol'' then projectAccessControlDoc b d data (rev_deleted r) t
      else case (if form = JStr ''group'' \<and> ty = JStr ''group'' then js_string (js_prop data ''groupName'') else None) of
        Some rawName \<Rightarrow>
          Some (if rev_deleted r then removeGroupDoc d t b
                else applyGroupDoc d (normalizeGroupName rawName)
                       (case js_array (js_prop data ''members_hashes'') of Some xs \<Rightarrow> js_strings xs | None \<Rightarrow> []) t b)
      | None \<Rightarrow> Some b)"

fun project_all ::
  "(string \<Rightarrow> string) \<Rightarrow> chain_builder \<Rightarrow> directory_revision_input list \<Rightarrow> chain_builder option" where
  "project_all nrm b [] = Some b"
| "project_all nrm b (r # rs) =
     (case projectDirectoryRevision nrm b r of None \<Rightarrow> None | Some b' \<Rightarrow> project_all nrm b' rs)"

section \<open>A projection is at most one logged mutation\<close>

lemma project_acl_delta:
  assumes "projectAccessControlDoc b d data del t = Some b'"
  shows "b' = b \<or> (\<exists>e. \<not> is_revoke e \<and> delta_time e = t \<and> b' = apply_delta b e)"
proof -
  have "\<exists>e. \<not> is_revoke e \<and> delta_time e = t \<and> applyDefaultPolicy p t b = apply_delta b e" for p
    by (rule exI [of _ "DDefaultPolicy t p"]) (simp add: is_revoke_def)
  moreover have "\<exists>e. \<not> is_revoke e \<and> delta_time e = t \<and> applyDbPolicy i p t b = apply_delta b e" for i p
    by (rule exI [of _ "DDbPolicy t i p"]) (simp add: is_revoke_def)
  moreover have "\<exists>e. \<not> is_revoke e \<and> delta_time e = t \<and> applyTrustedWitness w t b = apply_delta b e" for w
    by (rule exI [of _ "DTrustedWitness t w"]) (simp add: is_revoke_def)
  moreover have "\<exists>e. \<not> is_revoke e \<and> delta_time e = t \<and> removeTrustedWitness k t b = apply_delta b e" for k
    by (rule exI [of _ "DRemoveTrustedWitness t k"]) (simp add: is_revoke_def)
  moreover have "\<exists>e. \<not> is_revoke e \<and> delta_time e = t \<and> applyRule r t b = apply_delta b e" for r
    by (rule exI [of _ "DRule t r"]) (simp add: is_revoke_def)
  moreover have "\<exists>e. \<not> is_revoke e \<and> delta_time e = t \<and> removeRule i ty t b = apply_delta b e" for i ty
    by (rule exI [of _ "DRemoveRule t i ty"]) (simp add: is_revoke_def)
  ultimately show ?thesis
    using assms unfolding projectAccessControlDoc_def Let_def
    by (auto split: if_splits option.splits)
qed

lemma project_delta:
  assumes "projectDirectoryRevision nrm b r = Some b'"
  shows "b' = b \<or> (\<exists>e. \<not> is_revoke e \<and> delta_time e = rev_trustedTime r \<and> b' = apply_delta b e)"
proof -
  let ?t = "rev_trustedTime r"
  have "\<exists>e. \<not> is_revoke e \<and> delta_time e = ?t \<and> applyGrantDoc i g ?t b = apply_delta b e" for i g
    by (rule exI [of _ "DGrantDoc ?t i g"]) (simp add: is_revoke_def)
  moreover have "\<exists>e. \<not> is_revoke e \<and> delta_time e = ?t \<and> removeGrantDoc i ?t b = apply_delta b e" for i
    by (rule exI [of _ "DRemoveGrantDoc ?t i"]) (simp add: is_revoke_def)
  moreover have "\<exists>e. \<not> is_revoke e \<and> delta_time e = ?t \<and> applyGroupDoc i n ms ?t b = apply_delta b e" for i n ms
    by (rule exI [of _ "DGroupDoc ?t i n ms"]) (simp add: is_revoke_def)
  moreover have "\<exists>e. \<not> is_revoke e \<and> delta_time e = ?t \<and> removeGroupDoc i ?t b = apply_delta b e" for i
    by (rule exI [of _ "DRemoveGroupDoc ?t i"]) (simp add: is_revoke_def)
  moreover note project_acl_delta [of b "rev_docId r" "rev_data r" "rev_deleted r" ?t b']
  ultimately show ?thesis
    using assms unfolding projectDirectoryRevision_def Let_def
    by (auto split: if_splits option.splits)
qed

lemma project_all_deltas:
  "project_all nrm b rs = Some b' \<Longrightarrow>
     \<exists>ds. b' = foldl apply_delta b ds \<and> (\<forall>e \<in> set ds. \<not> is_revoke e)"
proof (induction rs arbitrary: b)
  case Nil
  then show ?case by (auto intro: exI [of _ "[]"])
next
  case (Cons r rs)
  then obtain b1 where b1: "projectDirectoryRevision nrm b r = Some b1" "project_all nrm b1 rs = Some b'"
    by (auto split: option.splits)
  obtain ds where ds: "b' = foldl apply_delta b1 ds" "\<forall>e \<in> set ds. \<not> is_revoke e"
    using Cons.IH [OF b1(2)] by blast
  from project_delta [OF b1(1)] show ?case
  proof
    assume "\<exists>e. \<not> is_revoke e \<and> delta_time e = rev_trustedTime r \<and> b1 = apply_delta b e"
    then obtain e where e: "\<not> is_revoke e" "b1 = apply_delta b e" by blast
    then show ?thesis using ds by (intro exI [of _ "e # ds"]) simp
  qed (use ds in blast)
qed

section \<open>Revoking a device\<close>

text \<open>The grant documents that a builder knows, other than one, that list a signing key.\<close>

definition granted_elsewhere :: "chain_builder \<Rightarrow> string \<Rightarrow> string \<Rightarrow> bool" where
  "granted_elsewhere b d k \<longleftrightarrow>
     (\<exists>d' c. (d', c) \<in> set (grantContributions b) \<and> d' \<noteq> d \<and> k \<in> set (grant_signingKeys c))"

lemma grantDoc_contributions:
  "grantContributions (applyGrantDoc d g t b) = AList.update d g (grantContributions b)"
  by (simp add: applyGrantDoc_def recomputeUser_def Let_def split: option.splits)

lemma update_values_iff:
  assumes "distinct (map_keys m)"
  shows "(\<exists>v \<in> set (map_values (AList.update d g m)). P v) \<longleftrightarrow> P g \<or> (\<exists>d' c. (d', c) \<in> set m \<and> d' \<noteq> d \<and> P c)"
proof -
  have dd: "distinct (map_keys (AList.update d g m))" using assms by simp
  have "(\<exists>v \<in> set (map_values (AList.update d g m)). P v) \<longleftrightarrow> (\<exists>i v. map_of (AList.update d g m) i = Some v \<and> P v)"
    using map_values_iff [OF dd] by blast
  also have "\<dots> \<longleftrightarrow> P g \<or> (\<exists>i v. i \<noteq> d \<and> map_of m i = Some v \<and> P v)"
    by (auto simp: map_of_update)
  finally show ?thesis using map_of_Some_iff [OF assms] by blast
qed

text \<open>
  C15. Revoking a device takes effect: after any history of directory revisions, once the grant
  document of a user is written with a list of devices and projected, a signing key is trusted
  exactly when it belongs to a device of that list that is not revoked, or another grant document
  still lists it. A device moved to the revoked list is no longer trusted unless a second document
  grants it.
\<close>

theorem device_revocation_effective:
  assumes "project_all nrm reset_builder revs = Some b"
    and "js_prop data ''form'' = JStr ''useroperation''" and "js_prop data ''type'' = JStr ''grantaccess''"
    and "js_prop data ''username_hash'' = JStr h"
  shows "\<exists>b'. projectDirectoryRevision nrm b
           \<lparr> rev_docId = d, rev_data = applyKeyPairFields now pairs data, rev_deleted = False, rev_trustedTime = t \<rparr> = Some b' \<and>
         (map_has (bySigningKey (b_head b')) k \<longleftrightarrow>
            (\<exists>p \<in> set pairs. revoked p \<noteq> Some True \<and> signingPublicKey p = k \<and> k \<noteq> '''') \<or> granted_elsewhere b d k)"
proof -
  let ?data = "applyKeyPairFields now pairs data"
  let ?b' = "applyGrantDoc d (grant_of_data ?data h) t b"
  obtain ds where ds: "b = foldl apply_delta reset_builder ds" "\<forall>e \<in> set ds. \<not> is_revoke e"
    using project_all_deltas [OF assms(1)] by blast
  then have imp: "?b' = importDeltaLog (ds @ [DGrantDoc t d (grant_of_data ?data h)])" "b = importDeltaLog ds"
    by (simp_all add: importDeltaLog_def)
  have "users_ok ?b'" unfolding imp(1) by (rule import_users_ok) (use ds(2) in \<open>auto simp: is_revoke_def\<close>)
  moreover have "chain_indexed ?b'" unfolding imp(1)
    by (rule reachable_induct [of chain_indexed, OF chain_indexed_reset apply_delta_indexed br_import])
  ultimately have "map_has (bySigningKey (b_head ?b')) k \<longleftrightarrow>
      (\<exists>c \<in> set (map_values (AList.update d (grant_of_data ?data h) (grantContributions b))). k \<in> set (grant_signingKeys c))"
    using users_ok_union [of ?b' h k] unfolding grantDoc_contributions by blast
  also have "\<dots> \<longleftrightarrow> k \<in> set (grant_signingKeys (grant_of_data ?data h)) \<or> granted_elsewhere b d k"
    unfolding granted_elsewhere_def
    by (rule update_values_iff) (use import_users_ok [OF ds(2)] imp(2) in \<open>simp add: users_ok_def\<close>)
  also have "k \<in> set (grant_signingKeys (grant_of_data ?data h)) \<longleftrightarrow>
      (\<exists>p \<in> set pairs. revoked p \<noteq> Some True \<and> signingPublicKey p = k \<and> k \<noteq> '''')"
    using active_keys_written [of now pairs data] by (auto simp: grant_of_data_def Let_def)
  finally show ?thesis
    using assms(2-4) by (simp add: projectDirectoryRevision_def apply_other)
qed

text \<open>A directory with one grant document for one device.\<close>

definition demo_user_doc :: js_object where
  "demo_user_doc = [(''form'', JStr ''useroperation''), (''type'', JStr ''grantaccess''), (''username_hash'', JStr ''h'')]"

theorem device_revocation_effective_witness:
  "\<exists>b'. projectDirectoryRevision id reset_builder
      \<lparr> rev_docId = ''d'', rev_data = applyKeyPairFields 9 [demo_pair ''a'' '''' None, demo_pair ''b'' '''' (Some True)] demo_user_doc,
        rev_deleted = False, rev_trustedTime = 5 \<rparr> = Some b' \<and>
    map_has (bySigningKey (b_head b')) ''a''"
  using device_revocation_effective [of id "[]" reset_builder demo_user_doc "''h''" "''d''" 9
      "[demo_pair ''a'' '''' None, demo_pair ''b'' '''' (Some True)]" 5 "''a''"]
  by (simp add: demo_user_doc_def demo_pair_def plain_pair_def js_prop_def)

text \<open>
  The deletion of a policy document is not projected: the tenant policy or the database policy
  stays in force, whatever the document was.
\<close>

theorem policy_deletion_ignored:
  assumes "js_prop data ''form'' = JStr ''accesscontrol''" and "js_prop data ''type'' = JStr ''defaultpolicy''"
  shows "projectDirectoryRevision nrm b
           \<lparr> rev_docId = d, rev_data = data, rev_deleted = True, rev_trustedTime = t \<rparr> = Some b"
  using assms by (simp add: projectDirectoryRevision_def projectAccessControlDoc_def)

end
