(* ===== verification/TimedOrder.thy ===== *)
theory TimedOrder
  imports JsPrelude
begin

text \<open>
  Sorting by trusted time and then by id. The code breaks ties with \<^verbatim>\<open>localeCompare\<close>, whose order
  the runtime defines; what is relied on is the interface \<open>collation\<close>.
\<close>

locale collation =
  fixes lc :: "string \<Rightarrow> string \<Rightarrow> int"
  assumes lc_total: "lc x y \<le> 0 \<or> lc y x \<le> 0"
    and lc_trans: "lc x y \<le> 0 \<Longrightarrow> lc y z \<le> 0 \<Longrightarrow> lc x z \<le> 0"
    and lc_eq: "lc x y \<le> 0 \<Longrightarrow> lc y x \<le> 0 \<Longrightarrow> x = y"

interpretation code_units: collation compare_by
  by unfold_locales auto

text \<open>
  \<^verbatim>\<open>localeCompare\<close> also promises opposite signs for opposite arguments; code that tests
  for a negative result relies on it.
\<close>

locale strict_collation = collation lc for lc +
  assumes lc_sign: "lc x y < 0 \<longleftrightarrow> 0 < lc y x"

interpretation code_units_strict: strict_collation compare_by
  by unfold_locales (auto simp: compare_by_def)

definition timed_cmp :: "(string \<Rightarrow> string \<Rightarrow> int) \<Rightarrow> ('a \<Rightarrow> int) \<Rightarrow> ('a \<Rightarrow> string) \<Rightarrow> 'a \<Rightarrow> 'a \<Rightarrow> int" where
  "timed_cmp lc time ident a b = (if time a = time b then lc (ident a) (ident b) else time a - time b)"

locale timed_collation = collation lc for lc +
  fixes time :: "'a \<Rightarrow> int" and ident :: "'a \<Rightarrow> string"

sublocale timed_collation \<subseteq> timed: js_comparator "timed_cmp lc time ident"
proof
  show "timed_cmp lc time ident x z \<le> 0"
    if "timed_cmp lc time ident x y \<le> 0" "timed_cmp lc time ident y z \<le> 0" for x y z
    using that lc_trans [of "ident x" "ident y" "ident z"] by (auto simp: timed_cmp_def split: if_splits)
  show "timed_cmp lc time ident x y \<le> 0 \<or> timed_cmp lc time ident y x \<le> 0" for x y
    using lc_total by (auto simp: timed_cmp_def)
qed

context timed_collation begin

lemma comparator: "js_comparator (timed_cmp lc time ident)"
  by (rule timed.js_comparator_axioms)

lemma timed_anti:
  assumes "timed_cmp lc time ident x y \<le> 0" and "timed_cmp lc time ident y x \<le> 0"
  shows "ident x = ident y"
  using assms lc_eq by (auto simp: timed_cmp_def split: if_splits)

text \<open>The sorted list is a function of the set of elements, when ids identify them.\<close>

lemma sort_by_set:
  assumes "set xs = set ys" and "distinct (map ident xs)" and "distinct (map ident ys)"
  shows "js_sort (timed_cmp lc time ident) xs = js_sort (timed_cmp lc time ident) ys"
proof (rule timed.js_sort_perm_eq)
  show "mset xs = mset ys"
    using assms by (metis distinct_map set_eq_iff_mset_eq_distinct)
  show "x = y" if "x \<in> set xs" "y \<in> set xs" "timed_cmp lc time ident x y \<le> 0" "timed_cmp lc time ident y x \<le> 0" for x y
    using timed_anti [OF that(3,4)] that(1,2) assms(2) by (auto simp: distinct_map inj_on_def)
qed

lemma sorted_times: "sorted (map time (js_sort (timed_cmp lc time ident) xs))"
proof -
  have "sorted_wrt (\<lambda>a b. time a \<le> time b) (js_sort (timed_cmp lc time ident) xs)"
    by (rule sorted_wrt_mono_rel [OF _ timed.js_sort_sorted]) (auto simp: timed_cmp_def split: if_splits)
  then show ?thesis by (simp add: sorted_map)
qed

end

end
