(* ===== verification/TimeTravelIndex.thy ===== *)
theory TimeTravelIndex
  imports DirectoryProjection TimedOrder
begin

text \<open>
  The time-travel index of the directory (\<^verbatim>\<open>core/accesscontrol/DirectoryTimeTravelIndex.ts\<close>):
  revisions keyed by entry id, the rebuild of the chain in trusted-time order, and the cached
  form of the index. \<^verbatim>\<open>localeCompare\<close> is the argument \<open>lc\<close>; the text codec of the cache
  (\<^verbatim>\<open>JSON\<close> and \<^verbatim>\<open>TextEncoder\<close>) is the pair of arguments \<open>enc\<close> and \<open>dec\<close>. The cache store is a
  map from type and id to the serialized form, whose type is a parameter.
\<close>

section \<open>State\<close>

record stored_directory_revision =
  sr_entryId :: string
  sr_docId :: string
  sr_data :: js_object
  sr_deleted :: bool
  sr_trustedTime :: int
  sr_witnessed :: bool

record revision_cursor =
  cur_receiptOrder :: nat
  cur_id :: string

record time_travel_index =
  tt_builder :: chain_builder
  tt_revisions :: "(string, stored_directory_revision) jsmap"
  tt_cursor :: "revision_cursor option"
  tt_lastChangeSeq :: "nat option"
  tt_unwitnessedIds :: "string jsset"
  tt_dirty :: bool
  tt_cachePrefix :: string

definition new_index :: "string \<Rightarrow> time_travel_index" where
  "new_index prefix = \<lparr> tt_builder = reset_builder, tt_revisions = [], tt_cursor = None, tt_lastChangeSeq = None,
     tt_unwitnessedIds = [], tt_dirty = False, tt_cachePrefix = prefix \<rparr>"

definition reset_index :: "time_travel_index \<Rightarrow> time_travel_index" where
  "reset_index ix = ix\<lparr> tt_builder := reset_builder, tt_revisions := [], tt_cursor := None,
     tt_lastChangeSeq := None, tt_unwitnessedIds := [], tt_dirty := True \<rparr>"

definition recordChangeSeq :: "nat option \<Rightarrow> time_travel_index \<Rightarrow> time_travel_index" where
  "recordChangeSeq changeSeq ix =
     (if tt_lastChangeSeq ix \<noteq> changeSeq then ix\<lparr> tt_lastChangeSeq := changeSeq, tt_dirty := True \<rparr> else ix)"

definition hasUnwitnessed :: "time_travel_index \<Rightarrow> bool" where
  "hasUnwitnessed ix \<longleftrightarrow> tt_unwitnessedIds ix \<noteq> []"

text \<open>
  \<^verbatim>\<open>JSON.stringify(a) !== JSON.stringify(b)\<close>: the text determines the value up to members that
  \<^verbatim>\<open>JSON\<close> leaves out and array elements it writes as \<^verbatim>\<open>null\<close>.
\<close>

fun json_omits :: "js_value \<Rightarrow> bool" where
  "json_omits JUndefined = True"
| "json_omits (JFun _) = True"
| "json_omits _ = False"

fun json_norm :: "js_value \<Rightarrow> js_value" where
  "json_norm (JArr xs) = JArr (map (\<lambda>x. if json_omits x then JNull else json_norm x) xs)"
| "json_norm (JObj ps) = JObj (map (\<lambda>(k, v). (k, json_norm v)) (filter (\<lambda>(k, v). \<not> json_omits v) ps))"
| "json_norm v = v"

definition revision_changed :: "stored_directory_revision option \<Rightarrow> stored_directory_revision \<Rightarrow> bool" where
  "revision_changed prev r =
     (case prev of
        None \<Rightarrow> True
      | Some p \<Rightarrow>
          sr_trustedTime p \<noteq> sr_trustedTime r \<or> sr_deleted p \<noteq> sr_deleted r \<or>
          sr_witnessed p \<noteq> sr_witnessed r \<or> sr_docId p \<noteq> sr_docId r \<or>
          json_norm (JObj (sr_data p)) \<noteq> json_norm (JObj (sr_data r)))"

definition upsertRevision ::
  "stored_directory_revision \<Rightarrow> revision_cursor option \<Rightarrow> time_travel_index \<Rightarrow> bool \<times> time_travel_index" where
  "upsertRevision r cursor ix =
     (let unwitnessed = (if sr_witnessed r then removeAll (sr_entryId r) (tt_unwitnessedIds ix)
                         else set_add (sr_entryId r) (tt_unwitnessedIds ix));
          changed = revision_changed (map_of (tt_revisions ix) (sr_entryId r)) r
      in (changed, ix\<lparr> tt_cursor := cursor, tt_unwitnessedIds := unwitnessed,
            tt_revisions := AList.update (sr_entryId r) r (tt_revisions ix), tt_dirty := True \<rparr>))"

section \<open>Rebuilding the chain\<close>

type_synonym project_revision_fn = "chain_builder \<Rightarrow> stored_directory_revision \<Rightarrow> chain_builder option"

fun replay :: "project_revision_fn \<Rightarrow> chain_builder \<Rightarrow> stored_directory_revision list \<Rightarrow> chain_builder option" where
  "replay project b [] = Some b"
| "replay project b (r # rs) = (case project b r of None \<Rightarrow> None | Some b' \<Rightarrow> replay project b' rs)"

definition sorted_revisions ::
  "(string \<Rightarrow> string \<Rightarrow> int) \<Rightarrow> time_travel_index \<Rightarrow> stored_directory_revision list" where
  "sorted_revisions lc ix = js_sort (timed_cmp lc sr_trustedTime sr_entryId) (map_values (tt_revisions ix))"

definition rebuild ::
  "(string \<Rightarrow> string \<Rightarrow> int) \<Rightarrow> project_revision_fn \<Rightarrow> time_travel_index \<Rightarrow> time_travel_index option" where
  "rebuild lc project ix =
     (case replay project reset_builder (sorted_revisions lc ix) of
        None \<Rightarrow> None
      | Some b \<Rightarrow> Some (ix\<lparr> tt_builder := b, tt_dirty := True \<rparr>))"

text \<open>The projection that the directory supplies.\<close>

definition directory_project :: "(string \<Rightarrow> string) \<Rightarrow> project_revision_fn" where
  "directory_project nrm b r =
     projectDirectoryRevision nrm b
       \<lparr> rev_docId = sr_docId r, rev_data = sr_data r, rev_deleted = sr_deleted r, rev_trustedTime = sr_trustedTime r \<rparr>"

section \<open>The cache\<close>

record persisted_time_travel_state =
  ps_version :: nat
  ps_cursor :: "revision_cursor option"
  ps_unwitnessedIds :: "string list"
  ps_revisions :: "stored_directory_revision list"
  ps_lastChangeSeq :: "nat option"

definition DIR_TT_CACHE_TYPE :: string where
  "DIR_TT_CACHE_TYPE = ''dir-tt''"

definition DIR_TT_CACHE_VERSION :: nat where
  "DIR_TT_CACHE_VERSION = 2"

type_synonym 'b cache_store = "string \<times> string \<rightharpoonup> 'b"

definition flushToCache ::
  "(persisted_time_travel_state \<Rightarrow> 'b) \<Rightarrow> time_travel_index \<Rightarrow> 'b cache_store \<Rightarrow> nat \<times> 'b cache_store" where
  "flushToCache enc ix store =
     (1, store((DIR_TT_CACHE_TYPE, tt_cachePrefix ix) \<mapsto>
        enc \<lparr> ps_version = DIR_TT_CACHE_VERSION, ps_cursor = tt_cursor ix,
              ps_unwitnessedIds = tt_unwitnessedIds ix, ps_revisions = map_values (tt_revisions ix),
              ps_lastChangeSeq = tt_lastChangeSeq ix \<rparr>))"

definition restoreFromCache ::
  "('b \<Rightarrow> persisted_time_travel_state option) \<Rightarrow> 'b cache_store \<Rightarrow> time_travel_index \<Rightarrow> bool \<times> time_travel_index" where
  "restoreFromCache dec store ix =
     (case store (DIR_TT_CACHE_TYPE, tt_cachePrefix ix) of
        None \<Rightarrow> (False, ix)
      | Some bytes \<Rightarrow>
          (case dec bytes of
             None \<Rightarrow> (False, ix)
           | Some state \<Rightarrow>
               if ps_version state \<noteq> DIR_TT_CACHE_VERSION then (False, ix)
               else (True, ix\<lparr> tt_revisions := foldl (\<lambda>m r. AList.update (sr_entryId r) r m) [] (ps_revisions state),
                               tt_cursor := ps_cursor state, tt_lastChangeSeq := ps_lastChangeSeq state,
                               tt_unwitnessedIds := js_dedup (ps_unwitnessedIds state), tt_dirty := False \<rparr>)))"

section \<open>The invariant of the index\<close>

definition index_ok :: "time_travel_index \<Rightarrow> bool" where
  "index_ok ix \<longleftrightarrow> distinct (map_keys (tt_revisions ix)) \<and>
     (\<forall>(i, r) \<in> set (tt_revisions ix). sr_entryId r = i) \<and> distinct (tt_unwitnessedIds ix) \<and>
     (\<forall>i. i \<in> set (tt_unwitnessedIds ix) \<longleftrightarrow> (\<exists>r. map_of (tt_revisions ix) i = Some r \<and> \<not> sr_witnessed r))"

lemma index_ok_empty: "index_ok (new_index p)" "index_ok (reset_index ix)"
  by (simp_all add: index_ok_def new_index_def reset_index_def)

lemma index_ok_frame [simp]:
  "index_ok (ix\<lparr> tt_builder := b \<rparr>) = index_ok ix" "index_ok (ix\<lparr> tt_cursor := c \<rparr>) = index_ok ix"
  "index_ok (ix\<lparr> tt_lastChangeSeq := s \<rparr>) = index_ok ix" "index_ok (ix\<lparr> tt_dirty := d \<rparr>) = index_ok ix"
  by (simp_all add: index_ok_def)

lemma index_ok_upsert:
  assumes "index_ok ix"
  shows "index_ok (snd (upsertRevision r c ix))"
proof -
  have "\<forall>(i, q) \<in> set (AList.update (sr_entryId r) r (tt_revisions ix)). sr_entryId q = i"
    using assms set_update_subset [of "sr_entryId r" r "tt_revisions ix"] by (auto simp: index_ok_def)
  then show ?thesis using assms
    by (simp add: index_ok_def upsertRevision_def Let_def map_of_update distinct_removeAll)
qed

text \<open>The states of an index that is fed a sequence of revisions.\<close>

definition feed :: "(stored_directory_revision \<times> revision_cursor option) list \<Rightarrow> time_travel_index \<Rightarrow> time_travel_index" where
  "feed rs ix = foldl (\<lambda>ix (r, c). snd (upsertRevision r c ix)) ix rs"

text \<open>The record that was given last for an entry id.\<close>

definition latest_record :: "(stored_directory_revision \<times> revision_cursor option) list \<Rightarrow> string \<Rightarrow> stored_directory_revision option" where
  "latest_record rs i = find (\<lambda>r. sr_entryId r = i) (rev (map fst rs))"

lemma feed_ok: "index_ok ix \<Longrightarrow> index_ok (feed rs ix)"
  by (induction rs arbitrary: ix) (auto simp: feed_def index_ok_upsert)

lemma feed_lookup: "map_of (tt_revisions (feed rs (new_index p))) i = latest_record rs i"
  by (induction rs rule: rev_induct)
    (auto simp: feed_def latest_record_def new_index_def upsertRevision_def Let_def map_of_update)

lemma values_by_lookup:
  assumes "index_ok ix1" and "index_ok ix2" and "map_of (tt_revisions ix1) = map_of (tt_revisions ix2)"
  shows "set (map_values (tt_revisions ix1)) = set (map_values (tt_revisions ix2))"
    and "distinct (map sr_entryId (map_values (tt_revisions ix1)))"
proof -
  have d: "distinct (map_keys (tt_revisions ix1))" "distinct (map_keys (tt_revisions ix2))"
    using assms(1,2) by (simp_all add: index_ok_def)
  show "set (map_values (tt_revisions ix1)) = set (map_values (tt_revisions ix2))"
    using map_values_iff [OF d(1)] map_values_iff [OF d(2)] assms(3) by (metis subsetI subset_antisym)
  have "map sr_entryId (map_values xs) = map_keys xs" if "\<forall>(i, r) \<in> set xs. sr_entryId r = i" for xs
    using that by (induction xs) auto
  then show "distinct (map sr_entryId (map_values (tt_revisions ix1)))"
    using assms(1) by (metis index_ok_def)
qed

interpretation rev_order: timed_collation compare_by sr_trustedTime sr_entryId
  by unfold_locales

lemma sorted_revisions_cong:
  assumes "collation lc" and "index_ok ix1" and "index_ok ix2"
    and "map_of (tt_revisions ix1) = map_of (tt_revisions ix2)"
  shows "sorted_revisions lc ix1 = sorted_revisions lc ix2"
proof -
  have "timed_collation lc" using assms(1) by (simp add: timed_collation_def)
  then show ?thesis unfolding sorted_revisions_def
    by (rule timed_collation.sort_by_set)
      (use values_by_lookup [OF assms(2-4)] values_by_lookup [OF assms(3,2) assms(4) [symmetric]] in simp_all)
qed

text \<open>
  C16. The chain does not depend on how the revisions arrived: two indexes that were fed different
  sequences, in any order and with any number of re-stamped duplicates, rebuild the same chain
  whenever the last record of each entry id is the same, for every projection and every total
  order of ids; in particular the order of arrival is irrelevant.
\<close>

theorem rebuild_arrival_order_independent:
  assumes "collation lc" and "\<forall>i. latest_record rs1 i = latest_record rs2 i"
  shows "map_option tt_builder (rebuild lc project (feed rs1 (new_index p1))) =
         map_option tt_builder (rebuild lc project (feed rs2 (new_index p2)))"
proof -
  have "sorted_revisions lc (feed rs1 (new_index p1)) = sorted_revisions lc (feed rs2 (new_index p2))"
    by (rule sorted_revisions_cong [OF assms(1) feed_ok feed_ok])
      (use assms(2) in \<open>auto simp: index_ok_empty feed_lookup\<close>)
  then show ?thesis by (simp add: rebuild_def split: option.splits)
qed

definition demo_revision :: "string \<Rightarrow> int \<Rightarrow> stored_directory_revision" where
  "demo_revision i t = \<lparr> sr_entryId = i, sr_docId = ''d'', sr_data = [], sr_deleted = False, sr_trustedTime = t, sr_witnessed = True \<rparr>"

theorem rebuild_arrival_order_independent_witness:
  "map_option tt_builder (rebuild compare_by (directory_project id)
       (feed [(demo_revision ''a'' 9, None), (demo_revision ''b'' 2, None), (demo_revision ''a'' 1, None)] (new_index ''p''))) =
   map_option tt_builder (rebuild compare_by (directory_project id)
       (feed [(demo_revision ''a'' 1, None), (demo_revision ''b'' 2, None)] (new_index ''q'')))"
  by (rule rebuild_arrival_order_independent [OF code_units.collation_axioms])
    (simp add: latest_record_def demo_revision_def)

section \<open>Answers about the past\<close>

abbreviation as_input :: "stored_directory_revision \<Rightarrow> directory_revision_input" where
  "as_input r \<equiv> \<lparr> rev_docId = sr_docId r, rev_data = sr_data r, rev_deleted = sr_deleted r, rev_trustedTime = sr_trustedTime r \<rparr>"

lemma replay_append:
  "replay project b (xs @ ys) = (case replay project b xs of None \<Rightarrow> None | Some b' \<Rightarrow> replay project b' ys)"
  by (induction xs arbitrary: b) (auto split: option.splits)

lemma replay_deltas:
  "replay (directory_project nrm) b rs = Some b' \<Longrightarrow>
     \<exists>ds. b' = foldl apply_delta b ds \<and> set (map delta_time ds) \<subseteq> set (map sr_trustedTime rs)"
proof (induction rs arbitrary: b)
  case Nil
  then show ?case by (auto intro: exI [of _ "[]"])
next
  case (Cons r rs)
  then obtain b1 where b1: "projectDirectoryRevision nrm b (as_input r) = Some b1"
    "replay (directory_project nrm) b1 rs = Some b'"
    by (auto simp: directory_project_def [of nrm b r] split: option.splits)
  obtain ds where ds: "b' = foldl apply_delta b1 ds" "set (map delta_time ds) \<subseteq> set (map sr_trustedTime rs)"
    using Cons.IH [OF b1(2)] by blast
  from project_delta [OF b1(1)] show ?case
  proof
    assume "\<exists>e. \<not> is_revoke e \<and> delta_time e = rev_trustedTime (as_input r) \<and> b1 = apply_delta b e"
    then obtain e where "delta_time e = sr_trustedTime r" "b1 = apply_delta b e" by auto
    then show ?thesis using ds by (intro exI [of _ "e # ds"]) auto
  qed (use ds in auto)
qed

text \<open>
  C17. Historic questions are answered exactly: after a rebuild, the directory state for time \<open>T\<close>
  is the state that results from projecting the revisions with trusted time up to \<open>T\<close>, in their
  sorted order, and nothing else. Revisions with a later trusted time never influence it, also when
  they arrived first.
\<close>

theorem rebuilt_state_is_history:
  assumes "collation lc" and "rebuild lc (directory_project nrm) ix = Some ix'"
  shows "\<exists>b. replay (directory_project nrm) reset_builder
                (filter (\<lambda>r. sr_trustedTime r \<le> T) (sorted_revisions lc ix)) = Some b \<and>
             getStateAt (tt_builder ix') T = b_head b"
proof -
  let ?rs = "sorted_revisions lc ix"
  let ?early = "filter (\<lambda>r. sr_trustedTime r \<le> T) ?rs" and ?late = "filter (\<lambda>r. T < sr_trustedTime r) ?rs"
  have tc: "timed_collation lc" using assms(1) by (simp add: timed_collation_def)
  have "sorted (map sr_trustedTime ?rs)"
    unfolding sorted_revisions_def by (rule timed_collation.sorted_times [OF tc])
  then have split: "?rs = ?early @ ?late" by (rule filter_sorted_split)
  obtain b' where b': "replay (directory_project nrm) reset_builder ?rs = Some b'" "tt_builder ix' = b'"
    using assms(2) by (auto simp: rebuild_def split: option.splits)
  then obtain b where b: "replay (directory_project nrm) reset_builder ?early = Some b"
    "replay (directory_project nrm) b ?late = Some b'"
    using replay_append [of "directory_project nrm" reset_builder ?early ?late] split
    by (auto split: option.splits)
  obtain es where es: "b = foldl apply_delta reset_builder es" "set (map delta_time es) \<subseteq> set (map sr_trustedTime ?early)"
    using replay_deltas [OF b(1)] by blast
  obtain ls where ls: "b' = foldl apply_delta b ls" "set (map delta_time ls) \<subseteq> set (map sr_trustedTime ?late)"
    using replay_deltas [OF b(2)] by blast
  have "getStateAt b' T = getStateAt b T"
    unfolding ls(1) by (rule covering_later) (use ls(2) in auto)
  moreover have "\<not> bound_after (b_head b) T"
    unfolding es(1)
    by (rule bound_earlier) (use es(2) in \<open>auto simp: reset_builder_def createGenesisNode_def bound_after_def\<close>)
  ultimately show ?thesis using b(1) b'(2) by (simp add: getStateAt_def)
qed

section \<open>Persistence\<close>

lemma restored_revisions:
  assumes "index_ok ix"
  shows "foldl (\<lambda>m r. AList.update (sr_entryId r) r m) [] (map_values (tt_revisions ix)) = tt_revisions ix"
proof -
  have "foldl (\<lambda>m r. AList.update (sr_entryId r) r m) m0 (map_values xs) = m0 @ xs"
    if "distinct (map_keys xs)" "\<forall>(i, r) \<in> set xs. sr_entryId r = i" "set (map_keys m0) \<inter> set (map_keys xs) = {}" for m0 xs
    using that
  proof (induction xs arbitrary: m0)
    case (Cons x xs)
    then have "AList.update (sr_entryId (snd x)) (snd x) m0 = m0 @ [x]"
      by (cases x) (auto simp: update_fresh)
    then show ?case using Cons by (cases x) auto
  qed simp
  from this [of "tt_revisions ix" "[]"] assms show ?thesis by (simp add: index_ok_def)
qed

text \<open>
  Flushing an index and restoring it into a fresh one loses nothing: revisions, cursor,
  change sequence and the un-witnessed ids are the same, so a rebuild gives the same chain as
  before the restart.
\<close>

theorem time_travel_cache_roundtrip:
  assumes "\<forall>st. dec (enc st) = Some st" and "index_ok ix" and "tt_cachePrefix fresh = tt_cachePrefix ix"
  shows "let (ok, ix') = restoreFromCache dec (snd (flushToCache enc ix store)) fresh
         in ok \<and> tt_revisions ix' = tt_revisions ix \<and> tt_cursor ix' = tt_cursor ix \<and>
            tt_lastChangeSeq ix' = tt_lastChangeSeq ix \<and> tt_unwitnessedIds ix' = tt_unwitnessedIds ix \<and>
            map_option tt_builder (rebuild lc project ix') = map_option tt_builder (rebuild lc project ix)"
proof -
  have "js_dedup (tt_unwitnessedIds ix) = tt_unwitnessedIds ix"
    using assms(2) by (simp add: index_ok_def js_dedup_distinct)
  then show ?thesis
    using assms restored_revisions [OF assms(2)]
    by (simp add: restoreFromCache_def flushToCache_def DIR_TT_CACHE_VERSION_def rebuild_def sorted_revisions_def
        split: option.splits)
qed

theorem time_travel_cache_roundtrip_witness:
  "tt_revisions (snd (restoreFromCache Some (snd (flushToCache id (feed [(demo_revision ''a'' 9, None)] (new_index ''p'')) Map.empty))
     (new_index ''p''))) = [(''a'', demo_revision ''a'' 9)]"
proof -
  let ?ix = "feed [(demo_revision ''a'' 9, None)] (new_index ''p'')"
  have "tt_revisions ?ix = [(''a'', demo_revision ''a'' 9)]" "tt_cachePrefix ?ix = ''p''"
    by (simp_all add: feed_def upsertRevision_def new_index_def demo_revision_def Let_def)
  moreover have "index_ok ?ix" by (rule feed_ok [OF index_ok_empty(1)])
  moreover have "tt_cachePrefix (new_index ''p'') = ''p''" by (simp add: new_index_def)
  ultimately show ?thesis
    using time_travel_cache_roundtrip [of Some id ?ix "new_index ''p''" Map.empty compare_by "directory_project id"]
    by (simp add: split_beta Let_def)
qed

theorem rebuilt_state_is_history_witness:
  "\<exists>b. replay (directory_project id) reset_builder
         (filter (\<lambda>r. sr_trustedTime r \<le> 5) (sorted_revisions compare_by (feed [(demo_revision ''a'' 9, None)] (new_index ''p'')))) = Some b \<and>
       getStateAt reset_builder 5 = b_head b"
proof -
  let ?ix = "feed [(demo_revision ''a'' 9, None)] (new_index ''p'')"
  have "rebuild compare_by (directory_project id) ?ix = Some (?ix\<lparr> tt_builder := reset_builder, tt_dirty := True \<rparr>)"
    by (simp add: rebuild_def sorted_revisions_def feed_def upsertRevision_def new_index_def demo_revision_def
        Let_def js_sort_Cons directory_project_def projectDirectoryRevision_def js_prop_def)
  from rebuilt_state_is_history [OF code_units.collation_axioms this, of 5] show ?thesis by simp
qed

end
