(* ===== verification/Quarantine.thy ===== *)
theory Quarantine
  imports AclTypes TimedOrder
begin

text \<open>
  Materialization defences (\<^verbatim>\<open>core/accesscontrol/quarantine.ts\<close> and
  \<^verbatim>\<open>materializationGuard.ts\<close>): the cascade that computes the accepted entries of a document, the
  snapshot head check and the re-derivation of operation types. The verdict callback and
  \<^verbatim>\<open>localeCompare\<close> are arguments.
\<close>

section \<open>Guards\<close>

datatype quarantine_reason =
    qr_tier2_denied | qr_tier1_recheck_denied | qr_snapshot_head_mismatch | qr_snapshot_untrusted_head
  | qr_op_type_mismatch | qr_cascade_dependent | qr_invalid_signature | qr_invalid_witness_receipt
  | qr_directory_unavailable

record quarantine_record =
  q_entryId :: string
  q_docId :: string
  q_dbid :: string
  q_entryType :: string
  q_reason :: quarantine_reason
  q_detail :: string
  q_trustedTime :: int
  q_recordedAt :: int
  q_causedByEntryId :: "string option"

definition snapshotHeadsMatch :: "string list \<Rightarrow> string list option \<Rightarrow> bool" where
  "snapshotHeadsMatch decodedHeads declaredHeads =
     (let declared = (case declaredHeads of Some hs \<Rightarrow> hs | None \<Rightarrow> []) in
      if length decodedHeads \<noteq> length declared then False
      else let declaredSet = js_dedup declared in
        if length declaredSet \<noteq> length declared then False
        else list_all (\<lambda>h. h \<in> set declaredSet) decodedHeads)"

record op_type_input =
  isGenesis :: bool
  beforeDeleted :: bool
  afterDeleted :: bool

definition deriveDataOpType :: "op_type_input \<Rightarrow> rule_type" where
  "deriveDataOpType inp =
     (if isGenesis inp then rt_doc_create
      else if \<not> beforeDeleted inp \<and> afterDeleted inp then rt_doc_delete
      else if beforeDeleted inp \<and> \<not> afterDeleted inp then rt_doc_undelete
      else rt_doc_change)"

section \<open>The cascade\<close>

record quarantine_candidate =
  qc_id :: string
  qc_docId :: string
  qc_dependencyIds :: "string list"
  qc_entryType :: string
  qc_trustedTime :: int

text \<open>The audit record of a verdict, without the fields the cascade adds.\<close>

record verdict_record =
  vr_entryId :: string
  vr_docId :: string
  vr_dbid :: string
  vr_entryType :: string
  vr_reason :: quarantine_reason
  vr_detail :: string
  vr_trustedTime :: int

record entry_verdict =
  accepted :: bool
  verdict_rec :: "verdict_record option"

record accepted_set_result =
  acceptedIds :: "string list"
  quarantinedIds :: "string list"
  records :: "quarantine_record list"

definition sortForEvaluation ::
  "(string \<Rightarrow> string \<Rightarrow> int) \<Rightarrow> quarantine_candidate list \<Rightarrow> quarantine_candidate list" where
  "sortForEvaluation lc entries = js_sort (timed_cmp lc qc_trustedTime qc_id) entries"

record cascade_state =
  cs_result :: accepted_set_result
  cs_taintedBy :: "(string, string) jsmap"
  cs_quarantined :: "string jsset"

definition cascade_init :: cascade_state where
  "cascade_init = \<lparr> cs_result = \<lparr> acceptedIds = [], quarantinedIds = [], records = [] \<rparr>,
     cs_taintedBy = [], cs_quarantined = [] \<rparr>"

definition quarantine_entry ::
  "quarantine_candidate \<Rightarrow> string \<Rightarrow> quarantine_record \<Rightarrow> cascade_state \<Rightarrow> cascade_state" where
  "quarantine_entry e cause qrec st =
     st\<lparr> cs_quarantined := set_add (qc_id e) (cs_quarantined st),
         cs_taintedBy := AList.update (qc_id e) cause (cs_taintedBy st),
         cs_result := (cs_result st)\<lparr> quarantinedIds := quarantinedIds (cs_result st) @ [qc_id e],
                                      records := records (cs_result st) @ [qrec] \<rparr> \<rparr>"

definition cascade_record :: "quarantine_candidate \<Rightarrow> string \<Rightarrow> string \<Rightarrow> int \<Rightarrow> quarantine_record" where
  "cascade_record e dep rootCause now =
     \<lparr> q_entryId = qc_id e, q_docId = qc_docId e, q_dbid = '''', q_entryType = qc_entryType e,
       q_reason = qr_cascade_dependent, q_detail = ''causally depends on quarantined entry '' @ dep,
       q_trustedTime = qc_trustedTime e, q_recordedAt = now, q_causedByEntryId = Some rootCause \<rparr>"

definition rejection_record :: "quarantine_candidate \<Rightarrow> verdict_record option \<Rightarrow> int \<Rightarrow> quarantine_record" where
  "rejection_record e vr now =
     (let r = (case vr of Some r \<Rightarrow> r
               | None \<Rightarrow> \<lparr> vr_entryId = qc_id e, vr_docId = qc_docId e, vr_dbid = '''', vr_entryType = qc_entryType e,
                           vr_reason = qr_tier2_denied, vr_detail = ''rejected by access policy'',
                           vr_trustedTime = qc_trustedTime e \<rparr>)
      in \<lparr> q_entryId = vr_entryId r, q_docId = vr_docId r, q_dbid = vr_dbid r, q_entryType = vr_entryType r,
           q_reason = vr_reason r, q_detail = vr_detail r, q_trustedTime = vr_trustedTime r,
           q_recordedAt = now, q_causedByEntryId = None \<rparr>)"

text \<open>
  One iteration. \<^verbatim>\<open>if (taintingDep)\<close> is false for an empty id, so a quarantined entry with an
  empty id taints nothing.
\<close>

definition tainting_dep :: "cascade_state \<Rightarrow> quarantine_candidate \<Rightarrow> string option" where
  "tainting_dep st e =
     (case find (\<lambda>d. d \<in> set (cs_quarantined st)) (qc_dependencyIds e) of
        Some d \<Rightarrow> if d \<noteq> '''' then Some d else None
      | None \<Rightarrow> None)"

definition cascade_step ::
  "(quarantine_candidate \<Rightarrow> entry_verdict) \<Rightarrow> int \<Rightarrow> cascade_state \<Rightarrow> quarantine_candidate \<Rightarrow> cascade_state" where
  "cascade_step verdictFor now st e =
     (case tainting_dep st e of
        Some dep \<Rightarrow>
          let rootCause = (case map_of (cs_taintedBy st) dep of Some c \<Rightarrow> c | None \<Rightarrow> dep)
          in quarantine_entry e rootCause (cascade_record e dep rootCause now) st
      | None \<Rightarrow>
          let v = verdictFor e
          in if accepted v
             then st\<lparr> cs_result := (cs_result st)\<lparr> acceptedIds := acceptedIds (cs_result st) @ [qc_id e] \<rparr> \<rparr>
             else quarantine_entry e (qc_id e) (rejection_record e (verdict_rec v) now) st)"

definition computeAcceptedSet ::
  "(string \<Rightarrow> string \<Rightarrow> int) \<Rightarrow> quarantine_candidate list \<Rightarrow> (quarantine_candidate \<Rightarrow> entry_verdict) \<Rightarrow> int \<Rightarrow>
   accepted_set_result" where
  "computeAcceptedSet lc entries verdictFor now =
     cs_result (foldl (cascade_step verdictFor now) cascade_init (sortForEvaluation lc entries))"

section \<open>The accepted set\<close>

text \<open>
  The specification: an entry is clean when the verdict accepts it and all entries it depends on,
  directly or not, are clean.
\<close>

inductive tainted :: "(quarantine_candidate \<Rightarrow> entry_verdict) \<Rightarrow> quarantine_candidate set \<Rightarrow> quarantine_candidate \<Rightarrow> bool"
  for verdictFor E where
  rejected: "e \<in> E \<Longrightarrow> \<not> accepted (verdictFor e) \<Longrightarrow> tainted verdictFor E e"
| cascade: "e \<in> E \<Longrightarrow> d \<in> E \<Longrightarrow> qc_id d \<in> set (qc_dependencyIds e) \<Longrightarrow> tainted verdictFor E d \<Longrightarrow> tainted verdictFor E e"

inductive_cases taintedE: "tainted verdictFor E e"

text \<open>Dependencies among the entries come earlier in the evaluation order, and ids are proper.\<close>

fun deps_first :: "quarantine_candidate list \<Rightarrow> bool" where
  "deps_first [] = True"
| "deps_first (e # es) \<longleftrightarrow> (\<forall>d \<in> set (e # es). qc_id d \<notin> set (qc_dependencyIds e)) \<and> deps_first es"

definition cascade_inv ::
  "(quarantine_candidate \<Rightarrow> entry_verdict) \<Rightarrow> quarantine_candidate set \<Rightarrow> quarantine_candidate list \<Rightarrow> cascade_state \<Rightarrow> bool" where
  "cascade_inv v E seen st \<longleftrightarrow>
     set (cs_quarantined st) = qc_id ` {e \<in> set seen. tainted v E e} \<and>
     acceptedIds (cs_result st) = map qc_id (filter (\<lambda>e. \<not> tainted v E e) seen) \<and>
     quarantinedIds (cs_result st) = map qc_id (filter (tainted v E) seen) \<and>
     length (records (cs_result st)) = length (quarantinedIds (cs_result st))"

lemma tainting_dep_iff:
  assumes "'''' \<notin> set (cs_quarantined st)"
  shows "tainting_dep st e = None \<longleftrightarrow> (\<forall>d \<in> set (qc_dependencyIds e). d \<notin> set (cs_quarantined st))"
proof -
  have "find (\<lambda>d. d \<in> set (cs_quarantined st)) (qc_dependencyIds e) \<noteq> Some ''''"
    using assms find_SomeD by fastforce
  then show ?thesis
    by (auto simp: tainting_dep_def find_None_iff_ball split: option.splits dest: find_SomeD)
qed

lemma cascade_inv_step:
  assumes inv: "cascade_inv v (set (seen @ e # rest)) seen st"
    and ids: "distinct (map qc_id (seen @ e # rest))" "'''' \<notin> set (map qc_id (seen @ e # rest))"
    and later: "\<forall>d \<in> set (e # rest). qc_id d \<notin> set (qc_dependencyIds e)"
  shows "cascade_inv v (set (seen @ e # rest)) (seen @ [e]) (cascade_step v now st e)"
proof -
  let ?E = "set (seen @ e # rest)"
  have q: "set (cs_quarantined st) = qc_id ` {x \<in> set seen. tainted v ?E x}" using inv by (simp add: cascade_inv_def)
  then have ne: "'''' \<notin> set (cs_quarantined st)" using ids(2) by auto
  have dep: "tainting_dep st e = None \<longleftrightarrow> (\<forall>d \<in> set seen. qc_id d \<in> set (qc_dependencyIds e) \<longrightarrow> \<not> tainted v ?E d)"
    unfolding tainting_dep_iff [OF ne] q by auto
  have iff: "tainted v ?E e \<longleftrightarrow> tainting_dep st e \<noteq> None \<or> \<not> accepted (v e)"
  proof
    assume "tainted v ?E e"
    then show "tainting_dep st e \<noteq> None \<or> \<not> accepted (v e)"
    proof (rule taintedE)
      fix d assume "d \<in> ?E" "qc_id d \<in> set (qc_dependencyIds e)" "tainted v ?E d"
      moreover then have "d \<in> set seen" using later by auto
      ultimately show ?thesis using dep by blast
    qed simp
  next
    assume "tainting_dep st e \<noteq> None \<or> \<not> accepted (v e)"
    then show "tainted v ?E e"
    proof
      assume "tainting_dep st e \<noteq> None"
      with dep obtain d where "d \<in> set seen" "qc_id d \<in> set (qc_dependencyIds e)" "tainted v ?E d" by blast
      then show ?thesis by (intro tainted.cascade [of e ?E d]) simp_all
    next
      assume "\<not> accepted (v e)"
      then show ?thesis by (intro tainted.rejected) simp_all
    qed
  qed
  show ?thesis
  proof (cases "tainting_dep st e")
    case None
    then show ?thesis using inv iff
      by (cases "accepted (v e)")
        (auto simp: cascade_inv_def cascade_step_def quarantine_entry_def Let_def)
  next
    case (Some d)
    then show ?thesis using inv iff
      by (auto simp: cascade_inv_def cascade_step_def quarantine_entry_def Let_def)
  qed
qed

lemma cascade_inv_fold:
  assumes "cascade_inv v (set (seen @ es)) seen st" and "distinct (map qc_id (seen @ es))"
    and "'''' \<notin> set (map qc_id (seen @ es))" and "deps_first es"
  shows "cascade_inv v (set (seen @ es)) (seen @ es) (foldl (cascade_step v now) st es)"
  using assms
proof (induction es arbitrary: seen st)
  case (Cons e es)
  have "cascade_inv v (set (seen @ e # es)) (seen @ [e]) (cascade_step v now st e)"
    by (rule cascade_inv_step) (use Cons.prems in auto)
  then show ?case using Cons.IH [of "seen @ [e]" "cascade_step v now st e"] Cons.prems by simp
qed simp

interpretation evaluation_order: timed_collation compare_by qc_trustedTime qc_id
  by unfold_locales

lemma sorted_deps_first:
  assumes "sorted_wrt (\<lambda>a b. timed_cmp lc qc_trustedTime qc_id a b \<le> 0) es"
    and "\<forall>e \<in> set es. \<forall>d \<in> set es. qc_id d \<in> set (qc_dependencyIds e) \<longrightarrow>
           \<not> timed_cmp lc qc_trustedTime qc_id e d \<le> 0"
    and "\<forall>e \<in> set es. timed_cmp lc qc_trustedTime qc_id e e \<le> 0"
  shows "deps_first es"
  using assms by (induction es) auto

text \<open>
  C18. The accepted set is exactly the causally closed set of clean entries: when dependencies
  precede their dependents in trusted time, an entry is accepted if and only if neither it nor any
  entry it depends on, directly or indirectly, is rejected by the verdict. Every entry is either
  accepted or quarantined with one audit record, and no accepted entry depends on a quarantined one.
\<close>

theorem accepted_set_causally_closed:
  assumes "collation lc" and "distinct (map qc_id entries)" and "'''' \<notin> set (map qc_id entries)"
    and causal: "\<forall>e \<in> set entries. \<forall>d \<in> set entries. qc_id d \<in> set (qc_dependencyIds e) \<longrightarrow>
                   \<not> timed_cmp lc qc_trustedTime qc_id e d \<le> 0"
    and r: "r = computeAcceptedSet lc entries verdictFor now"
  shows "acceptedIds r = map qc_id (filter (\<lambda>e. \<not> tainted verdictFor (set entries) e) (sortForEvaluation lc entries)) \<and>
         quarantinedIds r = map qc_id (filter (tainted verdictFor (set entries)) (sortForEvaluation lc entries)) \<and>
         length (records r) = length (quarantinedIds r) \<and>
         (\<forall>e \<in> set entries. \<forall>d \<in> set entries.
            qc_id e \<in> set (acceptedIds r) \<and> qc_id d \<in> set (qc_dependencyIds e) \<longrightarrow> qc_id d \<in> set (acceptedIds r))"
proof -
  let ?es = "sortForEvaluation lc entries"
  have tc: "timed_collation lc" using assms(1) by (simp add: timed_collation_def)
  then have cmp: "js_comparator (timed_cmp lc qc_trustedTime qc_id)" by (rule timed_collation.comparator)
  have set_es: "set ?es = set entries" by (simp add: sortForEvaluation_def)
  have "mset (map qc_id ?es) = mset (map qc_id entries)" by (simp add: sortForEvaluation_def)
  then have dist: "distinct (map qc_id ?es)" using assms(2) mset_eq_imp_distinct_iff by blast
  have "deps_first ?es"
  proof (rule sorted_deps_first [of lc])
    show "sorted_wrt (\<lambda>a b. timed_cmp lc qc_trustedTime qc_id a b \<le> 0) ?es"
      unfolding sortForEvaluation_def by (rule js_comparator.js_sort_sorted [OF cmp])
    show "\<forall>e \<in> set ?es. timed_cmp lc qc_trustedTime qc_id e e \<le> 0"
      using js_comparator.cmp_total [OF cmp] by blast
  qed (use causal set_es in simp)
  then have "cascade_inv verdictFor (set ([] @ ?es)) ([] @ ?es) (foldl (cascade_step verdictFor now) cascade_init ?es)"
    by (intro cascade_inv_fold)
      (use dist assms(3) set_es in \<open>auto simp: cascade_inv_def cascade_init_def\<close>)
  then have inv: "acceptedIds r = map qc_id (filter (\<lambda>e. \<not> tainted verdictFor (set entries) e) ?es)"
    "quarantinedIds r = map qc_id (filter (tainted verdictFor (set entries)) ?es)"
    "length (records r) = length (quarantinedIds r)"
    by (simp_all add: cascade_inv_def r computeAcceptedSet_def set_es)
  have inj: "inj_on qc_id (set entries)" using assms(2) by (simp add: distinct_map)
  have acc: "qc_id e \<in> set (acceptedIds r) \<longleftrightarrow> \<not> tainted verdictFor (set entries) e" if "e \<in> set entries" for e
    using that inj inj_onD [OF inj] by (auto simp: inv(1) set_es)
  have "qc_id d \<in> set (acceptedIds r)"
    if "e \<in> set entries" "d \<in> set entries" "qc_id e \<in> set (acceptedIds r)" "qc_id d \<in> set (qc_dependencyIds e)" for e d
    using that acc tainted.cascade by metis
  with inv show ?thesis by blast
qed

definition demo_candidate :: "string \<Rightarrow> string list \<Rightarrow> int \<Rightarrow> quarantine_candidate" where
  "demo_candidate i deps t = \<lparr> qc_id = i, qc_docId = ''d'', qc_dependencyIds = deps, qc_entryType = ''doc_change'', qc_trustedTime = t \<rparr>"

definition reject_only :: "string \<Rightarrow> quarantine_candidate \<Rightarrow> entry_verdict" where
  "reject_only i e = \<lparr> accepted = (qc_id e \<noteq> i), verdict_rec = None \<rparr>"

text \<open>
  Without that condition on trusted times the accepted set need not be closed: an entry that is
  evaluated before the entry it depends on is accepted although its dependency is quarantined.
\<close>

theorem accepted_set_open_when_dependency_is_later:
  "let r = computeAcceptedSet compare_by [demo_candidate ''child'' [''parent''] 1, demo_candidate ''parent'' [] 2]
             (reject_only ''parent'') 0
   in acceptedIds r = [''child''] \<and> quarantinedIds r = [''parent'']"
  by (simp add: computeAcceptedSet_def sortForEvaluation_def js_sort_Cons timed_cmp_def demo_candidate_def
      cascade_step_def cascade_init_def tainting_dep_def reject_only_def quarantine_entry_def Let_def)

theorem accepted_set_causally_closed_witness:
  "acceptedIds (computeAcceptedSet compare_by [demo_candidate ''b'' [''a''] 2, demo_candidate ''a'' [] 1] (reject_only ''b'') 0) = [''a'']"
proof -
  let ?es = "[demo_candidate ''b'' [''a''] 2, demo_candidate ''a'' [] 1]"
  have t: "tainted (reject_only ''b'') (set ?es) (demo_candidate ''b'' [''a''] 2)"
    by (rule tainted.rejected) (simp_all add: reject_only_def demo_candidate_def)
  have "\<not> tainted (reject_only ''b'') (set ?es) (demo_candidate ''a'' [] 1)"
    by (rule notI, erule taintedE) (simp_all add: reject_only_def demo_candidate_def)
  with t show ?thesis
    using accepted_set_causally_closed [OF code_units.collation_axioms, of ?es _ "reject_only ''b''" 0]
    by (simp add: demo_candidate_def timed_cmp_def sortForEvaluation_def js_sort_Cons)
qed

text \<open>
  Replicas converge: the accepted entries, the quarantined entries and the audit records do
  not depend on the order in which the entries were received.
\<close>

theorem quarantine_order_independent:
  assumes "collation lc" and "set xs = set ys" and "distinct (map qc_id xs)" and "distinct (map qc_id ys)"
  shows "computeAcceptedSet lc xs verdictFor now = computeAcceptedSet lc ys verdictFor now"
proof -
  have "timed_collation lc" using assms(1) by (simp add: timed_collation_def)
  from timed_collation.sort_by_set [OF this assms(2-4)] show ?thesis
    by (simp add: computeAcceptedSet_def sortForEvaluation_def)
qed

theorem quarantine_order_independent_witness:
  "computeAcceptedSet compare_by [demo_candidate ''b'' [''a''] 2, demo_candidate ''a'' [] 1] (reject_only ''a'') 7 =
   computeAcceptedSet compare_by [demo_candidate ''a'' [] 1, demo_candidate ''b'' [''a''] 2] (reject_only ''a'') 7"
  by (rule quarantine_order_independent [OF code_units.collation_axioms]) (auto simp: demo_candidate_def)

section \<open>Snapshot heads\<close>

text \<open>
  The snapshot head check is exact for the heads that Automerge reports, which are distinct:
  it passes precisely when the declared heads are a list without duplicates of the same set.
\<close>

theorem snapshot_heads_exact:
  assumes "distinct decoded"
  shows "snapshotHeadsMatch decoded declared \<longleftrightarrow>
         (let hs = (case declared of Some hs \<Rightarrow> hs | None \<Rightarrow> []) in distinct hs \<and> set decoded = set hs)"
proof -
  have len: "length (js_dedup hs) = length hs \<longleftrightarrow> distinct hs" for hs :: "string list"
    by (metis card_distinct distinct_card distinct_js_dedup set_js_dedup)
  define hs where "hs = (case declared of Some hs \<Rightarrow> hs | None \<Rightarrow> [])"
  have "snapshotHeadsMatch decoded declared \<longleftrightarrow> length decoded = length hs \<and> distinct hs \<and> set decoded \<subseteq> set hs"
    unfolding snapshotHeadsMatch_def hs_def [symmetric] by (auto simp: Let_def len list_all_iff)
  also have "\<dots> \<longleftrightarrow> distinct hs \<and> set decoded = set hs"
    using assms by (metis card_subset_eq distinct_card finite_set order_refl)
  finally show ?thesis by (simp add: hs_def)
qed

theorem snapshot_heads_exact_witness:
  "snapshotHeadsMatch [''x'', ''y''] (Some [''y'', ''x''])"
  using snapshot_heads_exact [of "[''x'', ''y'']" "Some [''y'', ''x'']"] by (auto simp: Let_def)

text \<open>A decoded list with duplicates can pass although the sets differ.\<close>

theorem snapshot_heads_duplicate_decoded:
  assumes "a \<noteq> b"
  shows "snapshotHeadsMatch [a, a] (Some [a, b]) \<and> set [a, a] \<noteq> set [a, b]"
  using assms by (auto simp: snapshotHeadsMatch_def js_dedup_def set_add_def)

end
