(* ===== verification/WitnessReceipts.thy ===== *)
theory WitnessReceipts
  imports EntrySignature JsValue
begin

text \<open>
  Witness receipts: the signed byte layout (\<^verbatim>\<open>core/crypto/WitnessReceipt.ts\<close>) and their
  validation on receipt, the clock-skew guard and the sync negotiation
  (\<^verbatim>\<open>core/accesscontrol/receiptValidation.ts\<close>). The host's key import and Ed25519 operations are
  arguments. A result \<open>None\<close> means that an exception leaves the function: a malformed key.
  Times are integers, so the integer check of the layout always passes.
\<close>

section \<open>Receipts\<close>

definition WITNESS_RECEIPT_LAYOUT_VERSION :: int where
  "WITNESS_RECEIPT_LAYOUT_VERSION = 1"

record witness_receipt_fields =
  wf_entryType :: store_entry_type
  wf_dbid :: string
  wf_contentHash :: string
  wf_id :: string
  wf_docId :: string
  wf_decryptionKeyId :: string
  wf_createdAt :: int
  wf_createdByPublicKey :: string
  wf_receivedAt :: int
  wf_receivedByPublicKey :: string

definition buildWitnessSigningBytes :: "int \<Rightarrow> witness_receipt_fields \<Rightarrow> bytes" where
  "buildWitnessSigningBytes version f =
     of_int version # lp_string (entry_type_name (wf_entryType f)) @ lp_string (wf_dbid f) @
     lp_string (wf_contentHash f) @ lp_string (wf_id f) @ lp_string (wf_docId f) @
     lp_string (wf_decryptionKeyId f) @ int64be (wf_createdAt f) @ lp_string (wf_createdByPublicKey f) @
     int64be (wf_receivedAt f) @ lp_string (wf_receivedByPublicKey f)"

definition witnessFieldsFromEntry ::
  "store_entry_metadata \<Rightarrow> string \<Rightarrow> int \<Rightarrow> string \<Rightarrow> witness_receipt_fields" where
  "witnessFieldsFromEntry entry dbid received by_key =
     \<lparr> wf_entryType = entryType entry, wf_dbid = dbid, wf_contentHash = contentHash entry,
       wf_id = entry_id entry, wf_docId = docId entry, wf_decryptionKeyId = decryptionKeyId entry,
       wf_createdAt = createdAt entry, wf_createdByPublicKey = createdByPublicKey entry,
       wf_receivedAt = received, wf_receivedByPublicKey = by_key \<rparr>"

text \<open>\<^verbatim>\<open>s.replace(pattern, "")\<close> with a string pattern: the first occurrence.\<close>

fun remove_first :: "string \<Rightarrow> string \<Rightarrow> string" where
  "remove_first pat [] = []"
| "remove_first pat (c # cs) =
     (if take (length pat) (c # cs) = pat then drop (length pat) (c # cs) else c # remove_first pat cs)"

definition pemToArrayBuffer :: "string \<Rightarrow> bytes option" where
  "pemToArrayBuffer pem =
     base64ToBytes (filter (\<lambda>c. \<not> js_space c)
       (remove_first ''-----END PUBLIC KEY-----'' (remove_first ''-----BEGIN PUBLIC KEY-----'' pem)))"

definition signWitnessReceipt ::
  "('priv \<Rightarrow> bytes \<Rightarrow> bytes) \<Rightarrow> witness_receipt_fields \<Rightarrow> 'priv \<Rightarrow> int \<Rightarrow> bytes" where
  "signWitnessReceipt sign f key version = sign key (buildWitnessSigningBytes version f)"

record stamped_witness_fields =
  st_receivedAt :: int
  st_receivedByPublicKey :: string
  st_receivedDateSignature :: bytes

record 'priv witness_signer =
  publicKeyPem :: string
  signingPrivateKey :: 'priv

definition stampEntryReceipt ::
  "('priv \<Rightarrow> bytes \<Rightarrow> bytes) \<Rightarrow> store_entry_metadata \<Rightarrow> string \<Rightarrow> int \<Rightarrow> 'priv witness_signer \<Rightarrow> stamped_witness_fields" where
  "stampEntryReceipt sign entry dbid received signer =
     (let f = witnessFieldsFromEntry entry dbid received (publicKeyPem signer)
      in \<lparr> st_receivedAt = received, st_receivedByPublicKey = publicKeyPem signer,
           st_receivedDateSignature =
             signWitnessReceipt sign f (signingPrivateKey signer) WITNESS_RECEIPT_LAYOUT_VERSION \<rparr>)"

definition verifyWitnessReceipt ::
  "(bytes \<Rightarrow> 'key option) \<Rightarrow> ('key \<Rightarrow> bytes \<Rightarrow> bytes \<Rightarrow> bool) \<Rightarrow> witness_receipt_fields \<Rightarrow> bytes \<Rightarrow> string \<Rightarrow> int \<Rightarrow>
   bool option" where
  "verifyWitnessReceipt importKey verify f sig pem version =
     (if version \<noteq> WITNESS_RECEIPT_LAYOUT_VERSION then Some False
      else map_option (\<lambda>key. verify key sig (buildWitnessSigningBytes version f))
             (Option.bind (pemToArrayBuffer pem) importKey))"

section \<open>Clock skew and negotiation\<close>

definition DEFAULT_CLOCK_SKEW_TOLERANCE_MS :: int where
  "DEFAULT_CLOCK_SKEW_TOLERANCE_MS = 5 * 60 * 1000"

definition DEFAULT_IMPLAUSIBLE_PAST_MS :: int where
  "DEFAULT_IMPLAUSIBLE_PAST_MS = 365 * 24 * 60 * 60 * 1000"

record clock_skew_result =
  skew_ok :: bool
  skewMs :: int
  toleranceMs :: int

definition checkClockSkew :: "int \<Rightarrow> int \<Rightarrow> int option \<Rightarrow> clock_skew_result" where
  "checkClockSkew localTime serverTime tolerance =
     (let tol = (case tolerance of Some t \<Rightarrow> t | None \<Rightarrow> DEFAULT_CLOCK_SKEW_TOLERANCE_MS);
          skew = \<bar>localTime - serverTime\<bar>
      in \<lparr> skew_ok = (skew \<le> tol), skewMs = skew, toleranceMs = tol \<rparr>)"

record negotiable_capabilities =
  cap_serverTime :: "int option"
  cap_supportsAccessControlV1 :: "bool option"

datatype negotiation_refusal = ClockSkewExceeded int int | StrictModeUnsupported

record sync_negotiation_result =
  neg_ok :: bool
  neg_reason :: "negotiation_refusal option"
  neg_clockSkew :: "clock_skew_result option"
  neg_accessControlAvailable :: bool

definition negotiateSync ::
  "int \<Rightarrow> negotiable_capabilities \<Rightarrow> bool \<Rightarrow> int option \<Rightarrow> sync_negotiation_result" where
  "negotiateSync localTime caps strictMode tolerance =
     (let available = (cap_supportsAccessControlV1 caps = Some True);
          skew = map_option (\<lambda>t. checkClockSkew localTime t tolerance) (cap_serverTime caps)
      in case skew of
           Some s \<Rightarrow>
             if \<not> skew_ok s
             then \<lparr> neg_ok = False, neg_reason = Some (ClockSkewExceeded (skewMs s) (toleranceMs s)),
                    neg_clockSkew = skew, neg_accessControlAvailable = available \<rparr>
             else if strictMode \<and> \<not> available
             then \<lparr> neg_ok = False, neg_reason = Some StrictModeUnsupported, neg_clockSkew = skew,
                    neg_accessControlAvailable = available \<rparr>
             else \<lparr> neg_ok = True, neg_reason = None, neg_clockSkew = skew, neg_accessControlAvailable = available \<rparr>
         | None \<Rightarrow>
             if strictMode \<and> \<not> available
             then \<lparr> neg_ok = False, neg_reason = Some StrictModeUnsupported, neg_clockSkew = None,
                    neg_accessControlAvailable = available \<rparr>
             else \<lparr> neg_ok = True, neg_reason = None, neg_clockSkew = None, neg_accessControlAvailable = available \<rparr>)"

section \<open>Validation on receipt\<close>

datatype receipt_rejection =
    UntrustedWitness | InvalidWitnessSignature | NonMonotonicReceivedAt int int | ImplausiblyInFuture

record receipt_validation_result =
  rv_ok :: bool
  rv_reason :: "receipt_rejection option"
  rv_noReceipt :: bool
  rv_flaggedImplausiblePast :: bool

record receipt_validation_context =
  ctx_dbid :: string
  ctx_trustedWitnessKeys :: "string jsset"
  ctx_nowMs :: int
  ctx_skewToleranceMs :: "int option"
  ctx_implausiblePastMs :: "int option"

type_synonym validator = "(string, int) jsmap"

definition rv_accept :: "bool \<Rightarrow> bool \<Rightarrow> receipt_validation_result" where
  "rv_accept none flagged = \<lparr> rv_ok = True, rv_reason = None, rv_noReceipt = none, rv_flaggedImplausiblePast = flagged \<rparr>"

definition rv_reject :: "receipt_rejection \<Rightarrow> receipt_validation_result" where
  "rv_reject why = \<lparr> rv_ok = False, rv_reason = Some why, rv_noReceipt = False, rv_flaggedImplausiblePast = False \<rparr>"

definition getLastSeen :: "validator \<Rightarrow> string \<Rightarrow> int option" where
  "getLastSeen lastSeen key = map_of lastSeen key"

text \<open>The receipt of an entry, when all three fields are there and the key is not empty.\<close>

definition receipt_of :: "store_entry_metadata \<Rightarrow> (int \<times> string \<times> bytes) option" where
  "receipt_of entry =
     (case (receivedAt entry, receivedByPublicKey entry, receivedDateSignature entry) of
        (Some t, Some key, Some sig) \<Rightarrow> if key = '''' then None else Some (t, key, sig)
      | _ \<Rightarrow> None)"

definition skew_tolerance :: "receipt_validation_context \<Rightarrow> int" where
  "skew_tolerance ctx = (case ctx_skewToleranceMs ctx of Some t \<Rightarrow> t | None \<Rightarrow> DEFAULT_CLOCK_SKEW_TOLERANCE_MS)"

definition implausible_past :: "receipt_validation_context \<Rightarrow> int" where
  "implausible_past ctx = (case ctx_implausiblePastMs ctx of Some t \<Rightarrow> t | None \<Rightarrow> DEFAULT_IMPLAUSIBLE_PAST_MS)"

definition validate ::
  "(bytes \<Rightarrow> 'key option) \<Rightarrow> ('key \<Rightarrow> bytes \<Rightarrow> bytes \<Rightarrow> bool) \<Rightarrow> validator \<Rightarrow> store_entry_metadata \<Rightarrow>
   receipt_validation_context \<Rightarrow> (receipt_validation_result \<times> validator) option" where
  "validate importKey verify lastSeen entry ctx =
     (case receipt_of entry of
        None \<Rightarrow> Some (rv_accept True False, lastSeen)
      | Some (received, key, sig) \<Rightarrow>
          if key \<notin> set (ctx_trustedWitnessKeys ctx) then Some (rv_reject UntrustedWitness, lastSeen)
          else case verifyWitnessReceipt importKey verify (witnessFieldsFromEntry entry (ctx_dbid ctx) received key)
                      sig key WITNESS_RECEIPT_LAYOUT_VERSION of
            None \<Rightarrow> None
          | Some False \<Rightarrow> Some (rv_reject InvalidWitnessSignature, lastSeen)
          | Some True \<Rightarrow>
              (case Option.bind (map_of lastSeen key) (\<lambda>seen. if received < seen then Some seen else None) of
                 Some seen \<Rightarrow> Some (rv_reject (NonMonotonicReceivedAt received seen), lastSeen)
               | None \<Rightarrow>
                   if received > ctx_nowMs ctx + skew_tolerance ctx
                   then Some (rv_reject ImplausiblyInFuture, lastSeen)
                   else Some (rv_accept False (received < ctx_nowMs ctx - implausible_past ctx),
                              AList.update key received lastSeen)))"

definition trustedTimeOf :: "store_entry_metadata \<Rightarrow> int" where
  "trustedTimeOf entry = (case receivedAt entry of Some t \<Rightarrow> t | None \<Rightarrow> createdAt entry)"

section \<open>A receipt cannot be moved\<close>

definition valid_witness_fields :: "witness_receipt_fields \<Rightarrow> bool" where
  "valid_witness_fields f \<longleftrightarrow>
     valid_string (wf_dbid f) \<and> valid_string (wf_contentHash f) \<and> valid_string (wf_id f) \<and>
     valid_string (wf_docId f) \<and> valid_string (wf_decryptionKeyId f) \<and> valid_int64 (wf_createdAt f) \<and>
     valid_string (wf_createdByPublicKey f) \<and> valid_int64 (wf_receivedAt f) \<and> valid_string (wf_receivedByPublicKey f)"

interpretation witness: prefix_code valid_witness_fields "buildWitnessSigningBytes v"
proof
  fix x y r r'
  assume v: "valid_witness_fields x" "valid_witness_fields y"
    and eq: "buildWitnessSigningBytes v x @ r = buildWitnessSigningBytes v y @ r'"
  note e0 = eq [unfolded buildWitnessSigningBytes_def append_Cons append_assoc list.inject, THEN conjunct2]
  from lps.rest [OF entry_type_name_valid entry_type_name_valid e0] have 1: "wf_entryType x = wf_entryType y"
    using entry_type_name_inj by blast
  have "wf_dbid x = wf_dbid y \<and> wf_contentHash x = wf_contentHash y \<and> wf_id x = wf_id y \<and> wf_docId x = wf_docId y \<and>
      wf_decryptionKeyId x = wf_decryptionKeyId y \<and> wf_createdAt x = wf_createdAt y \<and>
      wf_createdByPublicKey x = wf_createdByPublicKey y \<and> wf_receivedAt x = wf_receivedAt y \<and>
      wf_receivedByPublicKey x = wf_receivedByPublicKey y"
    using e0 v 1
    by (auto simp: valid_witness_fields_def dest!: lps.rest [rotated 2] i64.rest [rotated 2])
  with 1 show "x = y" by simp
qed

lemma witness_bytes_inj:
  assumes "valid_witness_fields f" and "valid_witness_fields g"
    and "buildWitnessSigningBytes v f = buildWitnessSigningBytes v g"
  shows "f = g"
  using witness.prefix [OF assms(1,2), of v "[]" "[]"] assms(3) by simp

text \<open>
  C19. A receipt cannot be transplanted. Let \<open>history\<close> be the fields of the receipts that a witness
  issued, let these and the receipt at hand be within the limits of the layout, and let signatures made with its private key verify
  under the public key that its PEM text imports to. The receipt that the witness stamps on an
  entry verifies for that entry; and a receipt that verifies is under the known layout version and
  is for exactly the operation type, database, content, entry, document, key, author, times and
  witness of a receipt in \<open>history\<close>, or its signature is forged: it verifies for bytes that the
  witness never signed.
\<close>

theorem witness_receipt_binds_entry:
  assumes pair: "\<And>m. verify pub (sign (signingPrivateKey signer) m) m"
    and key: "Option.bind (pemToArrayBuffer (publicKeyPem signer)) importKey = Some pub"
    and "valid_witness_fields f" and "\<And>g. g \<in> history \<Longrightarrow> valid_witness_fields g"
  shows "verifyWitnessReceipt importKey verify (witnessFieldsFromEntry e db t (publicKeyPem signer))
      (st_receivedDateSignature (stampEntryReceipt sign e db t signer)) (publicKeyPem signer)
      WITNESS_RECEIPT_LAYOUT_VERSION = Some True \<and>
    (verifyWitnessReceipt importKey verify f sig (publicKeyPem signer) version = Some True \<longrightarrow>
       version = WITNESS_RECEIPT_LAYOUT_VERSION \<and>
       (f \<in> history \<or>
        forged_signature verify pub (buildWitnessSigningBytes version ` history) sig (buildWitnessSigningBytes version f)))"
proof (intro conjI impI)
  show "verifyWitnessReceipt importKey verify (witnessFieldsFromEntry e db t (publicKeyPem signer))
      (st_receivedDateSignature (stampEntryReceipt sign e db t signer)) (publicKeyPem signer)
      WITNESS_RECEIPT_LAYOUT_VERSION = Some True"
    using pair key by (simp add: verifyWitnessReceipt_def stampEntryReceipt_def signWitnessReceipt_def Let_def)
  assume v: "verifyWitnessReceipt importKey verify f sig (publicKeyPem signer) version = Some True"
  then show "version = WITNESS_RECEIPT_LAYOUT_VERSION" by (auto simp: verifyWitnessReceipt_def split: if_splits)
  then have "verify pub sig (buildWitnessSigningBytes version f)" using v key by (simp add: verifyWitnessReceipt_def)
  moreover have "f \<in> history" if "g \<in> history" "buildWitnessSigningBytes version f = buildWitnessSigningBytes version g" for g
    using witness_bytes_inj [OF assms(3) assms(4) [OF that(1)] that(2)] that(1) by simp
  ultimately show "f \<in> history \<or>
      forged_signature verify pub (buildWitnessSigningBytes version ` history) sig (buildWitnessSigningBytes version f)"
    by (auto simp: forged_signature_def)
qed

definition demo_receipt_fields :: "string \<Rightarrow> witness_receipt_fields" where
  "demo_receipt_fields db =
     witnessFieldsFromEntry (sample_metadata doc_change ''a'' ''d'' [] ''h'' 0) db 5 ''''"

theorem witness_receipt_binds_entry_witness:
  "\<exists>sig. verifyWitnessReceipt Some (\<lambda>k sig m. sig = m) (demo_receipt_fields ''main'') sig '''' 1 = Some True \<and>
     verifyWitnessReceipt Some (\<lambda>k sig m. sig = m) (demo_receipt_fields ''other'') sig '''' 1 \<noteq> Some True"
proof -
  let ?v = "\<lambda>(k :: bytes) sig m. sig = (m :: bytes)" and ?sign = "\<lambda>(k :: unit) m. m :: bytes"
  let ?signer = "\<lparr> publicKeyPem = '''', signingPrivateKey = () \<rparr>"
  let ?sig = "st_receivedDateSignature (stampEntryReceipt ?sign (sample_metadata doc_change ''a'' ''d'' [] ''h'' 0) ''main'' 5 ?signer)"
  have ok: "valid_witness_fields (demo_receipt_fields db)" if "db = ''main'' \<or> db = ''other''" for db
    using that by (auto simp: demo_receipt_fields_def witnessFieldsFromEntry_def sample_metadata_def valid_witness_fields_def
        valid_string_def valid_lp_def utf8_encode_def utf8_char_def valid_int64_def)
  have key: "Option.bind (pemToArrayBuffer (publicKeyPem ?signer)) Some = Some []"
    using base64_bytes_inverse [of "[]"] by (simp add: pemToArrayBuffer_def bytesToBase64_def)
  note T = witness_receipt_binds_entry [where verify = ?v and sign = ?sign and signer = ?signer and pub = "[]" and importKey = Some
      and f = "demo_receipt_fields ''other''" and history = "{demo_receipt_fields ''main''}" and db = "''main''" and t = 5
      and e = "sample_metadata doc_change ''a'' ''d'' [] ''h'' 0" and sig = ?sig and version = 1, OF refl key]
  have "demo_receipt_fields ''main'' \<noteq> demo_receipt_fields ''other''"
    by (simp add: demo_receipt_fields_def witnessFieldsFromEntry_def)
  moreover have "?sig = buildWitnessSigningBytes 1 (demo_receipt_fields ''main'')"
    by (simp add: stampEntryReceipt_def signWitnessReceipt_def demo_receipt_fields_def WITNESS_RECEIPT_LAYOUT_VERSION_def Let_def)
  ultimately show ?thesis
    using T ok by (intro exI [of _ ?sig]) (auto simp: forged_signature_def demo_receipt_fields_def WITNESS_RECEIPT_LAYOUT_VERSION_def)
qed

section \<open>Receipts over time\<close>

fun validate_run ::
  "(bytes \<Rightarrow> 'key option) \<Rightarrow> ('key \<Rightarrow> bytes \<Rightarrow> bytes \<Rightarrow> bool) \<Rightarrow> validator \<Rightarrow>
   (store_entry_metadata \<times> receipt_validation_context) list \<Rightarrow> ((string \<times> int) list \<times> validator) option" where
  "validate_run importKey verify ls [] = Some ([], ls)"
| "validate_run importKey verify ls ((e, ctx) # es) =
     (case validate importKey verify ls e ctx of
        None \<Rightarrow> None
      | Some (res, ls') \<Rightarrow>
          map_option (\<lambda>(acc, ls''). ((if rv_ok res \<and> \<not> rv_noReceipt res
              then [(the (receivedByPublicKey e), the (receivedAt e))] else []) @ acc, ls''))
            (validate_run importKey verify ls' es))"

lemma rv_simps [simp]:
  "rv_ok (rv_accept n f)" "\<not> rv_ok (rv_reject w)" "rv_noReceipt (rv_accept n f) = n"
  by (simp_all add: rv_accept_def rv_reject_def)

lemma validate_accepts:
  assumes "validate importKey verify ls e ctx = Some (res, ls')" and "rv_ok res" and "\<not> rv_noReceipt res"
  obtains t key sig where "receipt_of e = Some (t, key, sig)" "key \<in> set (ctx_trustedWitnessKeys ctx)"
    "verifyWitnessReceipt importKey verify (witnessFieldsFromEntry e (ctx_dbid ctx) t key) sig key
       WITNESS_RECEIPT_LAYOUT_VERSION = Some True"
    "\<forall>s. map_of ls key = Some s \<longrightarrow> s \<le> t" "t \<le> ctx_nowMs ctx + skew_tolerance ctx"
    "ls' = AList.update key t ls"
proof -
  obtain t key sig where r: "receipt_of e = Some (t, key, sig)"
    using assms by (cases "receipt_of e") (auto simp: validate_def)
  show thesis
    by (rule that [of t key sig])
      (use assms r in \<open>auto simp: validate_def not_less split: if_splits option.splits bool.splits\<close>)
qed

lemma validate_rejects:
  "validate importKey verify ls e ctx = Some (res, ls') \<Longrightarrow> \<not> (rv_ok res \<and> \<not> rv_noReceipt res) \<Longrightarrow> ls' = ls"
  by (auto simp: validate_def split: if_splits option.splits bool.splits prod.splits)

text \<open>
  C20. Accepted receipts are sound: the witness is trusted, its signature over this entry in this
  database verifies, the time is not before the last one accepted from that witness and not in
  the future beyond the tolerance, and the high-water mark advances to it. Any other outcome leaves
  the validator unchanged, so a rejected or unsigned entry cannot influence later decisions.
\<close>

theorem receipt_validation_sound:
  assumes "validate importKey verify ls e ctx = Some (res, ls')"
  shows "(rv_ok res \<and> \<not> rv_noReceipt res \<longrightarrow>
            (\<exists>t key sig. receipt_of e = Some (t, key, sig) \<and> key \<in> set (ctx_trustedWitnessKeys ctx) \<and>
               verifyWitnessReceipt importKey verify (witnessFieldsFromEntry e (ctx_dbid ctx) t key) sig key
                 WITNESS_RECEIPT_LAYOUT_VERSION = Some True \<and>
               (\<forall>s. getLastSeen ls key = Some s \<longrightarrow> s \<le> t) \<and> t \<le> ctx_nowMs ctx + skew_tolerance ctx \<and>
               getLastSeen ls' key = Some t \<and> (\<forall>k. k \<noteq> key \<longrightarrow> getLastSeen ls' k = getLastSeen ls k))) \<and>
         (\<not> (rv_ok res \<and> \<not> rv_noReceipt res) \<longrightarrow> ls' = ls)"
proof -
  let ?P = "\<lambda>t key sig. receipt_of e = Some (t, key, sig) \<and> key \<in> set (ctx_trustedWitnessKeys ctx) \<and>
               verifyWitnessReceipt importKey verify (witnessFieldsFromEntry e (ctx_dbid ctx) t key) sig key
                 WITNESS_RECEIPT_LAYOUT_VERSION = Some True \<and>
               (\<forall>s. getLastSeen ls key = Some s \<longrightarrow> s \<le> t) \<and> t \<le> ctx_nowMs ctx + skew_tolerance ctx \<and>
               getLastSeen ls' key = Some t \<and> (\<forall>k. k \<noteq> key \<longrightarrow> getLastSeen ls' k = getLastSeen ls k)"
  have "\<exists>t key sig. ?P t key sig" if ok: "rv_ok res" "\<not> rv_noReceipt res"
  proof (rule validate_accepts [OF assms ok])
    fix t key sig
    assume "receipt_of e = Some (t, key, sig)" "key \<in> set (ctx_trustedWitnessKeys ctx)"
      "verifyWitnessReceipt importKey verify (witnessFieldsFromEntry e (ctx_dbid ctx) t key) sig key
         WITNESS_RECEIPT_LAYOUT_VERSION = Some True"
      "\<forall>s. map_of ls key = Some s \<longrightarrow> s \<le> t" "t \<le> ctx_nowMs ctx + skew_tolerance ctx" "ls' = AList.update key t ls"
    then have "?P t key sig" by (simp add: getLastSeen_def map_of_update)
    then show ?thesis by blast
  qed
  with validate_rejects [OF assms] show ?thesis by blast
qed

lemma validate_run_monotone:
  "validate_run importKey verify ls es = Some (acc, ls') \<Longrightarrow>
     sorted (map snd (filter (\<lambda>(k, t). k = key) acc)) \<and>
     (\<forall>s. map_of ls key = Some s \<longrightarrow> (\<forall>t. (key, t) \<in> set acc \<longrightarrow> s \<le> t))"
proof (induction es arbitrary: ls acc)
  case (Cons p es)
  obtain e ctx where p: "p = (e, ctx)" by (cases p)
  obtain res ls1 acc1 where v: "validate importKey verify ls e ctx = Some (res, ls1)"
    "validate_run importKey verify ls1 es = Some (acc1, ls')"
    "acc = (if rv_ok res \<and> \<not> rv_noReceipt res then [(the (receivedByPublicKey e), the (receivedAt e))] else []) @ acc1"
    using Cons.prems p by (auto split: option.splits prod.splits)
  note IH = Cons.IH [OF v(2)]
  show ?case
  proof (cases "rv_ok res \<and> \<not> rv_noReceipt res")
    case True
    from validate_accepts [OF v(1)] True obtain t k sig where a: "receipt_of e = Some (t, k, sig)"
      "\<forall>s. map_of ls k = Some s \<longrightarrow> s \<le> t" "ls1 = AList.update k t ls" by metis
    have "the (receivedByPublicKey e) = k" "the (receivedAt e) = t"
      using a(1) by (auto simp: receipt_of_def split: option.splits if_splits)
    then have acc: "acc = (k, t) # acc1" using v(3) True by simp
    show ?thesis
    proof (cases "k = key")
      case True
      then have "\<forall>t'. (key, t') \<in> set acc1 \<longrightarrow> t \<le> t'" using IH a(3) by (simp add: map_of_update)
      then show ?thesis using IH acc True a(2) by (auto intro: order_trans)
    next
      case False
      then show ?thesis using IH acc a(3) by (auto simp: map_of_update)
    qed
  next
    case False
    then have "acc = acc1" "ls1 = ls" using v(3) validate_rejects [OF v(1)] by auto
    then show ?thesis using IH by simp
  qed
qed simp

text \<open>
  A witness cannot rewind its clock: over any sequence of entries that one validator checks,
  the times it accepts from each witness never decrease, and none is before the mark the
  validator started with.
\<close>

theorem receipt_times_monotone:
  assumes "validate_run importKey verify ls es = Some (acc, ls')"
  shows "sorted (map snd (filter (\<lambda>(k, t). k = key) acc)) \<and>
         (\<forall>s t. getLastSeen ls key = Some s \<and> (key, t) \<in> set acc \<longrightarrow> s \<le> t)"
  using validate_run_monotone [OF assms, of key] by (auto simp: getLastSeen_def)

text \<open>
  Negotiation refuses exactly the unsafe connections: sync may proceed if and only if the
  reported server time, when there is one, is within the tolerance of the local clock, and the
  server supports access control when strict mode demands it. A refusal always has a reason.
\<close>

theorem negotiation_exact:
  "(neg_ok (negotiateSync localTime caps strict tol) \<longleftrightarrow>
      (\<forall>t. cap_serverTime caps = Some t \<longrightarrow>
         \<bar>localTime - t\<bar> \<le> (case tol of Some x \<Rightarrow> x | None \<Rightarrow> DEFAULT_CLOCK_SKEW_TOLERANCE_MS)) \<and>
      (strict \<longrightarrow> cap_supportsAccessControlV1 caps = Some True)) \<and>
   (neg_ok (negotiateSync localTime caps strict tol) \<longleftrightarrow> neg_reason (negotiateSync localTime caps strict tol) = None)"
  by (cases "cap_serverTime caps") (auto simp: negotiateSync_def checkClockSkew_def Let_def)

text \<open>A witnessed entry and a context that trusts its witness.\<close>

definition demo_witnessed :: "int \<Rightarrow> store_entry_metadata" where
  "demo_witnessed t = (sample_metadata doc_change ''a'' ''d'' [] ''h'' 0)
     \<lparr> receivedAt := Some t, receivedByPublicKey := Some ''AAAA'', receivedDateSignature := Some [] \<rparr>"

definition demo_context :: receipt_validation_context where
  "demo_context = \<lparr> ctx_dbid = ''main'', ctx_trustedWitnessKeys = [''AAAA''], ctx_nowMs = 100,
     ctx_skewToleranceMs = Some 10, ctx_implausiblePastMs = None \<rparr>"

lemma demo_validate:
  "validate (\<lambda>_. Some ()) (\<lambda>_ _ _. True) ls (demo_witnessed t) demo_context =
     (case Option.bind (map_of ls ''AAAA'') (\<lambda>seen. if t < seen then Some seen else None) of
        Some seen \<Rightarrow> Some (rv_reject (NonMonotonicReceivedAt t seen), ls)
      | None \<Rightarrow> if t > 110 then Some (rv_reject ImplausiblyInFuture, ls)
                else Some (rv_accept False (t < 100 - DEFAULT_IMPLAUSIBLE_PAST_MS), AList.update ''AAAA'' t ls))"
proof -
  have "char_of (65 :: nat) = CHR ''A''" by code_simp
  then have "base64ToBytes ''AAAA'' = Some [0, 0, 0]"
    using base64_bytes_inverse [of "[0, 0, 0]"] by (simp add: bytesToBase64_def b64_char_def)
  then have "pemToArrayBuffer ''AAAA'' = Some [0, 0, 0]" by (simp add: pemToArrayBuffer_def js_space_def)
  then show ?thesis
    by (simp add: validate_def demo_witnessed_def demo_context_def receipt_of_def
        verifyWitnessReceipt_def skew_tolerance_def implausible_past_def cong: option.case_cong)
qed

theorem receipt_validation_sound_witness:
  "\<exists>ls'. validate (\<lambda>_. Some ()) (\<lambda>_ _ _. True) [] (demo_witnessed 90) demo_context =
     Some (rv_accept False False, ls') \<and> getLastSeen ls' ''AAAA'' = Some 90"
proof -
  let ?ls = "AList.update ''AAAA'' 90 []"
  have v: "validate (\<lambda>_. Some ()) (\<lambda>_ _ _. True) [] (demo_witnessed 90) demo_context = Some (rv_accept False False, ?ls)"
    by (simp add: demo_validate DEFAULT_IMPLAUSIBLE_PAST_MS_def)
  from receipt_validation_sound [OF v] have "\<exists>t key sig. receipt_of (demo_witnessed 90) = Some (t, key, sig) \<and> getLastSeen ?ls key = Some t"
    by auto
  with v show ?thesis by (auto simp: receipt_of_def demo_witnessed_def)
qed

theorem receipt_times_monotone_witness:
  "\<exists>acc ls'. validate_run (\<lambda>_. Some ()) (\<lambda>_ _ _. True) [] [(demo_witnessed 90, demo_context), (demo_witnessed 80, demo_context), (demo_witnessed 95, demo_context)]
      = Some (acc, ls') \<and> acc = [(''AAAA'', 90), (''AAAA'', 95)] \<and> sorted (map snd (filter (\<lambda>(k, t). k = ''AAAA'') acc))"
proof -
  have "\<exists>ls'. validate_run (\<lambda>_. Some ()) (\<lambda>_ _ _. True) [] [(demo_witnessed 90, demo_context), (demo_witnessed 80, demo_context), (demo_witnessed 95, demo_context)]
      = Some ([(''AAAA'', 90), (''AAAA'', 95)], ls')"
    by (simp add: demo_validate) (simp add: demo_witnessed_def)
  with receipt_times_monotone show ?thesis by blast
qed

theorem negotiation_exact_witness:
  "neg_ok (negotiateSync 1000 \<lparr> cap_serverTime = Some 900, cap_supportsAccessControlV1 = Some True \<rparr> True (Some 100))"
  using negotiation_exact [of 1000 "\<lparr> cap_serverTime = Some 900, cap_supportsAccessControlV1 = Some True \<rparr>" True "Some 100"]
  by simp

end
