(* ===== verification/StoreApi.thy ===== *)
theory StoreApi
  imports StoreBehaviour Bloom MaterializationPlanner AttachmentReadPlanner
begin

text \<open>
  The interface \<^verbatim>\<open>ContentAddressedStore\<close> of \<^verbatim>\<open>core/appendonlystores/types.ts\<close>, as
  far as the sync engine uses it, the entry points of the in-memory store that delegate to the
  planners, and the in-memory store as a provider of the interface.

  \<open>store_ops\<close> is the record of the methods over an abstract store state. An optional method
  is an \<open>option\<close> field; a method that may throw returns \<open>None\<close> then, and a method that
  changes the state returns the new one in both cases. The contracts that the sync engine relies
  on are the locales \<open>source_store\<close> and \<open>target_store\<close>; both are interpreted on the
  in-memory store.
\<close>

section \<open>The interface\<close>

record rejected_put_entry =
  rejected_id :: string
  rejected_reason :: string

text \<open>The result of \<^verbatim>\<open>putEntries\<close>: \<^verbatim>\<open>void\<close>, an array of receipts or a structured ack.\<close>

datatype put_result =
  PutVoid
| PutReceipts "store_entry_metadata list"
| PutEntriesAck "store_entry_metadata list option" "rejected_put_entry list option"

record 's store_ops =
  op_getId :: "'s \<Rightarrow> string"
  op_getStoreKind :: "'s \<Rightarrow> store_kind"
  op_getCacheIdentity :: "('s \<Rightarrow> string) option"
  op_putEntries :: "'s \<Rightarrow> store_entry list \<Rightarrow> put_result option \<times> 's"
  op_getEntries :: "'s \<Rightarrow> string list \<Rightarrow> store_entry list option"
  op_hasEntries :: "'s \<Rightarrow> string list \<Rightarrow> string list option"
  op_findNewEntries :: "'s \<Rightarrow> string list \<Rightarrow> store_entry_metadata list option"
  op_findEntries :: "'s \<Rightarrow> store_entry_type \<Rightarrow> int option \<Rightarrow> int option \<Rightarrow> store_entry_metadata list option"
  op_getAllIds :: "'s \<Rightarrow> string list option"
  op_scanEntriesSince :: "('s \<Rightarrow> store_scan_cursor option \<Rightarrow> int \<Rightarrow> store_scan_result option \<times> 's) option"
  op_getIdBloomSummary :: "('s \<Rightarrow> id_bloom_summary option) option"
  op_getStoreHead :: "('s \<Rightarrow> store_head option) option"
  op_applyWitnessReceipts :: "('s \<Rightarrow> store_entry_metadata list \<Rightarrow> bool \<times> 's) option"
  op_planBatch :: "'s \<Rightarrow> string list \<Rightarrow> document_plan list option"

section \<open>The remaining entry points of the in-memory store\<close>

definition DEFAULT_FALSE_POSITIVE_RATE :: real where
  "DEFAULT_FALSE_POSITIVE_RATE = 1 / 100"

definition getIdBloomSummary :: "in_memory_store \<Rightarrow> id_bloom_summary" where
  "getIdBloomSummary s = createIdBloomSummary (getAllIds s) DEFAULT_FALSE_POSITIVE_RATE"

definition planDocumentMaterialization :: "in_memory_store \<Rightarrow> string \<Rightarrow> bool \<Rightarrow> document_plan" where
  "planDocumentMaterialization s d includeDiagnostics =
     computeDocumentMaterializationPlan d (doc_entries s d) includeDiagnostics"

definition planDocumentMaterializationBatch ::
  "in_memory_store \<Rightarrow> string list \<Rightarrow> bool \<Rightarrow> document_plan list" where
  "planDocumentMaterializationBatch s docIds includeDiagnostics =
     computeBatchMaterializationPlan (map_values (entries s)) docIds includeDiagnostics"

definition planAttachmentRead ::
  "in_memory_store \<Rightarrow> string \<Rightarrow> int \<Rightarrow> int \<Rightarrow> int option \<Rightarrow> attachment_error + attachment_read_plan" where
  "planAttachmentRead s = planAttachmentReadByWalkingMetadata (getEntryMetadata s)"

datatype index_build_phase = phase_idle | phase_building | phase_ready

record store_index_build_status =
  build_phase :: index_build_phase
  build_indexingEnabled :: bool
  progress01 :: rat

definition getIndexBuildStatus :: "in_memory_store \<Rightarrow> store_index_build_status" where
  "getIndexBuildStatus s =
     \<lparr> build_phase = phase_ready, build_indexingEnabled = indexingEnabled s, progress01 = 1 \<rparr>"

definition awaitIndexReady :: "in_memory_store \<Rightarrow> store_index_build_status" where
  "awaitIndexReady s = getIndexBuildStatus s"

text \<open>
  The factory. The epochs come from the \<^verbatim>\<open>uuid\<close> package: one for each constructor and one
  for each \<^verbatim>\<open>clearAllLocalData\<close>. \<^verbatim>\<open>indexingEnabled !== false\<close> is on unless switched off.
\<close>

record open_store_options =
  opt_indexingEnabled :: "bool option"
  opt_clearLocalDataOnStartup :: bool

definition createStore ::
  "string \<Rightarrow> open_store_options \<Rightarrow> string \<times> string \<Rightarrow> string \<times> string \<Rightarrow> in_memory_store \<times> in_memory_store" where
  "createStore dbId opts newEpochs clearEpochs =
     (let indexing = (opt_indexingEnabled opts \<noteq> Some False);
          docStore = new_store dbId kind_docs (fst newEpochs) indexing;
          attachmentStore = new_store dbId kind_attachments (snd newEpochs) indexing
      in if opt_clearLocalDataOnStartup opts
         then (clearAllLocalData docStore (fst clearEpochs), clearAllLocalData attachmentStore (snd clearEpochs))
         else (docStore, attachmentStore))"

text \<open>The in-memory store as an instance of the interface. None of its methods throws.\<close>

definition memory_ops :: "(string \<Rightarrow> string \<Rightarrow> int) \<Rightarrow> in_memory_store store_ops" where
  "memory_ops lc = \<lparr>
     op_getId = store_dbId,
     op_getStoreKind = storeKind,
     op_getCacheIdentity = None,
     op_putEntries = (\<lambda>s es. (Some PutVoid, putEntries s es)),
     op_getEntries = (\<lambda>s ids. Some (getEntries s ids)),
     op_hasEntries = (\<lambda>s ids. Some (hasEntries s ids)),
     op_findNewEntries = (\<lambda>s ids. Some (findNewEntries s ids)),
     op_findEntries = (\<lambda>s ty a b. Some (findEntries s ty a b)),
     op_getAllIds = (\<lambda>s. Some (getAllIds s)),
     op_scanEntriesSince = Some (\<lambda>s c n. map_prod Some id (scanEntriesSince lc s c n None)),
     op_getIdBloomSummary = Some (\<lambda>s. Some (getIdBloomSummary s)),
     op_getStoreHead = Some (\<lambda>s. Some (getStoreHead s)),
     op_applyWitnessReceipts = Some (\<lambda>s rs. (True, applyWitnessReceipts s rs)),
     op_planBatch = (\<lambda>s ds. Some (planDocumentMaterializationBatch s ds False)) \<rparr>"

section \<open>Contracts\<close>

text \<open>
  A scan position is a receipt order with an id. \<open>page_ok P c page\<close> says that \<open>page\<close>
  is a page of a store with the positions \<open>P\<close>, read from cursor \<open>c\<close>: its entries are
  stored and after the cursor, in ascending order, and every stored position after the cursor is
  on the page or after its \<^verbatim>\<open>nextCursor\<close>.
\<close>

type_synonym position = "int \<times> string"

definition position_of :: "store_entry_metadata \<Rightarrow> position" where
  "position_of m = (receipt_order_of m, entry_id m)"

definition after_position :: "store_scan_cursor option \<Rightarrow> position \<Rightarrow> bool" where
  "after_position c p =
     (case c of None \<Rightarrow> True
      | Some k \<Rightarrow> fst p > cursor_receiptOrder k \<or> fst p = cursor_receiptOrder k \<and> snd p > cursor_id k)"

lemma after_position_of [simp]: "after_position c (position_of m) = after_cursor c m"
  by (simp add: after_position_def position_of_def after_cursor_def isAfterScanCursor_def Let_def split: option.split)

definition page_ok :: "position set \<Rightarrow> store_scan_cursor option \<Rightarrow> store_scan_result \<Rightarrow> bool" where
  "page_ok P c page \<longleftrightarrow>
     position_of ` set (scan_entries page) \<subseteq> {p \<in> P. after_position c p} \<and>
     sorted (map receipt_order_of (scan_entries page)) \<and>
     scan_nextCursor page = next_cursor (scan_entries page) c \<and>
     {p \<in> P. after_position c p} \<subseteq>
       position_of ` set (scan_entries page) \<union>
       {p. scan_hasMore page \<and> after_position (scan_nextCursor page) p} \<and>
     (scan_hasMore page \<longrightarrow> scan_entries page \<noteq> [])"

text \<open>
  What applying receipts for the entries \<open>R\<close> may do to the positions: entries keep their id,
  and one that moves is among \<open>R\<close> and moves past every position of before (past \<open>b\<close>).
\<close>

definition reanchored :: "string set \<Rightarrow> int \<Rightarrow> position set \<Rightarrow> position set \<Rightarrow> bool" where
  "reanchored R b P P' \<longleftrightarrow>
     snd ` P' = snd ` P \<and> (\<forall>p \<in> P'. p \<in> P \<or> b < fst p) \<and> (\<forall>p \<in> P. p \<in> P' \<or> snd p \<in> R)"

lemma reanchored_refl [simp, intro]: "reanchored R b P P"
  by (simp add: reanchored_def)

lemma reanchored_trans:
  assumes "reanchored R b P P'" and "reanchored R' b' P' P''" and "b \<le> b'"
  shows "reanchored (R \<union> R') b P P''"
  unfolding reanchored_def
proof (intro conjI ballI)
  show "snd ` P'' = snd ` P" using assms by (simp add: reanchored_def)
  show "p \<in> P \<or> b < fst p" if "p \<in> P''" for p
  proof -
    have "p \<in> P' \<or> b' < fst p" using that assms(2) by (simp add: reanchored_def)
    moreover have "p \<in> P' \<Longrightarrow> p \<in> P \<or> b < fst p" using assms(1) by (simp add: reanchored_def)
    ultimately show ?thesis using assms(3) by linarith
  qed
  show "p \<in> P'' \<or> snd p \<in> R \<union> R'" if "p \<in> P" for p
    using that assms(1,2) unfolding reanchored_def by blast
qed

lemma reanchored_mono: "reanchored R b P P' \<Longrightarrow> R \<subseteq> R' \<Longrightarrow> reanchored R' b P P'"
  by (auto simp: reanchored_def)

text \<open>The polymorphic result of \<^verbatim>\<open>putEntries\<close> as receipts and rejections.\<close>

definition normalizePutResult ::
  "put_result \<Rightarrow> store_entry_metadata list \<times> rejected_put_entry list" where
  "normalizePutResult r =
     (case r of
        PutReceipts receipts \<Rightarrow> (receipts, [])
      | PutEntriesAck receipts rejected \<Rightarrow>
          (case receipts of None \<Rightarrow> [] | Some xs \<Rightarrow> xs, case rejected of None \<Rightarrow> [] | Some xs \<Rightarrow> xs)
      | PutVoid \<Rightarrow> ([], []))"

text \<open>
  A put that returns has stored or rejected every entry of the batch, and its receipts are for
  accepted entries.
\<close>

definition ack_ok :: "store_entry list \<Rightarrow> put_result \<Rightarrow> string set \<Rightarrow> bool" where
  "ack_ok es r stored \<longleftrightarrow>
     (let (receipts, rejected) = normalizePutResult r
      in entry_id ` set es \<subseteq> stored \<union> rejected_id ` set rejected \<and>
         entry_id ` set receipts \<subseteq> stored)"

lemma ack_ok_mono: "ack_ok es r S \<Longrightarrow> S \<subseteq> S' \<Longrightarrow> ack_ok es r S'"
  by (auto simp: ack_ok_def Let_def split: prod.splits)

text \<open>
  A store to read from. \<open>top\<close> is its highest receipt order, \<open>epoch\<close> the identity of
  its receipt-order lineage. Nothing is promised when a method throws, apart from the state.
\<close>

locale source_store =
  fixes sops :: "'s store_ops" and sinv :: "'s \<Rightarrow> bool" and positions :: "'s \<Rightarrow> position set"
    and sepoch :: "'s \<Rightarrow> string" and top_order :: "'s \<Rightarrow> int"
  assumes positions_finite: "sinv s \<Longrightarrow> finite (positions s)"
    and positions_top: "sinv s \<Longrightarrow> p \<in> positions s \<Longrightarrow> fst p \<le> top_order s"
    and positions_order: "sinv s \<Longrightarrow> inj_on fst (positions s)"
    and scan_state: "op_scanEntriesSince sops = Some scan \<Longrightarrow> sinv s \<Longrightarrow> scan s c n = (r, s') \<Longrightarrow>
      sinv s' \<and> positions s' = positions s \<and> sepoch s' = sepoch s \<and> top_order s' = top_order s"
    and scan_page: "op_scanEntriesSince sops = Some scan \<Longrightarrow> sinv s \<Longrightarrow> 0 < n \<Longrightarrow>
      scan s c n = (Some page, s') \<Longrightarrow> page_ok (positions s) c page"
    and get_entries: "sinv s \<Longrightarrow> op_getEntries sops s ids = Some (es :: store_entry list) \<Longrightarrow>
      set ids \<inter> snd ` positions s \<subseteq> entry_id ` set es"
    and receipts_state: "op_applyWitnessReceipts sops = Some apply_rs \<Longrightarrow> sinv s \<Longrightarrow> apply_rs s rs = (ok, s') \<Longrightarrow>
      sinv s' \<and> sepoch s' = sepoch s \<and> top_order s \<le> top_order s' \<and>
      reanchored (entry_id ` set rs) (top_order s) (positions s) (positions s')"
    and source_head: "op_getStoreHead sops = Some hd_of \<Longrightarrow> sinv s \<Longrightarrow> hd_of s = Some h \<Longrightarrow>
      head_epoch h = sepoch s \<and> head_maxReceiptOrder h = top_order s"

locale target_store =
  fixes tops :: "'t store_ops" and tinv :: "'t \<Rightarrow> bool" and stored :: "'t \<Rightarrow> string set"
    and tepoch :: "'t \<Rightarrow> string"
  assumes has_entries: "tinv t \<Longrightarrow> op_hasEntries tops t ids = Some xs \<Longrightarrow> set xs = set ids \<inter> stored t"
    and put_state: "tinv t \<Longrightarrow> op_putEntries tops t es = (r, t') \<Longrightarrow>
      tinv t' \<and> tepoch t' = tepoch t \<and> stored t \<subseteq> stored t'"
    and put_ack: "tinv t \<Longrightarrow> op_putEntries tops t es = (Some ack, t') \<Longrightarrow> ack_ok es ack (stored t')"
    and bloom_summary: "op_getIdBloomSummary tops = Some bl \<Longrightarrow> tinv t \<Longrightarrow> bl t = Some b \<Longrightarrow>
      i \<in> stored t \<Longrightarrow> bloomMightContainId b i = Some True"
    and target_head: "op_getStoreHead tops = Some hd_of \<Longrightarrow> tinv t \<Longrightarrow> hd_of t = Some h \<Longrightarrow> head_epoch h = tepoch t"

text \<open>Stores whose methods do not throw.\<close>

locale reliable_source = source_store +
  assumes scan_returns: "\<exists>scan. op_scanEntriesSince sops = Some scan \<and>
      (\<forall>s c n. sinv s \<longrightarrow> fst (scan s c n) \<noteq> None)"
    and get_returns: "sinv s \<Longrightarrow> op_getEntries sops s ids \<noteq> None"
    and receipts_return: "op_applyWitnessReceipts sops = Some apply_rs \<Longrightarrow> sinv s \<Longrightarrow> fst (apply_rs s rs)"
    and head_returns: "\<exists>f. op_getStoreHead sops = Some f \<and> (\<forall>s. sinv s \<longrightarrow> f s \<noteq> None)"

locale reliable_target = target_store +
  assumes has_returns: "tinv t \<Longrightarrow> op_hasEntries tops t ids \<noteq> None"
    and put_returns: "tinv t \<Longrightarrow> fst (op_putEntries tops t es) \<noteq> None"
    and bloom_readable: "op_getIdBloomSummary tops = Some bl \<Longrightarrow> tinv t \<Longrightarrow> bl t = Some b \<Longrightarrow>
      bloomMightContainId b i \<noteq> None"

section \<open>The in-memory store keeps the contracts\<close>

definition memory_positions :: "in_memory_store \<Rightarrow> position set" where
  "memory_positions s = position_of ` set (map_values (entries s))"

abbreviation memory_stored :: "in_memory_store \<Rightarrow> string set" where
  "memory_stored s \<equiv> set (map_keys (entries s))"

abbreviation memory_top :: "in_memory_store \<Rightarrow> int" where
  "memory_top s \<equiv> nextReceiptOrder s - 1"

lemma entries_of_store [intro]: "store_inv s \<Longrightarrow> entries_inv s"
  by (simp add: store_inv_def)

lemma memory_positions_at:
  assumes "entries_inv s"
  shows "p \<in> memory_positions s \<longleftrightarrow>
           (\<exists>m. map_of (entries s) (snd p) = Some m \<and> p = position_of m)"
proof -
  have "m \<in> set (map_values (entries s)) \<longleftrightarrow> map_of (entries s) (entry_id m) = Some m" for m
    using map_values_iff [OF entries_invD(1) [OF assms], of m] entries_invD(2) [OF assms] by blast
  then show ?thesis
    by (auto simp: memory_positions_def position_of_def image_iff simp del: set_map)
qed

lemma memory_positions_ids:
  assumes "entries_inv s"
  shows "snd ` memory_positions s = memory_stored s"
proof (rule set_eqI)
  fix i
  have "snd (position_of m) = i" if "map_of (entries s) i = Some m" for m
    using entries_invD(2) [OF assms that] by (simp add: position_of_def)
  then have "i \<in> snd ` memory_positions s \<longleftrightarrow> map_of (entries s) i \<noteq> None"
    by (force simp: image_iff Bex_def memory_positions_at [OF assms] simp del: split_paired_Ex)
  then show "i \<in> snd ` memory_positions s \<longleftrightarrow> i \<in> memory_stored s"
    by (simp add: map_of_eq_None_iff)
qed

lemma memory_position_bounds:
  assumes "entries_inv s" and "p \<in> memory_positions s"
  shows "fst p \<le> memory_top s"
  using assms entries_invD(3) [OF assms(1)] by (fastforce simp: memory_positions_at position_of_def)

lemma memory_positions_inj: "store_inv s \<Longrightarrow> inj_on fst (memory_positions s)"
  unfolding memory_positions_def
  by (rule inj_on_imageI2 [where f' = id, simplified])
    (auto simp: store_inv_def entries_inv_def distinct_map position_of_def inj_on_def)

lemma scan_spec_page_ok:
  assumes "scan_keys_unique xs" and "0 < n"
  shows "page_ok (position_of ` set xs) c (scan_spec xs c n None)"
proof -
  define r where "r = scan_spec xs c n None"
  note page = scan_spec_page [OF assms r_def]
  have cs: "set (scan_candidates xs k None) = {m \<in> set xs. after_cursor k m}" for k
    by (auto simp: scan_candidates_def metadataMatchesScanFilters_def)
  have sub: "set (scan_entries r) \<subseteq> {m \<in> set xs. after_cursor c m}"
    using arg_cong [OF page(1), of set] cs [of c] by auto
  have "sorted_wrt (\<lambda>x y. receipt_order_of x \<le> receipt_order_of y) (scan_candidates xs c None)"
    by (rule sorted_wrt_mono_rel [OF _ scan_candidates_sorted]) (auto simp: compare_scan_le0)
  then have "sorted (map receipt_order_of (scan_entries r))"
    using page(1) by (metis sorted_map sorted_wrt_append)
  moreover have "scan_nextCursor r = next_cursor (scan_entries r) c"
    by (simp add: r_def scan_spec_def Let_def)
  moreover have "m \<in> set (scan_entries r) \<or> scan_hasMore r \<and> after_cursor (scan_nextCursor r) m"
    if "m \<in> set xs" "after_cursor c m" for m
    using that page(1,3) cs [of c] cs [of "scan_nextCursor r"] by (metis (mono_tags, lifting) Un_iff mem_Collect_eq set_append)
  ultimately show ?thesis
    using sub page(2) unfolding page_ok_def r_def [symmetric]
    by (auto simp del: image_iff) (metis after_position_of image_eqI)+
qed

lemma memory_get_entries:
  assumes "store_inv s" and "i \<in> set ids" and "i \<in> memory_stored s"
  shows "i \<in> entry_id ` set (getEntries s ids)"
proof -
  obtain m where m: "map_of (entries s) i = Some m"
    using assms(3) by (cases "map_of (entries s) i") (auto simp: map_of_eq_None_iff)
  have inv: "entries_inv s" "content_inv s" using assms(1) by (simp_all add: store_inv_def)
  have "refs_of (entries s) (contentHash m) \<noteq> 0"
    using map_of_SomeD [OF m] by (auto simp: refs_of_def filter_empty_conv)
  then obtain d where "map_of (contentStore s) (contentHash m) = Some d"
    using inv(2) unfolding content_inv_def by (metis not_Some_eq)
  then have "entry_with_data m d \<in> set (getEntries s ids)"
    using assms(2) m by (force simp: getEntries_def)
  then show ?thesis using entries_invD(2) [OF inv(1) m] by force
qed

text \<open>A receipt re-anchors at most its own entry, past every other.\<close>

lemma apply_receipt_positions:
  assumes inv: "entries_inv s" and inv': "entries_inv s'" and step: "apply_receipt (s, b) r = (s', b')"
  shows "nextReceiptOrder s \<le> nextReceiptOrder s'" and "storeEpoch s' = storeEpoch s"
    and "reanchored {entry_id r} (memory_top s) (memory_positions s) (memory_positions s')"
proof -
  show "nextReceiptOrder s \<le> nextReceiptOrder s'" and "storeEpoch s' = storeEpoch s"
    using step by (auto simp: apply_receipt_def split: if_splits option.splits)
  have ups: "(\<forall>i. i \<noteq> entry_id r \<longrightarrow> map_of (entries s') i = map_of (entries s) i) \<and>
        (map_of (entries s') (entry_id r) = map_of (entries s) (entry_id r) \<or>
         (\<exists>m m'. map_of (entries s) (entry_id r) = Some m \<and> map_of (entries s') (entry_id r) = Some m' \<and>
           receipt_order_of m' = nextReceiptOrder s))"
    using step by (auto simp: apply_receipt_def map_of_update receipt_order_of_def split: if_splits option.splits)
  moreover have "p = position_of m \<Longrightarrow> snd p = entry_id m \<and> fst p = receipt_order_of m" for p m
    by (simp add: position_of_def)
  ultimately have new: "p \<in> memory_positions s \<or> memory_top s < fst p" if "p \<in> memory_positions s'" for p
    using that memory_positions_at [OF inv] memory_positions_at [OF inv']
    by (smt (verit) option.inject)
  have old: "p \<in> memory_positions s' \<or> snd p \<in> {entry_id r}" if "p \<in> memory_positions s" for p
    using that memory_positions_at [OF inv] memory_positions_at [OF inv'] ups by auto
  have "map_of (entries s') i = None \<longleftrightarrow> map_of (entries s) i = None" for i
    using ups by (cases "i = entry_id r") auto
  then have "memory_stored s' = memory_stored s"
    by (auto simp: map_of_eq_None_iff)
  with new old show "reanchored {entry_id r} (memory_top s) (memory_positions s) (memory_positions s')"
    by (simp add: reanchored_def memory_positions_ids inv inv' del: set_map)
qed

lemma apply_receipts_positions:
  assumes "entries_inv s \<and> content_inv s \<and> index_inv s" and "foldl apply_receipt (s, b) rs = (s', b')"
  shows "nextReceiptOrder s \<le> nextReceiptOrder s' \<and> storeEpoch s' = storeEpoch s \<and>
    reanchored (entry_id ` set rs) (memory_top s) (memory_positions s) (memory_positions s')"
  using assms
proof (induction rs arbitrary: s b)
  case (Cons r rs)
  obtain s1 b1 where s1: "apply_receipt (s, b) r = (s1, b1)" by fastforce
  have inv1: "entries_inv s1 \<and> content_inv s1 \<and> index_inv s1"
    using apply_receipt_inv [OF Cons.prems(1), of b r] s1 by simp
  note step = apply_receipt_positions [OF _ _ s1]
  have IH: "nextReceiptOrder s1 \<le> nextReceiptOrder s' \<and> storeEpoch s' = storeEpoch s1 \<and>
      reanchored (entry_id ` set rs) (memory_top s1) (memory_positions s1) (memory_positions s')"
    using Cons.IH [OF inv1] Cons.prems(2) s1 by simp
  have "reanchored ({entry_id r} \<union> entry_id ` set rs) (memory_top s) (memory_positions s) (memory_positions s')"
    using step Cons.prems(1) inv1 IH by (intro reanchored_trans [of _ _ _ "memory_positions s1" _ "memory_top s1"]) auto
  then show ?case using step Cons.prems(1) inv1 IH by simp
qed simp

lemma memory_positions_cache [simp]:
  "memory_positions (s\<lparr> sortedEntriesCache := c \<rparr>) = memory_positions s"
  by (simp add: memory_positions_def)

lemma memory_receipts:
  assumes "store_inv s"
  shows "nextReceiptOrder s \<le> nextReceiptOrder (applyWitnessReceipts s rs) \<and>
    storeEpoch (applyWitnessReceipts s rs) = storeEpoch s \<and>
    reanchored (entry_id ` set rs) (memory_top s) (memory_positions s) (memory_positions (applyWitnessReceipts s rs))"
proof -
  obtain s' b' where f: "foldl apply_receipt (s, False) rs = (s', b')" by (rule prod.exhaust)
  from apply_receipts_positions [OF _ f] assms show ?thesis
    by (simp add: applyWitnessReceipts_def f store_inv_def)
qed

lemma memory_scan:
  assumes "store_inv s" and "scanEntriesSince lc s c n None = (r, s')"
  shows "store_inv s' \<and> memory_positions s' = memory_positions s \<and> storeEpoch s' = storeEpoch s \<and>
    nextReceiptOrder s' = nextReceiptOrder s"
    and "0 < n \<Longrightarrow> page_ok (memory_positions s) c r"
proof -
  have "s' = s \<or> s' = snd (getSortedEntries lc s)"
    using assms(2) by (auto simp: scanEntriesSince_def scan_store_def split: prod.splits)
  then have "storeEpoch s' = storeEpoch s \<and> nextReceiptOrder s' = nextReceiptOrder s"
    by (auto simp: getSortedEntries_def Let_def split: option.splits)
  then show "store_inv s' \<and> memory_positions s' = memory_positions s \<and> storeEpoch s' = storeEpoch s \<and>
      nextReceiptOrder s' = nextReceiptOrder s"
    using scanEntriesSince_state [OF assms(1), of lc c n None] assms(2) by (simp add: memory_positions_def)
  show "page_ok (memory_positions s) c r" if "0 < n"
    using scanEntriesSince_eq_spec [OF assms(1), of lc c n None] assms(2)
      scan_spec_page_ok [OF entries_inv_keys_unique that] assms(1)
    by (simp add: memory_positions_def store_inv_def)
qed

lemma memory_put:
  assumes "store_inv s"
  shows "store_inv (putEntries s es)" and "storeEpoch (putEntries s es) = storeEpoch s"
    and "memory_stored (putEntries s es) = memory_stored s \<union> entry_id ` set es"
proof -
  show "store_inv (putEntries s es)" using assms by (rule putEntries_inv)
  show "memory_stored (putEntries s es) = memory_stored s \<union> entry_id ` set es"
    using keys_foldl_put [of s es] by (simp add: putEntries_def)
  have "storeEpoch (foldl put_entry s es) = storeEpoch s"
    by (induction es arbitrary: s) (simp_all add: put_entry_def Let_def)
  then show "storeEpoch (putEntries s es) = storeEpoch s" by (simp add: putEntries_def)
qed

lemma memory_ops_sel [simp]:
  "op_getId (memory_ops lc) = store_dbId"
  "op_getStoreKind (memory_ops lc) = storeKind"
  "op_getCacheIdentity (memory_ops lc) = None"
  "op_putEntries (memory_ops lc) s es = (Some PutVoid, putEntries s es)"
  "op_getEntries (memory_ops lc) s ids = Some (getEntries s ids)"
  "op_hasEntries (memory_ops lc) s ids = Some (hasEntries s ids)"
  "op_findNewEntries (memory_ops lc) s ids = Some (findNewEntries s ids)"
  "op_findEntries (memory_ops lc) s ty a b = Some (findEntries s ty a b)"
  "op_getAllIds (memory_ops lc) s = Some (getAllIds s)"
  "op_scanEntriesSince (memory_ops lc) = Some (\<lambda>s c n. map_prod Some id (scanEntriesSince lc s c n None))"
  "op_getIdBloomSummary (memory_ops lc) = Some (\<lambda>s. Some (getIdBloomSummary s))"
  "op_getStoreHead (memory_ops lc) = Some (\<lambda>s. Some (getStoreHead s))"
  "op_applyWitnessReceipts (memory_ops lc) = Some (\<lambda>s rs. (True, applyWitnessReceipts s rs))"
  "op_planBatch (memory_ops lc) s ds = Some (planDocumentMaterializationBatch s ds False)"
  by (simp_all add: memory_ops_def)

interpretation memory_source: reliable_source "memory_ops lc" store_inv memory_positions storeEpoch memory_top for lc
proof
  show "inj_on fst (memory_positions s)" if "store_inv s" for s
    using that by (rule memory_positions_inj)
  show "fst p \<le> memory_top s" if "store_inv s" "p \<in> memory_positions s" for s p
    using that memory_position_bounds by blast
  show "set ids \<inter> snd ` memory_positions s \<subseteq> entry_id ` set es"
    if "store_inv s" "op_getEntries (memory_ops lc) s ids = Some es" for s ids and es :: "store_entry list"
    using that memory_get_entries by (auto simp: memory_positions_ids [OF entries_of_store] simp del: set_map)
  show "store_inv s' \<and> memory_positions s' = memory_positions s \<and> storeEpoch s' = storeEpoch s \<and>
      memory_top s' = memory_top s"
    if "op_scanEntriesSince (memory_ops lc) = Some scan" "store_inv s" "scan s c n = (r, s')" for scan s c n r s'
    using that memory_scan(1) [OF that(2)] by (cases "scanEntriesSince lc s c n None") auto
  show "page_ok (memory_positions s) c page"
    if "op_scanEntriesSince (memory_ops lc) = Some scan" "store_inv s" "0 < n" "scan s c n = (Some page, s')"
    for scan s n c page s'
    using that memory_scan(2) [OF that(2)] by (cases "scanEntriesSince lc s c n None") auto
  show "store_inv s' \<and> storeEpoch s' = storeEpoch s \<and> memory_top s \<le> memory_top s' \<and>
      reanchored (entry_id ` set rs) (memory_top s) (memory_positions s) (memory_positions s')"
    if "op_applyWitnessReceipts (memory_ops lc) = Some apply_rs" "store_inv s" "apply_rs s rs = (ok, s')"
    for apply_rs s rs ok s'
    using that memory_receipts [OF that(2), of rs] applyWitnessReceipts_inv [OF that(2), of rs] by auto
qed (auto simp: memory_positions_def getStoreHead_def)

interpretation memory_target: reliable_target "memory_ops lc" store_inv memory_stored storeEpoch for lc
proof
  show "bloomMightContainId b i = Some True"
    if "op_getIdBloomSummary (memory_ops lc) = Some bl" "bl t = Some b" "i \<in> memory_stored t" for bl t b i
    using that by (auto simp: getIdBloomSummary_def getAllIds_def simp del: set_map intro!: bloom_no_false_negative)
  show "bloomMightContainId b i \<noteq> None"
    if "op_getIdBloomSummary (memory_ops lc) = Some bl" "bl t = Some b" for bl t b i
    using that bloomMightContainId_iff [OF refl] by (auto simp: getIdBloomSummary_def)
  show "store_inv t' \<and> storeEpoch t' = storeEpoch t \<and> memory_stored t \<subseteq> memory_stored t'"
    if "store_inv t" "op_putEntries (memory_ops lc) t es = (r, t')" for t es r t'
    using that memory_put [OF that(1), of es] by auto
  show "ack_ok es ack (memory_stored t')"
    if "store_inv t" "op_putEntries (memory_ops lc) t es = (Some ack, t')" for t es ack t'
    using that memory_put(3) [OF that(1), of es] by (auto simp: ack_ok_def normalizePutResult_def)
qed (auto simp: hasEntries_def map_has_iff getStoreHead_def simp del: set_map)

end
