(* ===== verification/SyncTransfer.thy ===== *)
theory SyncTransfer
  imports StoreApi
begin

text \<open>
  The transfer half of the sync engine of \<^verbatim>\<open>core/BaseMindooDB.ts\<close>: finding out which ids the
  target misses (\<^verbatim>\<open>filterMissingIds\<close>), and moving them in batches through a pool of
  concurrent workers (\<^verbatim>\<open>transferEntriesInBatches\<close>).

  \<^bold>\<open>Time.\<close> Every \<^verbatim>\<open>await\<close> advances the clock of the world. The abort signal is the point
  in time from which on \<^verbatim>\<open>signal.aborted\<close> reads true, so it may fire between any two steps
  and never goes away again. \<^bold>\<open>Interleaving.\<close> A worker runs up to its next \<^verbatim>\<open>await\<close>; the
  scheduler \<open>env_pick\<close> then chooses which of the waiting workers resumes. Both are parameters:
  what is proved holds for every abort time and every schedule. Progress callbacks and logging are
  left out.
\<close>

section \<open>The world of a sync\<close>

record sync_env =
  env_abort :: "nat option"
  env_pick :: "nat \<Rightarrow> nat"

definition aborted :: "sync_env \<Rightarrow> nat \<Rightarrow> bool" where
  "aborted env clock = (case env_abort env of None \<Rightarrow> False | Some t \<Rightarrow> t \<le> clock)"

record sync_cursor_record =
  rec_sourceEpoch :: string
  rec_targetEpoch :: string
  rec_cursor :: store_scan_cursor

text \<open>
  \<^verbatim>\<open>syncScanCursors\<close> and \<^verbatim>\<open>cacheMetaDirty\<close> are fields of the database object.
\<close>

record ('s, 't) sync_world =
  w_source :: 's
  w_target :: 't
  w_cursors :: "(string, sync_cursor_record) jsmap"
  w_cacheMetaDirty :: bool
  w_clock :: nat

definition tick :: "('s, 't) sync_world \<Rightarrow> ('s, 't) sync_world" where
  "tick w = w\<lparr> w_clock := w_clock w + 1 \<rparr>"

datatype sync_mode = mode_full | mode_dense

record sync_options =
  o_pageSize :: "int option"
  o_transferBatchSize :: "int option"
  o_storeKind :: "store_kind option"
  o_mode :: "sync_mode option"
  o_forceFullScan :: bool
  o_maxConcurrentBatches :: "int option"

text \<open>Which store call threw.\<close>

datatype sync_error =
  ScanFailed | HasFailed | BloomUnreadable | GetFailed | PutFailed | ReceiptsFailed
| FindFailed | PlanFailed

section \<open>Missing ids\<close>

text \<open>The loop over the candidates: those the filter rules out, and those it does not.\<close>

fun bloom_split ::
  "id_bloom_summary \<Rightarrow> string list \<Rightarrow> string list \<Rightarrow> string list \<Rightarrow> (string list \<times> string list) option" where
  "bloom_split bloom [] missing maybe = Some (missing, maybe)"
| "bloom_split bloom (i # ids) missing maybe =
     (case bloomMightContainId bloom i of
        None \<Rightarrow> None
      | Some True \<Rightarrow> bloom_split bloom ids missing (maybe @ [i])
      | Some False \<Rightarrow> bloom_split bloom ids (missing @ [i]) maybe)"

definition filterMissingIds ::
  "'t store_ops \<Rightarrow> 't \<Rightarrow> string list \<Rightarrow> id_bloom_summary option \<Rightarrow> sync_error + string list" where
  "filterMissingIds tops t candidateIds bloom =
     (case (case bloom of None \<Rightarrow> Some ([], candidateIds) | Some b \<Rightarrow> bloom_split b candidateIds [] []) of
        None \<Rightarrow> Inl BloomUnreadable
      | Some (definitelyMissing, maybeExisting) \<Rightarrow>
          if maybeExisting \<noteq> []
          then (case op_hasEntries tops t maybeExisting of
                  None \<Rightarrow> Inl HasFailed
                | Some existing \<Rightarrow>
                    Inr (definitelyMissing @ filter (\<lambda>i. i \<notin> set existing) maybeExisting))
          else Inr definitelyMissing)"

section \<open>The batch pool\<close>

definition DEFAULT_DOCS_TRANSFER_BATCH_SIZE :: int where
  "DEFAULT_DOCS_TRANSFER_BATCH_SIZE = 250"

definition DEFAULT_MAX_CONCURRENT_TRANSFER_BATCHES :: int where
  "DEFAULT_MAX_CONCURRENT_TRANSFER_BATCHES = 3"

definition option_or :: "'a option \<Rightarrow> 'a \<Rightarrow> 'a" where
  "option_or x d = (case x of None \<Rightarrow> d | Some v \<Rightarrow> v)"

definition resolveTransferBatchSize :: "sync_options \<Rightarrow> int" where
  "resolveTransferBatchSize opts =
     (case o_transferBatchSize opts of
        Some n \<Rightarrow> if n > 0 then n
                  else if o_storeKind opts = Some kind_attachments then 100
                  else min (option_or (o_pageSize opts) 1000) DEFAULT_DOCS_TRANSFER_BATCH_SIZE
      | None \<Rightarrow> if o_storeKind opts = Some kind_attachments then 100
                else min (option_or (o_pageSize opts) 1000) DEFAULT_DOCS_TRANSFER_BATCH_SIZE)"

text \<open>
  A worker between two of its steps: it waits for \<^verbatim>\<open>getEntries\<close>, for \<^verbatim>\<open>putEntries\<close> or
  for \<^verbatim>\<open>applyWitnessReceipts\<close> (whose outcome is already determined; \<open>None\<close> and
  \<open>False\<close> reject), or it has returned.
\<close>

datatype worker =
  Getting "store_entry list option"
| Putting "store_entry list" "put_result option"
| Receipting "store_entry list" "rejected_put_entry list" bool
| Returned

record ('s, 't) pool =
  pl_world :: "('s, 't) sync_world"
  pl_transferred :: int
  pl_bytes :: int
  pl_cancelled :: bool
  pl_firstError :: "sync_error option"
  pl_next :: nat
  pl_rejected :: "rejected_put_entry list"
  pl_workers :: "worker list"

definition set_worker :: "nat \<Rightarrow> worker \<Rightarrow> ('s, 't) pool \<Rightarrow> ('s, 't) pool" where
  "set_worker i v p = p\<lparr> pl_workers := (pl_workers p)[i := v] \<rparr>"

definition pool_aborted :: "sync_env \<Rightarrow> ('s, 't) pool \<Rightarrow> bool" where
  "pool_aborted env p = aborted env (w_clock (pl_world p))"

text \<open>The head of \<^verbatim>\<open>runWorker\<close>'s loop: take the next batch and ask the source for it.\<close>

definition start_batch ::
  "sync_env \<Rightarrow> 's store_ops \<Rightarrow> string list \<Rightarrow> nat \<Rightarrow> nat \<Rightarrow> ('s, 't) pool \<Rightarrow> ('s, 't) pool" where
  "start_batch env sops entryIds batchSize i p =
     (if pl_firstError p \<noteq> None \<or> pl_cancelled p \<or> pool_aborted env p
      then set_worker i Returned (if pool_aborted env p then p\<lparr> pl_cancelled := True \<rparr> else p)
      else
        let offset = pl_next p * batchSize; p' = p\<lparr> pl_next := pl_next p + 1 \<rparr>
        in if offset \<ge> length entryIds then set_worker i Returned p'
           else set_worker i
                  (Getting (op_getEntries sops (w_source (pl_world p')) (take batchSize (drop offset entryIds)))) p')"

text \<open>The \<^verbatim>\<open>catch\<close> block.\<close>

definition fail_batch :: "sync_env \<Rightarrow> sync_error \<Rightarrow> nat \<Rightarrow> ('s, 't) pool \<Rightarrow> ('s, 't) pool" where
  "fail_batch env e i p =
     set_worker i Returned
       (if pool_aborted env p then p\<lparr> pl_cancelled := True \<rparr>
        else if pl_firstError p = None then p\<lparr> pl_firstError := Some e \<rparr> else p)"

text \<open>
  The bookkeeping after a batch: rejections are collected, what was not rejected is counted, and
  the worker goes back to the head of its loop.
\<close>

definition batch_bytes :: "store_entry list \<Rightarrow> rejected_put_entry list \<Rightarrow> int" where
  "batch_bytes es rejected =
     sum_list (map encryptedSize (filter (\<lambda>e. entry_id e \<notin> set (map rejected_id rejected)) es))"

definition finish_batch ::
  "sync_env \<Rightarrow> 's store_ops \<Rightarrow> string list \<Rightarrow> nat \<Rightarrow> store_entry list \<Rightarrow> rejected_put_entry list \<Rightarrow> nat \<Rightarrow>
   ('s, 't) pool \<Rightarrow> ('s, 't) pool" where
  "finish_batch env sops entryIds batchSize es batchRejected i p =
     start_batch env sops entryIds batchSize i
       (p\<lparr> pl_rejected := pl_rejected p @ batchRejected,
           pl_bytes := pl_bytes p + batch_bytes es batchRejected,
           pl_transferred := pl_transferred p + (int (length es) - int (length batchRejected)) \<rparr>)"

text \<open>Worker \<open>i\<close> after its \<^verbatim>\<open>await\<close>, up to the next one.\<close>

definition worker_step ::
  "sync_env \<Rightarrow> 's store_ops \<Rightarrow> 't store_ops \<Rightarrow> string list \<Rightarrow> nat \<Rightarrow> nat \<Rightarrow> ('s, 't) pool \<Rightarrow> ('s, 't) pool" where
  "worker_step env sops tops entryIds batchSize i p =
     (case pl_workers p ! i of
        Getting None \<Rightarrow> fail_batch env GetFailed i p
      | Getting (Some es) \<Rightarrow>
          if pool_aborted env p then set_worker i Returned (p\<lparr> pl_cancelled := True \<rparr>)
          else (case op_putEntries tops (w_target (pl_world p)) es of
                  (r, t') \<Rightarrow> set_worker i (Putting es r) (p\<lparr> pl_world := (pl_world p)\<lparr> w_target := t' \<rparr> \<rparr>))
      | Putting es None \<Rightarrow> fail_batch env PutFailed i p
      | Putting es (Some r) \<Rightarrow>
          (case normalizePutResult r of (receipts, batchRejected) \<Rightarrow>
             (case op_applyWitnessReceipts sops of
                Some apply_rs \<Rightarrow>
                  if receipts \<noteq> []
                  then (case apply_rs (w_source (pl_world p)) receipts of
                          (ok, s') \<Rightarrow> set_worker i (Receipting es batchRejected ok)
                                      (p\<lparr> pl_world := (pl_world p)\<lparr> w_source := s' \<rparr> \<rparr>))
                  else finish_batch env sops entryIds batchSize es batchRejected i p
              | None \<Rightarrow> finish_batch env sops entryIds batchSize es batchRejected i p))
      | Receipting es batchRejected ok \<Rightarrow>
          if ok then finish_batch env sops entryIds batchSize es batchRejected i p
          else fail_batch env ReceiptsFailed i p
      | Returned \<Rightarrow> p)"

definition resume ::
  "sync_env \<Rightarrow> 's store_ops \<Rightarrow> 't store_ops \<Rightarrow> string list \<Rightarrow> nat \<Rightarrow> nat \<Rightarrow> ('s, 't) pool \<Rightarrow> ('s, 't) pool" where
  "resume env sops tops entryIds batchSize i p =
     worker_step env sops tops entryIds batchSize i (p\<lparr> pl_world := tick (pl_world p) \<rparr>)"

definition live_workers :: "('s, 't) pool \<Rightarrow> nat list" where
  "live_workers p = filter (\<lambda>i. case pl_workers p ! i of Returned \<Rightarrow> False | _ \<Rightarrow> True) [0..<length (pl_workers p)]"

definition pick_worker :: "sync_env \<Rightarrow> ('s, 't) pool \<Rightarrow> nat" where
  "pick_worker env p = live_workers p ! (env_pick env (w_clock (pl_world p)) mod length (live_workers p))"

text \<open>\<^verbatim>\<open>await Promise.all(workers)\<close>; \<open>None\<close> stands for not returning.\<close>

partial_function (option) run_pool ::
  "sync_env \<Rightarrow> 's store_ops \<Rightarrow> 't store_ops \<Rightarrow> string list \<Rightarrow> nat \<Rightarrow> ('s, 't) pool \<Rightarrow> ('s, 't) pool option" where
  "run_pool env sops tops entryIds batchSize p =
     (if live_workers p = [] then Some p
      else run_pool env sops tops entryIds batchSize
             (resume env sops tops entryIds batchSize (pick_worker env p) p))"

record transfer_result =
  tr_transferred :: int
  tr_bytes :: int
  tr_cancelled :: bool
  tr_rejected :: "rejected_put_entry list"

definition totalTransferBatches :: "string list \<Rightarrow> nat \<Rightarrow> nat" where
  "totalTransferBatches entryIds batchSize = max 1 ((length entryIds + (batchSize - 1)) div batchSize)"

definition maxConcurrent :: "sync_options \<Rightarrow> nat \<Rightarrow> nat" where
  "maxConcurrent opts batches =
     min (nat (max 1 (option_or (o_maxConcurrentBatches opts) DEFAULT_MAX_CONCURRENT_TRANSFER_BATCHES))) batches"

definition init_pool :: "nat \<Rightarrow> int \<Rightarrow> int \<Rightarrow> ('s, 't) sync_world \<Rightarrow> ('s, 't) pool" where
  "init_pool m transferred bytes w =
     \<lparr> pl_world = w, pl_transferred = transferred, pl_bytes = bytes, pl_cancelled = False,
       pl_firstError = None, pl_next = 0, pl_rejected = [], pl_workers = replicate m Returned \<rparr>"

definition transferEntriesInBatches ::
  "sync_env \<Rightarrow> 's store_ops \<Rightarrow> 't store_ops \<Rightarrow> string list \<Rightarrow> sync_options \<Rightarrow> int \<Rightarrow> int \<Rightarrow> ('s, 't) sync_world \<Rightarrow>
   ((sync_error + transfer_result) \<times> ('s, 't) sync_world) option" where
  "transferEntriesInBatches env sops tops entryIds opts transferred bytes w =
     (if entryIds = []
      then Some (Inr \<lparr> tr_transferred = transferred, tr_bytes = bytes, tr_cancelled = False, tr_rejected = [] \<rparr>, w)
      else
        let batchSize = nat (resolveTransferBatchSize opts);
            m = maxConcurrent opts (totalTransferBatches entryIds batchSize);
            p0 = fold (start_batch env sops entryIds batchSize) [0..<m] (init_pool m transferred bytes w)
        in Option.bind (run_pool env sops tops entryIds batchSize p0)
             (\<lambda>p. let w' = tick (pl_world p);
                      result = \<lparr> tr_transferred = pl_transferred p, tr_bytes = pl_bytes p,
                                 tr_cancelled = False, tr_rejected = pl_rejected p \<rparr>
                  in if aborted env (w_clock w') \<or> pl_cancelled p
                     then Some (Inr (result\<lparr> tr_cancelled := True \<rparr>), w')
                     else case pl_firstError p of
                            Some e \<Rightarrow> Some (Inl e, w')
                          | None \<Rightarrow> Some (Inr result, w')))"

section \<open>Missing ids are found exactly\<close>

lemma bloom_split_eq:
  "bloom_split b ids ms ys = Some (missing, maybe) \<Longrightarrow>
     missing = ms @ filter (\<lambda>i. bloomMightContainId b i = Some False) ids \<and>
     maybe = ys @ filter (\<lambda>i. bloomMightContainId b i = Some True) ids \<and>
     (\<forall>i \<in> set ids. bloomMightContainId b i \<noteq> None)"
proof (induction ids arbitrary: ms ys)
  case (Cons a ids)
  then obtain v where v: "bloomMightContainId b a = Some v"
    by (cases "bloomMightContainId b a") auto
  show ?case
  proof (cases v)
    case True
    then have "bloom_split b ids ms (ys @ [a]) = Some (missing, maybe)" using Cons.prems v by simp
    from Cons.IH [OF this] show ?thesis using v True by auto
  next
    case False
    then have "bloom_split b ids (ms @ [a]) ys = Some (missing, maybe)" using Cons.prems v by simp
    from Cons.IH [OF this] show ?thesis using v False by auto
  qed
qed simp

lemma bloom_split_returns:
  "(\<And>i. i \<in> set ids \<Longrightarrow> bloomMightContainId b i \<noteq> None) \<Longrightarrow> bloom_split b ids ms ys \<noteq> None"
  by (induction ids arbitrary: ms ys) (auto split: option.split bool.split)

context target_store begin

text \<open>Whatever filter is used, an id that is dropped is stored.\<close>

lemma filterMissing_sound:
  assumes "tinv t" and "filterMissingIds tops t ids bloom = Inr ms"
  shows "set ms \<subseteq> set ids" and "set ids \<subseteq> set ms \<union> stored t"
proof -
  obtain missing maybe where split:
    "(case bloom of None \<Rightarrow> Some ([], ids) | Some b \<Rightarrow> bloom_split b ids [] []) = Some (missing, maybe)"
    using assms(2) by (auto simp: filterMissingIds_def split: option.splits prod.splits)
  have "set missing \<union> set maybe = set ids"
    using split by (cases bloom) (auto dest!: bloom_split_eq)
  moreover have "ms = missing \<and> maybe = [] \<or>
      (\<exists>ex. op_hasEntries tops t maybe = Some ex \<and> ms = missing @ filter (\<lambda>i. i \<notin> set ex) maybe)"
    using assms(2) split by (auto simp: filterMissingIds_def split: option.splits if_splits)
  ultimately show "set ms \<subseteq> set ids" and "set ids \<subseteq> set ms \<union> stored t"
    using has_entries [OF assms(1)] by fastforce+
qed

text \<open>With no filter, or with one that was taken from this state, no stored id is reported missing.\<close>

lemma filterMissing_exact:
  assumes "tinv t" and "filterMissingIds tops t ids bloom = Inr ms"
    and "\<And>b i. bloom = Some b \<Longrightarrow> i \<in> stored t \<Longrightarrow> bloomMightContainId b i = Some True"
  shows "set ms = set ids - stored t"
proof -
  obtain missing maybe where split:
    "(case bloom of None \<Rightarrow> Some ([], ids) | Some b \<Rightarrow> bloom_split b ids [] []) = Some (missing, maybe)"
    using assms(2) by (auto simp: filterMissingIds_def split: option.splits prod.splits)
  then have "set missing \<inter> stored t = {}"
    using assms(3) by (auto split: option.splits dest!: bloom_split_eq)
  moreover have "ms = missing \<and> maybe = [] \<or>
      (\<exists>ex. op_hasEntries tops t maybe = Some ex \<and> ms = missing @ filter (\<lambda>i. i \<notin> set ex) maybe)"
    using assms(2) split by (auto simp: filterMissingIds_def split: option.splits if_splits)
  ultimately have "set ms \<inter> stored t = {}"
    using has_entries [OF assms(1)] by fastforce
  then show ?thesis using filterMissing_sound [OF assms(1,2)] by blast
qed

end

context reliable_target begin

lemma filterMissing_returns:
  assumes "tinv t" and "\<And>b i. bloom = Some b \<Longrightarrow> bloomMightContainId b i \<noteq> None"
  obtains ms where "filterMissingIds tops t ids bloom = Inr ms"
proof -
  have "(case bloom of None \<Rightarrow> Some ([], ids) | Some b \<Rightarrow> bloom_split b ids [] []) \<noteq> None"
    using assms(2) bloom_split_returns [of ids _ "[]" "[]"] by (cases bloom) (simp_all del: not_None_eq)
  then obtain missing maybe where split:
    "(case bloom of None \<Rightarrow> Some ([], ids) | Some b \<Rightarrow> bloom_split b ids [] []) = Some (missing, maybe)"
    by auto
  obtain ex where "op_hasEntries tops t maybe = Some ex" using has_returns [OF assms(1), of maybe] by blast
  then show ?thesis using that split by (cases "maybe = []") (auto simp: filterMissingIds_def)
qed

end

section \<open>The pool returns\<close>

fun worker_weight :: "worker \<Rightarrow> nat" where
  "worker_weight (Getting x) = 3"
| "worker_weight (Putting es r) = 2"
| "worker_weight (Receipting es rs ok) = 1"
| "worker_weight Returned = 0"

definition pool_measure :: "nat \<Rightarrow> ('s, 't) pool \<Rightarrow> nat" where
  "pool_measure batches p = 4 * (batches - pl_next p) + sum_list (map worker_weight (pl_workers p))"

lemma set_worker_sel [simp]:
  "pl_world (set_worker i v p) = pl_world p"
  "pl_transferred (set_worker i v p) = pl_transferred p"
  "pl_bytes (set_worker i v p) = pl_bytes p"
  "pl_cancelled (set_worker i v p) = pl_cancelled p"
  "pl_firstError (set_worker i v p) = pl_firstError p"
  "pl_next (set_worker i v p) = pl_next p"
  "pl_rejected (set_worker i v p) = pl_rejected p"
  "pl_workers (set_worker i v p) = (pl_workers p)[i := v]"
  by (simp_all add: set_worker_def)

lemma weight_update:
  "i < length ws \<Longrightarrow>
   sum_list (map worker_weight (ws[i := v])) + worker_weight (ws ! i) =
   sum_list (map worker_weight ws) + worker_weight v"
  by (induction ws arbitrary: i) (auto split: nat.split)

text \<open>Going back to the head of the loop frees at least the weight of a receipting worker.\<close>

lemma start_batch_measure:
  assumes "length ids \<le> batches * bs" and "i < length (pl_workers p)" and "0 < worker_weight (pl_workers p ! i)"
  shows "pool_measure batches (start_batch env sops ids bs i p) < pool_measure batches p"
proof -
  define q where "q = start_batch env sops ids bs i p"
  note upd = weight_update [OF assms(2)]
  have "pl_workers q = (pl_workers p)[i := Returned] \<and> pl_next p \<le> pl_next q \<or>
      (\<exists>x. pl_workers q = (pl_workers p)[i := Getting x] \<and> pl_next q = Suc (pl_next p) \<and> \<not> length ids \<le> pl_next p * bs)"
    by (auto simp: q_def start_batch_def Let_def)
  then consider (ret) "pl_workers q = (pl_workers p)[i := Returned]" "pl_next p \<le> pl_next q"
    | (get) x where "pl_workers q = (pl_workers p)[i := Getting x]" "pl_next q = Suc (pl_next p)"
        "\<not> length ids \<le> pl_next p * bs" by blast
  then have "pool_measure batches q < pool_measure batches p"
  proof cases
    case ret
    then show ?thesis using upd [of Returned] assms(3) by (simp add: pool_measure_def)
  next
    case get
    then have "pl_next p < batches" using assms(1) by (meson leD le_less_linear le_trans mult_le_mono1)
    then show ?thesis using get upd [of "Getting x"] assms(3) by (simp add: pool_measure_def)
  qed
  then show ?thesis by (simp add: q_def)
qed

lemma live_workers_iff:
  "i \<in> set (live_workers p) \<longleftrightarrow> i < length (pl_workers p) \<and> 0 < worker_weight (pl_workers p ! i)"
  by (auto simp: live_workers_def split: worker.splits)

lemma pick_worker_live: "live_workers p \<noteq> [] \<Longrightarrow> pick_worker env p \<in> set (live_workers p)"
  by (simp add: pick_worker_def)

lemma resume_measure:
  assumes "length ids \<le> batches * bs" and "i \<in> set (live_workers p)"
  shows "pool_measure batches (resume env sops tops ids bs i p) < pool_measure batches p"
proof -
  define p1 where "p1 = p\<lparr> pl_world := tick (pl_world p) \<rparr>"
  have same: "pool_measure batches (p1\<lparr> pl_world := w \<rparr>) = pool_measure batches p"
    "pool_measure batches (p1\<lparr> pl_cancelled := c \<rparr>) = pool_measure batches p"
    "pool_measure batches (p1\<lparr> pl_firstError := e \<rparr>) = pool_measure batches p"
    "pool_measure batches (p1\<lparr> pl_rejected := r, pl_bytes := b, pl_transferred := t \<rparr>) = pool_measure batches p"
    "pool_measure batches p1 = pool_measure batches p"
    for w c e r b t by (simp_all add: p1_def pool_measure_def)
  have i: "i < length (pl_workers p)" "0 < worker_weight (pl_workers p ! i)"
    using assms(2) by (simp_all add: live_workers_iff)
  have set: "pool_measure batches (set_worker i v q) < pool_measure batches q"
    if "worker_weight v < worker_weight (pl_workers q ! i)" "pl_workers q = pl_workers p" for v and q :: "('a, 'b) pool"
    using weight_update [of i "pl_workers q" v] that i by (simp add: pool_measure_def)
  have fin: "pool_measure batches (finish_batch env sops ids bs es rej i p1) < pool_measure batches p" for es rej
    using start_batch_measure [OF assms(1), of i "p1\<lparr> pl_rejected := pl_rejected p1 @ rej,
      pl_bytes := pl_bytes p1 + batch_bytes es rej,
      pl_transferred := pl_transferred p1 + (int (length es) - int (length rej)) \<rparr>"] i
    by (simp add: finish_batch_def same) (simp add: p1_def)
  have fail: "pool_measure batches (fail_batch env e i p1) < pool_measure batches p" for e
    unfolding fail_batch_def
    by (rule less_le_trans [OF set]) (use i in \<open>auto simp: p1_def pool_measure_def\<close>)
  have upd: "pool_measure batches (set_worker i v q) < pool_measure batches p"
    if "worker_weight v < worker_weight (pl_workers p ! i)" "pl_workers q = pl_workers p" "pl_next q = pl_next p"
    for v and q :: "('a, 'b) pool"
    using set [of v q] that by (simp add: pool_measure_def)
  show ?thesis
    unfolding resume_def worker_step_def p1_def [symmetric]
    using i fin fail by (auto simp: p1_def split: worker.split option.split prod.split if_splits intro!: upd)
qed

text \<open>
  Every resumption lowers the measure: the pool returns whatever the schedule, and what each
  resumption keeps holds of the final pool.
\<close>

lemma run_pool_rule:
  fixes p :: "('s, 't) pool"
  assumes "0 < bs" and "I p"
    and step: "\<And>p i. I p \<Longrightarrow> i \<in> set (live_workers p) \<Longrightarrow> I (resume env sops tops ids bs i p)"
  shows "\<exists>q. run_pool env sops tops ids bs p = Some q \<and> I q \<and> live_workers q = []"
  using assms(2)
proof (induction "pool_measure (length ids) p" arbitrary: p rule: less_induct)
  case less
  show ?case
  proof (cases "live_workers p = []")
    case True
    then show ?thesis using less.prems by (subst run_pool.simps) simp
  next
    case False
    let ?q = "resume env sops tops ids bs (pick_worker env p) p"
    have "length ids \<le> length ids * bs" using assms(1) by (cases bs) auto
    from resume_measure [OF this pick_worker_live [OF False]]
    have "pool_measure (length ids) ?q < pool_measure (length ids) p" .
    from less.hyps [OF this step [OF less.prems pick_worker_live [OF False]]]
    show ?thesis using False by (subst run_pool.simps) simp
  qed
qed

lemma length_workers [simp]:
  "length (pl_workers (start_batch env sops ids bs i p)) = length (pl_workers p)"
  "length (pl_workers (fail_batch env e i p)) = length (pl_workers p)"
  "length (pl_workers (finish_batch env sops ids bs es rej i p)) = length (pl_workers p)"
  "length (pl_workers (resume env sops tops ids bs i p)) = length (pl_workers p)"
  by (simp_all add: start_batch_def fail_batch_def finish_batch_def resume_def worker_step_def Let_def
      split: worker.split option.split prod.split)

lemma start_batch_other: "j \<noteq> i \<Longrightarrow> pl_workers (start_batch env sops ids bs i p) ! j = pl_workers p ! j"
  by (simp add: start_batch_def Let_def)

lemma in_some_batch:
  assumes "i \<in> set ids" and "length ids \<le> n * bs"
  shows "\<exists>k < n. i \<in> set (take bs (drop (k * bs) ids))"
proof -
  obtain x where x: "x < length ids" "ids ! x = i" using assms(1) by (auto simp: in_set_conv_nth)
  have "0 < bs" using x assms(2) by (cases bs) auto
  then have "x div bs < n" using x assms(2) by (simp add: div_less_iff_less_mult)
  moreover have "take bs (drop (x div bs * bs) ids) ! (x mod bs) = i"
    using x \<open>0 < bs\<close> by simp (metis div_mult_mod_eq mult_div_mod_eq nth_drop nat_less_le mod_less_eq_dividend add_leD1 order_less_imp_le)
  moreover have "x mod bs < length (take bs (drop (x div bs * bs) ids))"
    using x \<open>0 < bs\<close> by (simp add: less_diff_conv add.commute mod_div_mult_eq)
  ultimately show ?thesis by (metis nth_mem)
qed

section \<open>What a transfer does to the two stores\<close>

locale sync_pair = source_store sops sinv positions sepoch top_order + target_store tops tinv stored tepoch
  for sops :: "'s store_ops" and sinv positions sepoch top_order
    and tops :: "'t store_ops" and tinv stored tepoch
begin

text \<open>
  \<open>evolves w w'\<close>: the target has only grown, and an entry of the source has at most been
  re-anchored, past the head of before and after its arrival at the target.
\<close>

definition stores_ok :: "('s, 't) sync_world \<Rightarrow> bool" where
  "stores_ok w \<longleftrightarrow> sinv (w_source w) \<and> tinv (w_target w)"

definition evolves :: "('s, 't) sync_world \<Rightarrow> ('s, 't) sync_world \<Rightarrow> bool" where
  "evolves w w' \<longleftrightarrow>
     stores_ok w' \<and> sepoch (w_source w') = sepoch (w_source w) \<and> tepoch (w_target w') = tepoch (w_target w) \<and>
     top_order (w_source w) \<le> top_order (w_source w') \<and> stored (w_target w) \<subseteq> stored (w_target w') \<and>
     reanchored (stored (w_target w')) (top_order (w_source w)) (positions (w_source w)) (positions (w_source w')) \<and>
     w_cursors w' = w_cursors w \<and> w_cacheMetaDirty w' = w_cacheMetaDirty w"

lemma evolves_refl: "stores_ok w \<Longrightarrow> evolves w w"
  by (simp add: evolves_def)

lemma evolves_trans:
  assumes "evolves w w'" and "evolves w' w''"
  shows "evolves w w''"
proof -
  have "reanchored (stored (w_target w') \<union> stored (w_target w'')) (top_order (w_source w))
      (positions (w_source w)) (positions (w_source w''))"
    using assms by (intro reanchored_trans [of _ _ _ "positions (w_source w')" _ "top_order (w_source w')"])
      (simp_all add: evolves_def)
  moreover have "stored (w_target w') \<union> stored (w_target w'') = stored (w_target w'')"
    using assms(2) by (auto simp: evolves_def)
  ultimately show ?thesis using assms by (auto simp: evolves_def)
qed

lemma evolves_tick: "evolves w w' \<Longrightarrow> evolves w (tick w')"
  by (simp add: evolves_def tick_def stores_ok_def)

lemma evolves_put:
  assumes "evolves w w'" and "op_putEntries tops (w_target w') es = (r, t')"
  shows "evolves w (w'\<lparr> w_target := t' \<rparr>)"
proof (rule evolves_trans [OF assms(1)])
  have "tinv (w_target w')" "sinv (w_source w')" using assms(1) by (simp_all add: evolves_def stores_ok_def)
  then show "evolves w' (w'\<lparr> w_target := t' \<rparr>)"
    using put_state [OF _ assms(2)] by (auto simp: evolves_def stores_ok_def)
qed

lemma evolves_receipts:
  assumes "evolves w w'" and "op_applyWitnessReceipts sops = Some apply_rs"
    and "apply_rs (w_source w') rs = (ok, s')" and "entry_id ` set rs \<subseteq> stored (w_target w')"
  shows "evolves w (w'\<lparr> w_source := s' \<rparr>)"
proof (rule evolves_trans [OF assms(1)])
  have ok: "tinv (w_target w')" "sinv (w_source w')" using assms(1) by (simp_all add: evolves_def stores_ok_def)
  from receipts_state [OF assms(2) ok(2) assms(3)]
  show "evolves w' (w'\<lparr> w_source := s' \<rparr>)"
    using ok reanchored_mono [OF _ assms(4)] by (auto simp: evolves_def stores_ok_def)
qed

text \<open>The ids of a batch, and what a waiting worker knows about the batch it holds.\<close>

definition holds :: "string set \<Rightarrow> string set \<Rightarrow> worker \<Rightarrow> string list \<Rightarrow> bool" where
  "holds St Src v B =
     (case v of
        Getting None \<Rightarrow> True
      | Getting (Some es) \<Rightarrow> set B \<inter> Src \<subseteq> entry_id ` set es
      | Putting es None \<Rightarrow> True
      | Putting es (Some r) \<Rightarrow> ack_ok es r St \<and> set B \<inter> Src \<subseteq> entry_id ` set es
      | Receipting es rej ok \<Rightarrow> ok \<longrightarrow> set B \<inter> Src \<subseteq> St \<union> rejected_id ` set rej
      | Returned \<Rightarrow> False)"

definition acks_ok :: "string set \<Rightarrow> worker list \<Rightarrow> bool" where
  "acks_ok St ws \<longleftrightarrow> (\<forall>es r. Putting es (Some r) \<in> set ws \<longrightarrow> ack_ok es r St)"

definition failed :: "('s, 't) pool \<Rightarrow> bool" where
  "failed p \<longleftrightarrow> pl_cancelled p \<or> pl_firstError p \<noteq> None"

abbreviation pool_stored :: "('s, 't) pool \<Rightarrow> string set" where
  "pool_stored p \<equiv> stored (w_target (pl_world p))"

definition batch_settled :: "string set \<Rightarrow> nat set \<Rightarrow> ('s, 't) pool \<Rightarrow> string list \<Rightarrow> bool" where
  "batch_settled Src X p B \<longleftrightarrow>
     set B \<inter> Src \<subseteq> pool_stored p \<union> rejected_id ` set (pl_rejected p) \<or>
     (\<exists>j < length (pl_workers p). j \<notin> X \<and> holds (pool_stored p) Src (pl_workers p ! j) B)"

text \<open>
  The invariant of the pool: unless it failed, every batch that was handed out has arrived or is
  held by a worker outside \<open>X\<close>, and a worker among the first \<open>n\<close> returned only when
  no batch was left.
\<close>

definition pool_ok :: "('s, 't) sync_world \<Rightarrow> string list \<Rightarrow> nat \<Rightarrow> nat set \<Rightarrow> nat \<Rightarrow> ('s, 't) pool \<Rightarrow> bool" where
  "pool_ok w0 ids bs X n p \<longleftrightarrow>
     evolves w0 (pl_world p) \<and> acks_ok (pool_stored p) (pl_workers p) \<and>
     (failed p \<or>
       (\<forall>k < pl_next p. batch_settled (snd ` positions (w_source w0)) X p (take bs (drop (k * bs) ids))) \<and>
       (\<forall>i < n. i \<notin> X \<longrightarrow> pl_workers p ! i = Returned \<longrightarrow> length ids \<le> pl_next p * bs))"

lemma holds_Returned [simp]: "\<not> holds St Src Returned B"
  by (simp add: holds_def)

lemma evolves_ids: "evolves w w' \<Longrightarrow> snd ` positions (w_source w') = snd ` positions (w_source w)"
  by (simp add: evolves_def reanchored_def)

lemma acks_ok_update: "acks_ok St ws \<Longrightarrow> (\<And>es r. v = Putting es (Some r) \<Longrightarrow> ack_ok es r St) \<Longrightarrow> acks_ok St (ws[i := v])"
  by (auto simp: acks_ok_def dest!: set_update_subset_insert [THEN subsetD])

lemma batch_settled_set:
  "batch_settled Src {i} p B \<Longrightarrow> batch_settled Src {} (set_worker i v p) B"
  by (auto simp: batch_settled_def)

lemma batch_settled_new:
  "i < length (pl_workers p) \<Longrightarrow> holds (pool_stored p) Src v B \<Longrightarrow> batch_settled Src {} (set_worker i v p) B"
  by (auto simp: batch_settled_def intro!: exI [of _ i])

lemma batch_settled_frame [simp]:
  "batch_settled Src X (p\<lparr> pl_next := n \<rparr>) B = batch_settled Src X p B"
  "batch_settled Src X (p\<lparr> pl_bytes := b \<rparr>) B = batch_settled Src X p B"
  "batch_settled Src X (p\<lparr> pl_transferred := t \<rparr>) B = batch_settled Src X p B"
  by (simp_all add: batch_settled_def)

lemma get_holds:
  assumes "evolves w0 w"
  shows "holds St (snd ` positions (w_source w0)) (Getting (op_getEntries sops (w_source w) B)) B"
proof (cases "op_getEntries sops (w_source w) B")
  case (Some es)
  have "sinv (w_source w)" using assms by (simp add: evolves_def stores_ok_def)
  from get_entries [OF this Some] show ?thesis using Some evolves_ids [OF assms] by (simp add: holds_def)
qed (simp add: holds_def)

lemma pool_ok_failed:
  assumes "evolves w0 (pl_world p)" and "acks_ok (pool_stored p) (pl_workers p)" and "failed p"
  shows "pool_ok w0 ids bs X n p"
  using assms by (simp add: pool_ok_def)

lemma start_batch_ok:
  assumes ok: "pool_ok w0 ids bs {i} n p" and i: "i < length (pl_workers p)" "i \<le> n"
  shows "pool_ok w0 ids bs {} (max n (Suc i)) (start_batch env sops ids bs i p)"
proof -
  let ?q = "start_batch env sops ids bs i p"
  let ?Src = "snd ` positions (w_source w0)"
  let ?B = "\<lambda>k. take bs (drop (k * bs) ids)"
  have ev: "evolves w0 (pl_world p)" and acks: "acks_ok (pool_stored p) (pl_workers p)"
    using ok by (simp_all add: pool_ok_def)
  have acks': "acks_ok (pool_stored p) ((pl_workers p)[i := Returned])"
    "acks_ok (pool_stored p) ((pl_workers p)[i := Getting x])" for x
    using acks_ok_update [OF acks] by auto
  show ?thesis
  proof (cases "failed p \<or> pool_aborted env p")
    case True
    then show ?thesis
      using ev acks' by (intro pool_ok_failed) (auto simp: start_batch_def failed_def)
  next
    case False
    then have nf: "pl_firstError p = None" "\<not> pl_cancelled p" "\<not> pool_aborted env p" by (simp_all add: failed_def)
    have old: "k < pl_next p \<Longrightarrow> batch_settled ?Src {} (set_worker i v (p\<lparr> pl_next := m \<rparr>)) (?B k)" for k v m
      using ok False by (intro batch_settled_set) (simp add: pool_ok_def)
    have ret: "length ids \<le> pl_next p * bs" if "j < n" "j \<noteq> i" "pl_workers p ! j = Returned" for j
      using ok False that by (simp add: pool_ok_def)
    show ?thesis
    proof (cases "length ids \<le> pl_next p * bs")
      case True
      then have q: "?q = set_worker i Returned (p\<lparr> pl_next := pl_next p + 1 \<rparr>)"
        using nf by (simp add: start_batch_def)
      have "batch_settled ?Src {} ?q (?B k)" if "k < Suc (pl_next p)" for k
        using that old True by (cases "k = pl_next p") (auto simp: q batch_settled_def)
      then show ?thesis using True ev acks' by (simp add: pool_ok_def q)
    next
      case False
      then have q: "?q = set_worker i (Getting (op_getEntries sops (w_source (pl_world p)) (?B (pl_next p))))
          (p\<lparr> pl_next := pl_next p + 1 \<rparr>)"
        using nf by (simp add: start_batch_def Let_def)
      have "batch_settled ?Src {} ?q (?B k)" if "k < Suc (pl_next p)" for k
      proof (cases "k = pl_next p")
        case True
        show ?thesis unfolding q True using i get_holds [OF ev] by (intro batch_settled_new) simp_all
      qed (use that old in \<open>simp add: q\<close>)
      moreover have "length ids \<le> pl_next p * bs" if "j < max n (Suc i)" "pl_workers ?q ! j = Returned" for j
        using that ret [of j] i by (cases "j = i") (auto simp: q)
      ultimately show ?thesis using False ev acks' by (auto simp: pool_ok_def q)
    qed
  qed
qed

lemma holds_mono: "holds St Src v B \<Longrightarrow> St \<subseteq> St' \<Longrightarrow> holds St' Src v B"
  by (auto simp: holds_def intro: ack_ok_mono split: worker.splits option.splits)

lemma acks_ok_mono: "acks_ok St ws \<Longrightarrow> St \<subseteq> St' \<Longrightarrow> acks_ok St' ws"
  by (auto simp: acks_ok_def intro: ack_ok_mono)

lemma pool_ok_advance:
  assumes ok: "pool_ok w0 ids bs {} n p" and i: "i < length (pl_workers p)"
    and ev: "evolves w0 w'" and St: "pool_stored p \<subseteq> stored (w_target w')" and v: "v \<noteq> Returned"
    and ack: "\<And>es r. v = Putting es (Some r) \<Longrightarrow> ack_ok es r (stored (w_target w'))"
    and hold: "\<And>B. holds (pool_stored p) (snd ` positions (w_source w0)) (pl_workers p ! i) B \<Longrightarrow>
      holds (stored (w_target w')) (snd ` positions (w_source w0)) v B"
  shows "pool_ok w0 ids bs {} n (set_worker i v (p\<lparr> pl_world := w' \<rparr>))"
proof -
  let ?q = "set_worker i v (p\<lparr> pl_world := w' \<rparr>)" and ?Src = "snd ` positions (w_source w0)"
  have "batch_settled ?Src {} ?q B" if settled: "batch_settled ?Src {} p B" for B
  proof -
    consider (arrived) "set B \<inter> ?Src \<subseteq> pool_stored p \<union> rejected_id ` set (pl_rejected p)"
      | (held) j where "j < length (pl_workers p)" "holds (pool_stored p) ?Src (pl_workers p ! j) B"
      using settled by (auto simp: batch_settled_def)
    then show ?thesis
    proof cases
      case arrived
      then show ?thesis using St by (auto simp: batch_settled_def)
    next
      case held
      then have "holds (stored (w_target w')) ?Src (pl_workers ?q ! j) B"
        using hold [of B] holds_mono [OF _ St] i by (cases "j = i") simp_all
      then show ?thesis using held by (auto simp: batch_settled_def intro!: exI [of _ j])
    qed
  qed
  moreover have "pl_workers p ! j = Returned" if "pl_workers ?q ! j = Returned" for j
    using that v i by (cases "j = i") simp_all
  moreover have "acks_ok (stored (w_target w')) ((pl_workers p)[i := v])"
    using ok ack by (intro acks_ok_update acks_ok_mono [OF _ St]) (simp_all add: pool_ok_def)
  ultimately show ?thesis using ok ev by (auto simp: pool_ok_def failed_def)
qed

lemma finish_batch_ok:
  assumes ok: "pool_ok w0 ids bs {} n p" and i: "i < length (pl_workers p)" "i \<le> n"
    and hold: "\<And>B. holds (pool_stored p) (snd ` positions (w_source w0)) (pl_workers p ! i) B \<Longrightarrow>
      set B \<inter> snd ` positions (w_source w0) \<subseteq> pool_stored p \<union> rejected_id ` set rej"
  shows "pool_ok w0 ids bs {} (max n (Suc i)) (finish_batch env sops ids bs es rej i p)"
  unfolding finish_batch_def
proof (rule start_batch_ok)
  let ?q = "p\<lparr> pl_rejected := pl_rejected p @ rej, pl_bytes := pl_bytes p + batch_bytes es rej,
      pl_transferred := pl_transferred p + (int (length es) - int (length rej)) \<rparr>"
  have "batch_settled (snd ` positions (w_source w0)) {i} ?q B"
    if settled: "batch_settled (snd ` positions (w_source w0)) {} p B" for B
  proof (cases "holds (pool_stored p) (snd ` positions (w_source w0)) (pl_workers p ! i) B")
    case True
    from hold [OF this] show ?thesis by (auto simp: batch_settled_def)
  next
    case False
    with settled show ?thesis unfolding batch_settled_def by (auto simp: image_Un)
  qed
  then show "pool_ok w0 ids bs {i} n ?q"
    using ok by (auto simp: pool_ok_def failed_def)
qed (use i in simp_all)

lemma fail_batch_ok:
  assumes "pool_ok w0 ids bs {} n p"
  shows "pool_ok w0 ids bs {} n (fail_batch env e i p)"
  using assms acks_ok_update [of "pool_stored p" "pl_workers p" Returned i]
  by (intro pool_ok_failed) (auto simp: fail_batch_def pool_ok_def failed_def)

lemma getting_ok:
  assumes ok: "pool_ok w0 ids bs {} n p" and i: "i < length (pl_workers p)"
    and v: "pl_workers p ! i = Getting x"
  shows "pool_ok w0 ids bs {} n (worker_step env sops tops ids bs i p)"
proof (cases x)
  case None
  then show ?thesis using v fail_batch_ok [OF ok] by (simp add: worker_step_def)
next
  case (Some es)
  have ev: "evolves w0 (pl_world p)" and acks: "acks_ok (pool_stored p) (pl_workers p)"
    using ok by (simp_all add: pool_ok_def)
  show ?thesis
  proof (cases "pool_aborted env p")
    case True
    then have "worker_step env sops tops ids bs i p = set_worker i Returned (p\<lparr> pl_cancelled := True \<rparr>)"
      using v Some by (simp add: worker_step_def)
    moreover have "pool_ok w0 ids bs {} n (set_worker i Returned (p\<lparr> pl_cancelled := True \<rparr>))"
      using ev acks_ok_update [OF acks] by (intro pool_ok_failed) (auto simp: failed_def)
    ultimately show ?thesis by simp
  next
    case False
    obtain r t' where put: "op_putEntries tops (w_target (pl_world p)) es = (r, t')" by (rule prod.exhaust)
    have "tinv (w_target (pl_world p))" using ev by (simp add: evolves_def stores_ok_def)
    note law = put_state [OF this put] put_ack [OF this, of es]
    have "pool_ok w0 ids bs {} n (set_worker i (Putting es r) (p\<lparr> pl_world := (pl_world p)\<lparr> w_target := t' \<rparr> \<rparr>))"
      using law put v Some
      by (intro pool_ok_advance [OF ok i evolves_put [OF ev put]]) (auto simp: holds_def split: option.split)
    then show ?thesis using False v Some put by (simp add: worker_step_def)
  qed
qed

lemma putting_ok:
  assumes ok: "pool_ok w0 ids bs {} n p" and i: "i < length (pl_workers p)" "i < n"
    and v: "pl_workers p ! i = Putting es x"
  shows "pool_ok w0 ids bs {} n (worker_step env sops tops ids bs i p)"
proof (cases x)
  case None
  then show ?thesis using v fail_batch_ok [OF ok] by (simp add: worker_step_def)
next
  case (Some r)
  have ev: "evolves w0 (pl_world p)" and acks: "acks_ok (pool_stored p) (pl_workers p)"
    using ok by (simp_all add: pool_ok_def)
  obtain receipts rej where norm: "normalizePutResult r = (receipts, rej)" by (rule prod.exhaust)
  have "Putting es (Some r) \<in> set (pl_workers p)" using v Some i(1) nth_mem by fastforce
  then have "ack_ok es r (pool_stored p)" using acks by (simp add: acks_ok_def)
  then have ack: "entry_id ` set es \<subseteq> pool_stored p \<union> rejected_id ` set rej"
    "entry_id ` set receipts \<subseteq> pool_stored p" by (simp_all add: ack_ok_def norm)
  have hold: "set B \<inter> snd ` positions (w_source w0) \<subseteq> pool_stored p \<union> rejected_id ` set rej"
    if "holds (pool_stored p) (snd ` positions (w_source w0)) (pl_workers p ! i) B" for B
    using that ack(1) v Some by (simp add: holds_def) (blast dest: subsetD)
  have adv: "pool_ok w0 ids bs {} n (set_worker i (Receipting es rej b) (p\<lparr> pl_world := (pl_world p)\<lparr> w_source := s' \<rparr> \<rparr>))"
    if "op_applyWitnessReceipts sops = Some f" "f (w_source (pl_world p)) receipts = (b, s')" for f b s'
    using hold by (intro pool_ok_advance [OF ok i(1) evolves_receipts [OF ev that ack(2)]])
      (auto simp: holds_def [of _ _ "Receipting es rej b"])
  have "pool_ok w0 ids bs {} n (finish_batch env sops ids bs es rej i p)"
    using finish_batch_ok [OF ok i(1) _ hold] i(2) by (simp add: max_absorb1)
  then show ?thesis
    using adv v Some norm by (simp add: worker_step_def split: option.split prod.split)
qed

lemma resume_ok:
  assumes ok: "pool_ok w0 ids bs {} n p" and i: "i < length (pl_workers p)" "i < n"
  shows "pool_ok w0 ids bs {} n (resume env sops tops ids bs i p)"
proof -
  define p1 where "p1 = p\<lparr> pl_world := tick (pl_world p) \<rparr>"
  have ok1: "pool_ok w0 ids bs {} n p1"
    using ok evolves_tick [of w0 "pl_world p"]
    by (simp add: pool_ok_def p1_def failed_def batch_settled_def tick_def)
  have i1: "i < length (pl_workers p1)" using i by (simp add: p1_def)
  have "pool_ok w0 ids bs {} n (worker_step env sops tops ids bs i p1)"
  proof (cases "pl_workers p1 ! i")
    case (Receipting es rej b)
    have "set B \<inter> snd ` positions (w_source w0) \<subseteq> pool_stored p1 \<union> rejected_id ` set rej"
      if "holds (pool_stored p1) (snd ` positions (w_source w0)) (pl_workers p1 ! i) B" b for B
      using that Receipting by (simp add: holds_def)
    from finish_batch_ok [OF ok1 i1 _ this] show ?thesis
      using fail_batch_ok [OF ok1] Receipting i(2) by (simp add: worker_step_def max_absorb1)
  qed (use getting_ok [OF ok1 i1] putting_ok [OF ok1 i1 i(2)] ok1 in \<open>simp_all add: worker_step_def\<close>)
  then show ?thesis by (simp add: resume_def p1_def)
qed

lemma init_pool_ok:
  assumes "stores_ok w" and "k \<le> m"
  shows "pool_ok w ids bs {} k (fold (start_batch env sops ids bs) [0..<k] (init_pool m a b w)) \<and>
    length (pl_workers (fold (start_batch env sops ids bs) [0..<k] (init_pool m a b w))) = m \<and>
    (\<forall>j. k \<le> j \<longrightarrow> j < m \<longrightarrow> pl_workers (fold (start_batch env sops ids bs) [0..<k] (init_pool m a b w)) ! j = Returned)"
  using assms(2)
proof (induction k)
  case 0
  then show ?case
    using evolves_refl [OF assms(1)] by (simp add: init_pool_def pool_ok_def acks_ok_def)
next
  case (Suc k)
  let ?p = "fold (start_batch env sops ids bs) [0..<k] (init_pool m a b w)"
  have ok: "pool_ok w ids bs {} k ?p" and len: "length (pl_workers ?p) = m"
    and ret: "\<forall>j. k \<le> j \<longrightarrow> j < m \<longrightarrow> pl_workers ?p ! j = Returned"
    using Suc.IH Suc.prems by simp_all
  have "batch_settled Src {k} ?p B" if "batch_settled Src {} ?p B" for Src B
    using that ret len Suc.prems unfolding batch_settled_def by (metis holds_Returned le_refl singletonD)
  then have "pool_ok w ids bs {k} k ?p" using ok by (auto simp: pool_ok_def)
  from start_batch_ok [OF this, of env] Suc.prems len
  have "pool_ok w ids bs {} (Suc k) (start_batch env sops ids bs k ?p)" by simp
  moreover have "pl_workers (start_batch env sops ids bs k ?p) ! j = Returned" if "Suc k \<le> j" "j < m" for j
    using that ret by (simp add: start_batch_other)
  ultimately show ?case using len by simp
qed

lemma pool_arrived:
  assumes ok: "pool_ok w ids bs {} m p" and "live_workers p = []" and "length (pl_workers p) = m" and "0 < m"
    and "\<not> failed p"
  shows "set ids \<inter> snd ` positions (w_source w) \<subseteq> pool_stored p \<union> rejected_id ` set (pl_rejected p)"
proof -
  have ret: "pl_workers p ! j = Returned" if "j < m" for j
    using that assms(2,3) live_workers_iff [of j p] by (cases "pl_workers p ! j") auto
  then have "length ids \<le> pl_next p * bs" using ok assms(4,5) by (auto simp: pool_ok_def)
  moreover have "set (take bs (drop (k * bs) ids)) \<inter> snd ` positions (w_source w) \<subseteq>
      pool_stored p \<union> rejected_id ` set (pl_rejected p)" if "k < pl_next p" for k
  proof -
    have "batch_settled (snd ` positions (w_source w)) {} p (take bs (drop (k * bs) ids))"
      using ok assms(5) that by (simp add: pool_ok_def)
    then show ?thesis using ret assms(3) unfolding batch_settled_def by auto
  qed
  ultimately show ?thesis using in_some_batch [of _ ids "pl_next p" bs] by blast
qed

text \<open>
  A transfer returns, whatever the schedule and whatever throws or aborts; if it neither throws nor
  is cancelled, every requested id that the source has is stored or reported as rejected.
\<close>

lemma transfer_returns:
  assumes ok: "stores_ok w" and bs: "0 < resolveTransferBatchSize opts"
  obtains r w' where "transferEntriesInBatches env sops tops ids opts a b w = Some (r, w')"
    and "evolves w w'"
    and "\<And>res. r = Inr res \<Longrightarrow> \<not> tr_cancelled res \<Longrightarrow>
      set ids \<inter> snd ` positions (w_source w) \<subseteq> stored (w_target w') \<union> rejected_id ` set (tr_rejected res)"
proof (cases "ids = []")
  case True
  then show ?thesis using that evolves_refl [OF ok] by (simp add: transferEntriesInBatches_def)
next
  case False
  define n where "n = nat (resolveTransferBatchSize opts)"
  define m where "m = maxConcurrent opts (totalTransferBatches ids n)"
  define p where "p = fold (start_batch env sops ids n) [0..<m] (init_pool m a b w)"
  have n: "0 < n" and m: "0 < m"
    using bs by (simp_all add: n_def m_def maxConcurrent_def totalTransferBatches_def less_max_iff_disj)
  have "pool_ok w ids n {} m p \<and> length (pl_workers p) = m"
    using init_pool_ok [OF ok order_refl, of ids n m env a b] by (simp add: p_def)
  moreover have "pool_ok w ids n {} m (resume env sops tops ids n i p) \<and>
      length (pl_workers (resume env sops tops ids n i p)) = m"
    if "pool_ok w ids n {} m p \<and> length (pl_workers p) = m" "i \<in> set (live_workers p)" for p i
    using that resume_ok by (auto simp: live_workers_iff)
  ultimately obtain q where q: "run_pool env sops tops ids n p = Some q" "pool_ok w ids n {} m q"
    "length (pl_workers q) = m" "live_workers q = []"
    using run_pool_rule [OF n, where I = "\<lambda>p. pool_ok w ids n {} m p \<and> length (pl_workers p) = m"] by blast
  have ev: "evolves w (tick (pl_world q))" using q(2) evolves_tick by (simp add: pool_ok_def)
  have "w_target (tick (pl_world q)) = w_target (pl_world q)" by (simp add: tick_def)
  note arrived = pool_arrived [OF q(2,4,3) m, folded this]
  show ?thesis
  proof (cases "aborted env (w_clock (tick (pl_world q))) \<or> pl_cancelled q")
    case True
    then show ?thesis
      using q(1) False ev by (intro that) (auto simp: transferEntriesInBatches_def Let_def n_def m_def p_def)
  next
    case no: False
    then show ?thesis
      using q(1) False ev arrived by (cases "pl_firstError q")
        (auto simp: transferEntriesInBatches_def Let_def failed_def n_def [symmetric] m_def [symmetric] p_def [symmetric]
          intro!: that)
  qed
qed

end

text \<open>Between stores that do not throw, and without an abort, nothing fails.\<close>

definition smooth_worker :: "worker \<Rightarrow> bool" where
  "smooth_worker v =
     (case v of Getting x \<Rightarrow> x \<noteq> None | Putting es x \<Rightarrow> x \<noteq> None | Receipting es rej ok \<Rightarrow> ok | Returned \<Rightarrow> True)"

definition smooth :: "('s, 't) pool \<Rightarrow> bool" where
  "smooth p \<longleftrightarrow> \<not> pl_cancelled p \<and> pl_firstError p = None \<and> list_all smooth_worker (pl_workers p)"

lemma smooth_set: "smooth p \<Longrightarrow> smooth_worker v \<Longrightarrow> smooth (set_worker i v p)"
  by (auto simp: smooth_def list_all_iff dest!: set_update_subset_insert [THEN subsetD])

locale reliable_pair = sync_pair sops sinv positions sepoch top_order tops tinv stored tepoch +
    reliable_source sops sinv positions sepoch top_order + reliable_target tops tinv stored tepoch
  for sops :: "'s store_ops" and sinv positions sepoch top_order
    and tops :: "'t store_ops" and tinv stored tepoch
begin

lemma smooth_start:
  assumes "smooth p" and "sinv (w_source (pl_world p))" and "env_abort env = None"
  shows "smooth (start_batch env sops ids bs i p)"
proof -
  have "smooth (p\<lparr> pl_next := n \<rparr>)" for n using assms(1) by (simp add: smooth_def)
  then show ?thesis
    using assms get_returns [OF assms(2)]
    by (auto simp: start_batch_def Let_def pool_aborted_def aborted_def smooth_worker_def smooth_def [of p]
        intro!: smooth_set simp del: not_None_eq)
qed

lemma smooth_finish:
  assumes "smooth p" and "sinv (w_source (pl_world p))" and "env_abort env = None"
  shows "smooth (finish_batch env sops ids bs es rej i p)"
  unfolding finish_batch_def by (rule smooth_start) (use assms in \<open>simp_all add: smooth_def\<close>)

lemma smooth_resume:
  assumes p: "smooth p" and ok: "stores_ok (pl_world p)" and env: "env_abort env = None"
    and i: "i < length (pl_workers p)"
  shows "smooth (resume env sops tops ids bs i p)"
proof -
  define p1 where "p1 = p\<lparr> pl_world := tick (pl_world p) \<rparr>"
  have p1: "smooth p1" "sinv (w_source (pl_world p1))" "tinv (w_target (pl_world p1))" "i < length (pl_workers p1)"
    using p ok i by (simp_all add: p1_def smooth_def tick_def stores_ok_def)
  have w1: "smooth (p1\<lparr> pl_world := w \<rparr>)" for w using p1(1) by (simp add: smooth_def)
  have v: "smooth_worker (pl_workers p1 ! i)" using p1(1,4) by (simp add: smooth_def list_all_iff)
  note fin = smooth_finish [OF p1(1,2) env]
  show ?thesis
  proof (cases "pl_workers p1 ! i")
    case (Getting x)
    then obtain es where "x = Some es" using v by (auto simp: smooth_worker_def)
    then show ?thesis
      using Getting w1 env put_returns [OF p1(3), of es]
      by (auto simp: resume_def p1_def [symmetric] worker_step_def pool_aborted_def aborted_def smooth_worker_def
          intro!: smooth_set split: prod.split)
  next
    case (Putting es x)
    then obtain r where "x = Some r" using v by (auto simp: smooth_worker_def)
    moreover have "smooth (set_worker i (Receipting es rej b) (p1\<lparr> pl_world := w \<rparr>))"
      if "op_applyWitnessReceipts sops = Some f" "f (w_source (pl_world p1)) rs = (b, s')" for f rs b s' rej w
      using receipts_return [OF that(1) p1(2), of rs] that(2)
      by (intro smooth_set [OF w1]) (simp add: smooth_worker_def)
    ultimately show ?thesis
      using Putting fin
      by (simp add: resume_def p1_def [symmetric] worker_step_def split: prod.split option.split)
  next
    case (Receipting es rej b)
    then show ?thesis
      using v fin by (simp add: resume_def p1_def [symmetric] worker_step_def smooth_worker_def)
  next
    case Returned
    then show ?thesis using p1(1) by (simp add: resume_def p1_def [symmetric] worker_step_def)
  qed
qed

lemma smooth_init:
  assumes "stores_ok w" and "env_abort env = None" and "k \<le> m"
  shows "smooth (fold (start_batch env sops ids bs) [0..<k] (init_pool m a b w))"
  using assms(3)
proof (induction k)
  case 0
  then show ?case by (simp add: smooth_def init_pool_def list_all_iff smooth_worker_def)
next
  case (Suc k)
  have "evolves w (pl_world (fold (start_batch env sops ids bs) [0..<k] (init_pool m a b w)))"
    using init_pool_ok [OF assms(1), of k m ids bs env a b] Suc.prems by (simp add: pool_ok_def)
  then have "sinv (w_source (pl_world (fold (start_batch env sops ids bs) [0..<k] (init_pool m a b w))))"
    by (simp add: evolves_def stores_ok_def)
  then show ?case using Suc assms(2) by (simp add: smooth_start)
qed

lemma transfer_smooth:
  assumes ok: "stores_ok w" and bs: "0 < resolveTransferBatchSize opts" and env: "env_abort env = None"
    and r: "transferEntriesInBatches env sops tops ids opts a b w = Some (r, w')"
  obtains res where "r = Inr res" and "\<not> tr_cancelled res"
proof (cases "ids = []")
  case True
  then show ?thesis using that r by (auto simp: transferEntriesInBatches_def)
next
  case False
  define n where "n = nat (resolveTransferBatchSize opts)"
  define m where "m = maxConcurrent opts (totalTransferBatches ids n)"
  define p where "p = fold (start_batch env sops ids n) [0..<m] (init_pool m a b w)"
  let ?I = "\<lambda>p. pool_ok w ids n {} m p \<and> length (pl_workers p) = m \<and> smooth p"
  have "0 < n" using bs by (simp add: n_def)
  moreover have "?I p"
    using init_pool_ok [OF ok order_refl, of ids n m env a b] smooth_init [OF ok env order_refl] by (simp add: p_def)
  moreover have "?I (resume env sops tops ids n i p)" if "?I p" "i \<in> set (live_workers p)" for p i
    using that resume_ok smooth_resume [OF _ _ env] by (auto simp: live_workers_iff pool_ok_def [of _ _ _ _ _ p] evolves_def)
  ultimately obtain q where q: "run_pool env sops tops ids n p = Some q" "smooth q"
    using run_pool_rule [where I = ?I] by blast
  then show ?thesis
    using that r False env
    by (auto simp: transferEntriesInBatches_def Let_def n_def [symmetric] m_def [symmetric] p_def [symmetric]
        smooth_def aborted_def)
qed

end

end
