(* ===== verification/SyncEngine.thy ===== *)
theory SyncEngine
  imports SyncTransfer
begin

text \<open>
  The sync engine of \<^verbatim>\<open>core/BaseMindooDB.ts\<close>: the cursor scan with its persisted cursor, its
  page prefetch and its scan bound (\<^verbatim>\<open>syncEntriesFromStoreImpl\<close>), the fallback for sources
  that cannot scan, dense sync, and the entry point \<^verbatim>\<open>syncEntriesFromStore\<close>.

  The next page is requested before the current one is transferred; the model takes its content at
  that point. Handing the abort signal to network stores, progress callbacks and logging are left out.
\<close>

section \<open>Heads, summaries and the persisted cursor\<close>

definition getStoreBloomSummary :: "'s store_ops \<Rightarrow> 's \<Rightarrow> id_bloom_summary option" where
  "getStoreBloomSummary ops s = Option.bind (op_getIdBloomSummary ops) (\<lambda>f. f s)"

definition getStoreHeadSafe :: "'s store_ops \<Rightarrow> 's \<Rightarrow> store_head option" where
  "getStoreHeadSafe ops s = Option.bind (op_getStoreHead ops) (\<lambda>f. f s)"

fun store_kind_name :: "store_kind \<Rightarrow> string" where
  "store_kind_name kind_docs = ''docs''"
| "store_kind_name kind_attachments = ''attachments''"

definition syncStoreIdentity :: "'s store_ops \<Rightarrow> 's \<Rightarrow> string" where
  "syncStoreIdentity ops s =
     (case op_getCacheIdentity ops of
        Some f \<Rightarrow> f s
      | None \<Rightarrow> op_getId ops s @ ''/'' @ store_kind_name (op_getStoreKind ops s))"

definition syncScanCursorKey :: "'s store_ops \<Rightarrow> 't store_ops \<Rightarrow> ('s, 't) sync_world \<Rightarrow> string" where
  "syncScanCursorKey sops tops w =
     syncStoreIdentity sops (w_source w) @ ''->'' @ syncStoreIdentity tops (w_target w)"

definition saveSyncScanCursor ::
  "string \<Rightarrow> sync_cursor_record \<Rightarrow> ('s, 't) sync_world \<Rightarrow> ('s, 't) sync_world" where
  "saveSyncScanCursor key r w =
     (if map_of (w_cursors w) key = Some r then w
      else w\<lparr> w_cursors := AList.update key r (w_cursors w), w_cacheMetaDirty := True \<rparr>)"

record sync_result =
  res_transferred :: int
  res_transferredBytes :: "int option"
  res_scanned :: int
  res_cancelled :: bool
  res_rejected :: "rejected_put_entry list option"

type_synonym ('s, 't) sync_outcome = "(sync_error + sync_result) \<times> ('s, 't) sync_world"

section \<open>The scan loop\<close>

text \<open>
  What the loop keeps between two pages. \<open>ls_nextPage\<close> is \<^verbatim>\<open>nextPagePromise\<close>; the
  inner option is a rejected promise.
\<close>

record scan_loop =
  ls_cursor :: "store_scan_cursor option"
  ls_nextPage :: "store_scan_result option option"
  ls_transferred :: int
  ls_bytes :: int
  ls_scanned :: int
  ls_transferredThisSync :: "string jsset"
  ls_rejected :: "rejected_put_entry list"

text \<open>What is fixed during one loop.\<close>

record scan_setup =
  su_key :: string
  su_sourceHead :: "store_head option"
  su_targetHead :: "store_head option"
  su_targetBloom :: "id_bloom_summary option"

definition persistScanCursor ::
  "scan_setup \<Rightarrow> store_scan_cursor option \<Rightarrow> ('s, 't) sync_world \<Rightarrow> ('s, 't) sync_world" where
  "persistScanCursor su finalCursor w =
     (case (finalCursor, su_sourceHead su, su_targetHead su) of
        (Some c, Some sh, Some th) \<Rightarrow>
          saveSyncScanCursor (su_key su)
            \<lparr> rec_sourceEpoch = head_epoch sh, rec_targetEpoch = head_epoch th, rec_cursor = c \<rparr> w
      | _ \<Rightarrow> w)"

definition loop_result :: "bool \<Rightarrow> scan_loop \<Rightarrow> sync_result" where
  "loop_result cancelled ls =
     \<lparr> res_transferred = ls_transferred ls, res_transferredBytes = Some (ls_bytes ls),
       res_scanned = ls_scanned ls, res_cancelled = cancelled, res_rejected = Some (ls_rejected ls) \<rparr>"

datatype ('s, 't) page_outcome =
  Finished "(sync_error + sync_result) \<times> ('s, 't) sync_world"
| Continue scan_loop "('s, 't) sync_world"

definition finish_scan :: "scan_setup \<Rightarrow> bool \<Rightarrow> scan_loop \<Rightarrow> ('s, 't) sync_world \<Rightarrow> ('s, 't) page_outcome" where
  "finish_scan su cancelled ls w = Finished (Inr (loop_result cancelled ls), persistScanCursor su (ls_cursor ls) w)"

text \<open>
  Fetching a page: the prefetched one, or a scan from the cursor; then the next page is requested
  from the source as it is now.
\<close>

definition fetch_page ::
  "('s \<Rightarrow> store_scan_cursor option \<Rightarrow> int \<Rightarrow> store_scan_result option \<times> 's) \<Rightarrow> int \<Rightarrow> scan_loop \<Rightarrow>
   ('s, 't) sync_world \<Rightarrow> (store_scan_result \<times> store_scan_result option option) option \<times> ('s, 't) sync_world" where
  "fetch_page scan pageSize ls w =
     (let (r, s1) = (case ls_nextPage ls of Some r \<Rightarrow> (r, w_source w) | None \<Rightarrow> scan (w_source w) (ls_cursor ls) pageSize);
          w1 = tick (w\<lparr> w_source := s1 \<rparr>)
      in case r of
           None \<Rightarrow> (None, w1)
         | Some page \<Rightarrow>
             if scan_hasMore page
             then let (r2, s2) = scan s1 (scan_nextCursor page) pageSize
                  in (Some (page, Some r2), w1\<lparr> w_source := s2 \<rparr>)
             else (Some (page, None), w1))"

text \<open>Clamping the page to the scan bound: the entries in bound, and whether one is beyond it.\<close>

definition clamp_page :: "int option \<Rightarrow> store_entry_metadata list \<Rightarrow> store_entry_metadata list \<times> bool" where
  "clamp_page bound es =
     (case bound of
        None \<Rightarrow> (es, False)
      | Some b \<Rightarrow>
          let inBound = filter (\<lambda>m. receipt_order_of m \<le> b) es
          in if length inBound < length es then (inBound, True) else (es, False))"

text \<open>
  The transfer of one page. \<open>Some (Inl outcome)\<close> is leaving the loop, \<open>Some (Inr \<dots>)\<close>
  going on with the updated counters.
\<close>

definition transfer_missing ::
  "sync_env \<Rightarrow> 's store_ops \<Rightarrow> 't store_ops \<Rightarrow> sync_options \<Rightarrow> scan_setup \<Rightarrow> string list \<Rightarrow>
   scan_loop \<Rightarrow> ('s, 't) sync_world \<Rightarrow> (('s, 't) page_outcome + scan_loop \<times> ('s, 't) sync_world) option" where
  "transfer_missing env sops tops opts su missingIds ls w =
     Option.bind (transferEntriesInBatches env sops tops missingIds opts (ls_transferred ls) (ls_bytes ls) w)
       (\<lambda>(r, w2). case r of
          Inl e \<Rightarrow> Some (Inl (Finished (Inl e, w2)))
        | Inr t \<Rightarrow>
            let ls' = ls\<lparr> ls_transferred := tr_transferred t, ls_bytes := tr_bytes t,
                          ls_rejected := ls_rejected ls @ tr_rejected t \<rparr>
            in if tr_cancelled t then Some (Inl (finish_scan su True ls' w2))
               else Some (Inr (ls'\<lparr> ls_transferredThisSync :=
                      fold set_add missingIds (ls_transferredThisSync ls') \<rparr>, w2)))"

definition transfer_page ::
  "sync_env \<Rightarrow> 's store_ops \<Rightarrow> 't store_ops \<Rightarrow> sync_options \<Rightarrow> scan_setup \<Rightarrow> store_entry_metadata list \<Rightarrow>
   scan_loop \<Rightarrow> ('s, 't) sync_world \<Rightarrow> (('s, 't) page_outcome + scan_loop \<times> ('s, 't) sync_world) option" where
  "transfer_page env sops tops opts su pageEntries ls w =
     (let ids = filter (\<lambda>i. i \<notin> set (ls_transferredThisSync ls)) (map entry_id pageEntries)
      in case (if ids \<noteq> [] then filterMissingIds tops (w_target w) ids (su_targetBloom su) else Inr []) of
           Inl e \<Rightarrow> Some (Inl (Finished (Inl e, tick w)))
         | Inr missingIds \<Rightarrow>
             let w1 = (if ids \<noteq> [] then tick w else w)
             in if aborted env (w_clock w1) then Some (Inl (finish_scan su True ls w1))
                else if missingIds = [] then Some (Inr (ls, w1))
                else transfer_missing env sops tops opts su missingIds ls w1)"

text \<open>
  The end of a page: at the scan bound the loop ends at the last entry in bound, otherwise it goes on
  from the page's \<^verbatim>\<open>nextCursor\<close> while there is more.
\<close>

definition end_page ::
  "scan_setup \<Rightarrow> store_scan_result \<Rightarrow> store_scan_result option option \<Rightarrow> store_entry_metadata list \<Rightarrow> bool \<Rightarrow>
   scan_loop \<Rightarrow> ('s, 't) sync_world \<Rightarrow> ('s, 't) page_outcome" where
  "end_page su page prefetch pageEntries reachedScanBound ls w =
     (if reachedScanBound
      then finish_scan su False (ls\<lparr> ls_cursor := next_cursor pageEntries (ls_cursor ls) \<rparr>) w
      else let ls' = ls\<lparr> ls_cursor := scan_nextCursor page, ls_nextPage := prefetch \<rparr>
           in if scan_hasMore page then Continue ls' w else finish_scan su False ls' w)"

definition process_page ::
  "sync_env \<Rightarrow> 's store_ops \<Rightarrow> 't store_ops \<Rightarrow> sync_options \<Rightarrow> scan_setup \<Rightarrow> store_scan_result \<Rightarrow>
   store_scan_result option option \<Rightarrow> scan_loop \<Rightarrow> ('s, 't) sync_world \<Rightarrow> ('s, 't) page_outcome option" where
  "process_page env sops tops opts su page prefetch ls w =
     (let (pageEntries, reachedScanBound) = clamp_page (map_option head_maxReceiptOrder (su_sourceHead su)) (scan_entries page);
          ls1 = ls\<lparr> ls_scanned := ls_scanned ls + int (length pageEntries) \<rparr>
      in if aborted env (w_clock w) then Some (finish_scan su True ls1 w)
         else Option.bind
           (if pageEntries \<noteq> [] then transfer_page env sops tops opts su pageEntries ls1 w else Some (Inr (ls1, w)))
           (\<lambda>r. case r of
              Inl outcome \<Rightarrow> Some outcome
            | Inr (ls2, w2) \<Rightarrow> Some (end_page su page prefetch pageEntries reachedScanBound ls2 w2)))"

definition sync_page ::
  "sync_env \<Rightarrow> 's store_ops \<Rightarrow> 't store_ops \<Rightarrow> ('s \<Rightarrow> store_scan_cursor option \<Rightarrow> int \<Rightarrow> store_scan_result option \<times> 's) \<Rightarrow>
   sync_options \<Rightarrow> scan_setup \<Rightarrow> scan_loop \<Rightarrow> ('s, 't) sync_world \<Rightarrow> ('s, 't) page_outcome option" where
  "sync_page env sops tops scan opts su ls w =
     (if aborted env (w_clock w) then Some (finish_scan su True ls w)
      else case fetch_page scan (option_or (o_pageSize opts) 1000) ls w of
        (None, w1) \<Rightarrow> Some (Finished (Inl ScanFailed, w1))
      | (Some (page, prefetch), w1) \<Rightarrow> process_page env sops tops opts su page prefetch ls w1)"

partial_function (option) sync_loop ::
  "sync_env \<Rightarrow> 's store_ops \<Rightarrow> 't store_ops \<Rightarrow> ('s \<Rightarrow> store_scan_cursor option \<Rightarrow> int \<Rightarrow> store_scan_result option \<times> 's) \<Rightarrow>
   sync_options \<Rightarrow> scan_setup \<Rightarrow> scan_loop \<Rightarrow> ('s, 't) sync_world \<Rightarrow> ('s, 't) sync_outcome option" where
  "sync_loop env sops tops scan opts su ls w =
     Option.bind (sync_page env sops tops scan opts su ls w)
       (\<lambda>r. case r of Finished outcome \<Rightarrow> Some outcome
            | Continue ls' w' \<Rightarrow> sync_loop env sops tops scan opts su ls' w')"

section \<open>A sync by cursor scan\<close>

definition plain_result :: "int \<Rightarrow> bool \<Rightarrow> sync_result" where
  "plain_result scanned cancelled =
     \<lparr> res_transferred = 0, res_transferredBytes = None, res_scanned = scanned,
       res_cancelled = cancelled, res_rejected = None \<rparr>"

datatype scan_start = Skip | ScanFrom "store_scan_cursor option" bool

text \<open>
  Where to start: nothing to do when the source head is covered by the persisted cursor; from the
  cursor when the epochs of both stores are those it was taken with; otherwise from the beginning.
  The flag says that the record is dropped.
\<close>

definition resume_decision ::
  "sync_cursor_record option \<Rightarrow> store_head option \<Rightarrow> store_head option \<Rightarrow> scan_start" where
  "resume_decision persisted sourceHead targetHead =
     (case (persisted, sourceHead, targetHead) of
        (Some r, Some sh, Some th) \<Rightarrow>
          if rec_sourceEpoch r = head_epoch sh \<and> rec_targetEpoch r = head_epoch th
          then if head_maxReceiptOrder sh \<le> cursor_receiptOrder (rec_cursor r) then Skip
               else ScanFrom (Some (rec_cursor r)) False
          else ScanFrom None True
      | _ \<Rightarrow> ScanFrom None False)"

definition start_loop :: "store_scan_cursor option \<Rightarrow> scan_loop" where
  "start_loop cursor =
     \<lparr> ls_cursor = cursor, ls_nextPage = None, ls_transferred = 0, ls_bytes = 0, ls_scanned = 0,
       ls_transferredThisSync = [], ls_rejected = [] \<rparr>"

definition sync_by_scan ::
  "sync_env \<Rightarrow> 's store_ops \<Rightarrow> 't store_ops \<Rightarrow> ('s \<Rightarrow> store_scan_cursor option \<Rightarrow> int \<Rightarrow> store_scan_result option \<times> 's) \<Rightarrow>
   sync_options \<Rightarrow> ('s, 't) sync_world \<Rightarrow> ('s, 't) sync_outcome option" where
  "sync_by_scan env sops tops scan opts w =
     (let cursorKey = syncScanCursorKey sops tops w;
          persisted = (if o_forceFullScan opts then None else map_of (w_cursors w) cursorKey);
          sourceHead = getStoreHeadSafe sops (w_source w);
          targetHead = getStoreHeadSafe tops (w_target w)
      in case resume_decision persisted sourceHead targetHead of
           Skip \<Rightarrow> Some (Inr (plain_result 0 False), tick w)
         | ScanFrom cursor drop_record \<Rightarrow>
             let w1 = tick (if drop_record then w\<lparr> w_cursors := AList.delete cursorKey (w_cursors w) \<rparr> else w);
                 targetBloom = getStoreBloomSummary tops (w_target w1)
             in sync_loop env sops tops scan opts
                  \<lparr> su_key = cursorKey, su_sourceHead = sourceHead, su_targetHead = targetHead,
                    su_targetBloom = targetBloom \<rparr>
                  (start_loop cursor) (tick (tick w1)))"

section \<open>Sources that cannot scan\<close>

definition sync_by_diff ::
  "sync_env \<Rightarrow> 's store_ops \<Rightarrow> 't store_ops \<Rightarrow> sync_options \<Rightarrow> ('s, 't) sync_world \<Rightarrow> ('s, 't) sync_outcome option" where
  "sync_by_diff env sops tops opts w =
     (case Option.bind (op_getAllIds tops (w_target w)) (op_findNewEntries sops (w_source w)) of
        None \<Rightarrow> Some (Inl FindFailed, tick w)
      | Some sourceNewMetadata \<Rightarrow>
          let w1 = tick (tick w); n = int (length sourceNewMetadata)
          in if sourceNewMetadata = [] then Some (Inr (plain_result 0 False), w1)
             else if aborted env (w_clock w1) then Some (Inr (plain_result 0 True), w1)
             else Option.bind (transferEntriesInBatches env sops tops (map entry_id sourceNewMetadata) opts 0 0 w1)
               (\<lambda>(r, w2). Some (case r of
                  Inl e \<Rightarrow> Inl e
                | Inr t \<Rightarrow> Inr \<lparr> res_transferred = tr_transferred t, res_transferredBytes = Some (tr_bytes t),
                                res_scanned = n, res_cancelled = tr_cancelled t,
                                res_rejected = Some (tr_rejected t) \<rparr>, w2)))"

definition syncEntriesFromStoreImpl ::
  "sync_env \<Rightarrow> 's store_ops \<Rightarrow> 't store_ops \<Rightarrow> sync_options \<Rightarrow> ('s, 't) sync_world \<Rightarrow> ('s, 't) sync_outcome option" where
  "syncEntriesFromStoreImpl env sops tops opts w =
     (case op_scanEntriesSince sops of
        Some scan \<Rightarrow> sync_by_scan env sops tops scan opts w
      | None \<Rightarrow> sync_by_diff env sops tops opts w)"

section \<open>Dense sync\<close>

text \<open>
  The ids that dense sync needs: the lifecycle entries, the snapshot of every plan and the entries
  to apply on top of it.
\<close>

definition needed_ids ::
  "store_entry_metadata list \<Rightarrow> store_entry_metadata list \<Rightarrow> store_entry_metadata list \<Rightarrow> document_plan list \<Rightarrow> string jsset" where
  "needed_ids creates deletes undeletes plans =
     (let lifecycle = fold (\<lambda>m. set_add (entry_id m)) (creates @ deletes @ undeletes) []
      in fold (\<lambda>plan acc. fold set_add (entryIdsToApply plan)
                 (case snapshotEntryId plan of
                    Some i \<Rightarrow> if i \<noteq> '''' then set_add i acc else acc
                  | None \<Rightarrow> acc)) plans lifecycle)"

text \<open>\<^verbatim>\<open>if (receipts.length > 0 && sourceStore.applyWitnessReceipts) await \<dots>\<close>\<close>

definition persist_receipts ::
  "'s store_ops \<Rightarrow> store_entry_metadata list \<Rightarrow> ('s, 't) sync_world \<Rightarrow> bool \<times> ('s, 't) sync_world" where
  "persist_receipts sops receipts w =
     (case op_applyWitnessReceipts sops of
        Some f \<Rightarrow> if receipts \<noteq> [] then (case f (w_source w) receipts of
                    (ok, s') \<Rightarrow> (ok, tick (w\<lparr> w_source := s' \<rparr>))) else (True, w)
      | None \<Rightarrow> (True, w))"

partial_function (option) dense_transfer ::
  "sync_env \<Rightarrow> 's store_ops \<Rightarrow> 't store_ops \<Rightarrow> nat \<Rightarrow> string list \<Rightarrow> int \<Rightarrow> int \<Rightarrow> int \<Rightarrow> rejected_put_entry list \<Rightarrow>
   ('s, 't) sync_world \<Rightarrow> ('s, 't) sync_outcome option" where
  "dense_transfer env sops tops pageSize ids scanned transferred bytes rejected w =
     (let result = (\<lambda>cancelled. \<lparr> res_transferred = transferred, res_transferredBytes = Some bytes,
                       res_scanned = scanned, res_cancelled = cancelled, res_rejected = Some rejected \<rparr>)
      in if ids = [] then Some (Inr (result False), w)
         else if aborted env (w_clock w) then Some (Inr (result True), w)
         else case op_getEntries sops (w_source w) (take pageSize ids) of
           None \<Rightarrow> Some (Inl GetFailed, tick w)
         | Some es \<Rightarrow>
             (case op_putEntries tops (w_target w) es of
                (None, t') \<Rightarrow> Some (Inl PutFailed, tick (tick (w\<lparr> w_target := t' \<rparr>)))
              | (Some r, t') \<Rightarrow>
                  let (receipts, batchRejected) = normalizePutResult r;
                      w1 = tick (tick (w\<lparr> w_target := t' \<rparr>));
                      (ok, w2) = persist_receipts sops receipts w1
                  in if \<not> ok then Some (Inl ReceiptsFailed, w2)
                     else dense_transfer env sops tops pageSize (drop pageSize ids) scanned
                            (transferred + (int (length es) - int (length batchRejected)))
                            (bytes + batch_bytes es batchRejected) (rejected @ batchRejected) w2))"

text \<open>The second half of dense sync: filter the needed ids and transfer the missing ones.\<close>

definition dense_needed ::
  "sync_env \<Rightarrow> 's store_ops \<Rightarrow> 't store_ops \<Rightarrow> sync_options \<Rightarrow> string list \<Rightarrow> ('s, 't) sync_world \<Rightarrow> ('s, 't) sync_outcome option" where
  "dense_needed env sops tops opts needed w =
     (let n = int (length needed); w1 = tick (tick w)
      in if aborted env (w_clock w) then Some (Inr (plain_result n True), w)
         else case filterMissingIds tops (w_target w) needed (getStoreBloomSummary tops (w_target w)) of
           Inl e \<Rightarrow> Some (Inl e, w1)
         | Inr missingIds \<Rightarrow>
             if missingIds = [] then Some (Inr (plain_result n False), w1)
             else if aborted env (w_clock w1) then Some (Inr (plain_result n True), w1)
             else dense_transfer env sops tops (nat (option_or (o_pageSize opts) 500)) missingIds n 0 0 [] w1)"

definition syncEntriesFromStoreDense ::
  "sync_env \<Rightarrow> 's store_ops \<Rightarrow> 't store_ops \<Rightarrow> sync_options \<Rightarrow> ('s, 't) sync_world \<Rightarrow> ('s, 't) sync_outcome option" where
  "syncEntriesFromStoreDense env sops tops opts w =
     (if aborted env (w_clock w) then Some (Inr (plain_result 0 True), w)
      else case (op_findEntries sops (w_source w) doc_create None None,
                 op_findEntries sops (w_source w) doc_delete None None,
                 op_findEntries sops (w_source w) doc_undelete None None) of
        (Some creates, Some deletes, Some undeletes) \<Rightarrow>
          let w1 = tick (tick (tick w)); docIds = js_dedup (map docId creates)
          in if docIds = [] then Some (Inr (plain_result 0 False), w1)
             else if aborted env (w_clock w1) then Some (Inr (plain_result 0 True), w1)
             else (case op_planBatch sops (w_source w) docIds of
                None \<Rightarrow> Some (Inl PlanFailed, tick w1)
              | Some plans \<Rightarrow>
                  dense_needed env sops tops opts (needed_ids creates deletes undeletes plans) (tick w1))
      | _ \<Rightarrow> Some (Inl FindFailed, tick w))"

section \<open>The entry point\<close>

definition syncEntriesFromStore ::
  "sync_env \<Rightarrow> 's store_ops \<Rightarrow> 't store_ops \<Rightarrow> sync_options \<Rightarrow> ('s, 't) sync_world \<Rightarrow> ('s, 't) sync_outcome option" where
  "syncEntriesFromStore env sops tops opts w =
     Option.bind (if o_mode opts = Some mode_dense then syncEntriesFromStoreDense env sops tops opts w
                  else syncEntriesFromStoreImpl env sops tops opts w)
       (\<lambda>(r, w'). case r of
          Inl e \<Rightarrow> if aborted env (w_clock w') then Some (Inr (plain_result 0 True), w') else Some (Inl e, w')
        | Inr res \<Rightarrow> Some (Inr res, w'))"

section \<open>What a page covers\<close>

definition up_to :: "int \<Rightarrow> position set \<Rightarrow> position set" where
  "up_to b P = {p \<in> P. fst p \<le> b}"

lemma not_after_cursor:
  "\<not> after_position c q \<Longrightarrow> \<exists>k. c = Some k \<and> fst q \<le> cursor_receiptOrder k"
  by (auto simp: after_position_def split: option.splits)

lemma clamp_page_some:
  assumes "clamp_page (Some b) es = (pe, reached)"
  shows "pe = filter (\<lambda>m. receipt_order_of m \<le> b) es"
    and "reached \<longleftrightarrow> (\<exists>m \<in> set es. b < receipt_order_of m)"
proof -
  have "length (filter (\<lambda>m. receipt_order_of m \<le> b) es) < length es \<longleftrightarrow> (\<exists>m \<in> set es. b < receipt_order_of m)"
    by (metis filter_id_conv length_filter_less less_irrefl not_le)
  moreover have "\<not> (\<exists>m \<in> set es. b < receipt_order_of m) \<Longrightarrow> filter (\<lambda>m. receipt_order_of m \<le> b) es = es"
    by (auto simp: filter_id_conv not_less)
  ultimately show "pe = filter (\<lambda>m. receipt_order_of m \<le> b) es"
    and "reached \<longleftrightarrow> (\<exists>m \<in> set es. b < receipt_order_of m)"
    using assms by (auto simp: clamp_page_def Let_def split: if_splits)
qed

text \<open>The last entry of a page: its order is the highest, and it is not after its own cursor.\<close>

lemma sorted_last_order:
  "sorted (map receipt_order_of es) \<Longrightarrow> m \<in> set es \<Longrightarrow> receipt_order_of m \<le> receipt_order_of (last es)"
  by (induction es) (auto simp: last_in_set)

lemma after_own_cursor [simp]: "\<not> after_cursor (Some (cursor_of m)) m"
  by (simp add: after_cursor_def isAfterScanCursor_def cursor_of_def)

lemma page_complete:
  assumes page: "page_ok P c page" and clamp: "clamp_page (Some b) (scan_entries page) = (pe, reached)"
    and q: "q \<in> P" "fst q \<le> b" "after_position c q" and stop: "reached \<or> \<not> scan_hasMore page"
  shows "q \<in> position_of ` set pe"
proof -
  have "q \<in> position_of ` set (scan_entries page)"
  proof (rule ccontr)
    assume "q \<notin> position_of ` set (scan_entries page)"
    then have more: "scan_hasMore page" "after_position (scan_nextCursor page) q"
      using page q unfolding page_ok_def by blast+
    then obtain m where m: "m \<in> set (scan_entries page)" "b < receipt_order_of m"
      using stop clamp_page_some(2) [OF clamp] by auto
    then have "b < receipt_order_of (last (scan_entries page))"
      using sorted_last_order [of "scan_entries page" m] page by (force simp: page_ok_def)
    moreover have "scan_nextCursor page = Some (cursor_of (last (scan_entries page)))"
      using page m by (auto simp: page_ok_def next_cursor_def)
    ultimately show False using more q(2) by (auto simp: after_position_def cursor_of_def)
  qed
  then show ?thesis using q(2) clamp_page_some(1) [OF clamp] by (auto simp: position_of_def)
qed

text \<open>
  The cursor after a page. Every position up to its order was up to the old cursor or is on the
  page; here the receipt orders must tell the entries apart.
\<close>

lemma page_advance:
  assumes page: "page_ok P c page" and inj: "inj_on fst P"
    and clamp: "clamp_page (Some b) (scan_entries page) = (pe, reached)"
    and k: "(if reached then next_cursor pe c else scan_nextCursor page) = Some k"
    and q: "q \<in> P" "fst q \<le> b" "fst q \<le> cursor_receiptOrder k"
  shows "q \<in> position_of ` set pe \<or> (\<exists>k'. c = Some k' \<and> fst q \<le> cursor_receiptOrder k')"
proof (cases "pe = []")
  case True
  then have "\<not> reached \<Longrightarrow> scan_entries page = []"
    using clamp_page_some [OF clamp] by (auto simp: filter_empty_conv not_le)
  then have "c = Some k" using k True page by (auto simp: page_ok_def next_cursor_def split: if_splits)
  then show ?thesis using q by blast
next
  case False
  have pe: "pe = filter (\<lambda>m. receipt_order_of m \<le> b) (scan_entries page)" by (rule clamp_page_some(1) [OF clamp])
  have "\<not> reached \<Longrightarrow> pe = scan_entries page"
    using clamp_page_some [OF clamp] by (auto simp: filter_id_conv not_less)
  then have kl: "k = cursor_of (last pe)"
    using k False page by (auto simp: page_ok_def next_cursor_def split: if_splits)
  show ?thesis
  proof (cases "after_position c q")
    case True
    have l: "last pe \<in> set (scan_entries page)" using last_in_set [OF False] pe by auto
    then have ne: "scan_entries page \<noteq> []" by auto
    have "q \<in> position_of ` set (scan_entries page)"
    proof (rule ccontr)
      assume "q \<notin> position_of ` set (scan_entries page)"
      then have "after_position (scan_nextCursor page) q"
        using page q True unfolding page_ok_def by blast
      then have aft: "after_position (Some (cursor_of (last (scan_entries page)))) q"
        using page ne by (simp add: page_ok_def next_cursor_def)
      moreover have "receipt_order_of (last pe) \<le> receipt_order_of (last (scan_entries page))"
        using sorted_last_order l page by (auto simp: page_ok_def)
      ultimately have "fst q = receipt_order_of (last (scan_entries page))"
        using q(3) kl by (auto simp: after_position_def cursor_of_def)
      moreover have "position_of (last (scan_entries page)) \<in> P"
        using page last_in_set [OF ne] unfolding page_ok_def by blast
      ultimately have "q = position_of (last (scan_entries page))"
        using inj q(1) by (auto simp: inj_on_def position_of_def)
      then show False using aft by simp
    qed
    then show ?thesis using q(2) pe by (auto simp: position_of_def)
  next
    case False
    then show ?thesis using not_after_cursor by blast
  qed
qed

lemma page_cursor_bound:
  assumes page: "page_ok P c page" and clamp: "clamp_page (Some b) (scan_entries page) = (pe, reached)"
    and k: "(if reached then next_cursor pe c else scan_nextCursor page) = Some k"
    and c: "\<And>k'. c = Some k' \<Longrightarrow> cursor_receiptOrder k' \<le> b"
  shows "cursor_receiptOrder k \<le> b"
proof (cases "pe = []")
  case True
  then have "\<not> reached \<Longrightarrow> scan_entries page = []"
    using clamp_page_some [OF clamp] by (auto simp: filter_empty_conv not_le)
  then show ?thesis using k True page c by (auto simp: page_ok_def next_cursor_def split: if_splits)
next
  case False
  have pe: "pe = filter (\<lambda>m. receipt_order_of m \<le> b) (scan_entries page)" by (rule clamp_page_some(1) [OF clamp])
  have "\<not> reached \<Longrightarrow> pe = scan_entries page"
    using clamp_page_some [OF clamp] by (auto simp: filter_id_conv not_less)
  then have "k = cursor_of (last pe)"
    using k False page by (auto simp: page_ok_def next_cursor_def split: if_splits)
  then show ?thesis using last_in_set [OF False] pe by (simp add: cursor_of_def)
qed

text \<open>A page with more to come moves the cursor forward.\<close>

lemma page_progress:
  assumes page: "page_ok P c page" and more: "scan_hasMore page"
    and sub: "position_of ` set (scan_entries page) \<subseteq> Q" and fin: "finite Q"
  shows "card {q \<in> Q. after_position (scan_nextCursor page) q} < card {q \<in> Q. after_position c q}"
proof (rule psubset_card_mono)
  have ne: "scan_entries page \<noteq> []" using page more by (simp add: page_ok_def)
  define l where "l = last (scan_entries page)"
  have l: "position_of l \<in> Q" "after_position c (position_of l)"
    using page sub last_in_set [OF ne] unfolding l_def page_ok_def by blast+
  have nxt: "scan_nextCursor page = Some (cursor_of l)" using page ne by (simp add: page_ok_def next_cursor_def l_def)
  have "after_position c q" if "after_position (Some (cursor_of l)) q" for q
    using that l(2) by (auto simp: after_position_def cursor_of_def position_of_def split: option.splits)
  moreover have "\<not> after_position (Some (cursor_of l)) (position_of l)" by simp
  ultimately show "{q \<in> Q. after_position (scan_nextCursor page) q} \<subset> {q \<in> Q. after_position c q}"
    using l unfolding nxt by blast
qed (use fin in simp)

section \<open>The invariant of the loop\<close>

context sync_pair begin

text \<open>
  \<open>cursor_ok b R c w\<close>: a cursor within the bound, and every source entry up to its receipt
  order is at the target or in \<open>R\<close>, the ids the target rejected.
\<close>

definition cursor_ok :: "int \<Rightarrow> string set \<Rightarrow> store_scan_cursor option \<Rightarrow> ('s, 't) sync_world \<Rightarrow> bool" where
  "cursor_ok b R c w \<longleftrightarrow>
     (\<forall>k. c = Some k \<longrightarrow> cursor_receiptOrder k \<le> b \<and>
        (\<forall>p \<in> positions (w_source w). fst p \<le> cursor_receiptOrder k \<longrightarrow> snd p \<in> stored (w_target w) \<union> R))"

text \<open>A set of positions read before parts of the source were re-anchored is still good for paging.\<close>

definition view_ok :: "('s, 't) sync_world \<Rightarrow> ('s, 't) sync_world \<Rightarrow> position set \<Rightarrow> bool" where
  "view_ok w0 w P \<longleftrightarrow>
     inj_on fst P \<and> up_to (top_order (w_source w0)) (positions (w_source w)) \<subseteq> P \<and>
     up_to (top_order (w_source w0)) P \<subseteq> positions (w_source w0) \<and> snd ` P \<subseteq> snd ` positions (w_source w0)"

lemma evolves_up_to:
  assumes "evolves w w'" and "b \<le> top_order (w_source w)"
  shows "up_to b (positions (w_source w')) \<subseteq> up_to b (positions (w_source w))"
  using assms by (force simp: evolves_def reanchored_def up_to_def)

lemma view_current:
  assumes "evolves w0 w"
  shows "view_ok w0 w (positions (w_source w))"
  using assms evolves_up_to [OF assms order_refl] evolves_ids [OF assms] positions_order [of "w_source w"]
  by (auto simp: view_ok_def evolves_def stores_ok_def up_to_def)

lemma view_evolves:
  assumes "view_ok w0 w P" and "evolves w0 w" and "evolves w w'"
  shows "view_ok w0 w' P"
  using assms evolves_up_to [OF assms(3), of "top_order (w_source w0)"]
  by (auto simp: view_ok_def evolves_def)

lemma cursor_ok_evolves:
  assumes "cursor_ok b R c w" and "evolves w w'" and "b \<le> top_order (w_source w)" and "R \<subseteq> R'"
  shows "cursor_ok b R' c w'"
proof -
  have "snd p \<in> stored (w_target w') \<union> R'"
    if k: "c = Some k" and p: "p \<in> positions (w_source w')" "fst p \<le> cursor_receiptOrder k" for k p
  proof -
    have "cursor_receiptOrder k \<le> b" using assms(1) k by (simp add: cursor_ok_def)
    then have "p \<in> positions (w_source w)" using p evolves_up_to [OF assms(2,3)] by (auto simp: up_to_def)
    then have "snd p \<in> stored (w_target w) \<union> R" using assms(1) k p(2) by (simp add: cursor_ok_def)
    then show ?thesis using assms(2,4) by (auto simp: evolves_def)
  qed
  then show ?thesis using assms(1) by (simp add: cursor_ok_def)
qed

definition core_ok :: "('s, 't) sync_world \<Rightarrow> string set \<Rightarrow> scan_loop \<Rightarrow> ('s, 't) sync_world \<Rightarrow> bool" where
  "core_ok w0 R ls w \<longleftrightarrow>
     evolves w0 w \<and>
     cursor_ok (top_order (w_source w0)) (R \<union> rejected_id ` set (ls_rejected ls)) (ls_cursor ls) w \<and>
     set (ls_transferredThisSync ls) \<subseteq> stored (w_target w) \<union> R \<union> rejected_id ` set (ls_rejected ls)"

definition loop_ok :: "('s, 't) sync_world \<Rightarrow> string set \<Rightarrow> scan_loop \<Rightarrow> ('s, 't) sync_world \<Rightarrow> bool" where
  "loop_ok w0 R ls w \<longleftrightarrow>
     core_ok w0 R ls w \<and>
     (\<forall>page. ls_nextPage ls = Some (Some page) \<longrightarrow> (\<exists>P. view_ok w0 w P \<and> page_ok P (ls_cursor ls) page))"

text \<open>How a loop ends: with an error and the cursor map untouched, or by persisting a good cursor.\<close>

definition final_ok :: "('s, 't) sync_world \<Rightarrow> string set \<Rightarrow> scan_setup \<Rightarrow> ('s, 't) sync_outcome \<Rightarrow> bool" where
  "final_ok w0 R su out \<longleftrightarrow>
     (case out of
        (Inl e, w') \<Rightarrow> evolves w0 w'
      | (Inr res, w') \<Rightarrow>
          \<exists>(ls :: scan_loop) w. evolves w0 w \<and> res_rejected res = Some (ls_rejected ls) \<and> w' = persistScanCursor su (ls_cursor ls) w \<and>
            cursor_ok (top_order (w_source w0)) (R \<union> rejected_id ` set (ls_rejected ls)) (ls_cursor ls) w \<and>
            (res_cancelled res \<or>
              snd ` positions (w_source w0) \<subseteq> stored (w_target w) \<union> R \<union> rejected_id ` set (ls_rejected ls)))"

lemma finish_ok:
  assumes "evolves w0 w"
    and "cursor_ok (top_order (w_source w0)) (R \<union> rejected_id ` set (ls_rejected ls)) (ls_cursor ls) w"
    and "cancelled \<or> snd ` positions (w_source w0) \<subseteq> stored (w_target w) \<union> R \<union> rejected_id ` set (ls_rejected ls)"
  shows "final_ok w0 R su (Inr (loop_result cancelled ls), persistScanCursor su (ls_cursor ls) w)"
  unfolding final_ok_def prod.case sum.case
  by (rule exI [of _ ls], rule exI [of _ w]) (use assms in \<open>simp add: loop_result_def\<close>)

lemma core_ok_evolves:
  assumes "core_ok w0 R ls w" and "evolves w w'"
  shows "core_ok w0 R ls w'"
proof -
  have ev: "evolves w0 w" using assms(1) by (simp add: core_ok_def)
  then have "top_order (w_source w0) \<le> top_order (w_source w)" by (simp add: evolves_def)
  then have "cursor_ok (top_order (w_source w0)) (R \<union> rejected_id ` set (ls_rejected ls)) (ls_cursor ls) w'"
    using assms(1) cursor_ok_evolves [OF _ assms(2) _ order_refl] by (simp add: core_ok_def)
  moreover have "stored (w_target w) \<subseteq> stored (w_target w')" using assms(2) by (simp add: evolves_def)
  ultimately show ?thesis using assms(1) evolves_trans [OF ev assms(2)] by (auto simp: core_ok_def)
qed

lemma core_cancelled: "core_ok w0 R ls w \<Longrightarrow> finish_scan su True ls w = Finished out \<Longrightarrow> final_ok w0 R su out"
  using finish_ok [of w0 w R ls True su] by (auto simp: core_ok_def finish_scan_def)

lemma evolves_scan:
  assumes "stores_ok w" and "op_scanEntriesSince sops = Some scan" and "scan (w_source w) c n = (r, s')"
  shows "evolves w (w\<lparr> w_source := s' \<rparr>)"
  using assms scan_state [OF assms(2) _ assms(3)] by (simp add: evolves_def stores_ok_def)

lemma fetch_page_ok:
  assumes scan: "op_scanEntriesSince sops = Some scan" and n: "0 < n" and ok: "loop_ok w0 R ls w"
    and fetch: "fetch_page scan n ls w = (r, w1)"
  shows "evolves w w1"
    and "r = Some (page, pf) \<Longrightarrow> \<exists>P. view_ok w0 w1 P \<and> page_ok P (ls_cursor ls) page"
    and "r = Some (page, Some (Some pg)) \<Longrightarrow> \<exists>P. view_ok w0 w1 P \<and> page_ok P (scan_nextCursor page) pg"
proof -
  have ev: "evolves w0 w" and okw: "stores_ok w" using ok by (simp_all add: loop_ok_def core_ok_def evolves_def)
  obtain x s1 where x: "(case ls_nextPage ls of Some r \<Rightarrow> (r, w_source w)
      | None \<Rightarrow> scan (w_source w) (ls_cursor ls) n) = (x, s1)" by (rule prod.exhaust)
  define u where "u = tick (w\<lparr> w_source := s1 \<rparr>)"
  have evu: "evolves w u"
    using x evolves_scan [OF okw scan, of "ls_cursor ls" n] evolves_refl [OF okw]
    by (auto simp: u_def intro!: evolves_tick split: option.splits)
  have u0: "evolves w0 u" and oku: "stores_ok u" and us: "w_source u = s1" and s1: "sinv s1"
    using evolves_trans [OF ev evu] evu by (simp_all add: evolves_def stores_ok_def u_def tick_def)
  have page_x: "\<exists>P. view_ok w0 u P \<and> page_ok P (ls_cursor ls) page" if "x = Some page" for page
  proof (cases "ls_nextPage ls")
    case None
    then have "page_ok (positions (w_source w)) (ls_cursor ls) page"
      using x that scan_page [OF scan _ n] okw by (simp add: stores_ok_def)
    then show ?thesis using view_evolves [OF view_current [OF ev] ev evu] by blast
  next
    case (Some y)
    then show ?thesis using x that ok view_evolves [OF _ ev evu] by (auto simp: loop_ok_def)
  qed
  obtain r2 s2 where r2: "scan s1 (scan_nextCursor (the x)) n = (r2, s2)" by (rule prod.exhaust)
  have evs: "evolves u (u\<lparr> w_source := s2 \<rparr>)"
    using evolves_scan [OF oku scan] r2 us by simp
  have page_r2: "page_ok (positions s1) (scan_nextCursor page) pg" if "x = Some page" "r2 = Some pg" for page pg
    using scan_page [OF scan s1 n] r2 that by simp
  have w1: "w1 = u \<or> w1 = u\<lparr> w_source := s2 \<rparr>"
    and r: "r = Some (page, pf) \<Longrightarrow> x = Some page \<and> (pf = None \<or> pf = Some r2)" for page pf
    using fetch x r2 by (auto simp: fetch_page_def u_def Let_def split: option.splits if_splits)
  show evw: "evolves w w1" using w1 evu evolves_trans [OF evu evs] by auto
  have view: "view_ok w0 w1 P" if "view_ok w0 u P" for P
    using w1 that view_evolves [OF that u0 evs] by auto
  show "\<exists>P. view_ok w0 w1 P \<and> page_ok P (ls_cursor ls) page" if "r = Some (page, pf)"
    using r [OF that] page_x view by blast
  show "\<exists>P. view_ok w0 w1 P \<and> page_ok P (scan_nextCursor page) pg" if "r = Some (page, Some (Some pg))"
    using r [OF that] page_r2 [of page pg] view [OF view_current [OF u0, unfolded us]] by blast
qed

text \<open>
  A page whose transfer goes through: every id of it is at the target, or was rejected now or earlier.
\<close>

definition page_transferred ::
  "('s, 't) sync_world \<Rightarrow> string set \<Rightarrow> string list \<Rightarrow> scan_loop \<Rightarrow> ('s, 't) sync_world \<Rightarrow> scan_loop \<Rightarrow> ('s, 't) sync_world \<Rightarrow> bool" where
  "page_transferred w0 R ids ls w ls' w' \<longleftrightarrow>
     core_ok w0 R ls' w' \<and> evolves w w' \<and> ls_cursor ls' = ls_cursor ls \<and> ls_nextPage ls' = ls_nextPage ls \<and>
     set ids \<subseteq> stored (w_target w') \<union> R \<union> rejected_id ` set (ls_rejected ls')"

definition transfer_outcome ::
  "('s, 't) sync_world \<Rightarrow> string set \<Rightarrow> scan_setup \<Rightarrow> string list \<Rightarrow> scan_loop \<Rightarrow> ('s, 't) sync_world \<Rightarrow>
   (('s, 't) page_outcome + scan_loop \<times> ('s, 't) sync_world) option \<Rightarrow> bool" where
  "transfer_outcome w0 R su ids ls w r \<longleftrightarrow>
     (case r of
        None \<Rightarrow> False
      | Some (Inl (Finished out)) \<Rightarrow> final_ok w0 R su out
      | Some (Inl (Continue ls' w')) \<Rightarrow> False
      | Some (Inr (ls', w')) \<Rightarrow> page_transferred w0 R ids ls w ls' w')"

lemma core_ok_rejected:
  assumes "core_ok w0 R ls w"
  shows "core_ok w0 R (ls\<lparr> ls_transferred := a, ls_bytes := b, ls_rejected := ls_rejected ls @ rs \<rparr>) w"
proof -
  have mono: "cursor_ok b R1 c w \<Longrightarrow> R1 \<subseteq> R2 \<Longrightarrow> cursor_ok b R2 c w" for b R1 R2 c
    unfolding cursor_ok_def by blast
  have "cursor_ok (top_order (w_source w0)) (R \<union> rejected_id ` set (ls_rejected ls @ rs)) (ls_cursor ls) w"
    by (rule mono [of _ "R \<union> rejected_id ` set (ls_rejected ls)"]) (use assms in \<open>auto simp: core_ok_def\<close>)
  then show ?thesis using assms by (auto simp: core_ok_def)
qed

lemma transfer_missing_ok:
  assumes core: "core_ok w0 R ls w" and bs: "0 < resolveTransferBatchSize opts"
    and ids: "set ids \<subseteq> snd ` positions (w_source w0)"
    and miss: "set missing \<subseteq> set ids"
      "set ids \<subseteq> set missing \<union> stored (w_target w) \<union> set (ls_transferredThisSync ls)"
  shows "transfer_outcome w0 R su ids ls w (transfer_missing env sops tops opts su missing ls w)"
proof -
  have okw: "stores_ok w" and src: "snd ` positions (w_source w) = snd ` positions (w_source w0)"
    using core evolves_ids by (simp_all add: core_ok_def evolves_def)
  obtain r w' where r: "transferEntriesInBatches env sops tops missing opts (ls_transferred ls) (ls_bytes ls) w = Some (r, w')"
    and ev: "evolves w w'"
    and arr: "\<And>t. r = Inr t \<Longrightarrow> \<not> tr_cancelled t \<Longrightarrow>
      set missing \<inter> snd ` positions (w_source w) \<subseteq> stored (w_target w') \<union> rejected_id ` set (tr_rejected t)"
    by (rule transfer_returns [OF okw bs, of env missing "ls_transferred ls" "ls_bytes ls"]) blast
  have core': "core_ok w0 R ls w'" by (rule core_ok_evolves [OF core ev])
  show ?thesis
  proof (cases r)
    case (Inl e)
    then show ?thesis using r core' by (simp add: transfer_missing_def transfer_outcome_def final_ok_def core_ok_def)
  next
    case (Inr t)
    let ?ls = "ls\<lparr> ls_transferred := tr_transferred t, ls_bytes := tr_bytes t, ls_rejected := ls_rejected ls @ tr_rejected t \<rparr>"
    have c: "core_ok w0 R ?ls w'" by (rule core_ok_rejected [OF core'])
    show ?thesis
    proof (cases "tr_cancelled t")
      case True
      then show ?thesis using r Inr core_cancelled [OF c]
        by (simp add: transfer_missing_def transfer_outcome_def finish_scan_def Let_def)
    next
      case False
      have new: "set missing \<subseteq> stored (w_target w') \<union> rejected_id ` set (tr_rejected t)"
        using arr [OF Inr False] subset_trans [OF miss(1) ids] unfolding src by (simp add: Int_absorb2)
      have "stored (w_target w) \<subseteq> stored (w_target w')" using ev by (simp add: evolves_def)
      moreover have "set (ls_transferredThisSync ls) \<subseteq> stored (w_target w') \<union> R \<union> rejected_id ` set (ls_rejected ls)"
        using core' by (simp add: core_ok_def)
      ultimately have "set ids \<subseteq> stored (w_target w') \<union> R \<union> rejected_id ` set (ls_rejected ?ls)"
        using miss(2) new by (simp add: image_Un) blast
      then show ?thesis using r Inr False c new ev
        by (auto simp: transfer_missing_def transfer_outcome_def Let_def page_transferred_def core_ok_def fold_set_add image_Un)
    qed
  qed
qed

lemma transfer_page_ok:
  assumes core: "core_ok w0 R ls w" and bs: "0 < resolveTransferBatchSize opts"
    and ids: "entry_id ` set es \<subseteq> snd ` positions (w_source w0)"
  shows "transfer_outcome w0 R su (map entry_id es) ls w (transfer_page env sops tops opts su es ls w)"
proof -
  define cand where "cand = filter (\<lambda>i. i \<notin> set (ls_transferredThisSync ls)) (map entry_id es)"
  define f where "f = (if cand \<noteq> [] then filterMissingIds tops (w_target w) cand (su_targetBloom su) else Inr [])"
  define w1 where "w1 = (if cand \<noteq> [] then tick w else w)"
  note tp = transfer_page_def [of env sops tops opts su es ls w, unfolded Let_def, folded cand_def, folded f_def w1_def]
  have okw: "stores_ok w" using core by (simp add: core_ok_def evolves_def)
  have evt: "evolves w (tick w)" using evolves_tick [OF evolves_refl [OF okw]] .
  then have ev1: "evolves w w1" using evolves_refl [OF okw] by (simp add: w1_def)
  have core1: "core_ok w0 R ls w1" by (rule core_ok_evolves [OF core ev1])
  have t1: "w_target w1 = w_target w" by (simp add: w1_def tick_def)
  show ?thesis
  proof (cases f)
    case (Inl e)
    then show ?thesis
      using core evolves_trans [OF _ evt] by (simp add: tp transfer_outcome_def final_ok_def core_ok_def)
  next
    case (Inr missing)
    have "set missing \<subseteq> set cand \<and> set cand \<subseteq> set missing \<union> stored (w_target w1)"
      using Inr filterMissing_sound [of "w_target w"] okw t1
      by (auto simp: f_def stores_ok_def split: if_splits)
    then have miss: "set missing \<subseteq> set (map entry_id es)"
      "set (map entry_id es) \<subseteq> set missing \<union> stored (w_target w1) \<union> set (ls_transferredThisSync ls)"
      by (auto simp: cand_def)
    have ids': "set (map entry_id es) \<subseteq> snd ` positions (w_source w0)" using ids by simp
    have tm: "transfer_outcome w0 R su (map entry_id es) ls w (transfer_missing env sops tops opts su missing ls w1)"
      using transfer_missing_ok [OF core1 bs ids' miss, of su env] evolves_trans [OF ev1]
      by (auto simp: transfer_outcome_def page_transferred_def split: option.splits sum.splits page_outcome.splits)
    show ?thesis
      using Inr core_cancelled [OF core1] core1 ev1 miss(2) tm
      by (auto simp: tp transfer_outcome_def finish_scan_def page_transferred_def core_ok_def)
  qed
qed

lemma page_transferredD:
  assumes "page_transferred w0 R ids ls w ls' w'"
  shows "cursor_ok (top_order (w_source w0)) (R \<union> rejected_id ` set (ls_rejected ls')) (ls_cursor ls) w'"
    and "set ids \<subseteq> stored (w_target w') \<union> R \<union> rejected_id ` set (ls_rejected ls')" and "evolves w w'"
  using assms unfolding page_transferred_def core_ok_def by metis+

text \<open>After a transferred page, the cursor at its end is good again; at the last page all has arrived.\<close>

lemma advance_cursor_ok:
  assumes ev: "evolves w0 w" and view: "view_ok w0 w P" and page: "page_ok P (ls_cursor ls) page"
    and clamp: "clamp_page (Some (top_order (w_source w0))) (scan_entries page) = (pe, reached)"
    and tr: "page_transferred w0 R (map entry_id pe) ls w ls' w'"
  shows "cursor_ok (top_order (w_source w0)) (R \<union> rejected_id ` set (ls_rejected ls'))
    (if reached then next_cursor pe (ls_cursor ls) else scan_nextCursor page) w'"
  unfolding cursor_ok_def
proof (intro allI impI conjI ballI)
  let ?b = "top_order (w_source w0)"
  have cur: "cursor_ok ?b (R \<union> rejected_id ` set (ls_rejected ls')) (ls_cursor ls) w'"
    and arr: "entry_id ` set pe \<subseteq> stored (w_target w') \<union> R \<union> rejected_id ` set (ls_rejected ls')"
    and ev': "evolves w w'" using page_transferredD [OF tr] by simp_all
  have view': "view_ok w0 w' P" by (rule view_evolves [OF view ev ev'])
  fix k assume k: "(if reached then next_cursor pe (ls_cursor ls) else scan_nextCursor page) = Some k"
  show kb: "cursor_receiptOrder k \<le> ?b"
    using cur by (intro page_cursor_bound [OF page clamp k]) (simp add: cursor_ok_def)
  fix p assume p: "p \<in> positions (w_source w')" "fst p \<le> cursor_receiptOrder k"
  then have "p \<in> P" "fst p \<le> ?b" using kb view' by (auto simp: view_ok_def up_to_def)
  with page_advance [OF page _ clamp k this p(2)] view'
  consider "p \<in> position_of ` set pe" | k' where "ls_cursor ls = Some k'" "fst p \<le> cursor_receiptOrder k'"
    by (auto simp: view_ok_def)
  then show "snd p \<in> stored (w_target w') \<union> (R \<union> rejected_id ` set (ls_rejected ls'))"
  proof cases
    case 1
    then show ?thesis using arr by (auto simp: position_of_def)
  next
    case 2
    then show ?thesis using cur p(1) by (simp add: cursor_ok_def)
  qed
qed

lemma last_page_complete:
  assumes ok0: "stores_ok w0" and ev: "evolves w0 w" and view: "view_ok w0 w P" and page: "page_ok P (ls_cursor ls) page"
    and clamp: "clamp_page (Some (top_order (w_source w0))) (scan_entries page) = (pe, reached)"
    and tr: "page_transferred w0 R (map entry_id pe) ls w ls' w'" and stop: "reached \<or> \<not> scan_hasMore page"
  shows "snd ` positions (w_source w0) \<subseteq> stored (w_target w') \<union> R \<union> rejected_id ` set (ls_rejected ls')"
proof (rule image_subsetI)
  fix p assume p: "p \<in> positions (w_source w0)"
  have cur: "cursor_ok (top_order (w_source w0)) (R \<union> rejected_id ` set (ls_rejected ls')) (ls_cursor ls) w'"
    and arr: "entry_id ` set pe \<subseteq> stored (w_target w') \<union> R \<union> rejected_id ` set (ls_rejected ls')"
    and ev': "evolves w w'" using page_transferredD [OF tr] by simp_all
  have ev0: "evolves w0 w'" by (rule evolves_trans [OF ev ev'])
  have top: "fst p \<le> top_order (w_source w0)"
    using ok0 p positions_top by (simp add: stores_ok_def)
  consider (lost) "snd p \<in> stored (w_target w')" | (kept) "p \<in> positions (w_source w')"
    using ev0 p by (auto simp: evolves_def reanchored_def)
  then show "snd p \<in> stored (w_target w') \<union> R \<union> rejected_id ` set (ls_rejected ls')"
  proof cases
    case kept
    then have "p \<in> P"
      using top view_evolves [OF view ev ev'] by (auto simp: view_ok_def up_to_def)
    show ?thesis
    proof (cases "after_position (ls_cursor ls) p")
      case True
      then have "p \<in> position_of ` set pe" using page_complete [OF page clamp \<open>p \<in> P\<close> top _ stop] by blast
      then show ?thesis using arr by (auto simp: position_of_def)
    next
      case False
      then show ?thesis using cur kept not_after_cursor [OF False] by (auto simp: cursor_ok_def)
    qed
  qed simp
qed

definition page_outcome_ok ::
  "('s, 't) sync_world \<Rightarrow> string set \<Rightarrow> scan_setup \<Rightarrow> scan_loop \<Rightarrow> ('s, 't) page_outcome option \<Rightarrow> bool" where
  "page_outcome_ok w0 R su ls r \<longleftrightarrow>
     (case r of
        None \<Rightarrow> False
      | Some (Finished out) \<Rightarrow> final_ok w0 R su out
      | Some (Continue ls' w') \<Rightarrow> loop_ok w0 R ls' w' \<and>
          card {q \<in> positions (w_source w0). after_position (ls_cursor ls') q} <
          card {q \<in> positions (w_source w0). after_position (ls_cursor ls) q})"

lemma end_page_ok:
  assumes ok0: "stores_ok w0" and ev: "evolves w0 w" and view: "view_ok w0 w P" and page: "page_ok P (ls_cursor ls) page"
    and clamp: "clamp_page (Some (top_order (w_source w0))) (scan_entries page) = (pe, reached)"
    and tr: "page_transferred w0 R (map entry_id pe) ls w ls2 w2"
    and pf: "\<And>pg. prefetch = Some (Some pg) \<Longrightarrow> \<exists>P. view_ok w0 w P \<and> page_ok P (scan_nextCursor page) pg"
  shows "page_outcome_ok w0 R su ls (Some (end_page su page prefetch pe reached ls2 w2))"
proof -
  note cur = advance_cursor_ok [OF ev view page clamp tr]
  note all = last_page_complete [OF ok0 ev view page clamp tr]
  have ev': "evolves w w2" and core2: "core_ok w0 R ls2 w2" and same: "ls_cursor ls2 = ls_cursor ls"
    using tr by (simp_all add: page_transferred_def)
  have ev0: "evolves w0 w2" by (rule evolves_trans [OF ev ev'])
  show ?thesis
  proof (cases "reached \<or> \<not> scan_hasMore page")
    case True
    then show ?thesis
      using finish_ok [OF ev0, of R "ls2\<lparr> ls_cursor := next_cursor pe (ls_cursor ls2) \<rparr>" False su]
        finish_ok [OF ev0, of R "ls2\<lparr> ls_cursor := scan_nextCursor page, ls_nextPage := prefetch \<rparr>" False su]
        cur all same by (auto simp: page_outcome_ok_def finish_scan_def end_page_def Let_def)
  next
    case False
    have "position_of m \<in> up_to (top_order (w_source w0)) P" if "m \<in> set (scan_entries page)" for m
      using that page False clamp_page_some(2) [OF clamp]
      by (auto simp: page_ok_def up_to_def position_of_def not_less)
    then have "position_of ` set (scan_entries page) \<subseteq> positions (w_source w0)"
      using view by (auto simp: view_ok_def)
    from page_progress [OF page _ this] False ok0 positions_finite
    have less: "card {q \<in> positions (w_source w0). after_position (scan_nextCursor page) q} <
        card {q \<in> positions (w_source w0). after_position (ls_cursor ls) q}" by (simp add: stores_ok_def)
    have "\<exists>P. view_ok w0 w2 P \<and> page_ok P (scan_nextCursor page) pg" if "prefetch = Some (Some pg)" for pg
      using pf [OF that] view_evolves [OF _ ev ev'] by blast
    then have "loop_ok w0 R (ls2\<lparr> ls_cursor := scan_nextCursor page, ls_nextPage := prefetch \<rparr>) w2"
      using core2 cur False by (simp add: loop_ok_def core_ok_def)
    then show ?thesis using False less by (simp add: page_outcome_ok_def end_page_def Let_def)
  qed
qed

lemma process_page_ok:
  assumes bs: "0 < resolveTransferBatchSize opts" and ok0: "stores_ok w0" and core: "core_ok w0 R ls w"
    and head: "map_option head_maxReceiptOrder (su_sourceHead su) = Some (top_order (w_source w0))"
    and view: "view_ok w0 w P" and page: "page_ok P (ls_cursor ls) page"
    and pf: "\<And>pg. prefetch = Some (Some pg) \<Longrightarrow> \<exists>P. view_ok w0 w P \<and> page_ok P (scan_nextCursor page) pg"
  shows "page_outcome_ok w0 R su ls (process_page env sops tops opts su page prefetch ls w)"
proof -
  obtain pe reached where clamp: "clamp_page (Some (top_order (w_source w0))) (scan_entries page) = (pe, reached)"
    by (rule prod.exhaust)
  define ls1 where "ls1 = ls\<lparr> ls_scanned := ls_scanned ls + int (length pe) \<rparr>"
  have c1: "core_ok w0 R ls1 w" and cur1: "ls_cursor ls1 = ls_cursor ls" and ev: "evolves w0 w"
    using core by (simp_all add: ls1_def core_ok_def)
  define tp where "tp = (if pe \<noteq> [] then transfer_page env sops tops opts su pe ls1 w else Some (Inr (ls1, w)))"
  have "entry_id ` set pe \<subseteq> snd ` P"
    using page clamp_page_some(1) [OF clamp] by (force simp: page_ok_def position_of_def)
  moreover have "evolves w w" using ev by (intro evolves_refl) (simp add: evolves_def)
  ultimately have "transfer_outcome w0 R su (map entry_id pe) ls1 w tp"
    using transfer_page_ok [OF c1 bs, of pe su env] view c1
    by (auto simp: tp_def view_ok_def transfer_outcome_def page_transferred_def)
  then consider (stop) out where "tp = Some (Inl (Finished out))" "final_ok w0 R su out"
    | (go) ls2 w2 where "tp = Some (Inr (ls2, w2))" "page_transferred w0 R (map entry_id pe) ls1 w ls2 w2"
    by (auto simp: transfer_outcome_def split: option.splits sum.splits page_outcome.splits)
  then have "page_outcome_ok w0 R su ls (Option.bind tp (\<lambda>r. case r of Inl outcome \<Rightarrow> Some outcome
       | Inr (ls2, w2) \<Rightarrow> Some (end_page su page prefetch pe reached ls2 w2)))"
  proof cases
    case go
    from end_page_ok [OF ok0 ev view _ clamp go(2) pf, where su = su] page cur1
    have "page_outcome_ok w0 R su ls1 (Some (end_page su page prefetch pe reached ls2 w2))" by simp
    then show ?thesis using go(1) cur1 by (auto simp: page_outcome_ok_def split: page_outcome.splits)
  qed (simp add: page_outcome_ok_def)
  moreover have "process_page env sops tops opts su page prefetch ls w =
      (if aborted env (w_clock w) then Some (finish_scan su True ls1 w)
       else Option.bind tp (\<lambda>r. case r of Inl outcome \<Rightarrow> Some outcome
       | Inr (ls2, w2) \<Rightarrow> Some (end_page su page prefetch pe reached ls2 w2)))"
    by (simp add: process_page_def head clamp ls1_def tp_def Let_def)
  moreover have "page_outcome_ok w0 R su ls (Some (finish_scan su True ls1 w))"
    using core_cancelled [OF c1] by (simp add: page_outcome_ok_def finish_scan_def)
  ultimately show ?thesis by simp
qed

lemma sync_page_ok:
  assumes scan: "op_scanEntriesSince sops = Some scan" and n: "0 < option_or (o_pageSize opts) 1000"
    and bs: "0 < resolveTransferBatchSize opts" and ok0: "stores_ok w0" and ok: "loop_ok w0 R ls w"
    and head: "map_option head_maxReceiptOrder (su_sourceHead su) = Some (top_order (w_source w0))"
  shows "page_outcome_ok w0 R su ls (sync_page env sops tops scan opts su ls w)"
proof -
  obtain r w1 where fetch: "fetch_page scan (option_or (o_pageSize opts) 1000) ls w = (r, w1)" by (rule prod.exhaust)
  note f = fetch_page_ok [OF scan n ok fetch]
  have core: "core_ok w0 R ls w" using ok by (simp add: loop_ok_def)
  have core1: "core_ok w0 R ls w1" by (rule core_ok_evolves [OF core f(1)])
  have "page_outcome_ok w0 R su ls (process_page env sops tops opts su page pf ls w1)" if "r = Some (page, pf)" for page pf
    using f(2) [OF that] process_page_ok [OF bs ok0 core1 head] f(3) that by blast
  then show ?thesis
    using core_cancelled [OF core] core1
    by (auto simp: sync_page_def fetch page_outcome_ok_def finish_scan_def final_ok_def core_ok_def split: option.split)
qed

lemma sync_loop_ok:
  assumes scan: "op_scanEntriesSince sops = Some scan" and n: "0 < option_or (o_pageSize opts) 1000"
    and bs: "0 < resolveTransferBatchSize opts" and ok0: "stores_ok w0" and ok: "loop_ok w0 R ls w"
    and head: "map_option head_maxReceiptOrder (su_sourceHead su) = Some (top_order (w_source w0))"
  shows "\<exists>out. sync_loop env sops tops scan opts su ls w = Some out \<and> final_ok w0 R su out"
  using ok
proof (induction "card {q \<in> positions (w_source w0). after_position (ls_cursor ls) q}" arbitrary: ls w rule: less_induct)
  case less
  note page = sync_page_ok [OF scan n bs ok0 less.prems head, of env]
  then consider (stop) out where "sync_page env sops tops scan opts su ls w = Some (Finished out)" "final_ok w0 R su out"
    | (go) ls' w' where "sync_page env sops tops scan opts su ls w = Some (Continue ls' w')" "loop_ok w0 R ls' w'"
        "card {q \<in> positions (w_source w0). after_position (ls_cursor ls') q} <
         card {q \<in> positions (w_source w0). after_position (ls_cursor ls) q}"
    by (auto simp: page_outcome_ok_def split: option.splits page_outcome.splits)
  then show ?case
  proof cases
    case stop
    then show ?thesis by (subst sync_loop.simps) simp
  next
    case go
    from less.hyps [OF go(3,2)] show ?thesis using go(1) by (subst sync_loop.simps) simp
  qed
qed

end

section \<open>The loop without a scan bound\<close>

text \<open>
  When the source gives no head, the scan is not bounded and nothing is persisted. Entries that
  receipts re-anchor come up again behind the cursor; the loop ends because an id is transferred
  at most once in a sync, and because a page that transfers nothing only moves the cursor.
\<close>

lemma after_next_cursor:
  assumes "page_ok P c page" and "scan_entries page \<noteq> []" and "after_position (scan_nextCursor page) q"
  shows "after_position c q"
proof -
  have "after_position c (position_of (last (scan_entries page)))"
    using assms(1) last_in_set [OF assms(2)] unfolding page_ok_def by blast
  moreover have "scan_nextCursor page = Some (cursor_of (last (scan_entries page)))"
    using assms(1,2) by (simp add: page_ok_def next_cursor_def)
  ultimately show ?thesis
    using assms(3) by (auto simp: after_position_def cursor_of_def position_of_def split: option.splits)
qed

text \<open>Without a source head, the cursor of the loop has no part in the transfer of a page.\<close>

abbreviation at_cursor :: "store_scan_cursor option \<Rightarrow> (('s, 't) page_outcome + scan_loop \<times> ('s, 't) sync_world) option \<Rightarrow>
    (('s, 't) page_outcome + scan_loop \<times> ('s, 't) sync_world) option" where
  "at_cursor c \<equiv> map_option (map_sum id (\<lambda>(ls, w). (ls\<lparr> ls_cursor := c \<rparr>, w)))"

lemma persist_headless [simp]: "su_sourceHead su = None \<Longrightarrow> persistScanCursor su c w = w"
  by (simp add: persistScanCursor_def split: option.split)

lemma finish_headless:
  "su_sourceHead su = None \<Longrightarrow> finish_scan su b (ls\<lparr> ls_cursor := c \<rparr>) w = finish_scan su b ls w"
  by (simp add: finish_scan_def loop_result_def)

lemma transfer_missing_headless:
  assumes "su_sourceHead su = None"
  shows "transfer_missing env sops tops opts su missing (ls\<lparr> ls_cursor := c \<rparr>) w =
    at_cursor c (transfer_missing env sops tops opts su missing ls w)"
proof -
  have "finish_scan su True (ls\<lparr> ls_cursor := c, ls_transferred := a, ls_bytes := b, ls_rejected := rs \<rparr>) u =
      finish_scan su True (ls\<lparr> ls_transferred := a, ls_bytes := b, ls_rejected := rs \<rparr>) u" for a b rs and u :: "('a, 'b) sync_world"
    using assms by (simp add: finish_scan_def loop_result_def)
  then show ?thesis
    by (cases "transferEntriesInBatches env sops tops missing opts (ls_transferred ls) (ls_bytes ls) w")
      (auto simp: transfer_missing_def Let_def split: sum.split)
qed

lemma transfer_page_headless:
  assumes "su_sourceHead su = None"
  shows "transfer_page env sops tops opts su es (ls\<lparr> ls_cursor := c \<rparr>) w =
    at_cursor c (transfer_page env sops tops opts su es ls w)"
  by (auto simp: transfer_page_def Let_def finish_headless [OF assms] transfer_missing_headless [OF assms] split: sum.split)

lemma transfer_missing_goes:
  assumes "transfer_missing env sops tops opts su missing ls w = Some (Inr (ls', w'))"
  shows "set (ls_transferredThisSync ls') = set missing \<union> set (ls_transferredThisSync ls)"
    and "set (ls_rejected ls) \<subseteq> set (ls_rejected ls')"
proof -
  obtain r u where te: "transferEntriesInBatches env sops tops missing opts (ls_transferred ls) (ls_bytes ls) w = Some (r, u)"
    using assms by (auto simp: transfer_missing_def bind_eq_Some_conv)
  obtain t where t: "r = Inr t" "\<not> tr_cancelled t"
    using assms te by (cases r) (auto simp: transfer_missing_def finish_scan_def Let_def split: if_splits)
  have "ls' = ls\<lparr> ls_transferred := tr_transferred t, ls_bytes := tr_bytes t, ls_rejected := ls_rejected ls @ tr_rejected t,
      ls_transferredThisSync := fold set_add missing (ls_transferredThisSync ls) \<rparr>"
    using assms te t by (simp add: transfer_missing_def Let_def)
  then show "set (ls_transferredThisSync ls') = set missing \<union> set (ls_transferredThisSync ls)"
    and "set (ls_rejected ls) \<subseteq> set (ls_rejected ls')"
    by (simp_all add: fold_set_add Un_commute)
qed

context sync_pair begin

text \<open>The transfer of a page either adds to the ids transferred in this sync, or leaves the source alone.\<close>

lemma transfer_page_progress:
  assumes ok: "stores_ok w" and tp: "transfer_page env sops tops opts su es ls w = Some (Inr (ls', w'))"
  shows "w_source w' = w_source w \<and> ls_transferredThisSync ls' = ls_transferredThisSync ls \<or>
    (\<exists>i \<in> entry_id ` set es. i \<notin> set (ls_transferredThisSync ls) \<and>
       insert i (set (ls_transferredThisSync ls)) \<subseteq> set (ls_transferredThisSync ls'))"
proof -
  define cand where "cand = filter (\<lambda>i. i \<notin> set (ls_transferredThisSync ls)) (map entry_id es)"
  obtain missing where f: "(if cand \<noteq> [] then filterMissingIds tops (w_target w) cand (su_targetBloom su) else Inr []) = Inr missing"
    using tp by (auto simp: transfer_page_def Let_def cand_def [symmetric] split: sum.splits)
  show ?thesis
  proof (cases missing)
    case Nil
    then show ?thesis
      using tp f by (auto simp: transfer_page_def Let_def cand_def [symmetric] tick_def finish_scan_def split: if_splits)
  next
    case (Cons i "is")
    then have ne: "cand \<noteq> []" using f by auto
    then have "i \<in> set cand"
      using f Cons filterMissing_sound(1) [of "w_target w" cand "su_targetBloom su" missing] ok by (auto simp: stores_ok_def)
    moreover obtain u where "transfer_missing env sops tops opts su missing ls u = Some (Inr (ls', w'))"
      using tp f Cons ne by (auto simp: transfer_page_def Let_def cand_def [symmetric] finish_scan_def split: if_splits)
    then have "insert i (set (ls_transferredThisSync ls)) \<subseteq> set (ls_transferredThisSync ls')"
      using transfer_missing_goes(1) Cons by fastforce
    ultimately show ?thesis by (auto simp: cand_def)
  qed
qed

lemma transfer_page_rejected:
  assumes "transfer_page env sops tops opts su es ls w = Some (Inr (ls', w'))"
  shows "set (ls_rejected ls) \<subseteq> set (ls_rejected ls')"
proof -
  have "ls' = ls \<or> (\<exists>missing u. transfer_missing env sops tops opts su missing ls u = Some (Inr (ls', w')))"
    using assms by (auto simp: transfer_page_def Let_def finish_scan_def split: if_splits sum.splits)
  then show ?thesis using transfer_missing_goes(2) by blast
qed

lemma snd_finite: "evolves w0 w \<Longrightarrow> finite (snd ` positions (w_source w0))"
  using evolves_ids [of w0 w] positions_finite [of "w_source w"] by (metis evolves_def finite_imageI stores_ok_def)

text \<open>
  The invariant: every entry that the source had is at the target, was rejected, or is after the
  cursor; a page read ahead may be of the source before some entries moved.
\<close>

definition old_view :: "('s, 't) sync_world \<Rightarrow> ('s, 't) sync_world \<Rightarrow> position set \<Rightarrow> bool" where
  "old_view w0 w P \<longleftrightarrow> (\<forall>q \<in> positions (w_source w0). q \<in> P \<or> snd q \<in> stored (w_target w)) \<and>
     snd ` P \<subseteq> snd ` positions (w_source w0)"

definition open_ok :: "('s, 't) sync_world \<Rightarrow> string set \<Rightarrow> scan_loop \<Rightarrow> ('s, 't) sync_world \<Rightarrow> bool" where
  "open_ok w0 R ls w \<longleftrightarrow>
     core_ok w0 R (ls\<lparr> ls_cursor := None \<rparr>) w \<and>
     (\<forall>q \<in> positions (w_source w0). after_position (ls_cursor ls) q \<or>
        snd q \<in> stored (w_target w) \<union> R \<union> rejected_id ` set (ls_rejected ls)) \<and>
     (\<forall>page. ls_nextPage ls = Some (Some page) \<longrightarrow> (\<exists>P. old_view w0 w P \<and> page_ok P (ls_cursor ls) page))"

definition fresh_page :: "scan_loop \<Rightarrow> ('s, 't) sync_world \<Rightarrow> bool" where
  "fresh_page ls w \<longleftrightarrow> (\<forall>page. ls_nextPage ls = Some (Some page) \<longrightarrow> page_ok (positions (w_source w)) (ls_cursor ls) page)"

definition untransferred :: "('s, 't) sync_world \<Rightarrow> scan_loop \<Rightarrow> nat" where
  "untransferred w0 ls = card (snd ` positions (w_source w0) - set (ls_transferredThisSync ls))"

definition ahead :: "scan_loop \<Rightarrow> ('s, 't) sync_world \<Rightarrow> nat" where
  "ahead ls w = card {q \<in> positions (w_source w). after_position (ls_cursor ls) q} + (if fresh_page ls w then 0 else 1)"

lemma old_view_evolves: "evolves w0 w \<Longrightarrow> evolves w w' \<Longrightarrow> old_view w0 w' (positions (w_source w))"
  using evolves_ids [of w0 w] by (auto simp: old_view_def evolves_def reanchored_def)

lemma old_view_mono: "old_view w0 w P \<Longrightarrow> evolves w w' \<Longrightarrow> old_view w0 w' P"
  by (auto simp: old_view_def evolves_def)

lemma fetch_page_open:
  assumes scan: "op_scanEntriesSince sops = Some scan" and n: "0 < n" and ok: "open_ok w0 R ls w"
    and fetch: "fetch_page scan n ls w = (r, w1)"
  shows "evolves w w1" "positions (w_source w1) = positions (w_source w)"
    and "r = Some (page, pf) \<Longrightarrow> (\<exists>P. old_view w0 w1 P \<and> page_ok P (ls_cursor ls) page) \<and>
      (fresh_page ls w \<longrightarrow> page_ok (positions (w_source w)) (ls_cursor ls) page)"
    and "r = Some (page, Some (Some pg)) \<Longrightarrow> page_ok (positions (w_source w1)) (scan_nextCursor page) pg"
proof -
  have ev: "evolves w0 w" and okw: "stores_ok w" using ok by (simp_all add: open_ok_def core_ok_def evolves_def)
  obtain x s1 where x: "(case ls_nextPage ls of Some r \<Rightarrow> (r, w_source w)
      | None \<Rightarrow> scan (w_source w) (ls_cursor ls) n) = (x, s1)" by (rule prod.exhaust)
  define u where "u = tick (w\<lparr> w_source := s1 \<rparr>)"
  have sw: "sinv (w_source w)" using okw by (simp add: stores_ok_def)
  have s1: "sinv s1" "positions s1 = positions (w_source w)"
    using x scan_state [OF scan sw, of "ls_cursor ls" n] sw by (auto split: option.splits)
  have evu: "evolves w u"
    using x evolves_scan [OF okw scan, of "ls_cursor ls" n] evolves_refl [OF okw]
    by (auto simp: u_def intro!: evolves_tick split: option.splits)
  have oku: "stores_ok u" and us: "w_source u = s1" using evu by (simp_all add: evolves_def u_def tick_def)
  have page_x: "(\<exists>P. old_view w0 u P \<and> page_ok P (ls_cursor ls) page) \<and>
      (fresh_page ls w \<longrightarrow> page_ok (positions (w_source w)) (ls_cursor ls) page)" if "x = Some page" for page
  proof (cases "ls_nextPage ls")
    case None
    then have "page_ok (positions (w_source w)) (ls_cursor ls) page"
      using x that scan_page [OF scan sw n] by simp
    then show ?thesis using old_view_evolves [OF ev evu] by blast
  next
    case (Some y)
    then show ?thesis using x that ok old_view_mono [OF _ evu] by (auto simp: open_ok_def fresh_page_def)
  qed
  obtain r2 s2 where r2: "scan s1 (scan_nextCursor (the x)) n = (r2, s2)" by (rule prod.exhaust)
  have evs: "evolves u (u\<lparr> w_source := s2 \<rparr>)" using evolves_scan [OF oku scan] r2 us by simp
  have s2: "positions s2 = positions s1" using scan_state [OF scan s1(1) r2] by simp
  have page_r2: "page_ok (positions s1) (scan_nextCursor page) pg" if "x = Some page" "r2 = Some pg" for page pg
    using scan_page [OF scan s1(1) n] r2 that by simp
  have w1: "w1 = u \<or> w1 = u\<lparr> w_source := s2 \<rparr>"
    and r: "r = Some (page, pf) \<Longrightarrow> x = Some page \<and> (pf = None \<or> pf = Some r2)" for page pf
    using fetch x r2 by (auto simp: fetch_page_def u_def Let_def split: option.splits if_splits)
  show "evolves w w1" using w1 evu evolves_trans [OF evu evs] by auto
  show pos: "positions (w_source w1) = positions (w_source w)" using w1 s1 s2 us by auto
  have view: "old_view w0 w1 P" if "old_view w0 u P" for P
    using w1 that old_view_mono [OF that evs] by auto
  show "(\<exists>P. old_view w0 w1 P \<and> page_ok P (ls_cursor ls) page) \<and>
      (fresh_page ls w \<longrightarrow> page_ok (positions (w_source w)) (ls_cursor ls) page)" if "r = Some (page, pf)"
    using r [OF that] page_x view by blast
  show "page_ok (positions (w_source w1)) (scan_nextCursor page) pg" if "r = Some (page, Some (Some pg))"
    using r [OF that] page_r2 [of page pg] pos s1(2) by auto
qed

definition open_outcome_ok ::
  "('s, 't) sync_world \<Rightarrow> string set \<Rightarrow> scan_setup \<Rightarrow> scan_loop \<Rightarrow> ('s, 't) sync_world \<Rightarrow> ('s, 't) page_outcome option \<Rightarrow> bool" where
  "open_outcome_ok w0 R su ls w r \<longleftrightarrow>
     (case r of
        None \<Rightarrow> False
      | Some (Finished out) \<Rightarrow> final_ok w0 R su out
      | Some (Continue ls' w') \<Rightarrow> open_ok w0 R ls' w' \<and>
          (untransferred w0 ls' < untransferred w0 ls \<or>
           untransferred w0 ls' = untransferred w0 ls \<and> ahead ls' w' < ahead ls w))"

text \<open>A page that transfers nothing moves the cursor, or replaces a page that was out of date.\<close>

lemma ahead_decreases:
  assumes ok: "stores_ok w" and page: "page_ok P (ls_cursor ls) page" and more: "scan_hasMore page"
    and fresh: "fresh_page ls w \<longrightarrow> page_ok (positions (w_source w)) (ls_cursor ls) page"
    and same: "positions (w_source w') = positions (w_source w)" and nxt: "ls_cursor ls' = scan_nextCursor page" "fresh_page ls' w'"
  shows "ahead ls' w' < ahead ls w"
proof -
  have fin: "finite (positions (w_source w))" using ok positions_finite by (simp add: stores_ok_def)
  have ne: "scan_entries page \<noteq> []" using page more by (simp add: page_ok_def)
  have "card {q \<in> positions (w_source w). after_position (scan_nextCursor page) q} \<le>
      card {q \<in> positions (w_source w). after_position (ls_cursor ls) q}"
    by (rule card_mono) (use fin after_next_cursor [OF page ne] in auto)
  moreover have "card {q \<in> positions (w_source w). after_position (scan_nextCursor page) q} <
      card {q \<in> positions (w_source w). after_position (ls_cursor ls) q}" if "fresh_page ls w"
  proof -
    have ok': "page_ok (positions (w_source w)) (ls_cursor ls) page" using fresh that by simp
    then have "position_of ` set (scan_entries page) \<subseteq> positions (w_source w)" unfolding page_ok_def by blast
    then show ?thesis by (rule page_progress [OF ok' more _ fin])
  qed
  ultimately show ?thesis using nxt same by (auto simp: ahead_def)
qed

lemma end_page_open:
  assumes ev0: "evolves w0 w" and page: "page_ok P (ls_cursor ls) page" and view: "old_view w0 w P"
    and cover: "\<forall>q \<in> positions (w_source w0). after_position (ls_cursor ls) q \<or>
        snd q \<in> stored (w_target w) \<union> R \<union> rejected_id ` set (ls_rejected ls)"
    and rej: "set (ls_rejected ls) \<subseteq> set (ls_rejected ls2)"
    and tr: "page_transferred w0 R (map entry_id (scan_entries page)) (ls\<lparr> ls_cursor := None \<rparr>) w (ls2\<lparr> ls_cursor := None \<rparr>) w2"
  shows "\<forall>q \<in> positions (w_source w0). (scan_hasMore page \<and> after_position (scan_nextCursor page) q) \<or>
      snd q \<in> stored (w_target w2) \<union> R \<union> rejected_id ` set (ls_rejected ls2)"
proof
  fix q assume q: "q \<in> positions (w_source w0)"
  have ev: "evolves w w2" and arr: "entry_id ` set (scan_entries page) \<subseteq> stored (w_target w2) \<union> R \<union> rejected_id ` set (ls_rejected ls2)"
    using page_transferredD(2,3) [OF tr] by simp_all
  have mono: "stored (w_target w) \<subseteq> stored (w_target w2)" using ev by (simp add: evolves_def)
  consider "snd q \<in> stored (w_target w) \<union> R \<union> rejected_id ` set (ls_rejected ls)" | "after_position (ls_cursor ls) q" "q \<in> P"
    using cover view q by (auto simp: old_view_def)
  then show "(scan_hasMore page \<and> after_position (scan_nextCursor page) q) \<or>
      snd q \<in> stored (w_target w2) \<union> R \<union> rejected_id ` set (ls_rejected ls2)"
  proof cases
    case 1
    then show ?thesis using mono rej by auto
  next
    case 2
    then have "q \<in> position_of ` set (scan_entries page) \<or> scan_hasMore page \<and> after_position (scan_nextCursor page) q"
      using page unfolding page_ok_def by blast
    then show ?thesis using arr by (auto simp: position_of_def)
  qed
qed


lemma process_page_open:
  assumes bs: "0 < resolveTransferBatchSize opts" and ok: "open_ok w0 R ls w" and ev1: "evolves w w1"
    and same: "positions (w_source w1) = positions (w_source w)"
    and head: "su_sourceHead su = None" and view: "old_view w0 w1 P" and page: "page_ok P (ls_cursor ls) page"
    and fresh: "fresh_page ls w \<longrightarrow> page_ok (positions (w_source w)) (ls_cursor ls) page"
    and pf: "\<And>pg. prefetch = Some (Some pg) \<Longrightarrow> page_ok (positions (w_source w1)) (scan_nextCursor page) pg"
  shows "open_outcome_ok w0 R su ls w (process_page env sops tops opts su page prefetch ls w1)"
proof -
  define es where "es = scan_entries page"
  define ls1 where "ls1 = ls\<lparr> ls_scanned := ls_scanned ls + int (length es) \<rparr>"
  define tp where "tp = (if es \<noteq> [] then transfer_page env sops tops opts su es (ls1\<lparr> ls_cursor := None \<rparr>) w1
      else Some (Inr (ls1\<lparr> ls_cursor := None \<rparr>, w1)))"
  have core0: "core_ok w0 R (ls\<lparr> ls_cursor := None \<rparr>) w" and cover: "\<forall>q \<in> positions (w_source w0). after_position (ls_cursor ls) q \<or>
        snd q \<in> stored (w_target w) \<union> R \<union> rejected_id ` set (ls_rejected ls)"
    using ok by (simp_all add: open_ok_def)
  have core1: "core_ok w0 R (ls1\<lparr> ls_cursor := None \<rparr>) w1"
    using core_ok_evolves [OF core0 ev1] by (simp add: ls1_def core_ok_def)
  have ev01: "evolves w0 w1" and ok1: "stores_ok w1" using core1 by (simp_all add: core_ok_def evolves_def)
  have okw: "stores_ok w" using core0 by (simp add: core_ok_def evolves_def)
  have "entry_id ` set es \<subseteq> snd ` P" using page by (force simp: page_ok_def position_of_def es_def)
  then have ids: "entry_id ` set es \<subseteq> snd ` positions (w_source w0)" using view unfolding old_view_def by (meson subset_trans)
  have "transfer_outcome w0 R su (map entry_id es) (ls1\<lparr> ls_cursor := None \<rparr>) w1 tp"
    using transfer_page_ok [OF core1 bs ids, of su env] core1 evolves_refl [OF ok1]
    by (auto simp: tp_def transfer_outcome_def page_transferred_def)
  then consider (stop) out where "tp = Some (Inl (Finished out))" "final_ok w0 R su out"
    | (go) ls2 w2 where "tp = Some (Inr (ls2, w2))"
      "page_transferred w0 R (map entry_id es) (ls1\<lparr> ls_cursor := None \<rparr>) w1 ls2 w2"
    by (auto simp: transfer_outcome_def split: option.splits sum.splits page_outcome.splits)
  then have "open_outcome_ok w0 R su ls w (Option.bind (at_cursor (ls_cursor ls) tp) (\<lambda>r. case r of Inl outcome \<Rightarrow> Some outcome
       | Inr (ls2, w2) \<Rightarrow> Some (end_page su page prefetch es False ls2 w2)))"
  proof cases
    case go
    define ls' where "ls' = ls2\<lparr> ls_cursor := scan_nextCursor page, ls_nextPage := prefetch \<rparr>"
    have cur2: "ls2\<lparr> ls_cursor := None \<rparr> = ls2" using go(2) by (simp add: page_transferred_def)
    have ev2: "evolves w1 w2" and core2: "core_ok w0 R ls2 w2" using go(2) by (simp_all add: page_transferred_def)
    have "set (ls_rejected ls1) \<subseteq> set (ls_rejected ls2)"
      using go(1) transfer_page_rejected [of env opts su es "ls1\<lparr> ls_cursor := None \<rparr>" w1 ls2 w2] by (auto simp: tp_def split: if_splits)
    then have rej: "set (ls_rejected ls) \<subseteq> set (ls_rejected ls2)" by (simp add: ls1_def)
    have mono: "stored (w_target w) \<subseteq> stored (w_target w1)" using ev1 by (simp add: evolves_def)
    have cover1: "\<forall>q \<in> positions (w_source w0). after_position (ls_cursor ls1) q \<or>
        snd q \<in> stored (w_target w1) \<union> R \<union> rejected_id ` set (ls_rejected ls1)"
      using cover mono by (auto simp: ls1_def)
    have "page_ok P (ls_cursor ls1) page" using page by (simp add: ls1_def)
    from end_page_open [OF ev01 this view cover1, of ls2 w2] rej go(2) cur2
    have all: "\<forall>q \<in> positions (w_source w0). (scan_hasMore page \<and> after_position (scan_nextCursor page) q) \<or>
      snd q \<in> stored (w_target w2) \<union> R \<union> rejected_id ` set (ls_rejected ls2)"
      by (simp add: es_def ls1_def)
    have evw2: "evolves w0 w2" using core2 by (simp add: core_ok_def)
    show ?thesis
    proof (cases "scan_hasMore page")
      case False
      then have "snd ` positions (w_source w0) \<subseteq> stored (w_target w2) \<union> R \<union> rejected_id ` set (ls_rejected ls2)"
        using all by auto
      then have "final_ok w0 R su (Inr (loop_result False ls'), w2)"
        using finish_ok [OF evw2, of R "ls'\<lparr> ls_cursor := None \<rparr>" False su] head
        by (simp add: ls'_def cursor_ok_def loop_result_def)
      then show ?thesis
        using go(1) False head
        by (simp add: end_page_def open_outcome_ok_def finish_scan_def loop_result_def ls'_def Let_def)
    next
      case True
      have "old_view w0 w2 (positions (w_source w1))" by (rule old_view_evolves [OF ev01 ev2])
      then have ok': "open_ok w0 R ls' w2"
        using all True pf core2 cur2 by (auto simp: open_ok_def ls'_def core_ok_def cursor_ok_def [of _ _ None])
      have prog: "w_source w2 = w_source w1 \<and> ls_transferredThisSync ls2 = ls_transferredThisSync ls1 \<or>
        (\<exists>i \<in> entry_id ` set es. i \<notin> set (ls_transferredThisSync ls1) \<and>
           insert i (set (ls_transferredThisSync ls1)) \<subseteq> set (ls_transferredThisSync ls2))"
        using go(1) transfer_page_progress [OF ok1, of env opts su es "ls1\<lparr> ls_cursor := None \<rparr>" ls2 w2]
        by (auto simp: tp_def split: if_splits)
      have "untransferred w0 ls' < untransferred w0 ls \<or>
           untransferred w0 ls' = untransferred w0 ls \<and> ahead ls' w2 < ahead ls w"
        using prog
      proof
        assume s: "w_source w2 = w_source w1 \<and> ls_transferredThisSync ls2 = ls_transferredThisSync ls1"
        then have "fresh_page ls' w2" using pf by (auto simp: fresh_page_def ls'_def)
        then have "ahead ls' w2 < ahead ls w"
          using s same ahead_decreases [OF okw page True fresh, of w2 ls'] by (simp add: ls'_def)
        then show ?thesis using s by (simp add: untransferred_def ls'_def ls1_def)
      next
        assume "\<exists>i \<in> entry_id ` set es. i \<notin> set (ls_transferredThisSync ls1) \<and>
           insert i (set (ls_transferredThisSync ls1)) \<subseteq> set (ls_transferredThisSync ls2)"
        then obtain i where i: "i \<in> snd ` positions (w_source w0)" "i \<notin> set (ls_transferredThisSync ls)"
          "insert i (set (ls_transferredThisSync ls)) \<subseteq> set (ls_transferredThisSync ls')"
          using ids unfolding ls1_def ls'_def by (simp add: image_subset_iff) blast
        have "finite (snd ` positions (w_source w0))"
          using snd_finite [OF ev01] by simp
        then have "untransferred w0 ls' < untransferred w0 ls"
          unfolding untransferred_def by (intro psubset_card_mono) (use i in auto)
        then show ?thesis by simp
      qed
      then show ?thesis
        using go(1) True ok' by (simp add: end_page_def open_outcome_ok_def ls'_def Let_def)
    qed
  qed (simp add: open_outcome_ok_def)
  moreover have "at_cursor (ls_cursor ls) tp = (if es \<noteq> [] then transfer_page env sops tops opts su es ls1 w1 else Some (Inr (ls1, w1)))"
    using transfer_page_headless [OF head, of env sops tops opts es "ls_cursor ls" "ls1\<lparr> ls_cursor := None \<rparr>" w1]
    by (simp add: tp_def ls1_def)
  then have "process_page env sops tops opts su page prefetch ls w1 =
      (if aborted env (w_clock w1) then Some (finish_scan su True ls1 w1)
       else Option.bind (at_cursor (ls_cursor ls) tp) (\<lambda>r. case r of Inl outcome \<Rightarrow> Some outcome
       | Inr (ls2, w2) \<Rightarrow> Some (end_page su page prefetch es False ls2 w2)))"
    by (simp add: process_page_def head clamp_page_def ls1_def es_def Let_def)
  moreover have "open_outcome_ok w0 R su ls w (Some (finish_scan su True ls1 w1))"
    using core_cancelled [OF core1, of su] head
    by (simp add: open_outcome_ok_def finish_scan_def loop_result_def)
  ultimately show ?thesis by simp
qed

lemma sync_page_open:
  assumes scan: "op_scanEntriesSince sops = Some scan" and n: "0 < option_or (o_pageSize opts) 1000"
    and bs: "0 < resolveTransferBatchSize opts" and ok: "open_ok w0 R ls w" and head: "su_sourceHead su = None"
  shows "open_outcome_ok w0 R su ls w (sync_page env sops tops scan opts su ls w)"
proof -
  obtain r w1 where fetch: "fetch_page scan (option_or (o_pageSize opts) 1000) ls w = (r, w1)" by (rule prod.exhaust)
  note f = fetch_page_open [OF scan n ok fetch]
  have core: "core_ok w0 R (ls\<lparr> ls_cursor := None \<rparr>) w" using ok by (simp add: open_ok_def)
  have core1: "core_ok w0 R (ls\<lparr> ls_cursor := None \<rparr>) w1" by (rule core_ok_evolves [OF core f(1)])
  have "open_outcome_ok w0 R su ls w (process_page env sops tops opts su page pf ls w1)" if r: "r = Some (page, pf)" for page pf
  proof -
    obtain P where "old_view w0 w1 P" "page_ok P (ls_cursor ls) page" using f(3) [OF r] by blast
    then show ?thesis
      using process_page_open [OF bs ok f(1,2) head, of P page pf env] f(3) [OF r] f(4) r by blast
  qed
  moreover have "open_outcome_ok w0 R su ls w (Some (finish_scan su True ls w))"
    using core_cancelled [OF core, of su] head by (simp add: open_outcome_ok_def finish_scan_def loop_result_def)
  moreover have "open_outcome_ok w0 R su ls w (Some (Finished (Inl e, w1)))" for e
    using core1 by (simp add: open_outcome_ok_def final_ok_def core_ok_def)
  ultimately show ?thesis by (auto simp: sync_page_def fetch split: option.split)
qed

lemma sync_loop_open:
  assumes scan: "op_scanEntriesSince sops = Some scan" and n: "0 < option_or (o_pageSize opts) 1000"
    and bs: "0 < resolveTransferBatchSize opts" and head: "su_sourceHead su = None" and "open_ok w0 R ls w"
  shows "\<exists>out. sync_loop env sops tops scan opts su ls w = Some out \<and> final_ok w0 R su out"
proof -
  define m where "m = (\<lambda>x. (untransferred w0 (fst x), ahead (fst x) (snd x)))"
  have "open_ok w0 R (fst x) (snd x) \<Longrightarrow>
      \<exists>out. sync_loop env sops tops scan opts su (fst x) (snd x) = Some out \<and> final_ok w0 R su out" for x
  proof (induction x rule: wf_induct_rule [OF wf_inv_image [OF wf_lex_prod [OF wf_less wf_less], of m]])
    case (1 x)
    obtain ls w where x: "x = (ls, w)" by (rule prod.exhaust)
    have ok: "open_ok w0 R ls w" using 1(2) x by simp
    from sync_page_open [OF scan n bs ok head, of env]
    consider (stop) out where "sync_page env sops tops scan opts su ls w = Some (Finished out)" "final_ok w0 R su out"
      | (go) ls' w' where "sync_page env sops tops scan opts su ls w = Some (Continue ls' w')" "open_ok w0 R ls' w'"
          "untransferred w0 ls' < untransferred w0 ls \<or> untransferred w0 ls' = untransferred w0 ls \<and> ahead ls' w' < ahead ls w"
      by (auto simp: open_outcome_ok_def split: option.splits page_outcome.splits)
    then show ?case
    proof cases
      case stop
      then show ?thesis unfolding x by (subst sync_loop.simps) simp
    next
      case go
      have "((ls', w'), x) \<in> inv_image ({(a, b). a < b} <*lex*> {(a, b). a < b}) m"
        using go(3) by (auto simp: m_def x)
      from 1(1) [OF this] go(2) have "\<exists>out. sync_loop env sops tops scan opts su ls' w' = Some out \<and> final_ok w0 R su out" by simp
      then show ?thesis unfolding x using go(1) by (subst sync_loop.simps) simp
    qed
  qed
  from this [of "(ls, w)"] assms(5) show ?thesis by simp
qed

end

context sync_pair begin

section \<open>Syncs by cursor scan\<close>

text \<open>
  The persisted record of a pair of stores is sound: as long as both epochs are those of the
  record, every source entry up to the cursor's receipt order is at the target or was rejected.
\<close>

definition record_sound :: "string set \<Rightarrow> string \<Rightarrow> ('s, 't) sync_world \<Rightarrow> bool" where
  "record_sound R key w \<longleftrightarrow>
     (\<forall>r. map_of (w_cursors w) key = Some r \<longrightarrow> rec_sourceEpoch r = sepoch (w_source w) \<longrightarrow>
        rec_targetEpoch r = tepoch (w_target w) \<longrightarrow>
        cursor_ok (top_order (w_source w)) R (Some (rec_cursor r)) w)"

lemma cursor_ok_mono:
  assumes "cursor_ok b R c w" and "b \<le> b'" and "R \<subseteq> R'"
  shows "cursor_ok b' R' c w"
  unfolding cursor_ok_def
proof (intro allI impI conjI ballI)
  fix k assume k: "c = Some k"
  show "cursor_receiptOrder k \<le> b'" using assms(1,2) k by (fastforce simp: cursor_ok_def)
  show "snd p \<in> stored (w_target w) \<union> R'"
    if "p \<in> positions (w_source w)" "fst p \<le> cursor_receiptOrder k" for p
    using assms(1,3) k that by (auto simp: cursor_ok_def)
qed

lemma record_sound_evolves:
  assumes "record_sound R key w" and "evolves w w'" and "R \<subseteq> R'"
  shows "record_sound R' key w'"
proof -
  have "cursor_ok (top_order (w_source w')) R' c w'" if "cursor_ok (top_order (w_source w)) R c w" for c
    using cursor_ok_mono [OF cursor_ok_evolves [OF that assms(2) order_refl assms(3)]] assms(2)
    by (simp add: evolves_def)
  then show ?thesis using assms(1,2) by (simp add: record_sound_def evolves_def)
qed

lemma persist_sel [simp]:
  "w_source (persistScanCursor su c w) = w_source w" "w_target (persistScanCursor su c w) = w_target w"
  "w_clock (persistScanCursor su c w) = w_clock w"
  by (simp_all add: persistScanCursor_def saveSyncScanCursor_def split: option.split)

lemma persist_cases:
  "w_cursors (persistScanCursor su c w) = w_cursors w \<or>
   (\<exists>k r. c = Some k \<and> rec_cursor r = k \<and> map_of (w_cursors (persistScanCursor su c w)) (su_key su) = Some r)"
  by (auto simp: persistScanCursor_def saveSyncScanCursor_def map_of_update split: option.split)

lemma persist_sound:
  assumes ev: "evolves w0 w" and rec: "record_sound R (su_key su) w0" and R: "R \<subseteq> R'"
    and cur: "cursor_ok (top_order (w_source w0)) R' c w"
  shows "record_sound R' (su_key su) (persistScanCursor su c w)"
proof -
  have "top_order (w_source w0) \<le> top_order (w_source w)" using ev by (simp add: evolves_def)
  then have new: "cursor_ok (top_order (w_source w)) R' c (persistScanCursor su c w)"
    using cursor_ok_mono [OF cur _ order_refl] by (simp add: cursor_ok_def)
  have old: "record_sound R' (su_key su) w" by (rule record_sound_evolves [OF rec ev R])
  from persist_cases [of su c w] show ?thesis
    using new old by (auto simp: record_sound_def cursor_ok_def)
qed

definition outcome_rejected :: "sync_error + sync_result \<Rightarrow> string set" where
  "outcome_rejected r =
     (case r of Inl e \<Rightarrow> {} | Inr res \<Rightarrow> (case res_rejected res of None \<Rightarrow> {} | Some rs \<Rightarrow> rejected_id ` set rs))"

text \<open>
  What a sync from \<open>w\<close> promises about its outcome, when \<open>R\<close> was rejected by earlier ones:
  the record stays sound, and unless the sync threw or was cancelled, everything the source had is
  at the target or was rejected.
\<close>

definition sync_ok :: "string set \<Rightarrow> string \<Rightarrow> ('s, 't) sync_world \<Rightarrow> ('s, 't) sync_outcome \<Rightarrow> bool" where
  "sync_ok R key w out \<longleftrightarrow>
     (case out of (r, w') \<Rightarrow>
        stores_ok w' \<and> stored (w_target w) \<subseteq> stored (w_target w') \<and>
        snd ` positions (w_source w') = snd ` positions (w_source w) \<and>
        record_sound (R \<union> outcome_rejected r) key w' \<and>
        (\<forall>res. r = Inr res \<longrightarrow> \<not> res_cancelled res \<longrightarrow>
           snd ` positions (w_source w) \<subseteq> stored (w_target w') \<union> R \<union> outcome_rejected r))"

lemma final_sync_ok:
  assumes fin: "final_ok w0 R su (r, w')" and rec: "record_sound R (su_key su) w0"
    and same: "w_source w0 = w_source w" "w_target w0 = w_target w"
  shows "sync_ok R (su_key su) w (r, w')"
proof (cases r)
  case (Inl e)
  then have ev: "evolves w0 w'" using fin by (simp add: final_ok_def)
  then show ?thesis
    using record_sound_evolves [OF rec ev order_refl] evolves_ids [OF ev] Inl same
    by (simp add: sync_ok_def outcome_rejected_def evolves_def)
next
  case (Inr res)
  then obtain ls :: scan_loop and u where ev: "evolves w0 u" and rej: "res_rejected res = Some (ls_rejected ls)"
    and w': "w' = persistScanCursor su (ls_cursor ls) u"
    and cur: "cursor_ok (top_order (w_source w0)) (R \<union> rejected_id ` set (ls_rejected ls)) (ls_cursor ls) u"
    and all: "res_cancelled res \<or>
      snd ` positions (w_source w0) \<subseteq> stored (w_target u) \<union> R \<union> rejected_id ` set (ls_rejected ls)"
    using fin unfolding final_ok_def by auto
  have or: "outcome_rejected r = rejected_id ` set (ls_rejected ls)" by (simp add: outcome_rejected_def Inr rej)
  have "record_sound (R \<union> outcome_rejected r) (su_key su) w'"
    unfolding or w' by (rule persist_sound [OF ev rec _ cur]) simp
  moreover have "stores_ok w'" "stored (w_target w) \<subseteq> stored (w_target w')"
    "snd ` positions (w_source w') = snd ` positions (w_source w)"
    using ev evolves_ids [OF ev] same by (simp_all add: w' evolves_def stores_ok_def)
  moreover have "snd ` positions (w_source w) \<subseteq> stored (w_target w') \<union> R \<union> outcome_rejected r"
    if "\<not> res_cancelled res" using all that same by (simp add: or w')
  ultimately show ?thesis using Inr by (auto simp: sync_ok_def)
qed

lemma source_head_safe:
  "sinv s \<Longrightarrow> getStoreHeadSafe sops s = Some h \<Longrightarrow> head_epoch h = sepoch s \<and> head_maxReceiptOrder h = top_order s"
  using source_head by (auto simp: getStoreHeadSafe_def bind_eq_Some_conv)

lemma target_head_safe: "tinv t \<Longrightarrow> getStoreHeadSafe tops t = Some h \<Longrightarrow> head_epoch h = tepoch t"
  using target_head by (auto simp: getStoreHeadSafe_def bind_eq_Some_conv)

lemma record_used:
  assumes ok: "stores_ok w" and rec: "record_sound R key w" and r: "map_of (w_cursors w) key = Some r"
    and heads: "getStoreHeadSafe sops (w_source w) = Some sh" "getStoreHeadSafe tops (w_target w) = Some th"
    and epochs: "rec_sourceEpoch r = head_epoch sh" "rec_targetEpoch r = head_epoch th"
  shows "cursor_ok (top_order (w_source w)) R (Some (rec_cursor r)) w" and "head_maxReceiptOrder sh = top_order (w_source w)"
proof -
  have "sinv (w_source w)" "tinv (w_target w)" using ok by (simp_all add: stores_ok_def)
  note h = source_head_safe [OF this(1) heads(1)] target_head_safe [OF this(2) heads(2)]
  show "cursor_ok (top_order (w_source w)) R (Some (rec_cursor r)) w"
    using rec r h epochs by (simp add: record_sound_def)
  show "head_maxReceiptOrder sh = top_order (w_source w)" using h(1) by simp
qed

lemma cursor_ok_stores:
  "w_source w' = w_source w \<Longrightarrow> w_target w' = w_target w \<Longrightarrow> cursor_ok b R c w' = cursor_ok b R c w"
  by (simp add: cursor_ok_def)

text \<open>How a sync by scan starts: it is skipped rightly, or its loop starts in a good state.\<close>

lemma sync_by_scan_cases:
  assumes ok: "stores_ok w" and head: "getStoreHeadSafe sops (w_source w) = Some sh"
    and key: "key = syncScanCursorKey sops tops w" and rec: "record_sound R key w"
  obtains (skip) "sync_by_scan env sops tops scan opts w = Some (Inr (plain_result 0 False), tick w)"
      "snd ` positions (w_source w) \<subseteq> stored (w_target w) \<union> R"
  | (loop) w0 su c where "sync_by_scan env sops tops scan opts w = sync_loop env sops tops scan opts su (start_loop c) w0"
      "w_source w0 = w_source w" "w_target w0 = w_target w" "su_key su = key" "record_sound R key w0" "stores_ok w0"
      "map_option head_maxReceiptOrder (su_sourceHead su) = Some (top_order (w_source w0))"
      "su_targetBloom su = getStoreBloomSummary tops (w_target w)" "loop_ok w0 R (start_loop c) w0"
proof -
  define persisted where "persisted = (if o_forceFullScan opts then None else map_of (w_cursors w) key)"
  define th where "th = getStoreHeadSafe tops (w_target w)"
  note defs = persisted_def [symmetric] th_def [symmetric] key [symmetric] head
  have top: "head_maxReceiptOrder sh = top_order (w_source w)"
    using source_head_safe [OF _ head] ok by (simp add: stores_ok_def)
  show ?thesis
  proof (cases "resume_decision persisted (Some sh) th")
    case Skip
    then obtain r t where r: "map_of (w_cursors w) key = Some r" and t: "getStoreHeadSafe tops (w_target w) = Some t"
      and eps: "rec_sourceEpoch r = head_epoch sh" "rec_targetEpoch r = head_epoch t"
      and max: "top_order (w_source w) \<le> cursor_receiptOrder (rec_cursor r)"
      using top by (auto simp: resume_decision_def persisted_def th_def split: option.splits if_splits)
    have "p \<in> positions (w_source w) \<Longrightarrow> fst p \<le> cursor_receiptOrder (rec_cursor r)" for p
      using positions_top [of "w_source w" p] ok max by (simp add: stores_ok_def)
    then have "snd ` positions (w_source w) \<subseteq> stored (w_target w) \<union> R"
      using record_used(1) [OF ok rec r head t eps] by (auto simp: cursor_ok_def)
    then show ?thesis using skip Skip by (simp add: sync_by_scan_def defs Let_def)
  next
    case (ScanFrom c d)
    define w0 where "w0 = tick (tick (tick (if d then w\<lparr> w_cursors := AList.delete key (w_cursors w) \<rparr> else w)))"
    have same: "w_source w0 = w_source w" "w_target w0 = w_target w" by (simp_all add: w0_def tick_def)
    then have ok0: "stores_ok w0" using ok by (simp add: stores_ok_def)
    have "map_of (w_cursors w0) key = None \<or> map_of (w_cursors w0) key = map_of (w_cursors w) key"
      by (simp add: w0_def tick_def delete_conv)
    then have rec0: "record_sound R key w0"
      using rec same cursor_ok_stores [OF same] by (auto simp: record_sound_def)
    have "c = None \<or> (\<exists>r t. c = Some (rec_cursor r) \<and> map_of (w_cursors w) key = Some r \<and> th = Some t \<and>
        rec_sourceEpoch r = head_epoch sh \<and> rec_targetEpoch r = head_epoch t)"
      using ScanFrom by (auto simp: resume_decision_def persisted_def split: option.splits if_splits)
    then have "cursor_ok (top_order (w_source w)) R c w"
      using record_used(1) [OF ok rec _ head] by (auto simp: th_def cursor_ok_def [of _ _ None])
    then have "loop_ok w0 R (start_loop c) w0"
      using evolves_refl [OF ok0] cursor_ok_stores [OF same] same by (simp add: loop_ok_def core_ok_def start_loop_def)
    moreover have "w_target (tick (if d then w\<lparr> w_cursors := AList.delete key (w_cursors w) \<rparr> else w)) = w_target w"
      by (simp add: tick_def)
    ultimately show ?thesis
      using loop [of "\<lparr> su_key = key, su_sourceHead = Some sh, su_targetHead = th,
        su_targetBloom = getStoreBloomSummary tops (w_target w) \<rparr>" c w0] ScanFrom same top rec0 ok0
      by (simp add: sync_by_scan_def defs Let_def w0_def)
  qed
qed

lemma sync_by_scan_ok:
  assumes scan: "op_scanEntriesSince sops = Some scan" and n: "0 < option_or (o_pageSize opts) 1000"
    and bs: "0 < resolveTransferBatchSize opts" and ok: "stores_ok w"
    and head: "getStoreHeadSafe sops (w_source w) = Some sh"
    and key: "key = syncScanCursorKey sops tops w" and rec: "record_sound R key w"
  shows "\<exists>out. sync_by_scan env sops tops scan opts w = Some out \<and> sync_ok R key w out"
proof (cases rule: sync_by_scan_cases [OF ok head key rec, of env scan opts, case_names skip loop])
  case skip
  have "record_sound R key (tick w)" using rec by (simp add: record_sound_def tick_def cursor_ok_def)
  then show ?thesis
    using skip ok by (simp add: sync_ok_def outcome_rejected_def plain_result_def stores_ok_def tick_def)
next
  case (loop w0 su c)
  from sync_loop_ok [OF scan n bs loop(6,9,7), of env]
  obtain r w' where "sync_loop env sops tops scan opts su (start_loop c) w0 = Some (r, w')" "final_ok w0 R su (r, w')"
    by auto
  then show ?thesis using final_sync_ok [OF _ _ loop(2,3)] loop(1,4,5) by auto
qed

text \<open>Without a source head the scan starts at the beginning, and no record is used, dropped or written.\<close>

lemma sync_headless_ok:
  assumes scan: "op_scanEntriesSince sops = Some scan" and n: "0 < option_or (o_pageSize opts) 1000"
    and bs: "0 < resolveTransferBatchSize opts" and ok: "stores_ok w"
    and head: "getStoreHeadSafe sops (w_source w) = None"
    and key: "key = syncScanCursorKey sops tops w" and rec: "record_sound R key w"
  shows "\<exists>out. sync_by_scan env sops tops scan opts w = Some out \<and> sync_ok R key w out"
proof -
  define su where "su = \<lparr> su_key = key, su_sourceHead = None, su_targetHead = getStoreHeadSafe tops (w_target w),
    su_targetBloom = getStoreBloomSummary tops (w_target w) \<rparr>"
  define w0 where "w0 = tick (tick (tick w))"
  have same: "w_source w0 = w_source w" "w_target w0 = w_target w" "w_cursors w0 = w_cursors w" by (simp_all add: w0_def tick_def)
  have run: "sync_by_scan env sops tops scan opts w = sync_loop env sops tops scan opts su (start_loop None) w0"
    by (simp add: sync_by_scan_def head resume_decision_def key su_def w0_def tick_def Let_def split: option.split)
  have ok0: "stores_ok w0" using ok same by (simp add: stores_ok_def)
  have "open_ok w0 R (start_loop None) w0"
    using evolves_refl [OF ok0] by (simp add: open_ok_def core_ok_def start_loop_def cursor_ok_def after_position_def)
  from sync_loop_open [OF scan n bs _ this, of su env]
  obtain r w' where "sync_loop env sops tops scan opts su (start_loop None) w0 = Some (r, w')" "final_ok w0 R su (r, w')"
    by (auto simp: su_def)
  moreover have "record_sound R (su_key su) w0"
    using rec same cursor_ok_stores [OF same(1,2)] by (simp add: record_sound_def su_def)
  moreover have "su_key su = key" by (simp add: su_def)
  ultimately show ?thesis using final_sync_ok [of w0 R su r w' w] same run by auto
qed

text \<open>The entry point: a throw during an abort becomes a cancelled result.\<close>

lemma syncEntriesFromStore_ok:
  assumes scan: "op_scanEntriesSince sops = Some scan" and n: "0 < option_or (o_pageSize opts) 1000"
    and bs: "0 < resolveTransferBatchSize opts" and mode: "o_mode opts \<noteq> Some mode_dense"
    and ok: "stores_ok w" and key: "key = syncScanCursorKey sops tops w" and rec: "record_sound R key w"
  shows "\<exists>out. syncEntriesFromStore env sops tops opts w = Some out \<and> sync_ok R key w out"
proof -
  obtain r w' where r: "sync_by_scan env sops tops scan opts w = Some (r, w')" "sync_ok R key w (r, w')"
    using sync_by_scan_ok [OF scan n bs ok _ key rec, of _ env] sync_headless_ok [OF scan n bs ok _ key rec, of env]
    by (cases "getStoreHeadSafe sops (w_source w)") auto
  have "sync_ok R key w (Inr (plain_result 0 True), w')" if "r = Inl e" for e
    using r(2) that by (simp add: sync_ok_def outcome_rejected_def plain_result_def)
  then show ?thesis
    using r mode by (cases r) (auto simp: syncEntriesFromStore_def syncEntriesFromStoreImpl_def scan)
qed

end

section \<open>Between stores that do not throw\<close>

text \<open>Without an abort and without a throwing store, a sync neither fails nor is cancelled.\<close>

definition completes :: "sync_error + sync_result \<Rightarrow> bool" where
  "completes r \<longleftrightarrow> (\<exists>res. r = Inr res \<and> \<not> res_cancelled res)"

definition smooth_page :: "('s, 't) page_outcome option \<Rightarrow> bool" where
  "smooth_page r \<longleftrightarrow>
     (case r of
        None \<Rightarrow> False
      | Some (Finished out) \<Rightarrow> completes (fst out)
      | Some (Continue ls w) \<Rightarrow> ls_nextPage ls \<noteq> Some None)"

lemma finish_completes [simp]: "smooth_page (Some (finish_scan su False ls w))"
  by (simp add: smooth_page_def finish_scan_def completes_def loop_result_def)

lemma end_page_smooth: "pf \<noteq> Some None \<Longrightarrow> smooth_page (Some (end_page su page pf pe reached ls w))"
  by (simp add: end_page_def Let_def) (simp add: smooth_page_def)

definition readable :: "scan_setup \<Rightarrow> bool" where
  "readable su \<longleftrightarrow> (\<forall>b i. su_targetBloom su = Some b \<longrightarrow> bloomMightContainId b i \<noteq> None)"

context reliable_pair begin

lemma fetch_page_smooth:
  assumes scan: "op_scanEntriesSince sops = Some scan" and ok: "stores_ok w" and pf: "ls_nextPage ls \<noteq> Some None"
  obtains page pf w1 where "fetch_page scan n ls w = (Some (page, pf), w1)" and "pf \<noteq> Some None"
proof -
  have ret: "\<exists>page s'. scan s c n = (Some page, s')" if "sinv s" for s c n
    using scan scan_returns that by (metis option.inject option.exhaust prod.collapse)
  have s: "sinv (w_source w)" using ok by (simp add: stores_ok_def)
  obtain page s1 where x: "(case ls_nextPage ls of Some r \<Rightarrow> (r, w_source w)
      | None \<Rightarrow> scan (w_source w) (ls_cursor ls) n) = (Some page, s1)"
    using ret [OF s, of "ls_cursor ls" n] pf by (cases "ls_nextPage ls") auto
  then have "sinv s1"
    using s scan_state [OF scan s] by (auto split: option.splits)
  then obtain pg s2 where "scan s1 (scan_nextCursor page) n = (Some pg, s2)" using ret by blast
  then show ?thesis using that x by (cases "scan_hasMore page") (auto simp: fetch_page_def Let_def)
qed

lemma transfer_page_smooth:
  assumes ok: "stores_ok w" and bs: "0 < resolveTransferBatchSize opts" and env: "env_abort env = None"
    and bloom: "readable su"
  obtains ls' w' where "transfer_page env sops tops opts su es ls w = Some (Inr (ls', w'))"
proof -
  define cand where "cand = filter (\<lambda>i. i \<notin> set (ls_transferredThisSync ls)) (map entry_id es)"
  have t: "tinv (w_target w)" using ok by (simp add: stores_ok_def)
  obtain missing where f: "(if cand \<noteq> [] then filterMissingIds tops (w_target w) cand (su_targetBloom su) else Inr []) = Inr missing"
  proof (cases "cand = []")
    case False
    obtain ms where "filterMissingIds tops (w_target w) cand (su_targetBloom su) = Inr ms"
      by (rule filterMissing_returns [OF t, where bloom = "su_targetBloom su" and ids = cand]) (use bloom in \<open>auto simp: readable_def\<close>)
    then show ?thesis using that False by simp
  qed (use that in simp)
  define w1 where "w1 = (if cand \<noteq> [] then tick w else w)"
  have ok1: "stores_ok w1" using ok by (simp add: w1_def stores_ok_def tick_def)
  obtain r w' where r: "transferEntriesInBatches env sops tops missing opts (ls_transferred ls) (ls_bytes ls) w1 = Some (r, w')"
    by (rule transfer_returns [OF ok1 bs]) blast
  obtain t where "r = Inr t" "\<not> tr_cancelled t" by (rule transfer_smooth [OF ok1 bs env r])
  then have "\<exists>ls' w'. transfer_missing env sops tops opts su missing ls w1 = Some (Inr (ls', w'))"
    using r by (simp add: transfer_missing_def Let_def)
  then show ?thesis
    using that f env by (cases "missing = []")
      (auto simp: transfer_page_def Let_def cand_def [symmetric] w1_def [symmetric] aborted_def)
qed

lemma sync_page_smooth:
  assumes scan: "op_scanEntriesSince sops = Some scan" and n: "0 < option_or (o_pageSize opts) 1000"
    and bs: "0 < resolveTransferBatchSize opts" and env: "env_abort env = None"
    and ok: "loop_ok w0 R ls w" and pf: "ls_nextPage ls \<noteq> Some None"
    and bloom: "readable su"
  shows "smooth_page (sync_page env sops tops scan opts su ls w)"
proof -
  have okw: "stores_ok w" using ok by (simp add: loop_ok_def core_ok_def evolves_def)
  obtain page pf' w1 where f: "fetch_page scan (option_or (o_pageSize opts) 1000) ls w = (Some (page, pf'), w1)"
    and pf': "pf' \<noteq> Some None" by (rule fetch_page_smooth [OF scan okw pf])
  have "stores_ok w1" using fetch_page_ok(1) [OF scan n ok f] by (simp add: evolves_def)
  note t = transfer_page_smooth [OF this bs env bloom]
  obtain pe reached where c: "clamp_page (map_option head_maxReceiptOrder (su_sourceHead su)) (scan_entries page) = (pe, reached)"
    by (rule prod.exhaust)
  have "\<exists>ls' w'. (if pe \<noteq> [] then transfer_page env sops tops opts su pe ls1 w1 else Some (Inr (ls1, w1))) = Some (Inr (ls', w'))" for ls1
  proof (cases "pe = []")
    case False
    obtain ls' w' where "transfer_page env sops tops opts su pe ls1 w1 = Some (Inr (ls', w'))" by (rule t)
    then show ?thesis using False by simp
  qed simp
  then obtain ls' w' where "(if pe \<noteq> [] then transfer_page env sops tops opts su pe
      (ls\<lparr> ls_scanned := ls_scanned ls + int (length pe) \<rparr>) w1
      else Some (Inr (ls\<lparr> ls_scanned := ls_scanned ls + int (length pe) \<rparr>, w1))) = Some (Inr (ls', w'))" by blast
  then have "sync_page env sops tops scan opts su ls w = Some (end_page su page pf' pe reached ls' w')"
    using env by (simp add: sync_page_def f process_page_def c Let_def aborted_def)
  then show ?thesis using end_page_smooth [OF pf'] by simp
qed

lemma sync_loop_smooth:
  assumes scan: "op_scanEntriesSince sops = Some scan" and n: "0 < option_or (o_pageSize opts) 1000"
    and bs: "0 < resolveTransferBatchSize opts" and env: "env_abort env = None" and ok0: "stores_ok w0"
    and bloom: "readable su"
    and head: "map_option head_maxReceiptOrder (su_sourceHead su) = Some (top_order (w_source w0))"
    and "loop_ok w0 R ls w" and "ls_nextPage ls \<noteq> Some None"
    and "sync_loop env sops tops scan opts su ls w = Some (r, w')"
  shows "completes r"
  using assms(8-10)
proof (induction "card {q \<in> positions (w_source w0). after_position (ls_cursor ls) q}" arbitrary: ls w rule: less_induct)
  case less
  note ok = sync_page_ok [OF scan n bs ok0 less.prems(1) head, of env]
  note smooth = sync_page_smooth [OF scan n bs env less.prems(1,2) bloom]
  obtain po where po: "sync_page env sops tops scan opts su ls w = Some po"
    using ok by (auto simp: page_outcome_ok_def split: option.splits)
  show ?case
  proof (cases po)
    case (Finished out)
    then have "out = (r, w')" using less.prems(3) po by (subst (asm) sync_loop.simps) simp
    then show ?thesis using smooth po Finished by (simp add: smooth_page_def)
  next
    case (Continue ls' u)
    then have "sync_loop env sops tops scan opts su ls' u = Some (r, w')"
      using less.prems(3) po by (subst (asm) sync_loop.simps) simp
    then show ?thesis
      using less.hyps [of ls' u] ok smooth po Continue by (simp add: page_outcome_ok_def smooth_page_def)
  qed
qed

lemma sync_by_scan_smooth:
  assumes scan: "op_scanEntriesSince sops = Some scan" and n: "0 < option_or (o_pageSize opts) 1000"
    and bs: "0 < resolveTransferBatchSize opts" and env: "env_abort env = None" and ok: "stores_ok w"
    and head: "getStoreHeadSafe sops (w_source w) = Some sh"
    and key: "key = syncScanCursorKey sops tops w" and rec: "record_sound R key w"
    and r: "sync_by_scan env sops tops scan opts w = Some (r, w')"
  shows "completes r"
proof (cases rule: sync_by_scan_cases [OF ok head key rec, of env scan opts, case_names skip loop])
  case skip
  then show ?thesis using r by (simp add: completes_def plain_result_def)
next
  case (loop w0 su c)
  have "readable su"
    using loop(8) ok bloom_readable by (auto simp: readable_def getStoreBloomSummary_def bind_eq_Some_conv stores_ok_def)
  moreover have "ls_nextPage (start_loop c) \<noteq> Some None" by (simp add: start_loop_def)
  ultimately show ?thesis using sync_loop_smooth [OF scan n bs env loop(6) _ loop(7,9)] r loop(1) by simp
qed

text \<open>A sync between reliable stores that is not aborted transfers everything.\<close>

lemma reliable_sync:
  assumes n: "0 < option_or (o_pageSize opts) 1000" and bs: "0 < resolveTransferBatchSize opts"
    and mode: "o_mode opts \<noteq> Some mode_dense" and env: "env_abort env = None"
    and ok: "stores_ok w" and key: "key = syncScanCursorKey sops tops w" and rec: "record_sound R key w"
  shows "\<exists>res w'. syncEntriesFromStore env sops tops opts w = Some (Inr res, w') \<and> \<not> res_cancelled res \<and>
    sync_ok R key w (Inr res, w')"
proof -
  obtain scan where scan: "op_scanEntriesSince sops = Some scan" using scan_returns by blast
  obtain sh where head: "getStoreHeadSafe sops (w_source w) = Some sh"
    using head_returns ok by (auto simp: getStoreHeadSafe_def stores_ok_def)
  obtain r w' where r: "sync_by_scan env sops tops scan opts w = Some (r, w')" "sync_ok R key w (r, w')"
    using sync_by_scan_ok [OF scan n bs ok head key rec, of env] by auto
  moreover have "completes r" by (rule sync_by_scan_smooth [OF scan n bs env ok head key rec r(1)])
  ultimately show ?thesis
    using mode by (auto simp: completes_def syncEntriesFromStore_def syncEntriesFromStoreImpl_def scan)
qed

end

section \<open>Two in-memory stores\<close>

interpretation memory_sync: reliable_pair
  "memory_ops lc" store_inv memory_positions storeEpoch memory_top "memory_ops lc" store_inv memory_stored storeEpoch
  for lc
  by intro_locales

end
