(* ===== verification/SyncProperties.thy ===== *)
theory SyncProperties
  imports SyncEngine
begin

text \<open>
  What a sync guarantees, for any pair of stores that keeps the contracts \<open>source_store\<close> and
  \<open>target_store\<close>: under every schedule of the concurrent batches, every abort time and every
  throwing store call. The contracts are kept by the in-memory store on both sides, and by a
  witnessing target that stamps receipts and rejects entries.
\<close>

section \<open>Dense sync\<close>

lemma set_needed_ids:
  "set (needed_ids creates deletes undeletes plans) =
     entry_id ` set (creates @ deletes @ undeletes) \<union>
     (\<Union>plan \<in> set plans. set (entryIdsToApply plan) \<union> (set_option (snapshotEntryId plan) - {''''}))"
proof -
  have life: "set (fold (\<lambda>m. set_add (entry_id m)) ms acc) = entry_id ` set ms \<union> set acc"
    for ms :: "store_entry_metadata list" and acc
    by (induction ms arbitrary: acc) auto
  have "set (fold (\<lambda>plan acc. fold set_add (entryIdsToApply plan)
      (case snapshotEntryId plan of Some i \<Rightarrow> if i \<noteq> '''' then set_add i acc else acc | None \<Rightarrow> acc)) plans acc) =
    set acc \<union> (\<Union>plan \<in> set plans. set (entryIdsToApply plan) \<union> (set_option (snapshotEntryId plan) - {''''}))"
    for acc and plans :: "document_plan list"
    by (induction plans arbitrary: acc) (auto simp: fold_set_add split: option.splits)
  then show ?thesis by (simp add: needed_ids_def Let_def life image_Un Un_ac)
qed

context sync_pair begin

text \<open>One page of a dense transfer: the put, and the receipts if there are any.\<close>

lemma dense_step_ok:
  assumes ev: "evolves w0 w" and get: "op_getEntries sops (w_source w) ids = Some es"
    and put: "op_putEntries tops (w_target w) es = (Some r, t')" and norm: "normalizePutResult r = (receipts, rej)"
    and w1: "w1 = tick (tick (w\<lparr> w_target := t' \<rparr>))"
    and rs: "persist_receipts sops receipts w1 = (ok, w2)"
  shows "evolves w0 w2" and "set ids \<inter> snd ` positions (w_source w0) \<subseteq> stored (w_target w2) \<union> rejected_id ` set rej"
proof -
  have inv: "sinv (w_source w)" "tinv (w_target w)" using ev by (simp_all add: evolves_def stores_ok_def)
  have ev1: "evolves w0 w1" unfolding w1 by (intro evolves_tick evolves_put [OF ev put])
  have ack: "ack_ok es r (stored (w_target w1))" using put_ack [OF inv(2) put] by (simp add: w1 tick_def)
  then have rec: "entry_id ` set receipts \<subseteq> stored (w_target w1)" by (simp add: ack_ok_def norm)
  show ev2: "evolves w0 w2"
    using rs ev1 evolves_receipts [OF ev1 _ _ rec]
    by (auto simp: persist_receipts_def intro: evolves_tick split: option.splits if_splits prod.splits)
  have "w_target w2 = w_target w1" using rs by (auto simp: persist_receipts_def tick_def split: option.splits if_splits prod.splits)
  moreover have "set ids \<inter> snd ` positions (w_source w0) \<subseteq> entry_id ` set es"
    using get_entries [OF inv(1) get] evolves_ids [OF ev] by simp
  ultimately show "set ids \<inter> snd ` positions (w_source w0) \<subseteq> stored (w_target w2) \<union> rejected_id ` set rej"
    using ack by (auto simp: ack_ok_def norm)
qed

definition dense_ok :: "('s, 't) sync_world \<Rightarrow> rejected_put_entry list \<Rightarrow> string list \<Rightarrow> ('s, 't) sync_outcome option \<Rightarrow> bool" where
  "dense_ok w0 rejected ids out \<longleftrightarrow>
     (\<exists>r w'. out = Some (r, w') \<and> evolves w0 w' \<and>
       (\<forall>res. r = Inr res \<longrightarrow> (\<exists>rs. res_rejected res = Some (rejected @ rs) \<and>
         (res_cancelled res \<or>
          set ids \<inter> snd ` positions (w_source w0) \<subseteq> stored (w_target w') \<union> rejected_id ` set rs))))"

lemma dense_ok_error: "evolves w0 w' \<Longrightarrow> dense_ok w0 rejected ids (Some (Inl e, w'))"
  by (simp add: dense_ok_def)

lemma dense_ok_step:
  assumes rest: "dense_ok w (rejected @ rej) (drop n ids) out" and ev: "evolves w0 w"
    and page: "set (take n ids) \<inter> snd ` positions (w_source w0) \<subseteq> stored (w_target w) \<union> rejected_id ` set rej"
  shows "dense_ok w0 rejected ids out"
proof -
  obtain r w' where out: "out = Some (r, w')" and ev': "evolves w w'"
    and res: "\<And>res. r = Inr res \<Longrightarrow> \<exists>rs. res_rejected res = Some ((rejected @ rej) @ rs) \<and>
      (res_cancelled res \<or> set (drop n ids) \<inter> snd ` positions (w_source w) \<subseteq> stored (w_target w') \<union> rejected_id ` set rs)"
    using rest unfolding dense_ok_def by auto
  have "set ids = set (take n ids) \<union> set (drop n ids)" by (metis append_take_drop_id set_append)
  moreover have "stored (w_target w) \<subseteq> stored (w_target w')" using ev' by (simp add: evolves_def)
  ultimately have arr: "set ids \<inter> snd ` positions (w_source w0) \<subseteq> stored (w_target w') \<union> rejected_id ` set (rej @ rs)"
    if "set (drop n ids) \<inter> snd ` positions (w_source w) \<subseteq> stored (w_target w') \<union> rejected_id ` set rs" for rs
    using that page evolves_ids [OF ev] by (simp add: image_Un) blast
  have "\<exists>rs. res_rejected rr = Some (rejected @ rs) \<and> (res_cancelled rr \<or>
      set ids \<inter> snd ` positions (w_source w0) \<subseteq> stored (w_target w') \<union> rejected_id ` set rs)" if rr: "r = Inr rr" for rr
  proof -
    obtain rs where rs: "res_rejected rr = Some (rejected @ (rej @ rs))"
      "res_cancelled rr \<or> set (drop n ids) \<inter> snd ` positions (w_source w) \<subseteq> stored (w_target w') \<union> rejected_id ` set rs"
      using res [OF rr] by auto
    then show ?thesis using arr [of rs] by blast
  qed
  then show ?thesis unfolding dense_ok_def out using evolves_trans [OF ev ev'] by auto
qed

lemma dense_transfer_ok:
  assumes n: "0 < n" and "stores_ok w"
  shows "dense_ok w rejected ids (dense_transfer env sops tops n ids scanned a b rejected w)"
  using assms(2)
proof (induction ids arbitrary: a b rejected w rule: length_induct)
  case (1 ids)
  have ev: "evolves w w" by (rule evolves_refl [OF 1(2)])
  show ?case
  proof (cases "ids = [] \<or> aborted env (w_clock w)")
    case True
    then show ?thesis using ev by (subst dense_transfer.simps) (auto simp: dense_ok_def)
  next
    case False
    show ?thesis
    proof (cases "op_getEntries sops (w_source w) (take n ids)")
      case None
      then show ?thesis using False dense_ok_error [OF evolves_tick [OF ev]] by (subst dense_transfer.simps) simp
    next
      case (Some es)
      obtain x t' where put: "op_putEntries tops (w_target w) es = (x, t')" by (rule prod.exhaust)
      define w1 where "w1 = tick (tick (w\<lparr> w_target := t' \<rparr>))"
      have ev1: "evolves w w1" unfolding w1_def by (intro evolves_tick evolves_put [OF ev put])
      show ?thesis
      proof (cases x)
        case None
        then show ?thesis using False Some put dense_ok_error [OF ev1]
          by (subst dense_transfer.simps) (simp add: w1_def)
      next
        case r: (Some r)
        obtain receipts rej where norm: "normalizePutResult r = (receipts, rej)" by (rule prod.exhaust)
        obtain ok w2 where rs: "persist_receipts sops receipts w1 = (ok, w2)" by (rule prod.exhaust)
        note step = dense_step_ok [OF ev Some put [unfolded r] norm w1_def rs]
        have "stores_ok w2" using step(1) by (simp add: evolves_def)
        moreover have "length (drop n ids) < length ids" using n False by simp
        ultimately have "dense_ok w2 (rejected @ rej) (drop n ids)
            (dense_transfer env sops tops n (drop n ids) scanned a' b' (rejected @ rej) w2)" for a' b'
          using 1(1) by blast
        from dense_ok_step [OF this step]
        have go: "dense_ok w rejected ids (dense_transfer env sops tops n (drop n ids) scanned a' b' (rejected @ rej) w2)" for a' b' .
        show ?thesis
          using False Some put r norm rs go dense_ok_error [OF step(1)]
          by (subst dense_transfer.simps) (simp add: w1_def Let_def)
      qed
    qed
  qed
qed

text \<open>The needed ids arrive: what a dense sync promises unless it throws or is cancelled.\<close>

definition arrives :: "string set \<Rightarrow> ('s, 't) sync_world \<Rightarrow> ('s, 't) sync_outcome option \<Rightarrow> bool" where
  "arrives ids w out \<longleftrightarrow>
     (\<exists>r w'. out = Some (r, w') \<and> evolves w w' \<and>
       (\<forall>res. r = Inr res \<longrightarrow> \<not> res_cancelled res \<longrightarrow>
          ids \<inter> snd ` positions (w_source w) \<subseteq> stored (w_target w') \<union> outcome_rejected r))"

lemma arrives_cancelled: "evolves w w' \<Longrightarrow> arrives ids w (Some (Inr (plain_result k True), w'))"
  by (simp add: arrives_def plain_result_def)

lemma arrives_error: "evolves w w' \<Longrightarrow> arrives ids w (Some (Inl e, w'))"
  by (simp add: arrives_def)

lemma arrives_trans: "evolves w w' \<Longrightarrow> arrives ids w' out \<Longrightarrow> arrives ids w out"
  unfolding arrives_def by (metis evolves_ids evolves_trans)

lemma dense_arrives:
  assumes "stores_ok w" and "0 < n" and miss: "ids \<subseteq> set ms \<union> stored (w_target w)"
  shows "arrives ids w (dense_transfer env sops tops n ms k 0 0 [] w)"
proof -
  obtain r w' where r: "dense_transfer env sops tops n ms k 0 0 [] w = Some (r, w')" and ev: "evolves w w'"
    and res: "\<And>res. r = Inr res \<Longrightarrow> \<exists>rs. res_rejected res = Some rs \<and> (res_cancelled res \<or>
      set ms \<inter> snd ` positions (w_source w) \<subseteq> stored (w_target w') \<union> rejected_id ` set rs)"
    using dense_transfer_ok [OF assms(2,1), of "[]" ms env k 0 0] unfolding dense_ok_def by auto
  have "ids \<inter> snd ` positions (w_source w) \<subseteq> stored (w_target w') \<union> outcome_rejected r"
    if rr: "r = Inr rr" "\<not> res_cancelled rr" for rr
  proof -
    obtain rs where "res_rejected rr = Some rs"
      "set ms \<inter> snd ` positions (w_source w) \<subseteq> stored (w_target w') \<union> rejected_id ` set rs"
      using res [OF rr(1)] rr(2) by blast
    moreover have "stored (w_target w) \<subseteq> stored (w_target w')" using ev by (simp add: evolves_def)
    ultimately show ?thesis using miss by (simp add: outcome_rejected_def rr(1)) blast
  qed
  then show ?thesis using r ev by (auto simp: arrives_def)
qed

lemma dense_needed_ok:
  assumes ok: "stores_ok w" and n: "0 < option_or (o_pageSize opts) 500"
  shows "arrives (set needed) w (dense_needed env sops tops opts needed w)"
proof -
  define w1 where "w1 = tick (tick w)"
  have ev: "evolves w w" by (rule evolves_refl [OF ok])
  then have ev1: "evolves w w1" unfolding w1_def by (intro evolves_tick)
  then have ok1: "stores_ok w1" by (simp add: evolves_def)
  have t1: "w_target w1 = w_target w" by (simp add: w1_def tick_def)
  show ?thesis
  proof (cases "filterMissingIds tops (w_target w) needed (getStoreBloomSummary tops (w_target w))")
    case (Inl e)
    then show ?thesis using arrives_cancelled [OF ev] arrives_error [OF ev1]
      by (simp add: dense_needed_def w1_def [symmetric] Let_def)
  next
    case (Inr ms)
    have miss: "set needed \<subseteq> set ms \<union> stored (w_target w1)"
      using filterMissing_sound(2) [OF _ Inr] ok t1 by (simp add: stores_ok_def)
    have "arrives (set needed) w (dense_transfer env sops tops (nat (option_or (o_pageSize opts) 500)) ms k 0 0 [] w1)" for k
      by (rule arrives_trans [OF ev1 dense_arrives [OF ok1 _ miss]]) (use n in simp)
    moreover have "arrives (set needed) w (Some (Inr (plain_result k False), w1))" if "ms = []" for k
      using miss ev1 that by (auto simp: arrives_def plain_result_def)
    ultimately show ?thesis using Inr arrives_cancelled [OF ev] arrives_cancelled [OF ev1]
      by (simp add: dense_needed_def w1_def [symmetric] Let_def)
  qed
qed

lemma dense_sync_ok:
  assumes ok: "stores_ok w" and n: "0 < option_or (o_pageSize opts) 500" and dense: "o_mode opts = Some mode_dense"
    and finds: "op_findEntries sops (w_source w) doc_create None None = Some creates"
      "op_findEntries sops (w_source w) doc_delete None None = Some deletes"
      "op_findEntries sops (w_source w) doc_undelete None None = Some undeletes"
    and plans: "op_planBatch sops (w_source w) (js_dedup (map docId creates)) = Some plans" and ne: "creates \<noteq> []"
  shows "arrives (set (needed_ids creates deletes undeletes plans)) w (syncEntriesFromStore env sops tops opts w)"
proof -
  let ?ids = "set (needed_ids creates deletes undeletes plans)"
  have ev: "evolves w w" by (rule evolves_refl [OF ok])
  then have ev3: "evolves w (tick (tick (tick w)))" and ev4: "evolves w (tick (tick (tick (tick w))))"
    by (intro evolves_tick; assumption)+
  have ids: "js_dedup (map docId creates) \<noteq> []"
    using ne set_js_dedup [of "map docId creates"] by (metis list.map_disc_iff set_empty)
  have "arrives ?ids w (dense_needed env sops tops opts (needed_ids creates deletes undeletes plans) (tick (tick (tick (tick w)))))"
    by (rule arrives_trans [OF ev4 dense_needed_ok [OF _ n]]) (use ev4 in \<open>simp add: evolves_def\<close>)
  then have "arrives ?ids w (syncEntriesFromStoreDense env sops tops opts w)"
    using arrives_cancelled [OF ev] arrives_cancelled [OF ev3] ids
    by (simp add: syncEntriesFromStoreDense_def finds plans Let_def)
  then obtain r w' where r: "syncEntriesFromStoreDense env sops tops opts w = Some (r, w')" "arrives ?ids w (Some (r, w'))"
    by (auto simp: arrives_def)
  show ?thesis
  proof (cases r)
    case (Inl e)
    have "evolves w w'" using r(2) by (simp add: arrives_def)
    then show ?thesis using r Inl dense arrives_cancelled by (simp add: syncEntriesFromStore_def)
  next
    case (Inr res)
    then show ?thesis using r dense by (simp add: syncEntriesFromStore_def)
  qed
qed

end

section \<open>A witnessing target\<close>

text \<open>
  A target as a server behaves: it stores what it accepts, returns a receipt for each, and rejects
  the entry \<^verbatim>\<open>c\<close>. It keeps the contract, so the contracts allow rejections and receipts.
\<close>

definition witnessing_ops :: "in_memory_store store_ops" where
  "witnessing_ops = (memory_ops (\<lambda>_ _. 0))\<lparr>
     op_putEntries := (\<lambda>s es.
       let accepted = filter (\<lambda>e. entry_id e \<noteq> ''c'') es
       in (Some (PutEntriesAck
             (Some (map (\<lambda>e. (entry_rest e)\<lparr> receivedAt := Some 7, receivedByPublicKey := Some ''w'' \<rparr>) accepted))
             (Some (map (\<lambda>e. \<lparr> rejected_id = entry_id e, rejected_reason = ''signature'' \<rparr>)
                (filter (\<lambda>e. entry_id e = ''c'') es)))),
           putEntries s accepted)) \<rparr>"

lemma witnessing_sel [simp]:
  "op_hasEntries witnessing_ops = op_hasEntries (memory_ops (\<lambda>_ _. 0))"
  "op_getIdBloomSummary witnessing_ops = op_getIdBloomSummary (memory_ops (\<lambda>_ _. 0))"
  "op_getStoreHead witnessing_ops = op_getStoreHead (memory_ops (\<lambda>_ _. 0))"
  by (simp_all add: witnessing_ops_def)

interpretation witnessing_target: reliable_target witnessing_ops store_inv memory_stored storeEpoch
proof
  show "store_inv t' \<and> storeEpoch t' = storeEpoch t \<and> memory_stored t \<subseteq> memory_stored t'"
    if "store_inv t" "op_putEntries witnessing_ops t es = (r, t')" for t es r t'
    using that memory_put [OF that(1), of "filter (\<lambda>e. entry_id e \<noteq> ''c'') es"] by (auto simp: witnessing_ops_def Let_def)
  show "ack_ok es ack (memory_stored t')"
    if "store_inv t" "op_putEntries witnessing_ops t es = (Some ack, t')" for t es ack t'
    using that memory_put(3) [OF that(1), of "filter (\<lambda>e. entry_id e \<noteq> ''c'') es"]
    by (auto simp: witnessing_ops_def Let_def ack_ok_def normalizePutResult_def image_image)
  show "fst (op_putEntries witnessing_ops t es) \<noteq> None" for t es
    by (simp add: witnessing_ops_def Let_def)
qed (use memory_target.has_entries memory_target.bloom_summary memory_target.target_head
    memory_target.has_returns memory_target.bloom_readable in \<open>auto simp del: memory_ops_sel\<close>)

interpretation witnessing_sync: reliable_pair
  "memory_ops (\<lambda>_ _. 0)" store_inv memory_positions storeEpoch memory_top witnessing_ops store_inv memory_stored storeEpoch
  by intro_locales

section \<open>The guarantees\<close>

text \<open>The ids that the result of a sync reports as rejected.\<close>

definition rejected_ids :: "sync_error + sync_result \<Rightarrow> string set" where
  "rejected_ids r =
     (case r of
        Inl e \<Rightarrow> {}
      | Inr res \<Rightarrow> (case res_rejected res of None \<Rightarrow> {} | Some rs \<Rightarrow> rejected_id ` set rs))"

text \<open>
  The persisted cursor of \<open>key\<close> is sound: if both stores still have the recorded epochs, then
  every source entry up to the cursor's receipt order is at the target, or among \<open>R\<close>.
\<close>

definition persisted_cursor_sound ::
  "('s \<Rightarrow> position set) \<Rightarrow> ('s \<Rightarrow> string) \<Rightarrow> ('s \<Rightarrow> int) \<Rightarrow> ('t \<Rightarrow> string set) \<Rightarrow> ('t \<Rightarrow> string) \<Rightarrow> string set \<Rightarrow> string \<Rightarrow>
   ('s, 't) sync_world \<Rightarrow> bool" where
  "persisted_cursor_sound positions sepoch top_order stored tepoch R key w \<longleftrightarrow>
     (\<forall>r. map_of (w_cursors w) key = Some r \<and> rec_sourceEpoch r = sepoch (w_source w) \<and>
          rec_targetEpoch r = tepoch (w_target w) \<longrightarrow>
        cursor_receiptOrder (rec_cursor r) \<le> top_order (w_source w) \<and>
        (\<forall>(n, i) \<in> positions (w_source w). n \<le> cursor_receiptOrder (rec_cursor r) \<longrightarrow> i \<in> stored (w_target w) \<union> R))"

context sync_pair begin

lemma record_sound_iff:
  "record_sound R key w = persisted_cursor_sound positions sepoch top_order stored tepoch R key w"
  unfolding record_sound_def persisted_cursor_sound_def cursor_ok_def by fastforce

lemma outcome_rejected_ids: "outcome_rejected r = rejected_ids r"
  by (simp add: outcome_rejected_def rejected_ids_def)

end

text \<open>
  C21. Whatever the stores throw, the heads included, whenever the sync is aborted and however its
  concurrent batches are scheduled, a cursor sync of a source that can scan, with positive page and
  batch sizes, returns, also when the source gives no head and the scan has no bound. The cursor it
  leaves behind is sound: no later sync that resumes from it, or is skipped because of it, misses an
  entry that was neither transferred nor rejected. If it reports neither an error nor a
  cancellation, everything the source had is at the target or was rejected.
\<close>

theorem sync_cursor_sound:
  assumes "sync_pair sops sinv positions sepoch top_order tops tinv stored tepoch"
    and "sinv (w_source w)" and "tinv (w_target w)"
    and "0 < option_or (o_pageSize opts) 1000" and "0 < resolveTransferBatchSize opts"
    and "o_mode opts \<noteq> Some mode_dense" and "op_scanEntriesSince sops \<noteq> None"
    and "key = syncScanCursorKey sops tops w"
    and "persisted_cursor_sound positions sepoch top_order stored tepoch R key w"
  shows "\<exists>r w'. syncEntriesFromStore env sops tops opts w = Some (r, w') \<and>
    sinv (w_source w') \<and> tinv (w_target w') \<and> stored (w_target w) \<subseteq> stored (w_target w') \<and>
    persisted_cursor_sound positions sepoch top_order stored tepoch (R \<union> rejected_ids r) key w' \<and>
    (\<forall>res. r = Inr res \<and> \<not> res_cancelled res \<longrightarrow>
       snd ` positions (w_source w) \<subseteq> stored (w_target w') \<union> R \<union> rejected_ids r)"
proof -
  obtain scan where "op_scanEntriesSince sops = Some scan" using assms(7) by blast
  then obtain r w' where r: "syncEntriesFromStore env sops tops opts w = Some (r, w')"
    "sync_pair.sync_ok sinv positions sepoch top_order tinv stored tepoch R key w (r, w')"
    using sync_pair.syncEntriesFromStore_ok [OF assms(1) _ assms(4-6) _ assms(8), of scan R env] assms(2,3,9)
    by (auto simp: sync_pair.stores_ok_def [OF assms(1)] sync_pair.record_sound_iff [OF assms(1)])
  then show ?thesis
    by (auto simp: sync_pair.sync_ok_def [OF assms(1)] sync_pair.stores_ok_def [OF assms(1)]
        sync_pair.record_sound_iff [OF assms(1)] sync_pair.outcome_rejected_ids [OF assms(1)])
qed

text \<open>
  A source with three entries, a fresh witnessing target, batches of one entry, and an abort that
  fires while the sync runs.
\<close>

definition demo_world :: "(in_memory_store, in_memory_store) sync_world" where
  "demo_world = \<lparr> w_source = demo_store, w_target = new_store ''remote'' kind_docs ''e1'' True,
     w_cursors = [], w_cacheMetaDirty = False, w_clock = 0 \<rparr>"

definition demo_options :: sync_options where
  "demo_options = \<lparr> o_pageSize = Some 2, o_transferBatchSize = Some 1, o_storeKind = None, o_mode = None,
     o_forceFullScan = False, o_maxConcurrentBatches = None \<rparr>"

lemma demo_sizes: "0 < option_or (o_pageSize demo_options) 1000" "0 < resolveTransferBatchSize demo_options"
  "o_mode demo_options \<noteq> Some mode_dense"
  by (simp_all add: demo_options_def option_or_def resolveTransferBatchSize_def)

lemma demo_world_ok: "store_inv (w_source demo_world)" "store_inv (w_target demo_world)"
  by (simp_all add: demo_world_def demo_store_inv store_inv_new)

lemma demo_no_cursor: "persisted_cursor_sound positions sepoch top_order stored tepoch R key demo_world"
  by (simp add: persisted_cursor_sound_def demo_world_def)

theorem sync_cursor_sound_witness:
  "\<exists>r w'. syncEntriesFromStore \<lparr> env_abort = Some 9, env_pick = (\<lambda>n. n) \<rparr> (memory_ops (\<lambda>_ _. 0)) witnessing_ops
       demo_options demo_world = Some (r, w') \<and> store_inv (w_source w') \<and>
     persisted_cursor_sound memory_positions storeEpoch memory_top memory_stored storeEpoch (rejected_ids r)
       (syncScanCursorKey (memory_ops (\<lambda>_ _. 0)) witnessing_ops demo_world) w'"
  using sync_cursor_sound [OF witnessing_sync.sync_pair_axioms demo_world_ok demo_sizes _ refl demo_no_cursor,
    of "\<lparr> env_abort = Some 9, env_pick = (\<lambda>n. n) \<rparr>" "{}"]
  by (auto simp: getStoreHeadSafe_def)

text \<open>
  C22. Between stores that do not throw, a cursor sync with positive page and batch sizes that is
  not aborted ends without an error, however its batches are scheduled and however its cursor was left by an earlier sync, and
  everything the source had is then at the target, unless some sync reported it as rejected.
\<close>

theorem sync_terminates_complete:
  assumes "reliable_pair sops sinv positions sepoch top_order tops tinv stored tepoch"
    and "sinv (w_source w)" and "tinv (w_target w)"
    and "0 < option_or (o_pageSize opts) 1000" and "0 < resolveTransferBatchSize opts"
    and "o_mode opts \<noteq> Some mode_dense" and "env_abort env = None"
    and "key = syncScanCursorKey sops tops w"
    and "persisted_cursor_sound positions sepoch top_order stored tepoch R key w"
  shows "\<exists>res w'. syncEntriesFromStore env sops tops opts w = Some (Inr res, w') \<and> \<not> res_cancelled res \<and>
    snd ` positions (w_source w) \<subseteq> stored (w_target w') \<union> R \<union> rejected_ids (Inr res)"
proof -
  have pair: "sync_pair sops sinv positions sepoch top_order tops tinv stored tepoch"
    using assms(1) by (simp add: reliable_pair_def)
  obtain res w' where "syncEntriesFromStore env sops tops opts w = Some (Inr res, w')" "\<not> res_cancelled res"
    "sync_pair.sync_ok sinv positions sepoch top_order tinv stored tepoch R key w (Inr res, w')"
    using reliable_pair.reliable_sync [OF assms(1,4-7) _ assms(8), of R] assms(2,3,9)
    by (auto simp: sync_pair.stores_ok_def [OF pair] sync_pair.record_sound_iff [OF pair])
  then show ?thesis
    by (auto simp: sync_pair.sync_ok_def [OF pair] sync_pair.outcome_rejected_ids [OF pair])
qed

theorem sync_terminates_complete_witness:
  "\<exists>res w'. syncEntriesFromStore \<lparr> env_abort = None, env_pick = (\<lambda>n. n * n + 1) \<rparr> (memory_ops (\<lambda>_ _. 0)) witnessing_ops
       demo_options demo_world = Some (Inr res, w') \<and> \<not> res_cancelled res \<and>
     {''a'', ''b'', ''c''} \<subseteq> memory_stored (w_target w') \<union> rejected_ids (Inr res)"
proof -
  have "snd ` memory_positions (w_source demo_world) = {''a'', ''b'', ''c''}"
    using memory_positions_ids [OF entries_of_store [OF demo_store_inv]] demo_ids
    by (simp add: demo_world_def getAllIds_def del: set_map)
  then show ?thesis
    using sync_terminates_complete [OF witnessing_sync.reliable_pair_axioms demo_world_ok demo_sizes _ refl demo_no_cursor,
      of "\<lparr> env_abort = None, env_pick = (\<lambda>n. n * n + 1) \<rparr>" "{}"] by simp
qed

text \<open>
  Asking the target which ids it misses, through its Bloom summary or without one, returns
  exactly the ids that it does not store: a false positive of the filter is caught by the exact
  check, and the filter has no false negative.
\<close>

theorem filter_missing_exact:
  assumes "reliable_target tops tinv stored tepoch" and "tinv t"
    and "bloom = getStoreBloomSummary tops t \<or> bloom = None"
  shows "\<exists>ms. filterMissingIds tops t ids bloom = Inr ms \<and> set ms = set ids - stored t"
proof -
  have target: "target_store tops tinv stored tepoch" using assms(1) by (simp add: reliable_target_def)
  have bloom: "bloomMightContainId b i \<noteq> None" "i \<in> stored t \<Longrightarrow> bloomMightContainId b i = Some True"
    if "bloom = Some b" for b i
  proof -
    have "getStoreBloomSummary tops t = Some b" using that assms(3) by auto
    then obtain bl where "op_getIdBloomSummary tops = Some bl" "bl t = Some b"
      by (auto simp: getStoreBloomSummary_def bind_eq_Some_conv)
    then show "bloomMightContainId b i \<noteq> None" "i \<in> stored t \<Longrightarrow> bloomMightContainId b i = Some True"
      using reliable_target.bloom_readable [OF assms(1) _ assms(2)] target_store.bloom_summary [OF target _ assms(2)] by blast+
  qed
  obtain ms where ms: "filterMissingIds tops t ids bloom = Inr ms"
    by (rule reliable_target.filterMissing_returns [OF assms(1,2), where bloom = bloom and ids = ids])
      (use bloom(1) in blast)+
  then show ?thesis using target_store.filterMissing_exact [OF target assms(2) ms] bloom(2) by blast
qed

theorem filter_missing_exact_witness:
  "\<exists>ms. filterMissingIds (memory_ops (\<lambda>_ _. 0)) demo_store [''a'', ''z''] (Some (getIdBloomSummary demo_store)) = Inr ms \<and>
     set ms = {''z''}"
proof -
  have "memory_stored demo_store = {''a'', ''b'', ''c''}" using demo_ids by (simp add: getAllIds_def del: set_map)
  then show ?thesis
    using filter_missing_exact [OF memory_target.reliable_target_axioms demo_store_inv,
      of "Some (getIdBloomSummary demo_store)" "\<lambda>_ _. 0" "[''a'', ''z'']"]
    by (simp add: getStoreBloomSummary_def)
qed

text \<open>
  C23. Dense sync, with a positive page size, leaves the target with everything it takes to rebuild the latest state of every
  document: if the source has a \<^verbatim>\<open>doc_create\<close> entry, the lifecycle entries, the snapshot of every
  materialization plan and the entries to replay on top of it are at the target or were rejected,
  unless the sync throws or is cancelled. A source without one is left alone, and so is the target:
  delete and undelete entries are then not transferred either.
\<close>

theorem dense_sync_covers_plans:
  assumes "sync_pair sops sinv positions sepoch top_order tops tinv stored tepoch"
    and "sinv (w_source w)" and "tinv (w_target w)"
    and "0 < option_or (o_pageSize opts) 500" and "o_mode opts = Some mode_dense"
    and "op_findEntries sops (w_source w) doc_create None None = Some creates"
    and "op_findEntries sops (w_source w) doc_delete None None = Some deletes"
    and "op_findEntries sops (w_source w) doc_undelete None None = Some undeletes"
    and "creates \<noteq> [] \<Longrightarrow> op_planBatch sops (w_source w) (js_dedup (map docId creates)) = Some plans"
  shows "\<exists>r w'. syncEntriesFromStore env sops tops opts w = Some (r, w') \<and>
    (creates = [] \<longrightarrow> w_source w' = w_source w \<and> w_target w' = w_target w) \<and>
    (\<forall>res. creates \<noteq> [] \<and> r = Inr res \<and> \<not> res_cancelled res \<longrightarrow>
      (\<forall>i \<in> snd ` positions (w_source w).
         i \<in> entry_id ` set (creates @ deletes @ undeletes) \<or>
         (\<exists>plan \<in> set plans. i \<in> set (entryIdsToApply plan) \<or> snapshotEntryId plan = Some i \<and> i \<noteq> '''') \<longrightarrow>
         i \<in> stored (w_target w') \<union> rejected_ids r))"
proof (cases "creates = []")
  case True
  then show ?thesis
    using assms(5-8) by (auto simp: syncEntriesFromStore_def syncEntriesFromStoreDense_def tick_def plain_result_def js_dedup_def)
next
  case False
  have ok: "sync_pair.stores_ok sinv tinv w"
    using assms(2,3) by (simp add: sync_pair.stores_ok_def [OF assms(1)])
  obtain r w' where r: "syncEntriesFromStore env sops tops opts w = Some (r, w')"
    and arr: "\<And>res. r = Inr res \<Longrightarrow> \<not> res_cancelled res \<Longrightarrow>
      set (needed_ids creates deletes undeletes plans) \<inter> snd ` positions (w_source w) \<subseteq>
        stored (w_target w') \<union> rejected_ids r"
    using sync_pair.dense_sync_ok [OF assms(1) ok assms(4-8) assms(9) [OF False] False, of env]
    unfolding sync_pair.arrives_def [OF assms(1)] sync_pair.outcome_rejected_ids [OF assms(1)] by auto
  have "i \<in> set (needed_ids creates deletes undeletes plans)"
    if "i \<in> entry_id ` set (creates @ deletes @ undeletes) \<or>
      (\<exists>plan \<in> set plans. i \<in> set (entryIdsToApply plan) \<or> snapshotEntryId plan = Some i \<and> i \<noteq> [])" for i
    using that by (auto simp: set_needed_ids)
  then show ?thesis using r arr False by blast
qed

definition dense_store :: in_memory_store where
  "dense_store = putEntries (new_store ''db'' kind_docs ''e0'' True)
     [entry_with_data (sample_metadata doc_create ''a'' ''d'' [] ''h1'' 0) [1],
      sample_entry ''b'' ''d'' [''a''] ''h2'' [2]]"

definition dense_world :: "(in_memory_store, in_memory_store) sync_world" where
  "dense_world = demo_world\<lparr> w_source := dense_store \<rparr>"

lemma dense_store_inv: "store_inv dense_store"
  unfolding dense_store_def by (intro putEntries_inv store_inv_new)

lemma dense_store_entries:
  "map_values (entries dense_store) =
     [(sample_metadata doc_create ''a'' ''d'' [] ''h1'' 0)\<lparr> receiptOrder := Some 1 \<rparr>,
      (sample_metadata doc_change ''b'' ''d'' [''a''] ''h2'' 0)\<lparr> receiptOrder := Some 2 \<rparr>]"
  by (simp add: dense_store_def put_entry_def new_store_def map_has_def Let_def putEntries_def)

lemma dense_plans:
  "map entryIdsToApply (planDocumentMaterializationBatch dense_store [''d''] False) = [[''a'', ''b'']]"
  by (simp add: planDocumentMaterializationBatch_def dense_store_entries) code_simp

theorem dense_sync_covers_plans_witness:
  "\<exists>r w'. syncEntriesFromStore \<lparr> env_abort = None, env_pick = (\<lambda>n. n) \<rparr> (memory_ops (\<lambda>_ _. 0)) witnessing_ops
       (demo_options\<lparr> o_mode := Some mode_dense \<rparr>) dense_world = Some (r, w') \<and>
     (\<forall>res. r = Inr res \<and> \<not> res_cancelled res \<longrightarrow> {''a'', ''b''} \<subseteq> memory_stored (w_target w') \<union> rejected_ids r)"
proof -
  let ?creates = "findEntries dense_store doc_create None None"
  have w: "w_source dense_world = dense_store" "store_inv (w_source dense_world)" "store_inv (w_target dense_world)"
    using demo_world_ok by (simp_all add: dense_world_def dense_store_inv)
  have creates: "map entry_id ?creates = [''a'']" "map docId ?creates = [''d'']"
    by (simp_all add: findEntries_def dense_store_entries)
  have dedup: "js_dedup (map docId ?creates) = [''d'']" by (simp add: creates(2) js_dedup_def set_add_def)
  have pos: "snd ` memory_positions (w_source dense_world) = {''a'', ''b''}"
    by (simp add: memory_positions_def w(1) dense_store_entries position_of_def image_image del: set_map)
  have "[''a'', ''b''] \<in> entryIdsToApply ` set (planDocumentMaterializationBatch dense_store [''d''] False)"
    using arg_cong [OF dense_plans, of set] by simp
  then obtain plan where "plan \<in> set (planDocumentMaterializationBatch dense_store [''d''] False)"
    "entryIdsToApply plan = [''a'', ''b'']" by force
  then have needed: "\<exists>plan \<in> set (planDocumentMaterializationBatch dense_store [''d''] False). i \<in> set (entryIdsToApply plan)"
    if "i \<in> {''a'', ''b''}" for i using that by (intro bexI [of _ plan]) auto
  have args: "0 < option_or (o_pageSize (demo_options\<lparr> o_mode := Some mode_dense \<rparr>)) 500"
    "o_mode (demo_options\<lparr> o_mode := Some mode_dense \<rparr>) = Some mode_dense"
    "op_findEntries (memory_ops (\<lambda>_ _. 0)) (w_source dense_world) doc_create None None = Some ?creates"
    "op_findEntries (memory_ops (\<lambda>_ _. 0)) (w_source dense_world) doc_delete None None =
       Some (findEntries dense_store doc_delete None None)"
    "op_findEntries (memory_ops (\<lambda>_ _. 0)) (w_source dense_world) doc_undelete None None =
       Some (findEntries dense_store doc_undelete None None)"
    "op_planBatch (memory_ops (\<lambda>_ _. 0)) (w_source dense_world) (js_dedup (map docId ?creates)) =
       Some (planDocumentMaterializationBatch dense_store [''d''] False)"
    by (simp_all add: w(1) dedup) (simp_all add: demo_options_def option_or_def)
  have ne: "?creates \<noteq> []" using creates(1) by auto
  from dense_sync_covers_plans [OF witnessing_sync.sync_pair_axioms w(2,3) args,
      where env = "\<lparr> env_abort = None, env_pick = (\<lambda>n. n) \<rparr>"]
  obtain r w' where r: "syncEntriesFromStore \<lparr> env_abort = None, env_pick = (\<lambda>n. n) \<rparr> (memory_ops (\<lambda>_ _. 0)) witnessing_ops
       (demo_options\<lparr> o_mode := Some mode_dense \<rparr>) dense_world = Some (r, w')"
    and all: "\<forall>res. ?creates \<noteq> [] \<and> r = Inr res \<and> \<not> res_cancelled res \<longrightarrow>
      (\<forall>i \<in> {''a'', ''b''}.
         i \<in> entry_id ` set (?creates @ findEntries dense_store doc_delete None None @
           findEntries dense_store doc_undelete None None) \<or>
         (\<exists>plan \<in> set (planDocumentMaterializationBatch dense_store [''d''] False).
            i \<in> set (entryIdsToApply plan) \<or> snapshotEntryId plan = Some i \<and> i \<noteq> '''') \<longrightarrow>
         i \<in> memory_stored (w_target w') \<union> rejected_ids r)"
    unfolding pos by (elim exE conjE) (rule that)
  have "i \<in> memory_stored (w_target w') \<union> rejected_ids r"
    if fin: "r = Inr res" "\<not> res_cancelled res" "i \<in> {''a'', ''b''}" for res i
  proof -
    obtain plan where "plan \<in> set (planDocumentMaterializationBatch dense_store [''d''] False)"
      "i \<in> set (entryIdsToApply plan)" using needed [OF fin(3)] by (rule bexE)
    then show ?thesis using all fin ne by blast
  qed
  then show ?thesis using r by (intro exI [of _ r] exI [of _ w']) (simp add: subset_iff)
qed

end
