(* ===== verification/DocumentDag.thy ===== *)
theory DocumentDag
  imports MaterializationPlanner TimedOrder
begin

text \<open>
  The causal graph of one document's entries (\<^verbatim>\<open>core/DocumentDagAnalysis.ts\<close>, first part):
  the causal order of the timeline, the pruning of entries whose ancestry is incomplete, the
  ancestors of a head and the lifecycle state a set of heads stands for.

  Ties in \<^verbatim>\<open>createdAt\<close> are broken by \<^verbatim>\<open>localeCompare\<close>, the parameter
  \<open>lc\<close>. A \<^verbatim>\<open>Map\<close> from ids to entries is \<open>by_id\<close> of the planner; the arrays used
  as stacks have their top first.
\<close>

section \<open>Entries of the graph\<close>

definition DAG_ENTRY_TYPES :: "store_entry_type list" where
  "DAG_ENTRY_TYPES = [doc_create, doc_change, doc_delete, doc_undelete, doc_snapshot]"

definition LIFECYCLE_TERMINAL_ENTRY_TYPES :: "store_entry_type list" where
  "LIFECYCLE_TERMINAL_ENTRY_TYPES = [doc_delete, doc_undelete]"

definition isDagEntry :: "store_entry_metadata \<Rightarrow> bool" where
  "isDagEntry e \<longleftrightarrow> entryType e \<in> set DAG_ENTRY_TYPES"

definition compareByCreatedAtThenId ::
  "(string \<Rightarrow> string \<Rightarrow> int) \<Rightarrow> store_entry_metadata \<Rightarrow> store_entry_metadata \<Rightarrow> int" where
  "compareByCreatedAtThenId lc left right =
     (if createdAt left \<noteq> createdAt right then createdAt left - createdAt right
      else lc (entry_id left) (entry_id right))"

definition compareEntryIdsByMetadata ::
  "(string \<Rightarrow> string \<Rightarrow> int) \<Rightarrow> (string, store_entry_metadata) jsmap \<Rightarrow> string \<Rightarrow> string \<Rightarrow> int" where
  "compareEntryIdsByMetadata lc replayById leftId rightId =
     (case (map_of replayById leftId, map_of replayById rightId) of
        (Some left, Some right) \<Rightarrow> compareByCreatedAtThenId lc left right
      | _ \<Rightarrow> lc leftId rightId)"

text \<open>\<^verbatim>\<open>getSnapshotRoots\<close> reads the same two fields as the planner's coverage.\<close>

definition getSnapshotRoots :: "store_entry_metadata \<Rightarrow> string list" where
  "getSnapshotRoots entry =
     (case snapshotHeadEntryIds entry of
        Some ids \<Rightarrow> if length ids > 0 then ids else dependencyIds entry
      | None \<Rightarrow> dependencyIds entry)"

section \<open>Causal order\<close>

text \<open>The dependencies of an entry inside the slice.\<close>

definition dag_deps :: "(string, store_entry_metadata) jsmap \<Rightarrow> store_entry_metadata \<Rightarrow> string list" where
  "dag_deps byId entry =
     filter (map_has byId)
       (if entryType entry = doc_snapshot then getSnapshotRoots entry else dependencyIds entry)"

text \<open>The counters and the child lists: one entry, then all.\<close>

definition dag_link ::
  "(string, store_entry_metadata) jsmap \<Rightarrow> (string, int) jsmap \<times> (string, string list) jsmap \<Rightarrow>
   store_entry_metadata \<Rightarrow> (string, int) jsmap \<times> (string, string list) jsmap" where
  "dag_link byId st entry =
     (let deps = dag_deps byId entry
      in (AList.update (entry_id entry) (int (length deps)) (fst st),
          foldl (\<lambda>children dependencyId.
                   AList.update dependencyId (get_or_nil children dependencyId @ [entry_id entry]) children)
            (snd st) deps))"

text \<open>\<^verbatim>\<open>ready.findIndex\<close>, then \<^verbatim>\<open>push\<close> or \<^verbatim>\<open>splice\<close>.\<close>

fun insert_ready ::
  "('a \<Rightarrow> 'a \<Rightarrow> int) \<Rightarrow> 'a \<Rightarrow> 'a list \<Rightarrow> 'a list" where
  "insert_ready cmp child [] = [child]"
| "insert_ready cmp child (entry # queue) =
     (if cmp child entry < 0 then child # entry # queue else entry # insert_ready cmp child queue)"

text \<open>
  One child of the entry just emitted. Every child id is the id of an entry of the slice, so the
  lookup that the code asserts with \<^verbatim>\<open>!\<close> succeeds.
\<close>

definition dag_release ::
  "(store_entry_metadata \<Rightarrow> store_entry_metadata \<Rightarrow> int) \<Rightarrow> (string, store_entry_metadata) jsmap \<Rightarrow>
   (string, int) jsmap \<times> store_entry_metadata list \<Rightarrow> string \<Rightarrow>
   (string, int) jsmap \<times> store_entry_metadata list" where
  "dag_release cmp byId st childId =
     (let (remainingDeps, queue) = st;
          left = (case map_of remainingDeps childId of Some n \<Rightarrow> n | None \<Rightarrow> 1) - 1
      in (AList.update childId left remainingDeps,
          if left = 0 then
            (case map_of byId childId of Some child \<Rightarrow> insert_ready cmp child queue | None \<Rightarrow> queue)
          else queue))"

text \<open>
  The loop ends on every input: an id with a counter is released when the counter drops from one
  to zero, and an id without one gets a counter. \<open>pos_sum\<close> is the sum of the positive counters.
\<close>

definition uncounted :: "(string, string list) jsmap \<Rightarrow> (string, int) jsmap \<Rightarrow> nat" where
  "uncounted childIds remainingDeps =
     card (set (concat (map_values childIds)) - set (map_keys remainingDeps))"

lemma length_insert_ready [simp]: "length (insert_ready cmp c xs) = Suc (length xs)"
  by (induction xs) auto

lemma dag_release_measure:
  assumes "dag_release cmp byId (rem, queue) c = (rem', queue')" and "c \<in> set (concat (map_values childIds))"
  shows "pos_sum rem' + length queue' + uncounted childIds rem' \<le>
         pos_sum rem + length queue + uncounted childIds rem"
proof (cases "map_of rem c")
  case None
  then have c: "c \<notin> set (map_keys rem)" by (simp add: map_of_eq_None_iff)
  have rem': "rem' = AList.update c 0 rem" and queue': "length queue' \<le> Suc (length queue)"
    using assms(1) None by (auto simp: dag_release_def Let_def split: option.splits)
  have "pos_sum rem' \<le> pos_sum rem" using pos_sum_update [of c 0 rem] by (simp add: rem')
  moreover have "uncounted childIds rem' < uncounted childIds rem"
    unfolding uncounted_def by (rule psubset_card_mono) (use c assms(2) in \<open>auto simp: rem' keys_update\<close>)
  ultimately show ?thesis using queue' by linarith
next
  case (Some n)
  then have c: "c \<in> set (map_keys rem)" using map_of_Some_key [of rem c n] by simp
  have rem': "rem' = AList.update c (n - 1) rem"
    and queue': "length queue' \<le> (if n = 1 then Suc (length queue) else length queue)"
    using assms(1) Some by (auto simp: dag_release_def Let_def split: option.splits)
  have "pos_sum rem' + nat n = pos_sum rem + nat (n - 1)"
    using pos_sum_update [of c "n - 1" rem] Some by (simp add: rem' get_or_0_def)
  moreover have "uncounted childIds rem' = uncounted childIds rem"
    using c by (simp add: uncounted_def rem' keys_update)
  ultimately show ?thesis using queue' by (auto split: if_splits)
qed

lemma dag_releases_measure:
  assumes "foldl (dag_release cmp byId) (rem, queue) cs = (rem', queue')"
    and "set cs \<subseteq> set (concat (map_values childIds))"
  shows "pos_sum rem' + length queue' + uncounted childIds rem' \<le>
         pos_sum rem + length queue + uncounted childIds rem"
  using assms
proof (induction cs arbitrary: rem queue)
  case (Cons c cs)
  obtain rem1 queue1 where step: "dag_release cmp byId (rem, queue) c = (rem1, queue1)" by fastforce
  with Cons.prems have "foldl (dag_release cmp byId) (rem1, queue1) cs = (rem', queue')" by simp
  from Cons.IH [OF this] dag_release_measure [OF step, of childIds] Cons.prems(2) show ?case by auto
qed simp

lemma get_or_nil_values: "set (get_or_nil m k) \<subseteq> set (concat (map_values m))"
  by (cases "map_of m k") (force simp: get_or_nil_def dest: map_of_SomeD)+

function dag_loop ::
  "(store_entry_metadata \<Rightarrow> store_entry_metadata \<Rightarrow> int) \<Rightarrow> (string, store_entry_metadata) jsmap \<Rightarrow>
   (string, string list) jsmap \<Rightarrow> (string, int) jsmap \<Rightarrow> store_entry_metadata list \<Rightarrow>
   store_entry_metadata list \<Rightarrow> store_entry_metadata list" where
  "dag_loop cmp byId childIds remainingDeps [] result = result"
| "dag_loop cmp byId childIds remainingDeps (e # queue) result =
     (case foldl (dag_release cmp byId) (remainingDeps, queue) (get_or_nil childIds (entry_id e)) of
        (remainingDeps', queue') \<Rightarrow> dag_loop cmp byId childIds remainingDeps' queue' (result @ [e]))"
  by pat_completeness auto
termination
proof (relation "measure (\<lambda>(cmp, byId, childIds, rem, queue, result).
    pos_sum rem + length queue + uncounted childIds rem)", goal_cases)
  case (2 cmp byId childIds rem e queue result rem' queue')
  then show ?case
    using dag_releases_measure [of cmp byId rem queue "get_or_nil childIds (entry_id e)" rem' queue' childIds]
      get_or_nil_values [of childIds "entry_id e"] by (auto simp: less_Suc_eq_le)
qed simp

declare dag_loop.simps(2) [simp del]

definition orderDagEntriesCausally ::
  "(string \<Rightarrow> string \<Rightarrow> int) \<Rightarrow> store_entry_metadata list \<Rightarrow> store_entry_metadata list" where
  "orderDagEntriesCausally lc dagEntries =
     (let byId = by_id dagEntries;
          cmp = compareByCreatedAtThenId lc;
          (remainingDeps, childIds) = foldl (dag_link byId) ([], []) dagEntries;
          queue = js_sort cmp (filter (\<lambda>e. map_of remainingDeps (entry_id e) = Some 0) dagEntries);
          result = dag_loop cmp byId childIds remainingDeps queue []
      in if length result < length dagEntries then
           result @ js_sort cmp (filter (\<lambda>e. entry_id e \<notin> entry_id ` set result) dagEntries)
         else result)"

section \<open>The causal order is the earliest-first order\<close>

lemma compare_created_timed: "compareByCreatedAtThenId lc = timed_cmp lc createdAt entry_id"
  by (intro ext) (simp add: compareByCreatedAtThenId_def timed_cmp_def)

context collation begin

lemma timed: "timed_collation lc"
  by unfold_locales

lemma created_comparator: "js_comparator (compareByCreatedAtThenId lc)"
  unfolding compare_created_timed by (rule timed_collation.comparator [OF timed])

lemma created_anti:
  "compareByCreatedAtThenId lc x y \<le> 0 \<Longrightarrow> compareByCreatedAtThenId lc y x \<le> 0 \<Longrightarrow> entry_id x = entry_id y"
  unfolding compare_created_timed by (rule timed_collation.timed_anti [OF timed])

lemma created_sort_by_set:
  "set xs = set ys \<Longrightarrow> distinct (map entry_id xs) \<Longrightarrow> distinct (map entry_id ys) \<Longrightarrow>
   js_sort (compareByCreatedAtThenId lc) xs = js_sort (compareByCreatedAtThenId lc) ys"
  unfolding compare_created_timed by (rule timed_collation.sort_by_set [OF timed])

end

context strict_collation begin

lemma created_sign: "\<not> compareByCreatedAtThenId lc x y < 0 \<Longrightarrow> compareByCreatedAtThenId lc y x \<le> 0"
  using lc_sign [of "entry_id x" "entry_id y"] lc_sign [of "entry_id y" "entry_id x"]
  by (auto simp: compareByCreatedAtThenId_def split: if_splits)

end

text \<open>
  The abstract specification: each element of the list is the least of the entries that are
  ready when it is emitted, where ready means not yet emitted with all dependencies emitted.
  It speaks of the set of entries only.
\<close>

abbreviation ids_of :: "store_entry_metadata list \<Rightarrow> string list" where
  "ids_of es \<equiv> map entry_id es"

definition earliest_first ::
  "(store_entry_metadata \<Rightarrow> store_entry_metadata \<Rightarrow> int) \<Rightarrow> store_entry_metadata set \<Rightarrow>
   (string \<Rightarrow> string set) \<Rightarrow> store_entry_metadata list \<Rightarrow> bool" where
  "earliest_first cmp E D xs \<longleftrightarrow>
     (\<forall>k < length xs. xs ! k \<in> E \<and> entry_id (xs ! k) \<in> ready (entry_id ` E) D (ids_of (take k xs)) \<and>
        (\<forall>e \<in> E. entry_id e \<in> ready (entry_id ` E) D (ids_of (take k xs)) \<longrightarrow> cmp (xs ! k) e \<le> 0))"

lemma earliest_first_Nil [simp]: "earliest_first cmp E D []"
  by (simp add: earliest_first_def)

lemma earliest_first_snoc [simp]:
  "earliest_first cmp E D (xs @ [x]) \<longleftrightarrow>
     earliest_first cmp E D xs \<and> x \<in> E \<and> entry_id x \<in> ready (entry_id ` E) D (ids_of xs) \<and>
     (\<forall>e \<in> E. entry_id e \<in> ready (entry_id ` E) D (ids_of xs) \<longrightarrow> cmp x e \<le> 0)"
  by (auto simp: earliest_first_def nth_append less_Suc_eq all_conj_distrib)

lemma earliest_first_sound:
  "earliest_first cmp E D xs \<Longrightarrow>
   set xs \<subseteq> E \<and> distinct (ids_of xs) \<and> deps_first D (ids_of xs)"
  by (induction xs rule: rev_induct) (auto simp: ready_def)

lemma earliest_first_unique:
  assumes xs: "earliest_first cmp E D xs" "ready (entry_id ` E) D (ids_of xs) = {}"
    and ys: "earliest_first cmp E D ys" "ready (entry_id ` E) D (ids_of ys) = {}"
    and anti: "\<And>x y. x \<in> E \<Longrightarrow> y \<in> E \<Longrightarrow> cmp x y \<le> 0 \<Longrightarrow> cmp y x \<le> 0 \<Longrightarrow> x = y"
  shows "xs = ys"
proof -
  have same: "take k xs = take k ys" if "k \<le> length xs" "k \<le> length ys" for k
    using that
  proof (induction k)
    case (Suc k)
    then have pre: "take k xs = take k ys" and k: "k < length xs" "k < length ys" by auto
    then have "xs ! k = ys ! k"
      using xs(1) ys(1) anti unfolding earliest_first_def by metis
    then show ?case using pre k by (simp add: take_Suc_conv_app_nth)
  qed simp
  have shorter: "length ys \<le> length xs" if "ready (entry_id ` E) D (ids_of xs) = {}"
    "earliest_first cmp E D ys" "length xs \<le> length ys \<Longrightarrow> take (length xs) ys = xs" for xs ys
  proof (rule ccontr)
    assume "\<not> length ys \<le> length xs"
    then have k: "length xs < length ys" "take (length xs) ys = xs" using that(3) by auto
    then have "entry_id (ys ! length xs) \<in> ready (entry_id ` E) D (ids_of xs)"
      using that(2) unfolding earliest_first_def by metis
    with that(1) show False by simp
  qed
  have "length ys \<le> length xs" "length xs \<le> length ys"
    using shorter [OF xs(2) ys(1)] shorter [OF ys(2) xs(1)] same [of "length xs"] same [of "length ys"]
    by auto
  then show ?thesis using same [of "length xs"] by simp
qed

text \<open>Without cycles everything becomes ready sooner or later.\<close>

lemma ready_exhausts:
  assumes "ready S D xs = {}" and "\<And>i. i \<in> S \<Longrightarrow> D i \<subseteq> S" and "wf {(d, i). i \<in> S \<and> d \<in> D i}"
  shows "S \<subseteq> set xs"
proof
  fix i assume "i \<in> S"
  with assms(3) show "i \<in> set xs"
  proof (induction i rule: wf_induct_rule)
    case (less i)
    then have "D i \<subseteq> set xs" using assms(2) [of i] by auto
    then show ?case using assms(1) less.prems by (auto simp: ready_def)
  qed
qed

subsection \<open>The loop keeps the invariant\<close>

lemma set_insert_ready [simp]: "set (insert_ready cmp c xs) = insert c (set xs)"
  by (induction xs) auto

lemma distinct_insert_ready [simp]:
  "distinct (ids_of (insert_ready cmp c xs)) \<longleftrightarrow> entry_id c \<notin> entry_id ` set xs \<and> distinct (ids_of xs)"
  by (induction xs) auto

context strict_collation begin

lemma insert_ready_sorted:
  assumes "sorted_wrt (\<lambda>a b. compareByCreatedAtThenId lc a b \<le> 0) xs"
  shows "sorted_wrt (\<lambda>a b. compareByCreatedAtThenId lc a b \<le> 0)
    (insert_ready (compareByCreatedAtThenId lc) c xs)"
  using assms
proof (induction xs)
  case (Cons x xs)
  have trans: "compareByCreatedAtThenId lc c y \<le> 0" if "compareByCreatedAtThenId lc c x < 0" "y \<in> set xs" for y
    using Cons.prems that js_comparator.cmp_trans [OF created_comparator, of c x y] by auto
  show ?case using Cons trans created_sign [of c x] by auto
qed simp

end

lemma get_or_0_key: "k \<in> set (map_keys m) \<Longrightarrow> map_of m k = Some (get_or_0 m k)"
  by (auto simp: get_or_0_def map_of_eq_None_iff split: option.splits)

lemma dag_releases:
  assumes "foldl (dag_release cmp byId) (rem, q) L = (rem', q')"
    and "\<forall>x \<in> set L. \<exists>e. map_of byId x = Some e \<and> entry_id e = x"
    and "set L \<subseteq> set (map_keys rem)"
    and "\<forall>x. int (count (mset L) x) \<le> get_or_0 rem x \<or> x \<notin> set L"
  shows "map_keys rem' = map_keys rem \<and>
         (\<forall>x. get_or_0 rem' x = get_or_0 rem x - int (count (mset L) x)) \<and>
         set q' = set q \<union> {e. \<exists>x \<in> set L. map_of byId x = Some e \<and> get_or_0 rem x = int (count (mset L) x)} \<and>
         (distinct (ids_of q) \<and> entry_id ` set q \<inter> set L = {} \<longrightarrow> distinct (ids_of q'))"
  using assms
proof (induction L arbitrary: rem q)
  case (Cons d L)
  obtain c where c: "map_of byId d = Some c" "entry_id c = d" using Cons.prems(2) by auto
  have d: "d \<in> set (map_keys rem)" using Cons.prems(3) by simp
  define rem1 where "rem1 = AList.update d (get_or_0 rem d - 1) rem"
  define q1 where "q1 = (if get_or_0 rem d = 1 then insert_ready cmp c q else q)"
  have "dag_release cmp byId (rem, q) d = (rem1, q1)"
    using c(1) by (simp add: dag_release_def Let_def rem1_def q1_def get_or_0_key [OF d])
  then have rest: "foldl (dag_release cmp byId) (rem1, q1) L = (rem', q')" using Cons.prems(1) by simp
  have keys: "map_keys rem1 = map_keys rem" using d by (simp add: rem1_def keys_update)
  have bound: "1 + int (count (mset L) d) \<le> get_or_0 rem d"
    using spec [OF Cons.prems(4), of d] by simp
  have bounds: "int (count (mset L) y) \<le> get_or_0 rem y \<or> y \<notin> set L" for y
    using spec [OF Cons.prems(4), of y] by (auto split: if_splits)
  have pre: "\<forall>y. int (count (mset L) y) \<le> get_or_0 rem1 y \<or> y \<notin> set L"
    using bound bounds by (auto simp: rem1_def)
  have none_left: "d \<notin> set L" if "get_or_0 rem d = 1"
  proof -
    have "count (mset L) d = 0" using bound that by simp
    then show ?thesis by (metis count_eq_zero_iff set_mset_mset)
  qed
  have sub: "set L \<subseteq> set (map_keys rem1)" "\<forall>x \<in> set L. \<exists>e. map_of byId x = Some e \<and> entry_id e = x"
    using Cons.prems(2,3) by (simp_all add: keys)
  note IH = Cons.IH [OF rest sub(2,1) pre]
  have same: "get_or_0 rem x = int (count (mset (d # L)) x) \<longleftrightarrow> get_or_0 rem1 x = int (count (mset L) x)" for x
    by (auto simp: rem1_def)
  have head: "d \<in> set L \<or> get_or_0 rem d = 1" if "get_or_0 rem d = int (count (mset (d # L)) d)"
    using that by (cases "d \<in> set L") (simp_all add: count_eq_zero_iff)
  have one: "get_or_0 rem d = int (count (mset (d # L)) d)" if "get_or_0 rem d = 1"
    using that none_left by (simp add: count_eq_zero_iff)
  have "{e. \<exists>x \<in> set (d # L). map_of byId x = Some e \<and> get_or_0 rem x = int (count (mset (d # L)) x)} =
      (if get_or_0 rem d = 1 then {c} else {}) \<union>
      {e. \<exists>x \<in> set L. map_of byId x = Some e \<and> get_or_0 rem1 x = int (count (mset L) x)}"
    (is "?A = ?B \<union> ?C")
  proof (intro equalityI subsetI)
    fix e assume "e \<in> ?A"
    then obtain x where x: "x \<in> set (d # L)" "map_of byId x = Some e"
      "get_or_0 rem x = int (count (mset (d # L)) x)" by blast
    show "e \<in> ?B \<union> ?C"
    proof (cases "x \<in> set L")
      case True
      with x show ?thesis unfolding same by blast
    next
      case False
      with x have "x = d" by simp
      with x head False c(1) show ?thesis by auto
    qed
  next
    fix e assume "e \<in> ?B \<union> ?C"
    then consider "get_or_0 rem d = 1" "e = c"
      | x where "x \<in> set L" "map_of byId x = Some e" "get_or_0 rem1 x = int (count (mset L) x)"
      by (auto split: if_splits)
    then show "e \<in> ?A"
    proof cases
      case 1
      then show ?thesis using one c(1) by (intro CollectI bexI [of _ d]) simp_all
    next
      case 2
      then show ?thesis unfolding same by (intro CollectI bexI [of _ x]) simp_all
    qed
  qed
  then have "set q' = set q \<union>
      {e. \<exists>x \<in> set (d # L). map_of byId x = Some e \<and> get_or_0 rem x = int (count (mset (d # L)) x)}"
    using IH by (auto simp: q1_def)
  moreover have "\<forall>x. get_or_0 rem' x = get_or_0 rem x - int (count (mset (d # L)) x)"
    using IH by (simp add: rem1_def)
  moreover have "distinct (ids_of q) \<and> entry_id ` set q \<inter> set (d # L) = {} \<longrightarrow> distinct (ids_of q')"
    using IH none_left c(2) by (auto simp: q1_def split: if_splits)
  ultimately show ?case using IH keys by metis
qed simp

definition dag_inv ::
  "(store_entry_metadata \<Rightarrow> store_entry_metadata \<Rightarrow> int) \<Rightarrow> store_entry_metadata set \<Rightarrow>
   (string \<Rightarrow> string list) \<Rightarrow> (string, string list) jsmap \<Rightarrow> (string, int) jsmap \<Rightarrow>
   store_entry_metadata list \<Rightarrow> store_entry_metadata list \<Rightarrow> bool" where
  "dag_inv cmp E D childIds rem q result \<longleftrightarrow>
     entry_id ` E \<subseteq> set (map_keys rem) \<and>
     (\<forall>i \<in> entry_id ` E.
        get_or_0 rem i = int (length (filter (\<lambda>d. d \<notin> set (ids_of result)) (D i)))) \<and>
     (\<forall>j. \<forall>i. count (mset (get_or_nil childIds j)) i =
        (if i \<in> entry_id ` E then count (mset (D i)) j else 0)) \<and>
     sorted_wrt (\<lambda>a b. cmp a b \<le> 0) q \<and> distinct (ids_of q) \<and> set q \<subseteq> E \<and>
     set (ids_of q) = ready (entry_id ` E) (\<lambda>i. set (D i)) (ids_of result) \<and>
     earliest_first cmp E (\<lambda>i. set (D i)) result"

context strict_collation begin

lemma dag_releases_sorted:
  assumes "foldl (dag_release (compareByCreatedAtThenId lc) byId) (rem, q) L = (rem', q')"
    and "sorted_wrt (\<lambda>a b. compareByCreatedAtThenId lc a b \<le> 0) q"
  shows "sorted_wrt (\<lambda>a b. compareByCreatedAtThenId lc a b \<le> 0) q'"
  using assms
proof (induction L arbitrary: rem q)
  case (Cons d L)
  obtain rem1 q1 where step: "dag_release (compareByCreatedAtThenId lc) byId (rem, q) d = (rem1, q1)" by fastforce
  then have "sorted_wrt (\<lambda>a b. compareByCreatedAtThenId lc a b \<le> 0) q1"
    using Cons.prems(2) insert_ready_sorted by (auto simp: dag_release_def Let_def split: if_splits option.splits)
  then show ?case using Cons.IH [of rem1 q1] Cons.prems(1) step by simp
qed simp

lemma dag_inv_step:
  assumes inv: "dag_inv (compareByCreatedAtThenId lc) E D childIds rem (e # q) result"
    and rel: "foldl (dag_release (compareByCreatedAtThenId lc) byId) (rem, q)
                (get_or_nil childIds (entry_id e)) = (rem', q')"
    and lookup: "\<And>f. f \<in> E \<Longrightarrow> map_of byId (entry_id f) = Some f"
  shows "dag_inv (compareByCreatedAtThenId lc) E D childIds rem' q' (result @ [e])"
proof -
  let ?cmp = "compareByCreatedAtThenId lc" and ?S = "entry_id ` E" and ?i = "entry_id e"
  let ?L = "get_or_nil childIds ?i" and ?ord = "ids_of result"
  let ?open = "\<lambda>x. length (filter (\<lambda>d. d \<notin> insert ?i (set ?ord)) (D x))"
  have cnt: "count (mset ?L) x = (if x \<in> ?S then count (mset (D x)) ?i else 0)" for x
    using inv by (simp add: dag_inv_def)
  have q: "distinct (ids_of (e # q))" "set (ids_of (e # q)) = ready ?S (\<lambda>i. set (D i)) ?ord"
    "set (e # q) \<subseteq> E" "sorted_wrt (\<lambda>a b. ?cmp a b \<le> 0) (e # q)"
    and ef: "earliest_first ?cmp E (\<lambda>i. set (D i)) result" and keys: "?S \<subseteq> set (map_keys rem)"
    using inv by (simp_all add: dag_inv_def)
  have r: "?i \<in> ready ?S (\<lambda>i. set (D i)) ?ord" using q(2) by auto
  then have new: "?i \<notin> set ?ord" by (simp add: ready_def)
  have first: "deps_first (\<lambda>i. set (D i)) ?ord" using earliest_first_sound [OF ef] by simp
  have L: "x \<in> set ?L \<longleftrightarrow> x \<in> ?S \<and> ?i \<in> set (D x)" for x
    using mem_count [of x ?L] mem_count [of ?i "D x"] cnt [of x] by simp
  have counter: "get_or_0 rem x = int (length (filter (\<lambda>d. d \<notin> set ?ord) (D x)))" if "x \<in> ?S" for x
    using inv that unfolding dag_inv_def by blast
  have open_eq: "get_or_0 rem x = int (?open x) + int (count (mset ?L) x)" if "x \<in> ?S" for x
    using counter [OF that] length_filter_remove [OF new, of "D x"] cnt [of x] that by simp
  have pre: "\<forall>x. int (count (mset ?L) x) \<le> get_or_0 rem x \<or> x \<notin> set ?L"
    using open_eq L by auto
  have byid: "\<forall>x \<in> set ?L. \<exists>f. map_of byId x = Some f \<and> entry_id f = x" using L lookup by force
  have "set ?L \<subseteq> set (map_keys rem)" using L keys by blast
  note rs = dag_releases [OF rel byid this pre] and st = ready_step [where D = D, OF r first L]
  have ids: "x \<in> ?S \<Longrightarrow> get_or_0 rem x = int (count (mset ?L) x) \<longleftrightarrow> ?open x = 0" for x
    using open_eq by simp
  have released: "f \<in> set q' \<longleftrightarrow> f \<in> set q \<or> (f \<in> E \<and> entry_id f \<in> set ?L \<and> ?open (entry_id f) = 0)" for f
  proof -
    have "(\<exists>x \<in> set ?L. map_of byId x = Some f \<and> get_or_0 rem x = int (count (mset ?L) x)) \<longleftrightarrow>
        (f \<in> E \<and> entry_id f \<in> set ?L \<and> ?open (entry_id f) = 0)"
      using L lookup ids by (smt (verit) imageE option.inject)
    then show ?thesis using rs by simp
  qed
  have "set (ids_of q') = set (ids_of q) \<union> {x \<in> set ?L. ?open x = 0}"
    using released L by auto
  moreover have "set (ids_of q) = ready ?S (\<lambda>i. set (D i)) ?ord - {?i}"
    unfolding q(2) [symmetric] using q(1) by (simp add: insert_Diff_if)
  ultimately have ready': "set (ids_of q') = ready ?S (\<lambda>i. set (D i)) (?ord @ [?i])" using st(1) by simp
  have dist: "distinct (ids_of q')" using rs q st(2) by auto
  have sorted': "sorted_wrt (\<lambda>a b. ?cmp a b \<le> 0) q'" using dag_releases_sorted [OF rel] q(4) by simp
  have sub: "set q' \<subseteq> E" using released q(3) by auto
  have least: "?cmp e f \<le> 0" if f: "f \<in> E" "entry_id f \<in> ready ?S (\<lambda>i. set (D i)) ?ord" for f
  proof -
    have "entry_id f \<in> set (ids_of (e # q))" using f(2) unfolding q(2) .
    then obtain g where g: "g \<in> set (e # q)" "entry_id g = entry_id f"
      unfolding set_map by (metis imageE)
    from lookup [OF subsetD [OF q(3) g(1)], unfolded g(2)] lookup [OF f(1)]
    have "Some g = Some f" by (rule trans [OF sym])
    then have "f \<in> set (e # q)" using g(1) by (simp only: option.inject)
    moreover have "?cmp e e \<le> 0" using js_comparator.cmp_total [OF created_comparator, of e e] by blast
    ultimately show ?thesis using q(4) by auto
  qed
  have counts: "\<forall>i \<in> ?S. get_or_0 rem' i = int (?open i)" using rs open_eq by simp
  have "earliest_first ?cmp E (\<lambda>i. set (D i)) (result @ [e])" using ef q(3) r least by simp
  then show ?thesis
    using inv counts ready' dist sorted' sub keys rs by (simp add: dag_inv_def)
qed

lemma dag_loop_earliest_first:
  assumes "dag_inv (compareByCreatedAtThenId lc) E D childIds rem q result"
    and "\<And>f. f \<in> E \<Longrightarrow> map_of byId (entry_id f) = Some f"
  shows "earliest_first (compareByCreatedAtThenId lc) E (\<lambda>i. set (D i))
           (dag_loop (compareByCreatedAtThenId lc) byId childIds rem q result) \<and>
         ready (entry_id ` E) (\<lambda>i. set (D i))
           (ids_of (dag_loop (compareByCreatedAtThenId lc) byId childIds rem q result)) = {}"
  using assms
proof (induction "compareByCreatedAtThenId lc" byId childIds rem q result rule: dag_loop.induct)
  case (1 byId childIds rem result)
  then show ?case by (simp add: dag_inv_def)
next
  case (2 byId childIds rem e q result)
  obtain rem' q' where rel: "foldl (dag_release (compareByCreatedAtThenId lc) byId) (rem, q)
      (get_or_nil childIds (entry_id e)) = (rem', q')" by fastforce
  show ?case
    using "2.hyps" [OF rel [symmetric] dag_inv_step [OF "2.prems"(1) rel "2.prems"(2)] "2.prems"(2)]
    by (simp add: dag_loop.simps(2) rel)
qed

end

subsection \<open>The counters and child lists\<close>

lemma link_children:
  "count (mset (get_or_nil (foldl (\<lambda>children dependencyId.
       AList.update dependencyId (get_or_nil children dependencyId @ [i]) children) children deps) j)) x =
   count (mset (get_or_nil children j)) x + (if x = i then count (mset deps) j else 0)"
  by (induction deps arbitrary: children) auto

lemma dag_links:
  assumes "foldl (dag_link byId) ([], []) es = (rem, childIds)" and "distinct (ids_of es)"
  shows "set (map_keys rem) = set (ids_of es) \<and>
         (\<forall>e \<in> set es. get_or_0 rem (entry_id e) = int (length (dag_deps byId e)) \<and>
            (\<forall>j. count (mset (get_or_nil childIds j)) (entry_id e) = count (mset (dag_deps byId e)) j)) \<and>
         (\<forall>i. i \<notin> entry_id ` set es \<longrightarrow> (\<forall>j. count (mset (get_or_nil childIds j)) i = 0))"
  using assms
proof (induction es arbitrary: rem childIds rule: rev_induct)
  case Nil
  then show ?case by (simp add: get_or_nil_def)
next
  case (snoc e es)
  obtain rem0 ch0 where f: "foldl (dag_link byId) ([], []) es = (rem0, ch0)" by fastforce
  have IH: "set (map_keys rem0) = set (ids_of es)"
    "\<And>f. f \<in> set es \<Longrightarrow> get_or_0 rem0 (entry_id f) = int (length (dag_deps byId f))"
    "\<And>f j. f \<in> set es \<Longrightarrow> count (mset (get_or_nil ch0 j)) (entry_id f) = count (mset (dag_deps byId f)) j"
    "\<And>i j. i \<notin> entry_id ` set es \<Longrightarrow> count (mset (get_or_nil ch0 j)) i = 0"
    using snoc.IH [OF f] snoc.prems(2) by auto
  have new: "entry_id e \<notin> entry_id ` set es" using snoc.prems(2) by simp
  have eq: "rem = AList.update (entry_id e) (int (length (dag_deps byId e))) rem0"
    "childIds = foldl (\<lambda>children dependencyId.
       AList.update dependencyId (get_or_nil children dependencyId @ [entry_id e]) children) ch0 (dag_deps byId e)"
    using snoc.prems(1) by (simp_all add: f) (simp_all add: dag_link_def Let_def)
  have "set (map_keys rem) = set (ids_of (es @ [e]))"
    using IH(1) by (auto simp: eq(1) keys_update)
  moreover have "get_or_0 rem (entry_id f) = int (length (dag_deps byId f)) \<and>
      (\<forall>j. count (mset (get_or_nil childIds j)) (entry_id f) = count (mset (dag_deps byId f)) j)"
    if "f \<in> set (es @ [e])" for f
  proof (cases "f = e")
    case True
    then show ?thesis using IH(4) [OF new] by (simp add: eq link_children)
  next
    case False
    then have "f \<in> set es" using that by simp
    moreover from this have "entry_id f \<noteq> entry_id e" using new by (metis imageI)
    ultimately show ?thesis using IH(2,3) by (simp add: eq link_children)
  qed
  moreover have "count (mset (get_or_nil childIds j)) i = 0" if "i \<notin> entry_id ` set (es @ [e])" for i j
    using that IH(4) [of i] by (auto simp: eq link_children)
  ultimately show ?case by blast
qed

text \<open>The dependencies of an id inside the slice, and acyclicity of the slice.\<close>

definition dag_deps_of :: "store_entry_metadata list \<Rightarrow> string \<Rightarrow> string list" where
  "dag_deps_of es i = (case map_of (by_id es) i of None \<Rightarrow> [] | Some e \<Rightarrow> dag_deps (by_id es) e)"

definition dag_acyclic :: "store_entry_metadata list \<Rightarrow> bool" where
  "dag_acyclic es \<longleftrightarrow> acyclic {(d, i). i \<in> set (ids_of es) \<and> d \<in> set (dag_deps_of es i)}"

lemma dag_deps_of_eq: "distinct (ids_of es) \<Longrightarrow> e \<in> set es \<Longrightarrow> dag_deps_of es (entry_id e) = dag_deps (by_id es) e"
  using by_id_Some [of es "entry_id e" e] by (simp add: dag_deps_of_def)

lemma dag_deps_of_subset: "set (dag_deps_of es i) \<subseteq> set (ids_of es)"
  by (auto simp: dag_deps_of_def dag_deps_def by_id_has split: option.splits if_splits)

context strict_collation begin

lemma causal_order_greedy:
  assumes "distinct (ids_of es)"
  obtains xs where "earliest_first (compareByCreatedAtThenId lc) (set es) (\<lambda>i. set (dag_deps_of es i)) xs"
    and "ready (entry_id ` set es) (\<lambda>i. set (dag_deps_of es i)) (ids_of xs) = {}"
    and "orderDagEntriesCausally lc es =
      (if length xs < length es
       then xs @ js_sort (compareByCreatedAtThenId lc) (filter (\<lambda>e. entry_id e \<notin> entry_id ` set xs) es) else xs)"
proof -
  let ?cmp = "compareByCreatedAtThenId lc" and ?byId = "by_id es"
  obtain rem childIds where links: "foldl (dag_link ?byId) ([], []) es = (rem, childIds)" by fastforce
  define q where "q = js_sort ?cmp (filter (\<lambda>e. map_of rem (entry_id e) = Some 0) es)"
  note l = dag_links [OF links assms]
  have keys: "map_of rem (entry_id e) = Some 0 \<longleftrightarrow> dag_deps ?byId e = []" if "e \<in> set es" for e
    using l that get_or_0_key [of "entry_id e" rem] by simp
  have q: "set q = {e \<in> set es. dag_deps ?byId e = []}" using keys by (auto simp: q_def)
  have "mset (ids_of q) = mset (ids_of (filter (\<lambda>e. map_of rem (entry_id e) = Some 0) es))"
    unfolding q_def by simp
  then have "distinct (ids_of q)" using assms by (metis distinct_map_filter mset_eq_imp_distinct_iff)
  moreover have "sorted_wrt (\<lambda>a b. ?cmp a b \<le> 0) q"
    unfolding q_def by (rule js_comparator.js_sort_sorted [OF created_comparator])
  moreover have "set (ids_of q) = ready (entry_id ` set es) (\<lambda>i. set (dag_deps_of es i)) (ids_of [])"
    using q dag_deps_of_eq [OF assms] by (auto simp: ready_def)
  moreover have "\<forall>j i. count (mset (get_or_nil childIds j)) i =
      (if i \<in> entry_id ` set es then count (mset (dag_deps_of es i)) j else 0)"
    using l dag_deps_of_eq [OF assms] by auto
  ultimately have "dag_inv ?cmp (set es) (dag_deps_of es) childIds rem q []"
    using l dag_deps_of_eq [OF assms] q by (simp add: dag_inv_def)
  note ef = dag_loop_earliest_first [where byId = ?byId, OF this]
  show ?thesis
  proof (rule that [of "dag_loop ?cmp ?byId childIds rem q []"])
    show "earliest_first ?cmp (set es) (\<lambda>i. set (dag_deps_of es i)) (dag_loop ?cmp ?byId childIds rem q [])"
      "ready (entry_id ` set es) (\<lambda>i. set (dag_deps_of es i)) (ids_of (dag_loop ?cmp ?byId childIds rem q [])) = {}"
      using ef by_id_Some [OF assms] by simp_all
    show "orderDagEntriesCausally lc es =
      (if length (dag_loop ?cmp ?byId childIds rem q []) < length es
       then dag_loop ?cmp ?byId childIds rem q [] @
         js_sort ?cmp (filter (\<lambda>e. entry_id e \<notin> entry_id ` set (dag_loop ?cmp ?byId childIds rem q [])) es)
       else dag_loop ?cmp ?byId childIds rem q [])"
      by (simp add: orderDagEntriesCausally_def links q_def Let_def)
  qed
qed

end

lemma causal_order_permutation:
  assumes "strict_collation lc" and "distinct (ids_of es)"
  shows "mset (orderDagEntriesCausally lc es) = mset es"
proof -
  let ?cmp = "compareByCreatedAtThenId lc" and ?D = "\<lambda>i. set (dag_deps_of es i)"
  obtain xs where ef: "earliest_first ?cmp (set es) ?D xs"
    and eq: "orderDagEntriesCausally lc es = (if length xs < length es
      then xs @ js_sort ?cmp (filter (\<lambda>e. entry_id e \<notin> entry_id ` set xs) es) else xs)"
    by (rule strict_collation.causal_order_greedy [OF assms])
  have xs: "set xs \<subseteq> set es" "distinct (ids_of xs)" using earliest_first_sound [OF ef] by auto
  have mem: "entry_id e \<in> entry_id ` set xs \<longleftrightarrow> e \<in> set xs" if "e \<in> set es" for e
    using that xs(1) assms(2) by (auto simp: distinct_map dest: inj_onD)
  have dist: "distinct xs" "distinct es" using xs(2) assms(2) by (auto simp: distinct_map)
  show ?thesis
  proof (cases "length xs < length es")
    case True
    have "mset (orderDagEntriesCausally lc es) = mset xs + mset (filter (\<lambda>e. entry_id e \<notin> entry_id ` set xs) es)"
      using True by (simp add: eq)
    also have "filter (\<lambda>e. entry_id e \<notin> entry_id ` set xs) es = filter (\<lambda>e. e \<notin> set xs) es"
      using mem by (intro filter_cong) auto
    also have "mset xs + mset (filter (\<lambda>e. e \<notin> set xs) es) = mset (xs @ filter (\<lambda>e. e \<notin> set xs) es)" by simp
    also have "\<dots> = mset es"
      using xs(1) dist by (subst set_eq_iff_mset_eq_distinct [symmetric]) auto
    finally show ?thesis .
  next
    case False
    then have "set xs = set es"
      using xs(1) dist by (metis card_subset_eq distinct_card List.finite_set card_mono le_antisym linorder_not_less)
    then have "mset xs = mset es" using dist by (metis set_eq_iff_mset_eq_distinct)
    then show ?thesis using False by (simp add: eq)
  qed
qed

lemma causal_order_earliest_first:
  assumes "strict_collation lc" and "distinct (ids_of es)" and "dag_acyclic es"
  shows "earliest_first (compareByCreatedAtThenId lc) (set es) (\<lambda>i. set (dag_deps_of es i))
           (orderDagEntriesCausally lc es)"
proof -
  let ?cmp = "compareByCreatedAtThenId lc" and ?D = "\<lambda>i. set (dag_deps_of es i)"
  obtain xs where ef: "earliest_first ?cmp (set es) ?D xs"
    and none: "ready (entry_id ` set es) ?D (ids_of xs) = {}"
    and eq: "orderDagEntriesCausally lc es = (if length xs < length es
      then xs @ js_sort ?cmp (filter (\<lambda>e. entry_id e \<notin> entry_id ` set xs) es) else xs)"
    by (rule strict_collation.causal_order_greedy [OF assms(1,2)])
  have "finite {(d, i). i \<in> set (ids_of es) \<and> d \<in> ?D i}"
    by (rule finite_subset [of _ "set (ids_of es) \<times> set (ids_of es)"]) (use dag_deps_of_subset in auto)
  then have "wf {(d, i). i \<in> set (ids_of es) \<and> d \<in> ?D i}"
    using assms(3) unfolding dag_acyclic_def by (rule finite_acyclic_wf)
  then have "set (ids_of es) \<subseteq> set (ids_of xs)"
    using ready_exhausts [OF none] dag_deps_of_subset by (simp add: image_def)
  then have "length es \<le> length xs"
    using assms(2) earliest_first_sound [OF ef]
    by (metis card_mono distinct_card length_map List.finite_set)
  then show ?thesis using eq ef by simp
qed

lemma by_id_perm:
  assumes "distinct (ids_of es)" and "mset es' = mset es"
  shows "map_of (by_id es') = map_of (by_id es)" and "dag_deps_of es' = dag_deps_of es"
proof -
  have "distinct (ids_of es')" using assms by (metis mset_eq_imp_distinct_iff mset_map)
  then show eq: "map_of (by_id es') = map_of (by_id es)"
    using by_id_Some [of es] by_id_Some [of es'] assms(1) mset_eq_setD [OF assms(2)]
    by (intro ext) (metis option.exhaust)
  have "map_has (by_id es') = map_has (by_id es)" by (intro ext) (simp add: map_has_def eq)
  then show "dag_deps_of es' = dag_deps_of es"
    by (intro ext) (simp add: dag_deps_of_def dag_deps_def eq split: option.splits)
qed

lemma causal_order_set_only:
  assumes "strict_collation lc" and "distinct (ids_of es)" and "mset es' = mset es"
  shows "orderDagEntriesCausally lc es' = orderDagEntriesCausally lc es"
proof -
  let ?cmp = "compareByCreatedAtThenId lc" and ?D = "\<lambda>i. set (dag_deps_of es i)"
  have dist': "distinct (ids_of es')" using assms(2,3) by (metis mset_eq_imp_distinct_iff mset_map)
  have sets: "set es' = set es" "length es' = length es"
    using assms(3) by (auto dest: mset_eq_setD mset_eq_length)
  note D' = by_id_perm(2) [OF assms(2,3)]
  obtain xs where xs: "earliest_first ?cmp (set es) ?D xs" "ready (entry_id ` set es) ?D (ids_of xs) = {}"
    and eq: "orderDagEntriesCausally lc es = (if length xs < length es
      then xs @ js_sort ?cmp (filter (\<lambda>e. entry_id e \<notin> entry_id ` set xs) es) else xs)"
    by (rule strict_collation.causal_order_greedy [OF assms(1,2)])
  obtain ys where ys: "earliest_first ?cmp (set es) ?D ys" "ready (entry_id ` set es) ?D (ids_of ys) = {}"
    and eq': "orderDagEntriesCausally lc es' = (if length ys < length es
      then ys @ js_sort ?cmp (filter (\<lambda>e. entry_id e \<notin> entry_id ` set ys) es') else ys)"
    by (rule strict_collation.causal_order_greedy [OF assms(1) dist', unfolded sets D'])
  have col: "collation lc" using assms(1) by (simp add: strict_collation_def)
  have "x = y" if "x \<in> set es" "y \<in> set es" "?cmp x y \<le> 0" "?cmp y x \<le> 0" for x y
    using collation.created_anti [OF col that(3,4)] that(1,2) assms(2) by (auto simp: distinct_map dest: inj_onD)
  then have "ys = xs" using earliest_first_unique [OF ys xs] by blast
  moreover have "js_sort ?cmp (filter (\<lambda>e. entry_id e \<notin> entry_id ` set xs) es') =
      js_sort ?cmp (filter (\<lambda>e. entry_id e \<notin> entry_id ` set xs) es)"
    using assms(2) dist' sets by (intro collation.created_sort_by_set [OF col]) (auto intro: distinct_map_filter)
  ultimately show ?thesis by (simp add: eq eq')
qed

text \<open>
  C25. The causal order of a document's timeline is a permutation of the entries it is given and
  does not depend on the order in which they arrive. When the dependencies have no cycle, no
  entry comes before one of its dependencies, and at every place stands the earliest entry by
  creation time and id among those whose dependencies have all been emitted: concurrent entries
  are ordered by time and id, whatever their timestamps say about their causes.
\<close>

theorem causal_order_correct:
  assumes "strict_collation lc" and "distinct (ids_of es)"
  shows "mset (orderDagEntriesCausally lc es) = mset es \<and>
         (\<forall>es'. mset es' = mset es \<longrightarrow> orderDagEntriesCausally lc es' = orderDagEntriesCausally lc es) \<and>
         (dag_acyclic es \<longrightarrow>
            deps_first (\<lambda>i. set (dag_deps_of es i)) (ids_of (orderDagEntriesCausally lc es)) \<and>
            earliest_first (compareByCreatedAtThenId lc) (set es) (\<lambda>i. set (dag_deps_of es i))
              (orderDagEntriesCausally lc es))"
  using causal_order_permutation [OF assms] causal_order_set_only [OF assms]
    causal_order_earliest_first [OF assms] earliest_first_sound by blast

text \<open>A change and the delete that follows it in the same millisecond, the delete with the smaller id.\<close>

definition demo_timeline :: "store_entry_metadata list" where
  "demo_timeline =
     [sample_metadata doc_delete ''a'' ''d'' [''b''] ''h'' 5,
      sample_metadata doc_change ''b'' ''d'' [''c''] ''h'' 5,
      sample_metadata doc_create ''c'' ''d'' [] ''h'' 7]"

lemma demo_timeline_by_id:
  "by_id demo_timeline =
     [(''a'', sample_metadata doc_delete ''a'' ''d'' [''b''] ''h'' 5),
      (''b'', sample_metadata doc_change ''b'' ''d'' [''c''] ''h'' 5),
      (''c'', sample_metadata doc_create ''c'' ''d'' [] ''h'' 7)]"
  by (simp add: by_id_def demo_timeline_def)

lemma demo_timeline_deps:
  "dag_deps_of demo_timeline i = (if i = ''a'' then [''b''] else if i = ''b'' then [''c''] else [])"
  by (simp add: dag_deps_of_def dag_deps_def demo_timeline_by_id map_has_def)

lemma demo_timeline_acyclic: "dag_acyclic demo_timeline"
  unfolding dag_acyclic_def demo_timeline_deps
  by (rule acyclic_by_rank [of _ "\<lambda>i. if i = ''a'' then 2 else if i = ''b'' then 1 else 0"])
    (auto split: if_splits)

theorem causal_order_correct_witness:
  "mset (orderDagEntriesCausally compare_by demo_timeline) = mset demo_timeline \<and>
   deps_first (\<lambda>i. set (dag_deps_of demo_timeline i)) (ids_of (orderDagEntriesCausally compare_by demo_timeline)) \<and>
   orderDagEntriesCausally compare_by (rev demo_timeline) = orderDagEntriesCausally compare_by demo_timeline"
proof -
  have "distinct (ids_of demo_timeline)" by (simp add: demo_timeline_def)
  from causal_order_correct [OF code_units_strict.strict_collation_axioms this] demo_timeline_acyclic
  show ?thesis by (metis mset_rev)
qed

end
