(* ===== verification/DagLifecycle.thy ===== *)
theory DagLifecycle
  imports DocumentDag
begin

text \<open>
  What the graph of a document says about its state (\<^verbatim>\<open>core/DocumentDagAnalysis.ts\<close>,
  second part): the ancestors of a head, the deleted or alive state the heads stand for, the
  active heads, and the pruning of entries whose causal past is not in the slice.
\<close>

section \<open>Ancestors and lifecycle state\<close>

text \<open>
  The loop of \<^verbatim>\<open>collectReplayAncestors\<close> is the loop of the planner's coverage: skip
  visited and unknown ids, mark the entry, push its unvisited dependencies.
\<close>

definition collectReplayAncestors ::
  "(string, store_entry_metadata) jsmap \<Rightarrow> string \<Rightarrow> string jsset" where
  "collectReplayAncestors replayById startEntryId = covered_walk replayById [startEntryId] []"

definition is_terminal_id :: "(string, store_entry_metadata) jsmap \<Rightarrow> string \<Rightarrow> bool" where
  "is_terminal_id replayById entryId =
     (case map_of replayById entryId of
        None \<Rightarrow> False
      | Some entry \<Rightarrow> entryType entry \<in> set LIFECYCLE_TERMINAL_ENTRY_TYPES)"

definition isDeletedFromHeads ::
  "(string \<Rightarrow> string \<Rightarrow> int) \<Rightarrow> string list \<Rightarrow> (string, store_entry_metadata) jsmap \<Rightarrow> bool" where
  "isDeletedFromHeads lc heads replayById =
     (let terminalIds = js_dedup (concat (map (\<lambda>headEntryId.
            filter (is_terminal_id replayById) (collectReplayAncestors replayById headEntryId)) heads))
      in if terminalIds = [] then False
         else
           let survivingTerminalIds = filter (\<lambda>candidateId.
                 list_all (\<lambda>otherId. otherId = candidateId \<or>
                   candidateId \<notin> set (collectReplayAncestors replayById otherId)) terminalIds) terminalIds;
               sorted = js_sort (compareByCreatedAtThenId lc)
                 (List.map_filter (map_of replayById) survivingTerminalIds)
           in sorted \<noteq> [] \<and> entryType (last sorted) = doc_delete)"

definition findActiveReplayHeads ::
  "(string \<Rightarrow> string \<Rightarrow> int) \<Rightarrow> store_entry_metadata list \<Rightarrow> string list" where
  "findActiveReplayHeads lc replayEntries =
     (let replayIds = js_dedup (map entry_id replayEntries);
          referenced = js_dedup (concat (map (\<lambda>e. filter (\<lambda>d. d \<in> set replayIds) (dependencyIds e)) replayEntries))
      in map entry_id (js_sort (compareByCreatedAtThenId lc)
           (filter (\<lambda>e. entry_id e \<notin> set referenced) replayEntries)))"

section \<open>Pruning\<close>

text \<open>The ids a snapshot vouches for; ids that are not entries of the slice are vouched for too.\<close>

function vouch_walk ::
  "(string, store_entry_metadata) jsmap \<Rightarrow> string list \<Rightarrow> string jsset \<Rightarrow> string jsset" where
  "vouch_walk replayById [] vouchedIds = vouchedIds"
| "vouch_walk replayById (currentId # stack) vouchedIds =
     (if currentId \<in> set vouchedIds then vouch_walk replayById stack vouchedIds
      else case map_of replayById currentId of
        None \<Rightarrow> vouch_walk replayById stack (set_add currentId vouchedIds)
      | Some covered \<Rightarrow>
          vouch_walk replayById (rev (dependencyIds covered) @ stack) (set_add currentId vouchedIds))"
  by pat_completeness auto
termination
  by (relation "measures [\<lambda>(m, stack, v). card (set (map_keys m) - set v), \<lambda>(m, stack, v). length stack]")
    (auto simp: card_unvisited_known card_unvisited_cases)

declare vouch_walk.simps(2) [simp del]

definition vouched_ids ::
  "(string, store_entry_metadata) jsmap \<Rightarrow> store_entry_metadata list \<Rightarrow> string jsset" where
  "vouched_ids replayById sliceEntries =
     foldl (\<lambda>vouchedIds entry.
              if entryType entry \<noteq> doc_snapshot then vouchedIds
              else vouch_walk replayById (rev (getSnapshotRoots entry)) vouchedIds) [] sliceEntries"

text \<open>One dependency of an entry: a child edge, or a dependency that is missing.\<close>

definition prune_dependency ::
  "(string, store_entry_metadata) jsmap \<Rightarrow> string jsset \<Rightarrow> string \<Rightarrow>
   (string, string list) jsmap \<times> bool \<Rightarrow> string \<Rightarrow> (string, string list) jsmap \<times> bool" where
  "prune_dependency replayById vouchedIds entryId st dependencyId =
     (let (childIds, hasMissingDependency) = st
      in if map_has replayById dependencyId then
           (AList.update dependencyId (get_or_nil childIds dependencyId @ [entryId]) childIds, hasMissingDependency)
         else if dependencyId \<notin> set vouchedIds then (childIds, True)
         else st)"

record prune_state =
  prune_children :: "(string, string list) jsmap"
  prune_ungrounded :: "string jsset"
  prune_queue :: "string list"

definition prune_seed ::
  "(string, store_entry_metadata) jsmap \<Rightarrow> string jsset \<Rightarrow> prune_state \<Rightarrow> store_entry_metadata \<Rightarrow> prune_state" where
  "prune_seed replayById vouchedIds st entry =
     (let (childIds, hasMissingDependency) =
            foldl (prune_dependency replayById vouchedIds (entry_id entry)) (prune_children st, False)
              (dependencyIds entry)
      in if hasMissingDependency \<and> entry_id entry \<notin> set vouchedIds then
           \<lparr> prune_children = childIds,
             prune_ungrounded = set_add (entry_id entry) (prune_ungrounded st),
             prune_queue = entry_id entry # prune_queue st \<rparr>
         else st \<lparr> prune_children := childIds \<rparr>)"

text \<open>The children of one ungrounded entry: the queue and the set.\<close>

definition prune_child ::
  "string jsset \<Rightarrow> string list \<times> string jsset \<Rightarrow> string \<Rightarrow> string list \<times> string jsset" where
  "prune_child vouchedIds st childId =
     (let (queue, ungroundedIds) = st
      in if childId \<notin> set ungroundedIds \<and> childId \<notin> set vouchedIds
         then (childId # queue, set_add childId ungroundedIds) else st)"

lemma prune_child_fold:
  assumes "foldl (prune_child V) (q, u) cs = (q', u')"
  shows "set u' = set u \<union> (set cs - set V) \<and>
         (\<exists>new. q' = new @ q \<and> set new \<subseteq> set cs - set V - set u \<and> set new \<union> set u = set u' \<and>
            (new = [] \<longrightarrow> u' = u))"
  using assms
proof (induction cs arbitrary: q u)
  case (Cons c cs)
  obtain q1 u1 where step: "prune_child V (q, u) c = (q1, u1)" by fastforce
  with Cons.prems have rest: "foldl (prune_child V) (q1, u1) cs = (q', u')" by simp
  obtain new where new: "q' = new @ q1" "set new \<subseteq> set cs - set V - set u1" "set new \<union> set u1 = set u'"
    "new = [] \<longrightarrow> u' = u1" "set u' = set u1 \<union> (set cs - set V)"
    using Cons.IH [OF rest] by blast
  show ?case
  proof (cases "c \<notin> set u \<and> c \<notin> set V")
    case True
    then have "q1 = c # q" "u1 = set_add c u" using step by (simp_all add: prune_child_def)
    then show ?thesis using new True by (auto intro!: exI [of _ "new @ [c]"])
  next
    case False
    then have "q1 = q" "u1 = u" using step by (auto simp: prune_child_def)
    then show ?thesis using new False by auto
  qed
qed auto

function unground_walk ::
  "(string, string list) jsmap \<Rightarrow> string jsset \<Rightarrow> string list \<Rightarrow> string jsset \<Rightarrow> string jsset" where
  "unground_walk childIds vouchedIds [] ungroundedIds = ungroundedIds"
| "unground_walk childIds vouchedIds (currentId # queue) ungroundedIds =
     (case foldl (prune_child vouchedIds) (queue, ungroundedIds) (get_or_nil childIds currentId) of
        (queue', ungroundedIds') \<Rightarrow> unground_walk childIds vouchedIds queue' ungroundedIds')"
  by pat_completeness auto
termination
proof (relation "measures
    [\<lambda>(ch, V, q, u). card (set (concat (map_values ch)) - set u), \<lambda>(ch, V, q, u). length q]", goal_cases)
  case (2 ch V i q u q' u')
  then obtain new where new: "q' = new @ q" "set new \<subseteq> set (get_or_nil ch i) - set V - set u"
    "set new \<union> set u = set u'" "new = [] \<longrightarrow> u' = u"
    using prune_child_fold [of V q u "get_or_nil ch i" q' u'] by metis
  show ?case
  proof (cases "new = []")
    case False
    have "set (concat (map_values ch)) - set u' \<subset> set (concat (map_values ch)) - set u"
      using new(2) False get_or_nil_values [of ch i] unfolding new(3) [symmetric]
      by (cases new) auto
    then show ?thesis by (simp add: psubset_card_mono)
  qed (use new in simp)
qed simp

declare unground_walk.simps(2) [simp del]

definition pruneToGroundedEntries :: "store_entry_metadata list \<Rightarrow> store_entry_metadata list" where
  "pruneToGroundedEntries sliceEntries =
     (let replayEntries = filter isReplayEntry sliceEntries;
          replayById = by_id replayEntries;
          vouchedIds = vouched_ids replayById sliceEntries;
          seeded = foldl (prune_seed replayById vouchedIds)
            \<lparr> prune_children = [], prune_ungrounded = [], prune_queue = [] \<rparr> replayEntries;
          ungroundedIds = unground_walk (prune_children seeded) vouchedIds (prune_queue seeded) (prune_ungrounded seeded)
      in if ungroundedIds = [] then sliceEntries
         else filter (\<lambda>entry. entry_id entry \<notin> set ungroundedIds) sliceEntries)"

section \<open>What the heads stand for\<close>

lemma set_ancestors:
  "set (collectReplayAncestors m h) = {i. map_has m h \<and> (replay_edge m)\<^sup>*\<^sup>* h i}"
proof -
  have "set (covered_walk m [h] []) = {i. \<exists>r \<in> {h} \<inter> set (map_keys m). (replay_edge m)\<^sup>*\<^sup>* r i}"
    using covered_walk_correct [of m "{h} \<inter> set (map_keys m)" "[h]" "[]"] walk_inv_init by force
  then show ?thesis by (auto simp: collectReplayAncestors_def map_has_iff)
qed

lemma replay_reach_has: "(replay_edge m)\<^sup>*\<^sup>* h i \<Longrightarrow> map_has m h \<Longrightarrow> map_has m i"
  by (induction rule: rtranclp_induct) (auto simp: replay_edge_def)

text \<open>
  The terminal entries below a set of heads, and those that no other one of them is built on.
  \<open>keyed\<close> says that a map holds every entry under its own id, as \<open>by_id\<close> builds it.
\<close>

definition keyed :: "(string, store_entry_metadata) jsmap \<Rightarrow> bool" where
  "keyed m \<longleftrightarrow> (\<forall>i e. map_of m i = Some e \<longrightarrow> entry_id e = i)"

definition terminals ::
  "string set \<Rightarrow> (string, store_entry_metadata) jsmap \<Rightarrow> store_entry_metadata set" where
  "terminals heads m =
     {e. map_of m (entry_id e) = Some e \<and> entryType e \<in> set LIFECYCLE_TERMINAL_ENTRY_TYPES \<and>
         (\<exists>h \<in> heads. map_has m h \<and> (replay_edge m)\<^sup>*\<^sup>* h (entry_id e))}"

definition surviving_terminals ::
  "string set \<Rightarrow> (string, store_entry_metadata) jsmap \<Rightarrow> store_entry_metadata set" where
  "surviving_terminals heads m =
     {e \<in> terminals heads m.
        \<not> (\<exists>f \<in> terminals heads m. f \<noteq> e \<and> (replay_edge m)\<^sup>*\<^sup>* (entry_id f) (entry_id e))}"

lemma keyed_by_id: "distinct (ids_of es) \<Longrightarrow> keyed (by_id es)"
  by (simp add: keyed_def by_id_Some)

definition terminal_ids :: "string list \<Rightarrow> (string, store_entry_metadata) jsmap \<Rightarrow> string list" where
  "terminal_ids heads m =
     js_dedup (concat (map (\<lambda>h. filter (is_terminal_id m) (collectReplayAncestors m h)) heads))"

definition surviving_ids :: "string list \<Rightarrow> (string, store_entry_metadata) jsmap \<Rightarrow> string list" where
  "surviving_ids heads m =
     filter (\<lambda>c. list_all (\<lambda>k. k = c \<or> c \<notin> set (collectReplayAncestors m k)) (terminal_ids heads m))
       (terminal_ids heads m)"

lemma terminal_ids_iff:
  "i \<in> set (terminal_ids heads m) \<longleftrightarrow>
     is_terminal_id m i \<and> (\<exists>h \<in> set heads. map_has m h \<and> (replay_edge m)\<^sup>*\<^sup>* h i)"
  by (auto simp: terminal_ids_def set_ancestors)

lemma set_terminal_ids:
  assumes "keyed m"
  shows "set (terminal_ids heads m) = entry_id ` terminals (set heads) m"
proof (rule set_eqI)
  fix i
  show "i \<in> set (terminal_ids heads m) \<longleftrightarrow> i \<in> entry_id ` terminals (set heads) m"
  proof (cases "map_of m i")
    case None
    have "i \<notin> entry_id ` terminals (set heads) m" using None by (auto simp: terminals_def)
    moreover have "\<not> is_terminal_id m i" by (simp add: is_terminal_id_def None)
    ultimately show ?thesis by (simp add: terminal_ids_iff)
  next
    case (Some e)
    then have id: "entry_id e = i" using assms by (simp add: keyed_def)
    have "i \<in> entry_id ` terminals (set heads) m \<longleftrightarrow> e \<in> terminals (set heads) m"
    proof
      assume "i \<in> entry_id ` terminals (set heads) m"
      then obtain f where f: "f \<in> terminals (set heads) m" "i = entry_id f" by (rule imageE)
      then have "map_of m i = Some f" by (simp add: terminals_def)
      then have "f = e" using Some by simp
      then show "e \<in> terminals (set heads) m" using f(1) by simp
    qed (use id in auto)
    then show ?thesis unfolding terminal_ids_iff by (simp add: terminals_def is_terminal_id_def Some id)
  qed
qed

lemma set_map_filter_iff: "x \<in> set (List.map_filter f xs) \<longleftrightarrow> (\<exists>i \<in> set xs. f i = Some x)"
  by (force simp: List.map_filter_def)

lemma surviving_entries:
  assumes "keyed m"
  shows "set (List.map_filter (map_of m) (surviving_ids heads m)) = surviving_terminals (set heads) m"
proof -
  note t = set_terminal_ids [OF assms, of heads]
  have has: "map_of m (entry_id e) = Some e" if "e \<in> terminals (set heads) m" for e
    using that by (simp add: terminals_def)
  have inj: "entry_id f = entry_id e \<longleftrightarrow> f = e"
    if "e \<in> terminals (set heads) m" "f \<in> terminals (set heads) m" for e f
    using has [OF that(1)] has [OF that(2)] by (metis option.inject)
  have anc: "c \<in> set (collectReplayAncestors m (entry_id f)) \<longleftrightarrow> (replay_edge m)\<^sup>*\<^sup>* (entry_id f) c"
    if "f \<in> terminals (set heads) m" for f c
    using has [OF that] by (simp add: set_ancestors map_has_def)
  have s: "entry_id e \<in> set (surviving_ids heads m) \<longleftrightarrow> e \<in> surviving_terminals (set heads) m"
    if e: "e \<in> terminals (set heads) m" for e
  proof -
    have "entry_id e \<in> set (surviving_ids heads m) \<longleftrightarrow>
        (\<forall>f \<in> terminals (set heads) m. entry_id f = entry_id e \<or>
           entry_id e \<notin> set (collectReplayAncestors m (entry_id f)))"
      using e by (simp add: surviving_ids_def list_all_iff t)
    also have "\<dots> \<longleftrightarrow> e \<in> surviving_terminals (set heads) m"
      using e inj [OF e] anc by (simp add: surviving_terminals_def)
    finally show ?thesis .
  qed
  show ?thesis
  proof (rule set_eqI)
    fix e
    have "e \<in> set (List.map_filter (map_of m) (surviving_ids heads m)) \<longleftrightarrow>
        map_of m (entry_id e) = Some e \<and> entry_id e \<in> set (surviving_ids heads m)"
      using assms unfolding set_map_filter_iff keyed_def by metis
    also have "\<dots> \<longleftrightarrow> e \<in> surviving_terminals (set heads) m"
    proof
      assume l: "map_of m (entry_id e) = Some e \<and> entry_id e \<in> set (surviving_ids heads m)"
      then have "entry_id e \<in> entry_id ` terminals (set heads) m" by (simp add: surviving_ids_def t)
      then obtain f where f: "f \<in> terminals (set heads) m" "entry_id e = entry_id f" by (rule imageE)
      then have "f = e" using l has [OF f(1)] by (metis option.inject)
      then have "e \<in> terminals (set heads) m" using f(1) by simp
      from s [OF this] l show "e \<in> surviving_terminals (set heads) m" by blast
    next
      assume r: "e \<in> surviving_terminals (set heads) m"
      then have "e \<in> terminals (set heads) m" by (simp add: surviving_terminals_def)
      then show "map_of m (entry_id e) = Some e \<and> entry_id e \<in> set (surviving_ids heads m)"
        using s r by (simp add: terminals_def)
    qed
    finally show "e \<in> set (List.map_filter (map_of m) (surviving_ids heads m)) \<longleftrightarrow>
        e \<in> surviving_terminals (set heads) m" .
  qed
qed

lemma isDeletedFromHeads_eq:
  "isDeletedFromHeads lc heads m =
     (let sorted = js_sort (compareByCreatedAtThenId lc) (List.map_filter (map_of m) (surviving_ids heads m))
      in sorted \<noteq> [] \<and> entryType (last sorted) = doc_delete)"
proof (cases "terminal_ids heads m = []")
  case True
  then show ?thesis
    by (simp add: isDeletedFromHeads_def terminal_ids_def [symmetric] surviving_ids_def List.map_filter_def)
next
  case False
  then show ?thesis
    by (simp add: isDeletedFromHeads_def terminal_ids_def [symmetric] surviving_ids_def [symmetric] Let_def)
qed

text \<open>
  C26. Whether heads stand for a deleted document. Of the delete and undelete entries reachable
  from the heads, those that another of them is causally built on are superseded; among the rest
  the one with the greatest creation time, then id, decides, and the document is deleted when
  that one is a delete. So the verdict depends on the entries and on the set of heads only: every
  replica that holds the same entries computes the same state.
\<close>

theorem lifecycle_state_correct:
  assumes "collation lc" and "keyed m"
  shows "isDeletedFromHeads lc heads m \<longleftrightarrow>
    (\<exists>e \<in> surviving_terminals (set heads) m. entryType e = doc_delete \<and>
       (\<forall>f \<in> surviving_terminals (set heads) m. compareByCreatedAtThenId lc f e \<le> 0))"
proof -
  let ?cmp = "compareByCreatedAtThenId lc" and ?S = "surviving_terminals (set heads) m"
  define xs where "xs = js_sort ?cmp (List.map_filter (map_of m) (surviving_ids heads m))"
  have set: "set xs = ?S" by (simp add: xs_def surviving_entries [OF assms(2)])
  have sorted: "sorted_wrt (\<lambda>a b. ?cmp a b \<le> 0) xs"
    unfolding xs_def by (rule js_comparator.js_sort_sorted [OF collation.created_comparator [OF assms(1)]])
  have refl: "?cmp e e \<le> 0" for e
    using js_comparator.cmp_total [OF collation.created_comparator [OF assms(1)], of e e] by blast
  have last_max: "?cmp f (last xs) \<le> 0" if "f \<in> set xs" for f
    using that sorted refl by (cases xs rule: rev_cases) (auto simp: sorted_wrt_append)
  have "e = last xs" if "e \<in> set xs" "\<forall>f \<in> set xs. ?cmp f e \<le> 0" for e
  proof -
    have "last xs \<in> set xs" using that(1) by (cases xs rule: rev_cases) auto
    then have "entry_id e = entry_id (last xs)"
      using that last_max collation.created_anti [OF assms(1)] by blast
    then show ?thesis
      using that(1) \<open>last xs \<in> set xs\<close> by (auto simp: set surviving_terminals_def terminals_def)
  qed
  then have unique: "(\<exists>e \<in> set xs. entryType e = doc_delete \<and> (\<forall>f \<in> set xs. ?cmp f e \<le> 0)) \<longleftrightarrow>
      xs \<noteq> [] \<and> entryType (last xs) = doc_delete"
    using last_max last_in_set [of xs] by (cases "xs = []") auto
  show ?thesis
    unfolding isDeletedFromHeads_eq xs_def [symmetric] Let_def set [symmetric] unique ..
qed

lemma demo_timeline_terminals:
  "terminals {''a''} (by_id demo_timeline) = {sample_metadata doc_delete ''a'' ''d'' [''b''] ''h'' 5}"
proof -
  have "e \<in> terminals {''a''} (by_id demo_timeline) \<longleftrightarrow> e = sample_metadata doc_delete ''a'' ''d'' [''b''] ''h'' 5" for e
    by (auto simp: terminals_def demo_timeline_by_id map_has_def LIFECYCLE_TERMINAL_ENTRY_TYPES_def
        split: if_splits)
  then show ?thesis by blast
qed

theorem lifecycle_state_correct_witness:
  "isDeletedFromHeads compare_by [''a''] (by_id demo_timeline)"
proof -
  have "keyed (by_id demo_timeline)" by (rule keyed_by_id) (simp add: demo_timeline_def)
  moreover have "surviving_terminals (set [''a'']) (by_id demo_timeline) =
      {sample_metadata doc_delete ''a'' ''d'' [''b''] ''h'' 5}"
    by (auto simp: surviving_terminals_def demo_timeline_terminals)
  ultimately show ?thesis
    by (subst lifecycle_state_correct [OF code_units.collation_axioms])
      (simp_all add: compareByCreatedAtThenId_def)
qed

section \<open>Pruning keeps the complete causal chains\<close>

definition dep_edge :: "(string, store_entry_metadata) jsmap \<Rightarrow> string \<Rightarrow> string \<Rightarrow> bool" where
  "dep_edge m a b \<longleftrightarrow> (\<exists>e. map_of m a = Some e \<and> b \<in> set (dependencyIds e))"

lemma vouch_walk_correct:
  assumes "walk_inv (dep_edge m) R (set stack) (set v)"
  shows "set (vouch_walk m stack v) = {i. \<exists>r \<in> R. (dep_edge m)\<^sup>*\<^sup>* r i}"
  using assms
proof (induction m stack v rule: vouch_walk.induct)
  case (1 m v)
  then show ?case using walk_inv_done [of "dep_edge m" R "set v"] by simp
next
  case (2 m i stack v)
  show ?case
  proof (cases "i \<in> set v")
    case True
    then show ?thesis
      using "2.IH"(1) [OF True] "2.prems" walk_inv_skip [of "dep_edge m" R i "set stack" "set v"]
      by (simp add: vouch_walk.simps(2))
  next
    case False
    have visit: "walk_inv (dep_edge m) R (set stack \<union> {b. dep_edge m i b}) (insert i (set v))"
      by (rule walk_inv_visit) (use "2.prems" in auto)
    show ?thesis
    proof (cases "map_of m i")
      case None
      then have "{b. dep_edge m i b} = {}" by (simp add: dep_edge_def)
      then show ?thesis
        using "2.IH"(2) [OF False None] visit by (simp add: vouch_walk.simps(2) False None)
    next
      case (Some e)
      then have "{b. dep_edge m i b} = set (dependencyIds e)" by (simp add: dep_edge_def)
      then show ?thesis
        using "2.IH"(3) [OF False Some] visit by (simp add: vouch_walk.simps(2) False Some Un_commute)
    qed
  qed
qed

text \<open>The ids the snapshots of a slice vouch for: what their roots reach through the slice.\<close>

definition vouched :: "store_entry_metadata list \<Rightarrow> string set" where
  "vouched es =
     {i. \<exists>s \<in> set es. entryType s = doc_snapshot \<and>
           (\<exists>r \<in> set (getSnapshotRoots s). (dep_edge (by_id (filter isReplayEntry es)))\<^sup>*\<^sup>* r i)}"

lemma vouch_walk_from:
  assumes "set v = {i. \<exists>r \<in> R. (dep_edge m)\<^sup>*\<^sup>* r i}"
  shows "set (vouch_walk m stack v) = {i. \<exists>r \<in> R \<union> set stack. (dep_edge m)\<^sup>*\<^sup>* r i}"
proof (rule vouch_walk_correct)
  have "R \<subseteq> set v" using assms by auto
  moreover have "\<forall>a \<in> set v. \<forall>b. dep_edge m a b \<longrightarrow> b \<in> set v"
    unfolding assms by (auto intro: rtranclp.rtrancl_into_rtrancl)
  moreover have "\<forall>i \<in> set stack \<union> set v. \<exists>r \<in> R \<union> set stack. (dep_edge m)\<^sup>*\<^sup>* r i"
    unfolding assms by blast
  ultimately show "walk_inv (dep_edge m) (R \<union> set stack) (set stack) (set v)"
    unfolding walk_inv_def by blast
qed

lemma set_vouched_ids:
  "set (vouched_ids m es) =
     {i. \<exists>r \<in> {r. \<exists>s \<in> set es. entryType s = doc_snapshot \<and> r \<in> set (getSnapshotRoots s)}. (dep_edge m)\<^sup>*\<^sup>* r i}"
proof (induction es rule: rev_induct)
  case Nil
  then show ?case by (simp add: vouched_ids_def)
next
  case (snoc e es)
  let ?R = "{r. \<exists>s \<in> set es. entryType s = doc_snapshot \<and> r \<in> set (getSnapshotRoots s)}"
  have step: "vouched_ids m (es @ [e]) = (if entryType e \<noteq> doc_snapshot then vouched_ids m es
      else vouch_walk m (rev (getSnapshotRoots e)) (vouched_ids m es))" by (simp add: vouched_ids_def)
  show ?case
  proof (cases "entryType e = doc_snapshot")
    case True
    then have "{r. \<exists>s \<in> set (es @ [e]). entryType s = doc_snapshot \<and> r \<in> set (getSnapshotRoots s)} =
        ?R \<union> set (rev (getSnapshotRoots e))" by auto
    then show ?thesis using vouch_walk_from [OF snoc.IH] True step by presburger
  next
    case False
    then have "{r. \<exists>s \<in> set (es @ [e]). entryType s = doc_snapshot \<and> r \<in> set (getSnapshotRoots s)} = ?R"
      by auto
    then show ?thesis using snoc.IH False step by presburger
  qed
qed

text \<open>
  The abstract specification. \<open>grounded V K\<close>: every replay entry of \<open>K\<close> that is not vouched
  for finds each dependency vouched for or in \<open>K\<close>. The grounded subsets of a slice have a
  greatest one.
\<close>

definition grounded :: "string set \<Rightarrow> store_entry_metadata set \<Rightarrow> bool" where
  "grounded V K \<longleftrightarrow>
     (\<forall>e \<in> K. isReplayEntry e \<and> entry_id e \<notin> V \<longrightarrow>
        (\<forall>d \<in> set (dependencyIds e). d \<in> V \<or> (\<exists>f \<in> K. isReplayEntry f \<and> entry_id f = d)))"

lemma prune_dependencies:
  assumes "foldl (prune_dependency m V i) (ch, b) ds = (ch', b')"
  shows "set (get_or_nil ch' a) = set (get_or_nil ch a) \<union> (if a \<in> set ds \<and> map_has m a then {i} else {})"
    and "b' \<longleftrightarrow> b \<or> (\<exists>d \<in> set ds. \<not> map_has m d \<and> d \<notin> set V)"
proof -
  have "set (get_or_nil ch' a) = set (get_or_nil ch a) \<union> (if a \<in> set ds \<and> map_has m a then {i} else {}) \<and>
      (b' \<longleftrightarrow> b \<or> (\<exists>d \<in> set ds. \<not> map_has m d \<and> d \<notin> set V))"
    using assms
  proof (induction ds arbitrary: ch b)
    case (Cons d ds)
    obtain ch1 b1 where step: "prune_dependency m V i (ch, b) d = (ch1, b1)" by fastforce
    then have c1: "set (get_or_nil ch1 a) = set (get_or_nil ch a) \<union> (if a = d \<and> map_has m a then {i} else {})"
      and b1: "b1 \<longleftrightarrow> b \<or> \<not> map_has m d \<and> d \<notin> set V"
      by (auto simp: prune_dependency_def split: if_splits)
    from step Cons.prems have "foldl (prune_dependency m V i) (ch1, b1) ds = (ch', b')" by simp
    note IH = Cons.IH [OF this]
    have "(if a \<in> set (d # ds) \<and> map_has m a then {i} else {}) =
        (if a = d \<and> map_has m a then {i} else {}) \<union> (if a \<in> set ds \<and> map_has m a then {i} else {})"
      by simp
    then show ?case using IH c1 b1 by (simp only: set_simps bex_simps Un_assoc) blast
  qed simp
  then show "set (get_or_nil ch' a) = set (get_or_nil ch a) \<union> (if a \<in> set ds \<and> map_has m a then {i} else {})"
    and "b' \<longleftrightarrow> b \<or> (\<exists>d \<in> set ds. \<not> map_has m d \<and> d \<notin> set V)" by blast+
qed

definition prune_seeds ::
  "(string, store_entry_metadata) jsmap \<Rightarrow> string jsset \<Rightarrow> store_entry_metadata list \<Rightarrow> prune_state" where
  "prune_seeds m V es =
     foldl (prune_seed m V) \<lparr> prune_children = [], prune_ungrounded = [], prune_queue = [] \<rparr> es"

definition seed_ids ::
  "(string, store_entry_metadata) jsmap \<Rightarrow> string set \<Rightarrow> store_entry_metadata set \<Rightarrow> string set" where
  "seed_ids m V E =
     entry_id ` {e \<in> E. entry_id e \<notin> V \<and> (\<exists>d \<in> set (dependencyIds e). \<not> map_has m d \<and> d \<notin> V)}"

lemma prune_seeds_correct:
  "set (get_or_nil (prune_children (prune_seeds m V es)) a) =
     {i. map_has m a \<and> (\<exists>e \<in> set es. entry_id e = i \<and> a \<in> set (dependencyIds e))} \<and>
   set (prune_ungrounded (prune_seeds m V es)) = seed_ids m (set V) (set es) \<and>
   set (prune_queue (prune_seeds m V es)) = seed_ids m (set V) (set es)"
proof (induction es rule: rev_induct)
  case Nil
  then show ?case by (simp add: prune_seeds_def seed_ids_def get_or_nil_def)
next
  case (snoc e es)
  let ?st = "prune_seeds m V es"
  obtain ch b where f: "foldl (prune_dependency m V (entry_id e)) (prune_children ?st, False) (dependencyIds e) = (ch, b)"
    by fastforce
  have st: "prune_seeds m V (es @ [e]) =
      (if b \<and> entry_id e \<notin> set V then
         \<lparr> prune_children = ch, prune_ungrounded = set_add (entry_id e) (prune_ungrounded ?st),
           prune_queue = entry_id e # prune_queue ?st \<rparr>
       else ?st \<lparr> prune_children := ch \<rparr>)"
    using f by (simp add: prune_seeds_def prune_seed_def)
  have b: "b \<longleftrightarrow> (\<exists>d \<in> set (dependencyIds e). \<not> map_has m d \<and> d \<notin> set V)"
    using prune_dependencies(2) [OF f] by simp
  have seeds: "seed_ids m (set V) (set (es @ [e])) =
      (if b \<and> entry_id e \<notin> set V then insert (entry_id e) (seed_ids m (set V) (set es))
       else seed_ids m (set V) (set es))"
    unfolding b by (auto simp: seed_ids_def)
  have "prune_children (prune_seeds m V (es @ [e])) = ch" by (simp add: st)
  then have "set (get_or_nil (prune_children (prune_seeds m V (es @ [e]))) a) =
      {i. map_has m a \<and> (\<exists>f \<in> set (es @ [e]). entry_id f = i \<and> a \<in> set (dependencyIds f))}"
    using prune_dependencies(1) [OF f, of a] snoc.IH by auto
  moreover have "set (prune_ungrounded (prune_seeds m V (es @ [e]))) = seed_ids m (set V) (set (es @ [e]))"
    "set (prune_queue (prune_seeds m V (es @ [e]))) = seed_ids m (set V) (set (es @ [e]))"
    unfolding seeds st using snoc.IH by simp_all
  ultimately show ?case by blast
qed

text \<open>The propagation collects what the seeds reach along child edges outside the vouched ids.\<close>

definition child_edge :: "(string, string list) jsmap \<Rightarrow> string set \<Rightarrow> string \<Rightarrow> string \<Rightarrow> bool" where
  "child_edge ch V a b \<longleftrightarrow> b \<in> set (get_or_nil ch a) \<and> b \<notin> V"

lemma unground_walk_correct:
  assumes "R \<subseteq> set u" and "\<forall>i \<in> set u. \<exists>r \<in> R. (child_edge ch (set V))\<^sup>*\<^sup>* r i" and "set q \<subseteq> set u"
    and "\<forall>a \<in> set u - set q. \<forall>b. child_edge ch (set V) a b \<longrightarrow> b \<in> set u"
  shows "set (unground_walk ch V q u) = {i. \<exists>r \<in> R. (child_edge ch (set V))\<^sup>*\<^sup>* r i}"
  using assms
proof (induction ch V q u rule: unground_walk.induct)
  case (1 ch V u)
  then have "walk_inv (child_edge ch (set V)) R {} (set u)" by (auto simp: walk_inv_def)
  then show ?case using walk_inv_done by simp
next
  case (2 ch V i q u)
  obtain q' u' where f: "foldl (prune_child V) (q, u) (get_or_nil ch i) = (q', u')" by fastforce
  let ?E = "child_edge ch (set V)"
  obtain new where new: "q' = new @ q" "set new \<union> set u = set u'" "set u' = set u \<union> {b. ?E i b}"
    using prune_child_fold [OF f] by (auto simp: child_edge_def)
  have "R \<subseteq> set u'" "set q' \<subseteq> set u'" using "2.prems"(1,3) new by auto
  moreover have "\<forall>j \<in> set u'. \<exists>r \<in> R. ?E\<^sup>*\<^sup>* r j"
  proof
    fix j assume "j \<in> set u'"
    then consider "j \<in> set u" | "?E i j" using new(3) by blast
    then show "\<exists>r \<in> R. ?E\<^sup>*\<^sup>* r j"
    proof cases
      case 2
      have "i \<in> set u" using "2.prems"(3) by simp
      then obtain r where "r \<in> R" "?E\<^sup>*\<^sup>* r i" using "2.prems"(2) by blast
      with 2 show ?thesis by (meson rtranclp.rtrancl_into_rtrancl)
    qed (use "2.prems"(2) in blast)
  qed
  moreover have "\<forall>a \<in> set u' - set q'. \<forall>b. ?E a b \<longrightarrow> b \<in> set u'"
  proof (intro ballI allI impI)
    fix a b assume a: "a \<in> set u' - set q'" and e: "?E a b"
    then have a': "a \<in> set u" "a \<notin> set q" using new(1,2) by auto
    show "b \<in> set u'"
    proof (cases "a = i")
      case True
      then show ?thesis using e unfolding new(3) by blast
    next
      case False
      then have "a \<in> set u - set (i # q)" using a' by simp
      then show ?thesis using "2.prems"(4) e unfolding new(3) by blast
    qed
  qed
  ultimately show ?case
    using "2.IH" [OF f [symmetric]] by (simp add: unground_walk.simps(2) f)
qed

definition ungrounded_ids :: "store_entry_metadata list \<Rightarrow> string jsset" where
  "ungrounded_ids es =
     (let m = by_id (filter isReplayEntry es); V = vouched_ids m es;
          st = prune_seeds m V (filter isReplayEntry es)
      in unground_walk (prune_children st) V (prune_queue st) (prune_ungrounded st))"

lemma prune_eq: "pruneToGroundedEntries es = filter (\<lambda>e. entry_id e \<notin> set (ungrounded_ids es)) es"
  by (simp add: pruneToGroundedEntries_def ungrounded_ids_def prune_seeds_def Let_def)

text \<open>The same in terms of the slice: the entries with a missing dependency, and the edge to a child.\<close>

definition prune_roots :: "store_entry_metadata list \<Rightarrow> string set" where
  "prune_roots es =
     entry_id ` {e \<in> set es. isReplayEntry e \<and> entry_id e \<notin> vouched es \<and>
       (\<exists>d \<in> set (dependencyIds e). d \<notin> replay_ids es \<and> d \<notin> vouched es)}"

definition prune_step :: "store_entry_metadata list \<Rightarrow> string \<Rightarrow> string \<Rightarrow> bool" where
  "prune_step es a b \<longleftrightarrow>
     b \<notin> vouched es \<and> a \<in> replay_ids es \<and>
     (\<exists>e \<in> set es. isReplayEntry e \<and> entry_id e = b \<and> a \<in> set (dependencyIds e))"

lemma set_ungrounded_ids:
  "set (ungrounded_ids es) = {i. \<exists>r \<in> prune_roots es. (prune_step es)\<^sup>*\<^sup>* r i}"
proof -
  let ?m = "by_id (filter isReplayEntry es)" and ?E = "set (filter isReplayEntry es)"
  let ?V = "vouched_ids ?m es"
  define st where "st = prune_seeds ?m ?V (filter isReplayEntry es)"
  have V: "set ?V = vouched es" unfolding set_vouched_ids by (auto simp: vouched_def)
  have has: "map_has ?m i \<longleftrightarrow> i \<in> replay_ids es" for i by (simp add: by_id_has replay_ids_def)
  have roots: "seed_ids ?m (vouched es) ?E = prune_roots es"
    by (auto simp: seed_ids_def prune_roots_def has)
  note s = prune_seeds_correct [of ?m ?V "filter isReplayEntry es", folded st_def, unfolded V roots]
  have ungr: "set (prune_ungrounded st) = prune_roots es" and q: "set (prune_queue st) = prune_roots es"
    using s by simp_all
  have children: "set (get_or_nil (prune_children st) a) =
      {i. map_has ?m a \<and> (\<exists>e \<in> ?E. entry_id e = i \<and> a \<in> set (dependencyIds e))}" for a
    using s by blast
  have "child_edge (prune_children st) (set ?V) = prune_step es"
    unfolding child_edge_def prune_step_def children V has by (intro ext) auto
  moreover have "set (unground_walk (prune_children st) ?V (prune_queue st) (prune_ungrounded st)) =
      {i. \<exists>r \<in> prune_roots es. (child_edge (prune_children st) (set ?V))\<^sup>*\<^sup>* r i}"
    by (rule unground_walk_correct) (auto simp: ungr q)
  ultimately show ?thesis by (simp add: ungrounded_ids_def Let_def st_def)
qed

lemma ungrounded_root: "i \<in> prune_roots es \<Longrightarrow> i \<in> set (ungrounded_ids es)"
  unfolding set_ungrounded_ids by blast

lemma ungrounded_step: "a \<in> set (ungrounded_ids es) \<Longrightarrow> prune_step es a b \<Longrightarrow> b \<in> set (ungrounded_ids es)"
  unfolding set_ungrounded_ids by (blast intro: rtranclp.rtrancl_into_rtrancl)

lemma ungrounded_induct [consumes 1, case_names root step]:
  assumes "i \<in> set (ungrounded_ids es)" and "\<And>r. r \<in> prune_roots es \<Longrightarrow> P r"
    and "\<And>a b. a \<in> set (ungrounded_ids es) \<Longrightarrow> P a \<Longrightarrow> prune_step es a b \<Longrightarrow> P b"
  shows "P i"
proof -
  obtain r where r: "r \<in> prune_roots es" "(prune_step es)\<^sup>*\<^sup>* r i" using assms(1) unfolding set_ungrounded_ids by blast
  from r(2) show ?thesis
  proof (induction rule: rtranclp_induct)
    case (step a b)
    then show ?case using assms(3) [of a b] r(1) unfolding set_ungrounded_ids by blast
  qed (use assms(2) r(1) in blast)
qed

lemma ungrounded_in: "i \<in> set (ungrounded_ids es) \<Longrightarrow> i \<notin> vouched es \<and> i \<in> replay_ids es"
  by (induction rule: ungrounded_induct) (auto simp: prune_roots_def prune_step_def replay_ids_def)

lemma same_entry: "distinct (ids_of es) \<Longrightarrow> e \<in> set es \<Longrightarrow> f \<in> set es \<Longrightarrow> entry_id e = entry_id f \<Longrightarrow> e = f"
  by (auto simp: distinct_map dest: inj_onD)

lemma ungrounded_replay:
  assumes "distinct (ids_of es)" and "e \<in> set es" and "entry_id e \<in> set (ungrounded_ids es)"
  shows "isReplayEntry e \<and> entry_id e \<notin> vouched es"
proof -
  obtain f where "f \<in> set es" "isReplayEntry f" "entry_id e = entry_id f"
    using ungrounded_in [OF assms(3)] by (auto simp: replay_ids_def)
  with same_entry [OF assms(1,2)] ungrounded_in [OF assms(3)] show ?thesis by metis
qed

lemma kept_grounded: "grounded (vouched es) {e \<in> set es. entry_id e \<notin> set (ungrounded_ids es)}"
  unfolding grounded_def
proof (intro ballI impI)
  let ?U = "set (ungrounded_ids es)"
  fix e d assume e: "e \<in> {e \<in> set es. entry_id e \<notin> ?U}" "isReplayEntry e \<and> entry_id e \<notin> vouched es"
    and d: "d \<in> set (dependencyIds e)"
  show "d \<in> vouched es \<or> (\<exists>f \<in> {e \<in> set es. entry_id e \<notin> ?U}. isReplayEntry f \<and> entry_id f = d)"
  proof (cases "d \<in> replay_ids es")
    case True
    have "d \<notin> ?U" using ungrounded_step [of d es "entry_id e"] True e d by (auto simp: prune_step_def)
    then show ?thesis using True by (auto simp: replay_ids_def)
  next
    case False
    then have "d \<in> vouched es \<or> entry_id e \<in> prune_roots es" using e d by (auto simp: prune_roots_def)
    then show ?thesis using ungrounded_root e(1) by blast
  qed
qed

lemma kept_greatest:
  assumes dist: "distinct (ids_of es)" and K: "K \<subseteq> set es" "grounded (vouched es) K"
  shows "K \<subseteq> {e \<in> set es. entry_id e \<notin> set (ungrounded_ids es)}"
proof -
  have dep: "d \<in> vouched es \<or> (\<exists>f \<in> K. isReplayEntry f \<and> entry_id f = d)"
    if "e \<in> K" "isReplayEntry e" "entry_id e \<notin> vouched es" "d \<in> set (dependencyIds e)" for e d
    using K(2) that unfolding grounded_def by blast
  have "\<forall>e \<in> K. entry_id e \<noteq> i" if "i \<in> set (ungrounded_ids es)" for i
    using that
  proof (induction rule: ungrounded_induct)
    case (root r)
    then obtain e d where e: "e \<in> set es" "isReplayEntry e" "entry_id e = r" "r \<notin> vouched es"
      and d: "d \<in> set (dependencyIds e)" "d \<notin> replay_ids es" "d \<notin> vouched es" by (auto simp: prune_roots_def)
    have "\<not> (\<exists>f \<in> K. isReplayEntry f \<and> entry_id f = d)" using d(2) K(1) by (auto simp: replay_ids_def)
    then have "e \<notin> K" using dep [of e d] e d by blast
    then show ?case using same_entry [OF dist e(1)] e(3) K(1) by blast
  next
    case (step a b)
    then obtain e where e: "e \<in> set es" "isReplayEntry e" "entry_id e = b" "a \<in> set (dependencyIds e)" "b \<notin> vouched es"
      unfolding prune_step_def by blast
    have "a \<notin> vouched es" using ungrounded_in [OF step.hyps(1)] by simp
    then have "e \<notin> K" using dep [of e a] e step.IH by blast
    then show ?case using same_entry [OF dist e(1)] e(3) K(1) by blast
  qed
  then show ?thesis using K(1) by blast
qed

text \<open>
  C27. Pruning a timestamp slice keeps exactly the complete causal chains. What remains is the
  slice without some entries, in the same order; nothing but replay entries is dropped, and
  nothing a snapshot vouches for; every remaining replay entry that is not vouched for has all
  its dependencies among the remaining entries or vouched for; and it is the greatest such
  selection, so no entry whose chain is complete is lost.
\<close>

theorem prune_keeps_grounded:
  assumes "distinct (ids_of es)"
  shows "(\<exists>P. pruneToGroundedEntries es = filter P es) \<and>
         {e \<in> set es. \<not> isReplayEntry e \<or> entry_id e \<in> vouched es} \<subseteq> set (pruneToGroundedEntries es) \<and>
         grounded (vouched es) (set (pruneToGroundedEntries es)) \<and>
         (\<forall>K \<subseteq> set es. grounded (vouched es) K \<longrightarrow> K \<subseteq> set (pruneToGroundedEntries es))"
proof -
  have kept: "set (pruneToGroundedEntries es) = {e \<in> set es. entry_id e \<notin> set (ungrounded_ids es)}"
    by (auto simp: prune_eq)
  show ?thesis
    using prune_eq [of es] ungrounded_replay [OF assms] kept_grounded kept_greatest [OF assms]
    unfolding kept by blast
qed

text \<open>A slice in which the parent of one entry lies outside and another entry rests on it.\<close>

definition demo_slice :: "store_entry_metadata list" where
  "demo_slice =
     [sample_metadata doc_create ''a'' ''d'' [] ''h'' 1,
      sample_metadata doc_change ''b'' ''d'' [''late''] ''h'' 2,
      sample_metadata doc_change ''c'' ''d'' [''b'', ''a''] ''h'' 3]"

theorem prune_keeps_grounded_witness:
  "sample_metadata doc_create ''a'' ''d'' [] ''h'' 1 \<in> set (pruneToGroundedEntries demo_slice) \<and>
   sample_metadata doc_change ''b'' ''d'' [''late''] ''h'' 2 \<notin> set (pruneToGroundedEntries demo_slice)"
proof -
  have dist: "distinct (ids_of demo_slice)" by (simp add: demo_slice_def)
  have V: "vouched demo_slice = {}" by (simp add: vouched_def demo_slice_def)
  note p = prune_keeps_grounded [OF dist, unfolded V]
  have "grounded {} {sample_metadata doc_create ''a'' ''d'' [] ''h'' 1}" by (simp add: grounded_def)
  moreover have "{sample_metadata doc_create ''a'' ''d'' [] ''h'' 1} \<subseteq> set demo_slice" by (simp add: demo_slice_def)
  ultimately have "{sample_metadata doc_create ''a'' ''d'' [] ''h'' 1} \<subseteq> set (pruneToGroundedEntries demo_slice)"
    using p by blast
  moreover have "sample_metadata doc_change ''b'' ''d'' [''late''] ''h'' 2 \<notin> set (pruneToGroundedEntries demo_slice)"
  proof
    have g: "grounded {} (set (pruneToGroundedEntries demo_slice))" using p by blast
    assume "sample_metadata doc_change ''b'' ''d'' [''late''] ''h'' 2 \<in> set (pruneToGroundedEntries demo_slice)"
    from bspec [OF g [unfolded grounded_def] this]
    obtain f where "f \<in> set (pruneToGroundedEntries demo_slice)" "entry_id f = ''late''"
      by (auto simp: isReplayEntry_def DOC_REPLAY_TYPES_def)
    moreover have "set (pruneToGroundedEntries demo_slice) \<subseteq> set demo_slice" by (simp add: prune_eq)
    ultimately show False by (auto simp: demo_slice_def)
  qed
  ultimately show ?thesis by simp
qed

end
