(* ===== verification/IdGeneration.thy ===== *)
theory IdGeneration
  imports ByteLayout "HOL-Library.Sublist"
begin

text \<open>
  Ids of documents, entries and attachment chunks (\<^verbatim>\<open>core/utils/idGeneration.ts\<close>): the
  object ids and their process-wide counter, the composed entry ids, the regular expressions that
  take them apart, and the retry loop for chunk ids that must not collide under case folding.

  Parameters: \<open>unique\<close>, the five random bytes of the process (the module draws them once), the
  clock in seconds, and \<open>sha256\<close>. The counter is state. UUIDs come from a package and are
  arguments.
\<close>

section \<open>Object ids\<close>

definition OBJECT_ID_LENGTH :: nat where
  "OBJECT_ID_LENGTH = 24"

definition bytesToHex :: "bytes \<Rightarrow> string" where
  "bytesToHex bs = concat (map byte_hex bs)"

text \<open>Four bytes of time, five of the process, three of the counter, which wraps at \<open>2^24\<close>.\<close>

definition generateObjectId :: "bytes \<Rightarrow> int \<Rightarrow> int \<Rightarrow> string \<times> int" where
  "generateObjectId unique seconds objectIdCounter =
     (let counter = (objectIdCounter + 1) mod 2 ^ 24
      in (bytesToHex (u32be seconds @ unique @ be_bytes 3 counter), counter))"

definition generateDocId :: "bytes \<Rightarrow> int \<Rightarrow> string option \<Rightarrow> int \<Rightarrow> string \<times> int" where
  "generateDocId unique seconds idPrefix objectIdCounter =
     (let (encoded, counter) = generateObjectId unique seconds objectIdCounter
      in (case idPrefix of
            Some p \<Rightarrow> (if p \<noteq> [] then p @ ''_'' @ encoded else encoded)
          | None \<Rightarrow> encoded, counter))"

definition generateTenantId :: "bytes \<Rightarrow> int \<Rightarrow> int \<Rightarrow> string \<times> int" where
  "generateTenantId unique seconds objectIdCounter = generateObjectId unique seconds objectIdCounter"

definition matchesDocIdPrefix :: "string \<Rightarrow> string \<Rightarrow> bool" where
  "matchesDocIdPrefix d idPrefix \<longleftrightarrow>
     length idPrefix = 0 \<or> d = idPrefix \<or> prefix (idPrefix @ ''_'') d"

section \<open>Entry ids\<close>

fun join_comma :: "string list \<Rightarrow> string" where
  "join_comma [] = []"
| "join_comma [x] = x"
| "join_comma (x # y # xs) = x @ '','' @ join_comma (y # xs)"

definition generateDepsFingerprint :: "(bytes \<Rightarrow> bytes) \<Rightarrow> string list \<Rightarrow> string" where
  "generateDepsFingerprint sha256 dependencyAutomergeHashes =
     (if length dependencyAutomergeHashes = 0 then ''0''
      else bytesToHex (take 4 (sha256 (utf8_encode (join_comma (js_sort_strings dependencyAutomergeHashes))))))"

definition generateDocEntryId :: "(bytes \<Rightarrow> bytes) \<Rightarrow> string \<Rightarrow> string \<Rightarrow> string list \<Rightarrow> string" where
  "generateDocEntryId sha256 d automergeHash deps =
     d @ ''_d_'' @ generateDepsFingerprint sha256 deps @ ''_'' @ automergeHash"

definition generateAttachmentChunkId ::
  "bytes \<Rightarrow> int \<Rightarrow> string \<Rightarrow> string \<Rightarrow> string option \<Rightarrow> int \<Rightarrow> string \<times> int" where
  "generateAttachmentChunkId unique seconds d fileUuid7 chunkObjectId objectIdCounter =
     (let (chunkId, counter) =
            (case chunkObjectId of
               Some c \<Rightarrow> (c, objectIdCounter)
             | None \<Rightarrow> generateObjectId unique seconds objectIdCounter)
      in (d @ ''_a_'' @ fileUuid7 @ ''_'' @ chunkId, counter))"

text \<open>\<^verbatim>\<open>toLowerCase\<close> on the code units of the model.\<close>

definition lower_char :: "char \<Rightarrow> char" where
  "lower_char c =
     (let k = of_char c :: nat
      in if 65 \<le> k \<and> k \<le> 90 \<or> 192 \<le> k \<and> k \<le> 222 \<and> k \<noteq> 215 then char_of (k + 32) else c)"

text \<open>
  The loop of \<^verbatim>\<open>generateUniqueAttachmentChunkId\<close> has no bound. \<open>clock k\<close> is the time of
  its \<open>k\<close>-th round; it yields the id, the extended set and the counter.
\<close>

partial_function (option) unique_chunk_loop ::
  "bytes \<Rightarrow> (nat \<Rightarrow> int) \<Rightarrow> string \<Rightarrow> string \<Rightarrow> string jsset \<Rightarrow> nat \<Rightarrow> int \<Rightarrow>
   (string \<times> string jsset \<times> int) option" where
  "unique_chunk_loop unique clock d fileUuid7 usedCaseFoldedIds k objectIdCounter =
     (let (i, counter) = generateAttachmentChunkId unique (clock k) d fileUuid7 None objectIdCounter;
          folded = map lower_char i
      in if folded \<notin> set usedCaseFoldedIds then Some (i, set_add folded usedCaseFoldedIds, counter)
         else unique_chunk_loop unique clock d fileUuid7 usedCaseFoldedIds (Suc k) counter)"

definition generateUniqueAttachmentChunkId ::
  "bytes \<Rightarrow> (nat \<Rightarrow> int) \<Rightarrow> string \<Rightarrow> string \<Rightarrow> string jsset \<Rightarrow> int \<Rightarrow>
   (string \<times> string jsset \<times> int) option" where
  "generateUniqueAttachmentChunkId unique clock d fileUuid7 usedCaseFoldedIds objectIdCounter =
     unique_chunk_loop unique clock d fileUuid7 usedCaseFoldedIds 0 objectIdCounter"

section \<open>Taking ids apart\<close>

text \<open>
  \<^verbatim>\<open>/^(.+)_d_([0-9a-f]+|0)_(.+)$/\<close>. A dot matches no line terminator. The first group is
  greedy, so candidate lengths are tried from the longest down; the second group is followed by an
  underscore, which it cannot contain, so it is the whole run of hexadecimal digits.
\<close>

definition no_line_end :: "string \<Rightarrow> bool" where
  "no_line_end s \<longleftrightarrow> list_all (\<lambda>c. (of_char c :: nat) \<noteq> 10 \<and> (of_char c :: nat) \<noteq> 13) s"

definition dots :: "string \<Rightarrow> bool" where
  "dots s \<longleftrightarrow> s \<noteq> [] \<and> no_line_end s"

definition is_lower_hex :: "char \<Rightarrow> bool" where
  "is_lower_hex c \<longleftrightarrow> (let k = of_char c :: nat in 48 \<le> k \<and> k \<le> 57 \<or> 97 \<le> k \<and> k \<le> 102)"

text \<open>One split: the first group, the marker, a run of \<open>mid\<close> characters, an underscore and the rest.\<close>

definition match_at ::
  "string \<Rightarrow> (char \<Rightarrow> bool) \<Rightarrow> string \<Rightarrow> nat \<Rightarrow> (string \<times> string \<times> string) option" where
  "match_at marker mid i n =
     (let g1 = take n i; rest = drop n i; tail = drop (length marker) rest;
          g2 = takeWhile mid tail; after = dropWhile mid tail
      in if dots g1 \<and> take (length marker) rest = marker \<and> g2 \<noteq> [] \<and>
            after \<noteq> [] \<and> hd after = CHR ''_'' \<and> dots (tl after)
         then Some (g1, g2, tl after) else None)"

fun match_from ::
  "string \<Rightarrow> (char \<Rightarrow> bool) \<Rightarrow> string \<Rightarrow> nat \<Rightarrow> (string \<times> string \<times> string) option" where
  "match_from marker mid i 0 = match_at marker mid i 0"
| "match_from marker mid i (Suc n) =
     (case match_at marker mid i (Suc n) of
        Some r \<Rightarrow> Some r
      | None \<Rightarrow> match_from marker mid i n)"

definition parseDocEntryId :: "string \<Rightarrow> (string \<times> string \<times> string) option" where
  "parseDocEntryId i = match_from ''_d_'' is_lower_hex i (length i)"

definition parseAttachmentChunkId :: "string \<Rightarrow> (string \<times> string \<times> string) option" where
  "parseAttachmentChunkId i = match_from ''_a_'' (\<lambda>c. c \<noteq> CHR ''_'') i (length i)"

definition isDocEntryId :: "string \<Rightarrow> bool" where
  "isDocEntryId i \<longleftrightarrow> sublist ''_d_'' i"

definition isAttachmentChunkId :: "string \<Rightarrow> bool" where
  "isAttachmentChunkId i \<longleftrightarrow> sublist ''_a_'' i"

definition extractDocIdFromEntryId :: "string \<Rightarrow> string option" where
  "extractDocIdFromEntryId i =
     (if isDocEntryId i then
        (case parseDocEntryId i of Some (d, _) \<Rightarrow> (if d \<noteq> [] then Some d else None) | None \<Rightarrow> None)
      else if isAttachmentChunkId i then
        (case parseAttachmentChunkId i of Some (d, _) \<Rightarrow> (if d \<noteq> [] then Some d else None) | None \<Rightarrow> None)
      else None)"

definition computeContentHash :: "(bytes \<Rightarrow> bytes) \<Rightarrow> bytes \<Rightarrow> string" where
  "computeContentHash sha256 data = bytesToHex (sha256 data)"

section \<open>Object ids are fresh and ordered\<close>

lemma length_bytesToHex: "length (bytesToHex bs) = 2 * length bs"
  by (induction bs) (simp_all add: bytesToHex_def byte_hex_def)

lemma bytesToHex_append: "bytesToHex (xs @ ys) = bytesToHex xs @ bytesToHex ys"
  by (simp add: bytesToHex_def)

lemma unat_byte_bounds: "unat (b :: 8 word) div 16 < 16" "unat (b :: 8 word) mod 16 < 16"
  using unsigned_less [of b, where ?'a = nat] by simp_all

lemma byte_hex_inj: "byte_hex a = byte_hex b \<longleftrightarrow> a = b"
proof
  assume "byte_hex a = byte_hex b"
  then have "unat a div 16 = unat b div 16" "unat a mod 16 = unat b mod 16"
    using unat_byte_bounds [of a] unat_byte_bounds [of b] by (simp_all add: byte_hex_def hex_digit_inj)
  then have "unat a = unat b" by (metis div_mult_mod_eq)
  then show "a = b" by (simp add: word_unat_eq_iff)
qed simp

lemma bytesToHex_inj: "length xs = length ys \<Longrightarrow> bytesToHex xs = bytesToHex ys \<Longrightarrow> xs = ys"
proof (induction xs ys rule: list_induct2)
  case (Cons x xs y ys)
  then have "byte_hex x = byte_hex y \<and> bytesToHex xs = bytesToHex ys"
    by (simp add: bytesToHex_def byte_hex_def)
  then show ?case using Cons byte_hex_inj by simp
qed simp

lemma bytesToHex_hex: "c \<in> set (bytesToHex bs) \<Longrightarrow> is_lower_hex c"
proof -
  assume "c \<in> set (bytesToHex bs)"
  then obtain b where "c = hex_digit (unat b div 16) \<or> c = hex_digit (unat (b :: 8 word) mod 16)"
    by (auto simp: bytesToHex_def byte_hex_def)
  then obtain n where "n < 16" "c = hex_digit n" using unat_byte_bounds [of b] by blast
  then show ?thesis by (simp add: is_lower_hex_def of_char_hex_digit Let_def)
qed

lemma lower_hex_char: "is_lower_hex c \<Longrightarrow> lower_char c = c"
  by (auto simp: is_lower_hex_def lower_char_def Let_def)

lemma map_lower_hex: "map lower_char (bytesToHex bs) = bytesToHex bs"
  by (rule map_idI) (use bytesToHex_hex lower_hex_char in blast)

text \<open>Comparing by code unit compares the bytes.\<close>

lemma byte_hex_less: "a < b \<Longrightarrow> byte_hex a @ r < byte_hex b @ r'"
proof -
  assume "a < b"
  then have "unat a < unat b" by (simp add: word_less_nat_alt)
  then have "unat a div 16 < unat b div 16 \<or>
      unat a div 16 = unat b div 16 \<and> unat a mod 16 < unat b mod 16"
    by (metis div_le_mono div_mult_mod_eq le_neq_implies_less less_imp_le nat_add_left_cancel_less)
  then show ?thesis
    using unat_byte_bounds [of a] unat_byte_bounds [of b] by (auto simp: byte_hex_def hex_digit_less)
qed

lemma bytesToHex_less: "length xs = length ys \<Longrightarrow> xs < ys \<Longrightarrow> bytesToHex xs < bytesToHex ys"
proof (induction xs ys rule: list_induct2)
  case (Cons x xs y ys)
  then consider "x < y" | "x = y" "xs < ys" by auto
  then show ?case
  proof cases
    case 1
    then show ?thesis using byte_hex_less [of x y] by (simp add: bytesToHex_def)
  next
    case 2
    then show ?thesis using Cons.IH by (simp add: bytesToHex_def byte_hex_def)
  qed
qed simp

lemma append_less: "length xs = length ys \<Longrightarrow> xs < ys \<Longrightarrow> xs @ r < ys @ (r' :: 'a::order list)"
  by (induction xs ys rule: list_induct2) auto

lemma append_less_tail: "r < r' \<Longrightarrow> xs @ r < xs @ (r' :: 'a::order list)"
  by (induction xs) auto

lemma be_bytes_less:
  assumes "0 \<le> v" and "v < w" and "w < 256 ^ k"
  shows "be_bytes k v < be_bytes k w"
  using assms
proof (induction k arbitrary: v w)
  case (Suc k)
  have word: "of_int v < (of_int w :: 8 word)" if "v mod 256 < w mod 256"
    using that by (simp add: word_less_def uint_byte)
  have bound: "w div 256 < 256 ^ k" using Suc.prems by (simp add: div_less_iff_less_mult)
  have "v div 256 < w div 256 \<or> v div 256 = w div 256 \<and> v mod 256 < w mod 256"
    using Suc.prems(2) zdiv_mono1 [of v w 256] div_mult_mod_eq [of v 256] div_mult_mod_eq [of w 256] by linarith
  then show ?case
  proof
    assume "v div 256 < w div 256"
    then show ?thesis
      using Suc.IH [of "v div 256" "w div 256"] bound Suc.prems(1)
      by (simp add: be_bytes_snoc append_less del: be_bytes.simps)
  next
    assume low: "v div 256 = w div 256 \<and> v mod 256 < w mod 256"
    have "be_bytes k (w div 256) @ [of_int v] < be_bytes k (w div 256) @ [of_int w]"
      by (rule append_less_tail) (use word low in simp)
    then show ?thesis using low by (simp add: be_bytes_snoc del: be_bytes.simps)
  qed
qed simp

text \<open>The ids of consecutive calls in one process, at the given readings of the clock.\<close>

fun generate_ids :: "bytes \<Rightarrow> int list \<Rightarrow> int \<Rightarrow> string list" where
  "generate_ids unique [] counter = []"
| "generate_ids unique (t # ts) counter =
     (case generateObjectId unique t counter of (i, counter') \<Rightarrow> i # generate_ids unique ts counter')"

abbreviation object_id_of :: "bytes \<Rightarrow> int \<Rightarrow> int \<Rightarrow> string" where
  "object_id_of unique t c \<equiv> bytesToHex (u32be t @ unique @ be_bytes 3 (c mod 2 ^ 24))"

lemma counter_step: "((c + 1) mod 2 ^ 24 + (1 + n)) mod 2 ^ 24 = (c + 1 + (1 + n)) mod (2 ^ 24 :: int)"
  by (rule mod_add_left_eq)

lemma generate_ids_nth:
  "k < length ts \<Longrightarrow> generate_ids unique ts c ! k = object_id_of unique (ts ! k) (c + 1 + int k)"
proof (induction ts arbitrary: c k)
  case (Cons t ts)
  show ?case
  proof (cases k)
    case (Suc n)
    have "generate_ids unique (t # ts) c ! k = object_id_of unique (ts ! n) ((c + 1) mod 2 ^ 24 + (1 + int n))"
      using Cons Suc by (simp add: generateObjectId_def Let_def add.assoc)
    then show ?thesis unfolding counter_step by (simp add: Suc)
  qed (simp add: generateObjectId_def Let_def)
qed simp

lemma length_generate_ids [simp]: "length (generate_ids unique ts c) = length ts"
  by (induction ts arbitrary: c) (simp_all add: generateObjectId_def Let_def)

lemma object_id_inj:
  assumes "object_id_of unique t c = object_id_of unique t' c'"
  shows "c mod 2 ^ 24 = c' mod 2 ^ 24"
proof -
  have "u32be t @ unique @ be_bytes 3 (c mod 2 ^ 24) = u32be t' @ unique @ be_bytes 3 (c' mod 2 ^ 24)"
    by (rule bytesToHex_inj [OF _ assms]) simp
  then have "be_bytes 3 (c mod 2 ^ 24) = be_bytes 3 (c' mod 2 ^ 24)" by simp
  from be_bytes_mod_eq [OF this] show ?thesis by simp
qed

lemma object_id_less:
  assumes "0 \<le> t" and "t' < 2 ^ 32" and "t < t' \<or> t = t' \<and> c mod 2 ^ 24 < c' mod 2 ^ 24"
  shows "object_id_of unique t c < object_id_of unique t' c'"
proof (rule bytesToHex_less)
  show "u32be t @ unique @ be_bytes 3 (c mod 2 ^ 24) < u32be t' @ unique @ be_bytes 3 (c' mod 2 ^ 24)"
    using assms(3)
  proof
    assume "t < t'"
    then show ?thesis using assms(1,2) by (intro append_less be_bytes_less) simp_all
  next
    assume "t = t' \<and> c mod 2 ^ 24 < c' mod 2 ^ 24"
    then show ?thesis by (auto intro!: append_less_tail be_bytes_less simp del: be_bytes.simps)
  qed
qed simp

text \<open>
  C24. Consecutive object ids of one process. Whatever the clock shows, up to \<open>2^24\<close> of them in a
  row are pairwise different, and each has 24 characters out of \<open>0-9a-f\<close>. They sort in the order
  of their creation as long as the clock does not run backwards or past 32 bits and the counter
  does not wrap.
\<close>

theorem object_ids_fresh_and_ordered:
  assumes "length unique = 5" and "length ts \<le> 2 ^ 24"
  shows "distinct (generate_ids unique ts c) \<and>
         (\<forall>i \<in> set (generate_ids unique ts c). length i = OBJECT_ID_LENGTH \<and> list_all is_lower_hex i) \<and>
         (sorted ts \<and> (\<forall>t \<in> set ts. 0 \<le> t \<and> t < 2 ^ 32) \<and> 0 \<le> c \<and> c + int (length ts) < 2 ^ 24 \<longrightarrow>
            sorted_wrt (<) (generate_ids unique ts c))"
proof (intro conjI impI)
  show "distinct (generate_ids unique ts c)"
  proof (unfold distinct_conv_nth length_generate_ids, intro allI impI notI)
    fix j k assume jk: "j < length ts" "k < length ts" "j \<noteq> k"
      and eq: "generate_ids unique ts c ! j = generate_ids unique ts c ! k"
    from eq have "(c + 1 + int j) mod 2 ^ 24 = (c + 1 + int k) mod 2 ^ 24"
      unfolding generate_ids_nth [OF jk(1)] generate_ids_nth [OF jk(2)] by (rule object_id_inj)
    then have "int j mod 2 ^ 24 = int k mod 2 ^ 24" by (metis add_diff_cancel_left' mod_diff_left_eq)
    then show False using jk assms(2) by simp
  qed
  show "\<forall>i \<in> set (generate_ids unique ts c). length i = OBJECT_ID_LENGTH \<and> list_all is_lower_hex i"
  proof
    fix i assume "i \<in> set (generate_ids unique ts c)"
    then obtain k where "k < length ts" "i = object_id_of unique (ts ! k) (c + 1 + int k)"
      using generate_ids_nth by (metis in_set_conv_nth length_generate_ids)
    then show "length i = OBJECT_ID_LENGTH \<and> list_all is_lower_hex i"
      using assms(1) bytesToHex_hex by (simp add: length_bytesToHex OBJECT_ID_LENGTH_def list_all_iff)
  qed
  assume order: "sorted ts \<and> (\<forall>t \<in> set ts. 0 \<le> t \<and> t < 2 ^ 32) \<and> 0 \<le> c \<and> c + int (length ts) < 2 ^ 24"
  show "sorted_wrt (<) (generate_ids unique ts c)"
  proof (unfold sorted_wrt_iff_nth_less length_generate_ids, intro allI impI)
    fix j k assume jk: "j < k" "k < length ts"
    have small: "(c + 1 + int n) mod 2 ^ 24 = c + 1 + int n" if "n < length ts" for n
      using order that by (intro mod_pos_pos_trivial) linarith+
    have "ts ! j \<le> ts ! k" using order jk by (simp add: sorted_iff_nth_mono)
    moreover have "0 \<le> ts ! j" "ts ! k < 2 ^ 32" using order jk by (auto simp: nth_mem)
    moreover have "(c + 1 + int j) mod 2 ^ 24 < (c + 1 + int k) mod 2 ^ 24"
      using jk small [of j] small [of k] by simp
    ultimately have "object_id_of unique (ts ! j) (c + 1 + int j) < object_id_of unique (ts ! k) (c + 1 + int k)"
      by (intro object_id_less) auto
    then show "generate_ids unique ts c ! j < generate_ids unique ts c ! k"
      using jk generate_ids_nth [of j ts unique c] generate_ids_nth [of k ts unique c] by simp
  qed
qed

theorem object_ids_fresh_and_ordered_witness:
  "sorted_wrt (<) (generate_ids [1, 2, 3, 4, 5] [1700000000, 1700000000, 1700000001] 41) \<and>
   distinct (generate_ids [1, 2, 3, 4, 5] [1700000000, 3, 3] (2 ^ 24 - 2))"
  using object_ids_fresh_and_ordered [of "[1, 2, 3, 4, 5]" "[1700000000, 1700000000, 1700000001]" 41]
    object_ids_fresh_and_ordered [of "[1, 2, 3, 4, 5]" "[1700000000, 3, 3]" "2 ^ 24 - 2"]
  by simp

text \<open>
  Within one second the order breaks when the counter, which starts at a random value, wraps: the
  later of two ids generated in the same second is the smaller one.
\<close>

theorem object_id_order_breaks_on_wrap:
  "\<exists>i j. generate_ids unique [t, t] (2 ^ 24 - 2) = [i, j] \<and> j < i"
proof -
  have "object_id_of unique t (2 ^ 24) < object_id_of unique t (2 ^ 24 - 1)"
    by (rule bytesToHex_less) (auto intro!: append_less_tail simp: numeral_3_eq_3)
  then show ?thesis by (simp add: generateObjectId_def)
qed

section \<open>The retry loop returns\<close>

text \<open>The id of the \<open>k\<close>-th round, folded.\<close>

definition folded_candidate :: "bytes \<Rightarrow> (nat \<Rightarrow> int) \<Rightarrow> string \<Rightarrow> string \<Rightarrow> int \<Rightarrow> nat \<Rightarrow> string" where
  "folded_candidate unique clock d u c k =
     map lower_char (d @ ''_a'' @ ''_'' @ u @ ''_'') @ object_id_of unique (clock k) (c + 1 + int k)"

lemma folded_candidate_inj:
  "inj_on (folded_candidate unique clock d u c) {..<2 ^ 24}"
proof (rule inj_onI)
  fix j k assume jk: "j \<in> {..<2 ^ 24}" "k \<in> {..<(2 :: nat) ^ 24}"
    and "folded_candidate unique clock d u c j = folded_candidate unique clock d u c k"
  then have "object_id_of unique (clock j) (c + 1 + int j) = object_id_of unique (clock k) (c + 1 + int k)"
    by (simp add: folded_candidate_def)
  then have "(c + 1 + int j) mod 2 ^ 24 = (c + 1 + int k) mod 2 ^ 24" by (rule object_id_inj)
  then have "int j mod 2 ^ 24 = int k mod 2 ^ 24" by (metis add_diff_cancel_left' mod_diff_left_eq)
  then show "j = k" using jk by simp
qed

lemma fresh_candidate:
  assumes "length used < 2 ^ 24"
  shows "\<exists>k < 2 ^ 24. folded_candidate unique clock d u c k \<notin> set used"
proof (rule ccontr)
  assume "\<not> ?thesis"
  then have "folded_candidate unique clock d u c ` {..<2 ^ 24} \<subseteq> set used" by auto
  then have "card {..<(2 :: nat) ^ 24} \<le> card (set used)"
    by (rule card_inj_on_le [OF folded_candidate_inj]) simp
  then show False using assms card_length [of used] by simp
qed

lemma unique_chunk_round:
  "unique_chunk_loop unique clock d u used k (c + int k) =
     (if folded_candidate unique clock d u c k \<notin> set used then
        Some (d @ ''_a_'' @ u @ ''_'' @ object_id_of unique (clock k) (c + 1 + int k),
          set_add (folded_candidate unique clock d u c k) used, (c + 1 + int k) mod 2 ^ 24)
      else unique_chunk_loop unique clock d u used (Suc k) ((c + 1 + int k) mod 2 ^ 24))"
  by (subst unique_chunk_loop.simps)
    (simp add: generateAttachmentChunkId_def generateObjectId_def folded_candidate_def Let_def
      map_lower_hex ac_simps)

lemma unique_chunk_mod:
  "unique_chunk_loop unique clock d u used k (c mod 2 ^ 24) = unique_chunk_loop unique clock d u used k c"
  by (subst (1 2) unique_chunk_loop.simps)
    (simp add: generateAttachmentChunkId_def generateObjectId_def Let_def mod_simps)

lemma folded_candidate_eq:
  "map lower_char (d @ ''_a_'' @ u @ ''_'' @ object_id_of unique (clock k) (c + 1 + int k)) =
     folded_candidate unique clock d u c k"
  by (simp add: folded_candidate_def map_lower_hex)

lemma unique_chunk_hit:
  assumes "folded_candidate unique clock d u c j \<notin> set used"
  shows "\<exists>i used' c'. unique_chunk_loop unique clock d u used j (c + int j) = Some (i, used', c') \<and>
           map lower_char i \<notin> set used \<and> used' = set_add (map lower_char i) used"
proof -
  have "unique_chunk_loop unique clock d u used j (c + int j) =
      Some (d @ ''_a_'' @ u @ ''_'' @ object_id_of unique (clock j) (c + 1 + int j),
        set_add (folded_candidate unique clock d u c j) used, (c + 1 + int j) mod 2 ^ 24)"
    unfolding unique_chunk_round using assms by (rule if_P)
  then show ?thesis
    using folded_candidate_eq [of d u clock j unique c] assms by metis
qed

lemma unique_chunk_returns:
  assumes "folded_candidate unique clock d u c k \<notin> set used" and "j \<le> k"
  shows "\<exists>i used' c'. unique_chunk_loop unique clock d u used j (c + int j) = Some (i, used', c') \<and>
           map lower_char i \<notin> set used \<and> used' = set_add (map lower_char i) used"
  using assms(2)
proof (induction "k - j" arbitrary: j)
  case 0
  then have "k = j" by simp
  then show ?case using unique_chunk_hit assms(1) by simp
next
  case (Suc n)
  show ?case
  proof (cases "folded_candidate unique clock d u c j \<in> set used")
    case True
    have "unique_chunk_loop unique clock d u used j (c + int j) =
        unique_chunk_loop unique clock d u used (Suc j) ((c + 1 + int j) mod 2 ^ 24)"
      by (subst unique_chunk_round) (simp add: True)
    also have "\<dots> = unique_chunk_loop unique clock d u used (Suc j) (c + int (Suc j))"
      unfolding unique_chunk_mod by (simp add: ac_simps)
    finally show ?thesis using Suc.hyps(1) [of "Suc j"] Suc.hyps(2) by simp
  next
    case False
    then show ?thesis by (rule unique_chunk_hit)
  qed
qed

text \<open>
  The retry loop for attachment chunk ids has no bound in the code, and it always returns: with
  fewer than \<open>2^24\<close> ids in use, under any clock and from any counter, it yields an id whose folded
  form was not in use, and records it.
\<close>

theorem unique_chunk_id_returns:
  assumes "length used < 2 ^ 24"
  shows "\<exists>i used' c'. generateUniqueAttachmentChunkId unique clock d u used c = Some (i, used', c') \<and>
           map lower_char i \<notin> set used \<and> used' = set_add (map lower_char i) used"
proof -
  obtain k where "folded_candidate unique clock d u c k \<notin> set used" using fresh_candidate [OF assms] by blast
  from unique_chunk_returns [OF this, of 0] show ?thesis by (simp add: generateUniqueAttachmentChunkId_def)
qed

theorem unique_chunk_id_returns_witness:
  "\<exists>i used' c'. generateUniqueAttachmentChunkId [1, 2, 3, 4, 5] (\<lambda>_. 7) ''Doc'' ''u'' [''x'', ''y''] 0 = Some (i, used', c')"
  using unique_chunk_id_returns [of "[''x'', ''y'']" "[1, 2, 3, 4, 5]" "\<lambda>_. 7" "''Doc''" "''u''" 0] by auto

section \<open>Composing and taking apart\<close>

lemma match_at_marks:
  assumes "match_at marker mid i n = Some r"
  shows "take (length marker) (drop n i) = marker"
    and "CHR ''_'' \<in> set (dropWhile mid (drop (length marker) (drop n i)))"
  using assms hd_in_set [of "dropWhile mid (drop (length marker) (drop n i))"]
  by (simp_all add: match_at_def Let_def del: hd_in_set split: if_splits)

lemma match_at_counts:
  assumes "match_at marker mid i n = Some r"
  shows "count_list marker CHR ''_'' < count_list (drop n i) CHR ''_''"
proof -
  let ?t = "drop (length marker) (drop n i)"
  have "drop n i = marker @ takeWhile mid ?t @ dropWhile mid ?t"
    using match_at_marks(1) [OF assms] append_take_drop_id [of "length marker" "drop n i"] by simp
  then have "count_list (drop n i) CHR ''_'' =
      count_list marker CHR ''_'' + (count_list (takeWhile mid ?t) CHR ''_'' + count_list (dropWhile mid ?t) CHR ''_'')"
    by (metis count_list_append)
  moreover have "0 < count_list (dropWhile mid ?t) CHR ''_''"
    using match_at_marks(2) [OF assms] by (simp add: count_list_0_iff flip: neq0_conv)
  ultimately show ?thesis by simp
qed

lemma match_from_first:
  assumes "n \<le> m" and "match_at marker mid i n = Some r" and "\<And>k. n < k \<Longrightarrow> k \<le> m \<Longrightarrow> match_at marker mid i k = None"
  shows "match_from marker mid i m = Some r"
  using assms
proof (induction m)
  case (Suc m)
  then show ?case by (cases "n = Suc m") auto
qed simp

text \<open>An id with the marker after the first group and no further underscores splits there.\<close>

lemma match_composed:
  assumes "dots g1" and "dots g3" and "g2 \<noteq> []" and "list_all mid g2" and "\<not> mid CHR ''_''"
    and "marker = [CHR ''_'', x, CHR ''_'']" and "CHR ''_'' \<notin> set g2 \<union> set g3"
  shows "match_from marker mid (g1 @ marker @ g2 @ ''_'' @ g3) (length (g1 @ marker @ g2 @ ''_'' @ g3)) =
    Some (g1, g2, g3)"
proof (rule match_from_first [of "length g1"])
  let ?i = "g1 @ marker @ g2 @ ''_'' @ g3"
  have "takeWhile mid (g2 @ ''_'' @ g3) = g2" "dropWhile mid (g2 @ ''_'' @ g3) = ''_'' @ g3"
    using assms(4,5) by (simp_all add: takeWhile_append dropWhile_append list_all_iff)
  then show "match_at marker mid ?i (length g1) = Some (g1, g2, g3)"
    using assms(1-3,5) by (simp add: match_at_def Let_def)
  show "match_at marker mid ?i k = None" if k: "length g1 < k" for k
  proof (rule ccontr)
    assume "match_at marker mid ?i k \<noteq> None"
    then obtain r where r: "match_at marker mid ?i k = Some r" by blast
    obtain m where m: "k = Suc (length g1 + m)" using less_imp_Suc_add [OF k] by blast
    have "count_list marker CHR ''_'' \<ge> 2" by (simp add: assms(6))
    moreover have "count_list (drop m ([x, CHR ''_''] @ g2 @ ''_'' @ g3)) CHR ''_'' \<le>
        count_list ([x, CHR ''_''] @ g2 @ ''_'' @ g3) CHR ''_''"
      by (metis append_take_drop_id count_list_append le_add2)
    moreover have "drop k ?i = drop m ([x, CHR ''_''] @ g2 @ ''_'' @ g3)" by (simp add: m assms(6))
    moreover have "count_list g2 CHR ''_'' = 0" "count_list g3 CHR ''_'' = 0"
      using assms(7) by (simp_all add: count_list_0_iff)
    ultimately show False
      using match_at_counts [OF r] by (cases "x = CHR ''_''") (simp_all add: assms(6))
  qed
qed simp

lemma fingerprint_shape:
  assumes "\<And>x. length (sha256 x) = 32"
  shows "generateDepsFingerprint sha256 deps \<noteq> [] \<and> list_all is_lower_hex (generateDepsFingerprint sha256 deps)"
proof (cases "deps = []")
  case True
  then show ?thesis by (simp add: generateDepsFingerprint_def is_lower_hex_def Let_def)
next
  case False
  let ?h = "take 4 (sha256 (utf8_encode (join_comma (js_sort_strings deps))))"
  have fp: "generateDepsFingerprint sha256 deps = bytesToHex ?h"
    using False by (simp add: generateDepsFingerprint_def)
  have "length (bytesToHex ?h) = 8" by (simp add: length_bytesToHex assms)
  then have "bytesToHex ?h \<noteq> []" by auto
  then show ?thesis using bytesToHex_hex unfolding fp by (auto simp: list_all_iff)
qed

lemma no_underscore_hex: "list_all is_lower_hex s \<Longrightarrow> CHR ''_'' \<notin> set s"
  by (auto simp: list_all_iff is_lower_hex_def Let_def)

lemma dots_hex: "list_all is_lower_hex s \<Longrightarrow> s \<noteq> [] \<Longrightarrow> dots s"
  by (auto simp: dots_def no_line_end_def list_all_iff is_lower_hex_def Let_def)

text \<open>
  Entry ids come apart into what they were composed of. For any document id and any Automerge
  hash without underscores, both free of line ends, parsing the generated entry id gives back the
  document id, the fingerprint of the dependencies and the hash, even when the document id itself
  contains underscores or the marker. The same holds for generated attachment chunk ids.
\<close>

theorem entry_id_roundtrip:
  assumes "\<And>x. length (sha256 x) = 32" and "dots d" and "dots h" and "CHR ''_'' \<notin> set h"
    and "length unique = 5" and "u \<noteq> []" and "CHR ''_'' \<notin> set u"
  shows "parseDocEntryId (generateDocEntryId sha256 d h deps) = Some (d, generateDepsFingerprint sha256 deps, h) \<and>
         extractDocIdFromEntryId (generateDocEntryId sha256 d h deps) = Some d \<and>
         parseAttachmentChunkId (fst (generateAttachmentChunkId unique t d u None c)) =
           Some (d, u, fst (generateObjectId unique t c))"
proof (intro conjI)
  note fp = fingerprint_shape [of sha256 deps, OF assms(1)]
  show parse: "parseDocEntryId (generateDocEntryId sha256 d h deps) = Some (d, generateDepsFingerprint sha256 deps, h)"
    unfolding parseDocEntryId_def generateDocEntryId_def
    by (rule match_composed [where x = "CHR ''d''"])
      (use assms fp no_underscore_hex in \<open>auto simp: is_lower_hex_def Let_def\<close>)
  have "sublist ''_d_'' (generateDocEntryId sha256 d h deps)"
    unfolding generateDocEntryId_def sublist_def by blast
  then show "extractDocIdFromEntryId (generateDocEntryId sha256 d h deps) = Some d"
    using parse assms(2) by (simp add: extractDocIdFromEntryId_def isDocEntryId_def dots_def)
  define oid where "oid = fst (generateObjectId unique t c)"
  have hex: "list_all is_lower_hex oid" and "length oid = 24"
    using bytesToHex_hex assms(5)
    by (auto simp: oid_def generateObjectId_def Let_def list_all_iff length_bytesToHex)
  then have "dots oid" using dots_hex by force
  have "fst (generateAttachmentChunkId unique t d u None c) = d @ ''_a_'' @ u @ ''_'' @ oid"
    by (simp add: generateAttachmentChunkId_def oid_def split: prod.split)
  moreover have "parseAttachmentChunkId (d @ ''_a_'' @ u @ ''_'' @ oid) = Some (d, u, oid)"
    unfolding parseAttachmentChunkId_def
    by (rule match_composed [where x = "CHR ''a''"])
      (use assms \<open>dots oid\<close> no_underscore_hex [OF hex] in \<open>auto simp: list_all_iff\<close>)
  ultimately show "parseAttachmentChunkId (fst (generateAttachmentChunkId unique t d u None c)) =
      Some (d, u, fst (generateObjectId unique t c))"
    by (simp add: oid_def)
qed

theorem entry_id_roundtrip_witness:
  "parseDocEntryId (generateDocEntryId (\<lambda>_. replicate 32 171) ''cls_d_7'' ''00ff'' [''x'']) =
     Some (''cls_d_7'', ''abababab'', ''00ff'')"
proof -
  have "byte_hex 171 = ''ab''" by code_simp
  moreover have "take 4 (replicate 32 171) = [171, 171, 171, 171 :: 8 word]" by (simp add: eval_nat_numeral)
  ultimately have "generateDepsFingerprint (\<lambda>_. replicate 32 171) [''x''] = ''abababab''"
    by (simp add: generateDepsFingerprint_def bytesToHex_def)
  then show ?thesis
    using entry_id_roundtrip [of "\<lambda>_. replicate 32 171" "''cls_d_7''" "''00ff''" "[1, 2, 3, 4, 5]" "''u''" "[''x'']" 0 0]
    by (simp add: dots_def no_line_end_def)
qed

text \<open>
  \<^verbatim>\<open>extractDocIdFromEntryId\<close> looks for the document marker first. When the document id
  of an attachment contains the marker, the id is taken apart as a document entry and the wrong
  document id comes back.
\<close>

theorem attachment_doc_id_misread:
  assumes "length unique = 5"
  shows "extractDocIdFromEntryId (fst (generateAttachmentChunkId unique t ''a_d_b'' ''u'' None c)) = Some ''a''"
proof -
  define oid where "oid = fst (generateObjectId unique t c)"
  have hex: "list_all is_lower_hex oid"
    using bytesToHex_hex by (auto simp: oid_def generateObjectId_def Let_def list_all_iff)
  have i: "fst (generateAttachmentChunkId unique t ''a_d_b'' ''u'' None c) = ''a_d_b_a_u_'' @ oid"
    by (simp add: generateAttachmentChunkId_def oid_def split: prod.split)
  let ?i = "''a_d_b_a_u_'' @ oid"
  have "oid \<noteq> []" using assms by (auto simp: oid_def generateObjectId_def Let_def bytesToHex_def byte_hex_def)
  then have "dots oid" using dots_hex [OF hex] by simp
  then have first: "match_at ''_d_'' is_lower_hex ?i 1 = Some (''a'', ''b'', ''a_u_'' @ oid)"
    by (simp add: match_at_def is_lower_hex_def dots_def no_line_end_def Let_def)
  have later: "match_at ''_d_'' is_lower_hex ?i k = None" if k: "1 < k" for k
  proof (rule ccontr)
    assume "match_at ''_d_'' is_lower_hex ?i k \<noteq> None"
    then obtain r where r: "match_at ''_d_'' is_lower_hex ?i k = Some r" by blast
    show False
    proof (cases "k < 8")
      case True
      then have "k \<in> {2, 3, 4, 5, 6, 7}" using k by auto
      then show False using match_at_marks(1) [OF r] by auto
    next
      case False
      then obtain m where m: "k = m + 8" by (metis le_add_diff_inverse2 not_le)
      have "count_list (drop m (''u_'' @ oid)) CHR ''_'' \<le> count_list (''u_'' @ oid) CHR ''_''"
        by (metis append_take_drop_id count_list_append le_add2)
      moreover have "count_list oid CHR ''_'' = 0" using no_underscore_hex [OF hex] by (simp add: count_list_0_iff)
      moreover have "drop k ?i = drop m (''u_'' @ oid)" by (simp add: m drop_drop [symmetric] del: drop_drop)
      ultimately show False using match_at_counts [OF r] by simp
    qed
  qed
  have "parseDocEntryId ?i = Some (''a'', ''b'', ''a_u_'' @ oid)"
    unfolding parseDocEntryId_def by (rule match_from_first [OF _ first]) (use later in auto)
  moreover have "sublist ''_d_'' ?i" by (simp add: sublist_code)
  ultimately show ?thesis unfolding i by (simp add: extractDocIdFromEntryId_def isDocEntryId_def)
qed

end
