(* ===== verification/DagAnalysis.thy ===== *)
theory DagAnalysis
  imports DagLifecycle IdGeneration
begin

text \<open>
  The explorer's view of a document's graph and the plans that rebuild a document at given heads
  (\<^verbatim>\<open>core/DocumentDagAnalysis.ts\<close>, third part): child ids, the lanes that keep forked and
  merged strands apart, the choice of a snapshot for a branch, branch summaries, the analysis of a
  document, and the materialization plan for a branch or for several concurrent heads.
\<close>

section \<open>Child ids\<close>

definition add_child ::
  "(string, store_entry_metadata) jsmap \<Rightarrow> string \<Rightarrow> (string, string list) jsmap \<Rightarrow> string \<Rightarrow>
   (string, string list) jsmap" where
  "add_child replayById entryId childIds dependencyId =
     (if \<not> map_has replayById dependencyId then childIds
      else case map_of childIds dependencyId of
        None \<Rightarrow> childIds
      | Some children \<Rightarrow> AList.update dependencyId (children @ [entryId]) childIds)"

definition buildReplayChildIds ::
  "(string \<Rightarrow> string \<Rightarrow> int) \<Rightarrow> store_entry_metadata list \<Rightarrow> (string, store_entry_metadata) jsmap \<Rightarrow>
   (string, string list) jsmap" where
  "buildReplayChildIds lc replayEntries replayById =
     (let empty = foldl (\<lambda>m e. AList.update (entry_id e) [] m) [] replayEntries;
          filled = foldl (\<lambda>m e. foldl (add_child replayById (entry_id e)) m (dependencyIds e)) empty replayEntries
      in map (\<lambda>(i, children). (i, js_sort (compareEntryIdsByMetadata lc replayById) children)) filled)"

section \<open>Lanes\<close>

record lane_state =
  nextLaneIndex :: nat
  lane_ids :: "string list"
  primaryLane :: "(string, string) jsmap"
  laneMembership :: "(string, string jsset) jsmap"
  merge_ids :: "string jsset"
  fork_ids :: "string jsset"

text \<open>A number in a template string.\<close>

fun decimal :: "nat \<Rightarrow> string" where
  "decimal n = (if n < 10 then [char_of (48 + n)] else decimal (n div 10) @ [char_of (48 + n mod 10)])"

declare decimal.simps [simp del]

definition lane_name :: "nat \<Rightarrow> string" where
  "lane_name n = ''lane-'' @ decimal n"

definition createLaneId :: "lane_state \<Rightarrow> string \<times> lane_state" where
  "createLaneId st =
     (let laneId = lane_name (nextLaneIndex st)
      in (laneId, st \<lparr> nextLaneIndex := Suc (nextLaneIndex st), lane_ids := lane_ids st @ [laneId] \<rparr>))"

definition ensureLaneMembership :: "string \<Rightarrow> string \<Rightarrow> lane_state \<Rightarrow> lane_state" where
  "ensureLaneMembership entryId laneId st =
     (let membership = (case map_of (laneMembership st) entryId of None \<Rightarrow> [] | Some ls \<Rightarrow> ls)
      in st \<lparr> laneMembership := AList.update entryId (set_add laneId membership) (laneMembership st),
              primaryLane := (if map_has (primaryLane st) entryId then primaryLane st
                              else AList.update entryId laneId (primaryLane st)) \<rparr>)"

definition lane_head :: "lane_state \<Rightarrow> string \<Rightarrow> lane_state" where
  "lane_head st headEntryId =
     (let (laneId, st) = createLaneId st in ensureLaneMembership headEntryId laneId st)"

text \<open>The dependencies of an entry with their index.\<close>

definition lane_dependency :: "string \<Rightarrow> string \<Rightarrow> lane_state \<Rightarrow> nat \<times> string \<Rightarrow> lane_state" where
  "lane_dependency entryId primaryLaneId st dep =
     (let (index, dependencyId) = dep;
          (laneId, st) =
            (if index = 0 then (primaryLaneId, st)
             else case map_of (primaryLane st) dependencyId of
               Some laneId \<Rightarrow> (laneId, st)
             | None \<Rightarrow> createLaneId st);
          st = ensureLaneMembership dependencyId laneId st
      in if index > 0 then ensureLaneMembership entryId laneId st else st)"

text \<open>\<^verbatim>\<open>primaryGraphLaneIdByEntryId.get(entry.id)!\<close>: the entry has just been given a lane.\<close>

definition primary_of :: "lane_state \<Rightarrow> string \<Rightarrow> string" where
  "primary_of st i = (case map_of (primaryLane st) i of Some l \<Rightarrow> l | None \<Rightarrow> [])"

definition lane_deps ::
  "(string \<Rightarrow> string \<Rightarrow> int) \<Rightarrow> (string, store_entry_metadata) jsmap \<Rightarrow> store_entry_metadata \<Rightarrow> string list" where
  "lane_deps lc replayById entry =
     js_sort (compareEntryIdsByMetadata lc replayById) (filter (map_has replayById) (dependencyIds entry))"

definition lane_entry ::
  "(string \<Rightarrow> string \<Rightarrow> int) \<Rightarrow> (string, store_entry_metadata) jsmap \<Rightarrow> (string, string list) jsmap \<Rightarrow>
   lane_state \<Rightarrow> store_entry_metadata \<Rightarrow> lane_state" where
  "lane_entry lc replayById childIds st entry =
     (let st = (if map_has (primaryLane st) (entry_id entry) then st else lane_head st (entry_id entry));
          dependencyEntryIds = lane_deps lc replayById entry;
          st = (if length dependencyEntryIds > 1
                then st \<lparr> merge_ids := set_add (entry_id entry) (merge_ids st) \<rparr> else st);
          st = (if length (get_or_nil childIds (entry_id entry)) > 1
                then st \<lparr> fork_ids := set_add (entry_id entry) (fork_ids st) \<rparr> else st)
      in foldl (lane_dependency (entry_id entry) (primary_of st (entry_id entry))) st
           (List.enumerate 0 dependencyEntryIds))"

definition indexOf :: "string list \<Rightarrow> string \<Rightarrow> int" where
  "indexOf xs x = (if x \<in> set xs then int (length (takeWhile (\<lambda>y. y \<noteq> x) xs)) else -1)"

record historical_lane_plan =
  plan_graphLaneIds :: "string list"
  plan_childEntryIds :: "(string, string list) jsmap"
  plan_primaryLane :: "(string, string) jsmap"
  plan_laneIds :: "(string, string list) jsmap"
  plan_mergeEntryIds :: "string jsset"
  plan_forkEntryIds :: "string jsset"

definition lane_run ::
  "(string \<Rightarrow> string \<Rightarrow> int) \<Rightarrow> store_entry_metadata list \<Rightarrow> (string, store_entry_metadata) jsmap \<Rightarrow>
   string list \<Rightarrow> lane_state" where
  "lane_run lc replayEntries replayById activeHeadEntryIds =
     (let childIds = buildReplayChildIds lc replayEntries replayById;
          st = foldl lane_head
                 \<lparr> nextLaneIndex = 0, lane_ids = [], primaryLane = [], laneMembership = [],
                   merge_ids = [], fork_ids = [] \<rparr>
                 (js_sort (compareEntryIdsByMetadata lc replayById) activeHeadEntryIds)
      in foldl (lane_entry lc replayById childIds) st
           (js_sort (\<lambda>left right. compareByCreatedAtThenId lc right left) replayEntries))"

definition buildHistoricalLanePlan ::
  "(string \<Rightarrow> string \<Rightarrow> int) \<Rightarrow> store_entry_metadata list \<Rightarrow> (string, store_entry_metadata) jsmap \<Rightarrow>
   string list \<Rightarrow> historical_lane_plan" where
  "buildHistoricalLanePlan lc replayEntries replayById activeHeadEntryIds =
     (let st = lane_run lc replayEntries replayById activeHeadEntryIds
      in \<lparr> plan_graphLaneIds = lane_ids st,
           plan_childEntryIds = buildReplayChildIds lc replayEntries replayById,
           plan_primaryLane = primaryLane st,
           plan_laneIds = map (\<lambda>(i, memberships).
             (i, js_sort (\<lambda>a b. indexOf (lane_ids st) a - indexOf (lane_ids st) b) memberships)) (laneMembership st),
           plan_mergeEntryIds = merge_ids st,
           plan_forkEntryIds = fork_ids st \<rparr>)"

section \<open>Snapshots of a branch\<close>

function snapshot_walk ::
  "(string, store_entry_metadata) jsmap \<Rightarrow> string jsset \<Rightarrow> string list \<Rightarrow> string jsset \<Rightarrow> string jsset" where
  "snapshot_walk replayById branchAncestors [] covered = covered"
| "snapshot_walk replayById branchAncestors (currentId # stack) covered =
     (if currentId \<in> set covered \<or> currentId \<notin> set branchAncestors
      then snapshot_walk replayById branchAncestors stack covered
      else case map_of replayById currentId of
        None \<Rightarrow> snapshot_walk replayById branchAncestors stack covered
      | Some entry \<Rightarrow>
          snapshot_walk replayById branchAncestors
            (rev (filter (\<lambda>d. d \<notin> set (set_add currentId covered)) (dependencyIds entry)) @ stack)
            (set_add currentId covered))"
  by pat_completeness auto
termination
  by (relation "measures [\<lambda>(m, b, stack, v). card (set (map_keys m) - set v), \<lambda>(m, b, stack, v). length stack]")
    (auto simp: card_unvisited_known)

declare snapshot_walk.simps(2) [simp del]

definition collectSnapshotCoveredIds ::
  "store_entry_metadata \<Rightarrow> (string, store_entry_metadata) jsmap \<Rightarrow> string jsset \<Rightarrow> string jsset" where
  "collectSnapshotCoveredIds snapshot replayById branchAncestors =
     snapshot_walk replayById branchAncestors (rev (getSnapshotRoots snapshot)) []"

definition scoreSnapshotCoverage ::
  "store_entry_metadata \<Rightarrow> (string, store_entry_metadata) jsmap \<Rightarrow> string jsset \<Rightarrow> int" where
  "scoreSnapshotCoverage snapshot replayById branchAncestors =
     int (length (collectSnapshotCoveredIds snapshot replayById branchAncestors))"

definition choose_snapshot ::
  "(string, store_entry_metadata) jsmap \<Rightarrow> string jsset \<Rightarrow> store_entry_metadata option \<times> int \<Rightarrow>
   store_entry_metadata \<Rightarrow> store_entry_metadata option \<times> int" where
  "choose_snapshot replayById branchAncestors best snapshot =
     (let (bestSnapshot, bestCoveredCount) = best; roots = getSnapshotRoots snapshot
      in if length roots = 0 \<or> \<not> list_all (\<lambda>r. r \<in> set branchAncestors) roots then best
         else
           let coveredCount = scoreSnapshotCoverage snapshot replayById branchAncestors;
               best1 = (if coveredCount > bestCoveredCount \<or>
                           coveredCount = bestCoveredCount \<and>
                           (case bestSnapshot of None \<Rightarrow> False | Some b \<Rightarrow> createdAt snapshot > createdAt b)
                        then (Some snapshot, coveredCount) else (bestSnapshot, bestCoveredCount))
           in if fst best1 = None then (Some snapshot, coveredCount) else best1)"

definition chooseBestBranchSnapshot ::
  "store_entry_metadata list \<Rightarrow> (string, store_entry_metadata) jsmap \<Rightarrow> string jsset \<Rightarrow>
   store_entry_metadata option" where
  "chooseBestBranchSnapshot snapshots replayById branchAncestors =
     fst (foldl (choose_snapshot replayById branchAncestors) (None, -1) snapshots)"

text \<open>\<^verbatim>\<open>Array.from(ids).map(get).filter(defined).sort(compareByCreatedAtThenId).map(id)\<close>\<close>

definition ordered_ids ::
  "(string \<Rightarrow> string \<Rightarrow> int) \<Rightarrow> (string, store_entry_metadata) jsmap \<Rightarrow> string list \<Rightarrow> string list" where
  "ordered_ids lc replayById ids =
     map entry_id (js_sort (compareByCreatedAtThenId lc) (List.map_filter (map_of replayById) ids))"

section \<open>Plans at given heads\<close>

record heads_plan =
  hp_docId :: string
  hp_headEntryIds :: "string list"
  hp_headCreatedAt :: int
  hp_headCreatedByPublicKey :: string
  hp_snapshotEntryId :: "string option"
  hp_entryIdsToApply :: "string list"
  hp_branchEntryIds :: "string list"

record branch_plan =
  bp_docId :: string
  bp_headEntryId :: string
  bp_headCreatedAt :: int
  bp_headCreatedByPublicKey :: string
  bp_snapshotEntryId :: "string option"
  bp_entryIdsToApply :: "string list"
  bp_branchEntryIds :: "string list"

definition computeHeadsMaterializationPlan ::
  "(string \<Rightarrow> string \<Rightarrow> int) \<Rightarrow> string \<Rightarrow> store_entry_metadata list \<Rightarrow> string list \<Rightarrow> heads_plan option" where
  "computeHeadsMaterializationPlan lc d allEntriesForDoc heads =
     (let dagEntries = filter isDagEntry allEntriesForDoc;
          replayEntries = filter isReplayEntry dagEntries;
          replayById = by_id replayEntries;
          resolvedHeads = js_sort (compareByCreatedAtThenId lc) (List.map_filter (map_of replayById) (js_dedup heads))
      in if resolvedHeads = [] then None
         else
           let latestHead = last resolvedHeads;
               branchAncestors = js_dedup (concat (map (\<lambda>h. collectReplayAncestors replayById (entry_id h)) resolvedHeads));
               snapshots = filter (\<lambda>e. entryType e = doc_snapshot) dagEntries;
               bestSnapshot = chooseBestBranchSnapshot snapshots replayById branchAncestors;
               coveredIds = (case bestSnapshot of
                   Some s \<Rightarrow> collectSnapshotCoveredIds s replayById branchAncestors | None \<Rightarrow> []);
               uncoveredIds = filter (\<lambda>i. i \<notin> set coveredIds) branchAncestors
           in Some \<lparr> hp_docId = d, hp_headEntryIds = map entry_id resolvedHeads,
                     hp_headCreatedAt = createdAt latestHead,
                     hp_headCreatedByPublicKey = createdByPublicKey latestHead,
                     hp_snapshotEntryId = map_option entry_id bestSnapshot,
                     hp_entryIdsToApply = topologicalByDependencies uncoveredIds replayById,
                     hp_branchEntryIds = ordered_ids lc replayById branchAncestors \<rparr>)"

definition computeBranchMaterializationPlan ::
  "(string \<Rightarrow> string \<Rightarrow> int) \<Rightarrow> string \<Rightarrow> store_entry_metadata list \<Rightarrow> string \<Rightarrow> branch_plan option" where
  "computeBranchMaterializationPlan lc d allEntriesForDoc headEntryId =
     (case computeHeadsMaterializationPlan lc d allEntriesForDoc [headEntryId] of
        None \<Rightarrow> None
      | Some plan \<Rightarrow>
          Some \<lparr> bp_docId = hp_docId plan, bp_headEntryId = headEntryId,
                 bp_headCreatedAt = hp_headCreatedAt plan,
                 bp_headCreatedByPublicKey = hp_headCreatedByPublicKey plan,
                 bp_snapshotEntryId = hp_snapshotEntryId plan,
                 bp_entryIdsToApply = hp_entryIdsToApply plan,
                 bp_branchEntryIds = hp_branchEntryIds plan \<rparr>)"

section \<open>The analysis of a document\<close>

record branch_summary =
  bs_headEntryId :: string
  bs_headCreatedAt :: int
  bs_headCreatedByPublicKey :: string
  bs_ancestorEntryIds :: "string list"
  bs_compatibleSnapshotEntryId :: "string option"
  bs_compatibleSnapshotCreatedAt :: "int option"
  bs_isDeleted :: bool

definition buildBranchSummary ::
  "(string \<Rightarrow> string \<Rightarrow> int) \<Rightarrow> string \<Rightarrow> (string, store_entry_metadata) jsmap \<Rightarrow> store_entry_metadata list \<Rightarrow>
   branch_summary option" where
  "buildBranchSummary lc headEntryId replayById snapshots =
     (case map_of replayById headEntryId of
        None \<Rightarrow> None
      | Some headEntry \<Rightarrow>
          let branchAncestors = collectReplayAncestors replayById headEntryId;
              compatibleSnapshot = chooseBestBranchSnapshot snapshots replayById branchAncestors
          in Some \<lparr> bs_headEntryId = headEntryId, bs_headCreatedAt = createdAt headEntry,
                    bs_headCreatedByPublicKey = createdByPublicKey headEntry,
                    bs_ancestorEntryIds = ordered_ids lc replayById branchAncestors,
                    bs_compatibleSnapshotEntryId = map_option entry_id compatibleSnapshot,
                    bs_compatibleSnapshotCreatedAt = map_option createdAt compatibleSnapshot,
                    bs_isDeleted = isDeletedFromHeads lc [headEntryId] replayById \<rparr>)"

datatype live_state = state_alive | state_deleted

record dag_entry_summary =
  es_entryId :: string
  es_entryType :: store_entry_type
  es_createdAt :: int
  es_createdByPublicKey :: string
  es_automergeActorId :: "string option"
  es_dependencyIds :: "string list"
  es_childEntryIds :: "string list"
  es_snapshotHeadEntryIds :: "string list"
  es_snapshotHeadHashes :: "string list"
  es_automergeHash :: "string option"
  es_isActiveHead :: bool
  es_isDeleted :: bool
  es_isUndelete :: bool
  es_liveStateAfter :: live_state
  es_branchHeadEntryIds :: "string list"
  es_graphLaneIds :: "string list"
  es_primaryGraphLaneId :: "string option"
  es_isMergePoint :: bool
  es_isForkPoint :: bool

text \<open>\<^verbatim>\<open>ancestorSetsByHead.get(h)?.has(i) ?? false\<close>\<close>

definition ancestor_has :: "(string, string jsset) jsmap \<Rightarrow> string \<Rightarrow> string \<Rightarrow> bool" where
  "ancestor_has ancestorSetsByHead h i =
     (case map_of ancestorSetsByHead h of None \<Rightarrow> False | Some s \<Rightarrow> i \<in> set s)"

definition summarize_entry ::
  "(string \<Rightarrow> string \<Rightarrow> int) \<Rightarrow> (string, store_entry_metadata) jsmap \<Rightarrow> string list \<Rightarrow>
   (string, string jsset) jsmap \<Rightarrow> historical_lane_plan \<Rightarrow> store_entry_metadata \<Rightarrow> dag_entry_summary" where
  "summarize_entry lc replayById activeHeadEntryIds ancestorSetsByHead lanes entry =
     (let snapshot = (entryType entry = doc_snapshot); roots = getSnapshotRoots entry;
          branchHeadEntryIds = filter (\<lambda>h.
            if snapshot then length roots > 0 \<and> list_all (ancestor_has ancestorSetsByHead h) roots
            else ancestor_has ancestorSetsByHead h (entry_id entry)) activeHeadEntryIds;
          lifecycleHeadEntryIds = (if snapshot then roots else [entry_id entry]);
          liveStateAfter = (if isDeletedFromHeads lc lifecycleHeadEntryIds replayById then state_deleted else state_alive);
          rootLanes = List.map_filter (map_of (plan_primaryLane lanes)) roots
      in \<lparr> es_entryId = entry_id entry, es_entryType = entryType entry,
           es_createdAt = createdAt entry, es_createdByPublicKey = createdByPublicKey entry,
           es_automergeActorId = None, es_dependencyIds = dependencyIds entry,
           es_childEntryIds = get_or_nil (plan_childEntryIds lanes) (entry_id entry),
           es_snapshotHeadEntryIds = (case snapshotHeadEntryIds entry of None \<Rightarrow> [] | Some x \<Rightarrow> x),
           es_snapshotHeadHashes = (case snapshotHeadHashes entry of None \<Rightarrow> [] | Some x \<Rightarrow> x),
           es_automergeHash = map_option (\<lambda>(_, _, h). h) (parseDocEntryId (entry_id entry)),
           es_isActiveHead = (entry_id entry \<in> set activeHeadEntryIds),
           es_isDeleted = (liveStateAfter = state_deleted),
           es_isUndelete = (entryType entry = doc_undelete),
           es_liveStateAfter = liveStateAfter,
           es_branchHeadEntryIds = branchHeadEntryIds,
           es_graphLaneIds = (if snapshot then rootLanes else get_or_nil (plan_laneIds lanes) (entry_id entry)),
           es_primaryGraphLaneId = (if snapshot then (case rootLanes of [] \<Rightarrow> None | l # _ \<Rightarrow> Some l)
                                    else map_of (plan_primaryLane lanes) (entry_id entry)),
           es_isMergePoint = (if snapshot then length (filter (map_has replayById) roots) > 1
                              else entry_id entry \<in> set (plan_mergeEntryIds lanes)),
           es_isForkPoint = (if snapshot then False else entry_id entry \<in> set (plan_forkEntryIds lanes)) \<rparr>)"

record dag_analysis =
  da_docId :: string
  da_timestamp :: int
  da_activeHeadEntryIds :: "string list"
  da_graphLaneIds :: "string list"
  da_entries :: "dag_entry_summary list"
  da_branches :: "branch_summary list"

definition computeDocumentDagAnalysis ::
  "(string \<Rightarrow> string \<Rightarrow> int) \<Rightarrow> string \<Rightarrow> store_entry_metadata list \<Rightarrow> int \<Rightarrow> dag_analysis" where
  "computeDocumentDagAnalysis lc d allEntriesForDoc timestamp =
     (let dagEntries = orderDagEntriesCausally lc (filter isDagEntry allEntriesForDoc);
          replayEntries = filter isReplayEntry dagEntries;
          replayById = by_id replayEntries;
          snapshots = filter (\<lambda>e. entryType e = doc_snapshot) dagEntries;
          activeHeadEntryIds = findActiveReplayHeads lc replayEntries;
          lanes = buildHistoricalLanePlan lc replayEntries replayById activeHeadEntryIds;
          ancestorSetsByHead = foldl (\<lambda>m h. AList.update h (collectReplayAncestors replayById h) m) [] activeHeadEntryIds
      in \<lparr> da_docId = d, da_timestamp = timestamp, da_activeHeadEntryIds = activeHeadEntryIds,
           da_graphLaneIds = plan_graphLaneIds lanes,
           da_entries = map (summarize_entry lc replayById activeHeadEntryIds ancestorSetsByHead lanes) dagEntries,
           da_branches = List.map_filter (\<lambda>h. buildBranchSummary lc h replayById snapshots) activeHeadEntryIds \<rparr>)"

section \<open>Plans rebuild the state at their heads\<close>

lemma getSnapshotRoots_eq: "getSnapshotRoots s = snapshot_roots s"
  by (auto simp: getSnapshotRoots_def snapshot_roots_def split: option.splits)

text \<open>When the branch is closed under dependencies and holds the roots, the walk is the planner's.\<close>

lemma snapshot_walk_eq:
  assumes "\<forall>a \<in> set B. \<forall>b. replay_edge m a b \<longrightarrow> b \<in> set B" and "\<forall>i \<in> set stack. map_has m i \<longrightarrow> i \<in> set B"
  shows "snapshot_walk m B stack v = covered_walk m stack v"
  using assms
proof (induction m B stack v rule: snapshot_walk.induct)
  case (2 m B i stack v)
  show ?case
  proof (cases "i \<in> set v \<or> i \<notin> set B")
    case True
    then have "covered_walk m (i # stack) v = covered_walk m stack v"
      using "2.prems"(2) by (cases "map_of m i") (auto simp: covered_walk.simps(2) map_has_def)
    then show ?thesis using "2.IH"(1) [OF True] "2.prems" True by (simp add: snapshot_walk.simps(2))
  next
    case False
    show ?thesis
    proof (cases "map_of m i")
      case None
      then show ?thesis
        using "2.IH"(2) [OF False None] "2.prems" False
        by (simp add: snapshot_walk.simps(2) covered_walk.simps(2))
    next
      case (Some e)
      have "j \<in> set B" if "j \<in> set (dependencyIds e)" "map_has m j" for j
        using "2.prems"(1) False Some that by (auto simp: replay_edge_def)
      then have "\<forall>j \<in> set (rev (filter (\<lambda>d. d \<notin> set (set_add i v)) (dependencyIds e)) @ stack).
          map_has m j \<longrightarrow> j \<in> set B" using "2.prems"(2) by auto
      then show ?thesis
        using "2.IH"(3) [OF False Some "2.prems"(1)] False Some
        by (simp add: snapshot_walk.simps(2) covered_walk.simps(2))
    qed
  qed
qed simp

lemma snapshot_covered_eq:
  assumes "\<forall>a \<in> set B. \<forall>b. replay_edge m a b \<longrightarrow> b \<in> set B" and "set (getSnapshotRoots s) \<subseteq> set B"
  shows "set (collectSnapshotCoveredIds s m B) = covers s m" and "distinct (collectSnapshotCoveredIds s m B)"
proof -
  have "collectSnapshotCoveredIds s m B = coveredBySnapshot (Some s) m"
    using assms snapshot_walk_eq [of B m "rev (getSnapshotRoots s)" "[]"]
    by (auto simp: collectSnapshotCoveredIds_def coveredBySnapshot_def getSnapshotRoots_eq)
  then show "set (collectSnapshotCoveredIds s m B) = covers s m" "distinct (collectSnapshotCoveredIds s m B)"
    by (simp_all add: coveredBySnapshot_eq)
qed

text \<open>A snapshot is eligible for a branch when it has roots and all of them lie in the branch.\<close>

definition eligible :: "string set \<Rightarrow> store_entry_metadata \<Rightarrow> bool" where
  "eligible A s \<longleftrightarrow> getSnapshotRoots s \<noteq> [] \<and> set (getSnapshotRoots s) \<subseteq> A"

lemma choose_snapshot_best:
  assumes "\<forall>a \<in> set B. \<forall>b. replay_edge m a b \<longrightarrow> b \<in> set B"
    and "foldl (choose_snapshot m B) (None, -1) snaps = (b, n)"
  shows "(b = None \<longrightarrow> n = -1 \<and> (\<forall>s \<in> set snaps. \<not> eligible (set B) s)) \<and>
         (\<forall>s. b = Some s \<longrightarrow> s \<in> set snaps \<and> eligible (set B) s \<and> n = int (card (covers s m)) \<and>
            (\<forall>s' \<in> set snaps. eligible (set B) s' \<longrightarrow> int (card (covers s' m)) \<le> n))"
  using assms(2)
proof (induction snaps arbitrary: b n rule: rev_induct)
  case (snoc s snaps)
  obtain b0 n0 where f: "foldl (choose_snapshot m B) (None, -1) snaps = (b0, n0)" by fastforce
  with snoc.prems have step: "choose_snapshot m B (b0, n0) s = (b, n)" by simp
  note IH = snoc.IH [OF f]
  show ?case
  proof (cases "eligible (set B) s")
    case False
    then have "b = b0" "n = n0"
      using step by (auto simp: choose_snapshot_def Let_def eligible_def list_all_iff split: if_splits)
    then show ?thesis using IH False by auto
  next
    case True
    then have "scoreSnapshotCoverage s m B = int (card (covers s m))"
      using snapshot_covered_eq [OF assms(1), of s] distinct_card [of "collectSnapshotCoveredIds s m B"]
      by (simp add: scoreSnapshotCoverage_def eligible_def)
    then show ?thesis
      using step True IH by (cases b0) (auto simp: choose_snapshot_def eligible_def list_all_iff Let_def split: if_splits)
  qed
qed simp

text \<open>The causal past of a set of heads, the heads included.\<close>

definition causal_past :: "store_entry_metadata list \<Rightarrow> string set \<Rightarrow> string set" where
  "causal_past es heads =
     {i. \<exists>h \<in> heads \<inter> replay_ids es. (replay_edge (replay_map es))\<^sup>*\<^sup>* h i}"

lemma filter_dag_entries [simp]:
  "filter isReplayEntry (filter isDagEntry es) = filter isReplayEntry es"
  "filter (\<lambda>e. entryType e = doc_snapshot) (filter isDagEntry es) = filter (\<lambda>e. entryType e = doc_snapshot) es"
  by (auto simp: filter_filter isDagEntry_def DAG_ENTRY_TYPES_def isReplayEntry_def DOC_REPLAY_TYPES_def
      intro!: filter_cong)

lemma resolved_heads:
  assumes "distinct (ids_of es)"
  shows "entry_id ` set (List.map_filter (map_of (replay_map es)) (js_dedup heads)) = set heads \<inter> replay_ids es"
proof -
  have "distinct (ids_of (filter isReplayEntry es))" using assms by (rule distinct_map_filter)
  note m = by_id_Some [OF this]
  show ?thesis
    unfolding set_eq_iff image_iff Bex_def set_map_filter_iff m replay_ids_def by auto
qed

lemma causal_past_closed: "a \<in> causal_past es H \<Longrightarrow> replay_edge (replay_map es) a b \<Longrightarrow> b \<in> causal_past es H"
  by (auto simp: causal_past_def intro: rtranclp.rtrancl_into_rtrancl)

lemma causal_past_keys: "causal_past es H \<subseteq> set (map_keys (replay_map es))"
proof
  fix i assume "i \<in> causal_past es H"
  then obtain h where h: "h \<in> replay_ids es" "(replay_edge (replay_map es))\<^sup>*\<^sup>* h i" by (auto simp: causal_past_def)
  then have "map_has (replay_map es) h" by (simp add: by_id_has replay_ids_def)
  with h(2) show "i \<in> set (map_keys (replay_map es))" using replay_reach_has by (simp only: flip: map_has_iff)
qed

text \<open>
  What a plan for a set of heads promises: the branch is the causal past of the heads, a chosen
  snapshot lies inside it and covers at least as much as any other that does, the entries to apply
  are exactly the uncovered rest, each once, and every dependency comes first.
\<close>

definition heads_plan_ok :: "store_entry_metadata list \<Rightarrow> string set \<Rightarrow> heads_plan \<Rightarrow> bool" where
  "heads_plan_ok es heads plan \<longleftrightarrow>
     (let past = causal_past es heads; m = replay_map es; todo = hp_entryIdsToApply plan
      in set (hp_headEntryIds plan) = heads \<inter> replay_ids es \<and>
         set (hp_branchEntryIds plan) = past \<and>
         (\<exists>covered \<subseteq> past.
            (hp_snapshotEntryId plan = None \<and> covered = {} \<and> (\<forall>s \<in> snapshots_of es. \<not> eligible past s) \<or>
             (\<exists>s \<in> snapshots_of es. eligible past s \<and> hp_snapshotEntryId plan = Some (entry_id s) \<and>
                covered = covers s m \<and>
                (\<forall>s' \<in> snapshots_of es. eligible past s' \<longrightarrow> card (covers s' m) \<le> card covered))) \<and>
            distinct todo \<and> set todo = past - covered \<and>
            (\<forall>k < length todo. \<forall>dep. replay_edge m (todo ! k) dep \<longrightarrow>
               dep \<in> covered \<or> dep \<in> set (take k todo))))"

lemma eligible_covers:
  assumes "eligible (causal_past es H) s"
  shows "covers s (replay_map es) \<subseteq> causal_past es H"
proof
  fix i assume "i \<in> covers s (replay_map es)"
  then obtain r where r: "r \<in> set (getSnapshotRoots s)" "(replay_edge (replay_map es))\<^sup>*\<^sup>* r i"
    by (auto simp: covers_def getSnapshotRoots_eq)
  from r(2) show "i \<in> causal_past es H"
  proof (induction rule: rtranclp_induct)
    case base
    then show ?case using assms r(1) by (auto simp: eligible_def)
  qed (rule causal_past_closed)
qed

lemma set_ordered_ids:
  assumes "keyed m" and "set ids \<subseteq> set (map_keys m)"
  shows "set (ordered_ids lc m ids) = set ids"
proof -
  have "entry_id e = i" if "map_of m i = Some e" for i e using assms(1) that by (simp add: keyed_def)
  moreover have "\<exists>e. map_of m i = Some e" if "i \<in> set ids" for i
    using assms(2) that by (metis map_has_def map_has_iff not_None_eq subsetD)
  ultimately show ?thesis
    by (simp add: ordered_ids_def set_eq_iff image_iff Bex_def set_map_filter_iff) metis
qed

lemma branch_ancestors:
  assumes "distinct (ids_of es)"
  shows "set (js_dedup (concat (map (\<lambda>h. collectReplayAncestors (replay_map es) (entry_id h))
           (js_sort cmp (List.map_filter (map_of (replay_map es)) (js_dedup heads)))))) =
         causal_past es (set heads)" (is "set (js_dedup (concat (map _ (js_sort _ ?hs)))) = _")
proof -
  have "set (js_dedup (concat (map (\<lambda>h. collectReplayAncestors (replay_map es) (entry_id h)) (js_sort cmp ?hs)))) =
      (\<Union>i \<in> entry_id ` set ?hs. set (collectReplayAncestors (replay_map es) i))" by simp
  also have "\<dots> = (\<Union>i \<in> set heads \<inter> replay_ids es. set (collectReplayAncestors (replay_map es) i))"
    unfolding resolved_heads [OF assms] ..
  also have "\<dots> = causal_past es (set heads)"
    by (auto simp: causal_past_def set_ancestors by_id_has replay_ids_def)
  finally show ?thesis .
qed

text \<open>The snapshot chosen for a branch that is the past of some heads.\<close>

lemma branch_snapshot:
  assumes "set B = causal_past es H"
    and "b = chooseBestBranchSnapshot (filter (\<lambda>e. entryType e = doc_snapshot) es) (replay_map es) B"
    and "C = (case b of Some s \<Rightarrow> collectSnapshotCoveredIds s (replay_map es) B | None \<Rightarrow> [])"
  shows "set C \<subseteq> causal_past es H \<and>
         (b = None \<and> set C = {} \<and> (\<forall>s \<in> snapshots_of es. \<not> eligible (causal_past es H) s) \<or>
          (\<exists>s \<in> snapshots_of es. eligible (causal_past es H) s \<and> b = Some s \<and> set C = covers s (replay_map es) \<and>
             (\<forall>s' \<in> snapshots_of es. eligible (causal_past es H) s' \<longrightarrow>
                card (covers s' (replay_map es)) \<le> card (set C))))"
proof -
  let ?m = "replay_map es" and ?snaps = "filter (\<lambda>e. entryType e = doc_snapshot) es"
  have closed: "\<forall>a \<in> set B. \<forall>c. replay_edge ?m a c \<longrightarrow> c \<in> set B"
    unfolding assms(1) using causal_past_closed by blast
  obtain n where "foldl (choose_snapshot ?m B) (None, -1) ?snaps = (b, n)"
    unfolding assms(2) chooseBestBranchSnapshot_def by (metis prod.collapse)
  note best = choose_snapshot_best [OF closed this]
  have C: "set C = (case b of Some s \<Rightarrow> covers s ?m | None \<Rightarrow> {})"
    using best snapshot_covered_eq [OF closed] by (auto simp: assms(3) eligible_def split: option.splits)
  have "set C \<subseteq> causal_past es H" using C best eligible_covers assms(1) by (auto split: option.splits)
  then show ?thesis
    using best C by (cases b) (auto simp: snapshots_of_def assms(1))
qed

text \<open>
  C28. The plan for a document at given heads. There is none exactly when no head is a replay entry
  of the document. Otherwise, for an acyclic history, it replays exactly the union of the causal
  pasts of the heads, with nothing a head does not depend on: the snapshot, when one fits inside
  the past, covers as much as any that fits, and the entries to apply are the uncovered ones, each
  once and after its dependencies.
\<close>

theorem heads_plan_complete:
  assumes "distinct (ids_of es)" and "replay_acyclic (replay_map es)"
  shows "(computeHeadsMaterializationPlan lc d es heads = None \<longleftrightarrow> set heads \<inter> replay_ids es = {}) \<and>
         (\<forall>plan. computeHeadsMaterializationPlan lc d es heads = Some plan \<longrightarrow> heads_plan_ok es (set heads) plan)"
proof -
  let ?m = "replay_map es" and ?P = "causal_past es (set heads)"
  define hs where "hs = js_sort (compareByCreatedAtThenId lc) (List.map_filter (map_of ?m) (js_dedup heads))"
  define B where "B = js_dedup (concat (map (\<lambda>h. collectReplayAncestors ?m (entry_id h)) hs))"
  define b where "b = chooseBestBranchSnapshot (filter (\<lambda>e. entryType e = doc_snapshot) es) ?m B"
  define C where "C = (case b of Some s \<Rightarrow> collectSnapshotCoveredIds s ?m B | None \<Rightarrow> [])"
  define U where "U = filter (\<lambda>i. i \<notin> set C) B"
  have hs: "entry_id ` set hs = set heads \<inter> replay_ids es" using resolved_heads [OF assms(1)] by (simp add: hs_def)
  have B: "set B = ?P" "distinct B" unfolding B_def hs_def using branch_ancestors [OF assms(1)] by simp_all
  note snap = branch_snapshot [OF B(1) b_def C_def]
  have U: "set U = ?P - set C" "distinct U" using B by (auto simp: U_def)
  have keys: "set U \<subseteq> set (map_keys ?m)" using causal_past_keys [of es "set heads"] unfolding U(1) by blast
  define t where "t = topologicalByDependencies U ?m"
  have t: "distinct t" "set t = ?P - set C" using topological_sound [OF U(2), of ?m] U(1) by (simp_all add: t_def)
  have order: "dep \<in> set C \<or> dep \<in> set (take k t)" if k: "k < length t" "replay_edge ?m (t ! k) dep" for k dep
  proof -
    have "t ! k \<in> ?P" using k(1) t(2) nth_mem by blast
    then have "dep \<in> ?P" using causal_past_closed k(2) by blast
    then show ?thesis
      using topological_edges [OF U(2) keys assms(2), of k dep] k U(1) by (auto simp: t_def)
  qed
  have keyed: "keyed ?m" using assms(1) by (intro keyed_by_id distinct_map_filter)
  have "set (ordered_ids lc ?m B) = ?P"
    using set_ordered_ids [OF keyed] B(1) causal_past_keys by metis
  then have "heads_plan_ok es (set heads)
      \<lparr> hp_docId = d, hp_headEntryIds = map entry_id hs, hp_headCreatedAt = createdAt (last hs),
        hp_headCreatedByPublicKey = createdByPublicKey (last hs), hp_snapshotEntryId = map_option entry_id b,
        hp_entryIdsToApply = t, hp_branchEntryIds = ordered_ids lc ?m B \<rparr>"
    unfolding heads_plan_ok_def Let_def using hs snap t order by (simp, intro exI [of _ "set C"]) auto
  moreover have "computeHeadsMaterializationPlan lc d es heads = (if hs = [] then None else Some
      \<lparr> hp_docId = d, hp_headEntryIds = map entry_id hs, hp_headCreatedAt = createdAt (last hs),
        hp_headCreatedByPublicKey = createdByPublicKey (last hs), hp_snapshotEntryId = map_option entry_id b,
        hp_entryIdsToApply = t, hp_branchEntryIds = ordered_ids lc ?m B \<rparr>)"
    by (simp add: computeHeadsMaterializationPlan_def Let_def hs_def B_def b_def C_def U_def t_def
        del: filter_filter)
  moreover have "hs = [] \<longleftrightarrow> set heads \<inter> replay_ids es = {}" unfolding hs [symmetric] by simp
  ultimately show ?thesis by auto
qed

lemma demo_heads: "{''b''} \<inter> replay_ids demo_replay \<noteq> {}"
  unfolding replay_ids_def demo_replay_filter by (simp add: demo_replay_def)

theorem heads_plan_complete_witness:
  "\<exists>plan. computeHeadsMaterializationPlan compare_by ''d'' demo_replay [''b''] = Some plan \<and>
     heads_plan_ok demo_replay {''b''} plan"
proof -
  have dist: "distinct (ids_of demo_replay)" by (simp add: demo_replay_def)
  have acyc: "replay_acyclic (replay_map demo_replay)" by (simp add: demo_replay_filter demo_replay_acyclic)
  have one: "set [''b''] = {''b''}" by simp
  note plan = heads_plan_complete [OF dist acyc, of compare_by "''d''" "[''b'']", unfolded one]
  have "computeHeadsMaterializationPlan compare_by ''d'' demo_replay [''b''] \<noteq> None"
    using demo_heads unfolding conjunct1 [OF plan] .
  from iffD1 [OF not_None_eq this]
  obtain p where p: "computeHeadsMaterializationPlan compare_by ''d'' demo_replay [''b''] = Some p" by (rule exE)
  show ?thesis
    by (rule exI [of _ p], rule conjI [OF p], rule mp [OF spec [OF conjunct2 [OF plan]] p])
qed

section \<open>Lanes\<close>

definition decimal_value :: "string \<Rightarrow> nat" where
  "decimal_value s = foldl (\<lambda>a c. a * 10 + (of_char c - 48)) 0 s"

lemma decimal_value_snoc: "decimal_value (s @ [c]) = decimal_value s * 10 + (of_char c - 48)"
  by (simp add: decimal_value_def)

lemma decimal_value: "decimal_value (decimal n) = n"
proof (induction n rule: decimal.induct)
  case (1 n)
  show ?case
  proof (cases "n < 10")
    case True
    then show ?thesis by (subst decimal.simps) (simp add: decimal_value_def of_char_of)
  next
    case False
    have "n mod 10 < 10" by simp
    then have "(48 + n mod 10) mod 256 = 48 + n mod 10" by (intro mod_less) linarith
    then have "of_char (char_of (48 + n mod 10) :: char) = 48 + n mod 10" by (simp only: of_char_of)
    then have "decimal_value (decimal (n div 10) @ [char_of (48 + n mod 10)]) = decimal_value (decimal (n div 10)) * 10 + n mod 10"
      unfolding decimal_value_snoc by (simp only: diff_add_inverse)
    moreover have "decimal n = decimal (n div 10) @ [char_of (48 + n mod 10)]"
      using False by (subst decimal.simps) simp
    ultimately show ?thesis using 1 [OF False] by simp
  qed
qed

lemma lane_name_inj: "lane_name m = lane_name n \<longleftrightarrow> m = n"
  unfolding lane_name_def same_append_eq by (metis decimal_value)

definition in_lane :: "lane_state \<Rightarrow> string \<Rightarrow> string \<Rightarrow> bool" where
  "in_lane st i l \<longleftrightarrow> (\<exists>ls. map_of (laneMembership st) i = Some ls \<and> l \<in> set ls)"

definition lanes_ok :: "lane_state \<Rightarrow> bool" where
  "lanes_ok st \<longleftrightarrow>
     lane_ids st = map lane_name [0..<nextLaneIndex st] \<and>
     (\<forall>i l. map_of (primaryLane st) i = Some l \<longrightarrow> in_lane st i l) \<and>
     (\<forall>i l. in_lane st i l \<longrightarrow> l \<in> set (lane_ids st))"

text \<open>Lanes are only added: names, memberships and primary lanes persist.\<close>

definition lanes_grow :: "lane_state \<Rightarrow> lane_state \<Rightarrow> bool" where
  "lanes_grow st st' \<longleftrightarrow>
     set (lane_ids st) \<subseteq> set (lane_ids st') \<and> (\<forall>i l. in_lane st i l \<longrightarrow> in_lane st' i l) \<and>
     (\<forall>i l. map_of (primaryLane st) i = Some l \<longrightarrow> map_of (primaryLane st') i = Some l)"

lemma lanes_grow_refl [simp]: "lanes_grow st st"
  by (simp add: lanes_grow_def)

lemma lanes_grow_trans [trans]: "lanes_grow a b \<Longrightarrow> lanes_grow b c \<Longrightarrow> lanes_grow a c"
  unfolding lanes_grow_def by blast

lemma createLaneId_ok:
  assumes "createLaneId st = (l, st')" and "lanes_ok st"
  shows "lanes_ok st' \<and> lanes_grow st st' \<and> l \<in> set (lane_ids st') \<and> l = lane_name (nextLaneIndex st) \<and>
         nextLaneIndex st' = Suc (nextLaneIndex st) \<and> primaryLane st' = primaryLane st"
proof -
  have st': "st' = st \<lparr> nextLaneIndex := Suc (nextLaneIndex st), lane_ids := lane_ids st @ [l] \<rparr>"
    and l: "l = lane_name (nextLaneIndex st)" using assms(1) by (auto simp: createLaneId_def Let_def)
  have lanes: "in_lane st' = in_lane st" by (intro ext) (simp add: in_lane_def st')
  have "lanes_ok st'" using assms(2) unfolding lanes_ok_def lanes by (auto simp: st' l)
  then show ?thesis unfolding lanes_grow_def lanes by (auto simp: st' l)
qed

lemma in_lane_ensure: "in_lane (ensureLaneMembership i l st) j k \<longleftrightarrow> in_lane st j k \<or> j = i \<and> k = l"
  by (cases "map_of (laneMembership st) i") (auto simp: in_lane_def ensureLaneMembership_def Let_def map_of_update)

lemma primary_ensure:
  "map_of (primaryLane (ensureLaneMembership i l st)) j =
     (if j = i \<and> \<not> map_has (primaryLane st) i then Some l else map_of (primaryLane st) j)"
  by (simp add: ensureLaneMembership_def Let_def map_of_update)

lemma ensure_ids [simp]:
  "lane_ids (ensureLaneMembership i l st) = lane_ids st"
  "nextLaneIndex (ensureLaneMembership i l st) = nextLaneIndex st"
  by (simp_all add: ensureLaneMembership_def Let_def)

lemma ensure_ok:
  assumes "lanes_ok st" and "l \<in> set (lane_ids st)"
  shows "lanes_ok (ensureLaneMembership i l st)" and "lanes_grow st (ensureLaneMembership i l st)"
    and "in_lane (ensureLaneMembership i l st) i l"
    and "map_has (primaryLane (ensureLaneMembership i l st)) i"
  using assms
  by (auto simp: lanes_ok_def lanes_grow_def in_lane_ensure primary_ensure map_has_def split: if_splits)

lemma lane_head_ok:
  assumes "lanes_ok st"
  shows "lanes_ok (lane_head st i)" and "lanes_grow st (lane_head st i)"
    and "map_has (primaryLane (lane_head st i)) i"
    and "nextLaneIndex (lane_head st i) = Suc (nextLaneIndex st)"
    and "\<not> map_has (primaryLane st) i \<Longrightarrow> map_of (primaryLane (lane_head st i)) i = Some (lane_name (nextLaneIndex st))"
proof -
  obtain l st1 where c: "createLaneId st = (l, st1)" by fastforce
  note c_ok = createLaneId_ok [OF c assms]
  have h: "lane_head st i = ensureLaneMembership i l st1" by (simp add: lane_head_def c)
  have e: "lanes_ok (ensureLaneMembership i l st1)" "lanes_grow st1 (ensureLaneMembership i l st1)"
    "map_has (primaryLane (ensureLaneMembership i l st1)) i"
    using c_ok ensure_ok [of st1 l i] by auto
  show "lanes_ok (lane_head st i)" "map_has (primaryLane (lane_head st i)) i"
    "nextLaneIndex (lane_head st i) = Suc (nextLaneIndex st)" using e c_ok by (simp_all add: h)
  show "lanes_grow st (lane_head st i)" using lanes_grow_trans [OF _ e(2)] c_ok by (simp add: h)
  show "map_of (primaryLane (lane_head st i)) i = Some (lane_name (nextLaneIndex st))"
    if "\<not> map_has (primaryLane st) i"
    using that c_ok by (simp add: h primary_ensure)
qed

lemma lane_dependency_ok:
  assumes "lanes_ok st" and "in_lane st e p"
  shows "lanes_ok (lane_dependency e p st (k, d))" and "lanes_grow st (lane_dependency e p st (k, d))"
    and "map_has (primaryLane (lane_dependency e p st (k, d))) d"
    and "\<exists>l. in_lane (lane_dependency e p st (k, d)) e l \<and> in_lane (lane_dependency e p st (k, d)) d l"
proof -
  define r where "r = (if k = 0 then (p, st) else case map_of (primaryLane st) d of
      Some l \<Rightarrow> (l, st) | None \<Rightarrow> createLaneId st)"
  obtain l st1 where r: "r = (l, st1)" by fastforce
  have st1: "lanes_ok st1 \<and> lanes_grow st st1 \<and> l \<in> set (lane_ids st1) \<and> (k = 0 \<longrightarrow> l = p)"
  proof (cases "k = 0")
    case True
    then show ?thesis using r assms by (auto simp: r_def lanes_ok_def)
  next
    case False
    show ?thesis
    proof (cases "map_of (primaryLane st) d")
      case None
      then have "createLaneId st = (l, st1)" using r False by (simp add: r_def)
      from createLaneId_ok [OF this assms(1)] False show ?thesis by blast
    next
      case (Some a)
      then have "l = a" "st1 = st" using r False by (simp_all add: r_def)
      moreover have "a \<in> set (lane_ids st)" using Some assms(1) unfolding lanes_ok_def by blast
      ultimately show ?thesis using False assms(1) by simp
    qed
  qed
  let ?st2 = "ensureLaneMembership d l st1"
  have st2: "lanes_ok ?st2" "lanes_grow st ?st2" "in_lane ?st2 d l" "map_has (primaryLane ?st2) d"
    using st1 ensure_ok [of st1 l d] lanes_grow_trans by blast+
  have eq: "lane_dependency e p st (k, d) = (if k > 0 then ensureLaneMembership e l ?st2 else ?st2)"
    using r by (simp add: lane_dependency_def r_def [symmetric])
  have st3: "lanes_ok (ensureLaneMembership e l ?st2)" "lanes_grow ?st2 (ensureLaneMembership e l ?st2)"
    "in_lane (ensureLaneMembership e l ?st2) e l"
    using st1 ensure_ok [OF st2(1), of l e] by auto
  show "lanes_ok (lane_dependency e p st (k, d))" using st2(1) st3(1) by (simp add: eq)
  show "lanes_grow st (lane_dependency e p st (k, d))"
    using st2(2) lanes_grow_trans [OF st2(2) st3(2)] by (simp add: eq)
  show "map_has (primaryLane (lane_dependency e p st (k, d))) d"
    using st2(4) st3(2) by (auto simp: eq lanes_grow_def map_has_def)
  have "in_lane ?st2 e l" if "k = 0" using that st1 st2(2) assms(2) by (auto simp: lanes_grow_def)
  then show "\<exists>l. in_lane (lane_dependency e p st (k, d)) e l \<and> in_lane (lane_dependency e p st (k, d)) d l"
    using st2(3) st3(2,3) by (auto simp: eq lanes_grow_def)
qed

subsection \<open>Every edge runs inside a lane\<close>

definition share_lane :: "lane_state \<Rightarrow> string \<Rightarrow> string \<Rightarrow> bool" where
  "share_lane st a b \<longleftrightarrow> (\<exists>l. in_lane st a l \<and> in_lane st b l)"

lemma share_lane_grow: "share_lane st a b \<Longrightarrow> lanes_grow st st' \<Longrightarrow> share_lane st' a b"
  unfolding share_lane_def lanes_grow_def by blast

lemma has_primary_grow: "map_has (primaryLane st) i \<Longrightarrow> lanes_grow st st' \<Longrightarrow> map_has (primaryLane st') i"
  by (auto simp: lanes_grow_def map_has_def)

lemma lane_dependencies_ok:
  assumes "lanes_ok st" and "in_lane st e p"
  shows "lanes_ok (foldl (lane_dependency e p) st ds)" and "lanes_grow st (foldl (lane_dependency e p) st ds)"
    and "\<forall>d \<in> snd ` set ds. share_lane (foldl (lane_dependency e p) st ds) e d"
proof -
  have "lanes_ok (foldl (lane_dependency e p) st ds) \<and> lanes_grow st (foldl (lane_dependency e p) st ds) \<and>
      (\<forall>d \<in> snd ` set ds. share_lane (foldl (lane_dependency e p) st ds) e d)"
    using assms
  proof (induction ds arbitrary: st)
    case (Cons kd ds)
    obtain k d where kd: "kd = (k, d)" by fastforce
    let ?st = "lane_dependency e p st (k, d)"
    note one = lane_dependency_ok [OF Cons.prems, of k d]
    have "in_lane ?st e p" using one(2) Cons.prems(2) by (simp add: lanes_grow_def)
    note IH = Cons.IH [OF one(1) this]
    have "share_lane ?st e d" using one(4) by (simp add: share_lane_def)
    then have "share_lane (foldl (lane_dependency e p) ?st ds) e d" using IH share_lane_grow by blast
    then show ?case using IH lanes_grow_trans [OF one(2)] by (simp add: kd)
  qed simp
  then show "lanes_ok (foldl (lane_dependency e p) st ds)" "lanes_grow st (foldl (lane_dependency e p) st ds)"
    "\<forall>d \<in> snd ` set ds. share_lane (foldl (lane_dependency e p) st ds) e d" by blast+
qed

lemma lanes_marks [simp]:
  "lanes_ok (st \<lparr> merge_ids := x \<rparr>) = lanes_ok st" "lanes_ok (st \<lparr> fork_ids := x \<rparr>) = lanes_ok st"
  "in_lane (st \<lparr> merge_ids := x \<rparr>) = in_lane st" "in_lane (st \<lparr> fork_ids := x \<rparr>) = in_lane st"
  by (auto simp: lanes_ok_def in_lane_def fun_eq_iff)

lemma lane_entry_ok:
  assumes "lanes_ok st"
  shows "lanes_ok (lane_entry lc m ch st e)" and "lanes_grow st (lane_entry lc m ch st e)"
    and "map_has (primaryLane (lane_entry lc m ch st e)) (entry_id e)"
    and "\<forall>d \<in> set (dependencyIds e). map_has m d \<longrightarrow> share_lane (lane_entry lc m ch st e) (entry_id e) d"
proof -
  let ?i = "entry_id e"
  define st1 where "st1 = (if map_has (primaryLane st) ?i then st else lane_head st ?i)"
  have st1: "lanes_ok st1" "lanes_grow st st1" "map_has (primaryLane st1) ?i"
    using lane_head_ok [OF assms] assms by (simp_all add: st1_def)
  define st2 where "st2 = (if length (lane_deps lc m e) > 1 then st1 \<lparr> merge_ids := set_add ?i (merge_ids st1) \<rparr> else st1)"
  define st3 where "st3 = (if length (get_or_nil ch ?i) > 1 then st2 \<lparr> fork_ids := set_add ?i (fork_ids st2) \<rparr> else st2)"
  have same: "lanes_ok st3 = lanes_ok st1" "in_lane st3 = in_lane st1" "primaryLane st3 = primaryLane st1"
    "lane_ids st3 = lane_ids st1" by (simp_all add: st3_def st2_def)
  have st3: "lanes_ok st3" "lanes_grow st st3" using st1 same by (simp_all add: lanes_grow_def)
  obtain p where p: "map_of (primaryLane st3) ?i = Some p" using st1(3) same by (auto simp: map_has_def)
  then have "in_lane st3 ?i (primary_of st3 ?i)" using st3(1) by (simp add: primary_of_def lanes_ok_def)
  note ds = lane_dependencies_ok [OF st3(1) this, of "List.enumerate 0 (lane_deps lc m e)"]
  have eq: "lane_entry lc m ch st e =
      foldl (lane_dependency ?i (primary_of st3 ?i)) st3 (List.enumerate 0 (lane_deps lc m e))"
    unfolding lane_entry_def Let_def st3_def st2_def st1_def ..
  show "lanes_ok (lane_entry lc m ch st e)" using ds(1) by (simp add: eq)
  show "lanes_grow st (lane_entry lc m ch st e)" using lanes_grow_trans [OF st3(2) ds(2)] by (simp add: eq)
  show "map_has (primaryLane (lane_entry lc m ch st e)) ?i"
    using has_primary_grow [OF _ ds(2)] p by (simp add: eq map_has_def)
  have "snd ` set (List.enumerate 0 (lane_deps lc m e)) = set (lane_deps lc m e)"
    by (metis list.set_map map_snd_enumerate)
  then show "\<forall>d \<in> set (dependencyIds e). map_has m d \<longrightarrow> share_lane (lane_entry lc m ch st e) ?i d"
    using ds(3) by (simp add: eq lane_deps_def)
qed

lemma lane_entries_ok:
  assumes "lanes_ok st"
  shows "lanes_ok (foldl (lane_entry lc m ch) st es) \<and> lanes_grow st (foldl (lane_entry lc m ch) st es) \<and>
         (\<forall>e \<in> set es. map_has (primaryLane (foldl (lane_entry lc m ch) st es)) (entry_id e) \<and>
            (\<forall>d \<in> set (dependencyIds e). map_has m d \<longrightarrow>
               share_lane (foldl (lane_entry lc m ch) st es) (entry_id e) d))"
  using assms
proof (induction es arbitrary: st)
  case (Cons e es)
  note one = lane_entry_ok [OF Cons.prems, where lc = lc and m = m and ch = ch and e = e]
  note IH = Cons.IH [OF one(1)]
  have grow: "lanes_grow (lane_entry lc m ch st e) (foldl (lane_entry lc m ch) (lane_entry lc m ch st e) es)"
    using IH by blast
  have "map_has (primaryLane (foldl (lane_entry lc m ch) (lane_entry lc m ch st e) es)) (entry_id e)"
    by (rule has_primary_grow [OF one(3) grow])
  moreover have "\<forall>d \<in> set (dependencyIds e). map_has m d \<longrightarrow>
      share_lane (foldl (lane_entry lc m ch) (lane_entry lc m ch st e) es) (entry_id e) d"
    using one(4) share_lane_grow [OF _ grow] by blast
  ultimately show ?case using IH lanes_grow_trans [OF one(2) grow] by simp
qed simp

lemma lane_heads_ok:
  assumes "lanes_ok st" and "distinct hs" and "\<forall>h \<in> set hs. \<not> map_has (primaryLane st) h"
  shows "lanes_ok (foldl lane_head st hs) \<and> lanes_grow st (foldl lane_head st hs) \<and>
         (\<forall>k < length hs. map_of (primaryLane (foldl lane_head st hs)) (hs ! k) = Some (lane_name (nextLaneIndex st + k)))"
  using assms
proof (induction hs arbitrary: st)
  case (Cons h hs)
  note one = lane_head_ok [OF Cons.prems(1), of h]
  have other: "map_of (primaryLane (lane_head st h)) g = map_of (primaryLane st) g" if "g \<noteq> h" for g
    using that by (simp add: lane_head_def createLaneId_def Let_def primary_ensure)
  have "\<forall>g \<in> set hs. \<not> map_has (primaryLane (lane_head st h)) g"
    using Cons.prems(2,3) other unfolding map_has_def by (metis distinct.simps(2) list.set_intros(2))
  note IH = Cons.IH [OF one(1) _ this]
  have first: "map_of (primaryLane (lane_head st h)) h = Some (lane_name (nextLaneIndex st))"
    using one(5) Cons.prems(3) by simp
  have "map_of (primaryLane (foldl lane_head st (h # hs))) ((h # hs) ! k) = Some (lane_name (nextLaneIndex st + k))"
    if "k < length (h # hs)" for k
    using that IH Cons.prems(2) first one(4) by (cases k) (auto simp: lanes_grow_def)
  then show ?case using IH Cons.prems(2) lanes_grow_trans [OF one(2)] by simp
qed simp

lemma lane_state_empty:
  "lanes_ok \<lparr> nextLaneIndex = 0, lane_ids = [], primaryLane = [], laneMembership = [], merge_ids = [], fork_ids = [] \<rparr>"
  by (simp add: lanes_ok_def in_lane_def)

lemma plan_lanes_eq:
  "(\<exists>ls. map_of (plan_laneIds (buildHistoricalLanePlan lc es m hs)) i = Some ls \<and> l \<in> set ls) \<longleftrightarrow>
     in_lane (lane_run lc es m hs) i l"
  by (cases "map_of (laneMembership (lane_run lc es m hs)) i")
    (simp_all add: buildHistoricalLanePlan_def Let_def map_of_map in_lane_def)

text \<open>
  The lanes of the explorer keep the strands of a history together. Lane ids are distinct; every
  replay entry has a primary lane, which is among its lanes, and all its lanes are lanes of the
  plan; every dependency edge between entries of the history runs inside a common lane; and
  different active heads start in different lanes.
\<close>

theorem lane_plan_correct:
  assumes "distinct heads" and "m = by_id es" and "plan = buildHistoricalLanePlan lc es m heads"
    and "lanes = (\<lambda>i. {l. \<exists>ls. map_of (plan_laneIds plan) i = Some ls \<and> l \<in> set ls})"
  shows "distinct (plan_graphLaneIds plan) \<and> (\<forall>i. lanes i \<subseteq> set (plan_graphLaneIds plan)) \<and>
         (\<forall>e \<in> set es. \<exists>l \<in> lanes (entry_id e). map_of (plan_primaryLane plan) (entry_id e) = Some l) \<and>
         (\<forall>e \<in> set es. \<forall>d \<in> set (dependencyIds e). map_has m d \<longrightarrow> lanes (entry_id e) \<inter> lanes d \<noteq> {}) \<and>
         (\<forall>g \<in> set heads. \<forall>h \<in> set heads.
            map_of (plan_primaryLane plan) g = map_of (plan_primaryLane plan) h \<longrightarrow> g = h)"
proof -
  define st0 where "st0 = \<lparr> nextLaneIndex = 0, lane_ids = [], primaryLane = [], laneMembership = [],
      merge_ids = [], fork_ids = [] \<rparr>"
  define hs where "hs = js_sort (compareEntryIdsByMetadata lc m) heads"
  define st where "st = lane_run lc es m heads"
  have st0: "lanes_ok st0" "nextLaneIndex st0 = 0" "primaryLane st0 = []"
    using lane_state_empty by (simp_all add: st0_def)
  have hs: "distinct hs" "set hs = set heads" using assms(1) by (simp_all add: hs_def)
  have heads: "lanes_ok (foldl lane_head st0 hs)"
    "\<forall>k < length hs. map_of (primaryLane (foldl lane_head st0 hs)) (hs ! k) = Some (lane_name k)"
    using lane_heads_ok [OF st0(1) hs(1)] st0 by (simp_all add: map_has_def)
  have "st = foldl (lane_entry lc m (buildReplayChildIds lc es m)) (foldl lane_head st0 hs)
      (js_sort (\<lambda>left right. compareByCreatedAtThenId lc right left) es)"
    by (simp add: st_def lane_run_def st0_def hs_def)
  then have st: "lanes_ok st" "lanes_grow (foldl lane_head st0 hs) st"
    "\<forall>e \<in> set es. map_has (primaryLane st) (entry_id e)"
    "\<forall>e \<in> set es. \<forall>d \<in> set (dependencyIds e). map_has m d \<longrightarrow> share_lane st (entry_id e) d"
    using lane_entries_ok [OF heads(1), of lc m "buildReplayChildIds lc es m"
        "js_sort (\<lambda>left right. compareByCreatedAtThenId lc right left) es"] by simp_all
  have plan: "plan_graphLaneIds plan = lane_ids st" "plan_primaryLane plan = primaryLane st"
    by (simp_all add: assms(3) buildHistoricalLanePlan_def Let_def st_def)
  have lanes: "lanes = (\<lambda>i. {l. in_lane st i l})"
    by (simp add: assms(3,4) plan_lanes_eq st_def)
  have "distinct (lane_ids st)"
    using st(1) lane_name_inj by (simp add: lanes_ok_def distinct_map inj_on_def)
  moreover have "\<forall>i. lanes i \<subseteq> set (lane_ids st)" using st(1) by (auto simp: lanes_ok_def lanes)
  moreover have "\<forall>e \<in> set es. \<exists>l \<in> lanes (entry_id e). map_of (primaryLane st) (entry_id e) = Some l"
    using st(1,3) by (auto simp: lanes_ok_def lanes map_has_def)
  moreover have "\<forall>e \<in> set es. \<forall>d \<in> set (dependencyIds e). map_has m d \<longrightarrow> lanes (entry_id e) \<inter> lanes d \<noteq> {}"
    using st(4) unfolding share_lane_def lanes by blast
  moreover have "g = h" if "g \<in> set heads" "h \<in> set heads" "map_of (primaryLane st) g = map_of (primaryLane st) h" for g h
  proof -
    note gh = that
    have primary: "map_of (primaryLane st) (hs ! k) = Some (lane_name k)" if "k < length hs" for k
      using heads(2) st(2) that by (simp add: lanes_grow_def)
    obtain j k where "j < length hs" "k < length hs" "g = hs ! j" "h = hs ! k"
      using gh(1,2) unfolding hs(2) [symmetric] in_set_conv_nth by blast
    with gh(3) primary lane_name_inj show ?thesis by simp
  qed
  ultimately show ?thesis unfolding plan by blast
qed

theorem lane_plan_correct_witness:
  "distinct (plan_graphLaneIds (buildHistoricalLanePlan compare_by demo_replay (by_id demo_replay) [''a'']))"
  using lane_plan_correct [OF _ refl refl refl, of "[''a'']" compare_by demo_replay] by simp

section \<open>The analysis covers the history\<close>

lemma replay_edge_cong: "map_of m = map_of m' \<Longrightarrow> replay_edge m = replay_edge m'"
  by (intro ext) (simp add: replay_edge_def map_has_def)

lemma set_active_heads: "set (findActiveReplayHeads lc es) = replay_heads es"
  by (auto simp: findActiveReplayHeads_def Let_def replay_heads_def)

lemma analysis_replay:
  assumes "strict_collation lc" and "distinct (ids_of es)"
    and "replay = filter isReplayEntry (orderDagEntriesCausally lc (filter isDagEntry es))"
  shows "mset replay = mset (filter isReplayEntry es)" and "distinct (ids_of replay)"
    and "map_of (by_id replay) = map_of (replay_map es)"
proof -
  have "mset (orderDagEntriesCausally lc (filter isDagEntry es)) = mset (filter isDagEntry es)"
    by (rule causal_order_permutation [OF assms(1) distinct_map_filter [OF assms(2)]])
  then show m: "mset replay = mset (filter isReplayEntry es)"
    unfolding assms(3) by (metis filter_dag_entries(1) mset_filter)
  have d: "distinct (ids_of (filter isReplayEntry es))" using assms(2) by (rule distinct_map_filter)
  then show "distinct (ids_of replay)" using m by (metis mset_eq_imp_distinct_iff mset_map)
  show "map_of (by_id replay) = map_of (replay_map es)" by (rule by_id_perm(1) [OF d m])
qed

lemma heads_reach_all:
  assumes "distinct (ids_of es)" and "replay_acyclic (replay_map es)"
  shows "(\<Union>h \<in> replay_heads (filter isReplayEntry es). causal_past es {h}) = replay_ids es"
proof -
  have d: "distinct (ids_of (filter isReplayEntry es))" using assms(1) by (rule distinct_map_filter)
  have "{i. \<exists>h \<in> replay_heads (filter isReplayEntry es). (replay_edge (replay_map es))\<^sup>*\<^sup>* h i} = replay_ids es"
    using latestReachable_all [OF d assms(2)] unfolding latestReachable_eq replay_ids_def .
  moreover have "h \<in> replay_ids es" if "h \<in> replay_heads (filter isReplayEntry es)" for h
    using that by (simp add: replay_heads_def replay_ids_def)
  ultimately show ?thesis unfolding causal_past_def by blast
qed

lemma branch_of_head:
  assumes "strict_collation lc" and "distinct (ids_of es)" and "h \<in> replay_heads (filter isReplayEntry es)"
    and "m = by_id (filter isReplayEntry (orderDagEntriesCausally lc (filter isDagEntry es)))"
  shows "\<exists>b. buildBranchSummary lc h m snaps = Some b \<and> bs_headEntryId b = h \<and>
           set (bs_ancestorEntryIds b) = causal_past es {h}"
proof -
  note r = analysis_replay [OF assms(1,2) refl, folded assms(4)]
  have h: "h \<in> replay_ids es" using assms(3) by (simp add: replay_heads_def replay_ids_def)
  then have "map_has (replay_map es) h" by (simp add: by_id_has replay_ids_def)
  then have has: "map_has m h" unfolding map_has_def r(3) .
  then obtain e where e: "map_of m h = Some e" by (auto simp: map_has_def)
  have anc: "set (collectReplayAncestors m h) = causal_past es {h}"
    using has h unfolding set_ancestors causal_past_def replay_edge_cong [OF r(3)] by simp
  have keys: "set (map_keys m) = set (map_keys (replay_map es))"
    using r(3) by (metis dom_map_of_conv_image_fst list.set_map)
  have "keyed m" using r(2) unfolding assms(4) by (rule keyed_by_id)
  then have "set (ordered_ids lc m (collectReplayAncestors m h)) = causal_past es {h}"
    using set_ordered_ids [of m "collectReplayAncestors m h"] causal_past_keys unfolding anc keys by blast
  then show ?thesis by (simp add: buildBranchSummary_def e Let_def)
qed

text \<open>
  C29. The analysis of a document shows the whole history. Its entries are the graph entries of the
  document, each once; its active heads are the replay entries that no other one depends on; there
  is one branch per head, whose ancestor list is the causal past of the head; and, when the history
  has no cycle, every replay entry lies on some branch.
\<close>

theorem dag_analysis_covers:
  assumes "strict_collation lc" and "distinct (ids_of es)" and "replay_acyclic (replay_map es)"
    and "a = computeDocumentDagAnalysis lc d es t"
  shows "mset (map es_entryId (da_entries a)) = mset (ids_of (filter isDagEntry es)) \<and>
         set (da_activeHeadEntryIds a) = replay_heads (filter isReplayEntry es) \<and>
         map bs_headEntryId (da_branches a) = da_activeHeadEntryIds a \<and>
         (\<forall>b \<in> set (da_branches a). set (bs_ancestorEntryIds b) = causal_past es {bs_headEntryId b}) \<and>
         (\<Union>b \<in> set (da_branches a). set (bs_ancestorEntryIds b)) = replay_ids es"
proof -
  define dag where "dag = orderDagEntriesCausally lc (filter isDagEntry es)"
  define hs where "hs = findActiveReplayHeads lc (filter isReplayEntry dag)"
  let ?m = "by_id (filter isReplayEntry dag)" and ?snaps = "filter (\<lambda>e. entryType e = doc_snapshot) dag"
  let ?f = "\<lambda>h. buildBranchSummary lc h ?m ?snaps"
  have a: "map es_entryId (da_entries a) = ids_of dag" "da_activeHeadEntryIds a = hs"
    "da_branches a = List.map_filter ?f hs"
    by (simp_all add: assms(4) computeDocumentDagAnalysis_def Let_def summarize_entry_def dag_def hs_def)
  have dag: "mset dag = mset (filter isDagEntry es)"
    unfolding dag_def by (rule causal_order_permutation [OF assms(1) distinct_map_filter [OF assms(2)]])
  have "set (filter isReplayEntry dag) = set (filter isReplayEntry es)"
    using analysis_replay(1) [OF assms(1,2) refl, folded dag_def] by (rule mset_eq_setD)
  then have hs: "set hs = replay_heads (filter isReplayEntry es)"
    unfolding hs_def set_active_heads by (simp add: replay_heads_def)
  have branch: "\<exists>b. ?f h = Some b \<and> bs_headEntryId b = h \<and> set (bs_ancestorEntryIds b) = causal_past es {h}"
    if "h \<in> set hs" for h
    using branch_of_head [OF assms(1,2)] that unfolding hs dag_def by blast
  then have "map bs_headEntryId (List.map_filter ?f xs) = xs" if "set xs \<subseteq> set hs" for xs
    using that by (induction xs) (fastforce simp: List.map_filter_simps)+
  then have heads: "map bs_headEntryId (da_branches a) = hs" by (simp add: a(3))
  have past: "set (bs_ancestorEntryIds b) = causal_past es {bs_headEntryId b}" if "b \<in> set (da_branches a)" for b
    using that branch unfolding a(3) set_map_filter_iff by (metis option.inject)
  have "(\<Union>b \<in> set (da_branches a). set (bs_ancestorEntryIds b)) =
      (\<Union>h \<in> bs_headEntryId ` set (da_branches a). causal_past es {h})" using past by auto
  also have "bs_headEntryId ` set (da_branches a) = set hs" using heads by (metis list.set_map)
  finally have "(\<Union>b \<in> set (da_branches a). set (bs_ancestorEntryIds b)) = replay_ids es"
    unfolding hs heads_reach_all [OF assms(2,3)] .
  moreover have "mset (ids_of dag) = mset (ids_of (filter isDagEntry es))" using dag by (metis mset_map)
  ultimately show ?thesis using a(1,2) hs heads past by metis
qed

theorem dag_analysis_covers_witness:
  "(\<Union>b \<in> set (da_branches (computeDocumentDagAnalysis compare_by ''d'' demo_replay 9)).
      set (bs_ancestorEntryIds b)) = replay_ids demo_replay"
proof -
  have "distinct (ids_of demo_replay)" by (simp add: demo_replay_def)
  moreover have "replay_acyclic (replay_map demo_replay)" by (simp add: demo_replay_filter demo_replay_acyclic)
  ultimately show ?thesis
    using dag_analysis_covers [OF code_units_strict.strict_collation_axioms _ _ refl] by metis
qed

end
