(* ===== verification/AuthTokens.thy ===== *)
theory AuthTokens
  imports JsValue Base64 ByteLayout
begin

text \<open>
  The tokens and signatures of the network login
  (\<^verbatim>\<open>core/appendonlystores/network/AuthenticationService.ts\<close>, the cryptographic half):
  URL-safe base64, PEM keys, the three-part token with its HMAC. The primitives of the host
  (\<^verbatim>\<open>JSON\<close>, HMAC-SHA256, Ed25519 import and verification) are the fields of
  \<open>auth_host\<close>. What the service relies on about them is stated where a theorem needs it.
\<close>

section \<open>URL-safe base64\<close>

definition to_url_char :: "char \<Rightarrow> char" where
  "to_url_char c = (if c = CHR ''+'' then CHR ''-'' else if c = CHR ''/'' then CHR ''_'' else c)"

definition of_url_char :: "char \<Rightarrow> char" where
  "of_url_char c = (if c = CHR ''-'' then CHR ''+'' else if c = CHR ''_'' then CHR ''/'' else c)"

definition url_safe :: "string \<Rightarrow> string" where
  "url_safe base64 = filter (\<lambda>c. c \<noteq> CHR ''='') (map to_url_char base64)"

text \<open>\<^verbatim>\<open>while (base64.length % 4) base64 += "=";\<close>\<close>

function pad_base64 :: "string \<Rightarrow> string" where
  "pad_base64 base64 = (if length base64 mod 4 \<noteq> 0 then pad_base64 (base64 @ ''='') else base64)"
  by auto
termination
proof (relation "measure (\<lambda>s. (4 - length s mod 4) mod 4)", goal_cases)
  case (2 base64)
  then have "length base64 mod 4 \<in> {1, 2, 3}" using mod_less_divisor [of 4 "length base64"] by auto
  then show ?case by (auto simp: mod_Suc)
qed simp

declare pad_base64.simps [simp del]

definition base64UrlEncode :: "string \<Rightarrow> string" where
  "base64UrlEncode str = url_safe (btoa_nats (map of_char str))"

definition base64UrlDecode :: "string \<Rightarrow> string option" where
  "base64UrlDecode str = map_option (map char_of) (atob_nats (pad_base64 (map of_url_char str)))"

definition uint8ArrayToBase64Url :: "bytes \<Rightarrow> string" where
  "uint8ArrayToBase64Url bs = url_safe (btoa_nats (map unat bs))"

definition base64UrlToUint8Array :: "string \<Rightarrow> bytes option" where
  "base64UrlToUint8Array str = map_option (map of_nat) (atob_nats (pad_base64 (map of_url_char str)))"

lemma b64_char_plain:
  assumes "n < 64"
  shows "b64_char n \<noteq> CHR ''=''" "b64_char n \<noteq> CHR ''-''" "b64_char n \<noteq> CHR ''_''" "b64_char n \<noteq> CHR ''.''"
  using b64_val_char [OF assms] by (auto simp: b64_val_def)

lemma url_char_cancel:
  "c \<noteq> CHR ''-'' \<Longrightarrow> c \<noteq> CHR ''_'' \<Longrightarrow> of_url_char (to_url_char c) = c"
  by (simp add: to_url_char_def of_url_char_def)

lemma to_url_char_pad [simp]: "to_url_char c = CHR ''='' \<longleftrightarrow> c = CHR ''=''"
  by (simp add: to_url_char_def)

lemma url_safe_eq:
  assumes "\<forall>a \<in> set xs. a < 256"
  shows "url_safe (btoa_nats xs) = map to_url_char (map b64_char (pack_sextets xs))"
proof -
  note less = pack_sextets_less [OF assms]
  have "filter (\<lambda>x. b64_char x \<noteq> CHR ''='') (pack_sextets xs) = pack_sextets xs"
    using less by (auto simp: filter_id_conv b64_char_plain)
  moreover have "filter (\<lambda>c. c \<noteq> CHR ''='') (padding (length xs)) = []" by (simp add: padding_def)
  ultimately show ?thesis by (simp add: url_safe_def btoa_nats_eq filter_map o_def)
qed

lemma length_pack_sextets:
  "length (pack_sextets xs) mod 4 = (if length xs mod 3 = 0 then 0 else Suc (length xs mod 3))"
proof (induction xs rule: pack_sextets.induct)
  case (4 a b c r)
  have "length (a # b # c # r) mod 3 = length r mod 3" by simp
  then show ?case using 4 by simp
qed auto

lemma pad_base64_mod0: "length s mod 4 = 0 \<Longrightarrow> pad_base64 s = s"
  by (subst pad_base64.simps) simp

lemma pad_base64_step: "length s mod 4 \<noteq> 0 \<Longrightarrow> pad_base64 s = pad_base64 (s @ ''='')"
  by (subst pad_base64.simps) simp

lemma pad_base64_pack:
  "pad_base64 (map b64_char (pack_sextets xs)) = map b64_char (pack_sextets xs) @ padding (length xs)"
proof -
  let ?s = "map b64_char (pack_sextets xs)"
  consider "length xs mod 3 = 0" | "length xs mod 3 = 1" | "length xs mod 3 = 2" by linarith
  then show ?thesis
  proof cases
    case 1
    then show ?thesis using length_pack_sextets [of xs] by (simp add: pad_base64_mod0 padding_def)
  next
    case 2
    then have "length ?s mod 4 = 2" using length_pack_sextets [of xs] by simp
    then have "length ?s mod 4 \<noteq> 0" "length (?s @ ''='') mod 4 \<noteq> 0" "length (?s @ ''=='') mod 4 = 0"
      by (simp_all add: mod_Suc)
    then show ?thesis using 2 by (simp add: pad_base64_step pad_base64_mod0 padding_def)
  next
    case 3
    then have "length ?s mod 4 = 3" using length_pack_sextets [of xs] by simp
    then have "length ?s mod 4 \<noteq> 0" "length (?s @ ''='') mod 4 = 0" by (simp_all add: mod_Suc)
    then show ?thesis using 3 by (simp add: pad_base64_step pad_base64_mod0 padding_def)
  qed
qed

lemma atob_url_safe:
  assumes "\<forall>a \<in> set xs. a < 256"
  shows "atob_nats (pad_base64 (map of_url_char (url_safe (btoa_nats xs)))) = Some xs"
proof -
  have "map of_url_char (map to_url_char (map b64_char (pack_sextets xs))) = map b64_char (pack_sextets xs)"
    using pack_sextets_less [OF assms] by (simp add: url_char_cancel b64_char_plain)
  then show ?thesis
    unfolding url_safe_eq [OF assms]
    by (simp only: pad_base64_pack btoa_nats_eq [symmetric] atob_btoa [OF assms])
qed

lemma base64Url_string [simp]: "base64UrlDecode (base64UrlEncode s) = Some s"
proof -
  have "\<forall>a \<in> set (map of_char s). a < (256 :: nat)" by auto
  then show ?thesis by (simp add: base64UrlDecode_def base64UrlEncode_def atob_url_safe o_def)
qed

lemma base64Url_bytes [simp]: "base64UrlToUint8Array (uint8ArrayToBase64Url bs) = Some bs"
proof -
  have "\<forall>a \<in> set (map unat bs). a < 256" using unsigned_less [where 'b = 8 and 'a = nat] by auto
  then show ?thesis by (simp add: base64UrlToUint8Array_def uint8ArrayToBase64Url_def atob_url_safe o_def)
qed

lemma url_safe_no_dot:
  assumes "\<forall>a \<in> set xs. a < 256"
  shows "CHR ''.'' \<notin> set (url_safe (btoa_nats xs))"
proof -
  have "to_url_char (b64_char v) \<noteq> CHR ''.''" if "v \<in> set (pack_sextets xs)" for v
    using b64_char_plain(4) [of v] pack_sextets_less [OF assms] that by (simp add: to_url_char_def)
  then show ?thesis by (force simp: url_safe_eq [OF assms])
qed

lemma base64UrlEncode_no_dot: "CHR ''.'' \<notin> set (base64UrlEncode s)"
  unfolding base64UrlEncode_def by (rule url_safe_no_dot) auto

lemma uint8ArrayToBase64Url_no_dot: "CHR ''.'' \<notin> set (uint8ArrayToBase64Url bs)"
  unfolding uint8ArrayToBase64Url_def
  by (rule url_safe_no_dot) (use unsigned_less [where 'b = 8 and 'a = nat] in auto)

section \<open>PEM keys and signatures\<close>

text \<open>\<^verbatim>\<open>text.replace(/pattern/g, "")\<close> for a literal pattern: left to right, without overlaps.\<close>

function remove_all :: "string \<Rightarrow> string \<Rightarrow> string" where
  "remove_all pat s =
     (if s = [] \<or> pat = [] then s
      else if take (length pat) s = pat then remove_all pat (drop (length pat) s)
      else hd s # remove_all pat (tl s))"
  by auto
termination by (relation "measure (\<lambda>(pat, s). length s)") auto

declare remove_all.simps [simp del]

definition normalizeSigningPublicKey :: "string \<Rightarrow> string" where
  "normalizeSigningPublicKey pem = filter (\<lambda>c. \<not> js_space c) pem"

definition pem_contents :: "string \<Rightarrow> string" where
  "pem_contents publicKeyPem =
     filter (\<lambda>c. \<not> js_space c)
       (remove_all ''-----END PUBLIC KEY-----'' (remove_all ''-----BEGIN PUBLIC KEY-----'' publicKeyPem))"

record token_payload =
  sub :: string
  iat :: int
  exp_time :: int
  tp_tenantId :: string
  tp_dbId :: "string option"
  deviceSigningKey :: "string option"
  wipe :: bool

text \<open>
  The host: the two \<^verbatim>\<open>JSON\<close> texts of a token, \<open>None\<close> where parsing throws (the
  algorithm of a header may also be absent), HMAC-SHA256, and Ed25519 import plus verification,
  \<open>None\<close> where the host rejects the key.
\<close>

record auth_host =
  json_header :: "string \<Rightarrow> string \<Rightarrow> string"
  json_parse_alg :: "string \<Rightarrow> string option option"
  json_payload :: "token_payload \<Rightarrow> string"
  json_parse_payload :: "string \<Rightarrow> token_payload option"
  hmac_sha256 :: "bytes \<Rightarrow> bytes \<Rightarrow> bytes"
  ed25519_verify :: "bytes \<Rightarrow> bytes \<Rightarrow> bytes \<Rightarrow> bool option"

definition verifySignature :: "auth_host \<Rightarrow> string \<Rightarrow> bytes \<Rightarrow> string \<Rightarrow> bool" where
  "verifySignature host message signature publicKeyPem =
     (case base64ToUint8Array (pem_contents publicKeyPem) of
        None \<Rightarrow> False
      | Some keyData \<Rightarrow> ed25519_verify host keyData signature (utf8_encode message) = Some True)"

section \<open>Tokens\<close>

text \<open>The options of the service; \<^verbatim>\<open>||\<close> takes the default for an absent or zero number.\<close>

record auth_config =
  cf_tenantId :: string
  jwtSecret :: bytes
  challengeExpirationMs :: int
  tokenExpirationMs :: int

definition or_default :: "int option \<Rightarrow> int \<Rightarrow> int" where
  "or_default v dflt = (case v of None \<Rightarrow> dflt | Some n \<Rightarrow> if n = 0 then dflt else n)"

definition make_config ::
  "string \<Rightarrow> bytes \<Rightarrow> bytes option \<Rightarrow> int option \<Rightarrow> int option \<Rightarrow> auth_config" where
  "make_config tenant randomBytes secretOption challengeOption tokenOption =
     \<lparr> cf_tenantId = tenant,
       jwtSecret = (case secretOption of Some s \<Rightarrow> s | None \<Rightarrow> randomBytes),
       challengeExpirationMs = or_default challengeOption (5 * 60 * 1000),
       tokenExpirationMs = or_default tokenOption (60 * 60 * 1000) \<rparr>"

definition token_payload_for :: "auth_config \<Rightarrow> int \<Rightarrow> string \<Rightarrow> string \<Rightarrow> bool \<Rightarrow> token_payload" where
  "token_payload_for cfg nowMs subject signingKey isWipe =
     (let now = nowMs div 1000
      in \<lparr> sub = subject, iat = now, exp_time = now + tokenExpirationMs cfg div 1000,
           tp_tenantId = cf_tenantId cfg, tp_dbId = None,
           deviceSigningKey = (if signingKey \<noteq> '''' then Some signingKey else None),
           wipe = isWipe \<rparr>)"

definition sign_token :: "auth_host \<Rightarrow> bytes \<Rightarrow> token_payload \<Rightarrow> string" where
  "sign_token host secret payload =
     (let headerB64 = base64UrlEncode (json_header host ''HS256'' ''JWT'');
          payloadB64 = base64UrlEncode (json_payload host payload);
          signature = hmac_sha256 host secret (utf8_encode (headerB64 @ ''.'' @ payloadB64))
      in headerB64 @ ''.'' @ payloadB64 @ ''.'' @ uint8ArrayToBase64Url signature)"

definition generateToken :: "auth_host \<Rightarrow> auth_config \<Rightarrow> int \<Rightarrow> string \<Rightarrow> string \<Rightarrow> bool \<Rightarrow> string" where
  "generateToken host cfg nowMs subject signingKey isWipe =
     sign_token host (jwtSecret cfg) (token_payload_for cfg nowMs subject signingKey isWipe)"

text \<open>\<^verbatim>\<open>subtle.verify("HMAC", \<dots>)\<close> compares the signature with the computed one.\<close>

definition verifyToken :: "auth_host \<Rightarrow> bytes \<Rightarrow> string \<Rightarrow> token_payload option" where
  "verifyToken host secret token =
     (case split_on (CHR ''.'') token of
        [headerB64, payloadB64, signatureB64] \<Rightarrow>
          (case Option.bind (base64UrlDecode headerB64) (json_parse_alg host) of
             Some (Some alg) \<Rightarrow>
               (if alg \<noteq> ''HS256'' then None
                else case base64UrlToUint8Array signatureB64 of
                  None \<Rightarrow> None
                | Some signature \<Rightarrow>
                    (if signature \<noteq> hmac_sha256 host secret (utf8_encode (headerB64 @ ''.'' @ payloadB64))
                     then None
                     else Option.bind (base64UrlDecode payloadB64) (json_parse_payload host)))
           | _ \<Rightarrow> None)
      | _ \<Rightarrow> None)"

text \<open>\<^verbatim>\<open>JSON.parse\<close> reads back what \<^verbatim>\<open>JSON.stringify\<close> wrote, for the header and a payload.\<close>

definition json_roundtrips :: "auth_host \<Rightarrow> token_payload \<Rightarrow> bool" where
  "json_roundtrips host payload \<longleftrightarrow>
     json_parse_alg host (json_header host ''HS256'' ''JWT'') = Some (Some ''HS256'') \<and>
     json_parse_payload host (json_payload host payload) = Some payload"

lemma split_on_plain: "c \<notin> set w \<Longrightarrow> split_on c w = [w]"
  by (induction w) auto

lemma split_on_append: "c \<notin> set w \<Longrightarrow> split_on c (w @ c # r) = w # split_on c r"
  by (induction w) auto

lemma split_on_3:
  assumes "split_on c s = [x, y, z]"
  shows "s = x @ c # y @ c # z"
proof -
  have ne: "split_on c t \<noteq> []" for t by (induction t) (auto split: list.splits)
  have join: "concat (map (\<lambda>w. w @ [c]) (split_on c t)) = t @ [c]" for t
  proof (induction t)
    case (Cons a t)
    then show ?case using ne [of t] by (auto split: list.splits)
  qed simp
  show ?thesis using join [of s] unfolding assms by simp
qed

lemma verifyToken_signed:
  assumes "verifyToken host secret token = Some payload"
  obtains h b s where "token = h @ ''.'' @ b @ ''.'' @ s"
    "base64UrlToUint8Array s = Some (hmac_sha256 host secret (utf8_encode (h @ ''.'' @ b)))"
    "Option.bind (base64UrlDecode b) (json_parse_payload host) = Some payload"
proof -
  obtain h b s where parts: "split_on (CHR ''.'') token = [h, b, s]"
    using assms by (auto simp: verifyToken_def split: list.splits)
  then have "token = h @ ''.'' @ b @ ''.'' @ s" using split_on_3 [OF parts] by simp
  moreover have "base64UrlToUint8Array s = Some (hmac_sha256 host secret (utf8_encode (h @ ''.'' @ b)))"
    "Option.bind (base64UrlDecode b) (json_parse_payload host) = Some payload"
    using assms unfolding verifyToken_def parts by (auto split: option.splits if_splits)
  ultimately show thesis using that by blast
qed

lemma verify_sign_token:
  assumes "json_roundtrips host payload"
  shows "verifyToken host secret (sign_token host secret payload) = Some payload"
proof -
  let ?h = "base64UrlEncode (json_header host ''HS256'' ''JWT'')"
  let ?b = "base64UrlEncode (json_payload host payload)"
  let ?s = "uint8ArrayToBase64Url (hmac_sha256 host secret (utf8_encode (?h @ ''.'' @ ?b)))"
  have "split_on (CHR ''.'') (sign_token host secret payload) = [?h, ?b, ?s]"
    by (simp add: sign_token_def Let_def split_on_append split_on_plain
        base64UrlEncode_no_dot uint8ArrayToBase64Url_no_dot)
  then show ?thesis
    using assms by (simp add: verifyToken_def json_roundtrips_def)
qed

end
