(* ===== verification/AuthService.thy ===== *)
theory AuthService
  imports AuthTokens
begin

text \<open>
  The network login (\<^verbatim>\<open>core/appendonlystores/network/AuthenticationService.ts\<close>):
  challenges, authentication and token validation.

  The state is the map of outstanding challenges. The tenant directory is an argument: a record of
  the calls the service makes, each of which may throw, with the two optional methods as options.
  The service awaits every call, so the directory may change between two of them;
  \<open>dirs n\<close> is the directory that the \<open>n\<close>-th call site of an operation sees.
  An operation changes the challenge map only in one piece of code without \<^verbatim>\<open>await\<close>
  (\<^verbatim>\<open>storeChallenge\<close> at the end of a request, the first checks of \<^verbatim>\<open>authenticate\<close>), so
  interleaved calls behave like the sequence of these pieces. The clock readings are arguments.
\<close>

section \<open>Data\<close>

record auth_challenge =
  ac_challenge :: string
  ac_username :: "string option"
  ac_signingPublicKey :: "string option"
  ac_createdAt :: int
  ac_expiresAt :: int
  ac_used :: bool

record user_public_keys =
  up_signingPublicKey :: string
  up_encryptionPublicKey :: string

record key_universe =
  ku_active :: "string list"
  ku_wipeRequested :: "string list"

record tenant_directory =
  dir_getUserPublicKeys :: "string \<Rightarrow> string + user_public_keys option"
  dir_isUserRevoked :: "string \<Rightarrow> string + bool"
  dir_getUserSigningKeyUniverse :: "(string \<Rightarrow> string + key_universe) option"
  dir_getUserBySigningPublicKey :: "(string \<Rightarrow> string + string option) option"

text \<open>
  The errors of a request: the four places that throw \<^verbatim>\<open>USER_NOT_FOUND\<close> (nothing to identify
  the client, unknown user, unknown device of a user, unknown key), \<^verbatim>\<open>USER_REVOKED\<close>, and an
  exception of the directory. The failures of an authentication carry the principal that the
  message names.
\<close>

datatype auth_error =
    PrincipalRequired
  | UserNotFound string
  | DeviceKeyNotFound string
  | SigningKeyNotFound
  | UserRevoked string
  | DirectoryThrew string

datatype auth_failure =
    ChallengeNotFound
  | ChallengeExpired
  | ChallengeAlreadyUsed
  | NoActiveGrant string
  | DeviceNotInGrant string
  | InvalidSignature

datatype auth_result =
    AuthSuccess string
  | AuthFailure auth_failure

type_synonym challenges = "(string, auth_challenge) jsmap"
type_synonym challenge_fields = "string option \<times> string option"

text \<open>An empty string counts as absent wherever the code tests a string for truth.\<close>

definition truthy :: "string option \<Rightarrow> string option" where
  "truthy v = (case v of None \<Rightarrow> None | Some s \<Rightarrow> if s = '''' then None else Some s)"

section \<open>The challenge map\<close>

definition MAX_CHALLENGES :: int where
  "MAX_CHALLENGES = 10000"

definition cleanupExpiredChallenges :: "int \<Rightarrow> challenges \<Rightarrow> challenges" where
  "cleanupExpiredChallenges now cs = filter (\<lambda>(c, a). \<not> ac_expiresAt a < now) cs"

text \<open>The loop over the keys in insertion order, with the counter \<^verbatim>\<open>overflow--\<close>.\<close>

fun evict_loop :: "int \<Rightarrow> string list \<Rightarrow> challenges \<Rightarrow> challenges" where
  "evict_loop overflow [] cs = cs"
| "evict_loop overflow (c # ks) cs =
     (if overflow \<le> 0 then cs else evict_loop (overflow - 1) ks (AList.delete c cs))"

definition evictChallengesOverCap :: "challenges \<Rightarrow> challenges" where
  "evictChallengesOverCap cs =
     (let overflow = int (length cs) - MAX_CHALLENGES
      in if overflow \<le> 0 then cs else evict_loop overflow (map_keys cs) cs)"

definition new_challenge :: "auth_config \<Rightarrow> string \<Rightarrow> int \<Rightarrow> challenge_fields \<Rightarrow> auth_challenge" where
  "new_challenge cfg uuid now flds =
     \<lparr> ac_challenge = uuid, ac_username = truthy (fst flds),
       ac_signingPublicKey = truthy (snd flds),
       ac_createdAt = now, ac_expiresAt = now + challengeExpirationMs cfg, ac_used = False \<rparr>"

definition storeChallenge ::
  "auth_config \<Rightarrow> string \<Rightarrow> int \<Rightarrow> int \<Rightarrow> challenge_fields \<Rightarrow> challenges \<Rightarrow> challenges" where
  "storeChallenge cfg uuid now cleanupNow flds cs =
     evictChallengesOverCap (cleanupExpiredChallenges cleanupNow
       (AList.update uuid (new_challenge cfg uuid now flds) cs))"

section \<open>Keys of a user\<close>

definition no_keys :: key_universe where
  "no_keys = \<lparr> ku_active = [], ku_wipeRequested = [] \<rparr>"

definition getSigningKeyUniverse :: "tenant_directory \<Rightarrow> string \<Rightarrow> key_universe" where
  "getSigningKeyUniverse dir username =
     (case dir_getUserSigningKeyUniverse dir of
        None \<Rightarrow> no_keys
      | Some f \<Rightarrow> (case f username of Inl e \<Rightarrow> no_keys | Inr u \<Rightarrow> u))"

definition candidateSigningKeys ::
  "tenant_directory \<Rightarrow> tenant_directory \<Rightarrow> string \<Rightarrow> string + string jsset" where
  "candidateSigningKeys dir dir' username =
     (let universe = getSigningKeyUniverse dir username;
          keys = js_dedup (map normalizeSigningPublicKey (ku_active universe @ ku_wipeRequested universe))
      in if keys = [] then
           (case dir_getUserPublicKeys dir' username of
              Inl e \<Rightarrow> Inl e
            | Inr None \<Rightarrow> Inr keys
            | Inr (Some k) \<Rightarrow> Inr (set_add (normalizeSigningPublicKey (up_signingPublicKey k)) keys))
         else Inr keys)"

section \<open>Requesting a challenge\<close>

definition generateChallengeForUsername ::
  "(nat \<Rightarrow> tenant_directory) \<Rightarrow> string \<Rightarrow> string option \<Rightarrow> auth_error + challenge_fields" where
  "generateChallengeForUsername dirs username signingKey =
     (case dir_getUserPublicKeys (dirs 0) username of
        Inl e \<Rightarrow> Inl (DirectoryThrew e)
      | Inr None \<Rightarrow>
          (if ku_wipeRequested (getSigningKeyUniverse (dirs 1) username) \<noteq> []
           then Inr (Some username, signingKey)
           else case dir_isUserRevoked (dirs 2) username of
             Inl e \<Rightarrow> Inl (DirectoryThrew e)
           | Inr True \<Rightarrow> Inl (UserRevoked username)
           | Inr False \<Rightarrow> Inl (UserNotFound username))
      | Inr (Some userKeys) \<Rightarrow>
          (case truthy signingKey of
             None \<Rightarrow> Inr (Some username, signingKey)
           | Some k \<Rightarrow>
               (case candidateSigningKeys (dirs 1) (dirs 2) username of
                  Inl e \<Rightarrow> Inl (DirectoryThrew e)
                | Inr known \<Rightarrow>
                    (if normalizeSigningPublicKey k \<notin> set known
                     then Inl (DeviceKeyNotFound username)
                     else Inr (Some username, signingKey)))))"

definition generateChallengeForKey ::
  "(nat \<Rightarrow> tenant_directory) \<Rightarrow> string \<Rightarrow> auth_error + challenge_fields" where
  "generateChallengeForKey dirs signingKey =
     (let unknown = Inl SigningKeyNotFound
      in case dir_getUserBySigningPublicKey (dirs 0) of
           None \<Rightarrow> unknown
         | Some f \<Rightarrow>
             (case f signingKey of
                Inl e \<Rightarrow> Inl (DirectoryThrew e)
              | Inr None \<Rightarrow> unknown
              | Inr (Some username) \<Rightarrow> Inr (Some username, Some signingKey)))"

definition challenge_request ::
  "(nat \<Rightarrow> tenant_directory) \<Rightarrow> string option \<Rightarrow> string option \<Rightarrow> auth_error + challenge_fields" where
  "challenge_request dirs username signingKey =
     (case truthy username of
        Some u \<Rightarrow> generateChallengeForUsername dirs u signingKey
      | None \<Rightarrow>
          (case truthy signingKey of
             Some k \<Rightarrow> generateChallengeForKey dirs k
           | None \<Rightarrow> Inl PrincipalRequired))"

definition generateChallenge ::
  "auth_config \<Rightarrow> (nat \<Rightarrow> tenant_directory) \<Rightarrow> string option \<Rightarrow> string option \<Rightarrow> string \<Rightarrow> int \<Rightarrow> int \<Rightarrow>
   challenges \<Rightarrow> (auth_error + string) \<times> challenges" where
  "generateChallenge cfg dirs username signingKey uuid now cleanupNow cs =
     (case challenge_request dirs username signingKey of
        Inl e \<Rightarrow> (Inl e, cs)
      | Inr flds \<Rightarrow> (Inr uuid, storeChallenge cfg uuid now cleanupNow flds cs))"

section \<open>Authentication\<close>

text \<open>
  The checks up to the mark \<^verbatim>\<open>used = true\<close>, which run without interruption: the claimed
  challenge, or the failure, and the new map.
\<close>

definition claim_challenge ::
  "int \<Rightarrow> string \<Rightarrow> challenges \<Rightarrow> (auth_failure + auth_challenge) \<times> challenges" where
  "claim_challenge now challenge cs =
     (case map_of cs challenge of
        None \<Rightarrow> (Inl ChallengeNotFound, cs)
      | Some a \<Rightarrow>
          (if now > ac_expiresAt a then (Inl ChallengeExpired, AList.delete challenge cs)
           else if ac_used a then (Inl ChallengeAlreadyUsed, cs)
           else (Inr a, AList.update challenge (a \<lparr> ac_used := True \<rparr>) cs)))"

text \<open>The user name of a challenge, looked up by key when only the key is known.\<close>

definition resolve_username :: "(nat \<Rightarrow> tenant_directory) \<Rightarrow> auth_challenge \<Rightarrow> string + string option" where
  "resolve_username dirs a =
     (case truthy (ac_username a) of
        Some u \<Rightarrow> Inr (Some u)
      | None \<Rightarrow>
          (case (truthy (ac_signingPublicKey a), dir_getUserBySigningPublicKey (dirs 0)) of
             (Some k, Some f) \<Rightarrow> map_sum id truthy (f k)
           | _ \<Rightarrow> Inr None))"

definition principal_label :: "auth_challenge \<Rightarrow> string" where
  "principal_label a =
     (case ac_username a of Some u \<Rightarrow> u
      | None \<Rightarrow> (case ac_signingPublicKey a of Some k \<Rightarrow> k | None \<Rightarrow> ''unknown''))"

definition candidate_keys ::
  "(nat \<Rightarrow> tenant_directory) \<Rightarrow> auth_challenge \<Rightarrow> string option \<Rightarrow> string + string jsset" where
  "candidate_keys dirs a resolved =
     (case (case resolved of None \<Rightarrow> Inr [] | Some u \<Rightarrow> candidateSigningKeys (dirs 1) (dirs 2) u) of
        Inl e \<Rightarrow> Inl e
      | Inr keys \<Rightarrow>
          (case truthy (ac_signingPublicKey a) of
             Some k \<Rightarrow> Inr (if keys = [] then set_add (normalizeSigningPublicKey k) keys else keys)
           | None \<Rightarrow> Inr keys))"

definition universe_of :: "tenant_directory \<Rightarrow> string option \<Rightarrow> key_universe" where
  "universe_of dir resolved =
     (case resolved of None \<Rightarrow> no_keys | Some u \<Rightarrow> getSigningKeyUniverse dir u)"

definition verify_pems ::
  "(nat \<Rightarrow> tenant_directory) \<Rightarrow> auth_challenge \<Rightarrow> string option \<Rightarrow> string + string list" where
  "verify_pems dirs a resolved =
     (let universe = universe_of (dirs 3) resolved;
          pems = ku_active universe @ ku_wipeRequested universe
      in case (case (pems, resolved) of
                 ([], Some u) \<Rightarrow>
                   (case dir_getUserPublicKeys (dirs 4) u of
                      Inl e \<Rightarrow> Inl e
                    | Inr None \<Rightarrow> Inr []
                    | Inr (Some k) \<Rightarrow> Inr [up_signingPublicKey k])
               | _ \<Rightarrow> Inr pems) of
           Inl e \<Rightarrow> Inl e
         | Inr pems' \<Rightarrow>
             (case (pems', truthy (ac_signingPublicKey a)) of
                ([], Some k) \<Rightarrow> Inr [k]
              | _ \<Rightarrow> Inr pems'))"

definition authenticate_claimed ::
  "auth_host \<Rightarrow> auth_config \<Rightarrow> (nat \<Rightarrow> tenant_directory) \<Rightarrow> string \<Rightarrow> bytes \<Rightarrow> int \<Rightarrow>
   auth_challenge \<Rightarrow> string + auth_result" where
  "authenticate_claimed host cfg dirs challenge signature tokenNow a =
     (case resolve_username dirs a of
        Inl e \<Rightarrow> Inl e
      | Inr resolved \<Rightarrow>
          (case candidate_keys dirs a resolved of
             Inl e \<Rightarrow> Inl e
           | Inr keys \<Rightarrow>
               (if keys = [] then Inr (AuthFailure (NoActiveGrant (principal_label a)))
                else if (case truthy (ac_signingPublicKey a) of
                           None \<Rightarrow> False
                         | Some k \<Rightarrow> normalizeSigningPublicKey k \<noteq> '''' \<and>
                                     normalizeSigningPublicKey k \<notin> set keys)
                then Inr (AuthFailure (DeviceNotInGrant (principal_label a)))
                else
                  (case verify_pems dirs a resolved of
                     Inl e \<Rightarrow> Inl e
                   | Inr pems \<Rightarrow>
                       (case truthy (find (verifySignature host challenge signature) pems) of
                          None \<Rightarrow> Inr (AuthFailure InvalidSignature)
                        | Some matchedKey \<Rightarrow>
                            (let isWipe = matchedKey \<in> set (ku_wipeRequested (universe_of (dirs 5) resolved));
                                 subject = (case ac_username a of Some u \<Rightarrow> u | None \<Rightarrow> matchedKey)
                             in Inr (AuthSuccess
                                  (generateToken host cfg tokenNow subject matchedKey isWipe))))))))"

definition authenticate ::
  "auth_host \<Rightarrow> auth_config \<Rightarrow> (nat \<Rightarrow> tenant_directory) \<Rightarrow> string \<Rightarrow> bytes \<Rightarrow> int \<Rightarrow> int \<Rightarrow>
   challenges \<Rightarrow> (string + auth_result) \<times> challenges" where
  "authenticate host cfg dirs challenge signature now tokenNow cs =
     (case claim_challenge now challenge cs of
        (Inl failure, cs') \<Rightarrow> (Inr (AuthFailure failure), cs')
      | (Inr a, cs') \<Rightarrow> (authenticate_claimed host cfg dirs challenge signature tokenNow a, cs'))"

section \<open>Validating a token\<close>

text \<open>Whether the principal of an unexpired token still has access; \<open>Inl\<close> when a call throws.\<close>

definition principal_revoked ::
  "(nat \<Rightarrow> tenant_directory) \<Rightarrow> token_payload \<Rightarrow> string + bool" where
  "principal_revoked dirs payload =
     (case (truthy (deviceSigningKey payload), dir_getUserSigningKeyUniverse (dirs 1)) of
        (Some deviceKey, Some universeOf) \<Rightarrow>
          (case (case dir_getUserBySigningPublicKey (dirs 0) of
                   None \<Rightarrow> Inr (sub payload)
                 | Some f \<Rightarrow>
                     map_sum id (\<lambda>lookup. case truthy lookup of Some u \<Rightarrow> u | None \<Rightarrow> sub payload)
                       (f deviceKey)) of
             Inl e \<Rightarrow> Inl e
           | Inr username \<Rightarrow>
               (case universeOf username of
                  Inl e \<Rightarrow> Inl e
                | Inr universe \<Rightarrow>
                    map_sum id (\<lambda>revoked. deviceKey \<notin> set (ku_active universe) \<or> revoked)
                      (dir_isUserRevoked (dirs 2) username)))
      | _ \<Rightarrow> dir_isUserRevoked (dirs 0) (sub payload))"

definition validateToken ::
  "auth_host \<Rightarrow> auth_config \<Rightarrow> (nat \<Rightarrow> tenant_directory) \<Rightarrow> int \<Rightarrow> string \<Rightarrow> token_payload option" where
  "validateToken host cfg dirs nowMs token =
     (case verifyToken host (jwtSecret cfg) token of
        None \<Rightarrow> None
      | Some payload \<Rightarrow>
          (if exp_time payload < nowMs div 1000 then None
           else if wipe payload then Some payload
           else case principal_revoked dirs payload of
             Inr False \<Rightarrow> Some payload
           | _ \<Rightarrow> None))"

section \<open>Sequences of calls\<close>

datatype auth_call =
    GenerateCall "nat \<Rightarrow> tenant_directory" "string option" "string option" string int int
  | AuthenticateCall "nat \<Rightarrow> tenant_directory" string bytes int int

datatype auth_outcome =
    Issued "auth_error + string"
  | Answered "string + auth_result"

fun run_call ::
  "auth_host \<Rightarrow> auth_config \<Rightarrow> auth_call \<Rightarrow> challenges \<Rightarrow> auth_outcome \<times> challenges" where
  "run_call host cfg (GenerateCall dirs username key uuid now cleanupNow) cs =
     map_prod Issued id (generateChallenge cfg dirs username key uuid now cleanupNow cs)"
| "run_call host cfg (AuthenticateCall dirs challenge signature now tokenNow) cs =
     map_prod Answered id (authenticate host cfg dirs challenge signature now tokenNow cs)"

fun run_calls ::
  "auth_host \<Rightarrow> auth_config \<Rightarrow> auth_call list \<Rightarrow> challenges \<Rightarrow> auth_outcome list \<times> challenges" where
  "run_calls host cfg [] cs = ([], cs)"
| "run_calls host cfg (call # calls) cs =
     (let (out, cs') = run_call host cfg call cs;
          (outs, cs'') = run_calls host cfg calls cs'
      in (out # outs, cs''))"

end
