(* ===== verification/AuthBehaviour.thy ===== *)
theory AuthBehaviour
  imports AuthService
begin

text \<open>
  What the network login guarantees: a challenge is claimed at most once, the challenge map stays
  bounded, a token is issued only for a key that the directory or the challenge vouches for, a
  validated token is signed, unexpired and still backed by an active key, and an honest device
  gets through.
\<close>

section \<open>The challenge map\<close>

lemma evict_loop_drop:
  "distinct (map_keys cs) \<Longrightarrow> evict_loop n (map_keys cs) cs = drop (nat n) cs"
proof (induction cs arbitrary: n)
  case (Cons p cs)
  obtain c a where p: "p = (c, a)" by fastforce
  have "AList.delete c ((c, a) # cs) = cs"
    using Cons.prems p by (simp add: delete_absent)
  then show ?case
    using Cons p by (cases "n \<le> 0") (simp_all add: drop_Cons' nat_diff_distrib)
qed simp

lemma evict_eq_drop:
  assumes "distinct (map_keys cs)"
  shows "evictChallengesOverCap cs = drop (length cs - 10000) cs"
  using evict_loop_drop [OF assms] 
  by (auto simp: evictChallengesOverCap_def MAX_CHALLENGES_def Let_def nat_diff_distrib)

lemma cleanup_distinct: "distinct (map_keys cs) \<Longrightarrow> distinct (map_keys (cleanupExpiredChallenges now cs))"
  by (simp add: cleanupExpiredChallenges_def distinct_map_filter)

lemma distinct_keys_drop: "distinct (map_keys cs) \<Longrightarrow> distinct (map_keys (drop n cs))"
  by (simp add: drop_map [symmetric])

lemma storeChallenge_eq:
  assumes "distinct (map_keys cs)"
  shows "storeChallenge cfg uuid now cleanupNow flds cs =
    (let kept = cleanupExpiredChallenges cleanupNow (AList.update uuid (new_challenge cfg uuid now flds) cs)
     in drop (length kept - 10000) kept)"
  unfolding storeChallenge_def Let_def
  by (rule evict_eq_drop) (simp add: assms cleanup_distinct)

lemma storeChallenge_distinct:
  "distinct (map_keys cs) \<Longrightarrow> distinct (map_keys (storeChallenge cfg uuid now cleanupNow flds cs))"
  by (simp add: storeChallenge_eq Let_def distinct_keys_drop cleanup_distinct)

lemma storeChallenge_length:
  "distinct (map_keys cs) \<Longrightarrow> length (storeChallenge cfg uuid now cleanupNow flds cs) \<le> 10000"
  by (simp add: storeChallenge_eq Let_def)

text \<open>An entry after a store was there before, or is the new one.\<close>

lemma storeChallenge_set:
  assumes "distinct (map_keys cs)" "(c, a) \<in> set (storeChallenge cfg uuid now cleanupNow flds cs)"
  shows "(c, a) = (uuid, new_challenge cfg uuid now flds) \<or> c \<noteq> uuid \<and> (c, a) \<in> set cs"
proof -
  let ?m = "AList.update uuid (new_challenge cfg uuid now flds) cs"
  have "(c, a) \<in> set ?m"
    using assms by (auto simp: storeChallenge_eq cleanupExpiredChallenges_def Let_def dest: in_set_dropD)
  then have "map_of ?m c = Some a" using assms(1) by simp
  then show ?thesis by (auto simp: update_conv' split: if_splits dest: map_of_SomeD)
qed

lemma storeChallenge_newest:
  assumes "distinct (map_keys cs)" "uuid \<notin> set (map_keys cs)" "cleanupNow \<le> now + challengeExpirationMs cfg"
  shows "map_of (storeChallenge cfg uuid now cleanupNow flds cs) uuid = Some (new_challenge cfg uuid now flds)"
proof -
  let ?new = "(uuid, new_challenge cfg uuid now flds)"
  have "AList.update uuid (snd ?new) cs = cs @ [?new]" using assms(2) by (simp add: update_fresh)
  then have kept: "cleanupExpiredChallenges cleanupNow (AList.update uuid (snd ?new) cs) =
      cleanupExpiredChallenges cleanupNow cs @ [?new]"
    using assms(3) by (simp add: cleanupExpiredChallenges_def new_challenge_def)
  have "?new \<in> set (storeChallenge cfg uuid now cleanupNow flds cs)"
    using kept by (simp add: storeChallenge_eq assms(1) Let_def)
  then show ?thesis
    using storeChallenge_distinct [OF assms(1)] by simp
qed

definition challenges_ok :: "challenges \<Rightarrow> bool" where
  "challenges_ok cs \<longleftrightarrow> distinct (map_keys cs) \<and> length cs \<le> 10000"

lemma length_update_known: "k \<in> set (map_keys m) \<Longrightarrow> length (AList.update k v m) = length m"
  by (induction m) auto

lemma claim_ok: "challenges_ok cs \<Longrightarrow> challenges_ok (snd (claim_challenge now c cs))"
  using length_delete_le [of c cs]
  by (auto simp: challenges_ok_def claim_challenge_def length_update_known map_of_Some_key image_image
      split: option.split)

lemma run_call_state:
  "snd (run_call host cfg call cs) =
     (case call of
        GenerateCall dirs u k uuid now cleanupNow \<Rightarrow>
          (case challenge_request dirs u k of
             Inl e \<Rightarrow> cs | Inr flds \<Rightarrow> storeChallenge cfg uuid now cleanupNow flds cs)
      | AuthenticateCall dirs c sg now tokenNow \<Rightarrow> snd (claim_challenge now c cs))"
  by (cases call) (auto simp: generateChallenge_def authenticate_def split: sum.split prod.split)

lemma run_call_ok: "challenges_ok cs \<Longrightarrow> challenges_ok (snd (run_call host cfg call cs))"
  unfolding run_call_state
  by (auto split: auth_call.split sum.split simp: claim_ok storeChallenge_distinct storeChallenge_length)
     (auto simp: challenges_ok_def storeChallenge_distinct storeChallenge_length)

lemma run_calls_snd:
  "snd (run_calls host cfg (call # calls) cs) = snd (run_calls host cfg calls (snd (run_call host cfg call cs)))"
  by (simp add: Let_def split: prod.split)

lemma run_calls_fst:
  "fst (run_calls host cfg (call # calls) cs) =
     fst (run_call host cfg call cs) # fst (run_calls host cfg calls (snd (run_call host cfg call cs)))"
  by (simp add: Let_def split: prod.split)

declare run_calls.simps(2) [simp del]
lemmas run_calls_simps = run_calls_fst run_calls_snd

lemma run_calls_ok: "challenges_ok cs \<Longrightarrow> challenges_ok (snd (run_calls host cfg calls cs))"
  by (induction calls arbitrary: cs) (simp_all add: run_calls_snd run_call_ok)

lemma length_run_calls [simp]: "length (fst (run_calls host cfg calls cs)) = length calls"
  by (induction calls arbitrary: cs) (simp_all add: run_calls_fst)

section \<open>A challenge is claimed at most once\<close>

fun requested_id :: "auth_call \<Rightarrow> string option" where
  "requested_id (GenerateCall dirs username key uuid now cleanupNow) = Some uuid"
| "requested_id (AuthenticateCall dirs c sg now tokenNow) = None"

fun attempts_on :: "string \<Rightarrow> auth_call \<Rightarrow> bool" where
  "attempts_on c (GenerateCall dirs username key uuid now cleanupNow) = False"
| "attempts_on c (AuthenticateCall dirs c' sg now tokenNow) = (c' = c)"

fun call_time :: "auth_call \<Rightarrow> int" where
  "call_time (GenerateCall dirs username key uuid now cleanupNow) = now"
| "call_time (AuthenticateCall dirs c sg now tokenNow) = now"

text \<open>The attempt did not get past the checks of the challenge itself.\<close>

definition refused :: "auth_outcome \<Rightarrow> bool" where
  "refused out \<longleftrightarrow> out \<in> (\<lambda>f. Answered (Inr (AuthFailure f))) `
     {ChallengeNotFound, ChallengeExpired, ChallengeAlreadyUsed}"

definition spent :: "string \<Rightarrow> challenges \<Rightarrow> bool" where
  "spent c cs \<longleftrightarrow> (case map_of cs c of None \<Rightarrow> True | Some a \<Rightarrow> ac_used a)"

lemma authenticate_claimed_not_refused:
  "\<not> refused (Answered (authenticate_claimed host cfg dirs c sg t a))"
  by (auto simp: authenticate_claimed_def refused_def Let_def
      split: sum.splits if_splits option.splits)

lemma refused_iff:
  "refused (fst (run_call host cfg (AuthenticateCall dirs c sg now t) cs)) \<longleftrightarrow>
     (\<exists>f. fst (claim_challenge now c cs) = Inl f)"
proof (cases "claim_challenge now c cs")
  case (Pair r cs')
  show ?thesis
  proof (cases r)
    case (Inl f)
    then have "f \<in> {ChallengeNotFound, ChallengeExpired, ChallengeAlreadyUsed}"
      using Pair by (auto simp: claim_challenge_def split: option.splits if_splits)
    then show ?thesis using Pair Inl by (auto simp: authenticate_def refused_def)
  next
    case (Inr a)
    then show ?thesis using Pair by (simp add: authenticate_def authenticate_claimed_not_refused)
  qed
qed

lemma claim_success:
  "claim_challenge now c cs = (Inr a, cs') \<longleftrightarrow>
     map_of cs c = Some a \<and> now \<le> ac_expiresAt a \<and> \<not> ac_used a \<and>
     cs' = AList.update c (a \<lparr> ac_used := True \<rparr>) cs"
  by (auto simp: claim_challenge_def split: option.splits if_splits)

lemma spent_refused:
  "spent c cs \<Longrightarrow> refused (fst (run_call host cfg (AuthenticateCall dirs c sg now t) cs))"
  unfolding refused_iff by (auto simp: spent_def claim_challenge_def split: option.splits)

text \<open>Every entry after a call stems from an entry before, at most marked as used, or is the one just issued.\<close>

lemma run_call_entry:
  assumes ok: "challenges_ok cs" and entry: "map_of (snd (run_call host cfg call cs)) c = Some a"
  shows "(requested_id call = Some c \<and> fst (run_call host cfg call cs) = Issued (Inr c) \<and>
            ac_expiresAt a = call_time call + challengeExpirationMs cfg) \<or>
         (\<exists>b. map_of cs c = Some b \<and> ac_expiresAt a = ac_expiresAt b \<and> (ac_used b \<longrightarrow> ac_used a))"
proof (cases call)
  case (GenerateCall dirs u k uuid now cleanupNow)
  have dist: "distinct (map_keys cs)" using ok by (simp add: challenges_ok_def)
  show ?thesis
  proof (cases "challenge_request dirs u k")
    case (Inr flds)
    then have "(c, a) \<in> set (storeChallenge cfg uuid now cleanupNow flds cs)"
      using entry GenerateCall by (simp add: generateChallenge_def map_of_SomeD)
    from storeChallenge_set [OF dist this] show ?thesis
      using GenerateCall Inr dist by (auto simp: generateChallenge_def new_challenge_def)
  qed (use entry GenerateCall in \<open>auto simp: generateChallenge_def\<close>)
next
  case (AuthenticateCall dirs c' sg now t)
  have "map_of (snd (claim_challenge now c' cs)) c = Some a"
    using entry unfolding run_call_state AuthenticateCall by simp
  then have "\<exists>b. map_of cs c = Some b \<and> ac_expiresAt a = ac_expiresAt b \<and> (ac_used b \<longrightarrow> ac_used a)"
    by (auto simp: claim_challenge_def map_of_update map_of_delete split: option.splits if_splits)
  then show ?thesis by simp
qed

lemma spent_step:
  assumes "challenges_ok cs" "spent c cs" "requested_id call \<noteq> Some c"
  shows "spent c (snd (run_call host cfg call cs))"
proof (cases "map_of (snd (run_call host cfg call cs)) c")
  case (Some a)
  then show ?thesis using run_call_entry [OF assms(1) Some] assms(2,3) by (auto simp: spent_def)
qed (simp add: spent_def)

abbreviation requested_ids :: "auth_call list \<Rightarrow> string list" where
  "requested_ids calls \<equiv> List.map_filter requested_id calls"

lemma requested_ids_Cons:
  "requested_ids (call # calls) = (case requested_id call of None \<Rightarrow> [] | Some u \<Rightarrow> [u]) @ requested_ids calls"
  by (simp add: List.map_filter_def split: option.split)

lemma spent_run:
  assumes "challenges_ok cs" "spent c cs" "c \<notin> set (requested_ids calls)"
    "j < length calls" "attempts_on c (calls ! j)"
  shows "refused (fst (run_calls host cfg calls cs) ! j)"
  using assms
proof (induction calls arbitrary: cs j)
  case (Cons call calls)
  show ?case
  proof (cases j)
    case 0
    then obtain d sg now t where "call = AuthenticateCall d c sg now t"
      using Cons.prems(5) by (cases call) auto
    then show ?thesis using 0 spent_refused [OF Cons.prems(2)] by (simp add: run_calls_fst)
  next
    case (Suc k)
    have new: "requested_id call \<noteq> Some c" "c \<notin> set (requested_ids calls)"
      using Cons.prems(3) by (auto simp: requested_ids_Cons split: option.splits)
    show ?thesis
      using Cons.IH [OF run_call_ok [OF Cons.prems(1)] spent_step [OF Cons.prems(1,2) new(1)] new(2)]
        Cons.prems(4,5) Suc by (simp add: run_calls_fst)
  qed
qed simp

lemma claimed_then_spent:
  assumes "\<not> refused (fst (run_call host cfg (AuthenticateCall d c sg now t) cs))"
  shows "spent c (snd (run_call host cfg (AuthenticateCall d c sg now t) cs)) \<and>
         (\<exists>a. map_of cs c = Some a \<and> now \<le> ac_expiresAt a)"
proof -
  obtain a cs' where claim: "claim_challenge now c cs = (Inr a, cs')"
    using assms unfolding refused_iff by (metis old.sum.exhaust prod.collapse)
  moreover have "snd (run_call host cfg (AuthenticateCall d c sg now t) cs) = cs'"
    unfolding run_call_state by (simp add: claim)
  ultimately show ?thesis by (auto simp: claim_success spent_def map_of_update)
qed

lemma keys_step:
  assumes "challenges_ok cs"
  shows "set (map_keys (snd (run_call host cfg call cs))) \<subseteq>
         set (map_keys cs) \<union> set (requested_ids [call])"
proof
  fix c assume "c \<in> set (map_keys (snd (run_call host cfg call cs)))"
  then obtain a where "map_of (snd (run_call host cfg call cs)) c = Some a"
    by (metis map_of_eq_None_iff not_None_eq set_map)
  from run_call_entry [OF assms this] show "c \<in> set (map_keys cs) \<union> set (requested_ids [call])"
    by (auto simp: requested_ids_Cons dest: map_of_Some_key)
qed

lemma claimed_once:
  assumes "challenges_ok cs" "distinct (requested_ids calls)"
    "set (map_keys cs) \<inter> set (requested_ids calls) = {}"
    "i < j" "j < length calls" "attempts_on c (calls ! i)" "attempts_on c (calls ! j)"
    "\<not> refused (fst (run_calls host cfg calls cs) ! i)"
  shows "refused (fst (run_calls host cfg calls cs) ! j)"
  using assms
proof (induction calls arbitrary: cs i j)
  case (Cons call calls)
  obtain k where j: "j = Suc k" using Cons.prems(4) by (cases j) auto
  let ?cs = "snd (run_call host cfg call cs)"
  have ok: "challenges_ok ?cs" by (rule run_call_ok [OF Cons.prems(1)])
  show ?case
  proof (cases i)
    case 0
    then obtain d sg now t where call: "call = AuthenticateCall d c sg now t"
      using Cons.prems(6) by (cases call) auto
    have nr: "\<not> refused (fst (run_call host cfg (AuthenticateCall d c sg now t) cs))"
      using Cons.prems(8) 0 call by (simp add: run_calls_fst)
    have spent: "spent c ?cs" and "\<exists>a. map_of cs c = Some a"
      using claimed_then_spent [OF nr] unfolding call by auto
    then have "c \<notin> set (requested_ids calls)"
      using Cons.prems(3) unfolding requested_ids_Cons by (auto dest!: map_of_Some_key)
    from spent_run [OF ok spent this] show ?thesis
      using Cons.prems(5,7) j by (simp add: run_calls_fst)
  next
    case (Suc i')
    have "distinct (requested_ids calls)" "set (map_keys ?cs) \<inter> set (requested_ids calls) = {}"
      using Cons.prems(2,3) keys_step [OF Cons.prems(1), of host cfg call]
      unfolding requested_ids_Cons
      by (cases "requested_id call"; simp add: List.map_filter_def del: set_map; blast)+
    from Cons.IH [OF ok this, of i' k] show ?thesis
      using Cons.prems(4-8) j Suc by (simp add: run_calls_fst)
  qed
qed simp

lemma claimed_origin:
  assumes "challenges_ok cs" "i < length calls" "calls ! i = AuthenticateCall d c sg now t"
    "\<not> refused (fst (run_calls host cfg calls cs) ! i)"
  shows "(\<exists>a. map_of cs c = Some a \<and> now \<le> ac_expiresAt a) \<or>
         (\<exists>g < i. requested_id (calls ! g) = Some c \<and> fst (run_calls host cfg calls cs) ! g = Issued (Inr c) \<and>
            now \<le> call_time (calls ! g) + challengeExpirationMs cfg)"
  using assms
proof (induction calls arbitrary: cs i)
  case (Cons call calls)
  show ?case
  proof (cases i)
    case 0
    then have "\<not> refused (fst (run_call host cfg (AuthenticateCall d c sg now t) cs))"
      using Cons.prems(3,4) by (simp add: run_calls_fst)
    then show ?thesis using claimed_then_spent by blast
  next
    case (Suc k)
    let ?cs = "snd (run_call host cfg call cs)"
    have "(\<exists>a. map_of ?cs c = Some a \<and> now \<le> ac_expiresAt a) \<or>
         (\<exists>g < k. requested_id (calls ! g) = Some c \<and> fst (run_calls host cfg calls ?cs) ! g = Issued (Inr c) \<and>
            now \<le> call_time (calls ! g) + challengeExpirationMs cfg)"
      using Cons.IH [OF run_call_ok [OF Cons.prems(1)], of k] Cons.prems(2-4) Suc by (simp add: run_calls_fst)
    then show ?thesis
    proof (elim disjE exE conjE)
      fix a assume "map_of ?cs c = Some a" "now \<le> ac_expiresAt a"
      with run_call_entry [OF Cons.prems(1) this(1)] show ?thesis
        using Suc by (auto simp: run_calls_fst intro: exI [of _ 0])
    next
      fix g assume "g < k" "requested_id (calls ! g) = Some c"
        "fst (run_calls host cfg calls ?cs) ! g = Issued (Inr c)"
        "now \<le> call_time (calls ! g) + challengeExpirationMs cfg"
      then show ?thesis using Suc by (auto simp: run_calls_fst intro: exI [of _ "Suc g"])
    qed
  qed
qed simp

section \<open>What the service guarantees\<close>

lemma authenticate_success_cases:
  assumes "authenticate_claimed host cfg dirs c sg t a = Inr (AuthSuccess token)"
  obtains resolved keys pems key where "resolve_username dirs a = Inr resolved"
    "candidate_keys dirs a resolved = Inr keys"
    "\<forall>k. truthy (ac_signingPublicKey a) = Some k \<longrightarrow>
       normalizeSigningPublicKey k = '''' \<or> normalizeSigningPublicKey k \<in> set keys"
    "verify_pems dirs a resolved = Inr pems" "find (verifySignature host c sg) pems = Some key" "key \<noteq> ''''"
    "token = generateToken host cfg t (case ac_username a of Some u \<Rightarrow> u | None \<Rightarrow> key) key
       (key \<in> set (ku_wipeRequested (universe_of (dirs 5) resolved)))"
  using assms
  by (auto simp: authenticate_claimed_def Let_def truthy_def [of "find _ _"]
      split: sum.splits if_splits option.splits)

lemma verify_pems_cases:
  assumes "verify_pems dirs a resolved = Inr pems" "key \<in> set pems"
  shows "key \<in> set (ku_active (universe_of (dirs 3) resolved)) \<union>
           set (ku_wipeRequested (universe_of (dirs 3) resolved)) \<or>
         ku_active (universe_of (dirs 3) resolved) = [] \<and> ku_wipeRequested (universe_of (dirs 3) resolved) = [] \<and>
         ((\<exists>u k. resolved = Some u \<and> dir_getUserPublicKeys (dirs 4) u = Inr (Some k) \<and> key = up_signingPublicKey k) \<or>
          (\<forall>u. resolved = Some u \<longrightarrow> dir_getUserPublicKeys (dirs 4) u = Inr None) \<and>
          truthy (ac_signingPublicKey a) = Some key)"
proof -
  let ?ks = "ku_active (universe_of (dirs 3) resolved) @ ku_wipeRequested (universe_of (dirs 3) resolved)"
  show ?thesis
  proof (cases "?ks = []")
    case False
    then have "pems = ?ks" using assms(1) by (cases ?ks) (auto simp: verify_pems_def Let_def)
    then show ?thesis using assms(2) by auto
  next
    case True
    then show ?thesis
      using assms by (auto simp: verify_pems_def Let_def split: option.splits sum.splits)
  qed
qed

lemma map_sum_Inr: "map_sum id g s = Inr y \<longleftrightarrow> (\<exists>x. s = Inr x \<and> g x = y)"
  by (cases s) auto

lemma principal_revoked_False:
  assumes "principal_revoked dirs payload = Inr False"
  shows "case (truthy (deviceSigningKey payload), dir_getUserSigningKeyUniverse (dirs 1)) of
       (Some deviceKey, Some universeOf) \<Rightarrow>
         (\<exists>username universe. universeOf username = Inr universe \<and> deviceKey \<in> set (ku_active universe) \<and>
            dir_isUserRevoked (dirs 2) username = Inr False \<and>
            (username = sub payload \<or>
             (\<exists>f. dir_getUserBySigningPublicKey (dirs 0) = Some f \<and> f deviceKey = Inr (Some username))))
     | _ \<Rightarrow> dir_isUserRevoked (dirs 0) (sub payload) = Inr False"
proof (cases "truthy (deviceSigningKey payload)"; cases "dir_getUserSigningKeyUniverse (dirs 1)")
  fix k universeOf
  assume k: "truthy (deviceSigningKey payload) = Some k" "dir_getUserSigningKeyUniverse (dirs 1) = Some universeOf"
  obtain u universe where u: "(case dir_getUserBySigningPublicKey (dirs 0) of None \<Rightarrow> Inr (sub payload)
      | Some f \<Rightarrow> map_sum id (\<lambda>lookup. case truthy lookup of Some u \<Rightarrow> u | None \<Rightarrow> sub payload) (f k)) = Inr u"
    "universeOf u = Inr universe" "k \<in> set (ku_active universe)" "dir_isUserRevoked (dirs 2) u = Inr False"
    using assms k by (auto simp: principal_revoked_def map_sum_Inr split: sum.splits)
  have "u = sub payload \<or> (\<exists>f. dir_getUserBySigningPublicKey (dirs 0) = Some f \<and> f k = Inr (Some u))"
    using u(1) by (auto simp: map_sum_Inr truthy_def split: option.splits if_splits)
  then show ?thesis unfolding k using u by auto
qed (use assms in \<open>simp_all add: principal_revoked_def\<close>)

text \<open>
  C30. A challenge works once. In any sequence of requests and attempts whose fresh ids are
  distinct, an attempt that gets past the checks of the challenge answers an earlier request that
  issued it, comes within the lifetime of the challenge, and is the only one: every other attempt
  on the same challenge, before or after, whatever its signature and however the directory
  changes, is refused.
\<close>

theorem challenge_single_use:
  assumes "run_calls host cfg calls [] = (outs, cs)" "distinct (requested_ids calls)"
    "i < length calls" "calls ! i = AuthenticateCall dirs c sg now tokenNow" "\<not> refused (outs ! i)"
  shows "(\<exists>g < i. requested_id (calls ! g) = Some c \<and> outs ! g = Issued (Inr c) \<and>
            now \<le> call_time (calls ! g) + challengeExpirationMs cfg) \<and>
         (\<forall>j < length calls. j \<noteq> i \<and> attempts_on c (calls ! j) \<longrightarrow> refused (outs ! j))"
proof -
  have outs: "outs = fst (run_calls host cfg calls [])" by (simp add: assms(1))
  have ok: "challenges_ok []" by (simp add: challenges_ok_def)
  have "refused (outs ! j)" if "j < length calls" "j \<noteq> i" "attempts_on c (calls ! j)" for j
    using claimed_once [OF ok assms(2), of i j] claimed_once [OF ok assms(2), of j i]
      assms(3-5) that unfolding outs by (cases "i < j") auto
  then show ?thesis
    using claimed_origin [OF ok assms(3,4)] assms(5) unfolding outs by auto
qed

text \<open>
  The challenge map is bounded and keeps what is new. After any sequence of calls it holds at
  most ten thousand challenges, each once, and storing a further one under a fresh id drops
  expired challenges and then the oldest, never the new one.
\<close>

theorem challenge_map_bounded:
  assumes "cs = snd (run_calls host cfg calls [])"
  shows "length cs \<le> 10000 \<and> distinct (map_keys cs) \<and>
    (uuid \<notin> set (map_keys cs) \<and> cleanupNow \<le> now + challengeExpirationMs cfg \<longrightarrow>
       (let cs' = storeChallenge cfg uuid now cleanupNow flds cs;
            kept = filter (\<lambda>p. cleanupNow \<le> ac_expiresAt (snd p)) cs
        in cs' = drop (Suc (length kept) - 10000) kept @ [(uuid, new_challenge cfg uuid now flds)] \<and>
           map_of cs' uuid = Some (new_challenge cfg uuid now flds)))"
proof -
  have ok: "challenges_ok cs"
    unfolding assms by (rule run_calls_ok) (simp add: challenges_ok_def)
  let ?new = "(uuid, new_challenge cfg uuid now flds)"
  have "storeChallenge cfg uuid now cleanupNow flds cs =
      drop (Suc (length kept) - 10000) kept @ [?new]"
    if fresh: "uuid \<notin> set (map_keys cs)" "cleanupNow \<le> now + challengeExpirationMs cfg"
      and kept: "kept = filter (\<lambda>p. cleanupNow \<le> ac_expiresAt (snd p)) cs" for kept
  proof -
    have "cleanupExpiredChallenges cleanupNow (AList.update uuid (snd ?new) cs) = kept @ [?new]"
      using fresh by (simp add: update_fresh cleanupExpiredChallenges_def kept new_challenge_def
          case_prod_unfold not_less)
    moreover have "length kept \<le> 10000"
      unfolding kept using ok by (metis challenges_ok_def length_filter_le order_trans)
    ultimately show ?thesis using ok by (simp add: storeChallenge_eq challenges_ok_def Let_def)
  qed
  then show ?thesis
    using ok storeChallenge_newest [of cs uuid cleanupNow now cfg flds] by (auto simp: challenges_ok_def Let_def)
qed

text \<open>
  C31. Who gets a token. A successful authentication spends an unused, unexpired challenge; the
  signature over the challenge verifies under the key in the token; that key is an active or
  wipe-targeted key of the user, or, when the directory lists none, the user's primary key, or,
  when it has none either, the key the challenge was requested for. A device key named in the
  request must be among the candidates, and the wipe mark is set exactly for a wipe-targeted key.
\<close>

theorem authenticated_key_vouched:
  assumes "authenticate host cfg dirs c sg now tokenNow cs = (Inr (AuthSuccess token), cs')"
  shows "\<exists>a resolved keys key. map_of cs c = Some a \<and> \<not> ac_used a \<and> now \<le> ac_expiresAt a \<and> spent c cs' \<and>
     resolve_username dirs a = Inr resolved \<and> candidate_keys dirs a resolved = Inr keys \<and>
     (\<forall>k. truthy (ac_signingPublicKey a) = Some k \<longrightarrow>
        normalizeSigningPublicKey k = '''' \<or> normalizeSigningPublicKey k \<in> set keys) \<and>
     verifySignature host c sg key \<and>
     token = generateToken host cfg tokenNow (case ac_username a of Some u \<Rightarrow> u | None \<Rightarrow> key) key
       (key \<in> set (ku_wipeRequested (universe_of (dirs 5) resolved))) \<and>
     (key \<in> set (ku_active (universe_of (dirs 3) resolved)) \<union>
        set (ku_wipeRequested (universe_of (dirs 3) resolved)) \<or>
      ku_active (universe_of (dirs 3) resolved) = [] \<and> ku_wipeRequested (universe_of (dirs 3) resolved) = [] \<and>
      ((\<exists>u k. resolved = Some u \<and> dir_getUserPublicKeys (dirs 4) u = Inr (Some k) \<and> key = up_signingPublicKey k) \<or>
       (\<forall>u. resolved = Some u \<longrightarrow> dir_getUserPublicKeys (dirs 4) u = Inr None) \<and>
       truthy (ac_signingPublicKey a) = Some key))"
proof -
  obtain a where a: "claim_challenge now c cs = (Inr a, cs')"
    "authenticate_claimed host cfg dirs c sg tokenNow a = Inr (AuthSuccess token)"
    using assms by (auto simp: authenticate_def split: prod.splits sum.splits)
  have "spent c cs'" using a(1) by (auto simp: claim_success spent_def map_of_update)
  have claim: "map_of cs c = Some a" "\<not> ac_used a" "now \<le> ac_expiresAt a"
    using a(1) by (simp_all add: claim_success)
  obtain resolved keys pems key where r: "resolve_username dirs a = Inr resolved"
    "candidate_keys dirs a resolved = Inr keys"
    "\<forall>k. truthy (ac_signingPublicKey a) = Some k \<longrightarrow>
       normalizeSigningPublicKey k = '''' \<or> normalizeSigningPublicKey k \<in> set keys"
    "verify_pems dirs a resolved = Inr pems" "find (verifySignature host c sg) pems = Some key"
    "token = generateToken host cfg tokenNow (case ac_username a of Some u \<Rightarrow> u | None \<Rightarrow> key) key
       (key \<in> set (ku_wipeRequested (universe_of (dirs 5) resolved)))"
    by (rule authenticate_success_cases [OF a(2)])
  have key: "key \<in> set pems" "verifySignature host c sg key" using find_SomeD [OF r(5)] by simp_all
  show ?thesis
    by (intro exI [of _ a] exI [of _ resolved] exI [of _ keys] exI [of _ key] conjI)
      (fact claim \<open>spent c cs'\<close> r(1-3,6) key(2) verify_pems_cases [OF r(4) key(1)])+
qed

text \<open>
  C32. What a valid token is. An accepted token has three parts, the last of which is
  the HMAC of the first two under the service's secret; it has not expired, and,
  unless it only serves a remote wipe, its device key is still active for the user that the
  directory resolves (or, for a token without device key or a directory without key sets, its
  subject is not revoked).
\<close>

theorem validated_token_active:
  assumes "validateToken host cfg dirs nowMs token = Some payload"
  shows "(\<exists>h b s. token = h @ ''.'' @ b @ ''.'' @ s \<and>
           base64UrlToUint8Array s = Some (hmac_sha256 host (jwtSecret cfg) (utf8_encode (h @ ''.'' @ b))) \<and>
           Option.bind (base64UrlDecode b) (json_parse_payload host) = Some payload) \<and>
         nowMs div 1000 \<le> exp_time payload \<and>
         (wipe payload \<or>
          (case (truthy (deviceSigningKey payload), dir_getUserSigningKeyUniverse (dirs 1)) of
             (Some deviceKey, Some universeOf) \<Rightarrow>
               (\<exists>username universe. universeOf username = Inr universe \<and> deviceKey \<in> set (ku_active universe) \<and>
                  dir_isUserRevoked (dirs 2) username = Inr False \<and>
                  (username = sub payload \<or>
                   (\<exists>f. dir_getUserBySigningPublicKey (dirs 0) = Some f \<and> f deviceKey = Inr (Some username))))
           | _ \<Rightarrow> dir_isUserRevoked (dirs 0) (sub payload) = Inr False))"
proof -
  have verified: "verifyToken host (jwtSecret cfg) token = Some payload"
    and time: "nowMs div 1000 \<le> exp_time payload"
    and active: "wipe payload \<or> principal_revoked dirs payload = Inr False"
    using assms by (auto simp: validateToken_def split: option.splits if_splits sum.splits bool.splits)
  obtain h b s where parts: "token = h @ ''.'' @ b @ ''.'' @ s"
    "base64UrlToUint8Array s = Some (hmac_sha256 host (jwtSecret cfg) (utf8_encode (h @ ''.'' @ b)))"
    "Option.bind (base64UrlDecode b) (json_parse_payload host) = Some payload"
    by (rule verifyToken_signed [OF verified])
  show ?thesis
    by (intro conjI exI [of _ h] exI [of _ b] exI [of _ s])
      (use parts time active principal_revoked_False in \<open>blast+\<close>)
qed

section \<open>An honest device gets through\<close>

text \<open>The directory grants the user this device key, in every way the service asks for it.\<close>

definition device_granted :: "tenant_directory \<Rightarrow> string \<Rightarrow> string \<Rightarrow> key_universe \<Rightarrow> bool" where
  "device_granted dir u key universe \<longleftrightarrow>
     u \<noteq> '''' \<and> key \<noteq> '''' \<and> key \<in> set (ku_active universe) \<and> key \<notin> set (ku_wipeRequested universe) \<and>
     (case dir_getUserPublicKeys dir u of Inr (Some _) \<Rightarrow> True | _ \<Rightarrow> False) \<and>
     (case dir_getUserSigningKeyUniverse dir of Some f \<Rightarrow> f u = Inr universe | None \<Rightarrow> False) \<and>
     (case dir_getUserBySigningPublicKey dir of Some f \<Rightarrow> f key \<in> {Inr None, Inr (Some u)} | None \<Rightarrow> True) \<and>
     dir_isUserRevoked dir u = Inr False"

lemma truthy_Some [simp]: "truthy (Some s) = (if s = '''' then None else Some s)"
  by (simp add: truthy_def)

lemma js_dedup_Nil_iff: "js_dedup xs = [] \<longleftrightarrow> xs = []"
  by (metis set_empty set_js_dedup)

lemma granted_universe:
  "device_granted dir u key universe \<Longrightarrow> getSigningKeyUniverse dir u = universe"
  by (auto simp: device_granted_def getSigningKeyUniverse_def split: option.splits)

lemma granted_candidates:
  assumes "device_granted dir u key universe"
  shows "\<exists>keys. candidateSigningKeys dir dir u = Inr keys \<and> keys \<noteq> [] \<and> normalizeSigningPublicKey key \<in> set keys"
proof -
  have "ku_active universe \<noteq> []" "normalizeSigningPublicKey key \<in> normalizeSigningPublicKey ` set (ku_active universe)"
    using assms by (auto simp: device_granted_def)
  then show ?thesis
    unfolding candidateSigningKeys_def granted_universe [OF assms] by (simp add: js_dedup_Nil_iff Let_def)
qed

lemma granted_request:
  assumes "device_granted dir u key universe"
  shows "challenge_request (\<lambda>_. dir) (Some u) (Some key) = Inr (Some u, Some key)"
proof -
  have ne: "u \<noteq> ''''" "key \<noteq> ''''"
    and pk: "case dir_getUserPublicKeys dir u of Inr (Some _) \<Rightarrow> True | _ \<Rightarrow> False"
    using assms unfolding device_granted_def by blast+
  show ?thesis
    using granted_candidates [OF assms] ne pk
    by (auto simp: challenge_request_def generateChallengeForUsername_def split: sum.splits option.splits)
qed

lemma find_unique: "key \<in> set xs \<Longrightarrow> \<forall>k \<in> set xs. P k \<longleftrightarrow> k = key \<Longrightarrow> find P xs = Some key"
  by (induction xs) auto

lemma granted_authenticates:
  assumes granted: "device_granted dir u key universe"
    and sig: "\<forall>k \<in> set (ku_active universe @ ku_wipeRequested universe). verifySignature host c sg k \<longleftrightarrow> k = key"
    and a: "ac_username a = Some u" "ac_signingPublicKey a = Some key"
  shows "authenticate_claimed host cfg (\<lambda>_. dir) c sg t a =
           Inr (AuthSuccess (generateToken host cfg t u key False))"
proof -
  let ?ks = "ku_active universe @ ku_wipeRequested universe"
  have facts: "u \<noteq> ''''" "key \<noteq> ''''" "key \<in> set (ku_active universe)" "key \<notin> set (ku_wipeRequested universe)"
    using granted unfolding device_granted_def by blast+
  obtain keys where keys: "candidateSigningKeys dir dir u = Inr keys" "keys \<noteq> []"
    "normalizeSigningPublicKey key \<in> set keys"
    using granted_candidates [OF granted] by blast
  have "resolve_username (\<lambda>_. dir) a = Inr (Some u)" using a facts by (simp add: resolve_username_def)
  moreover have "candidate_keys (\<lambda>_. dir) a (Some u) = Inr keys"
    using a facts keys by (simp add: candidate_keys_def)
  moreover have "verify_pems (\<lambda>_. dir) a (Some u) = Inr ?ks"
    using facts by (cases ?ks) (auto simp: verify_pems_def universe_of_def granted_universe [OF granted] Let_def)
  moreover have "find (verifySignature host c sg) ?ks = Some key"
    using facts sig by (intro find_unique) auto
  ultimately show ?thesis
    using a facts keys by (simp add: authenticate_claimed_def universe_of_def granted_universe [OF granted])
qed

lemma granted_not_revoked:
  assumes "device_granted dir u key universe" "sub p = u" "deviceSigningKey p = Some key"
  shows "principal_revoked (\<lambda>_. dir) p = Inr False"
proof -
  obtain uf where uf: "dir_getUserSigningKeyUniverse dir = Some uf" "uf u = Inr universe"
    using assms(1) by (cases "dir_getUserSigningKeyUniverse dir") (simp_all add: device_granted_def)
  have facts: "u \<noteq> ''''" "key \<noteq> ''''" "key \<in> set (ku_active universe)" "dir_isUserRevoked dir u = Inr False"
    and lookup: "case dir_getUserBySigningPublicKey dir of
        Some f \<Rightarrow> f key \<in> {Inr None, Inr (Some u)} | None \<Rightarrow> True"
    using assms(1) unfolding device_granted_def by safe
  show ?thesis
  proof (cases "dir_getUserBySigningPublicKey dir")
    case None
    then show ?thesis using uf facts assms(2,3) by (simp add: principal_revoked_def)
  next
    case (Some f)
    then have "f key = Inr None \<or> f key = Inr (Some u)" using lookup by simp
    then show ?thesis
      using Some uf facts assms(2,3) by (elim disjE) (simp_all add: principal_revoked_def truthy_def)
  qed
qed

text \<open>
  An honest device gets through, until its key goes. When the directory grants a user a device
  key and the device signs the challenge it asked for within its lifetime, the request, the
  authentication and every validation up to the expiry of the token succeed; later validations
  fail, and so does any validation once the directory no longer lists the key as active for
  any user, whatever else changed.
\<close>

theorem device_login_works:
  assumes "device_granted dir u key universe"
    "\<forall>k \<in> set (ku_active universe @ ku_wipeRequested universe). verifySignature host uuid sg k \<longleftrightarrow> k = key"
    "challenges_ok cs" "uuid \<notin> set (map_keys cs)"
    "cleanupNow \<le> now + challengeExpirationMs cfg" "authNow \<le> now + challengeExpirationMs cfg"
    "json_roundtrips host (token_payload_for cfg tokenNow u key False)"
  shows "\<exists>cs1 cs2 token.
     generateChallenge cfg (\<lambda>_. dir) (Some u) (Some key) uuid now cleanupNow cs = (Inr uuid, cs1) \<and>
     authenticate host cfg (\<lambda>_. dir) uuid sg authNow tokenNow cs1 = (Inr (AuthSuccess token), cs2) \<and>
     (\<forall>t. validateToken host cfg (\<lambda>_. dir) t token =
        (if t div 1000 \<le> tokenNow div 1000 + tokenExpirationMs cfg div 1000
         then Some (token_payload_for cfg tokenNow u key False) else None)) \<and>
     (\<forall>dirs t universeOf. dir_getUserSigningKeyUniverse (dirs 1) = Some universeOf \<and>
        (\<forall>v un. universeOf v = Inr un \<longrightarrow> key \<notin> set (ku_active un)) \<longrightarrow>
        validateToken host cfg dirs t token = None)"
proof -
  let ?payload = "token_payload_for cfg tokenNow u key False"
  let ?token = "generateToken host cfg tokenNow u key False"
  let ?a = "new_challenge cfg uuid now (Some u, Some key)"
  define cs1 where "cs1 = storeChallenge cfg uuid now cleanupNow (Some u, Some key) cs"
  have ne: "u \<noteq> ''''" "key \<noteq> ''''" using assms(1) unfolding device_granted_def by blast+
  have "generateChallenge cfg (\<lambda>_. dir) (Some u) (Some key) uuid now cleanupNow cs = (Inr uuid, cs1)"
    by (simp add: generateChallenge_def granted_request [OF assms(1)] cs1_def)
  moreover have "map_of cs1 uuid = Some ?a"
    unfolding cs1_def using assms(3) by (intro storeChallenge_newest assms(4,5)) (simp add: challenges_ok_def)
  then have "claim_challenge authNow uuid cs1 = (Inr ?a, AList.update uuid (?a \<lparr> ac_used := True \<rparr>) cs1)"
    using assms(6) by (simp add: claim_success new_challenge_def)
  then have "\<exists>cs2. authenticate host cfg (\<lambda>_. dir) uuid sg authNow tokenNow cs1 = (Inr (AuthSuccess ?token), cs2)"
    using granted_authenticates [OF assms(1,2), of ?a] ne by (simp add: authenticate_def new_challenge_def)
  moreover have verified: "verifyToken host (jwtSecret cfg) ?token = Some ?payload"
    unfolding generateToken_def by (rule verify_sign_token [OF assms(7)])
  have payload: "sub ?payload = u" "deviceSigningKey ?payload = Some key" "\<not> wipe ?payload"
    "exp_time ?payload = tokenNow div 1000 + tokenExpirationMs cfg div 1000"
    using ne by (simp_all add: token_payload_for_def Let_def)
  have "principal_revoked (\<lambda>_. dir) ?payload = Inr False"
    by (rule granted_not_revoked [OF assms(1) payload(1,2)])
  then have "\<forall>t. validateToken host cfg (\<lambda>_. dir) t ?token =
      (if t div 1000 \<le> tokenNow div 1000 + tokenExpirationMs cfg div 1000 then Some ?payload else None)"
    using payload by (simp add: validateToken_def verified)
  moreover have "validateToken host cfg dirs t ?token = None"
    if gone: "dir_getUserSigningKeyUniverse (dirs 1) = Some universeOf"
      "\<forall>v un. universeOf v = Inr un \<longrightarrow> key \<notin> set (ku_active un)" for dirs t universeOf
  proof (rule ccontr)
    assume "validateToken host cfg dirs t ?token \<noteq> None"
    then have "principal_revoked dirs ?payload = Inr False"
      using payload by (auto simp: validateToken_def verified split: if_splits sum.splits bool.splits)
    from principal_revoked_False [OF this] show False using gone payload ne by auto
  qed
  ultimately show ?thesis by blast
qed

text \<open>
  A challenge asked for with a user name and a device key. When the directory has dropped every
  key of the user since, the service takes the named key itself as the only candidate, although
  the comment in the code reserves this for challenges without a user name, and the device still
  obtains a token.
\<close>

lemma named_key_stands_in_for_grant:
  assumes "ac_username a = Some u" "u \<noteq> ''''" "ac_signingPublicKey a = Some key" "key \<noteq> ''''"
    "getSigningKeyUniverse dir u = no_keys" "dir_getUserPublicKeys dir u = Inr None"
    "verifySignature host c sg key"
  shows "authenticate_claimed host cfg (\<lambda>_. dir) c sg t a =
           Inr (AuthSuccess (generateToken host cfg t u key False))"
proof -
  have "candidateSigningKeys dir dir u = Inr []"
    using assms by (simp add: candidateSigningKeys_def no_keys_def js_dedup_def)
  then show ?thesis
    using assms
    by (simp add: authenticate_claimed_def resolve_username_def candidate_keys_def set_add_def
        verify_pems_def universe_of_def no_keys_def)
qed

section \<open>Witnesses\<close>

text \<open>A host with transparent primitives, a directory with one user and one active key, and a login.\<close>

definition sample_key :: string where
  "sample_key = ''-----BEGIN PUBLIC KEY-----AQID-----END PUBLIC KEY-----''"

definition sample_cfg :: auth_config where
  "sample_cfg = make_config ''t1'' [] (Some [7, 7]) None None"

definition sample_host :: auth_host where
  "sample_host =
     \<lparr> json_header = \<lambda>alg typ. alg @ typ,
       json_parse_alg = \<lambda>s. (if s = ''HS256JWT'' then Some (Some ''HS256'') else None),
       json_payload = \<lambda>p. ''payload'',
       json_parse_payload = \<lambda>s. Some (token_payload_for sample_cfg 2000 ''alice'' sample_key False),
       hmac_sha256 = \<lambda>secret msg. secret @ msg,
       ed25519_verify = \<lambda>keyData signature msg. Some (signature = keyData @ msg) \<rparr>"

definition sample_universe :: key_universe where
  "sample_universe = \<lparr> ku_active = [sample_key], ku_wipeRequested = [] \<rparr>"

definition sample_dir :: tenant_directory where
  "sample_dir =
     \<lparr> dir_getUserPublicKeys = \<lambda>u. Inr (if u = ''alice'' then Some \<lparr> up_signingPublicKey = sample_key, up_encryptionPublicKey = ''e'' \<rparr> else None),
       dir_isUserRevoked = \<lambda>u. Inr (u \<noteq> ''alice''),
       dir_getUserSigningKeyUniverse = Some (\<lambda>u. Inr (if u = ''alice'' then sample_universe else no_keys)),
       dir_getUserBySigningPublicKey = Some (\<lambda>k. Inr (if k = sample_key then Some ''alice'' else None)) \<rparr>"

definition sample_signature :: bytes where
  "sample_signature = [1, 2, 3, 99, 49]"

definition sample_calls :: "auth_call list" where
  "sample_calls =
     [GenerateCall (\<lambda>_. sample_dir) (Some ''alice'') (Some sample_key) ''c1'' 1000 1000,
      AuthenticateCall (\<lambda>_. sample_dir) ''c1'' sample_signature 1500 2000,
      AuthenticateCall (\<lambda>_. sample_dir) ''c1'' sample_signature 1600 2000]"

definition sample_token :: string where
  "sample_token = generateToken sample_host sample_cfg 2000 ''alice'' sample_key False"

lemma sample_outcomes:
  "fst (run_calls sample_host sample_cfg sample_calls []) =
     [Issued (Inr ''c1''), Answered (Inr (AuthSuccess sample_token)),
      Answered (Inr (AuthFailure ChallengeAlreadyUsed))]"
  by code_simp

theorem challenge_single_use_witness:
  "refused (fst (run_calls sample_host sample_cfg sample_calls []) ! 2)"
proof -
  have "distinct (requested_ids sample_calls)" "1 < length sample_calls"
    by (simp_all add: sample_calls_def requested_ids_Cons)
  moreover have "sample_calls ! 1 = AuthenticateCall (\<lambda>_. sample_dir) ''c1'' sample_signature 1500 2000"
    by (simp add: sample_calls_def)
  moreover have "\<not> refused (fst (run_calls sample_host sample_cfg sample_calls []) ! 1)"
    by (auto simp: sample_outcomes refused_def)
  ultimately have "\<forall>j < length sample_calls. j \<noteq> 1 \<and> attempts_on ''c1'' (sample_calls ! j) \<longrightarrow>
      refused (fst (run_calls sample_host sample_cfg sample_calls []) ! j)"
    using challenge_single_use [of sample_host sample_cfg sample_calls _ _ 1] by (metis surjective_pairing)
  then show ?thesis by (simp add: sample_calls_def)
qed

theorem challenge_map_bounded_witness:
  "map_of (storeChallenge sample_cfg ''c2'' 5000 5000 (Some ''alice'', None)
      (snd (run_calls sample_host sample_cfg sample_calls []))) ''c2'' =
     Some (new_challenge sample_cfg ''c2'' 5000 (Some ''alice'', None))"
proof -
  have "''c2'' \<notin> set (map_keys (snd (run_calls sample_host sample_cfg sample_calls [])))" by code_simp
  moreover have "(5000 :: int) \<le> 5000 + challengeExpirationMs sample_cfg" by code_simp
  ultimately show ?thesis
    using challenge_map_bounded [OF refl, of sample_host sample_cfg sample_calls "''c2''" 5000 5000 "(Some ''alice'', None)"]
    unfolding Let_def by blast
qed

theorem authenticated_key_vouched_witness:
  "\<exists>a. map_of (snd (run_calls sample_host sample_cfg (take 1 sample_calls) [])) ''c1'' = Some a \<and>
     \<not> ac_used a \<and> 1500 \<le> ac_expiresAt a"
proof -
  let ?cs = "snd (run_calls sample_host sample_cfg (take 1 sample_calls) [])"
  let ?r = "authenticate sample_host sample_cfg (\<lambda>_. sample_dir) ''c1'' sample_signature 1500 2000 ?cs"
  have "fst ?r = Inr (AuthSuccess sample_token)" by code_simp
  then have "?r = (Inr (AuthSuccess sample_token), snd ?r)" by (metis prod.collapse)
  from authenticated_key_vouched [OF this] show ?thesis by blast
qed

theorem validated_token_active_witness:
  "\<exists>h b s. sample_token = h @ ''.'' @ b @ ''.'' @ s \<and>
     base64UrlToUint8Array s = Some (hmac_sha256 sample_host [7, 7] (utf8_encode (h @ ''.'' @ b)))"
proof -
  have "validateToken sample_host sample_cfg (\<lambda>_. sample_dir) 9000 sample_token =
      Some (token_payload_for sample_cfg 2000 ''alice'' sample_key False)"
    by code_simp
  note validated_token_active [OF this, THEN conjunct1]
  moreover have "jwtSecret sample_cfg = [7, 7]" by (simp add: sample_cfg_def make_config_def)
  ultimately show ?thesis by auto
qed

theorem device_login_works_witness:
  "\<exists>cs1 cs2 token.
     generateChallenge sample_cfg (\<lambda>_. sample_dir) (Some ''alice'') (Some sample_key) ''c1'' 1000 1000 [] = (Inr ''c1'', cs1) \<and>
     authenticate sample_host sample_cfg (\<lambda>_. sample_dir) ''c1'' sample_signature 1500 2000 cs1 =
       (Inr (AuthSuccess token), cs2) \<and>
     validateToken sample_host sample_cfg (\<lambda>_. sample_dir) 9000 token =
       Some (token_payload_for sample_cfg 2000 ''alice'' sample_key False)"
proof -
  have "device_granted sample_dir ''alice'' sample_key sample_universe" by code_simp
  moreover have "\<forall>k \<in> set (ku_active sample_universe @ ku_wipeRequested sample_universe).
      verifySignature sample_host ''c1'' sample_signature k \<longleftrightarrow> k = sample_key" by code_simp
  moreover have "challenges_ok []" "''c1'' \<notin> set (map_keys ([] :: challenges))" by (simp_all add: challenges_ok_def)
  moreover have "(1000 :: int) \<le> 1000 + challengeExpirationMs sample_cfg"
    "(1500 :: int) \<le> 1000 + challengeExpirationMs sample_cfg"
    by (simp_all add: sample_cfg_def make_config_def or_default_def)
  moreover have "json_roundtrips sample_host (token_payload_for sample_cfg 2000 ''alice'' sample_key False)"
    by (simp add: json_roundtrips_def sample_host_def)
  moreover have "(9000 :: int) div 1000 \<le> 2000 div 1000 + tokenExpirationMs sample_cfg div 1000" by code_simp
  ultimately show ?thesis
    using device_login_works [of sample_dir "''alice''" sample_key sample_universe sample_host "''c1''" sample_signature
        "[]" 1000 1000 sample_cfg 1500 2000] by (smt (verit, best))
qed

end
