(* ===== verification/Expressions.thy ===== *)
theory Expressions
  imports JsValue "HOL-Library.Sublist"
begin

text \<open>
  The expression language of views and queries (\<^verbatim>\<open>core/expressions/types.ts\<close>,
  \<^verbatim>\<open>evaluateExpression.ts\<close>): the syntax tree, its evaluation, the walker and what it
  collects.

  What the language runtime decides is the record \<open>js_runtime\<close>: inherited properties, the text
  of a number and the number of a text, upper case (which leaves the model's code units), the
  calendar, \<^verbatim>\<open>JSON.parse\<close>, and whether two objects are the same object. Numbers are finite,
  hence rationals, and arithmetic on them is exact; \<^verbatim>\<open>Date\<close> objects are not values of the model.
\<close>

section \<open>Conversions of the language\<close>

record js_runtime =
  rt_proto :: "js_value \<Rightarrow> string \<Rightarrow> js_value"
  rt_num_string :: "rat \<Rightarrow> string"
  rt_string_num :: "string \<Rightarrow> rat option"
  rt_upper :: "string \<Rightarrow> string"
  rt_date :: "js_value \<Rightarrow> (int \<times> nat \<times> nat) option"
  rt_json_parse :: "string \<Rightarrow> js_value option"
  rt_same_object :: "js_value \<Rightarrow> js_value \<Rightarrow> bool"

definition js_trim :: "string \<Rightarrow> string" where
  "js_trim s = rev (dropWhile js_space (rev (dropWhile js_space s)))"

text \<open>\<^verbatim>\<open>toLowerCase\<close> on code units below 256.\<close>

definition lower_char :: "char \<Rightarrow> char" where
  "lower_char c = (let k = of_char c :: nat
     in if 65 \<le> k \<and> k \<le> 90 \<or> 192 \<le> k \<and> k \<le> 222 \<and> k \<noteq> 215 then char_of (k + 32) else c)"

definition js_lower :: "string \<Rightarrow> string" where
  "js_lower s = map lower_char s"

definition js_join :: "string \<Rightarrow> string list \<Rightarrow> string" where
  "js_join sep ws = (case ws of [] \<Rightarrow> [] | w # rest \<Rightarrow> w @ concat (map (\<lambda>x. sep @ x) rest))"

definition js_nullish :: "js_value \<Rightarrow> bool" where
  "js_nullish v \<longleftrightarrow> v = JNull \<or> v = JUndefined"

text \<open>\<^verbatim>\<open>String(v)\<close>; an element of an array that is null or undefined joins as the empty string.\<close>

fun js_to_string :: "js_runtime \<Rightarrow> js_value \<Rightarrow> string" where
  "js_to_string rt JUndefined = ''undefined''"
| "js_to_string rt JNull = ''null''"
| "js_to_string rt (JBool b) = (if b then ''true'' else ''false'')"
| "js_to_string rt (JNum n) = rt_num_string rt n"
| "js_to_string rt (JStr s) = s"
| "js_to_string rt (JFun t) = t"
| "js_to_string rt (JArr xs) =
     js_join '','' (map (\<lambda>x. if js_nullish x then [] else js_to_string rt x) xs)"
| "js_to_string rt (JObj ps) = ''[object Object]''"

text \<open>\<^verbatim>\<open>String(v ?? "")\<close>\<close>

definition js_text :: "js_runtime \<Rightarrow> js_value \<Rightarrow> string" where
  "js_text rt v = (if js_nullish v then '''' else js_to_string rt v)"

definition js_identical :: "js_runtime \<Rightarrow> js_value \<Rightarrow> js_value \<Rightarrow> bool" where
  "js_identical rt a b =
     (if js_primitive a \<or> js_primitive b then a = b else rt_same_object rt a b)"

fun expressionToNumber :: "js_runtime \<Rightarrow> js_value \<Rightarrow> rat option" where
  "expressionToNumber rt (JNum n) = Some n"
| "expressionToNumber rt (JStr s) = (if js_trim s \<noteq> [] then rt_string_num rt s else None)"
| "expressionToNumber rt _ = None"

fun expressionToBoolean :: "js_value \<Rightarrow> bool" where
  "expressionToBoolean (JBool b) = b"
| "expressionToBoolean (JNum n) = (n \<noteq> 0)"
| "expressionToBoolean (JStr s) =
     (let normalized = js_lower (js_trim s)
      in normalized \<noteq> '''' \<and> normalized \<noteq> ''false'' \<and> normalized \<noteq> ''0'' \<and> normalized \<noteq> ''no'')"
| "expressionToBoolean JUndefined = False"
| "expressionToBoolean JNull = False"
| "expressionToBoolean _ = True"

text \<open>A property path; every step needs an object that has the next property.\<close>

definition getFieldValue :: "js_runtime \<Rightarrow> js_value \<Rightarrow> string \<Rightarrow> js_value" where
  "getFieldValue rt source path =
     (if path = '''' then JUndefined
      else foldl (member_get (rt_proto rt)) source (split_on (CHR ''.'') path))"

text \<open>\<^verbatim>\<open>Math.max(0, Math.trunc(by))\<close>\<close>

definition slice_count :: "rat \<Rightarrow> nat" where
  "slice_count n = nat \<lfloor>n\<rfloor>"

text \<open>\<^verbatim>\<open>text.indexOf(d)\<close> and \<^verbatim>\<open>text.lastIndexOf(d)\<close>, \<open>None\<close> for \<open>-1\<close>.\<close>

definition js_indexOf :: "string \<Rightarrow> string \<Rightarrow> nat option" where
  "js_indexOf text d = find (\<lambda>i. prefix d (drop i text)) [0..<Suc (length text)]"

definition js_lastIndexOf :: "string \<Rightarrow> string \<Rightarrow> nat option" where
  "js_lastIndexOf text d = find (\<lambda>i. prefix d (drop i text)) (rev [0..<Suc (length text)])"

definition leftString :: "js_runtime \<Rightarrow> js_value \<Rightarrow> js_value \<Rightarrow> string" where
  "leftString rt v by' =
     (let text = js_text rt v
      in case by' of
           JNum n \<Rightarrow> take (slice_count n) text
         | _ \<Rightarrow> (case js_indexOf text (js_text rt by') of None \<Rightarrow> text | Some i \<Rightarrow> take i text))"

definition rightString :: "js_runtime \<Rightarrow> js_value \<Rightarrow> js_value \<Rightarrow> string" where
  "rightString rt v by' =
     (let text = js_text rt v
      in case by' of
           JNum n \<Rightarrow> (if slice_count n = 0 then '''' else drop (length text - slice_count n) text)
         | _ \<Rightarrow> (let delimiter = js_text rt by'
                in case js_lastIndexOf text delimiter of
                     None \<Rightarrow> text | Some i \<Rightarrow> drop (i + length delimiter) text))"

text \<open>The remainder \<^verbatim>\<open>%\<close> truncates towards zero.\<close>

definition js_remainder :: "rat \<Rightarrow> rat \<Rightarrow> rat" where
  "js_remainder a b = a - b * of_int (if a / b < 0 then \<lceil>a / b\<rceil> else \<lfloor>a / b\<rfloor>)"

section \<open>The syntax tree\<close>

datatype date_part = Year | Month | Day | Quarter

datatype expr_op =
    Op_createdAt | Op_lastModifiedAt | Op_decryptionKeyId | Op_isWitnessed | Op_isAwaitingWitness
  | Op_attachmentNames | Op_attachmentLengths | Op_attachmentCount
  | Op_childCount | Op_childCategoryCount | Op_childDocumentCount
  | Op_descendantCount | Op_descendantCategoryCount | Op_descendantDocumentCount | Op_siblingCount
  | Op_add | Op_sub | Op_mul | Op_div | Op_mod
  | Op_eq | Op_neq | Op_gt | Op_gte | Op_lt | Op_lte
  | Op_and | Op_or | Op_not
  | Op_concat | Op_lower | Op_upper | Op_trim | Op_left | Op_right
  | Op_number | Op_string | Op_boolean | Op_contains | Op_startsWith | Op_endsWith
  | Op_coalesce | Op_exists | Op_notExists | Op_pathJoin | Op_datePart

datatype expr =
    Literal js_value
  | Field string
  | ValueRef string
  | Origin
  | Variable string
  | Operation expr_op "expr list" "date_part option"
  | IfElse expr expr expr
  | LetIn "(string \<times> expr) list" expr
  | Decrypt string "expr option" bool "string option"
  | JsonField string "string option"

text \<open>
  The context of an evaluation. \<^verbatim>\<open>null\<close> and \<^verbatim>\<open>undefined\<close> are alike for the optional members;
  the counts are a partial map from the names of the view operations.
\<close>

record eval_context =
  ec_doc :: js_object
  ec_values :: js_object
  ec_origin :: string
  ec_createdAt :: "string option"
  ec_lastModifiedAt :: "string option"
  ec_decryptionKeyId :: "string option"
  ec_witnessed :: "bool option"
  ec_awaitingWitness :: "bool option"
  ec_counts :: "(expr_op, rat) jsmap"
  ec_variables :: js_object
  ec_decrypted :: "js_object option"

section \<open>Evaluation\<close>

definition VIEW_CONTEXT_OPERATIONS :: "expr_op list" where
  "VIEW_CONTEXT_OPERATIONS =
     [Op_childCount, Op_childCategoryCount, Op_childDocumentCount, Op_descendantCount,
      Op_descendantCategoryCount, Op_descendantDocumentCount, Op_siblingCount]"

definition ATTACHMENT_OPERATIONS :: "expr_op list" where
  "ATTACHMENT_OPERATIONS = [Op_attachmentNames, Op_attachmentLengths, Op_attachmentCount]"

definition getAttachmentList :: "js_runtime \<Rightarrow> js_object \<Rightarrow> js_value list" where
  "getAttachmentList rt doc =
     (case js_array (member_get (rt_proto rt) (JObj doc) ''_attachments'') of
        Some xs \<Rightarrow> xs | None \<Rightarrow> [])"

definition getViewRowCount :: "eval_context \<Rightarrow> expr_op \<Rightarrow> rat" where
  "getViewRowCount ctx key = (case map_of (ec_counts ctx) key of Some n \<Rightarrow> n | None \<Rightarrow> 0)"

definition arg :: "js_value list \<Rightarrow> nat \<Rightarrow> js_value" where
  "arg args i = (if i < length args then args ! i else JUndefined)"

definition or_null :: "string option \<Rightarrow> js_value" where
  "or_null v = (case v of Some s \<Rightarrow> JStr s | None \<Rightarrow> JNull)"

definition absent :: "js_value \<Rightarrow> bool" where
  "absent v \<longleftrightarrow> v = JNull \<or> v = JUndefined \<or> v = JStr ''''"

text \<open>Numbers of one or two digits, and \<^verbatim>\<open>padStart(2, "0")\<close>.\<close>

definition two_digits :: "nat \<Rightarrow> string" where
  "two_digits n = [char_of (48 + n div 10), char_of (48 + n mod 10)]"

definition date_part_of :: "(int \<times> nat \<times> nat) option \<Rightarrow> date_part option \<Rightarrow> js_value" where
  "date_part_of date part =
     (case date of
        None \<Rightarrow> JNull
      | Some (year, month, day) \<Rightarrow>
          (case part of
             Some Year \<Rightarrow> JNum (of_int year)
           | Some Month \<Rightarrow> JStr (two_digits month)
           | Some Day \<Rightarrow> JStr (two_digits day)
           | Some Quarter \<Rightarrow> JStr [CHR ''Q'', char_of (48 + (month + 2) div 3)]
           | None \<Rightarrow> JNull))"

definition toDate :: "js_runtime \<Rightarrow> js_value \<Rightarrow> (int \<times> nat \<times> nat) option" where
  "toDate rt v = (case v of JNum _ \<Rightarrow> rt_date rt v | JStr _ \<Rightarrow> rt_date rt v | _ \<Rightarrow> None)"

definition num_or0 :: "js_runtime \<Rightarrow> js_value \<Rightarrow> rat" where
  "num_or0 rt v = (case expressionToNumber rt v of Some n \<Rightarrow> n | None \<Rightarrow> 0)"

definition divided :: "js_runtime \<Rightarrow> (rat \<Rightarrow> rat \<Rightarrow> rat) \<Rightarrow> js_value \<Rightarrow> js_value \<Rightarrow> js_value" where
  "divided rt f a b =
     (case expressionToNumber rt b of
        Some divisor \<Rightarrow> if divisor \<noteq> 0 then JNum (f (num_or0 rt a) divisor) else JNull
      | None \<Rightarrow> JNull)"

definition apply_operation ::
  "js_runtime \<Rightarrow> eval_context \<Rightarrow> expr_op \<Rightarrow> date_part option \<Rightarrow> js_value list \<Rightarrow> js_value" where
  "apply_operation rt ctx op part args =
     (case op of
        Op_createdAt \<Rightarrow> or_null (ec_createdAt ctx)
      | Op_lastModifiedAt \<Rightarrow> or_null (ec_lastModifiedAt ctx)
      | Op_decryptionKeyId \<Rightarrow> or_null (ec_decryptionKeyId ctx)
      | Op_isWitnessed \<Rightarrow> JBool (ec_witnessed ctx = Some True)
      | Op_isAwaitingWitness \<Rightarrow> JBool (ec_awaitingWitness ctx = Some True)
      | Op_attachmentNames \<Rightarrow>
          JArr (filter (\<lambda>v. js_string v \<noteq> None)
            (map (\<lambda>a. member_get (rt_proto rt) a ''fileName'') (getAttachmentList rt (ec_doc ctx))))
      | Op_attachmentLengths \<Rightarrow>
          JArr (filter (\<lambda>v. js_number v \<noteq> None)
            (map (\<lambda>a. member_get (rt_proto rt) a ''size'') (getAttachmentList rt (ec_doc ctx))))
      | Op_attachmentCount \<Rightarrow> JNum (of_nat (length (getAttachmentList rt (ec_doc ctx))))
      | Op_add \<Rightarrow> JNum (num_or0 rt (arg args 0) + num_or0 rt (arg args 1))
      | Op_sub \<Rightarrow> JNum (num_or0 rt (arg args 0) - num_or0 rt (arg args 1))
      | Op_mul \<Rightarrow> JNum (num_or0 rt (arg args 0) * num_or0 rt (arg args 1))
      | Op_div \<Rightarrow> divided rt (\<lambda>a b. a / b) (arg args 0) (arg args 1)
      | Op_mod \<Rightarrow> divided rt js_remainder (arg args 0) (arg args 1)
      | Op_eq \<Rightarrow> JBool (js_identical rt (arg args 0) (arg args 1))
      | Op_neq \<Rightarrow> JBool (\<not> js_identical rt (arg args 0) (arg args 1))
      | Op_gt \<Rightarrow> JBool (js_text rt (arg args 0) > js_text rt (arg args 1))
      | Op_gte \<Rightarrow> JBool (js_text rt (arg args 0) \<ge> js_text rt (arg args 1))
      | Op_lt \<Rightarrow> JBool (js_text rt (arg args 0) < js_text rt (arg args 1))
      | Op_lte \<Rightarrow> JBool (js_text rt (arg args 0) \<le> js_text rt (arg args 1))
      | Op_and \<Rightarrow> JBool (list_all expressionToBoolean args)
      | Op_or \<Rightarrow> JBool (list_ex expressionToBoolean args)
      | Op_not \<Rightarrow> JBool (\<not> expressionToBoolean (arg args 0))
      | Op_concat \<Rightarrow> JStr (concat (map (js_to_string rt) (filter (\<lambda>p. \<not> absent p) args)))
      | Op_lower \<Rightarrow> JStr (js_lower (js_text rt (arg args 0)))
      | Op_upper \<Rightarrow> JStr (rt_upper rt (js_text rt (arg args 0)))
      | Op_trim \<Rightarrow> JStr (js_trim (js_text rt (arg args 0)))
      | Op_left \<Rightarrow> JStr (leftString rt (arg args 0) (arg args 1))
      | Op_right \<Rightarrow> JStr (rightString rt (arg args 0) (arg args 1))
      | Op_number \<Rightarrow> (case expressionToNumber rt (arg args 0) of Some n \<Rightarrow> JNum n | None \<Rightarrow> JNull)
      | Op_string \<Rightarrow> JStr (js_text rt (arg args 0))
      | Op_boolean \<Rightarrow> JBool (expressionToBoolean (arg args 0))
      | Op_contains \<Rightarrow>
          JBool (str_includes (js_lower (js_text rt (arg args 0))) (js_lower (js_text rt (arg args 1))))
      | Op_startsWith \<Rightarrow>
          JBool (prefix (js_lower (js_text rt (arg args 1))) (js_lower (js_text rt (arg args 0))))
      | Op_endsWith \<Rightarrow>
          JBool (suffix (js_lower (js_text rt (arg args 1))) (js_lower (js_text rt (arg args 0))))
      | Op_coalesce \<Rightarrow> (case find (\<lambda>v. \<not> absent v) args of Some v \<Rightarrow> v | None \<Rightarrow> JUndefined)
      | Op_exists \<Rightarrow> JBool (\<not> absent (arg args 0))
      | Op_notExists \<Rightarrow> JBool (absent (arg args 0))
      | Op_pathJoin \<Rightarrow>
          JStr (js_join [char_of (92 :: nat)] (filter (\<lambda>s. s \<noteq> '''') (map (\<lambda>p. js_trim (js_text rt p)) args)))
      | Op_datePart \<Rightarrow> date_part_of (toDate rt (arg args 0)) part
      | _ \<Rightarrow> JNum (getViewRowCount ctx op))"

definition parseAndExtract :: "js_runtime \<Rightarrow> js_value \<Rightarrow> string option \<Rightarrow> js_value" where
  "parseAndExtract rt v path =
     (if js_nullish v then JNull
      else case (case v of JStr s \<Rightarrow> rt_json_parse rt s | _ \<Rightarrow> Some v) of
        None \<Rightarrow> JNull
      | Some parsed \<Rightarrow>
          (case path of
             None \<Rightarrow> parsed
           | Some p \<Rightarrow>
               (if p = '''' then parsed
                else if js_is_object parsed then getFieldValue rt parsed p else JUndefined)))"

definition decrypted_value :: "js_runtime \<Rightarrow> eval_context \<Rightarrow> string \<Rightarrow> js_value" where
  "decrypted_value rt ctx field =
     (case ec_decrypted ctx of
        None \<Rightarrow> JNull
      | Some d \<Rightarrow> (let v = member_get (rt_proto rt) (JObj d) field in if js_nullish v then JNull else v))"

fun evaluateExpression :: "js_runtime \<Rightarrow> eval_context \<Rightarrow> expr \<Rightarrow> js_value"
and eval_bindings :: "js_runtime \<Rightarrow> eval_context \<Rightarrow> (string \<times> expr) list \<Rightarrow> js_object" where
  "evaluateExpression rt ctx (Literal v) = v"
| "evaluateExpression rt ctx (Field path) = getFieldValue rt (JObj (ec_doc ctx)) path"
| "evaluateExpression rt ctx (ValueRef path) = getFieldValue rt (JObj (ec_values ctx)) path"
| "evaluateExpression rt ctx Origin = JStr (ec_origin ctx)"
| "evaluateExpression rt ctx (Variable name) = member_get (rt_proto rt) (JObj (ec_variables ctx)) name"
| "evaluateExpression rt ctx (Operation op args part) =
     apply_operation rt ctx op part (map (evaluateExpression rt ctx) args)"
| "evaluateExpression rt ctx (IfElse condition whenTrue whenFalse) =
     (if expressionToBoolean (evaluateExpression rt ctx condition)
      then evaluateExpression rt ctx whenTrue else evaluateExpression rt ctx whenFalse)"
| "evaluateExpression rt ctx (LetIn bindings result) =
     evaluateExpression rt (ctx \<lparr> ec_variables := eval_bindings rt ctx bindings \<rparr>) result"
| "evaluateExpression rt ctx (Decrypt field key json path) =
     (if json then parseAndExtract rt (decrypted_value rt ctx field) path else decrypted_value rt ctx field)"
| "evaluateExpression rt ctx (JsonField field path) =
     parseAndExtract rt (getFieldValue rt (JObj (ec_doc ctx)) field) path"
| "eval_bindings rt ctx [] = ec_variables ctx"
| "eval_bindings rt ctx ((name, e) # bindings) =
     eval_bindings rt
       (ctx \<lparr> ec_variables := AList.update name (evaluateExpression rt ctx e) (ec_variables ctx) \<rparr>) bindings"

section \<open>Walking an expression\<close>

fun walkExpression :: "expr \<Rightarrow> expr list" where
  "walkExpression (Operation op args part) = Operation op args part # concat (map walkExpression args)"
| "walkExpression (IfElse c t f) = IfElse c t f # walkExpression c @ walkExpression t @ walkExpression f"
| "walkExpression (LetIn bindings r) =
     LetIn bindings r # concat (map (\<lambda>p. walkExpression (snd p)) bindings) @ walkExpression r"
| "walkExpression (Decrypt field key json path) =
     Decrypt field key json path # (case key of None \<Rightarrow> [] | Some k \<Rightarrow> walkExpression k)"
| "walkExpression e = [e]"

fun decrypt_request :: "expr \<Rightarrow> (string \<times> expr option) option" where
  "decrypt_request (Decrypt field key json path) = Some (field, key)"
| "decrypt_request _ = None"

definition collectDecryptRequests :: "expr \<Rightarrow> (string \<times> expr option) list" where
  "collectDecryptRequests e = List.map_filter decrypt_request (walkExpression e)"

fun referenced_path :: "expr \<Rightarrow> string option" where
  "referenced_path (Field path) = Some path"
| "referenced_path (JsonField field path) = Some field"
| "referenced_path (Operation op args part) =
     (if op \<in> set ATTACHMENT_OPERATIONS then Some ''_attachments'' else None)"
| "referenced_path _ = None"

definition getReferencedFields :: "expr \<Rightarrow> string list" where
  "getReferencedFields e = js_dedup (List.map_filter referenced_path (walkExpression e))"

fun view_operation :: "expr \<Rightarrow> expr_op option" where
  "view_operation (Operation op args part) = (if op \<in> set VIEW_CONTEXT_OPERATIONS then Some op else None)"
| "view_operation _ = None"

record expression_requirements =
  needsDecryption :: bool
  needsViewContext :: bool
  viewContextOperations :: "expr_op list"

definition analyzeExpressionRequirements :: "expr \<Rightarrow> expression_requirements" where
  "analyzeExpressionRequirements e =
     (let ops = js_dedup (List.map_filter view_operation (walkExpression e))
      in \<lparr> needsDecryption = list_ex (\<lambda>n. decrypt_request n \<noteq> None) (walkExpression e),
           needsViewContext = 0 < length ops,
           viewContextOperations = ops \<rparr>)"

section \<open>What an evaluation depends on\<close>

definition uses_operation :: "expr_op \<Rightarrow> expr \<Rightarrow> bool" where
  "uses_operation op e = list_ex (\<lambda>n. case n of Operation op' _ _ \<Rightarrow> op' = op | _ \<Rightarrow> False) (walkExpression e)"

text \<open>Two contexts give one operation the same result, apart from its arguments.\<close>

definition operation_agrees :: "js_runtime \<Rightarrow> eval_context \<Rightarrow> eval_context \<Rightarrow> expr_op \<Rightarrow> bool" where
  "operation_agrees rt c1 c2 op \<longleftrightarrow>
     (op \<in> set ATTACHMENT_OPERATIONS \<longrightarrow> getAttachmentList rt (ec_doc c1) = getAttachmentList rt (ec_doc c2)) \<and>
     (op \<in> set VIEW_CONTEXT_OPERATIONS \<longrightarrow> ec_counts c1 = ec_counts c2) \<and>
     (op = Op_createdAt \<longrightarrow> ec_createdAt c1 = ec_createdAt c2) \<and>
     (op = Op_lastModifiedAt \<longrightarrow> ec_lastModifiedAt c1 = ec_lastModifiedAt c2) \<and>
     (op = Op_decryptionKeyId \<longrightarrow> ec_decryptionKeyId c1 = ec_decryptionKeyId c2) \<and>
     (op = Op_isWitnessed \<longrightarrow> ec_witnessed c1 = ec_witnessed c2) \<and>
     (op = Op_isAwaitingWitness \<longrightarrow> ec_awaitingWitness c1 = ec_awaitingWitness c2)"

lemma apply_operation_agrees:
  "operation_agrees rt c1 c2 op \<Longrightarrow> apply_operation rt c1 op part args = apply_operation rt c2 op part args"
  by (cases op) (simp_all add: operation_agrees_def apply_operation_def ATTACHMENT_OPERATIONS_def
      VIEW_CONTEXT_OPERATIONS_def getViewRowCount_def)

fun node_agrees :: "js_runtime \<Rightarrow> eval_context \<Rightarrow> eval_context \<Rightarrow> expr \<Rightarrow> bool" where
  "node_agrees rt c1 c2 (Field path) \<longleftrightarrow>
     getFieldValue rt (JObj (ec_doc c1)) path = getFieldValue rt (JObj (ec_doc c2)) path"
| "node_agrees rt c1 c2 (JsonField field path) \<longleftrightarrow>
     getFieldValue rt (JObj (ec_doc c1)) field = getFieldValue rt (JObj (ec_doc c2)) field"
| "node_agrees rt c1 c2 (Decrypt field key json path) \<longleftrightarrow>
     decrypted_value rt c1 field = decrypted_value rt c2 field"
| "node_agrees rt c1 c2 (Operation op args part) \<longleftrightarrow> operation_agrees rt c1 c2 op"
| "node_agrees rt c1 c2 _ \<longleftrightarrow> True"

lemma node_agrees_variables [simp]:
  "node_agrees rt (c1 \<lparr> ec_variables := v1 \<rparr>) (c2 \<lparr> ec_variables := v2 \<rparr>) n = node_agrees rt c1 c2 n"
  by (cases n) (simp_all add: operation_agrees_def decrypted_value_def)

definition same_frame :: "eval_context \<Rightarrow> eval_context \<Rightarrow> bool" where
  "same_frame c1 c2 \<longleftrightarrow> ec_values c1 = ec_values c2 \<and> ec_origin c1 = ec_origin c2 \<and>
     ec_variables c1 = ec_variables c2"

lemma evaluation_agrees:
  "same_frame c1 c2 \<Longrightarrow> \<forall>n \<in> set (walkExpression e). node_agrees rt c1 c2 n \<Longrightarrow>
     evaluateExpression rt c1 e = evaluateExpression rt c2 e"
  "same_frame c1 c2 \<Longrightarrow> \<forall>(x, e) \<in> set bs. \<forall>n \<in> set (walkExpression e). node_agrees rt c1 c2 n \<Longrightarrow>
     eval_bindings rt c1 bs = eval_bindings rt c2 bs"
proof (induction rt c1 e and rt c1 bs arbitrary: c2 and c2 rule: evaluateExpression_eval_bindings.induct)
  case (6 rt c1 op args part)
  have "map (evaluateExpression rt c1) args = map (evaluateExpression rt c2) args"
    using 6 by auto
  moreover have "operation_agrees rt c1 c2 op" using 6(3) by simp
  ultimately show ?case by (simp only: evaluateExpression.simps apply_operation_agrees)
next
  case (8 rt c1 bindings result)
  have "\<forall>(x, e) \<in> set bindings. \<forall>n \<in> set (walkExpression e). node_agrees rt c1 c2 n"
    using 8(4) by fastforce
  with 8(1,3) have "eval_bindings rt c1 bindings = eval_bindings rt c2 bindings" by blast
  then show ?case using 8(2) [of "c2 \<lparr> ec_variables := eval_bindings rt c2 bindings \<rparr>"] 8(3,4)
    by (simp add: same_frame_def)
next
  case (12 rt c1 name e bindings)
  have "evaluateExpression rt c1 e = evaluateExpression rt c2 e" by (rule 12(1)) (use 12(3,4) in auto)
  then show ?case
    using 12(2) [of "c2 \<lparr> ec_variables := AList.update name (evaluateExpression rt c2 e) (ec_variables c2) \<rparr>"] 12(3,4)
    by (simp add: same_frame_def)
qed (simp_all add: same_frame_def)

lemma getFieldValue_top: "CHR ''.'' \<notin> set f \<Longrightarrow> f \<noteq> '''' \<Longrightarrow> getFieldValue rt src f = member_get (rt_proto rt) src f"
proof -
  have "c \<notin> set w \<Longrightarrow> split_on c w = [w]" for c and w :: string by (induction w) auto
  then show "CHR ''.'' \<notin> set f \<Longrightarrow> f \<noteq> '''' \<Longrightarrow> ?thesis" by (simp add: getFieldValue_def)
qed

lemma map_filter_mem: "x \<in> set xs \<Longrightarrow> f x = Some y \<Longrightarrow> y \<in> set (List.map_filter f xs)"
  by (force simp: List.map_filter_def)

text \<open>
  C33. Of a document, an evaluation reads nothing but what the analysis of the expression reports.
  Take two contexts with the same column values, origin and variables, which the analysis does not
  report. If they agree on every referenced field, on the decrypted fields if the expression needs
  decryption, on the counts if it needs a view, and on the metadata of those operations that it
  uses, they give the same value, however much else their documents differ.
\<close>

theorem evaluation_needs_only_reported:
  assumes "\<forall>path \<in> set (getReferencedFields e).
      getFieldValue rt (JObj (ec_doc c1)) path = getFieldValue rt (JObj (ec_doc c2)) path"
    and "ec_values c1 = ec_values c2" "ec_origin c1 = ec_origin c2" "ec_variables c1 = ec_variables c2"
    and "needsDecryption (analyzeExpressionRequirements e) \<longrightarrow>
      (\<forall>(field, key) \<in> set (collectDecryptRequests e). decrypted_value rt c1 field = decrypted_value rt c2 field)"
    and "needsViewContext (analyzeExpressionRequirements e) \<longrightarrow> ec_counts c1 = ec_counts c2"
    and "uses_operation Op_lastModifiedAt e \<longrightarrow> ec_lastModifiedAt c1 = ec_lastModifiedAt c2"
    and "uses_operation Op_decryptionKeyId e \<longrightarrow> ec_decryptionKeyId c1 = ec_decryptionKeyId c2"
    and "uses_operation Op_createdAt e \<longrightarrow> ec_createdAt c1 = ec_createdAt c2"
    and "uses_operation Op_isWitnessed e \<longrightarrow> ec_witnessed c1 = ec_witnessed c2"
    and "uses_operation Op_isAwaitingWitness e \<longrightarrow> ec_awaitingWitness c1 = ec_awaitingWitness c2"
  shows "evaluateExpression rt c1 e = evaluateExpression rt c2 e"
proof (rule evaluation_agrees(1))
  show "same_frame c1 c2" using assms(2-4) by (simp add: same_frame_def)
  show "\<forall>n \<in> set (walkExpression e). node_agrees rt c1 c2 n"
  proof
    fix n assume n: "n \<in> set (walkExpression e)"
    have ref: "referenced_path n = Some path \<Longrightarrow>
        getFieldValue rt (JObj (ec_doc c1)) path = getFieldValue rt (JObj (ec_doc c2)) path" for path
      using assms(1) map_filter_mem [OF n, of referenced_path path] by (simp add: getReferencedFields_def)
    show "node_agrees rt c1 c2 n"
    proof (cases n)
      case (Decrypt field key json path)
      then have "needsDecryption (analyzeExpressionRequirements e)"
        using n by (force simp: analyzeExpressionRequirements_def list_ex_iff Let_def)
      moreover have "(field, key) \<in> set (collectDecryptRequests e)"
        unfolding collectDecryptRequests_def by (rule map_filter_mem [OF n]) (simp add: Decrypt)
      ultimately show ?thesis using assms(5) Decrypt by auto
    next
      case (Operation op args part)
      have uses: "uses_operation op e"
        unfolding uses_operation_def list_ex_iff by (rule bexI [OF _ n]) (simp add: Operation)
      have "getAttachmentList rt (ec_doc c1) = getAttachmentList rt (ec_doc c2)" if "op \<in> set ATTACHMENT_OPERATIONS"
        using ref [of "''_attachments''"] that Operation by (simp add: getAttachmentList_def getFieldValue_top)
      moreover have "ec_counts c1 = ec_counts c2" if "op \<in> set VIEW_CONTEXT_OPERATIONS"
      proof -
        have "op \<in> set (List.map_filter view_operation (walkExpression e))"
          by (rule map_filter_mem [OF n]) (simp add: Operation that)
        then have "js_dedup (List.map_filter view_operation (walkExpression e)) \<noteq> []"
          by (metis empty_iff empty_set set_js_dedup)
        then show ?thesis using assms(6) by (simp add: analyzeExpressionRequirements_def Let_def)
      qed
      ultimately show ?thesis using assms(7-11) uses by (auto simp: Operation operation_agrees_def)
    qed (use ref in auto)
  qed
qed

section \<open>Types\<close>

text \<open>
  The result types that the builder declares for its helpers; \<open>TUnknown\<close> where it declares
  none or only a generic one that nothing checks.
\<close>

datatype expr_type =
  TBool | TNumber | TString | TNumberOrNull | TStringOrNull | TStrings | TNumbers | TDatePart | TUnknown

definition value_has_type :: "js_value \<Rightarrow> expr_type \<Rightarrow> bool" where
  "value_has_type v t =
     (case t of
        TBool \<Rightarrow> js_boolean v \<noteq> None
      | TNumber \<Rightarrow> js_number v \<noteq> None
      | TString \<Rightarrow> js_string v \<noteq> None
      | TNumberOrNull \<Rightarrow> js_number v \<noteq> None \<or> v = JNull
      | TStringOrNull \<Rightarrow> js_string v \<noteq> None \<or> v = JNull
      | TStrings \<Rightarrow> (case js_array v of Some xs \<Rightarrow> list_all (\<lambda>x. js_string x \<noteq> None) xs | None \<Rightarrow> False)
      | TNumbers \<Rightarrow> (case js_array v of Some xs \<Rightarrow> list_all (\<lambda>x. js_number x \<noteq> None) xs | None \<Rightarrow> False)
      | TDatePart \<Rightarrow> js_string v \<noteq> None \<or> js_number v \<noteq> None \<or> v = JNull
      | TUnknown \<Rightarrow> True)"

definition operation_type :: "expr_op \<Rightarrow> expr_type" where
  "operation_type op =
     (case op of
        Op_createdAt \<Rightarrow> TStringOrNull | Op_lastModifiedAt \<Rightarrow> TStringOrNull | Op_decryptionKeyId \<Rightarrow> TStringOrNull
      | Op_isWitnessed \<Rightarrow> TBool | Op_isAwaitingWitness \<Rightarrow> TBool
      | Op_attachmentNames \<Rightarrow> TStrings | Op_attachmentLengths \<Rightarrow> TNumbers | Op_attachmentCount \<Rightarrow> TNumber
      | Op_childCount \<Rightarrow> TNumber | Op_childCategoryCount \<Rightarrow> TNumber | Op_childDocumentCount \<Rightarrow> TNumber
      | Op_descendantCount \<Rightarrow> TNumber | Op_descendantCategoryCount \<Rightarrow> TNumber
      | Op_descendantDocumentCount \<Rightarrow> TNumber | Op_siblingCount \<Rightarrow> TNumber
      | Op_add \<Rightarrow> TNumber | Op_sub \<Rightarrow> TNumber | Op_mul \<Rightarrow> TNumber
      | Op_div \<Rightarrow> TNumberOrNull | Op_mod \<Rightarrow> TNumberOrNull
      | Op_eq \<Rightarrow> TBool | Op_neq \<Rightarrow> TBool | Op_gt \<Rightarrow> TBool | Op_gte \<Rightarrow> TBool | Op_lt \<Rightarrow> TBool | Op_lte \<Rightarrow> TBool
      | Op_and \<Rightarrow> TBool | Op_or \<Rightarrow> TBool | Op_not \<Rightarrow> TBool
      | Op_concat \<Rightarrow> TString | Op_lower \<Rightarrow> TString | Op_upper \<Rightarrow> TString | Op_trim \<Rightarrow> TString
      | Op_left \<Rightarrow> TString | Op_right \<Rightarrow> TString
      | Op_number \<Rightarrow> TNumberOrNull | Op_string \<Rightarrow> TString | Op_boolean \<Rightarrow> TBool
      | Op_contains \<Rightarrow> TBool | Op_startsWith \<Rightarrow> TBool | Op_endsWith \<Rightarrow> TBool
      | Op_coalesce \<Rightarrow> TUnknown | Op_exists \<Rightarrow> TBool | Op_notExists \<Rightarrow> TBool
      | Op_pathJoin \<Rightarrow> TString | Op_datePart \<Rightarrow> TDatePart)"

fun literal_type :: "js_value \<Rightarrow> expr_type" where
  "literal_type (JBool b) = TBool"
| "literal_type (JNum n) = TNumber"
| "literal_type (JStr s) = TString"
| "literal_type _ = TUnknown"

text \<open>The type of an expression, with the types of the bound variables.\<close>

fun static_type :: "(string, expr_type) jsmap \<Rightarrow> expr \<Rightarrow> expr_type"
and bindings_types :: "(string, expr_type) jsmap \<Rightarrow> (string \<times> expr) list \<Rightarrow> (string, expr_type) jsmap" where
  "static_type env (Literal v) = literal_type v"
| "static_type env (Operation op args part) = operation_type op"
| "static_type env Origin = TString"
| "static_type env (Variable name) = (case map_of env name of Some t \<Rightarrow> t | None \<Rightarrow> TUnknown)"
| "static_type env (IfElse c t f) = (if static_type env t = static_type env f then static_type env t else TUnknown)"
| "static_type env (LetIn bindings result) = static_type (bindings_types env bindings) result"
| "static_type env (Decrypt field key json path) = (if json then TUnknown else TStringOrNull)"
| "static_type env _ = TUnknown"
| "bindings_types env [] = env"
| "bindings_types env ((name, e) # bindings) =
     bindings_types (AList.update name (static_type env e) env) bindings"

definition variables_typed :: "js_object \<Rightarrow> (string, expr_type) jsmap \<Rightarrow> bool" where
  "variables_typed vars env \<longleftrightarrow>
     (\<forall>name t. map_of env name = Some t \<longrightarrow> (\<exists>v. map_of vars name = Some v \<and> value_has_type v t))"

lemma filter_js_string: "list_all (\<lambda>x. js_string x \<noteq> None) (filter (\<lambda>v. js_string v \<noteq> None) xs)"
  and filter_js_number: "list_all (\<lambda>x. js_number x \<noteq> None) (filter (\<lambda>v. js_number v \<noteq> None) xs)"
  by (simp_all add: list_all_iff)

lemma operation_has_type: "value_has_type (apply_operation rt ctx op part args) (operation_type op)"
  by (cases op)
    (auto simp: apply_operation_def operation_type_def value_has_type_def or_null_def divided_def
      date_part_of_def list_all_iff split: option.split prod.split date_part.split)

lemma literal_has_type: "value_has_type v (literal_type v)"
  by (cases v) (simp_all add: value_has_type_def)

lemma has_type_simps [simp]: "value_has_type v TUnknown" "value_has_type (JStr s) TString"
  by (simp_all add: value_has_type_def)

text \<open>What the requests of an expression need of the decrypted fields: texts, or null.\<close>

definition decrypts_typed :: "js_runtime \<Rightarrow> eval_context \<Rightarrow> (string \<times> expr option) list \<Rightarrow> bool" where
  "decrypts_typed rt ctx requests \<longleftrightarrow>
     (\<forall>(field, key) \<in> set requests. value_has_type (decrypted_value rt ctx field) TStringOrNull)"

lemma requests_simps [simp]:
  "collectDecryptRequests (Operation op args part) = concat (map collectDecryptRequests args)"
  "collectDecryptRequests (IfElse c t f) =
     collectDecryptRequests c @ collectDecryptRequests t @ collectDecryptRequests f"
  "collectDecryptRequests (LetIn bindings r) =
     concat (map (\<lambda>p. collectDecryptRequests (snd p)) bindings) @ collectDecryptRequests r"
  "collectDecryptRequests (Decrypt field key json path) =
     (field, key) # (case key of None \<Rightarrow> [] | Some k \<Rightarrow> collectDecryptRequests k)"
  by (simp_all add: collectDecryptRequests_def [abs_def] List.map_filter_def map_concat filter_concat comp_def split: option.split)

lemma decrypted_value_variables [simp]: "decrypted_value rt (ctx\<lparr> ec_variables := vs \<rparr>) field = decrypted_value rt ctx field"
  by (simp add: decrypted_value_def split: option.split)

lemma decrypts_typed_simps [simp]:
  "decrypts_typed rt (ctx\<lparr> ec_variables := vs \<rparr>) rs = decrypts_typed rt ctx rs"
  "decrypts_typed rt ctx (rs @ rs') \<longleftrightarrow> decrypts_typed rt ctx rs \<and> decrypts_typed rt ctx rs'"
  by (auto simp: decrypts_typed_def)

lemma expression_has_type:
  "variables_typed (ec_variables ctx) env \<Longrightarrow> decrypts_typed rt ctx (collectDecryptRequests e) \<Longrightarrow>
     value_has_type (evaluateExpression rt ctx e) (static_type env e)"
  "variables_typed (ec_variables ctx) env \<Longrightarrow>
     decrypts_typed rt ctx (concat (map (\<lambda>p. collectDecryptRequests (snd p)) bs)) \<Longrightarrow>
     variables_typed (eval_bindings rt ctx bs) (bindings_types env bs)"
proof (induction rt ctx e and rt ctx bs arbitrary: env and env rule: evaluateExpression_eval_bindings.induct)
  case (5 rt ctx name)
  show ?case
  proof (cases "map_of env name")
    case (Some t)
    then obtain v where "map_of (ec_variables ctx) name = Some v" "value_has_type v t"
      using 5 unfolding variables_typed_def by blast
    then show ?thesis using Some by simp
  qed (simp add: value_has_type_def)
next
  case (7 rt ctx condition whenTrue whenFalse)
  have "value_has_type (evaluateExpression rt ctx whenTrue) (static_type env whenTrue)"
    if "expressionToBoolean (evaluateExpression rt ctx condition)" using 7(2) [OF that 7(4)] 7(5) by simp
  moreover have "value_has_type (evaluateExpression rt ctx whenFalse) (static_type env whenFalse)"
    if "\<not> expressionToBoolean (evaluateExpression rt ctx condition)" using 7(3) [OF that 7(4)] 7(5) by simp
  ultimately show ?case by (auto split: if_splits)
next
  case (9 rt ctx field key json path)
  then show ?case by (simp add: decrypts_typed_def)
next
  case (12 rt ctx name e bindings)
  have "variables_typed (AList.update name (evaluateExpression rt ctx e) (ec_variables ctx))
      (AList.update name (static_type env e) env)"
    using 12(3) 12(1) [OF 12(3)] 12(4) by (auto simp: variables_typed_def map_of_update)
  from 12(2) [of "AList.update name (static_type env e) env"] this 12(4) show ?case by simp
qed (simp_all add: literal_has_type operation_has_type)

text \<open>
  C34. The declared result types hold. Let the variables have their declared types, and let the
  decrypted fields be what their declared type says, texts or null, with no name among the fields
  to decrypt that is only inherited. Then an expression evaluates to a value of the type that the
  builder declares for it: comparisons and connectives to booleans, arithmetic to numbers (division
  and remainder possibly to null), text helpers to strings, a decrypted field to a text or null,
  whatever types the arguments and the document have.
\<close>

theorem expression_types_sound:
  assumes "variables_typed (ec_variables ctx) env"
    and "\<And>d k v. ec_decrypted ctx = Some d \<Longrightarrow> (k, v) \<in> set d \<Longrightarrow> value_has_type v TStringOrNull"
    and "\<And>d field key. ec_decrypted ctx = Some d \<Longrightarrow> (field, key) \<in> set (collectDecryptRequests e) \<Longrightarrow>
      map_has d field \<or> rt_proto rt (JObj d) field = JUndefined"
  shows "value_has_type (evaluateExpression rt ctx e) (static_type env e)"
proof -
  have null: "value_has_type JNull TStringOrNull" by (simp add: value_has_type_def)
  have "value_has_type (decrypted_value rt ctx field) TStringOrNull"
    if "(field, key) \<in> set (collectDecryptRequests e)" for field key
  proof (cases "ec_decrypted ctx")
    case (Some d)
    show ?thesis
    proof (cases "map_of d field")
      case None
      then show ?thesis
        using assms(3) [OF Some that] Some null by (simp add: decrypted_value_def map_has_def js_nullish_def)
    next
      case (Some v)
      then have "value_has_type v TStringOrNull" using assms(2) \<open>ec_decrypted ctx = Some d\<close> map_of_SomeD by metis
      then show ?thesis using Some \<open>ec_decrypted ctx = Some d\<close> null by (simp add: decrypted_value_def)
    qed
  qed (simp add: decrypted_value_def null)
  then have "decrypts_typed rt ctx (collectDecryptRequests e)" by (auto simp: decrypts_typed_def)
  from expression_has_type(1) [OF assms(1) this] show ?thesis .
qed

section \<open>Witnesses\<close>

text \<open>A runtime in which no prototype defines a property and no text is a number or a date.\<close>

definition bare_runtime :: js_runtime where
  "bare_runtime =
     \<lparr> rt_proto = \<lambda>v name. JUndefined, rt_num_string = \<lambda>n. ''0'', rt_string_num = \<lambda>s. None,
       rt_upper = \<lambda>s. s, rt_date = \<lambda>v. None, rt_json_parse = \<lambda>s. None, rt_same_object = \<lambda>a b. False \<rparr>"

definition context_of :: "js_object \<Rightarrow> string option \<Rightarrow> eval_context" where
  "context_of doc created =
     \<lparr> ec_doc = doc, ec_values = [], ec_origin = ''t/db'', ec_createdAt = created, ec_lastModifiedAt = None,
       ec_decryptionKeyId = None, ec_witnessed = None, ec_awaitingWitness = None, ec_counts = [],
       ec_variables = [], ec_decrypted = None \<rparr>"

definition open_task :: expr where
  "open_task =
     LetIn [(''t'', Operation Op_lower [Field ''meta.type''] None)]
       (Operation Op_and
         [Operation Op_eq [Variable ''t'', Literal (JStr ''task'')] None,
          Operation Op_notExists [Field ''done''] None] None)"

theorem evaluation_needs_only_reported_witness:
  "evaluateExpression bare_runtime
      (context_of [(''meta'', JObj [(''type'', JStr ''Task'')]), (''body'', JStr ''long'')] (Some ''2026'')) open_task =
   evaluateExpression bare_runtime (context_of [(''meta'', JObj [(''type'', JStr ''Task'')])] None) open_task"
proof (rule evaluation_needs_only_reported)
  show "\<forall>path \<in> set (getReferencedFields open_task).
      getFieldValue bare_runtime (JObj (ec_doc
        (context_of [(''meta'', JObj [(''type'', JStr ''Task'')]), (''body'', JStr ''long'')] (Some ''2026'')))) path =
      getFieldValue bare_runtime (JObj (ec_doc (context_of [(''meta'', JObj [(''type'', JStr ''Task'')])] None))) path"
    by code_simp
qed (simp_all add: context_of_def open_task_def uses_operation_def analyzeExpressionRequirements_def
    collectDecryptRequests_def List.map_filter_def)

definition secret_or_title :: expr where
  "secret_or_title =
     IfElse (Operation Op_exists [Field ''title''] None)
       (Decrypt ''secret'' None False None) (Decrypt ''title_encrypted'' None False None)"

theorem expression_types_sound_witness:
  "static_type [] secret_or_title = TStringOrNull \<and>
   value_has_type (evaluateExpression bare_runtime
     ((context_of [(''title'', JBool True)] None)\<lparr> ec_decrypted := Some [(''secret'', JStr ''x'')] \<rparr>) secret_or_title) TStringOrNull"
proof -
  let ?ctx = "(context_of [(''title'', JBool True)] None)\<lparr> ec_decrypted := Some [(''secret'', JStr ''x'')] \<rparr>"
  have typed: "static_type [] secret_or_title = TStringOrNull" by code_simp
  have "value_has_type (evaluateExpression bare_runtime ?ctx secret_or_title) (static_type [] secret_or_title)"
  proof (rule expression_types_sound)
    show "variables_typed (ec_variables ?ctx) []" by (simp add: variables_typed_def)
    show "value_has_type v TStringOrNull" if "ec_decrypted ?ctx = Some d" "(k, v) \<in> set d" for d k v
      using that by (auto simp: value_has_type_def)
    show "map_has d field \<or> rt_proto bare_runtime (JObj d) field = JUndefined" for d field
      by (simp add: bare_runtime_def)
  qed
  then show ?thesis by (simp add: typed)
qed

text \<open>A request for a field whose name is only inherited reads the inherited value, which is no text.\<close>

lemma inherited_name_not_text:
  "evaluateExpression (bare_runtime\<lparr> rt_proto := \<lambda>v name. if name = ''toString'' then JFun ''f'' else JUndefined \<rparr>)
     ((context_of [] None)\<lparr> ec_decrypted := Some [] \<rparr>) (Decrypt ''toString'' None False None) = JFun ''f''"
  by (simp add: decrypted_value_def context_of_def bare_runtime_def js_nullish_def)

end
