(* ===== verification/SummaryFields.thy ===== *)
theory SummaryFields
  imports Expressions
begin

text \<open>
  The fields of a document that the summary buffer keeps
  (\<^verbatim>\<open>core/indexing/summary/extractSummaryFields.ts\<close> and the configuration in
  \<^verbatim>\<open>types.ts\<close> beside it), the document that query expressions are evaluated against, and the
  coverage test. The length of the JSON text of a value is an argument (\<open>None\<close> where it
  cannot be written). Own properties come in the order of the list; names that a prototype
  defines are looked up as the runtime does.
\<close>

section \<open>Configuration\<close>

record summary_config =
  sc_autoInclude :: "bool option"
  sc_maxValueBytes :: "rat option"
  sc_include :: "string list option"
  sc_exclude :: "string list option"
  sc_includeAttachments :: "bool option"

record resolved_config =
  autoInclude :: bool
  maxValueBytes :: rat
  include_paths :: "string list"
  exclude_paths :: "string list"
  includeAttachments :: bool

definition DEFAULT_SUMMARY_MAX_VALUE_BYTES :: rat where
  "DEFAULT_SUMMARY_MAX_VALUE_BYTES = 1024"

definition or_else :: "'a option \<Rightarrow> 'a \<Rightarrow> 'a" where
  "or_else v dflt = (case v of Some x \<Rightarrow> x | None \<Rightarrow> dflt)"

definition resolveSummaryConfig :: "summary_config option \<Rightarrow> resolved_config" where
  "resolveSummaryConfig config =
     \<lparr> autoInclude = or_else (Option.bind config sc_autoInclude) True,
       maxValueBytes = max 0 (or_else (Option.bind config sc_maxValueBytes) DEFAULT_SUMMARY_MAX_VALUE_BYTES),
       include_paths = or_else (Option.bind config sc_include) [],
       exclude_paths = or_else (Option.bind config sc_exclude) [],
       includeAttachments = or_else (Option.bind config sc_includeAttachments) True \<rparr>"

definition string_list :: "js_value \<Rightarrow> string list option" where
  "string_list input = map_option (List.map_filter js_string) (js_array input)"

fun sanitizeSummaryConfig :: "js_value \<Rightarrow> summary_config option" where
  "sanitizeSummaryConfig (JObj raw) =
     Some \<lparr> sc_autoInclude = js_boolean (js_prop raw ''autoInclude''),
            sc_maxValueBytes = js_number (js_prop raw ''maxValueBytes''),
            sc_include = string_list (js_prop raw ''include''),
            sc_exclude = string_list (js_prop raw ''exclude''),
            sc_includeAttachments = js_boolean (js_prop raw ''includeAttachments'') \<rparr>"
| "sanitizeSummaryConfig _ = None"

section \<open>Extraction\<close>

fun resolve_parts :: "js_runtime \<Rightarrow> js_value \<Rightarrow> string list \<Rightarrow> js_value" where
  "resolve_parts rt current [] = current"
| "resolve_parts rt (JObj ps) (seg # segs) = resolve_parts rt (member_get (rt_proto rt) (JObj ps) seg) segs"
| "resolve_parts rt _ (seg # segs) = JUndefined"

definition resolveFieldPath :: "js_runtime \<Rightarrow> js_object \<Rightarrow> string \<Rightarrow> js_value" where
  "resolveFieldPath rt data path =
     (if CHR ''.'' \<notin> set path then member_get (rt_proto rt) (JObj data) path
      else resolve_parts rt (JObj data) (split_on (CHR ''.'') path))"

fun isScalar :: "js_value \<Rightarrow> bool" where
  "isScalar JNull = True"
| "isScalar (JStr s) = True"
| "isScalar (JNum n) = True"
| "isScalar (JBool b) = True"
| "isScalar _ = False"

definition isAutoIncludableValue :: "js_value \<Rightarrow> bool" where
  "isAutoIncludableValue v =
     (isScalar v \<or> (case js_array v of Some xs \<Rightarrow> list_all isScalar xs | None \<Rightarrow> False))"

text \<open>Whether the estimated size exceeds the cap; a value that cannot be written is infinitely large.\<close>

definition estimateValueSize :: "(js_value \<Rightarrow> nat option) \<Rightarrow> js_value \<Rightarrow> nat option" where
  "estimateValueSize json_length v =
     (case v of JUndefined \<Rightarrow> Some 0 | JStr s \<Rightarrow> Some (length s + 2) | _ \<Rightarrow> json_length v)"

definition too_large :: "(js_value \<Rightarrow> nat option) \<Rightarrow> resolved_config \<Rightarrow> js_value \<Rightarrow> bool" where
  "too_large json_length config v =
     (case estimateValueSize json_length v of None \<Rightarrow> True | Some n \<Rightarrow> of_nat n > maxValueBytes config)"

definition path_below :: "string \<Rightarrow> string \<Rightarrow> bool" where
  "path_below path base \<longleftrightarrow> path = base \<or> prefix (base @ ''.'') path"

definition isExcluded :: "string \<Rightarrow> string list \<Rightarrow> bool" where
  "isExcluded path exclude = list_ex (path_below path) exclude"

definition isEncryptedConventionField :: "string \<Rightarrow> bool" where
  "isEncryptedConventionField key \<longleftrightarrow> suffix ''_encrypted'' key \<or> suffix ''_encrypted_key'' key"

definition ATTACHMENTS_FIELD :: string where
  "ATTACHMENTS_FIELD = ''_attachments''"

definition keep_if :: "(js_value \<Rightarrow> bool) \<Rightarrow> js_object \<Rightarrow> string \<Rightarrow> js_object" where
  "keep_if P raw name = (if P (js_prop raw name) then [(name, js_prop raw name)] else [])"

definition projectAttachment :: "js_object \<Rightarrow> js_value" where
  "projectAttachment raw =
     JObj (keep_if (\<lambda>v. js_string v \<noteq> None) raw ''attachmentId'' @
           keep_if (\<lambda>v. js_string v \<noteq> None) raw ''fileName'' @
           keep_if (\<lambda>v. js_number v \<noteq> None) raw ''size'' @
           keep_if (\<lambda>v. js_string v \<noteq> None) raw ''mimeType'' @
           keep_if (\<lambda>v. js_number v \<noteq> None) raw ''createdAt'' @
           (case js_string (js_prop raw ''extractedText'') of
              Some s \<Rightarrow> if s \<noteq> '''' then [(''hasExtractedText'', JBool True)] else []
            | None \<Rightarrow> []))"

definition projectAttachments :: "js_value \<Rightarrow> js_value option" where
  "projectAttachments v =
     (case js_array v of
        None \<Rightarrow> None
      | Some items \<Rightarrow>
          (let projected = map projectAttachment (List.map_filter js_members items)
           in if projected = [] then None else Some (JArr projected)))"

definition auto_included :: "(js_value \<Rightarrow> nat option) \<Rightarrow> resolved_config \<Rightarrow> string \<Rightarrow> js_value \<Rightarrow> bool" where
  "auto_included json_length config key v \<longleftrightarrow>
     \<not> prefix ''_'' key \<and> \<not> isEncryptedConventionField key \<and> \<not> isExcluded key (exclude_paths config) \<and>
     isAutoIncludableValue v \<and> \<not> too_large json_length config v"

definition auto_fields :: "(js_value \<Rightarrow> nat option) \<Rightarrow> resolved_config \<Rightarrow> js_object \<Rightarrow> js_object" where
  "auto_fields json_length config data =
     (if autoInclude config
      then foldl (\<lambda>flds (key, v). if auto_included json_length config key v then AList.update key v flds else flds) [] data
      else [])"

definition include_field :: "js_runtime \<Rightarrow> resolved_config \<Rightarrow> js_object \<Rightarrow> js_object \<Rightarrow> string \<Rightarrow> js_object" where
  "include_field rt config data flds path =
     (if isExcluded path (exclude_paths config) then flds
      else (let v = resolveFieldPath rt data path
            in if v \<noteq> JUndefined then AList.update path v flds else flds))"

definition extractSummaryFields ::
  "js_runtime \<Rightarrow> (js_value \<Rightarrow> nat option) \<Rightarrow> js_object \<Rightarrow> resolved_config \<Rightarrow> js_object" where
  "extractSummaryFields rt json_length data config =
     (let flds = foldl (include_field rt config data) (auto_fields json_length config data) (include_paths config)
      in if includeAttachments config \<and> \<not> isExcluded ATTACHMENTS_FIELD (exclude_paths config)
         then (case projectAttachments (member_get (rt_proto rt) (JObj data) ATTACHMENTS_FIELD) of
                 Some attachments \<Rightarrow> AList.update ATTACHMENTS_FIELD attachments flds
               | None \<Rightarrow> flds)
         else flds)"

definition getSummaryFieldValue :: "js_runtime \<Rightarrow> js_object \<Rightarrow> string \<Rightarrow> js_value" where
  "getSummaryFieldValue rt flds path =
     (case map_of flds path of Some v \<Rightarrow> v | None \<Rightarrow> resolveFieldPath rt flds path)"

section \<open>The document of an evaluation\<close>

text \<open>
  The walk down the parts of a dotted key. The code writes into the nested objects in place; they
  are own properties, and what it writes is what they already hold when they were stored.
\<close>

fun set_path :: "js_object \<Rightarrow> string list \<Rightarrow> js_value \<Rightarrow> js_object" where
  "set_path doc [] v = doc"
| "set_path doc [part] v = AList.update part v doc"
| "set_path doc (part # parts) v =
     AList.update part
       (JObj (set_path (case map_of doc part of Some (JObj o') \<Rightarrow> o' | _ \<Rightarrow> []) parts v)) doc"

definition expand_field :: "js_object \<Rightarrow> string \<times> js_value \<Rightarrow> js_object" where
  "expand_field doc kv =
     (let (key, v) = kv
      in if CHR ''.'' \<notin> set key then AList.update key v doc
         else set_path doc (split_on (CHR ''.'') key) v)"

definition buildSummaryEvaluationDoc :: "js_object \<Rightarrow> rat option \<Rightarrow> js_object" where
  "buildSummaryEvaluationDoc flds lastModified =
     (if \<not> list_ex (\<lambda>k. CHR ''.'' \<in> set k) (map_keys flds) then
        (case lastModified of None \<Rightarrow> flds | Some t \<Rightarrow> AList.update ''_lastModified'' (JNum t) flds)
      else
        foldl expand_field
          (case lastModified of None \<Rightarrow> [] | Some t \<Rightarrow> [(''_lastModified'', JNum t)]) flds)"

definition isFieldPathCovered :: "string \<Rightarrow> resolved_config \<Rightarrow> bool" where
  "isFieldPathCovered path config =
     (if isExcluded path (exclude_paths config) then False
      else if list_ex (path_below path) (include_paths config) then True
      else
        (let topLevel = takeWhile (\<lambda>c. c \<noteq> CHR ''.'') path
         in if topLevel = ATTACHMENTS_FIELD then includeAttachments config
            else if path = ''_lastModified'' then True
            else if autoInclude config \<and> \<not> prefix ''_'' topLevel then
              (if isEncryptedConventionField topLevel then False else True)
            else False))"

section \<open>Own paths\<close>

abbreviation parts_of :: "string \<Rightarrow> string list" where
  "parts_of path \<equiv> split_on (CHR ''.'') path"

text \<open>The value at a path of own properties through objects.\<close>

fun own :: "js_value \<Rightarrow> string list \<Rightarrow> js_value option" where
  "own v [] = Some v"
| "own (JObj ps) (k # ks) = (case map_of ps k of Some x \<Rightarrow> own x ks | None \<Rightarrow> None)"
| "own _ (k # ks) = None"

lemma own_append: "own v (ps @ qs) = Option.bind (own v ps) (\<lambda>x. own x qs)"
proof (induction v ps rule: own.induct)
  case (2 ps k ks)
  then show ?case by (cases "map_of ps k") simp_all
qed (cases qs; simp)+

lemma split_on_ne [simp]: "split_on c s \<noteq> []"
  by (induction s) (auto split: list.splits)

lemma split_on_join: "split_on c (w @ c # s) = split_on c w @ split_on c s"
proof (induction w)
  case (Cons a w)
  then show ?case by (cases "split_on c w") auto
qed simp

lemma split_on_single: "c \<notin> set w \<Longrightarrow> split_on c w = [w]"
  by (induction w) auto

lemma hd_split_on: "hd (split_on c s) = takeWhile (\<lambda>x. x \<noteq> c) s"
proof (induction s)
  case (Cons a s)
  then show ?case by (cases "split_on c s") auto
qed simp

lemma path_below_parts: "path_below p q \<Longrightarrow> \<exists>r. parts_of p = parts_of q @ r"
  by (auto simp: path_below_def prefix_def split_on_join)

lemma path_below_trans:
  assumes "path_below p q" "path_below q r" shows "path_below p r"
proof -
  have "prefix (r @ ''.'') p" if "prefix (r @ ''.'') q" "prefix (q @ ''.'') p"
    using that by (meson append_prefixD prefix_order.trans)
  then show ?thesis using assms unfolding path_below_def by auto
qed

definition no_inherited :: "js_runtime \<Rightarrow> string \<Rightarrow> bool" where
  "no_inherited rt name \<longleftrightarrow> (\<forall>ps. rt_proto rt (JObj ps) name = JUndefined)"

lemma member_get_own:
  "no_inherited rt k \<Longrightarrow> member_get (rt_proto rt) (JObj ps) k = (case map_of ps k of Some x \<Rightarrow> x | None \<Rightarrow> JUndefined)"
  by (simp add: no_inherited_def split: option.split)

lemma foldl_member_undefined: "foldl (member_get proto) JUndefined ks = JUndefined"
  by (induction ks) simp_all

lemma resolve_parts_undefined: "resolve_parts rt JUndefined ks = JUndefined"
  by (cases ks) simp_all

lemma own_undefined: "own JUndefined ks = Some x \<longleftrightarrow> ks = [] \<and> x = JUndefined"
  by (cases ks) auto

lemma resolve_parts_own:
  "\<forall>k \<in> set ks. no_inherited rt k \<Longrightarrow>
     resolve_parts rt v ks = (case own v ks of Some x \<Rightarrow> x | None \<Rightarrow> JUndefined)"
proof (induction rt v ks rule: resolve_parts.induct)
  case (2 rt ps seg segs)
  then show ?case
    by (simp add: member_get_own own_undefined del: member_get.simps split: option.split)
qed simp_all

lemma resolveFieldPath_own:
  assumes "\<forall>k \<in> set (parts_of path). no_inherited rt k"
  shows "resolveFieldPath rt data path = (case own (JObj data) (parts_of path) of Some x \<Rightarrow> x | None \<Rightarrow> JUndefined)"
  using assms
  by (auto simp: resolveFieldPath_def resolve_parts_own split_on_single member_get_own
      simp del: member_get.simps split: option.split)

text \<open>Reading a path meets an array on the way.\<close>

definition crosses_array :: "js_value \<Rightarrow> string list \<Rightarrow> bool" where
  "crosses_array v ks \<longleftrightarrow> (\<exists>i < length ks. \<exists>xs. own v (take i ks) = Some (JArr xs))"

lemma crosses_array_Cons:
  "crosses_array (JObj ps) (k # ks) \<longleftrightarrow> (\<exists>x. map_of ps k = Some x \<and> crosses_array x ks)"
  unfolding crosses_array_def
  by (cases "map_of ps k"; simp add: Ex_less_Suc2; blast)

lemma foldl_member_own:
  assumes "\<forall>k \<in> set ks. no_inherited rt k" "\<not> crosses_array v ks"
  shows "foldl (member_get (rt_proto rt)) v ks = (case own v ks of Some x \<Rightarrow> x | None \<Rightarrow> JUndefined)"
  using assms
proof (induction ks arbitrary: v)
  case (Cons k ks)
  show ?case
  proof (cases v)
    case (JObj ps)
    then show ?thesis
      using Cons by (cases "map_of ps k")
        (simp_all add: no_inherited_def foldl_member_undefined crosses_array_Cons)
  next
    case (JArr xs)
    then show ?thesis using Cons.prems(2) by (auto simp: crosses_array_def)
  qed (simp_all add: foldl_member_undefined)
qed simp

section \<open>The evaluation document approximates the document\<close>

text \<open>Every property of the first value is in the second, down to the point where they are equal.\<close>

inductive approx :: "js_value \<Rightarrow> js_value \<Rightarrow> bool" where
  same: "approx v v"
| obj: "(\<And>k x. map_of ps k = Some x \<Longrightarrow> \<exists>y. map_of qs k = Some y \<and> approx x y) \<Longrightarrow>
          approx (JObj ps) (JObj qs)"

inductive_cases approx_objE: "approx (JObj ps) w"
inductive_cases approx_to_objE: "approx v (JObj qs)"

lemma approx_prop:
  "approx (JObj ps) (JObj qs) \<Longrightarrow> map_of ps k = Some x \<Longrightarrow> \<exists>y. map_of qs k = Some y \<and> approx x y"
  by (erule approx_objE) (auto intro: approx.same)

lemma approx_own:
  "approx v w \<Longrightarrow> own v ks = Some x \<Longrightarrow> \<exists>y. own w ks = Some y \<and> approx x y"
proof (induction ks arbitrary: v w)
  case (Cons k ks)
  then obtain ps where v: "v = JObj ps" by (cases v) auto
  then obtain z where z: "map_of ps k = Some z" "own z ks = Some x"
    using Cons.prems(2) by (auto split: option.splits)
  show ?case
  proof (cases "w = v")
    case True
    then show ?thesis using Cons.prems(2) approx.same by blast
  next
    case False
    then obtain qs where w: "w = JObj qs" using Cons.prems(1) v by (auto elim: approx_objE)
    then obtain y where "map_of qs k = Some y" "approx z y" using approx_prop Cons.prems(1) v z(1) by blast
    then show ?thesis using Cons.IH [of z y] z(2) w by auto
  qed
qed simp

definition exact_at :: "js_object \<Rightarrow> js_object \<Rightarrow> string list \<Rightarrow> bool" where
  "exact_at doc data ks \<longleftrightarrow> (\<exists>x. own (JObj doc) ks = Some x \<and> own (JObj data) ks = Some x)"

lemma approx_update:
  assumes "approx (JObj doc) (JObj data)" "map_of data k = Some y" "approx x y"
  shows "approx (JObj (AList.update k x doc)) (JObj data)"
  using approx_prop [OF assms(1)] assms(2,3) by (intro approx.obj) (auto simp: map_of_update split: if_splits)

lemma set_path_approx:
  assumes "approx (JObj doc) (JObj data)" "own (JObj data) ks = Some v" "ks \<noteq> []"
  shows "approx (JObj (set_path doc ks v)) (JObj data) \<and>
         (\<forall>qs. qs = ks \<or> exact_at doc data qs \<longrightarrow> exact_at (set_path doc ks v) data qs)"
  using assms
proof (induction doc ks v arbitrary: data rule: set_path.induct)
  case (2 doc part v)
  then have at: "map_of data part = Some v" by (auto split: option.splits)
  have "exact_at (AList.update part v doc) data qs" if "qs = [part] \<or> exact_at doc data qs" for qs
  proof (cases qs)
    case Nil
    then have "doc = data" using that by (simp add: exact_at_def)
    then show ?thesis using at Nil by (simp add: exact_at_def update_idem)
  next
    case (Cons q r)
    then show ?thesis using that at by (cases "q = part") (auto simp: exact_at_def map_of_update)
  qed
  then show ?case using approx_update [OF 2(1) at approx.same] by simp
next
  case (3 doc part p ps v)
  let ?sub = "case map_of doc part of Some (JObj o') \<Rightarrow> o' | _ \<Rightarrow> []"
  obtain d where d: "map_of data part = Some (JObj d)" "own (JObj d) (p # ps) = Some v"
  proof -
    obtain x where x: "map_of data part = Some x" "own x (p # ps) = Some v"
      using 3(3) by (auto split: option.splits)
    then show thesis using that by (cases x) auto
  qed
  have sub: "approx (JObj ?sub) (JObj d)"
  proof (cases "map_of doc part")
    case (Some x)
    then have "approx x (JObj d)" using approx_prop [OF 3(2) Some] d(1) by auto
    moreover from this obtain o' where "x = JObj o'" by (auto elim: approx_to_objE)
    ultimately show ?thesis using Some by simp
  qed (auto intro: approx.obj)
  note IH = 3(1) [OF sub d(2)]
  have "exact_at (set_path doc (part # p # ps) v) data qs"
    if qs: "qs = part # p # ps \<or> exact_at doc data qs" for qs
  proof (cases qs)
    case Nil
    then have "doc = data" using qs by (simp add: exact_at_def)
    moreover from this have "?sub = d" using d(1) by simp
    moreover have "exact_at ?sub d []" using \<open>?sub = d\<close> by (simp add: exact_at_def)
    with IH have "exact_at (set_path ?sub (p # ps) v) d []" by blast
    then have "set_path ?sub (p # ps) v = d" by (simp add: exact_at_def)
    ultimately show ?thesis using Nil d(1) by (simp add: exact_at_def update_idem)
  next
    case (Cons q r)
    show ?thesis
    proof (cases "q = part")
      case True
      have "r = p # ps \<or> exact_at ?sub d r"
      proof (cases "qs = part # p # ps")
        case False
        then have ex: "exact_at doc data (part # r)" using qs Cons True by auto
        then obtain x z where x: "map_of doc part = Some x" "own x r = Some z" "own (JObj d) r = Some z"
          using d(1) by (auto simp: exact_at_def split: option.splits)
        moreover have "approx x (JObj d)" using approx_prop [OF 3(2) x(1)] d(1) by auto
        then obtain o' where "x = JObj o'" by (auto elim: approx_to_objE)
        ultimately show ?thesis by (simp add: exact_at_def)
      qed (use Cons in simp)
      with IH have "exact_at (set_path ?sub (p # ps) v) d r" by blast
      then show ?thesis using Cons True d(1) by (simp add: exact_at_def map_of_update)
    next
      case False
      then show ?thesis using qs Cons by (auto simp: exact_at_def map_of_update)
    qed
  qed
  moreover have "approx (JObj (set_path doc (part # p # ps) v)) (JObj data)"
    using approx_update [OF 3(2) d(1)] IH by simp
  ultimately show ?case by blast
qed simp

lemma expand_field_eq: "expand_field doc (k, v) = set_path doc (parts_of k) v"
  by (simp add: expand_field_def split_on_single)

lemma expand_fields_approx:
  assumes "approx (JObj doc) (JObj data)" "\<forall>(k, v) \<in> set flds. own (JObj data) (parts_of k) = Some v"
  shows "approx (JObj (foldl expand_field doc flds)) (JObj data) \<and>
         (\<forall>qs. qs \<in> (\<lambda>(k, v). parts_of k) ` set flds \<or> exact_at doc data qs \<longrightarrow>
            exact_at (foldl expand_field doc flds) data qs)"
  using assms
proof (induction flds arbitrary: doc)
  case (Cons kv flds)
  obtain k v where kv: "kv = (k, v)" by fastforce
  let ?doc = "set_path doc (parts_of k) v"
  have step: "approx (JObj ?doc) (JObj data) \<and> (\<forall>qs. qs = parts_of k \<or> exact_at doc data qs \<longrightarrow> exact_at ?doc data qs)"
    using Cons.prems kv by (intro set_path_approx) auto
  show ?case
    using Cons.IH [of ?doc] step Cons.prems(2) kv by (auto simp: expand_field_eq)
qed simp

text \<open>The document as the summary shows it: with the slim attachment list.\<close>

definition shown_data :: "js_runtime \<Rightarrow> resolved_config \<Rightarrow> js_object \<Rightarrow> js_object" where
  "shown_data rt config data =
     (if includeAttachments config \<and> \<not> isExcluded ATTACHMENTS_FIELD (exclude_paths config)
      then (case projectAttachments (member_get (rt_proto rt) (JObj data) ATTACHMENTS_FIELD) of
              Some attachments \<Rightarrow> AList.update ATTACHMENTS_FIELD attachments data | None \<Rightarrow> data)
      else data)"

lemma own_update_other:
  "ks \<noteq> [] \<Longrightarrow> hd ks \<noteq> f \<Longrightarrow> own (JObj (AList.update f a data)) ks = own (JObj data) ks"
  by (cases ks) (simp_all add: map_of_update)

lemma own_shown_other:
  "ks \<noteq> [] \<Longrightarrow> hd ks \<noteq> ATTACHMENTS_FIELD \<Longrightarrow> own (JObj (shown_data rt config data)) ks = own (JObj data) ks"
  by (simp add: shown_data_def own_update_other split: option.split)

text \<open>
  A document and a configuration without surprises: no property twice, no dot in a name, and no
  name of an included path is inherited from a prototype.
\<close>

definition regular_document :: "js_runtime \<Rightarrow> resolved_config \<Rightarrow> js_object \<Rightarrow> bool" where
  "regular_document rt config data \<longleftrightarrow>
     distinct (map_keys data) \<and> (\<forall>k \<in> set (map_keys data). CHR ''.'' \<notin> set k) \<and>
     no_inherited rt ATTACHMENTS_FIELD \<and>
     (\<forall>q \<in> set (include_paths config). \<forall>k \<in> set (parts_of q). no_inherited rt k)"

abbreviation base_fields :: "js_runtime \<Rightarrow> (js_value \<Rightarrow> nat option) \<Rightarrow> js_object \<Rightarrow> resolved_config \<Rightarrow> js_object" where
  "base_fields rt jl data config \<equiv>
     foldl (include_field rt config data) (auto_fields jl config data) (include_paths config)"

lemma extract_eq:
  "extractSummaryFields rt jl data config =
     (if includeAttachments config \<and> \<not> isExcluded ATTACHMENTS_FIELD (exclude_paths config)
      then (case projectAttachments (member_get (rt_proto rt) (JObj data) ATTACHMENTS_FIELD) of
              Some attachments \<Rightarrow> AList.update ATTACHMENTS_FIELD attachments (base_fields rt jl data config)
            | None \<Rightarrow> base_fields rt jl data config)
      else base_fields rt jl data config)"
  by (simp add: extractSummaryFields_def Let_def)

lemma auto_fold:
  fixes data :: js_object
  assumes "distinct (map_keys data)" "set (map_keys acc) \<inter> set (map_keys data) = {}"
  shows "foldl (\<lambda>flds (key, v). if auto_included jl config key v then AList.update key v flds else flds) acc data =
    acc @ filter (\<lambda>(k, v). auto_included jl config k v) data"
  using assms
proof (induction data arbitrary: acc)
  case (Cons kv data)
  obtain k v where kv: "kv = (k, v)" by fastforce
  show ?case
  proof (cases "auto_included jl config k v")
    case True
    then have "AList.update k v acc = acc @ [(k, v)]" using Cons.prems kv by (simp add: update_fresh)
    then show ?thesis using Cons.IH [of "acc @ [(k, v)]"] Cons.prems True kv by auto
  next
    case False
    then show ?thesis using Cons.IH [of acc] Cons.prems kv by auto
  qed
qed simp

lemma auto_fields_eq:
  "distinct (map_keys data) \<Longrightarrow>
     auto_fields jl config data =
       (if autoInclude config then filter (\<lambda>(k, v). auto_included jl config k v) data else [])"
  using auto_fold [of data "[]" jl config] by (simp add: auto_fields_def)

lemma base_fields_own:
  assumes "regular_document rt config data" "(k, v) \<in> set (base_fields rt jl data config)"
  shows "own (JObj data) (parts_of k) = Some v"
proof -
  have auto: "own (JObj data) (parts_of k) = Some v" if "(k, v) \<in> set (auto_fields jl config data)" for k v
  proof -
    have "(k, v) \<in> set data" using that assms(1)
      by (auto simp: auto_fields_eq regular_document_def split: if_splits)
    then have "map_of data k = Some v" "CHR ''.'' \<notin> set k" using assms(1) by (auto simp: regular_document_def)
    then show ?thesis by (simp add: split_on_single)
  qed
  have "own (JObj data) (parts_of k) = Some v"
    if "(k, v) \<in> set (foldl (include_field rt config data) acc ps)" "set ps \<subseteq> set (include_paths config)"
      "\<forall>(k, v) \<in> set acc. own (JObj data) (parts_of k) = Some v" for k v acc ps
    using that
  proof (induction ps arbitrary: acc)
    case (Cons p ps)
    have "own (JObj data) (parts_of k) = Some v"
      if "(k, v) \<in> set (include_field rt config data acc p)" for k v
    proof -
      have "\<forall>n \<in> set (parts_of p). no_inherited rt n"
        using assms(1) Cons.prems(2) by (auto simp: regular_document_def)
      note resolveFieldPath_own [OF this, of data]
      then show ?thesis
        using that Cons.prems(3) set_update_subset [of p "resolveFieldPath rt data p" acc]
        by (auto simp: include_field_def Let_def split: if_splits option.splits)
    qed
    then show ?case using Cons.IH [of "include_field rt config data acc p"] Cons.prems by auto
  qed auto
  from this [OF assms(2) subset_refl] show ?thesis using auto by blast
qed

lemma base_fields_distinct:
  assumes "distinct (map_keys data)"
  shows "distinct (map_keys (base_fields rt jl data config))"
proof -
  have "distinct (map_keys (foldl (include_field rt config data) acc ps))" if "distinct (map_keys acc)" for acc ps
    using that
  proof (induction ps arbitrary: acc)
    case (Cons p ps)
    then show ?case by (auto simp: include_field_def Let_def)
  qed simp
  moreover have "distinct (map_keys (auto_fields jl config data))"
    using assms by (simp add: auto_fields_eq distinct_map_filter)
  ultimately show ?thesis by blast
qed

lemma include_fold_keeps:
  assumes "map_of acc q = Some v" "resolveFieldPath rt data q = v"
  shows "map_of (foldl (include_field rt config data) acc ps) q = Some v"
  using assms
proof (induction ps arbitrary: acc)
  case (Cons p ps)
  have "map_of (include_field rt config data acc p) q = Some v"
    using Cons.prems by (auto simp: include_field_def Let_def map_of_update)
  then show ?case using Cons.IH Cons.prems(2) by simp
qed simp

lemma base_fields_included:
  assumes "q \<in> set (include_paths config)" "\<not> isExcluded q (exclude_paths config)"
    "resolveFieldPath rt data q = v" "v \<noteq> JUndefined"
  shows "map_of (base_fields rt jl data config) q = Some v"
proof -
  obtain l r where split: "include_paths config = l @ q # r" using assms(1) by (meson split_list)
  have "map_of (include_field rt config data acc q) q = Some v" for acc
    using assms(2-4) by (simp add: include_field_def Let_def map_of_update)
  then show ?thesis unfolding split by (simp add: include_fold_keeps assms(3))
qed

lemma extract_own:
  assumes "regular_document rt config data" "(k, v) \<in> set (extractSummaryFields rt jl data config)"
  shows "own (JObj (shown_data rt config data)) (parts_of k) = Some v"
proof (cases "includeAttachments config \<and> \<not> isExcluded ATTACHMENTS_FIELD (exclude_paths config) \<and>
    projectAttachments (member_get (rt_proto rt) (JObj data) ATTACHMENTS_FIELD) \<noteq> None")
  case True
  then obtain a where a: "projectAttachments (member_get (rt_proto rt) (JObj data) ATTACHMENTS_FIELD) = Some a"
    by blast
  have shown: "shown_data rt config data = AList.update ATTACHMENTS_FIELD a data"
    using True a by (simp add: shown_data_def)
  have "map_of (extractSummaryFields rt jl data config) k = Some v"
    using assms base_fields_distinct [of data rt config jl] True a
    by (simp add: regular_document_def extract_eq)
  then have at: "((map_of (base_fields rt jl data config))(ATTACHMENTS_FIELD \<mapsto> a)) k = Some v"
    using True a by (simp add: extract_eq map_of_update)
  have dotless: "parts_of ATTACHMENTS_FIELD = [ATTACHMENTS_FIELD]"
    by (rule split_on_single) (simp add: ATTACHMENTS_FIELD_def)
  show ?thesis
  proof (cases "k = ATTACHMENTS_FIELD")
    case True
    then show ?thesis using at dotless by (simp add: shown map_of_update)
  next
    case False
    then have "map_of (base_fields rt jl data config) k = Some v" using at by simp
    then have base: "own (JObj data) (parts_of k) = Some v" by (rule base_fields_own [OF assms(1) map_of_SomeD])
    have "hd (parts_of k) \<noteq> ATTACHMENTS_FIELD"
    proof
      assume hd: "hd (parts_of k) = ATTACHMENTS_FIELD"
      obtain xs where arr: "member_get (rt_proto rt) (JObj data) ATTACHMENTS_FIELD = JArr xs"
        using a by (cases "member_get (rt_proto rt) (JObj data) ATTACHMENTS_FIELD")
          (auto simp: projectAttachments_def)
      then have "map_of data ATTACHMENTS_FIELD = Some (JArr xs)"
        using assms(1) by (auto simp: regular_document_def no_inherited_def split: option.splits)
      then have "tl (parts_of k) = []"
        using base hd by (cases "parts_of k"; cases "tl (parts_of k)") auto
      then have "parts_of k = parts_of ATTACHMENTS_FIELD" using hd dotless by (cases "parts_of k") auto
      moreover have "CHR ''.'' \<notin> set k"
      proof
        assume "CHR ''.'' \<in> set k"
        then obtain l r where "k = l @ CHR ''.'' # r" by (meson split_list)
        then have "parts_of k = parts_of l @ parts_of r" by (simp add: split_on_join)
        then show False using \<open>tl (parts_of k) = []\<close> by (cases "parts_of l") auto
      qed
      ultimately show False using False dotless by (simp add: split_on_single)
    qed
    then show ?thesis unfolding shown using base by (simp add: own_update_other)
  qed
next
  case False
  then have "(k, v) \<in> set (base_fields rt jl data config)" "shown_data rt config data = data"
    using assms(2) by (auto simp: extract_eq shown_data_def split: option.splits if_splits)
  then show ?thesis using base_fields_own [OF assms(1)] by simp
qed

lemma extract_distinct:
  assumes "distinct (map_keys data)"
  shows "distinct (map_keys (extractSummaryFields rt jl data config))"
  using base_fields_distinct [OF assms, of rt config jl] by (simp add: extract_eq split: option.split)

lemma extract_other:
  "q \<noteq> ATTACHMENTS_FIELD \<Longrightarrow> map_of (extractSummaryFields rt jl data config) q = map_of (base_fields rt jl data config) q"
  by (simp add: extract_eq map_of_update split: option.split)

lemma evaluation_doc_approx:
  assumes "regular_document rt config data" "map_of data ''_lastModified'' = Some (JNum t)"
    and doc_def: "doc = buildSummaryEvaluationDoc (extractSummaryFields rt jl data config) (Some t)"
  shows "approx (JObj doc) (JObj (shown_data rt config data)) \<and>
    exact_at doc (shown_data rt config data) [''_lastModified''] \<and>
    (\<forall>(k, v) \<in> set (extractSummaryFields rt jl data config). exact_at doc (shown_data rt config data) (parts_of k))"
proof -
  let ?shown = "shown_data rt config data"
  let ?flds = "extractSummaryFields rt jl data config"
  have own: "\<forall>(k, v) \<in> set ?flds. own (JObj ?shown) (parts_of k) = Some v"
    using extract_own [OF assms(1)] by auto
  have last: "map_of ?shown ''_lastModified'' = Some (JNum t)"
    using own_shown_other [of "[''_lastModified'']" rt config data] assms(2)
    by (simp add: ATTACHMENTS_FIELD_def split: option.splits)
  show ?thesis
  proof (cases "list_ex (\<lambda>k. CHR ''.'' \<in> set k) (map_keys ?flds)")
    case True
    then have doc: "doc = foldl expand_field [(''_lastModified'', JNum t)] ?flds"
      by (simp add: doc_def buildSummaryEvaluationDoc_def)
    have "approx (JObj [(''_lastModified'', JNum t)]) (JObj ?shown)"
      by (rule approx.obj) (use last approx.same in \<open>auto split: if_splits\<close>)
    note built = expand_fields_approx [OF this own]
    have "exact_at [(''_lastModified'', JNum t)] ?shown [''_lastModified'']"
      using last by (simp add: exact_at_def)
    with built have "exact_at doc ?shown [''_lastModified'']" unfolding doc by blast
    moreover have "exact_at doc ?shown (parts_of k)" if "(k, v) \<in> set ?flds" for k v
    proof -
      have "parts_of k \<in> (\<lambda>(k, v). parts_of k) ` set ?flds" using that by force
      then show ?thesis using built unfolding doc by blast
    qed
    ultimately show ?thesis using built unfolding doc by auto
  next
    case False
    then have doc: "doc = AList.update ''_lastModified'' (JNum t) ?flds"
      by (simp add: doc_def buildSummaryEvaluationDoc_def)
    have dotless: "parts_of k = [k]" if "(k, v) \<in> set ?flds" for k v
      using False that by (force simp: list_ex_iff split_on_single)
    have at: "map_of ?shown k = Some v" if "map_of ?flds k = Some v" for k v
      using own map_of_SomeD [OF that] dotless [OF map_of_SomeD [OF that]] by (force split: option.splits)
    have eq: "map_of doc k = Some v \<Longrightarrow> map_of ?shown k = Some v" for k v
      using at last unfolding doc by (auto simp: map_of_update split: if_splits)
    have dist: "distinct (map_keys ?flds)" using extract_distinct assms(1) by (auto simp: regular_document_def)
    have "exact_at doc ?shown (parts_of k)" if "(k, v) \<in> set ?flds" for k v
    proof -
      have "\<exists>x. map_of doc k = Some x" using that dist unfolding doc by (auto simp: map_of_update)
      then show ?thesis using eq dotless [OF that] by (auto simp: exact_at_def)
    qed
    moreover have "exact_at doc ?shown [''_lastModified'']"
      using last unfolding doc by (simp add: exact_at_def map_of_update)
    moreover have "approx (JObj doc) (JObj ?shown)" by (rule approx.obj) (use eq approx.same in blast)
    ultimately show ?thesis by auto
  qed
qed

section \<open>Covered paths\<close>

lemma own_prefix_None: "own v ks = None \<Longrightarrow> own v (ks @ r) = None"
  by (simp add: own_append)

lemma exact_extends: "exact_at doc data ks \<Longrightarrow> own (JObj doc) (ks @ r) = own (JObj data) (ks @ r)"
  by (auto simp: exact_at_def own_append)

lemma own_below_undefined: "own v ks = Some JUndefined \<Longrightarrow> own v (ks @ r) = (if r = [] then Some JUndefined else None)"
  by (cases r) (simp_all add: own_append)

text \<open>A value the document lacks is lacking in an approximation too.\<close>

lemma approx_lacks:
  assumes "approx v w" "own w ks \<in> {None, Some JUndefined}"
  shows "own v ks \<in> {None, Some JUndefined}"
proof (cases "own v ks")
  case (Some x)
  then obtain y where "own w ks = Some y" "approx x y" using approx_own [OF assms(1)] by blast
  then show ?thesis using assms(2) Some by (auto elim: approx.cases)
qed simp

lemma approx_crosses:
  assumes "approx v w" "\<not> crosses_array w ks"
  shows "\<not> crosses_array v ks"
proof
  assume "crosses_array v ks"
  then obtain i xs where i: "i < length ks" "own v (take i ks) = Some (JArr xs)"
    by (auto simp: crosses_array_def)
  then obtain y where y: "own w (take i ks) = Some y" "approx (JArr xs) y" using approx_own [OF assms(1)] by blast
  from y(2) have "y = JArr xs" by (cases rule: approx.cases) simp_all
  then show False using assms(2) i y(1) by (auto simp: crosses_array_def)
qed

lemma crosses_shown:
  assumes "hd ks \<noteq> ATTACHMENTS_FIELD"
  shows "crosses_array (JObj (shown_data rt config data)) ks = crosses_array (JObj data) ks"
proof -
  have "own (JObj (shown_data rt config data)) (take i ks) = Some (JArr xs) \<longleftrightarrow>
        own (JObj data) (take i ks) = Some (JArr xs)" if "i < length ks" for i xs
  proof (cases i)
    case (Suc j)
    then have "take i ks \<noteq> []" "hd (take i ks) \<noteq> ATTACHMENTS_FIELD" using that assms by (cases ks; simp)+
    then show ?thesis by (simp add: own_shown_other)
  qed simp
  then show ?thesis unfolding crosses_array_def by blast
qed

text \<open>
  The value at the top of a path that only auto-inclusion covers is one that auto-inclusion takes,
  or the document has no such property.
\<close>

definition storable :: "(js_value \<Rightarrow> nat option) \<Rightarrow> resolved_config \<Rightarrow> js_object \<Rightarrow> string \<Rightarrow> bool" where
  "storable jl config data path \<longleftrightarrow>
     list_ex (path_below path) (include_paths config) \<or> path = ''_lastModified'' \<or>
     (case map_of data (hd (parts_of path)) of
        None \<Rightarrow> True
      | Some v \<Rightarrow> isAutoIncludableValue v \<and> \<not> too_large jl config v)"

lemma isExcluded_below: "path_below p q \<Longrightarrow> isExcluded q xs \<Longrightarrow> isExcluded p xs"
  by (auto simp: isExcluded_def list_ex_iff intro: path_below_trans)

lemma hd_parts_own_None: "map_of data (hd ks) = None \<Longrightarrow> ks \<noteq> [] \<Longrightarrow> own (JObj data) ks = None"
  by (cases ks) simp_all

lemma path_below_hd:
  assumes "p \<noteq> hd (parts_of p)" shows "path_below p (hd (parts_of p))"
proof -
  let ?h = "takeWhile (\<lambda>x. x \<noteq> CHR ''.'') p" and ?t = "dropWhile (\<lambda>x. x \<noteq> CHR ''.'') p"
  have split: "p = ?h @ ?t" by simp
  have "?t \<noteq> []"
  proof
    assume "?t = []"
    then have "p = ?h" by (metis append_Nil2 takeWhile_dropWhile_id)
    then show False using assms by (simp add: hd_split_on)
  qed
  then obtain r where "?t = CHR ''.'' # r" using hd_dropWhile [of "\<lambda>x. x \<noteq> CHR ''.''" p] by (cases ?t) auto
  then have "p = (?h @ ''.'') @ r" using split by simp
  then show ?thesis unfolding path_below_def hd_split_on prefix_def by blast
qed

lemma map_of_filter_keep:
  "map_of m k = Some v \<Longrightarrow> P k v \<Longrightarrow> map_of (filter (\<lambda>(k, v). P k v) m) k = Some v"
  by (induction m) (auto split: if_splits)

text \<open>At a covered and storable path the evaluation document is exact, or the document has nothing there.\<close>

lemma covered_exact:
  assumes reg: "regular_document rt config data" and last: "map_of data ''_lastModified'' = Some (JNum t)"
    and covered: "isFieldPathCovered p config" "storable jl config data p" "hd (parts_of p) \<noteq> ATTACHMENTS_FIELD"
    and doc: "doc = buildSummaryEvaluationDoc (extractSummaryFields rt jl data config) (Some t)"
  shows "own (JObj doc) (parts_of p) = own (JObj (shown_data rt config data)) (parts_of p) \<or>
         own (JObj data) (parts_of p) \<in> {None, Some JUndefined}"
proof -
  let ?shown = "shown_data rt config data"
  let ?flds = "extractSummaryFields rt jl data config"
  note built = evaluation_doc_approx [OF reg last doc]
  have exact: "own (JObj doc) (parts_of k @ r) = own (JObj ?shown) (parts_of k @ r)" if "map_of ?flds k = Some v" for k v r
    using built map_of_SomeD [OF that] by (intro exact_extends) auto
  show ?thesis
  proof (cases "list_ex (path_below p) (include_paths config)")
    case True
    then obtain q where q: "q \<in> set (include_paths config)" "path_below p q" by (auto simp: list_ex_iff)
    obtain r where r: "parts_of p = parts_of q @ r" using path_below_parts [OF q(2)] by blast
    have "\<not> isExcluded q (exclude_paths config)"
      using covered(1) isExcluded_below [OF q(2)] by (auto simp: isFieldPathCovered_def)
    note inc = base_fields_included [OF q(1) this refl, of rt data jl]
    have notatt: "q \<noteq> ATTACHMENTS_FIELD"
      using covered(3) r by (auto simp: ATTACHMENTS_FIELD_def)
    have "\<forall>k \<in> set (parts_of q). no_inherited rt k" using reg q(1) by (auto simp: regular_document_def)
    note val = resolveFieldPath_own [OF this, of data]
    show ?thesis
    proof (cases "\<exists>x. own (JObj data) (parts_of q) = Some x \<and> x \<noteq> JUndefined")
      case True
      then obtain x where "own (JObj data) (parts_of q) = Some x" "x \<noteq> JUndefined" by blast
      then have "map_of ?flds q = Some x"
        using inc val notatt by (simp add: extract_other)
      then show ?thesis using exact r by metis
    next
      case False
      then have "own (JObj data) (parts_of q) \<in> {None, Some JUndefined}"
        by (cases "own (JObj data) (parts_of q)") auto
      then show ?thesis unfolding r by (auto simp: own_prefix_None own_below_undefined)
    qed
  next
    case False
    let ?top = "hd (parts_of p)"
    show ?thesis
    proof (cases "p = ''_lastModified''")
      case True
      have "own (JObj doc) ([''_lastModified''] @ []) = own (JObj ?shown) ([''_lastModified''] @ [])"
        using built by (intro exact_extends) auto
      then show ?thesis using True by simp
    next
      case notlast: False
      obtain r where r: "parts_of p = ?top # r" by (metis list.collapse split_on_ne)
      show ?thesis
      proof (cases "map_of data ?top")
        case None
        then show ?thesis using hd_parts_own_None split_on_ne by blast
      next
        case (Some v)
        have topdef: "?top = takeWhile (\<lambda>c. c \<noteq> CHR ''.'') p" by (rule hd_split_on)
        have cov: "autoInclude config" "\<not> prefix ''_'' ?top" "\<not> isEncryptedConventionField ?top"
          "\<not> isExcluded p (exclude_paths config)"
          using covered(1,3) False notlast unfolding isFieldPathCovered_def topdef [symmetric] Let_def
          by (auto split: if_splits)
        have "\<not> isExcluded ?top (exclude_paths config)"
          using cov(4) path_below_hd isExcluded_below by metis
        then have "auto_included jl config ?top v"
          using cov covered(2) False notlast Some by (simp add: auto_included_def storable_def)
        moreover have dist: "distinct (map_keys data)" using reg by (simp add: regular_document_def)
        ultimately have "map_of (auto_fields jl config data) ?top = Some v"
          unfolding auto_fields_eq [OF dist] using cov(1)
          by (simp only: if_True map_of_filter_keep [OF Some])
        moreover have dotless: "parts_of ?top = [?top]"
          unfolding topdef by (rule split_on_single) (auto dest: set_takeWhileD)
        then have "CHR ''.'' \<notin> set ?top" unfolding topdef by (auto dest: set_takeWhileD)
        then have "map_of (base_fields rt jl data config) ?top = Some v" if "resolveFieldPath rt data ?top = v"
          using include_fold_keeps calculation that by metis
        moreover have "resolveFieldPath rt data ?top = v"
          using Some \<open>CHR ''.'' \<notin> set ?top\<close> by (simp add: resolveFieldPath_def)
        ultimately have "map_of ?flds ?top = Some v" using covered(3) by (simp add: extract_other)
        from exact [OF this, of r] show ?thesis using r dotless by simp
      qed
    qed
  qed
qed

text \<open>A covered path leads to the same own value in both documents, or to none in either.\<close>

lemma covered_own:
  assumes "regular_document rt config data" "map_of data ''_lastModified'' = Some (JNum t)"
    "isFieldPathCovered path config" "storable jl config data path" "hd (parts_of path) \<noteq> ATTACHMENTS_FIELD"
    "\<not> crosses_array (JObj data) (parts_of path)"
    and doc: "doc = buildSummaryEvaluationDoc (extractSummaryFields rt jl data config) (Some t)"
  shows "own (JObj doc) (parts_of path) = own (JObj data) (parts_of path) \<or>
      own (JObj data) (parts_of path) \<in> {None, Some JUndefined} \<and>
      own (JObj doc) (parts_of path) \<in> {None, Some JUndefined}"
    and "\<not> crosses_array (JObj doc) (parts_of path)"
proof -
  note app = evaluation_doc_approx [OF assms(1,2) doc, THEN conjunct1]
  have shown: "own (JObj (shown_data rt config data)) (parts_of path) = own (JObj data) (parts_of path)"
    using assms(5) by (simp add: own_shown_other)
  show "\<not> crosses_array (JObj doc) (parts_of path)"
    using approx_crosses [OF app] assms(5,6) by (simp add: crosses_shown)
  show "own (JObj doc) (parts_of path) = own (JObj data) (parts_of path) \<or>
      own (JObj data) (parts_of path) \<in> {None, Some JUndefined} \<and>
      own (JObj doc) (parts_of path) \<in> {None, Some JUndefined}"
    using covered_exact [OF assms(1-5) doc] approx_lacks [OF app, of "parts_of path"] shown by auto
qed

text \<open>
  C35. What the summary keeps of a covered field. Take a document without repeated or dotted
  property names and with its managed modification time, and a path that the configuration covers,
  that is not in the attachment list, whose value auto-inclusion can store where no included path
  is above it, that crosses no array, and of whose names none is inherited from a prototype. It has
  the same value in the document that queries are evaluated against as in the document itself,
  whatever other paths are included and in whatever order. The attachment list is kept as its slim
  projection, also where its path is included.
\<close>

theorem summary_keeps_covered:
  assumes "regular_document rt config data" "map_of data ''_lastModified'' = Some (JNum t)"
    "isFieldPathCovered path config" "storable jl config data path" "hd (parts_of path) \<noteq> ATTACHMENTS_FIELD"
    "\<forall>k \<in> set (parts_of path). no_inherited rt k" "\<not> crosses_array (JObj data) (parts_of path)"
  shows "getFieldValue rt (JObj (buildSummaryEvaluationDoc (extractSummaryFields rt jl data config) (Some t))) path =
         getFieldValue rt (JObj data) path"
proof -
  note own = covered_own [OF assms(1-5,7) refl]
  show ?thesis
    using own(1) unfolding getFieldValue_def foldl_member_own [OF assms(6) own(2)] foldl_member_own [OF assms(6,7)] by auto
qed

section \<open>Witnesses and boundary cases\<close>

definition sample_config :: resolved_config where
  "sample_config = resolveSummaryConfig (Some \<lparr> sc_autoInclude = None, sc_maxValueBytes = None,
     sc_include = Some [''meta.owner'', ''meta''], sc_exclude = Some [''draft''], sc_includeAttachments = None \<rparr>)"

definition sample_data :: js_object where
  "sample_data = [(''title'', JStr ''x''), (''meta'', JObj [(''owner'', JStr ''ann''), (''n'', JNum 3)]),
     (''_lastModified'', JNum 7), (''_attachments'', JArr [JObj [(''fileName'', JStr ''a.pdf'')]])]"

lemma no_inherited_bare [simp]: "no_inherited bare_runtime name"
  by (simp add: no_inherited_def bare_runtime_def)

theorem summary_keeps_covered_witness:
  "getFieldValue bare_runtime
      (JObj (buildSummaryEvaluationDoc (extractSummaryFields bare_runtime (\<lambda>v. Some 1) sample_data sample_config) (Some 7)))
      ''meta.owner'' = getFieldValue bare_runtime (JObj sample_data) ''meta.owner''"
proof (rule summary_keeps_covered)
  show "regular_document bare_runtime sample_config sample_data"
    unfolding regular_document_def by (simp add: sample_data_def)
  show "map_of sample_data ''_lastModified'' = Some (JNum 7)" by (simp add: sample_data_def)
  show "isFieldPathCovered ''meta.owner'' sample_config" by code_simp
  show "storable (\<lambda>v. Some 1) sample_config sample_data ''meta.owner''" by code_simp
  show "hd (parts_of ''meta.owner'') \<noteq> ATTACHMENTS_FIELD" by code_simp
  show "\<forall>k \<in> set (parts_of ''meta.owner''). no_inherited bare_runtime k" by simp
  have "own (JObj sample_data) (take i [''meta'', ''owner'']) \<noteq> Some (JArr xs)" if "i < 2" for i xs
    using that by (auto simp: less_2_cases_iff sample_data_def)
  then show "\<not> crosses_array (JObj sample_data) (parts_of ''meta.owner'')"
    by (simp add: crosses_array_def numeral_2_eq_2)
qed

text \<open>
  An excluded path below an included one: queries on it are refused, but its value is stored
  with the included object.
\<close>

lemma excluded_value_stored_below_include:
  "isFieldPathCovered ''meta.secret''
      \<lparr> autoInclude = False, maxValueBytes = 0, include_paths = [''meta''], exclude_paths = [''meta.secret''],
        includeAttachments = False \<rparr> = False \<and>
   extractSummaryFields bare_runtime (\<lambda>v. Some 1) [(''meta'', JObj [(''secret'', JStr ''s'')])]
      \<lparr> autoInclude = False, maxValueBytes = 0, include_paths = [''meta''], exclude_paths = [''meta.secret''],
        includeAttachments = False \<rparr> =
     [(''meta'', JObj [(''secret'', JStr ''s'')])]"
  by code_simp

text \<open>A property whose own name has a dot answers for a nested path that the document does not have.\<close>

lemma dotted_name_read_as_path:
  "getFieldValue bare_runtime (JObj [(''a.b'', JNum 5)]) ''a.b'' = JUndefined \<and>
   getFieldValue bare_runtime
     (JObj (buildSummaryEvaluationDoc
        (extractSummaryFields bare_runtime (\<lambda>v. Some 1) [(''a.b'', JNum 5)] (resolveSummaryConfig None)) None)) ''a.b'' =
     JNum 5"
  by code_simp

text \<open>Explicitly included paths do not step into arrays, although field references do.\<close>

lemma include_stops_at_array:
  "getFieldValue bare_runtime (JObj [(''tags'', JArr [JStr ''x''])]) ''tags.0'' = JStr ''x'' \<and>
   resolveFieldPath bare_runtime [(''tags'', JArr [JStr ''x''])] ''tags.0'' = JUndefined"
  by code_simp

text \<open>An included path of the attachment list does not keep the list: the projection replaces it.\<close>

lemma included_attachments_projected:
  "isFieldPathCovered ''_attachments'' (resolveSummaryConfig (Some \<lparr> sc_autoInclude = None, sc_maxValueBytes = None,
      sc_include = Some [''_attachments''], sc_exclude = None, sc_includeAttachments = None \<rparr>)) \<and>
   extractSummaryFields bare_runtime (\<lambda>v. Some 1)
      [(''_attachments'', JArr [JObj [(''fileName'', JStr ''a''), (''lastChunkId'', JStr ''c'')]])]
      (resolveSummaryConfig (Some \<lparr> sc_autoInclude = None, sc_maxValueBytes = None,
        sc_include = Some [''_attachments''], sc_exclude = None, sc_includeAttachments = None \<rparr>)) =
     [(''_attachments'', JArr [JObj [(''fileName'', JStr ''a'')]])]"
  by code_simp

end
