(* ===== verification/ChangeFeed.thy ===== *)
theory ChangeFeed
  imports IdGeneration
begin

text \<open>
  The change feed of a database (\<^verbatim>\<open>core/BaseMindooDB.ts\<close>: the index, its lookup map, and
  the iteration from a cursor). The index is a list sorted by change sequence; a map from
  document ids to positions is repaired lazily after an entry has moved. The tie-break
  \<^verbatim>\<open>localeCompare\<close> is an argument. Listener notifications and timing callbacks are left out.
\<close>

section \<open>State\<close>

datatype access_state = Visible | Inaccessible

record index_entry =
  ie_docId :: string
  ie_changeSeq :: int
  ie_lastModified :: int
  ie_isDeleted :: bool
  ie_decryptionKeyId :: string
  ie_accessState :: access_state
  ie_awaitingWitness :: bool
  ie_witnessed :: bool

record feed_index =
  fx_index :: "index_entry list"
  fx_lookup :: "(string, nat) jsmap"
  fx_staleFrom :: "nat option"
  fx_nextSeq :: int

definition empty_index :: feed_index where
  "empty_index = \<lparr> fx_index = [], fx_lookup = [], fx_staleFrom = None, fx_nextSeq = 1 \<rparr>"

text \<open>A cursor; the legacy timestamp of the code is not read.\<close>

record change_cursor =
  cc_changeSeq :: "int option"
  cc_docId :: string

section \<open>Looking up and moving an entry\<close>

definition compareIndexEntries ::
  "(string \<Rightarrow> string \<Rightarrow> int) \<Rightarrow> string \<Rightarrow> int \<Rightarrow> index_entry \<Rightarrow> int" where
  "compareIndexEntries lc docId changeSeq b =
     (if changeSeq \<noteq> ie_changeSeq b then changeSeq - ie_changeSeq b else lc docId (ie_docId b))"

definition flushIndexLookupPatch :: "feed_index \<Rightarrow> feed_index" where
  "flushIndexLookupPatch st =
     (case fx_staleFrom st of
        None \<Rightarrow> st
      | Some from \<Rightarrow>
          st \<lparr> fx_lookup := foldl (\<lambda>m i. AList.update (ie_docId (fx_index st ! i)) i m) (fx_lookup st)
                 [from..<length (fx_index st)],
               fx_staleFrom := None \<rparr>)"

definition getDocIndexPosition :: "feed_index \<Rightarrow> string \<Rightarrow> nat option \<times> feed_index" where
  "getDocIndexPosition st docId =
     (case map_of (fx_lookup st) docId of
        None \<Rightarrow> (None, st)
      | Some pos \<Rightarrow>
          (if pos < length (fx_index st) \<and> ie_docId (fx_index st ! pos) = docId then (Some pos, st)
           else (let st' = flushIndexLookupPatch st in (map_of (fx_lookup st') docId, st'))))"

text \<open>The binary search of both callers: \<open>cmp\<close> compares what is searched with an entry.\<close>

function search_after :: "(index_entry \<Rightarrow> int) \<Rightarrow> index_entry list \<Rightarrow> int \<Rightarrow> int \<Rightarrow> nat \<Rightarrow> nat" where
  "search_after cmp xs left right found =
     (if left \<le> right then
        (let mid = (left + right) div 2
         in if cmp (xs ! nat mid) < 0 then search_after cmp xs left (mid - 1) (nat mid)
            else search_after cmp xs (mid + 1) right (nat mid + 1))
      else found)"
  by auto
termination by (relation "measure (\<lambda>(cmp, xs, left, right, found). nat (right - left + 1))") auto

declare search_after.simps [simp del]

text \<open>The record of one update: what \<^verbatim>\<open>updateIndex\<close> is called with.\<close>

record index_change =
  ic_docId :: string
  ic_lastModified :: int
  ic_isDeleted :: bool
  ic_decryptionKeyId :: string
  ic_accessState :: access_state
  ic_awaitingWitness :: bool
  ic_witnessed :: bool
  ic_force :: bool

definition entry_of_change :: "int \<Rightarrow> index_change \<Rightarrow> index_entry" where
  "entry_of_change changeSeq c =
     \<lparr> ie_docId = ic_docId c, ie_changeSeq = changeSeq, ie_lastModified = ic_lastModified c,
       ie_isDeleted = ic_isDeleted c, ie_decryptionKeyId = ic_decryptionKeyId c,
       ie_accessState = ic_accessState c, ie_awaitingWitness = ic_awaitingWitness c,
       ie_witnessed = ic_witnessed c \<rparr>"

text \<open>The comparison of the tracked fields.\<close>

definition same_tracked :: "index_entry \<Rightarrow> index_change \<Rightarrow> bool" where
  "same_tracked e c \<longleftrightarrow>
     ie_lastModified e = ic_lastModified c \<and> ie_isDeleted e = ic_isDeleted c \<and>
     ie_decryptionKeyId e = ic_decryptionKeyId c \<and> ie_accessState e = ic_accessState c \<and>
     ie_awaitingWitness e = ic_awaitingWitness c \<and> ie_witnessed e = ic_witnessed c"

definition place_entry :: "(string \<Rightarrow> string \<Rightarrow> int) \<Rightarrow> index_entry \<Rightarrow> nat option \<Rightarrow> feed_index \<Rightarrow> feed_index" where
  "place_entry lc newEntry existing st =
     (let index = (case existing of
                     None \<Rightarrow> fx_index st
                   | Some e \<Rightarrow> take e (fx_index st) @ drop (Suc e) (fx_index st));
          lookup = (case existing of
                      None \<Rightarrow> fx_lookup st | Some e \<Rightarrow> AList.delete (ie_docId newEntry) (fx_lookup st));
          insertIndex = search_after (compareIndexEntries lc (ie_docId newEntry) (ie_changeSeq newEntry)) index
            0 (int (length index) - 1) (length index);
          index' = take insertIndex index @ newEntry # drop insertIndex index;
          shiftedFrom = (case existing of None \<Rightarrow> insertIndex | Some e \<Rightarrow> min e insertIndex)
      in \<lparr> fx_index = index',
           fx_lookup = AList.update (ie_docId newEntry) insertIndex lookup,
           fx_staleFrom =
             (if int shiftedFrom < int (length index') - 1
              then Some (case fx_staleFrom st of None \<Rightarrow> shiftedFrom | Some s \<Rightarrow> min s shiftedFrom)
              else fx_staleFrom st),
           fx_nextSeq = ie_changeSeq newEntry + 1 \<rparr>)"

definition updateIndex :: "(string \<Rightarrow> string \<Rightarrow> int) \<Rightarrow> index_change \<Rightarrow> feed_index \<Rightarrow> feed_index" where
  "updateIndex lc c st0 =
     (let newEntry = entry_of_change (fx_nextSeq st0) c;
          (existing, st) = getDocIndexPosition st0 (ic_docId c)
      in if (case existing of
               Some e \<Rightarrow> \<not> ic_force c \<and> same_tracked (fx_index st ! e) c | None \<Rightarrow> False)
         then st
         else place_entry lc newEntry existing st)"

section \<open>Reading the feed\<close>

definition initial_cursor :: change_cursor where
  "initial_cursor = \<lparr> cc_changeSeq = Some 0, cc_docId = '''' \<rparr>"

definition getStartIndexForCursor ::
  "(string \<Rightarrow> string \<Rightarrow> int) \<Rightarrow> index_entry list \<Rightarrow> change_cursor \<Rightarrow> nat" where
  "getStartIndexForCursor lc index cursor =
     (if index = [] then 0
      else
        (let cursorSeq = (case cc_changeSeq cursor of Some s \<Rightarrow> s | None \<Rightarrow> 0);
             startIndex = search_after (compareIndexEntries lc (cc_docId cursor) cursorSeq) index
               0 (int (length index) - 1) 0
         in if startIndex < length index \<and> ie_changeSeq (index ! startIndex) = cursorSeq \<and>
               ie_docId (index ! startIndex) = cc_docId cursor
            then startIndex + 1 else startIndex))"

definition cursor_of :: "index_entry \<Rightarrow> change_cursor" where
  "cursor_of e = \<lparr> cc_changeSeq = Some (ie_changeSeq e), cc_docId = ie_docId e \<rparr>"

text \<open>
  The entries that a metadata iteration yields, each with its cursor; the index is copied at the
  start. An id prefix, stripped of trailing underscores, narrows the iteration.
\<close>

definition normalizeIdPrefixFilter :: "string option \<Rightarrow> string option" where
  "normalizeIdPrefixFilter idPrefix =
     (case idPrefix of
        None \<Rightarrow> None
      | Some p \<Rightarrow>
          (let stripped = rev (dropWhile (\<lambda>ch. ch = CHR ''_'') (rev p))
           in if length stripped > 0 then Some stripped else None))"

definition passes_prefix :: "string option \<Rightarrow> index_entry \<Rightarrow> bool" where
  "passes_prefix idPrefix e =
     (case idPrefix of None \<Rightarrow> True | Some p \<Rightarrow> matchesDocIdPrefix (ie_docId e) p)"

definition changes_since ::
  "(string \<Rightarrow> string \<Rightarrow> int) \<Rightarrow> string option \<Rightarrow> change_cursor option \<Rightarrow> feed_index \<Rightarrow> index_entry list" where
  "changes_since lc idPrefix cursor st =
     (let actual = (case cursor of Some c \<Rightarrow> c | None \<Rightarrow> initial_cursor);
          p = normalizeIdPrefixFilter idPrefix
      in filter (passes_prefix p) (drop (getStartIndexForCursor lc (fx_index st) actual) (fx_index st)))"

definition getLatestChangeCursor :: "feed_index \<Rightarrow> change_cursor option" where
  "getLatestChangeCursor st = (if fx_index st = [] then None else Some (cursor_of (last (fx_index st))))"

definition countChangesSince ::
  "(string \<Rightarrow> string \<Rightarrow> int) \<Rightarrow> string option \<Rightarrow> change_cursor option \<Rightarrow> feed_index \<Rightarrow> int" where
  "countChangesSince lc idPrefix cursor st =
     (let actual = (case cursor of Some c \<Rightarrow> c | None \<Rightarrow> initial_cursor);
          startIndex = getStartIndexForCursor lc (fx_index st) actual
      in (case normalizeIdPrefixFilter idPrefix of
            None \<Rightarrow> int (length (fx_index st)) - int startIndex
          | Some p \<Rightarrow>
              foldl (\<lambda>count i. if matchesDocIdPrefix (ie_docId (fx_index st ! i)) p then count + 1 else count) 0
                [startIndex..<length (fx_index st)]))"

definition getAllDocumentIds :: "string option \<Rightarrow> feed_index \<Rightarrow> string list" where
  "getAllDocumentIds idPrefix st =
     map ie_docId (filter (\<lambda>e. ie_accessState e = Visible \<and> \<not> ie_isDeleted e \<and>
       passes_prefix (normalizeIdPrefixFilter idPrefix) e) (fx_index st))"

definition getDeletedDocumentIds :: "string option \<Rightarrow> feed_index \<Rightarrow> string list" where
  "getDeletedDocumentIds idPrefix st =
     map ie_docId (filter (\<lambda>e. ie_accessState e = Visible \<and> ie_isDeleted e \<and>
       passes_prefix (normalizeIdPrefixFilter idPrefix) e) (fx_index st))"

text \<open>
  The index as a checkpoint restores it: entries whose fields are present, the lookup rebuilt,
  and the next sequence number raised when the checkpoint's is not above the number of entries.
\<close>

definition restore_index :: "index_entry list \<Rightarrow> int option \<Rightarrow> feed_index" where
  "restore_index index storedNext =
     (let next = (case storedNext of Some n \<Rightarrow> n | None \<Rightarrow> 1)
      in \<lparr> fx_index = index,
           fx_lookup = foldl (\<lambda>m i. AList.update (ie_docId (index ! i)) i m) [] [0..<length index],
           fx_staleFrom = None,
           fx_nextSeq =
             (if index \<noteq> [] \<and> next \<le> int (length index)
              then Max (set (map ie_changeSeq index)) + 1 else next) \<rparr>)"

section \<open>The invariant of the index\<close>

abbreviation clean_below :: "nat option \<Rightarrow> nat \<Rightarrow> bool" where
  "clean_below stale i \<equiv> (case stale of None \<Rightarrow> True | Some s \<Rightarrow> i < s)"

definition feed_inv :: "feed_index \<Rightarrow> bool" where
  "feed_inv st \<longleftrightarrow>
     sorted_wrt (<) (map ie_changeSeq (fx_index st)) \<and>
     (\<forall>e \<in> set (fx_index st). 1 \<le> ie_changeSeq e \<and> ie_changeSeq e < fx_nextSeq st) \<and>
     distinct (map ie_docId (fx_index st)) \<and> 1 \<le> fx_nextSeq st \<and>
     set (map_keys (fx_lookup st)) = ie_docId ` set (fx_index st) \<and>
     (\<forall>i < length (fx_index st). clean_below (fx_staleFrom st) i \<longrightarrow>
        map_of (fx_lookup st) (ie_docId (fx_index st ! i)) = Some i)"

lemma feed_invD:
  assumes "feed_inv st"
  shows "sorted_wrt (<) (map ie_changeSeq (fx_index st))"
    and "\<And>e. e \<in> set (fx_index st) \<Longrightarrow> 1 \<le> ie_changeSeq e"
    and "\<And>e. e \<in> set (fx_index st) \<Longrightarrow> ie_changeSeq e < fx_nextSeq st"
    and "distinct (map ie_docId (fx_index st))" and "1 \<le> fx_nextSeq st"
    and "set (map_keys (fx_lookup st)) = ie_docId ` set (fx_index st)"
    and "\<And>i. i < length (fx_index st) \<Longrightarrow> clean_below (fx_staleFrom st) i \<Longrightarrow>
          map_of (fx_lookup st) (ie_docId (fx_index st ! i)) = Some i"
  using assms by (auto simp: feed_inv_def)

lemma doc_index_unique:
  assumes "distinct (map f xs)" and "i < length xs" and "j < length xs" and "f (xs ! i) = f (xs ! j)"
  shows "i = j"
  using assms by (metis distinct_conv_nth length_map nth_map)

text \<open>Writing positions into the lookup, as the repair and the restore do.\<close>

lemma map_of_write_positions:
  assumes "distinct (map ie_docId xs)" and "m \<le> n" and "n \<le> length xs" and "i < length xs"
  shows "map_of (foldl (\<lambda>t i. AList.update (ie_docId (xs ! i)) i t) lk [m..<n]) (ie_docId (xs ! i)) =
    (if m \<le> i \<and> i < n then Some i else map_of lk (ie_docId (xs ! i)))"
  using assms(2,3)
proof (induction n rule: dec_induct)
  case (step n)
  have "ie_docId (xs ! i) = ie_docId (xs ! n) \<longleftrightarrow> i = n"
    using doc_index_unique [OF assms(1) assms(4)] step.prems by auto
  then show ?case using step by (auto simp: js_simps)
qed auto

lemma keys_write_positions:
  "fst ` set (foldl (\<lambda>t i. AList.update (ie_docId (xs ! i)) i t) lk is) =
   fst ` set lk \<union> (\<lambda>i. ie_docId (xs ! i)) ` set is"
  by (induction "is" arbitrary: lk) (auto simp add: dom_update simp del: set_map)

lemma flush_same [simp]:
  "fx_index (flushIndexLookupPatch st) = fx_index st" "fx_nextSeq (flushIndexLookupPatch st) = fx_nextSeq st"
  "fx_staleFrom (flushIndexLookupPatch st) = None" "clean_below (fx_staleFrom (flushIndexLookupPatch st)) i"
  by (auto simp: flushIndexLookupPatch_def split: option.splits)

lemma flush_inv:
  assumes "feed_inv st"
  shows "feed_inv (flushIndexLookupPatch st)"
proof (cases "fx_staleFrom st")
  case None
  then show ?thesis using assms by (simp add: flushIndexLookupPatch_def)
next
  case (Some fr)
  note inv = feed_invD [OF assms]
  let ?st = "flushIndexLookupPatch st"
  have keys: "set (map_keys (fx_lookup ?st)) = ie_docId ` set (fx_index st)"
    using inv(6) by (auto simp: flushIndexLookupPatch_def Some keys_write_positions)
  have "map_of (fx_lookup ?st) (ie_docId (fx_index st ! i)) = Some i" if i: "i < length (fx_index st)" for i
  proof (cases "fr \<le> length (fx_index st)")
    case True
    then show ?thesis
      using map_of_write_positions [OF inv(4) True order_refl i] inv(7) [OF i]
      by (simp add: flushIndexLookupPatch_def Some i)
  next
    case False
    then show ?thesis using inv(7) [OF i] i by (simp add: flushIndexLookupPatch_def Some)
  qed
  then show ?thesis using inv(1-5) keys by (simp add: feed_inv_def)
qed

text \<open>The lookup finds a document exactly where a scan of the index would.\<close>

lemma position_correct:
  assumes inv: "feed_inv st" and pos: "getDocIndexPosition st d = (r, st')"
  shows "feed_inv st'" "fx_index st' = fx_index st" "fx_nextSeq st' = fx_nextSeq st"
    "case r of None \<Rightarrow> d \<notin> ie_docId ` set (fx_index st)
     | Some p \<Rightarrow> p < length (fx_index st) \<and> ie_docId (fx_index st ! p) = d"
proof -
  note I = feed_invD [OF inv] and F = feed_invD [OF flush_inv [OF inv]]
  have st': "st' = st \<or> st' = flushIndexLookupPatch st"
    using pos by (auto simp: getDocIndexPosition_def Let_def split: option.splits if_splits)
  then show "feed_inv st'" "fx_index st' = fx_index st" "fx_nextSeq st' = fx_nextSeq st"
    using inv flush_inv [OF inv] by auto
  show "case r of None \<Rightarrow> d \<notin> ie_docId ` set (fx_index st)
     | Some p \<Rightarrow> p < length (fx_index st) \<and> ie_docId (fx_index st ! p) = d"
  proof (cases "d \<in> ie_docId ` set (fx_index st)")
    case True
    then obtain i where i: "i < length (fx_index st)" "ie_docId (fx_index st ! i) = d"
      by (auto simp: in_set_conv_nth)
    have found: "map_of (fx_lookup (flushIndexLookupPatch st)) d = Some i"
      using F(7) [of i] i by simp
    obtain p where p: "map_of (fx_lookup st) d = Some p"
      using True I(6) by (metis map_of_eq_None_iff not_None_eq set_map)
    show ?thesis
    proof (cases "p < length (fx_index st) \<and> ie_docId (fx_index st ! p) = d")
      case True
      then show ?thesis using pos by (auto simp: getDocIndexPosition_def p)
    next
      case False
      then have "r = Some i" using pos by (auto simp: getDocIndexPosition_def p Let_def found split: if_splits)
      then show ?thesis using i by simp
    qed
  next
    case False
    then have "map_of (fx_lookup st) d = None"
      using I(6) by (simp add: map_of_eq_None_iff)
    then show ?thesis using pos False by (simp add: getDocIndexPosition_def)
  qed
qed

section \<open>Inserting at the tail\<close>

lemma search_after_boundary:
  assumes "0 \<le> left" and "left \<le> int k" and "int k \<le> right + 1" and "right < int (length xs)"
    and "left = right + 1 \<Longrightarrow> found = k"
    and "\<And>i. i < k \<Longrightarrow> \<not> cmp (xs ! i) < 0"
    and "\<And>i. k \<le> i \<Longrightarrow> i < length xs \<Longrightarrow> cmp (xs ! i) < 0"
  shows "search_after cmp xs left right found = k"
  using assms
proof (induction cmp xs left right found rule: search_after.induct)
  case (1 cmp xs left right found)
  show ?case
  proof (cases "left \<le> right")
    case False
    then show ?thesis using "1.prems" by (subst search_after.simps) auto
  next
    case True
    define mid where "mid = (left + right) div 2"
    have mid: "left \<le> mid" "mid \<le> right" "0 \<le> mid" "nat mid < length xs"
      using True "1.prems"(1,4) unfolding mid_def by auto
    show ?thesis
    proof (cases "cmp (xs ! nat mid) < 0")
      case less: True
      then have k: "k \<le> nat mid" using "1.prems"(6) by (meson not_le)
      have "search_after cmp xs left (mid - 1) (nat mid) = k"
        by (rule "1.IH"(1) [OF True mid_def less "1.prems"(1,2) _ _ _ "1.prems"(6,7)])
          (use k mid "1.prems"(2,4) in auto)
      then show ?thesis using True less by (subst search_after.simps) (simp add: mid_def Let_def)
    next
      case more: False
      then have k: "nat mid < k" using "1.prems"(7) mid(4) by (meson not_le)
      have "search_after cmp xs (mid + 1) right (nat mid + 1) = k"
        by (rule "1.IH"(2) [OF True mid_def more _ _ "1.prems"(3,4) _ "1.prems"(6,7)])
          (use k mid "1.prems"(3) in auto)
      then show ?thesis using True more by (subst search_after.simps) (simp add: mid_def Let_def)
    qed
  qed
qed

lemma search_after_all:
  assumes "\<And>e. e \<in> set xs \<Longrightarrow> \<not> cmp e < 0" 
  shows "search_after cmp xs 0 (int (length xs) - 1) (length xs) = length xs"
  by (rule search_after_boundary) (auto simp: assms)

text \<open>A new entry has the highest number, so it is placed at the end, and its old place closes.\<close>

definition drop_entry :: "nat option \<Rightarrow> index_entry list \<Rightarrow> index_entry list" where
  "drop_entry existing xs = (case existing of None \<Rightarrow> xs | Some e \<Rightarrow> take e xs @ drop (Suc e) xs)"

lemma set_drop_entry: "set (drop_entry existing xs) \<subseteq> set xs"
  by (auto simp: drop_entry_def split: option.splits dest: in_set_takeD in_set_dropD)

lemma drop_entry_nth:
  assumes "p < length xs" and "i < length xs - 1"
  shows "drop_entry (Some p) xs ! i = (if i < p then xs ! i else xs ! Suc i)"
  using assms by (auto simp: drop_entry_def nth_append min_def)

lemma sorted_drop_entry: "sorted_wrt r (map f xs) \<Longrightarrow> sorted_wrt r (map f (drop_entry existing xs))"
  unfolding drop_entry_def
  by (cases existing) (auto simp: sorted_wrt_append sorted_wrt_map sorted_wrt_iff_nth_less nth_append)

lemma distinct_drop_entry:
  assumes "distinct (map f xs)"
  shows "distinct (map f (drop_entry existing xs))"
proof (cases existing)
  case (Some p)
  have "set (take p (map f xs)) \<inter> set (drop (Suc p) (map f xs)) = {}"
    by (rule set_take_disj_set_drop_if_distinct [OF assms]) simp
  then have "distinct (take p (map f xs) @ drop (Suc p) (map f xs))"
    using assms by simp
  then show ?thesis unfolding drop_entry_def by (simp add: Some take_map drop_map)
qed (use assms in \<open>simp add: drop_entry_def\<close>)

lemma drop_entry_others:
  assumes "distinct (map ie_docId xs)" and "p < length xs"
  shows "set (drop_entry (Some p) xs) = {e \<in> set xs. ie_docId e \<noteq> ie_docId (xs ! p)}"
proof -
  have xs: "xs = take p xs @ xs ! p # drop (Suc p) xs"
    using assms(2) by (rule id_take_nth_drop)
  show ?thesis
    using assms(1) unfolding drop_entry_def by (subst (2) xs, subst (asm) xs) (auto simp: image_iff)
qed

lemma place_entry_tail:
  assumes inv: "feed_inv st" and seq: "ie_changeSeq e = fx_nextSeq st"
  shows "fx_index (place_entry lc e existing st) = drop_entry existing (fx_index st) @ [e]"
    and "fx_nextSeq (place_entry lc e existing st) = fx_nextSeq st + 1"
    and "fx_lookup (place_entry lc e existing st) =
      AList.update (ie_docId e) (length (drop_entry existing (fx_index st)))
        (case existing of None \<Rightarrow> fx_lookup st | Some _ \<Rightarrow> AList.delete (ie_docId e) (fx_lookup st))"
    and "fx_staleFrom (place_entry lc e existing st) =
      (let n = length (drop_entry existing (fx_index st));
           s = (case existing of None \<Rightarrow> n | Some p \<Rightarrow> min p n)
       in if s < n then Some (case fx_staleFrom st of None \<Rightarrow> s | Some s' \<Rightarrow> min s' s) else fx_staleFrom st)"
proof -
  let ?xs = "drop_entry existing (fx_index st)"
  have "search_after (compareIndexEntries lc (ie_docId e) (ie_changeSeq e)) ?xs 0 (int (length ?xs) - 1) (length ?xs) = length ?xs"
  proof (rule search_after_all)
    fix x assume "x \<in> set ?xs"
    then have "ie_changeSeq x < fx_nextSeq st" using set_drop_entry feed_invD(3) [OF inv] by blast
    then show "\<not> compareIndexEntries lc (ie_docId e) (ie_changeSeq e) x < 0"
      using seq by (simp add: compareIndexEntries_def)
  qed
  note tail = this
  show "fx_index (place_entry lc e existing st) = ?xs @ [e]"
    "fx_nextSeq (place_entry lc e existing st) = fx_nextSeq st + 1"
    "fx_lookup (place_entry lc e existing st) = AList.update (ie_docId e) (length ?xs)
        (case existing of None \<Rightarrow> fx_lookup st | Some _ \<Rightarrow> AList.delete (ie_docId e) (fx_lookup st))"
    "fx_staleFrom (place_entry lc e existing st) =
      (let n = length ?xs; s = (case existing of None \<Rightarrow> n | Some p \<Rightarrow> min p n)
       in if s < n then Some (case fx_staleFrom st of None \<Rightarrow> s | Some s' \<Rightarrow> min s' s) else fx_staleFrom st)"
    unfolding place_entry_def drop_entry_def [symmetric] Let_def tail
    by (cases existing; cases "fx_staleFrom st"; simp add: seq min.commute)+
qed

definition placed :: "feed_index \<Rightarrow> string \<Rightarrow> nat option \<Rightarrow> bool" where
  "placed st d existing \<longleftrightarrow>
     (case existing of None \<Rightarrow> d \<notin> ie_docId ` set (fx_index st)
      | Some p \<Rightarrow> p < length (fx_index st) \<and> ie_docId (fx_index st ! p) = d)"

lemma placed_others:
  assumes "feed_inv st" and "placed st d existing"
  shows "set (drop_entry existing (fx_index st)) = {e \<in> set (fx_index st). ie_docId e \<noteq> d}"
  using assms(2) drop_entry_others [OF feed_invD(4) [OF assms(1)]]
  by (cases existing) (auto simp: placed_def drop_entry_def)

lemma place_entry_inv:
  assumes inv: "feed_inv st" and seq: "ie_changeSeq e = fx_nextSeq st" and ex: "placed st (ie_docId e) existing"
  shows "feed_inv (place_entry lc e existing st)"
proof -
  let ?xs = "drop_entry existing (fx_index st)" and ?st = "place_entry lc e existing st"
  note P = place_entry_tail [OF inv seq, of lc existing] and I = feed_invD [OF inv]
  note O = placed_others [OF inv ex]
  have dist: "distinct (map ie_docId ?xs)"
    by (rule distinct_drop_entry [OF I(4)])
  have ids: "ie_docId ` set ?xs = ie_docId ` set (fx_index st) - {ie_docId e}" using O by auto
  have "fst ` set (AList.delete (ie_docId e) (fx_lookup st)) = ie_docId ` set (fx_index st) - {ie_docId e}"
    using I(6) by (metis set_keys_delete set_map)
  then have keys: "set (map_keys (fx_lookup ?st)) = ie_docId ` set (fx_index ?st)"
    using I(6) ids unfolding P(1,3) by (cases existing) (simp_all add: dom_update)
  have pos: "map_of (fx_lookup ?st) (ie_docId (fx_index ?st ! i)) = Some i"
    if i: "i < length (fx_index ?st)" and clean: "clean_below (fx_staleFrom ?st) i" for i
  proof (cases "i = length ?xs")
    case True
    then show ?thesis unfolding P(1,3) by (simp add: js_simps)
  next
    case False
    then have i': "i < length ?xs" using i unfolding P(1) by simp
    then have other: "ie_docId (?xs ! i) \<noteq> ie_docId e" using O nth_mem by blast
    have "clean_below (fx_staleFrom st) i \<and> ?xs ! i = fx_index st ! i"
    proof (cases existing)
      case None
      then show ?thesis using clean unfolding P(4) by (simp add: drop_entry_def)
    next
      case (Some p)
      have p: "p < length (fx_index st)" using ex Some by (simp add: placed_def)
      have "length ?xs = length (fx_index st) - 1" using p by (simp add: drop_entry_def Some)
      then show ?thesis
        using clean i' p drop_entry_nth [OF p, of i] unfolding P(4)
        by (auto simp: Let_def Some split: option.splits if_splits)
    qed
    moreover have "i < length (fx_index st)"
      using i' ex by (cases existing) (auto simp: placed_def drop_entry_def)
    ultimately show ?thesis
      using other I(7) [of i] i' unfolding P(1,3) by (cases existing) (auto simp: js_simps nth_append)
  qed
  have below: "\<forall>x \<in> set ?xs. ie_changeSeq x < ie_changeSeq e"
    unfolding seq by (meson I(3) set_drop_entry subsetD)
  show ?thesis
    unfolding feed_inv_def
  proof (intro conjI allI impI ballI)
    show "sorted_wrt (<) (map ie_changeSeq (fx_index ?st))"
      unfolding P(1) using sorted_drop_entry [OF I(1), of existing] below
      by (simp add: sorted_wrt_append)
    show "distinct (map ie_docId (fx_index ?st))" unfolding P(1) using dist ids by simp
    show "1 \<le> fx_nextSeq ?st" unfolding P(2) using I(5) by simp
    fix x assume "x \<in> set (fx_index ?st)"
    then have "x = e \<or> x \<in> set (fx_index st)" unfolding P(1) using set_drop_entry by auto
    then show "1 \<le> ie_changeSeq x" "ie_changeSeq x < fx_nextSeq ?st"
      unfolding P(2) using I(2,3,5) seq by force+
  qed (use keys pos in auto)
qed

section \<open>One update, seen from outside\<close>

text \<open>What the feed stands for: the current entry of each document, and the next number.\<close>

definition entry_map :: "feed_index \<Rightarrow> string \<rightharpoonup> index_entry" where
  "entry_map st = map_of (map (\<lambda>e. (ie_docId e, e)) (fx_index st))"

definition spec_update ::
  "index_change \<Rightarrow> (string \<rightharpoonup> index_entry) \<times> int \<Rightarrow> (string \<rightharpoonup> index_entry) \<times> int" where
  "spec_update c s =
     (case fst s (ic_docId c) of
        Some e \<Rightarrow> if \<not> ic_force c \<and> same_tracked e c then s
                   else ((fst s)(ic_docId c \<mapsto> entry_of_change (snd s) c), snd s + 1)
      | None \<Rightarrow> ((fst s)(ic_docId c \<mapsto> entry_of_change (snd s) c), snd s + 1))"

lemma entry_map_iff:
  assumes "distinct (map ie_docId (fx_index st))"
  shows "entry_map st d = Some e \<longleftrightarrow> e \<in> set (fx_index st) \<and> ie_docId e = d"
proof -
  have "distinct (map fst (map (\<lambda>e. (ie_docId e, e)) (fx_index st)))" using assms by (simp add: comp_def)
  then show ?thesis unfolding entry_map_def by (auto simp: map_of_eq_Some_iff)
qed

lemma entry_of_change_simps [simp]:
  "ie_docId (entry_of_change n c) = ic_docId c" "ie_changeSeq (entry_of_change n c) = n"
  by (simp_all add: entry_of_change_def)

lemma option_eq_SomeI: "(\<And>x. a = Some x \<longleftrightarrow> b = Some x) \<Longrightarrow> a = b"
  by (metis not_None_eq)

lemma entry_map_place:
  assumes inv: "feed_inv st" and seq: "ie_changeSeq e = fx_nextSeq st" and ex: "placed st (ie_docId e) existing"
  shows "entry_map (place_entry lc e existing st) = (entry_map st)(ie_docId e \<mapsto> e)"
proof
  fix d
  have "entry_map (place_entry lc e existing st) d = Some x \<longleftrightarrow> ((entry_map st)(ie_docId e \<mapsto> e)) d = Some x" for x
    unfolding entry_map_iff [OF feed_invD(4) [OF place_entry_inv [OF assms]]] place_entry_tail(1) [OF inv seq]
    using placed_others [OF inv ex] entry_map_iff [OF feed_invD(4) [OF inv], of d x]
    by (cases "d = ie_docId e") auto
  then show "entry_map (place_entry lc e existing st) d = ((entry_map st)(ie_docId e \<mapsto> e)) d"
    by (rule option_eq_SomeI)
qed

lemma updateIndex_step:
  assumes inv: "feed_inv st"
  shows "feed_inv (updateIndex lc c st)"
    and "(entry_map (updateIndex lc c st), fx_nextSeq (updateIndex lc c st)) = spec_update c (entry_map st, fx_nextSeq st)"
proof -
  obtain ex st' where pos: "getDocIndexPosition st (ic_docId c) = (ex, st')" by (meson surj_pair)
  note P = position_correct [OF inv pos]
  have same: "entry_map st' = entry_map st" using P(2) by (simp add: entry_map_def)
  have ex: "placed st' (ie_docId (entry_of_change (fx_nextSeq st) c)) ex"
    using P(4) by (cases ex) (simp_all add: placed_def P(2))
  have seq: "ie_changeSeq (entry_of_change (fx_nextSeq st) c) = fx_nextSeq st'" using P(3) by simp
  have now: "entry_map st (ic_docId c) = map_option ((!) (fx_index st)) ex"
  proof (cases ex)
    case None
    then have "entry_map st (ic_docId c) \<noteq> Some e" for e
      using P(4) unfolding entry_map_iff [OF feed_invD(4) [OF inv]] by simp (metis image_eqI)
    then have "entry_map st (ic_docId c) = None" by (meson not_None_eq)
    then show ?thesis by (simp add: None)
  next
    case (Some p)
    then show ?thesis
      using P(4) by (simp add: entry_map_iff [OF feed_invD(4) [OF inv]])
  qed
  show "feed_inv (updateIndex lc c st)"
    using P(1) place_entry_inv [OF P(1) seq ex] by (simp add: updateIndex_def pos Let_def)
  show "(entry_map (updateIndex lc c st), fx_nextSeq (updateIndex lc c st)) = spec_update c (entry_map st, fx_nextSeq st)"
    using entry_map_place [OF P(1) seq ex, of lc] place_entry_tail(2) [OF P(1) seq, of lc ex] P(2,3)
    by (cases ex) (simp_all add: updateIndex_def pos Let_def spec_update_def now same)
qed

text \<open>Restoring the index of a checkpoint gives back the same feed.\<close>

lemma count_below_next:
  assumes "sorted_wrt (<) (map f xs)" and "\<forall>e \<in> set xs. (1::int) \<le> f e \<and> f e < n" and "1 \<le> n"
  shows "int (length xs) < n"
proof -
  have "card (set (map f xs)) \<le> card {1..<n}"
    by (rule card_mono) (use assms(2) in auto)
  moreover have "distinct (map f xs)" using assms(1) strict_sorted_iff by blast
  ultimately show ?thesis using assms(3) distinct_card [of "map f xs"] by simp
qed

lemma restore_step:
  assumes "feed_inv st"
  shows "feed_inv (restore_index (fx_index st) (Some (fx_nextSeq st)))"
    and "fx_index (restore_index (fx_index st) (Some (fx_nextSeq st))) = fx_index st"
    and "fx_nextSeq (restore_index (fx_index st) (Some (fx_nextSeq st))) = fx_nextSeq st"
proof -
  note I = feed_invD [OF assms]
  have "int (length (fx_index st)) < fx_nextSeq st"
    using count_below_next [OF I(1) _ I(5)] I(2,3) by blast
  then show same: "fx_nextSeq (restore_index (fx_index st) (Some (fx_nextSeq st))) = fx_nextSeq st"
    "fx_index (restore_index (fx_index st) (Some (fx_nextSeq st))) = fx_index st"
    by (simp_all add: restore_index_def)
  have "map_of (foldl (\<lambda>m i. AList.update (ie_docId (fx_index st ! i)) i m) [] [0..<length (fx_index st)])
      (ie_docId (fx_index st ! i)) = Some i" if "i < length (fx_index st)" for i
    using map_of_write_positions [OF I(4) le0 order_refl that, of "[]"] that by simp
  moreover have "fst ` set (foldl (\<lambda>m i. AList.update (ie_docId (fx_index st ! i)) i m) [] [0..<length (fx_index st)]) =
      ie_docId ` set (fx_index st)"
    by (force simp: keys_write_positions in_set_conv_nth)
  moreover have "fx_lookup (restore_index (fx_index st) (Some (fx_nextSeq st))) =
      foldl (\<lambda>m i. AList.update (ie_docId (fx_index st ! i)) i m) [] [0..<length (fx_index st)]"
    by (simp add: restore_index_def Let_def)
  ultimately show "feed_inv (restore_index (fx_index st) (Some (fx_nextSeq st)))"
    using I(1-5) unfolding feed_inv_def same by simp
qed

section \<open>Reading from a cursor\<close>

definition cursor_seq :: "change_cursor option \<Rightarrow> int" where
  "cursor_seq cursor = (case cursor of None \<Rightarrow> 0 | Some c \<Rightarrow> (case cc_changeSeq c of Some s \<Rightarrow> s | None \<Rightarrow> 0))"

text \<open>A cursor that the feed has given out, or the absent cursor.\<close>

definition cursor_ok :: "feed_index \<Rightarrow> change_cursor option \<Rightarrow> bool" where
  "cursor_ok st cursor \<longleftrightarrow>
     0 \<le> cursor_seq cursor \<and> cursor_seq cursor < fx_nextSeq st \<and>
     (\<forall>e \<in> set (fx_index st). ie_changeSeq e = cursor_seq cursor \<longrightarrow>
        (\<exists>c. cursor = Some c \<and> ie_docId e = cc_docId c))"

lemma filter_above_split:
  assumes "sorted_wrt (<) (map f xs)" and "k \<le> length xs"
    and "\<And>i. i < k \<Longrightarrow> f (xs ! i) \<le> (s::int)" and "\<And>i. k \<le> i \<Longrightarrow> i < length xs \<Longrightarrow> s < f (xs ! i)"
  shows "drop k xs = filter (\<lambda>x. s < f x) xs"
proof -
  have "filter (\<lambda>x. s < f x) (take k xs) = []"
    using assms(2,3) by (auto simp: filter_empty_conv in_set_conv_nth not_less)
  moreover have "filter (\<lambda>x. s < f x) (drop k xs) = drop k xs"
    using assms(2,4) by (auto simp: filter_id_conv in_set_conv_nth)
  ultimately show ?thesis
    by (metis append_take_drop_id append_Nil filter_append)
qed

definition upto_seq :: "index_entry list \<Rightarrow> int \<Rightarrow> nat" where
  "upto_seq xs s = length (takeWhile (\<lambda>e. ie_changeSeq e \<le> s) xs)"

lemma upto_seq_le:
  assumes "sorted_wrt (<) (map ie_changeSeq xs)"
  shows "i < upto_seq xs s \<Longrightarrow> ie_changeSeq (xs ! i) \<le> s"
    and "upto_seq xs s \<le> i \<Longrightarrow> i < length xs \<Longrightarrow> s < ie_changeSeq (xs ! i)"
    and "upto_seq xs s \<le> length xs"
    and "Suc i < upto_seq xs s \<Longrightarrow> ie_changeSeq (xs ! i) < s"
proof -
  let ?k = "upto_seq xs s"
  show low: "ie_changeSeq (xs ! i) \<le> s" if "i < ?k" for i
    using that nth_mem [of i "takeWhile (\<lambda>e. ie_changeSeq e \<le> s) xs"] takeWhile_nth [of i "\<lambda>e. ie_changeSeq e \<le> s" xs]
    by (metis set_takeWhileD upto_seq_def)
  show len: "?k \<le> length xs" by (simp add: upto_seq_def length_takeWhile_le)
  have less: "ie_changeSeq (xs ! i) < ie_changeSeq (xs ! j)" if "i < j" "j < length xs" for i j
    using assms that by (simp add: sorted_wrt_map sorted_wrt_iff_nth_less)
  show "s < ie_changeSeq (xs ! i)" if "?k \<le> i" "i < length xs"
  proof -
    have "s < ie_changeSeq (xs ! ?k)"
      using nth_length_takeWhile [of "\<lambda>e. ie_changeSeq e \<le> s" xs] that by (auto simp: upto_seq_def)
    then show ?thesis using less [of ?k i] that by (cases "i = ?k") auto
  qed
  show "ie_changeSeq (xs ! i) < s" if "Suc i < ?k"
    using low [OF that] less [of i "Suc i"] that len by simp
qed

text \<open>
  The start position is the first entry above the cursor. Where the collation puts an id
  below itself the search stops one early, and the last check makes up for it.
\<close>

lemma start_index_correct:
  assumes sorted: "sorted_wrt (<) (map ie_changeSeq xs)"
    and seq: "s = (case cc_changeSeq c of Some s \<Rightarrow> s | None \<Rightarrow> 0)"
    and own: "\<And>e. e \<in> set xs \<Longrightarrow> ie_changeSeq e = s \<Longrightarrow> ie_docId e = cc_docId c"
  shows "getStartIndexForCursor lc xs c = upto_seq xs s"
proof (cases "xs = []")
  case True
  then show ?thesis by (simp add: getStartIndexForCursor_def upto_seq_def)
next
  case False
  let ?k = "upto_seq xs s" and ?cmp = "compareIndexEntries lc (cc_docId c) s"
  note U = upto_seq_le [OF sorted, where s = s]
  have above: "?cmp (xs ! i) < 0" if "?k \<le> i" "i < length xs" for i
    using U(2) [OF that] by (simp add: compareIndexEntries_def)
  define j where "j = (if 0 < ?k \<and> ie_changeSeq (xs ! (?k - 1)) = s \<and> lc (cc_docId c) (cc_docId c) < 0 then ?k - 1 else ?k)"
  have j: "j \<le> length xs" "j \<le> ?k" using U(3) by (auto simp: j_def)
  have low: "\<not> ?cmp (xs ! i) < 0" if "i < j" for i
  proof -
    have "i < ?k" using that j by simp
    then have mem: "xs ! i \<in> set xs" using U(3) by simp
    show ?thesis
    proof (cases "ie_changeSeq (xs ! i) = s")
      case False
      then show ?thesis using U(1) [OF \<open>i < ?k\<close>] by (simp add: compareIndexEntries_def)
    next
      case True
      then have "Suc i = ?k" using U(4) [of i] \<open>i < ?k\<close> by (metis Suc_lessI less_irrefl)
      then have i: "i = ?k - 1" by simp
      then have "\<not> lc (cc_docId c) (cc_docId c) < 0"
        using True that unfolding j_def by (auto split: if_splits)
      then show ?thesis using own [OF mem True] True by (simp add: compareIndexEntries_def)
    qed
  qed
  have high: "?cmp (xs ! i) < 0" if "j \<le> i" "i < length xs" for i
  proof (cases "?k \<le> i")
    case True
    then show ?thesis using above that by blast
  next
    case False
    then have "j \<noteq> ?k" using that by simp
    then have jk: "j = ?k - 1" "0 < ?k" and s: "ie_changeSeq (xs ! j) = s" "lc (cc_docId c) (cc_docId c) < 0"
      by (auto simp: j_def split: if_splits)
    then have "i = j" using False that by simp
    note s = s [folded this]
    show ?thesis using own [of "xs ! i"] s that(2) by (simp add: compareIndexEntries_def)
  qed
  have found: "search_after ?cmp xs 0 (int (length xs) - 1) 0 = j"
    by (rule search_after_boundary) (use False j low high in auto)
  have "j < length xs \<and> ie_changeSeq (xs ! j) = s \<and> ie_docId (xs ! j) = cc_docId c \<longleftrightarrow> j \<noteq> ?k"
  proof
    show "j \<noteq> ?k" if "j < length xs \<and> ie_changeSeq (xs ! j) = s \<and> ie_docId (xs ! j) = cc_docId c"
      using U(2) [of j] that by auto
    assume "j \<noteq> ?k"
    then have "j = ?k - 1" "0 < ?k" "ie_changeSeq (xs ! j) = s" by (auto simp: j_def split: if_splits)
    then show "j < length xs \<and> ie_changeSeq (xs ! j) = s \<and> ie_docId (xs ! j) = cc_docId c"
      using U(3) own [of "xs ! j"] by simp
  qed
  then show ?thesis
    using False found j by (auto simp: getStartIndexForCursor_def seq [symmetric] Let_def j_def split: if_splits)
qed

lemma start_of_cursor:
  assumes inv: "feed_inv st" and ok: "cursor_ok st cursor"
  shows "getStartIndexForCursor lc (fx_index st) (case cursor of Some c \<Rightarrow> c | None \<Rightarrow> initial_cursor) =
    upto_seq (fx_index st) (cursor_seq cursor)"
proof (rule start_index_correct [OF feed_invD(1) [OF inv]])
  show "cursor_seq cursor =
      (case cc_changeSeq (case cursor of Some c \<Rightarrow> c | None \<Rightarrow> initial_cursor) of Some s \<Rightarrow> s | None \<Rightarrow> 0)"
    by (cases cursor) (simp_all add: cursor_seq_def initial_cursor_def)
qed (use ok in \<open>auto simp: cursor_ok_def\<close>)

lemma changes_since_correct:
  assumes inv: "feed_inv st" and ok: "cursor_ok st cursor"
  shows "changes_since lc idPrefix cursor st =
    filter (\<lambda>e. cursor_seq cursor < ie_changeSeq e \<and> passes_prefix (normalizeIdPrefixFilter idPrefix) e) (fx_index st)"
proof -
  note I = feed_invD [OF inv] and U = upto_seq_le [OF feed_invD(1) [OF inv], where s = "cursor_seq cursor"]
  have "drop (upto_seq (fx_index st) (cursor_seq cursor)) (fx_index st) =
      filter (\<lambda>e. cursor_seq cursor < ie_changeSeq e) (fx_index st)"
    by (rule filter_above_split [OF I(1) U(3)]) (use U in auto)
  then show ?thesis using start_of_cursor [OF assms] by (simp add: changes_since_def)
qed

text \<open>The count is the length of the iteration.\<close>

lemma count_positions:
  "foldl (\<lambda>count i. if P (xs ! i) then count + 1 else count) c [k..<length xs] =
   c + int (length (filter P (drop k xs)))"
proof (induction "length xs - k" arbitrary: k c)
  case (Suc n)
  then have k: "k < length xs" by simp
  then have "[k..<length xs] = k # [Suc k..<length xs]" by (rule upt_conv_Cons)
  moreover have "drop k xs = xs ! k # drop (Suc k) xs" using k by (simp add: Cons_nth_drop_Suc)
  moreover have "n = length xs - Suc k" using Suc(2) by simp
  ultimately show ?case using Suc(1) [of "Suc k"] by simp
qed simp

lemma count_is_length:
  assumes "feed_inv st" and "cursor_ok st cursor"
  shows "countChangesSince lc idPrefix cursor st = int (length (changes_since lc idPrefix cursor st))"
proof -
  note start = start_of_cursor [OF assms, of lc]
  have le: "upto_seq (fx_index st) (cursor_seq cursor) \<le> length (fx_index st)"
    by (rule upto_seq_le(3) [OF feed_invD(1) [OF assms(1)]])
  show ?thesis
  proof (cases "normalizeIdPrefixFilter idPrefix")
    case None
    then show ?thesis using le
      by (simp add: countChangesSince_def changes_since_def start passes_prefix_def of_nat_diff)
  next
    case (Some p)
    have "passes_prefix (Some p) = (\<lambda>e. matchesDocIdPrefix (ie_docId e) p)"
      by (simp add: passes_prefix_def fun_eq_iff)
    then show ?thesis
      using count_positions [of "\<lambda>e. matchesDocIdPrefix (ie_docId e) p" "fx_index st" 0]
      by (simp add: countChangesSince_def changes_since_def start Some)
  qed
qed

section \<open>A consumer of the feed\<close>

text \<open>
  A consumer keeps the cursor of the last entry it has processed and may stop anywhere in an
  iteration; since the iteration runs over a copy, updates that happen while it runs come after
  it. The database may be closed and restored from a current checkpoint at any time.
\<close>

record consumer =
  cn_cursor :: "change_cursor option"
  cn_log :: "index_entry list"

datatype feed_event = Change index_change | Restart | Take nat

definition consume :: "(string \<Rightarrow> string \<Rightarrow> int) \<Rightarrow> string option \<Rightarrow> nat \<Rightarrow> feed_index \<Rightarrow> consumer \<Rightarrow> consumer" where
  "consume lc idPrefix k st con =
     (let es = take k (changes_since lc idPrefix (cn_cursor con) st)
      in if es = [] then con
         else \<lparr> cn_cursor = Some (cursor_of (last es)), cn_log = cn_log con @ es \<rparr>)"

definition feed_step ::
  "(string \<Rightarrow> string \<Rightarrow> int) \<Rightarrow> string option \<Rightarrow> feed_event \<Rightarrow> feed_index \<times> consumer \<Rightarrow> feed_index \<times> consumer" where
  "feed_step lc idPrefix ev s =
     (case ev of
        Change c \<Rightarrow> (updateIndex lc c (fst s), snd s)
      | Restart \<Rightarrow> (restore_index (fx_index (fst s)) (Some (fx_nextSeq (fst s))), snd s)
      | Take k \<Rightarrow> (fst s, consume lc idPrefix k (fst s) (snd s)))"

definition feed_run :: "(string \<Rightarrow> string \<Rightarrow> int) \<Rightarrow> string option \<Rightarrow> feed_event list \<Rightarrow> feed_index \<times> consumer" where
  "feed_run lc idPrefix evs =
     fold (feed_step lc idPrefix) evs (empty_index, \<lparr> cn_cursor = None, cn_log = [] \<rparr>)"

text \<open>What a consumer that keeps the last entry of each document ends up with.\<close>

definition latest :: "index_entry list \<Rightarrow> string \<rightharpoonup> index_entry" where
  "latest es = map_of (rev (map (\<lambda>e. (ie_docId e, e)) es))"

definition matching :: "string option \<Rightarrow> (string \<rightharpoonup> index_entry) \<Rightarrow> string \<rightharpoonup> index_entry" where
  "matching idPrefix m = (\<lambda>d. case m d of
     Some e \<Rightarrow> if passes_prefix (normalizeIdPrefixFilter idPrefix) e then Some e else None | None \<Rightarrow> None)"

definition consumer_inv :: "string option \<Rightarrow> feed_index \<times> consumer \<Rightarrow> bool" where
  "consumer_inv idPrefix s \<longleftrightarrow>
     (let st = fst s; log = cn_log (snd s); cur = cursor_seq (cn_cursor (snd s))
      in feed_inv st \<and> cursor_ok st (cn_cursor (snd s)) \<and>
         sorted_wrt (<) (map ie_changeSeq log) \<and> (\<forall>l \<in> set log. ie_changeSeq l \<le> cur) \<and>
         (\<forall>d l. latest log d = Some l \<longrightarrow> (\<exists>e. matching idPrefix (entry_map st) d = Some e \<and>
            (l = e \<or> cur < ie_changeSeq e))) \<and>
         (\<forall>d e. matching idPrefix (entry_map st) d = Some e \<and> ie_changeSeq e \<le> cur \<longrightarrow> latest log d = Some e))"

lemma latest_append: "latest (xs @ ys) = latest xs ++ latest ys"
  by (simp add: latest_def map_add_def fun_eq_iff split: option.splits)

lemma passes_docId: "ie_docId a = ie_docId b \<Longrightarrow> passes_prefix p a = passes_prefix p b"
  by (simp add: passes_prefix_def split: option.splits)

lemma latest_distinct:
  assumes "distinct (map ie_docId es)"
  shows "latest es d = Some e \<longleftrightarrow> e \<in> set es \<and> ie_docId e = d"
proof -
  have "distinct (map fst (rev (map (\<lambda>e. (ie_docId e, e)) es)))"
    using assms by (simp add: rev_map [symmetric] comp_def)
  then show ?thesis by (auto simp: latest_def map_of_eq_Some_iff)
qed

lemma consumer_inv_init: "consumer_inv idPrefix (empty_index, \<lparr> cn_cursor = None, cn_log = [] \<rparr>)"
  by (auto simp: consumer_inv_def feed_inv_def cursor_ok_def cursor_seq_def empty_index_def latest_def
      matching_def entry_map_def Let_def)

lemma consumer_inv_known:
  assumes "consumer_inv idPrefix (st, con)" and "latest (cn_log con) d = Some l"
  shows "\<exists>e. matching idPrefix (entry_map st) d = Some e \<and> (l = e \<or> cursor_seq (cn_cursor con) < ie_changeSeq e)"
  using assms unfolding consumer_inv_def Let_def fst_conv snd_conv by blast

lemma spec_update_cases:
  "spec_update c s = s \<or>
   spec_update c s = ((fst s)(ic_docId c \<mapsto> entry_of_change (snd s) c), snd s + 1)"
  by (simp add: spec_update_def split: option.splits)

lemma change_keeps_consumer:
  assumes inv: "consumer_inv idPrefix (st, con)"
  shows "consumer_inv idPrefix (updateIndex lc c st, con)"
proof -
  let ?st = "updateIndex lc c st" and ?cur = "cursor_seq (cn_cursor con)"
  have inv': "feed_inv st" and ok: "cursor_ok st (cn_cursor con)"
    using inv by (simp_all add: consumer_inv_def Let_def)
  note step = updateIndex_step [OF inv', of lc c]
  show ?thesis
  proof (cases "spec_update c (entry_map st, fx_nextSeq st) = (entry_map st, fx_nextSeq st)")
    case True
    then have same: "entry_map ?st = entry_map st" "fx_nextSeq ?st = fx_nextSeq st" using step(2) by simp_all
    then have "set (fx_index ?st) = set (fx_index st)"
      using entry_map_iff [OF feed_invD(4) [OF inv']] entry_map_iff [OF feed_invD(4) [OF step(1)]]
      by (metis subsetI subset_antisym)
    then have "cursor_ok ?st (cn_cursor con)" using ok same by (simp add: cursor_ok_def)
    then show ?thesis using inv step(1) same by (simp add: consumer_inv_def Let_def)
  next
    case False
    define e where "e = entry_of_change (fx_nextSeq st) c"
    have upd: "entry_map ?st = (entry_map st)(ic_docId c \<mapsto> e)" "fx_nextSeq ?st = fx_nextSeq st + 1"
      using False step(2) spec_update_cases [of c "(entry_map st, fx_nextSeq st)"] by (auto simp: e_def)
    have seq: "ie_changeSeq e = fx_nextSeq st" and cur: "?cur < fx_nextSeq st" "0 \<le> ?cur"
      using ok by (simp_all add: e_def cursor_ok_def)
    have "x = e \<or> x \<in> set (fx_index st)" if "x \<in> set (fx_index ?st)" for x
      using that entry_map_iff [OF feed_invD(4) [OF inv'], of "ie_docId x" x]
        entry_map_iff [OF feed_invD(4) [OF step(1)], of "ie_docId x" x]
      by (auto simp: upd split: if_splits)
    then have ok': "cursor_ok ?st (cn_cursor con)" using ok cur seq unfolding cursor_ok_def upd by fastforce
    have match: "matching idPrefix (entry_map ?st) d =
        (if d = ic_docId c then (if passes_prefix (normalizeIdPrefixFilter idPrefix) e then Some e else None)
         else matching idPrefix (entry_map st) d)" for d
      by (simp add: matching_def upd)
    have known: "passes_prefix (normalizeIdPrefixFilter idPrefix) e" if l: "latest (cn_log con) (ic_docId c) = Some l" for l
    proof -
      obtain e' where "matching idPrefix (entry_map st) (ic_docId c) = Some e'"
        using consumer_inv_known [OF inv l] by blast
      then have "entry_map st (ic_docId c) = Some e'" "passes_prefix (normalizeIdPrefixFilter idPrefix) e'"
        by (auto simp: matching_def split: option.splits if_splits)
      then show ?thesis
        using entry_map_iff [OF feed_invD(4) [OF inv']] passes_docId [of e' e] by (simp add: e_def)
    qed
    have known': "latest (cn_log con) (ic_docId c) = None \<or> passes_prefix (normalizeIdPrefixFilter idPrefix) e"
      using known by (cases "latest (cn_log con) (ic_docId c)") simp_all
    show ?thesis
      using inv step(1) ok' cur seq known' by (auto simp: consumer_inv_def Let_def match)
  qed
qed

text \<open>An initial part of a list sorted by number is the part up to its last number.\<close>

lemma take_sorted_filter:
  assumes "sorted_wrt (<) (map f xs)" and "take k xs \<noteq> []"
  shows "set (take k xs) = {x \<in> set xs. f x \<le> (f (last (take k xs)) :: int)}"
proof -
  let ?ys = "take k xs" and ?zs = "drop k xs"
  have split: "sorted_wrt (<) (map f ?ys)" "\<And>y z. y \<in> set ?ys \<Longrightarrow> z \<in> set ?zs \<Longrightarrow> f y < f z"
    using assms(1) sorted_wrt_append [of "(<)" "map f ?ys" "map f ?zs"]
    by (auto simp flip: map_append)
  have last: "last ?ys \<in> set ?ys" by (rule last_in_set [OF assms(2)])
  have "f y \<le> f (last ?ys)" if "y \<in> set ?ys" for y
  proof -
    have "?ys = butlast ?ys @ [last ?ys]" using assms(2) by simp
    then have "sorted_wrt (<) (map f (butlast ?ys) @ [f (last ?ys)])" and "y \<in> set (butlast ?ys) \<or> y = last ?ys"
      using split(1) that by (metis list.simps(8,9) map_append, metis Un_iff empty_iff empty_set insert_iff list.simps(15) set_append that)
    then show ?thesis by (auto simp: sorted_wrt_append)
  qed
  moreover have "f z > f (last ?ys)" if "z \<in> set ?zs" for z using split(2) [OF last that] .
  moreover have "set xs = set ?ys \<union> set ?zs" by (metis append_take_drop_id set_append)
  ultimately show ?thesis by fastforce
qed

lemma consume_cases:
  assumes inv: "feed_inv st" and ok: "cursor_ok st (cn_cursor con)"
    and es: "es = take k (changes_since lc idPrefix (cn_cursor con) st)" and ne: "es \<noteq> []"
  shows "set es = {e \<in> set (fx_index st). passes_prefix (normalizeIdPrefixFilter idPrefix) e \<and>
      cursor_seq (cn_cursor con) < ie_changeSeq e \<and> ie_changeSeq e \<le> ie_changeSeq (last es)}"
    and "sorted_wrt (<) (map ie_changeSeq es)" and "distinct (map ie_docId es)"
    and "last es \<in> set (fx_index st)" and "cursor_seq (cn_cursor con) < ie_changeSeq (last es)"
proof -
  let ?xs = "changes_since lc idPrefix (cn_cursor con) st"
  have xs: "?xs = filter (\<lambda>e. cursor_seq (cn_cursor con) < ie_changeSeq e \<and>
      passes_prefix (normalizeIdPrefixFilter idPrefix) e) (fx_index st)"
    by (rule changes_since_correct [OF inv ok])
  have sorted: "sorted_wrt (<) (map ie_changeSeq ?xs)"
    unfolding xs using feed_invD(1) [OF inv] by (simp add: sorted_wrt_map sorted_wrt_filter)
  then show "sorted_wrt (<) (map ie_changeSeq es)"
    unfolding es take_map [symmetric] by (rule sorted_wrt_take)
  have "distinct (map ie_docId ?xs)"
    unfolding xs using feed_invD(4) [OF inv] by (rule distinct_map_filter)
  then show "distinct (map ie_docId es)"
    unfolding es take_map [symmetric] by (rule distinct_take)
  show S: "set es = {e \<in> set (fx_index st). passes_prefix (normalizeIdPrefixFilter idPrefix) e \<and>
      cursor_seq (cn_cursor con) < ie_changeSeq e \<and> ie_changeSeq e \<le> ie_changeSeq (last es)}"
    using take_sorted_filter [OF sorted] ne unfolding es by (auto simp: xs)
  show "last es \<in> set (fx_index st)" "cursor_seq (cn_cursor con) < ie_changeSeq (last es)"
    using last_in_set [OF ne] S by blast+
qed

lemma consumer_invD:
  assumes "consumer_inv idPrefix (st, con)"
  shows "feed_inv st" "cursor_ok st (cn_cursor con)" "sorted_wrt (<) (map ie_changeSeq (cn_log con))"
    "\<And>l. l \<in> set (cn_log con) \<Longrightarrow> ie_changeSeq l \<le> cursor_seq (cn_cursor con)"
    "\<And>d e. matching idPrefix (entry_map st) d = Some e \<Longrightarrow> ie_changeSeq e \<le> cursor_seq (cn_cursor con) \<Longrightarrow>
       latest (cn_log con) d = Some e"
  using assms by (simp_all add: consumer_inv_def Let_def)

lemma matching_iff:
  assumes "feed_inv st"
  shows "matching idPrefix (entry_map st) d = Some e \<longleftrightarrow>
    e \<in> set (fx_index st) \<and> ie_docId e = d \<and> passes_prefix (normalizeIdPrefixFilter idPrefix) e"
  using entry_map_iff [OF feed_invD(4) [OF assms], of d e]
  by (auto simp: matching_def split: option.splits)

lemma seq_unique:
  assumes "feed_inv st" and "a \<in> set (fx_index st)" and "b \<in> set (fx_index st)" and "ie_changeSeq a = ie_changeSeq b"
  shows "a = b"
proof -
  have "distinct (map ie_changeSeq (fx_index st))"
    using feed_invD(1) [OF assms(1)] strict_sorted_iff by blast
  then show ?thesis using assms(2-4) by (simp add: distinct_map inj_on_def)
qed

lemma take_keeps_consumer:
  assumes inv: "consumer_inv idPrefix (st, con)"
  shows "consumer_inv idPrefix (st, consume lc idPrefix k st con)"
proof -
  define es where "es = take k (changes_since lc idPrefix (cn_cursor con) st)"
  note I = consumer_invD [OF inv]
  show ?thesis
  proof (cases "es = []")
    case True
    then show ?thesis using inv by (simp add: consume_def es_def)
  next
    case False
    let ?con = "\<lparr> cn_cursor = Some (cursor_of (last es)), cn_log = cn_log con @ es \<rparr>"
    let ?new = "ie_changeSeq (last es)" and ?cur = "cursor_seq (cn_cursor con)"
    note C = consume_cases [OF I(1,2) es_def False]
    have con: "consume lc idPrefix k st con = ?con" using False by (simp add: consume_def es_def Let_def)
    have seq: "cursor_seq (cn_cursor ?con) = ?new" by (simp add: cursor_seq_def cursor_of_def)
    have late: "latest (cn_log ?con) d = (case latest es d of Some e \<Rightarrow> Some e | None \<Rightarrow> latest (cn_log con) d)" for d
      by (simp add: latest_append map_add_def)
    have ok: "cursor_ok st (cn_cursor ?con)"
      unfolding cursor_ok_def seq
    proof (intro conjI ballI impI)
      show "0 \<le> ?new" "?new < fx_nextSeq st" using feed_invD(2,3) [OF I(1) C(4)] by simp_all
      fix e assume "e \<in> set (fx_index st)" "ie_changeSeq e = ?new"
      then have "e = last es" using seq_unique [OF I(1)] C(4) by blast
      then show "\<exists>c. cn_cursor ?con = Some c \<and> ie_docId e = cc_docId c" by (simp add: cursor_of_def)
    qed
    have mem: "x \<in> set es \<longleftrightarrow> x \<in> set (fx_index st) \<and> passes_prefix (normalizeIdPrefixFilter idPrefix) x \<and>
        ?cur < ie_changeSeq x \<and> ie_changeSeq x \<le> ?new" for x
      using C(1) by blast
    have logged: "ie_changeSeq x < ie_changeSeq y" if "x \<in> set (cn_log con)" "y \<in> set es" for x y
      using I(4) [OF that(1)] that(2) mem [of y] by linarith
    have sorted: "sorted_wrt (<) (map ie_changeSeq (cn_log ?con))"
      using I(3) C(2) logged by (simp add: sorted_wrt_append)
    have bound: "ie_changeSeq l \<le> ?new" if "l \<in> set (cn_log ?con)" for l
      using that I(4) [of l] mem [of l] C(5) by auto
    have known: "\<exists>e. matching idPrefix (entry_map st) d = Some e \<and> (l = e \<or> ?new < ie_changeSeq e)"
      if l: "latest (cn_log ?con) d = Some l" for d l
    proof (cases "latest es d")
      case (Some e)
      then show ?thesis using l late latest_distinct [OF C(3), of d e] mem [of e] matching_iff [OF I(1), of idPrefix d e] by simp
    next
      case None
      then have "latest (cn_log con) d = Some l" using l late by simp
      then obtain e where e: "matching idPrefix (entry_map st) d = Some e" "l = e \<or> ?cur < ie_changeSeq e"
        using consumer_inv_known [OF inv] by blast
      have "e \<notin> set es"
        using None latest_distinct [OF C(3), of d e] e(1) matching_iff [OF I(1)] by auto
      then show ?thesis using e mem [of e] matching_iff [OF I(1), of idPrefix d e] by auto
    qed
    have all: "latest (cn_log ?con) d = Some e"
      if e: "matching idPrefix (entry_map st) d = Some e" "ie_changeSeq e \<le> ?new" for d e
    proof (cases "ie_changeSeq e \<le> ?cur")
      case True
      have "latest es d = None"
      proof (rule ccontr)
        assume "latest es d \<noteq> None"
        then obtain e' where "latest es d = Some e'" by blast
        then have "e' \<in> set es" "ie_docId e' = d" using latest_distinct [OF C(3)] by auto
        then have "matching idPrefix (entry_map st) d = Some e'" "?cur < ie_changeSeq e'"
          using mem [of e'] matching_iff [OF I(1)] by simp_all
        then show False using e(1) True by simp
      qed
      then show ?thesis using late [of d] I(5) [OF e(1) True] by simp
    next
      case False
      then have "latest es d = Some e"
        unfolding latest_distinct [OF C(3)] using e matching_iff [OF I(1), of idPrefix d e] mem [of e] by simp
      then show ?thesis using late [of d] by simp
    qed
    show ?thesis
      unfolding con consumer_inv_def Let_def fst_conv snd_conv seq
      using I(1) ok sorted bound known all by blast
  qed
qed

lemma restart_keeps_consumer:
  assumes "consumer_inv idPrefix (st, con)"
  shows "consumer_inv idPrefix (restore_index (fx_index st) (Some (fx_nextSeq st)), con)"
  using assms restore_step [OF consumer_invD(1) [OF assms]]
  by (simp add: consumer_inv_def Let_def entry_map_def cursor_ok_def)

lemma feed_run_inv: "consumer_inv idPrefix (feed_run lc idPrefix evs)"
proof -
  have "consumer_inv idPrefix (feed_step lc idPrefix ev s)" if "consumer_inv idPrefix s" for ev s
    using that change_keeps_consumer take_keeps_consumer restart_keeps_consumer
    by (cases s; cases ev) (simp_all add: feed_step_def)
  then have "consumer_inv idPrefix s \<Longrightarrow> consumer_inv idPrefix (fold (feed_step lc idPrefix) evs s)" for s
    by (induction evs arbitrary: s) simp_all
  then show ?thesis unfolding feed_run_def using consumer_inv_init by blast
qed

section \<open>What the feed promises\<close>

lemma updates_refine:
  "feed_inv st \<Longrightarrow>
   feed_inv (fold (updateIndex lc) cs st) \<and>
   (entry_map (fold (updateIndex lc) cs st), fx_nextSeq (fold (updateIndex lc) cs st)) =
     fold spec_update cs (entry_map st, fx_nextSeq st)"
proof (induction cs arbitrary: st)
  case (Cons c cs)
  then show ?case using updateIndex_step [OF Cons.prems, of lc c] by simp
qed simp

lemma empty_inv: "feed_inv empty_index"
  by (simp add: feed_inv_def empty_index_def)

text \<open>
  C37. The sorted index with its lazily repaired lookup implements a map from documents to their
  latest entry. After any sequence of updates the entries and the next number are those of the
  map (a repeated state is skipped unless it is forced, any other takes a fresh number), the
  lookup returns a document's exact position, or none when it is absent, and the index stays
  sorted by change number. No property of \<^verbatim>\<open>localeCompare\<close> is used.
\<close>

theorem index_refines_entry_map:
  "let st = fold (updateIndex lc) cs empty_index; s = fold spec_update cs (Map.empty, 1)
   in entry_map st = fst s \<and> fx_nextSeq st = snd s \<and>
      sorted_wrt (<) (map ie_changeSeq (fx_index st)) \<and>
      map_option ((!) (fx_index st)) (fst (getDocIndexPosition st d)) = entry_map st d"
proof -
  let ?st = "fold (updateIndex lc) cs empty_index"
  note R = updates_refine [OF empty_inv, of lc cs]
  obtain ex st' where pos: "getDocIndexPosition ?st d = (ex, st')" by (meson surj_pair)
  have inv: "feed_inv ?st" using R by blast
  have "map_option ((!) (fx_index ?st)) ex = entry_map ?st d"
  proof (rule option_eq_SomeI)
    fix e
    show "map_option ((!) (fx_index ?st)) ex = Some e \<longleftrightarrow> entry_map ?st d = Some e"
      unfolding entry_map_iff [OF feed_invD(4) [OF inv]]
      using position_correct(4) [OF inv pos] doc_index_unique [OF feed_invD(4) [OF inv]]
      by (cases ex) (simp, metis image_eqI, auto simp: in_set_conv_nth)
  qed
  moreover have "entry_map empty_index = Map.empty" "fx_nextSeq empty_index = 1"
    by (simp_all add: entry_map_def empty_index_def)
  ultimately show ?thesis
    using R feed_invD(1) [OF inv] pos by (simp add: Let_def prod_eq_iff)
qed

text \<open>
  C36. The feed has no gaps and no repeats. Whatever updates are made, wherever a consumer stops
  reading, and however often the database is restored from its checkpoint in between: when the
  consumer reads to the end, it holds exactly the current entry of every document that matches
  its id prefix, it has seen change numbers in strictly rising order, and nothing is left to
  read. No property of \<^verbatim>\<open>localeCompare\<close> is used.
\<close>

theorem feed_gap_free:
  "let (st, con) = feed_run lc idPrefix evs;
       con' = consume lc idPrefix (length (fx_index st)) st con
   in latest (cn_log con') = matching idPrefix (entry_map st) \<and>
      sorted_wrt (<) (map ie_changeSeq (cn_log con')) \<and>
      changes_since lc idPrefix (cn_cursor con') st = [] \<and>
      countChangesSince lc idPrefix (cn_cursor con') st = 0"
proof -
  obtain st con where run: "feed_run lc idPrefix evs = (st, con)" by (meson surj_pair)
  let ?n = "length (fx_index st)" and ?con = "consume lc idPrefix (length (fx_index st)) st con"
  have inv: "consumer_inv idPrefix (st, con)" using feed_run_inv [of idPrefix lc evs] run by simp
  have inv': "consumer_inv idPrefix (st, ?con)" by (rule take_keeps_consumer [OF inv])
  note I = consumer_invD [OF inv] and I' = consumer_invD [OF inv']
  have short: "length (changes_since lc idPrefix cursor st) \<le> ?n" for cursor
    unfolding changes_since_def Let_def by (rule order_trans [OF length_filter_le]) simp
  have caught: "changes_since lc idPrefix (cn_cursor ?con) st = []"
  proof (cases "changes_since lc idPrefix (cn_cursor con) st = []")
    case True
    then show ?thesis by (simp add: consume_def)
  next
    case False
    let ?es = "changes_since lc idPrefix (cn_cursor con) st"
    have con: "cn_cursor ?con = Some (cursor_of (last ?es))"
      using False short by (simp add: consume_def Let_def)
    have es: "?es = take ?n ?es" using short by simp
    note C = consume_cases [OF I(1,2) es False]
    have "\<not> ie_changeSeq (last ?es) < ie_changeSeq e"
      if "e \<in> set (fx_index st)" "passes_prefix (normalizeIdPrefixFilter idPrefix) e" for e
    proof
      assume later: "ie_changeSeq (last ?es) < ie_changeSeq e"
      then have "e \<in> set ?es"
        using that C(5) by (simp add: changes_since_correct [OF I(1,2)])
      then show False using C(1) later by auto
    qed
    then show ?thesis
      unfolding changes_since_correct [OF I'(1,2)] unfolding con
      by (auto simp: filter_empty_conv cursor_seq_def cursor_of_def)
  qed
  have "matching idPrefix (entry_map st) d = Some e \<Longrightarrow> latest (cn_log ?con) d = Some e" for d e
    using I'(5) [of d e] caught matching_iff [OF I(1), of idPrefix d e]
    unfolding changes_since_correct [OF I'(1,2)] by (auto simp: filter_empty_conv not_less)
  moreover have "latest (cn_log ?con) d = Some l \<Longrightarrow> \<exists>e. matching idPrefix (entry_map st) d = Some e" for d l
    using consumer_inv_known [OF inv'] by blast
  ultimately have "latest (cn_log ?con) = matching idPrefix (entry_map st)"
    by (intro ext option_eq_SomeI) (metis option.inject)
  moreover have "countChangesSince lc idPrefix (cn_cursor ?con) st = 0"
    using count_is_length [OF I'(1,2)] caught by simp
  ultimately show ?thesis
    using I'(3) caught by (simp add: run)
qed

text \<open>
  The restored checkpoint has to be current. When the process dies after a consumer has saved
  its cursor and before the database has saved its index, numbers are given out twice, and a
  document that takes a number the consumer has passed is not delivered.
\<close>

definition change_of :: "string \<Rightarrow> int \<Rightarrow> index_change" where
  "change_of d t = \<lparr> ic_docId = d, ic_lastModified = t, ic_isDeleted = False, ic_decryptionKeyId = ''default'',
     ic_accessState = Visible, ic_awaitingWitness = False, ic_witnessed = False, ic_force = False \<rparr>"

lemma old_checkpoint_hides_change:
  "let saved = updateIndex compare_by (change_of ''d1'' 10) empty_index;
       latest = updateIndex compare_by (change_of ''d2'' 20) saved;
       cursor = getLatestChangeCursor latest;
       restored = restore_index (fx_index saved) (Some (fx_nextSeq saved));
       st = updateIndex compare_by (change_of ''a'' 30) restored
   in map ie_docId (fx_index st) = [''d1'', ''a''] \<and> changes_since compare_by None cursor st = []"
  by code_simp

end
