(* ===== verification/SummaryStore.thy ===== *)
theory SummaryStore
  imports SummaryFields ChangeFeed
begin

text \<open>
  The summary buffer of a database (\<^verbatim>\<open>core/indexing/summary/DocumentSummaryStore.ts\<close>): the
  configuration and its fingerprint, the update run with its incremental pass and its backfill
  pass, removal, reset, and the persistence in buckets. A run is a sequence of steps, one per
  document it receives, so that everything the program may do between two of its awaits can come
  between two steps. The documents that the change feed hands out are loaded when they are
  handed out; the index they are listed in is copied when an iteration begins.
\<close>

section \<open>State\<close>

definition DB_SETUP_DOC_ID :: string where "DB_SETUP_DOC_ID = ''dbsetup''"

definition SUMMARY_SETUP_FIELD :: string where "SUMMARY_SETUP_FIELD = ''summarySetup''"

text \<open>The fingerprint is the JSON text of these fields, so two are equal when the fields are.\<close>

type_synonym summary_fingerprint = resolved_config

definition computeSummaryConfigFingerprint :: "resolved_config \<Rightarrow> summary_fingerprint" where
  "computeSummaryConfigFingerprint config =
     config \<lparr> include_paths := js_sort compare_by (include_paths config),
              exclude_paths := js_sort compare_by (exclude_paths config) \<rparr>"

record summary_entry =
  se_docId :: string
  se_fields :: js_object
  se_lastModified :: int
  se_changeSeq :: int
  se_decryptionKeyId :: "string option"

text \<open>What the store reads of a document.\<close>

record doc_view =
  dv_id :: string
  dv_isDeleted :: bool
  dv_data :: js_object
  dv_lastModified :: int
  dv_decryptionKeyId :: "string option"

record summary_store =
  ss_config :: resolved_config
  ss_configFingerprint :: summary_fingerprint
  ss_hasExplicitConfig :: bool
  ss_setupDocSeeded :: bool
  ss_entries :: "(string, summary_entry) jsmap"
  ss_cursor :: "change_cursor option"
  ss_cacheAttached :: bool
  ss_dirtyBuckets :: "nat jsset"
  ss_metaDirty :: bool
  ss_restored :: bool
  ss_needsBackfill :: bool
  ss_backfillCursor :: "change_cursor option"

text \<open>The constructor, and the attachment of a cache.\<close>

definition new_summary_store :: "summary_config option \<Rightarrow> summary_store" where
  "new_summary_store config =
     \<lparr> ss_config = resolveSummaryConfig config,
       ss_configFingerprint = computeSummaryConfigFingerprint (resolveSummaryConfig config),
       ss_hasExplicitConfig = (config \<noteq> None), ss_setupDocSeeded = False,
       ss_entries = [], ss_cursor = None, ss_cacheAttached = False, ss_dirtyBuckets = [],
       ss_metaDirty = False, ss_restored = False, ss_needsBackfill = False, ss_backfillCursor = None \<rparr>"

definition attachCache :: "summary_store \<Rightarrow> summary_store" where
  "attachCache st = st \<lparr> ss_cacheAttached := True \<rparr>"

section \<open>Configuration\<close>

definition scheduleBackfill :: "summary_store \<Rightarrow> summary_store" where
  "scheduleBackfill st = st \<lparr> ss_needsBackfill := True, ss_backfillCursor := None \<rparr>"

definition applyConfig :: "summary_config option \<Rightarrow> summary_store \<Rightarrow> summary_store" where
  "applyConfig config st =
     (let resolved = resolveSummaryConfig config;
          fingerprint = computeSummaryConfigFingerprint resolved
      in if fingerprint = ss_configFingerprint st then st
         else
           (let st1 = st \<lparr> ss_config := resolved, ss_configFingerprint := fingerprint \<rparr>;
                st2 = (if length (ss_entries st1) > 0 \<or> ss_cursor st1 \<noteq> None then scheduleBackfill st1 else st1)
            in st2 \<lparr> ss_metaDirty := True \<rparr>))"

definition setConfig :: "summary_config option \<Rightarrow> summary_store \<Rightarrow> summary_store" where
  "setConfig config st = applyConfig config (st \<lparr> ss_hasExplicitConfig := True \<rparr>)"

text \<open>The setup document is given as its data, or nothing when it cannot be read.\<close>

definition seedConfigFromSetupDoc :: "js_object option \<Rightarrow> summary_store \<Rightarrow> summary_store" where
  "seedConfigFromSetupDoc setup st =
     (if ss_setupDocSeeded st \<or> ss_hasExplicitConfig st then st \<lparr> ss_setupDocSeeded := True \<rparr>
      else
        (let st1 = st \<lparr> ss_setupDocSeeded := True \<rparr>
         in case setup of
              None \<Rightarrow> st1
            | Some data \<Rightarrow>
                (case sanitizeSummaryConfig (js_prop data SUMMARY_SETUP_FIELD) of
                   None \<Rightarrow> st1
                 | Some config \<Rightarrow> applyConfig (Some config) st1)))"

datatype summary_coverage = FullCoverage | Rebuilding

definition getCoverage :: "summary_store \<Rightarrow> summary_coverage" where
  "getCoverage st = (if ss_needsBackfill st then Rebuilding else FullCoverage)"

section \<open>Buckets\<close>

definition DEFAULT_BUCKET_COUNT :: nat where "DEFAULT_BUCKET_COUNT = 64"

definition hashDocId :: "string \<Rightarrow> nat" where
  "hashDocId docId =
     unat (foldl (\<lambda>h c. push_bit 5 h + h + of_nat (of_char c)) (5381 :: 32 word) docId)"

definition bucketIndexFor :: "string \<Rightarrow> nat" where
  "bucketIndexFor docId = hashDocId docId mod DEFAULT_BUCKET_COUNT"

definition markBucketDirty :: "string \<Rightarrow> summary_store \<Rightarrow> summary_store" where
  "markBucketDirty docId st =
     st \<lparr> ss_dirtyBuckets := set_add (bucketIndexFor docId) (ss_dirtyBuckets st), ss_metaDirty := True \<rparr>"

section \<open>Applying a document\<close>

definition delete_entry :: "string \<Rightarrow> summary_store \<Rightarrow> summary_store" where
  "delete_entry docId st =
     (if map_has (ss_entries st) docId
      then markBucketDirty docId (st \<lparr> ss_entries := AList.delete docId (ss_entries st) \<rparr>) else st)"

definition entry_of_doc ::
  "js_runtime \<Rightarrow> (js_value \<Rightarrow> nat option) \<Rightarrow> resolved_config \<Rightarrow> doc_view \<Rightarrow> change_cursor \<Rightarrow> summary_entry" where
  "entry_of_doc rt json_length config doc cursor =
     \<lparr> se_docId = dv_id doc,
       se_fields = extractSummaryFields rt json_length (dv_data doc) config,
       se_lastModified = dv_lastModified doc,
       se_changeSeq = (case cc_changeSeq cursor of Some s \<Rightarrow> s | None \<Rightarrow> 0),
       se_decryptionKeyId = dv_decryptionKeyId doc \<rparr>"

definition setup_config_of :: "doc_view \<Rightarrow> summary_config option" where
  "setup_config_of doc =
     (if dv_isDeleted doc then None
      else sanitizeSummaryConfig (js_prop (dv_data doc) SUMMARY_SETUP_FIELD))"

definition applyDocument ::
  "js_runtime \<Rightarrow> (js_value \<Rightarrow> nat option) \<Rightarrow> doc_view \<Rightarrow> change_cursor \<Rightarrow> summary_store \<Rightarrow> summary_store" where
  "applyDocument rt json_length doc cursor st =
     (if dv_id doc = DB_SETUP_DOC_ID then
        delete_entry (dv_id doc)
          (if \<not> ss_hasExplicitConfig st then applyConfig (setup_config_of doc) st else st)
      else if dv_isDeleted doc then delete_entry (dv_id doc) st
      else
        markBucketDirty (dv_id doc)
          (st \<lparr> ss_entries := AList.update (dv_id doc)
                 (entry_of_doc rt json_length (ss_config st) doc cursor) (ss_entries st) \<rparr>))"

definition removeDocument :: "string \<Rightarrow> summary_store \<Rightarrow> summary_store" where
  "removeDocument docId st = delete_entry docId st"

definition reset_summary :: "summary_store \<Rightarrow> summary_store" where
  "reset_summary st =
     st \<lparr> ss_entries := [], ss_cursor := None, ss_needsBackfill := False, ss_backfillCursor := None,
          ss_dirtyBuckets := fold set_add [0..<DEFAULT_BUCKET_COUNT] (ss_dirtyBuckets st),
          ss_metaDirty := True \<rparr>"

section \<open>Persistence\<close>

record summary_meta =
  mt_cursor :: "change_cursor option"
  mt_configFingerprint :: summary_fingerprint
  mt_bucketCount :: "nat option"
  mt_needsBackfill :: bool
  mt_backfillCursor :: "change_cursor option"

text \<open>The records of one summary; a bucket record that does not parse is \<open>None\<close>.\<close>

record summary_cache =
  sm_meta :: "summary_meta option"
  sm_buckets :: "(nat, summary_entry list option) jsmap"

definition hasDirtyState :: "summary_store \<Rightarrow> bool" where
  "hasDirtyState st \<longleftrightarrow> length (ss_dirtyBuckets st) > 0 \<or> ss_metaDirty st"

definition clearDirty :: "summary_store \<Rightarrow> summary_store" where
  "clearDirty st = st \<lparr> ss_dirtyBuckets := [], ss_metaDirty := False \<rparr>"

text \<open>The entries of the dirty buckets, grouped once at the start.\<close>

definition group_dirty :: "summary_store \<Rightarrow> (nat, summary_entry list) jsmap" where
  "group_dirty st =
     foldl (\<lambda>byBucket entry.
              let bucket = bucketIndexFor (se_docId entry)
              in if bucket \<notin> set (ss_dirtyBuckets st) then byBucket
                 else AList.update bucket
                   ((case map_of byBucket bucket of Some list \<Rightarrow> list | None \<Rightarrow> []) @ [entry]) byBucket)
       [] (map_values (ss_entries st))"

definition put_bucket ::
  "(nat, summary_entry list) jsmap \<Rightarrow> summary_cache \<Rightarrow> nat \<Rightarrow> summary_cache" where
  "put_bucket byBucket cache bucket =
     cache \<lparr> sm_buckets := AList.update bucket
               (Some (case map_of byBucket bucket of Some list \<Rightarrow> list | None \<Rightarrow> [])) (sm_buckets cache) \<rparr>"

definition put_meta :: "summary_store \<Rightarrow> summary_cache \<Rightarrow> summary_cache" where
  "put_meta st cache =
     cache \<lparr> sm_meta := Some \<lparr> mt_cursor = ss_cursor st, mt_configFingerprint = ss_configFingerprint st,
               mt_bucketCount = Some DEFAULT_BUCKET_COUNT, mt_needsBackfill = ss_needsBackfill st,
               mt_backfillCursor = ss_backfillCursor st \<rparr> \<rparr>"

text \<open>
  The rest of a flush after \<open>k\<close> buckets have been written: the loop runs over the set of dirty
  buckets itself, so it also visits what has been added since.
\<close>

definition flush_from ::
  "(nat, summary_entry list) jsmap \<Rightarrow> nat \<Rightarrow> summary_store \<Rightarrow> summary_cache \<Rightarrow> summary_cache" where
  "flush_from byBucket k st cache =
     put_meta st (foldl (put_bucket byBucket) cache (drop k (ss_dirtyBuckets st)))"

definition flushSummaryToCache :: "summary_store \<Rightarrow> summary_cache \<Rightarrow> summary_cache" where
  "flushSummaryToCache st cache =
     flush_from (if length (ss_dirtyBuckets st) > 0 then group_dirty st else []) 0 st cache"

text \<open>One cacheable in the flush of the cache manager.\<close>

definition flush_cacheable :: "summary_store \<times> summary_cache \<Rightarrow> summary_store \<times> summary_cache" where
  "flush_cacheable s =
     (if hasDirtyState (fst s) then (clearDirty (fst s), flushSummaryToCache (fst s) (snd s)) else s)"

definition stored_buckets :: "summary_cache \<Rightarrow> nat \<Rightarrow> summary_entry list option list" where
  "stored_buckets cache bucketCount = List.map_filter (\<lambda>i. map_of (sm_buckets cache) i) [0..<bucketCount]"

definition restoreSummaryFromCache :: "summary_cache \<Rightarrow> summary_store \<Rightarrow> summary_store" where
  "restoreSummaryFromCache cache st =
     (case sm_meta cache of
        None \<Rightarrow> st
      | Some meta \<Rightarrow>
          (let buckets = stored_buckets cache (case mt_bucketCount meta of Some n \<Rightarrow> n | None \<Rightarrow> DEFAULT_BUCKET_COUNT)
           in if None \<in> set buckets then st \<lparr> ss_entries := [], ss_cursor := None \<rparr>
              else
                (let st1 = st \<lparr> ss_entries :=
                              foldl (\<lambda>m entry. AList.update (se_docId entry) entry m) (ss_entries st)
                                (concat (List.map_filter id buckets)),
                            ss_cursor := mt_cursor meta \<rparr>
                 in if mt_configFingerprint meta \<noteq> ss_configFingerprint st1
                    then (scheduleBackfill st1) \<lparr> ss_metaDirty := True \<rparr>
                    else if mt_needsBackfill meta
                    then st1 \<lparr> ss_needsBackfill := True, ss_backfillCursor := mt_backfillCursor meta \<rparr>
                    else st1)))"

definition ensureRestored :: "summary_cache \<Rightarrow> summary_store \<Rightarrow> summary_store" where
  "ensureRestored cache st =
     (if ss_restored st \<or> \<not> ss_cacheAttached st then st \<lparr> ss_restored := True \<rparr>
      else (restoreSummaryFromCache cache st) \<lparr> ss_restored := True \<rparr>)"

section \<open>The documents that the change feed hands out\<close>

text \<open>Deleted and inaccessible documents come as tombstones without a body; one that is not found is skipped.\<close>

definition tombstone_doc :: "index_entry \<Rightarrow> doc_view" where
  "tombstone_doc e =
     \<lparr> dv_id = ie_docId e, dv_isDeleted = True, dv_data = [], dv_lastModified = ie_lastModified e,
       dv_decryptionKeyId = Some (ie_decryptionKeyId e) \<rparr>"

definition iterated_doc :: "(string \<rightharpoonup> doc_view) \<Rightarrow> index_entry \<Rightarrow> (doc_view \<times> change_cursor) option" where
  "iterated_doc load e =
     (if ie_accessState e \<noteq> Visible then Some (tombstone_doc e, cursor_of e)
      else if ie_isDeleted e then Some (tombstone_doc e, cursor_of e)
      else map_option (\<lambda>doc. (doc, cursor_of e)) (load (ie_docId e)))"

section \<open>The update run\<close>

text \<open>Between runs, or what a pass has still to receive and how much of a batch it has done.\<close>

datatype update_phase = Idle | Pass1 "index_entry list" nat | Pass2 "index_entry list" nat

definition begin_run ::
  "(string \<Rightarrow> string \<Rightarrow> int) \<Rightarrow> feed_index \<Rightarrow> js_object option \<Rightarrow> summary_cache \<Rightarrow> bool \<Rightarrow>
   summary_store \<Rightarrow> update_phase \<times> summary_store" where
  "begin_run lc feed setup cache aborted st =
     (let st1 = ensureRestored cache (seedConfigFromSetupDoc setup st)
      in if aborted then (Idle, st1) else (Pass1 (changes_since lc None (ss_cursor st1) feed) 0, st1))"

text \<open>After a document: a full batch may end the run.\<close>

definition after_document :: "nat \<Rightarrow> bool \<Rightarrow> nat \<Rightarrow> (nat \<Rightarrow> update_phase) \<Rightarrow> update_phase" where
  "after_document applyBatchSize stop processedInBatch continue =
     (if processedInBatch + 1 \<ge> applyBatchSize then (if stop then Idle else continue 0)
      else continue (processedInBatch + 1))"

definition run_step ::
  "js_runtime \<Rightarrow> (js_value \<Rightarrow> nat option) \<Rightarrow> (string \<Rightarrow> string \<Rightarrow> int) \<Rightarrow> feed_index \<Rightarrow> (string \<rightharpoonup> doc_view) \<Rightarrow>
   nat \<Rightarrow> bool \<Rightarrow> update_phase \<Rightarrow> summary_store \<Rightarrow> update_phase \<times> summary_store" where
  "run_step rt json_length lc feed load applyBatchSize stop phase st =
     (case phase of
        Idle \<Rightarrow> (Idle, st)
      | Pass1 es n \<Rightarrow>
          (case es of
             e # rest \<Rightarrow>
               (case iterated_doc load e of
                  None \<Rightarrow> (Pass1 rest n, st)
                | Some (doc, cursor) \<Rightarrow>
                    (after_document applyBatchSize stop n (Pass1 rest),
                     (applyDocument rt json_length doc cursor st) \<lparr> ss_cursor := Some cursor \<rparr>))
           | [] \<Rightarrow> (if ss_needsBackfill st then (Pass2 (changes_since lc None (ss_backfillCursor st) feed) n, st)
                    else (Idle, st)))
      | Pass2 es n \<Rightarrow>
          (case es of
             e # rest \<Rightarrow>
               (case iterated_doc load e of
                  None \<Rightarrow> (Pass2 rest n, st)
                | Some (doc, cursor) \<Rightarrow>
                    (after_document applyBatchSize stop n (Pass2 rest),
                     (applyDocument rt json_length doc cursor st) \<lparr> ss_backfillCursor := Some cursor \<rparr>))
           | [] \<Rightarrow> (Idle, st \<lparr> ss_needsBackfill := False, ss_backfillCursor := None, ss_metaDirty := True \<rparr>)))"

text \<open>The hash in whole numbers, which evaluation uses.\<close>

lemma hash_step: "uint (push_bit 5 h + h + of_nat n :: 32 word) = (33 * uint h + int n) mod 4294967296"
proof -
  have "push_bit 5 h + h + of_nat n = (word_of_int (33 * uint h + int n) :: 32 word)"
    by (simp add: push_bit_eq_mult)
  then show ?thesis by (simp only: uint_word_of_int) simp
qed

lemma hash_fold:
  "uint (foldl (\<lambda>h c. push_bit 5 h + h + of_nat (of_char c)) (h :: 32 word) docId) =
     foldl (\<lambda>h c. (33 * h + of_char c) mod 4294967296) (uint h) docId"
proof (induction docId arbitrary: h)
  case (Cons c docId)
  show ?case unfolding foldl_Cons Cons.IH hash_step by (simp add: of_nat_of_char)
qed simp

lemma bucketIndexFor_code [code]:
  "bucketIndexFor docId = nat (foldl (\<lambda>h c. (33 * h + of_char c) mod 4294967296) (5381 :: int) docId mod 64)"
proof -
  have "int (hashDocId docId) = foldl (\<lambda>h c. (33 * h + of_char c) mod 4294967296) 5381 docId"
    unfolding hashDocId_def uint_nat [symmetric] hash_fold by simp
  then have "int (bucketIndexFor docId) = foldl (\<lambda>h c. (33 * h + of_char c) mod 4294967296) 5381 docId mod 64"
    unfolding bucketIndexFor_def DEFAULT_BUCKET_COUNT_def by (simp only: zmod_int of_nat_numeral)
  then show ?thesis by (metis nat_int)
qed

end
