(* ===== verification/SummaryBehaviour.thy ===== *)
theory SummaryBehaviour
  imports SummaryStore
begin

text \<open>
  What the summary buffer promises: after a run that is not interrupted it holds the extraction
  of every live document under the current configuration, through restarts, flushes and
  interrupted runs; and the interleavings under which it does not.
\<close>

section \<open>What a cache holds\<close>

definition bucket_list :: "summary_cache \<Rightarrow> nat \<Rightarrow> summary_entry list" where
  "bucket_list cache b = (case map_of (sm_buckets cache) b of Some (Some es) \<Rightarrow> es | _ \<Rightarrow> [])"

definition by_docId :: "summary_entry list \<Rightarrow> string \<rightharpoonup> summary_entry" where
  "by_docId es = map_of (map (\<lambda>e. (se_docId e, e)) es)"

definition cached_map :: "summary_cache \<Rightarrow> string \<rightharpoonup> summary_entry" where
  "cached_map cache d = by_docId (bucket_list cache (bucketIndexFor d)) d"

definition wf_cache :: "summary_cache \<Rightarrow> bool" where
  "wf_cache cache \<longleftrightarrow>
     (\<forall>b. map_of (sm_buckets cache) b \<noteq> Some None \<and> distinct (map se_docId (bucket_list cache b)) \<and>
        (\<forall>e \<in> set (bucket_list cache b). bucketIndexFor (se_docId e) = b)) \<and>
     (case sm_meta cache of None \<Rightarrow> True | Some mt \<Rightarrow> mt_bucketCount mt = Some DEFAULT_BUCKET_COUNT)"

definition keyed_entries :: "(string, summary_entry) jsmap \<Rightarrow> bool" where
  "keyed_entries m \<longleftrightarrow> distinct (map_keys m) \<and> (\<forall>(k, e) \<in> set m. se_docId e = k)"

lemma keyed_values: "keyed_entries m \<Longrightarrow> map (\<lambda>e. (se_docId e, e)) (map_values m) = m"
  by (induction m) (auto simp: keyed_entries_def)

lemma keyed_update: "keyed_entries m \<Longrightarrow> se_docId e = k \<Longrightarrow> keyed_entries (AList.update k e m)"
  unfolding keyed_entries_def using set_update_subset [of k e m] by (auto simp: distinct_update)

lemma keyed_delete: "keyed_entries m \<Longrightarrow> keyed_entries (AList.delete k m)"
  unfolding keyed_entries_def by (auto simp: AList.delete_eq distinct_map_filter)

lemma bucket_bound [simp]: "bucketIndexFor d < DEFAULT_BUCKET_COUNT"
  by (simp add: bucketIndexFor_def DEFAULT_BUCKET_COUNT_def)

lemma by_docId_iff: "distinct (map se_docId es) \<Longrightarrow> by_docId es d = Some e \<longleftrightarrow> e \<in> set es \<and> se_docId e = d"
proof -
  assume "distinct (map se_docId es)"
  then have "distinct (map fst (map (\<lambda>e. (se_docId e, e)) es))" by (simp add: comp_def)
  then show ?thesis unfolding by_docId_def by (auto simp: map_of_eq_Some_iff)
qed

text \<open>Grouping collects, for each dirty bucket, its entries in order.\<close>

lemma group_dirty_lookup:
  "(case map_of (group_dirty st) b of Some es \<Rightarrow> es | None \<Rightarrow> []) =
   (if b \<in> set (ss_dirtyBuckets st)
    then filter (\<lambda>e. bucketIndexFor (se_docId e) = b) (map_values (ss_entries st)) else [])"
proof -
  let ?f = "\<lambda>byBucket entry.
      let bucket = bucketIndexFor (se_docId entry)
      in if bucket \<notin> set (ss_dirtyBuckets st) then byBucket
         else AList.update bucket ((case map_of byBucket bucket of Some es \<Rightarrow> es | None \<Rightarrow> []) @ [entry]) byBucket"
  let ?at = "\<lambda>m. case map_of m b of Some es \<Rightarrow> es | None \<Rightarrow> []"
  have "?at (foldl ?f acc es) = ?at acc @ (if b \<in> set (ss_dirtyBuckets st)
      then filter (\<lambda>e. bucketIndexFor (se_docId e) = b) es else [])" for acc es
  proof (induction es arbitrary: acc)
    case (Cons e es)
    have "?at (?f acc e) = ?at acc @ (if b \<in> set (ss_dirtyBuckets st) \<and> bucketIndexFor (se_docId e) = b then [e] else [])"
      by (auto simp: Let_def js_simps)
    then show ?case using Cons [of "?f acc e"] by simp
  qed simp
  from this [of "[]" "map_values (ss_entries st)"] show ?thesis unfolding group_dirty_def by simp
qed

lemma put_buckets:
  "map_of (sm_buckets (foldl (put_bucket g) cache bs)) b =
     (if b \<in> set bs then Some (Some (case map_of g b of Some es \<Rightarrow> es | None \<Rightarrow> [])) else map_of (sm_buckets cache) b)"
  by (induction bs arbitrary: cache) (auto simp: put_bucket_def js_simps)

lemma bucket_list_flush:
  "bucket_list (flushSummaryToCache st cache) b =
     (if b \<in> set (ss_dirtyBuckets st)
      then filter (\<lambda>e. bucketIndexFor (se_docId e) = b) (map_values (ss_entries st)) else bucket_list cache b)"
  using group_dirty_lookup [of st b]
  by (auto simp: bucket_list_def flushSummaryToCache_def flush_from_def put_meta_def put_buckets)

lemma by_docId_filter:
  assumes "keyed_entries m"
  shows "by_docId (filter (\<lambda>e. bucketIndexFor (se_docId e) = b) (map_values m)) d =
    (if bucketIndexFor d = b then map_of m d else None)"
proof -
  have dist: "distinct (map se_docId (map_values m))"
    using assms by (auto simp: keyed_entries_def comp_def case_prod_beta distinct_map inj_on_def)
  have "by_docId (map_values m) = map_of m"
    unfolding by_docId_def keyed_values [OF assms] ..
  then have iff: "e \<in> set (map_values m) \<and> se_docId e = d \<longleftrightarrow> map_of m d = Some e" for e
    using by_docId_iff [OF dist, of d e] by simp
  show ?thesis
  proof (rule option_eq_SomeI)
    fix e
    show "by_docId (filter (\<lambda>e. bucketIndexFor (se_docId e) = b) (map_values m)) d = Some e \<longleftrightarrow>
        (if bucketIndexFor d = b then map_of m d else None) = Some e"
      unfolding by_docId_iff [OF distinct_map_filter [OF dist]] using iff [of e] by auto
  qed
qed

lemma flush_cached_map:
  assumes "keyed_entries (ss_entries st)"
  shows "cached_map (flushSummaryToCache st cache) d =
    (if bucketIndexFor d \<in> set (ss_dirtyBuckets st) then map_of (ss_entries st) d else cached_map cache d)"
  using by_docId_filter [OF assms] by (simp add: cached_map_def bucket_list_flush)

lemma keyed_docIds: "keyed_entries m \<Longrightarrow> distinct (map se_docId (map_values m))"
  by (auto simp: keyed_entries_def comp_def case_prod_beta distinct_map inj_on_def)

lemma flush_wf:
  assumes "wf_cache cache" and "keyed_entries (ss_entries st)"
  shows "wf_cache (flushSummaryToCache st cache)"
proof -
  have "map_of (sm_buckets (flushSummaryToCache st cache)) b \<noteq> Some None" for b
    using assms(1) by (simp add: wf_cache_def flushSummaryToCache_def flush_from_def put_meta_def put_buckets)
  moreover have "distinct (map se_docId (bucket_list (flushSummaryToCache st cache) b))" for b
    using assms(1) distinct_map_filter [OF keyed_docIds [OF assms(2)]] by (simp add: bucket_list_flush wf_cache_def)
  moreover have "bucketIndexFor (se_docId e) = b" if "e \<in> set (bucket_list (flushSummaryToCache st cache) b)" for e b
    using that assms(1) by (auto simp: bucket_list_flush wf_cache_def split: if_splits)
  moreover have "case sm_meta (flushSummaryToCache st cache) of None \<Rightarrow> True
      | Some mt \<Rightarrow> mt_bucketCount mt = Some DEFAULT_BUCKET_COUNT"
    by (simp add: flushSummaryToCache_def flush_from_def put_meta_def)
  ultimately show ?thesis unfolding wf_cache_def by blast
qed

text \<open>Restoring reads every bucket; the buckets hold different documents.\<close>

lemma map_of_restore_fold:
  "map_of (foldl (\<lambda>m entry. AList.update (se_docId entry) entry m) acc es) =
     map_of acc ++ map_of (rev (map (\<lambda>e. (se_docId e, e)) es))"
  by (induction es arbitrary: acc) (auto simp: js_simps map_add_def fun_eq_iff split: option.splits)

lemma keyed_restore_fold:
  "keyed_entries acc \<Longrightarrow> keyed_entries (foldl (\<lambda>m entry. AList.update (se_docId entry) entry m) acc es)"
  by (induction es arbitrary: acc) (auto intro: keyed_update)

lemma stored_ok:
  assumes "wf_cache cache"
  shows "None \<notin> set (stored_buckets cache n)"
    and "concat (List.map_filter id (stored_buckets cache n)) = concat (map (bucket_list cache) [0..<n])"
proof -
  show "None \<notin> set (stored_buckets cache n)"
    using assms by (auto simp: stored_buckets_def wf_cache_def List.map_filter_def)
  have "concat (List.map_filter id (List.map_filter (\<lambda>i. map_of (sm_buckets cache) i) is)) = concat (map (bucket_list cache) is)" for "is"
    using assms by (induction "is") (auto simp: List.map_filter_simps bucket_list_def wf_cache_def split: option.splits)
  then show "concat (List.map_filter id (stored_buckets cache n)) = concat (map (bucket_list cache) [0..<n])"
    by (simp add: stored_buckets_def)
qed

lemma all_buckets:
  assumes "wf_cache cache"
  shows "distinct (map se_docId (concat (map (bucket_list cache) [0..<n])))"
    and "e \<in> set (concat (map (bucket_list cache) [0..<n])) \<longleftrightarrow>
      bucketIndexFor (se_docId e) < n \<and> e \<in> set (bucket_list cache (bucketIndexFor (se_docId e)))"
proof -
  have own: "bucketIndexFor (se_docId e) = b" if "e \<in> set (bucket_list cache b)" for e b
    using that assms by (simp add: wf_cache_def)
  show mem: "e \<in> set (concat (map (bucket_list cache) [0..<n])) \<longleftrightarrow>
      bucketIndexFor (se_docId e) < n \<and> e \<in> set (bucket_list cache (bucketIndexFor (se_docId e)))" for e n
  proof
    assume "e \<in> set (concat (map (bucket_list cache) [0..<n]))"
    then obtain b where "b < n" "e \<in> set (bucket_list cache b)" by auto
    then show "bucketIndexFor (se_docId e) < n \<and> e \<in> set (bucket_list cache (bucketIndexFor (se_docId e)))"
      using own by metis
  qed auto
  show "distinct (map se_docId (concat (map (bucket_list cache) [0..<n])))"
  proof (induction n)
    case (Suc n)
    have "distinct (map se_docId (bucket_list cache n))" using assms by (simp add: wf_cache_def)
    moreover have "se_docId a \<noteq> se_docId b"
      if "a \<in> set (concat (map (bucket_list cache) [0..<n]))" "b \<in> set (bucket_list cache n)" for a b
      using own [OF that(2)] that(1) unfolding mem by auto
    then have "se_docId ` set (concat (map (bucket_list cache) [0..<n])) \<inter> se_docId ` set (bucket_list cache n) = {}"
      by blast
    ultimately show ?case using Suc by (simp del: set_concat)
  qed simp
qed

lemma restored_map:
  assumes wf: "wf_cache cache" and st: "ss_entries st = []" and meta: "sm_meta cache = Some mt"
  shows "map_of (ss_entries (restoreSummaryFromCache cache st)) = cached_map cache"
    and "keyed_entries (ss_entries (restoreSummaryFromCache cache st))"
    and "ss_cursor (restoreSummaryFromCache cache st) = mt_cursor mt"
proof -
  let ?es = "concat (map (bucket_list cache) [0..<DEFAULT_BUCKET_COUNT])"
  have count: "mt_bucketCount mt = Some DEFAULT_BUCKET_COUNT" using wf meta by (simp add: wf_cache_def)
  have entries: "ss_entries (restoreSummaryFromCache cache st) = foldl (\<lambda>m entry. AList.update (se_docId entry) entry m) [] ?es"
    and "ss_cursor (restoreSummaryFromCache cache st) = mt_cursor mt"
    using stored_ok [OF wf] st count by (simp_all add: restoreSummaryFromCache_def meta Let_def scheduleBackfill_def)
  then show "ss_cursor (restoreSummaryFromCache cache st) = mt_cursor mt" by simp
  show "keyed_entries (ss_entries (restoreSummaryFromCache cache st))"
    unfolding entries by (rule keyed_restore_fold) (simp add: keyed_entries_def)
  have "map_of (rev (map (\<lambda>e. (se_docId e, e)) ?es)) d = cached_map cache d" for d
  proof (rule option_eq_SomeI)
    fix e
    have "distinct (map fst (rev (map (\<lambda>e. (se_docId e, e)) ?es)))"
      using all_buckets(1) [OF wf] by (simp add: rev_map [symmetric] comp_def)
    then have "map_of (rev (map (\<lambda>e. (se_docId e, e)) ?es)) d = Some e \<longleftrightarrow> e \<in> set ?es \<and> se_docId e = d"
      by (auto simp: map_of_eq_Some_iff simp del: set_concat)
    also have "\<dots> \<longleftrightarrow> cached_map cache d = Some e"
      unfolding all_buckets(2) [OF wf] cached_map_def
      using wf by (subst by_docId_iff) (auto simp: wf_cache_def)
    finally show "map_of (rev (map (\<lambda>e. (se_docId e, e)) ?es)) d = Some e \<longleftrightarrow> cached_map cache d = Some e" .
  qed
  then show "map_of (ss_entries (restoreSummaryFromCache cache st)) = cached_map cache"
    unfolding entries by (simp add: map_of_restore_fold fun_eq_iff)
qed

section \<open>The database around the store\<close>

text \<open>
  A world: the index of the database, its current documents, the store, its cache records and
  the phase of its update run. The events are a write of a document (which the database announces
  with a fresh change number), a change of its access or witness state (a document that becomes
  inaccessible is removed from the store at once), the operations of the store, one step of an
  update run, a flush, and a restart from a current checkpoint.
\<close>

record summary_world =
  sw_feed :: feed_index
  sw_docs :: "string \<rightharpoonup> doc_view"
  sw_store :: summary_store
  sw_cache :: summary_cache
  sw_phase :: update_phase

datatype summary_event =
    DbWrite index_change js_object
  | DbState string access_state bool bool
  | EnsureConfig
  | StartUpdate bool
  | UpdateStep nat bool
  | SetConfig "summary_config option"
  | ResetSummary
  | FlushSummary
  | RestartDb "summary_config option"

definition doc_of_change :: "index_change \<Rightarrow> js_object \<Rightarrow> doc_view" where
  "doc_of_change c data =
     \<lparr> dv_id = ic_docId c, dv_isDeleted = ic_isDeleted c, dv_data = data, dv_lastModified = ic_lastModified c,
       dv_decryptionKeyId = Some (ic_decryptionKeyId c) \<rparr>"

definition state_change :: "doc_view \<Rightarrow> access_state \<Rightarrow> bool \<Rightarrow> bool \<Rightarrow> index_change" where
  "state_change doc acc awaiting witn =
     \<lparr> ic_docId = dv_id doc, ic_lastModified = dv_lastModified doc,
       ic_isDeleted = (dv_isDeleted doc \<or> acc = Inaccessible),
       ic_decryptionKeyId = (case dv_decryptionKeyId doc of Some k \<Rightarrow> k | None \<Rightarrow> ''default''),
       ic_accessState = acc, ic_awaitingWitness = awaiting, ic_witnessed = witn, ic_force = False \<rparr>"

definition readable_setup :: "summary_world \<Rightarrow> js_object option" where
  "readable_setup w =
     (case entry_map (sw_feed w) DB_SETUP_DOC_ID of
        None \<Rightarrow> None
      | Some e \<Rightarrow>
          if ie_accessState e = Visible \<and> \<not> ie_isDeleted e
          then (case sw_docs w DB_SETUP_DOC_ID of
                  Some doc \<Rightarrow> if dv_isDeleted doc then None else Some (dv_data doc) | None \<Rightarrow> None)
          else None)"

definition new_world :: "summary_config option \<Rightarrow> summary_world" where
  "new_world config =
     \<lparr> sw_feed = empty_index, sw_docs = Map.empty, sw_store = attachCache (new_summary_store config),
       sw_cache = \<lparr> sm_meta = None, sm_buckets = [] \<rparr>, sw_phase = Idle \<rparr>"

definition summary_step ::
  "js_runtime \<Rightarrow> (js_value \<Rightarrow> nat option) \<Rightarrow> (string \<Rightarrow> string \<Rightarrow> int) \<Rightarrow> summary_event \<Rightarrow> summary_world \<Rightarrow> summary_world" where
  "summary_step rt json_length lc ev w =
     (case ev of
        DbWrite c data \<Rightarrow>
          w \<lparr> sw_feed := updateIndex lc (c \<lparr> ic_force := True, ic_accessState := Visible \<rparr>) (sw_feed w),
              sw_docs := (sw_docs w)(ic_docId c \<mapsto> doc_of_change c data) \<rparr>
      | DbState d acc awaiting witn \<Rightarrow>
          (case sw_docs w d of
             None \<Rightarrow> w
           | Some doc \<Rightarrow>
               w \<lparr> sw_feed := updateIndex lc (state_change doc acc awaiting witn) (sw_feed w),
                   sw_store := (if acc = Inaccessible then removeDocument d (sw_store w) else sw_store w) \<rparr>)
      | EnsureConfig \<Rightarrow> w \<lparr> sw_store := seedConfigFromSetupDoc (readable_setup w) (sw_store w) \<rparr>
      | StartUpdate aborted \<Rightarrow>
          (if sw_phase w \<noteq> Idle then w
           else (let (phase, st) = begin_run lc (sw_feed w) (readable_setup w) (sw_cache w) aborted (sw_store w)
                 in w \<lparr> sw_phase := phase, sw_store := st \<rparr>))
      | UpdateStep batch stop \<Rightarrow>
          (let (phase, st) = run_step rt json_length lc (sw_feed w) (sw_docs w) batch stop (sw_phase w) (sw_store w)
           in w \<lparr> sw_phase := phase, sw_store := st \<rparr>)
      | SetConfig config \<Rightarrow> w \<lparr> sw_store := setConfig config (sw_store w) \<rparr>
      | ResetSummary \<Rightarrow> w \<lparr> sw_store := reset_summary (sw_store w) \<rparr>
      | FlushSummary \<Rightarrow>
          (let (st, cache) = flush_cacheable (sw_store w, sw_cache w)
           in w \<lparr> sw_store := st, sw_cache := cache \<rparr>)
      | RestartDb config \<Rightarrow>
          w \<lparr> sw_feed := restore_index (fx_index (sw_feed w)) (Some (fx_nextSeq (sw_feed w))),
              sw_store := attachCache (new_summary_store config), sw_phase := Idle \<rparr>)"

text \<open>
  What has to be left alone while a backfill runs: the configuration, and the store may not be
  reset in the middle of a run.
\<close>

definition calm ::
  "js_runtime \<Rightarrow> (js_value \<Rightarrow> nat option) \<Rightarrow> (string \<Rightarrow> string \<Rightarrow> int) \<Rightarrow> summary_event \<Rightarrow> summary_world \<Rightarrow> bool" where
  "calm rt json_length lc ev w \<longleftrightarrow>
     (case sw_phase w of
        Idle \<Rightarrow> True
      | Pass1 _ _ \<Rightarrow> ev \<noteq> ResetSummary
      | Pass2 _ _ \<Rightarrow> ev \<noteq> ResetSummary \<and>
          (ss_configFingerprint (sw_store (summary_step rt json_length lc ev w)) =
           ss_configFingerprint (sw_store w) \<or> (\<exists>c. ev = RestartDb c)))"

inductive summary_reach ::
  "js_runtime \<Rightarrow> (js_value \<Rightarrow> nat option) \<Rightarrow> (string \<Rightarrow> string \<Rightarrow> int) \<Rightarrow> summary_world \<Rightarrow> bool"
  for rt json_length lc where
  start: "summary_reach rt json_length lc (new_world config)"
| step: "summary_reach rt json_length lc w \<Longrightarrow> calm rt json_length lc ev w \<Longrightarrow>
           summary_reach rt json_length lc (summary_step rt json_length lc ev w)"

section \<open>The invariant\<close>

text \<open>The view of a document that the feed hands out for its current entry, and its summary.\<close>

definition view_of :: "(string \<rightharpoonup> doc_view) \<Rightarrow> index_entry \<Rightarrow> doc_view" where
  "view_of docs e = (case iterated_doc docs e of Some (doc, _) \<Rightarrow> doc | None \<Rightarrow> tombstone_doc e)"

definition summary_of ::
  "js_runtime \<Rightarrow> (js_value \<Rightarrow> nat option) \<Rightarrow> resolved_config \<Rightarrow> (string \<rightharpoonup> doc_view) \<Rightarrow> index_entry \<Rightarrow> summary_entry option" where
  "summary_of rt json_length config docs e =
     (if ie_docId e = DB_SETUP_DOC_ID \<or> dv_isDeleted (view_of docs e) then None
      else Some (entry_of_doc rt json_length config (view_of docs e) (cursor_of e)))"

definition ok_entry ::
  "js_runtime \<Rightarrow> (js_value \<Rightarrow> nat option) \<Rightarrow> summary_fingerprint \<Rightarrow> (string \<rightharpoonup> summary_entry) \<Rightarrow>
   (string \<rightharpoonup> doc_view) \<Rightarrow> index_entry \<Rightarrow> bool" where
  "ok_entry rt json_length fp m docs e \<longleftrightarrow>
     (\<exists>config. computeSummaryConfigFingerprint config = fp \<and> m (ie_docId e) = summary_of rt json_length config docs e)"

definition docs_ok :: "feed_index \<Rightarrow> (string \<rightharpoonup> doc_view) \<Rightarrow> bool" where
  "docs_ok feed docs \<longleftrightarrow>
     (\<forall>d doc. docs d = Some doc \<longrightarrow> dv_id doc = d) \<and> (\<forall>e \<in> set (fx_index feed). docs (ie_docId e) \<noteq> None)"

definition claims ::
  "js_runtime \<Rightarrow> (js_value \<Rightarrow> nat option) \<Rightarrow> feed_index \<Rightarrow> (string \<rightharpoonup> doc_view) \<Rightarrow> summary_fingerprint \<Rightarrow>
   (string \<rightharpoonup> summary_entry) \<Rightarrow> change_cursor option \<Rightarrow> bool \<Rightarrow> change_cursor option \<Rightarrow> bool" where
  "claims rt json_length feed docs fp m cur needs bcur \<longleftrightarrow>
     cursor_ok feed cur \<and> (needs \<longrightarrow> cursor_ok feed bcur) \<and>
     (\<forall>d. m d \<noteq> None \<longrightarrow> d \<in> ie_docId ` set (fx_index feed)) \<and>
     (\<forall>e \<in> set (fx_index feed). ie_changeSeq e \<le> cursor_seq (if needs then bcur else cur) \<longrightarrow>
        ok_entry rt json_length fp m docs e)"

text \<open>What an iteration that began with the numbers up to \<open>hi\<close> has left after \<open>base\<close>.\<close>

definition pending :: "feed_index \<Rightarrow> index_entry list \<Rightarrow> int \<Rightarrow> int \<Rightarrow> bool" where
  "pending feed es base hi \<longleftrightarrow>
     base \<le> hi \<and> hi < fx_nextSeq feed \<and> sorted_wrt (<) (map ie_changeSeq es) \<and>
     (\<forall>r \<in> set es. base < ie_changeSeq r \<and> ie_changeSeq r \<le> hi \<and>
        (\<exists>e \<in> set (fx_index feed). ie_docId e = ie_docId r \<and> (e = r \<or> hi < ie_changeSeq e))) \<and>
     (\<forall>e \<in> set (fx_index feed). ie_changeSeq e \<le> hi \<longrightarrow> ie_changeSeq e \<le> base \<or> e \<in> set es)"

definition phase_ok :: "summary_world \<Rightarrow> bool" where
  "phase_ok w \<longleftrightarrow>
     (case sw_phase w of
        Idle \<Rightarrow> True
      | Pass1 es _ \<Rightarrow> ss_restored (sw_store w) \<and> ss_setupDocSeeded (sw_store w) \<and>
          (\<exists>hi. pending (sw_feed w) es (cursor_seq (ss_cursor (sw_store w))) hi \<and>
             (ss_needsBackfill (sw_store w) \<longrightarrow> cursor_seq (ss_backfillCursor (sw_store w)) \<le> hi))
      | Pass2 es _ \<Rightarrow> ss_restored (sw_store w) \<and> ss_setupDocSeeded (sw_store w) \<and> ss_needsBackfill (sw_store w) \<and>
          (\<exists>hi \<ge> cursor_seq (ss_cursor (sw_store w)).
             pending (sw_feed w) es (cursor_seq (ss_backfillCursor (sw_store w))) hi))"

text \<open>The cursor that the store has, or will have once it is restored.\<close>

definition known_seq :: "summary_world \<Rightarrow> int" where
  "known_seq w =
     (if ss_restored (sw_store w) then cursor_seq (ss_cursor (sw_store w))
      else (case sm_meta (sw_cache w) of None \<Rightarrow> 0 | Some mt \<Rightarrow> cursor_seq (mt_cursor mt)))"

definition setup_ok :: "summary_world \<Rightarrow> bool" where
  "setup_ok w \<longleftrightarrow>
     (\<not> ss_hasExplicitConfig (sw_store w) \<longrightarrow>
        (if ss_setupDocSeeded (sw_store w)
         then (\<forall>e \<in> set (fx_index (sw_feed w)). ie_docId e = DB_SETUP_DOC_ID \<and> ie_changeSeq e \<le> known_seq w \<longrightarrow>
                 ss_configFingerprint (sw_store w) =
                 computeSummaryConfigFingerprint (resolveSummaryConfig (setup_config_of (view_of (sw_docs w) e))))
         else ss_configFingerprint (sw_store w) = computeSummaryConfigFingerprint (resolveSummaryConfig None)))"

definition cache_ok :: "js_runtime \<Rightarrow> (js_value \<Rightarrow> nat option) \<Rightarrow> summary_world \<Rightarrow> bool" where
  "cache_ok rt json_length w \<longleftrightarrow>
     wf_cache (sw_cache w) \<and>
     (case sm_meta (sw_cache w) of
        None \<Rightarrow> cached_map (sw_cache w) = Map.empty
      | Some mt \<Rightarrow> claims rt json_length (sw_feed w) (sw_docs w) (mt_configFingerprint mt) (cached_map (sw_cache w))
                     (mt_cursor mt) (mt_needsBackfill mt) (mt_backfillCursor mt))"

definition store_ok :: "js_runtime \<Rightarrow> (js_value \<Rightarrow> nat option) \<Rightarrow> summary_world \<Rightarrow> bool" where
  "store_ok rt json_length w \<longleftrightarrow>
     (let st = sw_store w
      in ss_cacheAttached st \<and> computeSummaryConfigFingerprint (ss_config st) = ss_configFingerprint st \<and>
         keyed_entries (ss_entries st) \<and>
         claims rt json_length (sw_feed w) (sw_docs w) (ss_configFingerprint st) (map_of (ss_entries st))
           (ss_cursor st) (ss_needsBackfill st) (ss_backfillCursor st) \<and>
         (if ss_restored st
          then (\<forall>d. bucketIndexFor d \<notin> set (ss_dirtyBuckets st) \<longrightarrow> cached_map (sw_cache w) d = map_of (ss_entries st) d)
          else ss_entries st = [] \<and> ss_cursor st = None \<and> \<not> ss_needsBackfill st \<and> sw_phase w = Idle))"

definition summary_inv :: "js_runtime \<Rightarrow> (js_value \<Rightarrow> nat option) \<Rightarrow> summary_world \<Rightarrow> bool" where
  "summary_inv rt json_length w \<longleftrightarrow>
     feed_inv (sw_feed w) \<and> docs_ok (sw_feed w) (sw_docs w) \<and> store_ok rt json_length w \<and>
     cache_ok rt json_length w \<and> phase_ok w \<and> setup_ok w"

lemma summary_invD:
  assumes "summary_inv rt json_length w"
  shows "feed_inv (sw_feed w)" "docs_ok (sw_feed w) (sw_docs w)" "store_ok rt json_length w"
    "cache_ok rt json_length w" "phase_ok w" "setup_ok w"
  using assms by (simp_all add: summary_inv_def)

section \<open>The feed moves on\<close>

text \<open>An update of the index replaces one entry by one with a fresh number, or changes nothing.\<close>

definition bumped :: "feed_index \<Rightarrow> feed_index \<Rightarrow> string \<Rightarrow> bool" where
  "bumped feed feed' d \<longleftrightarrow>
     feed_inv feed' \<and>
     (set (fx_index feed') = set (fx_index feed) \<and> fx_nextSeq feed' = fx_nextSeq feed \<or>
      (\<exists>e. set (fx_index feed') = insert e {e' \<in> set (fx_index feed). ie_docId e' \<noteq> d} \<and>
           ie_docId e = d \<and> ie_changeSeq e = fx_nextSeq feed \<and> fx_nextSeq feed' = fx_nextSeq feed + 1))"

lemma index_by_map:
  assumes "feed_inv feed"
  shows "e \<in> set (fx_index feed) \<longleftrightarrow> entry_map feed (ie_docId e) = Some e"
  using entry_map_iff [OF feed_invD(4) [OF assms]] by simp

lemma update_bumps:
  assumes inv: "feed_inv feed"
  shows "bumped feed (updateIndex lc c feed) (ic_docId c)"
proof -
  let ?feed = "updateIndex lc c feed"
  note step = updateIndex_step [OF inv, of lc c]
  show ?thesis
  proof (cases "spec_update c (entry_map feed, fx_nextSeq feed) = (entry_map feed, fx_nextSeq feed)")
    case True
    then have "entry_map ?feed = entry_map feed" "fx_nextSeq ?feed = fx_nextSeq feed" using step(2) by simp_all
    then show ?thesis
      using step(1) unfolding bumped_def by (auto simp: index_by_map [OF inv] index_by_map [OF step(1)])
  next
    case False
    let ?e = "entry_of_change (fx_nextSeq feed) c"
    have upd: "entry_map ?feed = (entry_map feed)(ic_docId c \<mapsto> ?e)" "fx_nextSeq ?feed = fx_nextSeq feed + 1"
      using False step(2) spec_update_cases [of c "(entry_map feed, fx_nextSeq feed)"] by auto
    have "x \<in> set (fx_index ?feed) \<longleftrightarrow> x \<in> insert ?e {e' \<in> set (fx_index feed). ie_docId e' \<noteq> ic_docId c}" for x
      unfolding index_by_map [OF step(1)] upd by (auto simp: index_by_map [OF inv])
    then have "set (fx_index ?feed) = insert ?e {e' \<in> set (fx_index feed). ie_docId e' \<noteq> ic_docId c}" by blast
    then show ?thesis using step(1) upd(2) unfolding bumped_def by (intro conjI disjI2 exI [of _ ?e]) simp_all
  qed
qed

lemma bumped_old:
  assumes "bumped feed feed' d" and "e \<in> set (fx_index feed')" and "ie_changeSeq e < fx_nextSeq feed"
  shows "e \<in> set (fx_index feed)" and "docs' = docs \<or> docs' = docs(d \<mapsto> doc) \<and> fx_nextSeq feed' \<noteq> fx_nextSeq feed \<Longrightarrow>
    docs' (ie_docId e) = docs (ie_docId e)"
  using assms unfolding bumped_def by auto

lemma bumped_ids:
  assumes "bumped feed feed' d" and "e \<in> set (fx_index feed)"
  shows "ie_docId e \<in> ie_docId ` set (fx_index feed')"
  using assms unfolding bumped_def by (cases "ie_docId e = d") auto

lemma bumped_seq: "bumped feed feed' d \<Longrightarrow> fx_nextSeq feed \<le> fx_nextSeq feed'"
  by (auto simp: bumped_def)

lemma bumped_cursor:
  assumes "bumped feed feed' d" and "cursor_ok feed cur"
  shows "cursor_ok feed' cur"
proof -
  have "\<exists>c. cur = Some c \<and> ie_docId e = cc_docId c"
    if "e \<in> set (fx_index feed')" "ie_changeSeq e = cursor_seq cur" for e
    using assms(2) bumped_old(1) [OF assms(1) that(1)] that(2) by (simp add: cursor_ok_def)
  then show ?thesis using assms(2) bumped_seq [OF assms(1)] by (simp add: cursor_ok_def)
qed

text \<open>The documents change only where the index announces it.\<close>

definition docs_follow :: "feed_index \<Rightarrow> feed_index \<Rightarrow> (string \<rightharpoonup> doc_view) \<Rightarrow> (string \<rightharpoonup> doc_view) \<Rightarrow> string \<Rightarrow> bool" where
  "docs_follow feed feed' docs docs' d \<longleftrightarrow>
     docs' = docs \<or> (\<exists>doc. docs' = docs(d \<mapsto> doc)) \<and> fx_nextSeq feed' \<noteq> fx_nextSeq feed"

lemma view_of_cong: "docs' (ie_docId e) = docs (ie_docId e) \<Longrightarrow> view_of docs' e = view_of docs e"
  by (simp add: view_of_def iterated_doc_def)

lemma bumped_view:
  assumes "bumped feed feed' d" and "docs_follow feed feed' docs docs' d"
    and "e \<in> set (fx_index feed')" and "ie_changeSeq e < fx_nextSeq feed"
  shows "view_of docs' e = view_of docs e"
proof (rule view_of_cong)
  show "docs' (ie_docId e) = docs (ie_docId e)"
    using assms unfolding docs_follow_def bumped_def by auto
qed

lemma ok_entry_cong:
  "view_of docs' e = view_of docs e \<Longrightarrow> ok_entry rt jl fp m docs' e = ok_entry rt jl fp m docs e"
  by (simp add: ok_entry_def summary_of_def)

lemma claims_bumped:
  assumes b: "bumped feed feed' d" and f: "docs_follow feed feed' docs docs' d"
    and c: "claims rt jl feed docs fp m cur needs bcur"
  shows "claims rt jl feed' docs' fp m cur needs bcur"
  unfolding claims_def
proof (intro conjI allI ballI impI)
  show "cursor_ok feed' cur" using bumped_cursor [OF b] c by (simp add: claims_def)
  show "cursor_ok feed' bcur" if needs using bumped_cursor [OF b] c that by (simp add: claims_def)
  show "x \<in> ie_docId ` set (fx_index feed')" if "m x \<noteq> None" for x
    using bumped_ids [OF b] c that unfolding claims_def by blast
  fix e assume e: "e \<in> set (fx_index feed')" and le: "ie_changeSeq e \<le> cursor_seq (if needs then bcur else cur)"
  have "cursor_seq (if needs then bcur else cur) < fx_nextSeq feed" using c by (auto simp: claims_def cursor_ok_def)
  then have lt: "ie_changeSeq e < fx_nextSeq feed" using le by simp
  have "ok_entry rt jl fp m docs e" using c bumped_old(1) [OF b e lt] le by (simp add: claims_def)
  then show "ok_entry rt jl fp m docs' e" using ok_entry_cong [OF bumped_view [OF b f e lt]] by simp
qed

lemma pending_bumped:
  assumes b: "bumped feed feed' d" and p: "pending feed es base hi"
  shows "pending feed' es base hi"
proof -
  have hi: "hi < fx_nextSeq feed" using p by (simp add: pending_def)
  have "\<exists>e \<in> set (fx_index feed'). ie_docId e = ie_docId r \<and> (e = r \<or> hi < ie_changeSeq e)" if "r \<in> set es" for r
  proof -
    obtain e where e: "e \<in> set (fx_index feed)" "ie_docId e = ie_docId r" "e = r \<or> hi < ie_changeSeq e"
      using p \<open>r \<in> set es\<close> by (auto simp: pending_def)
    show ?thesis
    proof (cases "e \<in> set (fx_index feed')")
      case True
      then show ?thesis using e by blast
    next
      case False
      then show ?thesis using b e hi unfolding bumped_def by force
    qed
  qed
  moreover have "ie_changeSeq e \<le> base \<or> e \<in> set es"
    if "e \<in> set (fx_index feed')" "ie_changeSeq e \<le> hi" for e
    using p bumped_old(1) [OF b that(1)] that(2) hi by (simp add: pending_def)
  ultimately show ?thesis
    using p bumped_seq [OF b] unfolding pending_def by force
qed

lemma store_okD:
  assumes "store_ok rt jl w"
  shows "ss_cacheAttached (sw_store w)"
    "ss_configFingerprint (sw_store w) = computeSummaryConfigFingerprint (ss_config (sw_store w))"
    "keyed_entries (ss_entries (sw_store w))"
    "claims rt jl (sw_feed w) (sw_docs w) (ss_configFingerprint (sw_store w)) (map_of (ss_entries (sw_store w)))
       (ss_cursor (sw_store w)) (ss_needsBackfill (sw_store w)) (ss_backfillCursor (sw_store w))"
  using assms by (simp_all add: store_ok_def Let_def)

lemma cache_ok_store [simp]: "cache_ok rt jl (w \<lparr> sw_store := st \<rparr>) = cache_ok rt jl w"
  by (cases "sm_meta (sw_cache w)") (simp_all add: cache_ok_def)

lemma phase_apart [simp]:
  "cache_ok rt jl (w \<lparr> sw_phase := phase \<rparr>) = cache_ok rt jl w"
  "setup_ok (w \<lparr> sw_phase := phase, sw_store := st \<rparr>) = setup_ok (w \<lparr> sw_store := st \<rparr>)"
  by (cases "sm_meta (sw_cache w)"; simp add: cache_ok_def setup_ok_def known_seq_def)+

lemma claims_cursors: "claims rt jl feed docs fp m cur needs bcur \<Longrightarrow> cursor_ok feed cur"
  by (simp add: claims_def)

lemma cursor_below: "cursor_ok feed cur \<Longrightarrow> cursor_seq cur < fx_nextSeq feed"
  by (simp add: cursor_ok_def)

lemma cursor_none [simp]: "cursor_seq None = 0"
  by (simp add: cursor_seq_def)

lemma cursor_ok_none: "feed_inv feed \<Longrightarrow> cursor_ok feed None"
  using feed_invD(2,5) [of feed] by (fastforce simp: cursor_ok_def)

lemma cursor_nonneg: "cursor_ok feed cur \<Longrightarrow> 0 \<le> cursor_seq cur"
  by (simp add: cursor_ok_def)

text \<open>The index and the documents move, the store stays.\<close>

lemma bump_world:
  assumes inv: "summary_inv rt jl w" and b: "bumped (sw_feed w) feed' d"
    and f: "docs_follow (sw_feed w) feed' (sw_docs w) docs' d" and ok: "docs_ok feed' docs'"
  shows "summary_inv rt jl (w \<lparr> sw_feed := feed', sw_docs := docs' \<rparr>)"
proof -
  note I = summary_invD [OF inv] and S = store_okD [OF summary_invD(3) [OF inv]]
  let ?w = "w \<lparr> sw_feed := feed', sw_docs := docs' \<rparr>"
  have store: "store_ok rt jl ?w"
    using I(3) claims_bumped [OF b f S(4)] by (simp add: store_ok_def Let_def)
  have cache: "cache_ok rt jl ?w"
    using I(4) claims_bumped [OF b f] by (auto simp: cache_ok_def split: option.splits)
  have phase: "phase_ok ?w"
    using I(5) pending_bumped [OF b] unfolding phase_ok_def by (auto split: update_phase.splits)
  have below: "known_seq w < fx_nextSeq (sw_feed w)"
    using cursor_below [OF claims_cursors [OF S(4)]] I(4) feed_invD(5) [OF I(1)]
    by (auto simp: known_seq_def cache_ok_def split: option.splits dest!: claims_cursors cursor_below)
  have following: "setup_ok ?w"
    unfolding setup_ok_def
  proof (intro impI)
    assume e: "\<not> ss_hasExplicitConfig (sw_store ?w)"
    have "ss_configFingerprint (sw_store w) =
        computeSummaryConfigFingerprint (resolveSummaryConfig (setup_config_of (view_of docs' x)))"
      if x: "x \<in> set (fx_index feed')" "ie_docId x = DB_SETUP_DOC_ID" "ie_changeSeq x \<le> known_seq w"
        and s: "ss_setupDocSeeded (sw_store w)" for x
      using I(6) e s x below bumped_old(1) [OF b x(1)] bumped_view [OF b f x(1)] by (simp add: setup_ok_def)
    then show "if ss_setupDocSeeded (sw_store ?w)
        then \<forall>e \<in> set (fx_index (sw_feed ?w)). ie_docId e = DB_SETUP_DOC_ID \<and> ie_changeSeq e \<le> known_seq ?w \<longrightarrow>
          ss_configFingerprint (sw_store ?w) =
          computeSummaryConfigFingerprint (resolveSummaryConfig (setup_config_of (view_of (sw_docs ?w) e)))
        else ss_configFingerprint (sw_store ?w) = computeSummaryConfigFingerprint (resolveSummaryConfig None)"
      using I(6) e by (simp add: setup_ok_def known_seq_def)
  qed
  have "feed_inv feed'" using b by (simp add: bumped_def)
  then show ?thesis using ok store cache phase following by (simp add: summary_inv_def)
qed

text \<open>Dropping an entry whose document is gone.\<close>

lemma delete_entry_fields [simp]:
  "ss_config (delete_entry d st) = ss_config st" "ss_configFingerprint (delete_entry d st) = ss_configFingerprint st"
  "ss_hasExplicitConfig (delete_entry d st) = ss_hasExplicitConfig st"
  "ss_setupDocSeeded (delete_entry d st) = ss_setupDocSeeded st" "ss_cursor (delete_entry d st) = ss_cursor st"
  "ss_cacheAttached (delete_entry d st) = ss_cacheAttached st" "ss_restored (delete_entry d st) = ss_restored st"
  "ss_needsBackfill (delete_entry d st) = ss_needsBackfill st"
  "ss_backfillCursor (delete_entry d st) = ss_backfillCursor st"
  by (simp_all add: delete_entry_def markBucketDirty_def)

lemma delete_entry_map:
  "keyed_entries (ss_entries st) \<Longrightarrow> map_of (ss_entries (delete_entry d st)) = (map_of (ss_entries st))(d := None)"
  by (auto simp: delete_entry_def markBucketDirty_def js_simps fun_eq_iff map_of_eq_None_iff)

lemma delete_entry_keyed: "keyed_entries (ss_entries st) \<Longrightarrow> keyed_entries (ss_entries (delete_entry d st))"
  by (simp add: delete_entry_def markBucketDirty_def keyed_delete)

lemma delete_entry_dirty:
  "bucketIndexFor x \<notin> set (ss_dirtyBuckets (delete_entry d st)) \<Longrightarrow>
     bucketIndexFor x \<notin> set (ss_dirtyBuckets st) \<and> map_of (ss_entries (delete_entry d st)) x = map_of (ss_entries st) x"
  by (auto simp: delete_entry_def markBucketDirty_def js_simps split: if_splits)

lemma delete_entry_empty: "ss_entries st = [] \<Longrightarrow> delete_entry d st = st"
  by (simp add: delete_entry_def map_has_def)

lemma remove_world:
  assumes inv: "summary_inv rt jl w"
    and gone: "\<And>e. e \<in> set (fx_index (sw_feed w)) \<Longrightarrow> ie_docId e = d \<Longrightarrow> dv_isDeleted (view_of (sw_docs w) e)"
  shows "summary_inv rt jl (w \<lparr> sw_store := removeDocument d (sw_store w) \<rparr>)"
proof -
  note I = summary_invD [OF inv] and S = store_okD [OF summary_invD(3) [OF inv]]
  let ?st = "removeDocument d (sw_store w)" and ?w = "w \<lparr> sw_store := removeDocument d (sw_store w) \<rparr>"
  have m: "map_of (ss_entries ?st) = (map_of (ss_entries (sw_store w)))(d := None)"
    using delete_entry_map [OF S(3)] by (simp add: removeDocument_def)
  have "ok_entry rt jl fp ((map_of (ss_entries (sw_store w)))(d := None)) (sw_docs w) e"
    if "e \<in> set (fx_index (sw_feed w))" "ok_entry rt jl fp (map_of (ss_entries (sw_store w))) (sw_docs w) e" for e fp
    using that gone [OF that(1)] by (auto simp: ok_entry_def summary_of_def)
  then have claims: "claims rt jl (sw_feed w) (sw_docs w) (ss_configFingerprint ?st) (map_of (ss_entries ?st))
      (ss_cursor ?st) (ss_needsBackfill ?st) (ss_backfillCursor ?st)"
    using S(4) unfolding m by (simp add: claims_def removeDocument_def)
  have "store_ok rt jl ?w"
    using I(3) claims delete_entry_keyed [OF S(3), of d] delete_entry_dirty [of _ d "sw_store w"]
      delete_entry_empty [of "sw_store w" d]
    by (auto simp: store_ok_def Let_def removeDocument_def)
  moreover have "phase_ok ?w" using I(5) by (cases "sw_phase w") (simp_all add: phase_ok_def removeDocument_def)
  moreover have "setup_ok ?w" using I(6) by (simp add: setup_ok_def known_seq_def removeDocument_def)
  ultimately show ?thesis using I(1,2,4) by (simp add: summary_inv_def)
qed

text \<open>A new configuration.\<close>

lemma applyConfig_fields [simp]:
  "ss_entries (applyConfig c st) = ss_entries st" "ss_cursor (applyConfig c st) = ss_cursor st"
  "ss_hasExplicitConfig (applyConfig c st) = ss_hasExplicitConfig st"
  "ss_setupDocSeeded (applyConfig c st) = ss_setupDocSeeded st" "ss_restored (applyConfig c st) = ss_restored st"
  "ss_cacheAttached (applyConfig c st) = ss_cacheAttached st" "ss_dirtyBuckets (applyConfig c st) = ss_dirtyBuckets st"
  "ss_configFingerprint (applyConfig c st) = computeSummaryConfigFingerprint (resolveSummaryConfig c)"
  by (simp_all add: applyConfig_def Let_def scheduleBackfill_def)

lemma applyConfig_same:
  "computeSummaryConfigFingerprint (resolveSummaryConfig c) = ss_configFingerprint st \<Longrightarrow> applyConfig c st = st"
  by (simp add: applyConfig_def)

lemma applyConfig_other:
  "computeSummaryConfigFingerprint (resolveSummaryConfig c) \<noteq> ss_configFingerprint st \<Longrightarrow>
     ss_needsBackfill (applyConfig c st) = (ss_needsBackfill st \<or> ss_entries st \<noteq> [] \<or> ss_cursor st \<noteq> None) \<and>
     ss_backfillCursor (applyConfig c st) = (if ss_entries st \<noteq> [] \<or> ss_cursor st \<noteq> None then None else ss_backfillCursor st)"
  by (auto simp: applyConfig_def Let_def scheduleBackfill_def)

lemma claims_applyConfig:
  assumes feed: "feed_inv feed"
    and c: "claims rt jl feed docs (ss_configFingerprint st) (map_of (ss_entries st)) (ss_cursor st)
              (ss_needsBackfill st) (ss_backfillCursor st)"
  shows "claims rt jl feed docs (ss_configFingerprint (applyConfig cfg st)) (map_of (ss_entries (applyConfig cfg st)))
    (ss_cursor (applyConfig cfg st)) (ss_needsBackfill (applyConfig cfg st)) (ss_backfillCursor (applyConfig cfg st))"
proof (cases "computeSummaryConfigFingerprint (resolveSummaryConfig cfg) = ss_configFingerprint st")
  case True
  then show ?thesis using c by (simp add: applyConfig_same)
next
  case False
  note other = applyConfig_other [OF False]
  have pos: "1 \<le> ie_changeSeq e" if "e \<in> set (fx_index feed)" for e using feed_invD(2) [OF feed that] .
  show ?thesis
  proof (cases "ss_entries st \<noteq> [] \<or> ss_cursor st \<noteq> None")
    case True
    then show ?thesis
      using c pos cursor_ok_none [OF feed] other by (force simp: claims_def)
  next
    case empty: False
    have "ok_entry rt jl fp' Map.empty docs e" if "ok_entry rt jl fp Map.empty docs e" "fp' = computeSummaryConfigFingerprint c'" for fp fp' c' e
      using that by (auto simp: ok_entry_def summary_of_def split: if_splits)
    then show ?thesis
      using c pos empty other by (force simp: claims_def)
  qed
qed

text \<open>A store that keeps its entries, its cursor and its cache records apart from the configuration.\<close>

lemma config_world:
  assumes I: "feed_inv (sw_feed w)" "store_ok rt jl w" "phase_ok w" and st: "st = applyConfig c (sw_store w)"
    and phase: "\<And>es n. sw_phase w = Pass2 es n \<Longrightarrow> ss_configFingerprint st = ss_configFingerprint (sw_store w)"
  shows "store_ok rt jl (w \<lparr> sw_store := st \<rparr>)" "phase_ok (w \<lparr> sw_store := st \<rparr>)"
proof -
  note S = store_okD [OF I(2)]
  have fp: "ss_configFingerprint st = computeSummaryConfigFingerprint (ss_config st)"
    using S(2) unfolding st by (simp add: applyConfig_def Let_def scheduleBackfill_def)
  have quiet: "\<not> ss_needsBackfill st" if "ss_entries (sw_store w) = []" "ss_cursor (sw_store w) = None" "\<not> ss_needsBackfill (sw_store w)"
    using that unfolding st by (simp add: applyConfig_def Let_def)
  show "store_ok rt jl (w \<lparr> sw_store := st \<rparr>)"
    using I(2) claims_applyConfig [OF I(1) S(4), of c] fp [symmetric] quiet unfolding store_ok_def Let_def st by simp
  show "phase_ok (w \<lparr> sw_store := st \<rparr>)"
  proof (cases "computeSummaryConfigFingerprint (resolveSummaryConfig c) = ss_configFingerprint (sw_store w)")
    case True
    then show ?thesis using I(3) by (simp add: st applyConfig_same)
  next
    case False
    note other = applyConfig_other [OF False]
    show ?thesis
    proof (cases "sw_phase w")
      case (Pass1 es n)
      then obtain hi where hi: "pending (sw_feed w) es (cursor_seq (ss_cursor (sw_store w))) hi"
          "ss_needsBackfill (sw_store w) \<longrightarrow> cursor_seq (ss_backfillCursor (sw_store w)) \<le> hi"
        using I(3) by (auto simp: phase_ok_def)
      moreover have "0 \<le> hi" using hi(1) cursor_nonneg [OF claims_cursors [OF S(4)]] by (simp add: pending_def)
      ultimately show ?thesis using I(3) Pass1 other by (auto simp: phase_ok_def st)
    next
      case (Pass2 es n)
      then show ?thesis using phase [of es n] False by (simp add: st)
    qed (simp add: phase_ok_def)
  qed
qed

lemma setConfig_world:
  assumes inv: "summary_inv rt jl w"
    and phase: "\<And>es n. sw_phase w = Pass2 es n \<Longrightarrow>
      ss_configFingerprint (setConfig c (sw_store w)) = ss_configFingerprint (sw_store w)"
  shows "summary_inv rt jl (w \<lparr> sw_store := setConfig c (sw_store w) \<rparr>)"
proof -
  let ?v = "w \<lparr> sw_store := (sw_store w) \<lparr> ss_hasExplicitConfig := True \<rparr> \<rparr>"
  have "phase_ok ?v" using summary_invD(5) [OF inv] by (cases "sw_phase w") (simp_all add: phase_ok_def)
  then have v: "summary_inv rt jl ?v"
    using inv by (simp add: summary_inv_def store_ok_def setup_ok_def Let_def)
  show ?thesis
    using config_world [OF summary_invD(1,3,5) [OF v] refl, of c] summary_invD(1,2,4) [OF inv] phase
    by (simp add: summary_inv_def setConfig_def setup_ok_def)
qed

text \<open>Consulting the setup document.\<close>

lemma setup_view:
  assumes inv: "feed_inv (sw_feed w)" and docs: "docs_ok (sw_feed w) (sw_docs w)"
    and e: "e \<in> set (fx_index (sw_feed w))" "ie_docId e = DB_SETUP_DOC_ID"
  shows "setup_config_of (view_of (sw_docs w) e) =
    Option.bind (readable_setup w) (\<lambda>data. sanitizeSummaryConfig (js_prop data SUMMARY_SETUP_FIELD))"
proof -
  have m: "entry_map (sw_feed w) DB_SETUP_DOC_ID = Some e"
    using e entry_map_iff [OF feed_invD(4) [OF inv]] by simp
  obtain doc where doc: "sw_docs w DB_SETUP_DOC_ID = Some doc"
    using docs e unfolding docs_ok_def by force
  show ?thesis
    using e(2) by (simp add: readable_setup_def m doc view_of_def iterated_doc_def setup_config_of_def tombstone_doc_def)
qed

lemma seed_world:
  assumes inv: "summary_inv rt jl w"
  shows "summary_inv rt jl (w \<lparr> sw_store := seedConfigFromSetupDoc (readable_setup w) (sw_store w) \<rparr>)"
    and "ss_setupDocSeeded (seedConfigFromSetupDoc (readable_setup w) (sw_store w))"
proof -
  note I = summary_invD [OF inv]
  let ?st = "seedConfigFromSetupDoc (readable_setup w) (sw_store w)"
  show "ss_setupDocSeeded ?st" by (simp add: seedConfigFromSetupDoc_def Let_def split: option.split)
  show "summary_inv rt jl (w \<lparr> sw_store := ?st \<rparr>)"
  proof (cases "ss_setupDocSeeded (sw_store w)")
    case True
    then have "?st = sw_store w" by (simp add: seedConfigFromSetupDoc_def)
    then show ?thesis using inv by simp
  next
    case False
    let ?v = "w \<lparr> sw_store := (sw_store w) \<lparr> ss_setupDocSeeded := True \<rparr> \<rparr>"
    have idle: "sw_phase w = Idle" using I(5) False by (cases "sw_phase w") (simp_all add: phase_ok_def)
    define cfg where "cfg = Option.bind (readable_setup w) (\<lambda>data. sanitizeSummaryConfig (js_prop data SUMMARY_SETUP_FIELD))"
    show ?thesis
    proof (cases "ss_hasExplicitConfig (sw_store w)")
      case True
      then show ?thesis
        using I idle by (simp add: seedConfigFromSetupDoc_def summary_inv_def store_ok_def phase_ok_def setup_ok_def Let_def)
    next
      case auto: False
      have default: "ss_configFingerprint (sw_store w) = computeSummaryConfigFingerprint (resolveSummaryConfig None)"
        using I(6) False auto by (simp add: setup_ok_def)
      have st: "?st = applyConfig cfg ((sw_store w) \<lparr> ss_setupDocSeeded := True \<rparr>)"
        using False auto default
        by (auto simp: seedConfigFromSetupDoc_def cfg_def applyConfig_same Let_def split: option.split)
      have v: "store_ok rt jl ?v" "phase_ok ?v"
        using I(3) idle by (simp_all add: store_ok_def phase_ok_def Let_def)
      have "store_ok rt jl (w \<lparr> sw_store := ?st \<rparr>)"
        using config_world(1) [OF _ v refl, of cfg] I(1) idle unfolding st by simp
      moreover have "setup_ok (w \<lparr> sw_store := ?st \<rparr>)"
        using setup_view [OF I(1,2)] unfolding st by (simp add: setup_ok_def cfg_def)
      ultimately show ?thesis using I idle by (simp add: summary_inv_def phase_ok_def)
    qed
  qed
qed

text \<open>Restoring, and the start of a pass.\<close>

lemma pending_start:
  assumes inv: "feed_inv feed" and ok: "cursor_ok feed cur"
  shows "pending feed (changes_since lc None cur feed) (cursor_seq cur) (fx_nextSeq feed - 1)"
proof -
  have es: "changes_since lc None cur feed = filter (\<lambda>e. cursor_seq cur < ie_changeSeq e) (fx_index feed)"
    using changes_since_correct [OF inv ok, of lc None] by (simp add: normalizeIdPrefixFilter_def passes_prefix_def)
  have "sorted_wrt (<) (map ie_changeSeq (filter (\<lambda>e. cursor_seq cur < ie_changeSeq e) (fx_index feed)))"
    using feed_invD(1) [OF inv] by (simp add: sorted_wrt_map sorted_wrt_filter)
  then show ?thesis
    using cursor_below [OF ok] feed_invD(3) [OF inv] unfolding pending_def es by force
qed

lemma restored_world:
  assumes inv: "summary_inv rt jl w" and seeded: "ss_setupDocSeeded (sw_store w)" and idle: "sw_phase w = Idle"
  shows "summary_inv rt jl (w \<lparr> sw_store := ensureRestored (sw_cache w) (sw_store w) \<rparr>)"
    and "ss_restored (ensureRestored (sw_cache w) (sw_store w))"
    and "ss_setupDocSeeded (ensureRestored (sw_cache w) (sw_store w))"
proof -
  note I = summary_invD [OF inv] and S = store_okD [OF summary_invD(3) [OF inv]]
  let ?st = "ensureRestored (sw_cache w) (sw_store w)" and ?r = "restoreSummaryFromCache (sw_cache w) (sw_store w)"
  show "ss_restored ?st" by (simp add: ensureRestored_def)
  show "ss_setupDocSeeded ?st"
    using seeded by (simp add: ensureRestored_def restoreSummaryFromCache_def scheduleBackfill_def Let_def split: option.split)
  show "summary_inv rt jl (w \<lparr> sw_store := ?st \<rparr>)"
  proof (cases "ss_restored (sw_store w)")
    case True
    then have "?st = sw_store w" by (simp add: ensureRestored_def)
    then show ?thesis using inv by simp
  next
    case False
    have empty: "ss_entries (sw_store w) = []" "ss_cursor (sw_store w) = None" "\<not> ss_needsBackfill (sw_store w)"
      using I(3) False by (simp_all add: store_ok_def Let_def)
    have st: "?st = ?r \<lparr> ss_restored := True \<rparr>" using False S(1) by (simp add: ensureRestored_def)
    have wf: "wf_cache (sw_cache w)" using I(4) by (simp add: cache_ok_def)
    show ?thesis
    proof (cases "sm_meta (sw_cache w)")
      case None
      then have r: "?r = sw_store w" by (simp add: restoreSummaryFromCache_def)
      have "cached_map (sw_cache w) = Map.empty" using I(4) None by (simp add: cache_ok_def)
      then show ?thesis
        using I idle empty S(4) unfolding st r
        by (simp add: summary_inv_def store_ok_def phase_ok_def setup_ok_def known_seq_def None Let_def)
    next
      case (Some mt)
      note R = restored_map [OF wf empty(1) Some]
      have c: "claims rt jl (sw_feed w) (sw_docs w) (mt_configFingerprint mt) (cached_map (sw_cache w))
          (mt_cursor mt) (mt_needsBackfill mt) (mt_backfillCursor mt)"
        using I(4) Some by (simp add: cache_ok_def)
      have same: "ss_cacheAttached ?r = ss_cacheAttached (sw_store w)" "ss_config ?r = ss_config (sw_store w)"
        "ss_configFingerprint ?r = ss_configFingerprint (sw_store w)"
        "ss_hasExplicitConfig ?r = ss_hasExplicitConfig (sw_store w)"
        "ss_setupDocSeeded ?r = ss_setupDocSeeded (sw_store w)" "ss_dirtyBuckets ?r = ss_dirtyBuckets (sw_store w)"
        by (simp_all add: restoreSummaryFromCache_def Some scheduleBackfill_def Let_def)
      have pass: "ss_needsBackfill ?r = (mt_configFingerprint mt \<noteq> ss_configFingerprint (sw_store w) \<or> mt_needsBackfill mt)"
        "mt_configFingerprint mt \<noteq> ss_configFingerprint (sw_store w) \<Longrightarrow> ss_backfillCursor ?r = None"
        "mt_configFingerprint mt = ss_configFingerprint (sw_store w) \<Longrightarrow> mt_needsBackfill mt \<Longrightarrow>
           ss_backfillCursor ?r = mt_backfillCursor mt"
        using stored_ok(1) [OF wf] empty(3) by (simp_all add: restoreSummaryFromCache_def Some scheduleBackfill_def Let_def)
      have "claims rt jl (sw_feed w) (sw_docs w) (ss_configFingerprint (sw_store w)) (cached_map (sw_cache w))
          (mt_cursor mt) (ss_needsBackfill ?r) (ss_backfillCursor ?r)"
      proof (cases "mt_configFingerprint mt = ss_configFingerprint (sw_store w)")
        case True
        then show ?thesis using c pass by (cases "mt_needsBackfill mt") (simp_all add: claims_def)
      next
        case False
        then show ?thesis
          using c pass(1,2) cursor_ok_none [OF I(1)] feed_invD(2) [OF I(1)] by (force simp: claims_def)
      qed
      then have "store_ok rt jl (w \<lparr> sw_store := ?st \<rparr>)"
        using R S(1,2) unfolding st by (simp add: store_ok_def Let_def same)
      moreover have "setup_ok (w \<lparr> sw_store := ?st \<rparr>)"
        using I(6) False R(3) unfolding st by (simp add: setup_ok_def known_seq_def same Some)
      ultimately show ?thesis using I idle by (simp add: summary_inv_def phase_ok_def)
    qed
  qed
qed

lemma start_world:
  assumes inv: "summary_inv rt jl w" and idle: "sw_phase w = Idle"
    and run: "begin_run lc (sw_feed w) (readable_setup w) (sw_cache w) aborted (sw_store w) = (phase, st)"
  shows "summary_inv rt jl (w \<lparr> sw_phase := phase, sw_store := st \<rparr>)"
proof -
  let ?s = "seedConfigFromSetupDoc (readable_setup w) (sw_store w)"
  note A = seed_world [OF inv]
  have B: "summary_inv rt jl (w \<lparr> sw_store := ensureRestored (sw_cache w) ?s \<rparr>)"
    "ss_restored (ensureRestored (sw_cache w) ?s)" "ss_setupDocSeeded (ensureRestored (sw_cache w) ?s)"
    using restored_world [OF A(1)] A(2) idle by simp_all
  have st: "st = ensureRestored (sw_cache w) ?s"
    and phase: "phase = (if aborted then Idle else Pass1 (changes_since lc None (ss_cursor st) (sw_feed w)) 0)"
    using run by (auto simp: begin_run_def Let_def split: if_splits)
  let ?w = "w \<lparr> sw_store := st \<rparr>"
  have w: "summary_inv rt jl ?w" using B(1) st by simp
  note I = summary_invD [OF w] and S = store_okD [OF summary_invD(3) [OF w]]
  have feed: "feed_inv (sw_feed w)" and c: "claims rt jl (sw_feed w) (sw_docs w) (ss_configFingerprint st)
      (map_of (ss_entries st)) (ss_cursor st) (ss_needsBackfill st) (ss_backfillCursor st)"
    using I(1) S(4) by simp_all
  have "ss_needsBackfill st \<longrightarrow> cursor_seq (ss_backfillCursor st) \<le> fx_nextSeq (sw_feed w) - 1"
    using c cursor_below [of "sw_feed w" "ss_backfillCursor st"] by (simp add: claims_def)
  then have "phase_ok (w \<lparr> sw_phase := phase, sw_store := st \<rparr>)"
    using pending_start [OF feed claims_cursors [OF c], of lc] B(2,3) st phase by (auto simp: phase_ok_def)
  moreover have "store_ok rt jl (w \<lparr> sw_phase := phase, sw_store := st \<rparr>)"
    using I(3) B(2) st by (simp add: store_ok_def Let_def)
  ultimately show ?thesis
    using I by (simp add: summary_inv_def)
qed

section \<open>Receiving a document\<close>

lemma view_id:
  assumes "docs_ok feed docs" and "e \<in> set (fx_index feed)" and "ie_docId r = ie_docId e"
  shows "\<exists>doc. iterated_doc docs r = Some (doc, cursor_of r) \<and> doc = view_of docs r \<and> dv_id doc = ie_docId r"
proof -
  obtain doc where doc: "docs (ie_docId r) = Some doc" "dv_id doc = ie_docId r"
    using assms unfolding docs_ok_def by force
  then show ?thesis by (simp add: iterated_doc_def view_of_def tombstone_doc_def)
qed

lemma pending_head:
  assumes p: "pending feed (r # rest) base hi"
  shows "base < ie_changeSeq r" "ie_changeSeq r \<le> hi" "pending feed rest (ie_changeSeq r) hi"
    "\<And>e. e \<in> set (fx_index feed) \<Longrightarrow> ie_changeSeq e \<le> ie_changeSeq r \<Longrightarrow> ie_changeSeq e \<le> base \<or> e = r"
    "\<And>e. e \<in> set (fx_index feed) \<Longrightarrow> ie_docId e = ie_docId r \<Longrightarrow> feed_inv feed \<Longrightarrow> e = r \<or> hi < ie_changeSeq e"
    "\<exists>e \<in> set (fx_index feed). ie_docId e = ie_docId r"
proof -
  show "base < ie_changeSeq r" "ie_changeSeq r \<le> hi" using p by (simp_all add: pending_def)
  have above: "ie_changeSeq r < ie_changeSeq x" if "x \<in> set rest" for x using p that by (simp add: pending_def)
  then show "pending feed rest (ie_changeSeq r) hi" using p unfolding pending_def by force
  show "ie_changeSeq e \<le> base \<or> e = r" if "e \<in> set (fx_index feed)" "ie_changeSeq e \<le> ie_changeSeq r" for e
    using p that above [of e] unfolding pending_def by force
  obtain x where x: "x \<in> set (fx_index feed)" "ie_docId x = ie_docId r" "x = r \<or> hi < ie_changeSeq x"
    using p by (auto simp: pending_def)
  then show "\<exists>e \<in> set (fx_index feed). ie_docId e = ie_docId r" by blast
  show "e = r \<or> hi < ie_changeSeq e" if "e \<in> set (fx_index feed)" "ie_docId e = ie_docId r" "feed_inv feed" for e
  proof -
    have "e = x" using that x(1,2) index_by_map [OF that(3)] by (metis option.inject)
    then show ?thesis using x(3) by simp
  qed
qed

text \<open>Applying a document sets its entry to its summary under the configuration at hand.\<close>

lemma applyDocument_plain:
  assumes keyed: "keyed_entries (ss_entries st)" and doc: "doc = view_of docs r" "dv_id doc = ie_docId r"
    and same: "dv_id doc = DB_SETUP_DOC_ID \<and> \<not> ss_hasExplicitConfig st \<longrightarrow> applyConfig (setup_config_of doc) st = st"
  shows "map_of (ss_entries (applyDocument rt jl doc (cursor_of r) st)) =
      (map_of (ss_entries st))(ie_docId r := summary_of rt jl (ss_config st) docs r)"
    and "keyed_entries (ss_entries (applyDocument rt jl doc (cursor_of r) st))"
    and "bucketIndexFor d \<notin> set (ss_dirtyBuckets (applyDocument rt jl doc (cursor_of r) st)) \<Longrightarrow>
      bucketIndexFor d \<notin> set (ss_dirtyBuckets st) \<and>
      map_of (ss_entries (applyDocument rt jl doc (cursor_of r) st)) d = map_of (ss_entries st) d"
proof -
  let ?en = "entry_of_doc rt jl (ss_config st) doc (cursor_of r)"
  have shape: "applyDocument rt jl doc (cursor_of r) st =
      (if dv_id doc = DB_SETUP_DOC_ID \<or> dv_isDeleted doc then delete_entry (dv_id doc) st
       else markBucketDirty (dv_id doc) (st \<lparr> ss_entries := AList.update (dv_id doc) ?en (ss_entries st) \<rparr>))"
    using same by (simp add: applyDocument_def)
  have en: "se_docId ?en = dv_id doc" by (simp add: entry_of_doc_def)
  show "map_of (ss_entries (applyDocument rt jl doc (cursor_of r) st)) =
      (map_of (ss_entries st))(ie_docId r := summary_of rt jl (ss_config st) docs r)"
    unfolding shape using doc by (simp add: delete_entry_map [OF keyed] summary_of_def markBucketDirty_def js_simps)
  show "keyed_entries (ss_entries (applyDocument rt jl doc (cursor_of r) st))"
    unfolding shape using keyed_update [OF keyed en] delete_entry_keyed [OF keyed] by (simp add: markBucketDirty_def)
  show "bucketIndexFor d \<notin> set (ss_dirtyBuckets st) \<and>
      map_of (ss_entries (applyDocument rt jl doc (cursor_of r) st)) d = map_of (ss_entries st) d"
    if "bucketIndexFor d \<notin> set (ss_dirtyBuckets (applyDocument rt jl doc (cursor_of r) st))"
    using that delete_entry_dirty [of d "dv_id doc" st] unfolding shape
    by (auto simp: markBucketDirty_def js_simps split: if_splits)
qed

text \<open>The claim grows with the number of what was received, or keeps its bound.\<close>

lemma ok_receive:
  assumes inv: "feed_inv feed" and p: "pending feed (r # rest) base hi"
    and old: "\<And>e. e \<in> set (fx_index feed) \<Longrightarrow> ie_changeSeq e \<le> s \<Longrightarrow> ok_entry rt jl (computeSummaryConfigFingerprint cfg) m docs e"
    and bound: "s' = s \<and> s \<le> hi \<or> s = base \<and> s' = ie_changeSeq r"
    and e: "e \<in> set (fx_index feed)" "ie_changeSeq e \<le> s'"
  shows "ok_entry rt jl (computeSummaryConfigFingerprint cfg) (m(ie_docId r := summary_of rt jl cfg docs r)) docs e"
proof (cases "e = r")
  case True
  then show ?thesis by (auto simp: ok_entry_def)
next
  case False
  have "ie_changeSeq e \<le> s" using bound e pending_head(4) [OF p e(1)] False by auto
  moreover have "ie_docId e \<noteq> ie_docId r"
    using pending_head(2) [OF p] pending_head(5) [OF p e(1) _ inv] False bound e(2) by auto
  ultimately show ?thesis using old [OF e(1)] by (simp add: ok_entry_def)
qed

lemma cursor_of_seq [simp]: "cursor_seq (Some (cursor_of r)) = ie_changeSeq r"
  by (simp add: cursor_seq_def cursor_of_def)

lemma cursor_received:
  assumes inv: "feed_inv feed" and p: "pending feed (r # rest) base hi" and base: "0 \<le> base"
  shows "cursor_ok feed (Some (cursor_of r))"
proof -
  have "e = r" if "e \<in> set (fx_index feed)" "ie_changeSeq e = ie_changeSeq r" for e
    using pending_head(1,4) [OF p] that by force
  moreover have "ie_changeSeq r < fx_nextSeq feed" using pending_head(2) [OF p] p by (simp add: pending_def)
  ultimately show ?thesis
    using pending_head(1) [OF p] base unfolding cursor_ok_def cursor_of_seq
    by (auto simp: cursor_of_def)
qed

definition configured :: "doc_view \<Rightarrow> summary_store \<Rightarrow> summary_store" where
  "configured doc st =
     (if dv_id doc = DB_SETUP_DOC_ID \<and> \<not> ss_hasExplicitConfig st then applyConfig (setup_config_of doc) st else st)"

lemma applyDocument_configured:
  "applyDocument rt jl doc cur st = applyDocument rt jl doc cur (configured doc st)"
  by (simp add: applyDocument_def configured_def applyConfig_same)

lemma configured_same:
  "dv_id doc = DB_SETUP_DOC_ID \<Longrightarrow> \<not> ss_hasExplicitConfig (configured doc st) \<Longrightarrow>
     applyConfig (setup_config_of doc) (configured doc st) = configured doc st"
  by (simp add: configured_def applyConfig_same split: if_splits)

lemma configured_fields [simp]:
  "ss_cursor (configured doc st) = ss_cursor st" "ss_restored (configured doc st) = ss_restored st"
  "ss_setupDocSeeded (configured doc st) = ss_setupDocSeeded st"
  "ss_hasExplicitConfig (configured doc st) = ss_hasExplicitConfig st"
  by (simp_all add: configured_def)

lemma configured_world:
  assumes inv: "summary_inv rt jl w"
    and phase: "\<And>es n. sw_phase w = Pass2 es n \<Longrightarrow>
      ss_configFingerprint (configured doc (sw_store w)) = ss_configFingerprint (sw_store w)"
  shows "store_ok rt jl (w \<lparr> sw_store := configured doc (sw_store w) \<rparr>)"
    and "phase_ok (w \<lparr> sw_store := configured doc (sw_store w) \<rparr>)"
proof -
  note C = config_world [OF summary_invD(1,3,5) [OF inv] refl, of "setup_config_of doc"]
  have both: "store_ok rt jl (w \<lparr> sw_store := configured doc (sw_store w) \<rparr>) \<and>
      phase_ok (w \<lparr> sw_store := configured doc (sw_store w) \<rparr>)"
  proof (cases "dv_id doc = DB_SETUP_DOC_ID \<and> \<not> ss_hasExplicitConfig (sw_store w)")
    case True
    then have c: "configured doc (sw_store w) = applyConfig (setup_config_of doc) (sw_store w)"
      by (simp add: configured_def)
    show ?thesis using C phase unfolding c by blast
  next
    case False
    then have "configured doc (sw_store w) = sw_store w" unfolding configured_def by (rule if_not_P)
    then show ?thesis using summary_invD(3,5) [OF inv] by simp
  qed
  show "store_ok rt jl (w \<lparr> sw_store := configured doc (sw_store w) \<rparr>)"
    "phase_ok (w \<lparr> sw_store := configured doc (sw_store w) \<rparr>)"
    using both by blast+
qed

lemma applyDocument_fields [simp]:
  "ss_config (applyDocument rt jl doc cur st) = ss_config (configured doc st)"
  "ss_configFingerprint (applyDocument rt jl doc cur st) = ss_configFingerprint (configured doc st)"
  "ss_hasExplicitConfig (applyDocument rt jl doc cur st) = ss_hasExplicitConfig st"
  "ss_setupDocSeeded (applyDocument rt jl doc cur st) = ss_setupDocSeeded st"
  "ss_cursor (applyDocument rt jl doc cur st) = ss_cursor st"
  "ss_cacheAttached (applyDocument rt jl doc cur st) = ss_cacheAttached st"
  "ss_restored (applyDocument rt jl doc cur st) = ss_restored st"
  "ss_needsBackfill (applyDocument rt jl doc cur st) = ss_needsBackfill (configured doc st)"
  "ss_backfillCursor (applyDocument rt jl doc cur st) = ss_backfillCursor (configured doc st)"
  by (simp_all add: applyDocument_def configured_def markBucketDirty_def)

text \<open>One received document, in either pass.\<close>

lemma received_store:
  assumes feed: "feed_inv (sw_feed w)" and docs: "docs_ok (sw_feed w) (sw_docs w)" and store: "store_ok rt jl w"
    and restored: "ss_restored (sw_store w)"
    and p: "pending (sw_feed w) (r # rest) base hi"
    and doc: "iterated_doc (sw_docs w) r = Some (doc, cursor_of r)"
    and same: "configured doc (sw_store w) = sw_store w"
    and pass: "base = cursor_seq (ss_cursor (sw_store w)) \<and>
        (ss_needsBackfill (sw_store w) \<longrightarrow> cursor_seq (ss_backfillCursor (sw_store w)) \<le> hi) \<and>
        st = (applyDocument rt jl doc (cursor_of r) (sw_store w)) \<lparr> ss_cursor := Some (cursor_of r) \<rparr> \<or>
      ss_needsBackfill (sw_store w) \<and> base = cursor_seq (ss_backfillCursor (sw_store w)) \<and>
        st = (applyDocument rt jl doc (cursor_of r) (sw_store w)) \<lparr> ss_backfillCursor := Some (cursor_of r) \<rparr>"
  shows "store_ok rt jl (w \<lparr> sw_store := st \<rparr>)"
proof -
  note S = store_okD [OF store]
  let ?o = "sw_store w" and ?a = "applyDocument rt jl doc (cursor_of r) (sw_store w)"
  let ?m = "map_of (ss_entries (sw_store w))"
  let ?m' = "?m(ie_docId r := summary_of rt jl (ss_config ?o) (sw_docs w) r)"
  obtain e where e: "e \<in> set (fx_index (sw_feed w))" "ie_docId e = ie_docId r"
    using pending_head(6) [OF p] by blast
  have view: "doc = view_of (sw_docs w) r" "dv_id doc = ie_docId r"
    using view_id [OF docs e(1), of r] e(2) doc by auto
  have "dv_id doc = DB_SETUP_DOC_ID \<and> \<not> ss_hasExplicitConfig ?o \<longrightarrow> applyConfig (setup_config_of doc) ?o = ?o"
    using configured_same [of doc ?o] same by simp
  note A = applyDocument_plain [OF S(3) view this, where rt = rt and jl = jl]
  have old: "ok_entry rt jl (computeSummaryConfigFingerprint (ss_config ?o)) ?m (sw_docs w) x"
    if "x \<in> set (fx_index (sw_feed w))"
      "ie_changeSeq x \<le> cursor_seq (if ss_needsBackfill ?o then ss_backfillCursor ?o else ss_cursor ?o)" for x
    using S(4) that unfolding S(2) [symmetric] by (simp add: claims_def)
  have cur: "cursor_ok (sw_feed w) (ss_cursor ?o)" "ss_needsBackfill ?o \<Longrightarrow> cursor_ok (sw_feed w) (ss_backfillCursor ?o)"
    using S(4) by (simp_all add: claims_def)
  have "0 \<le> base" using pass cursor_nonneg [OF cur(1)] cursor_nonneg [OF cur(2)] by auto
  note got = cursor_received [OF feed p this]
  have dom: "x \<in> ie_docId ` set (fx_index (sw_feed w))" if "?m' x \<noteq> None" for x
    using that S(4) imageI [OF e(1), of ie_docId] e(2) by (cases "x = ie_docId r") (auto simp: claims_def)
  let ?s = "cursor_seq (if ss_needsBackfill ?o then ss_backfillCursor ?o else ss_cursor ?o)"
  let ?s' = "cursor_seq (if ss_needsBackfill ?o then ss_backfillCursor st else ss_cursor st)"
  have new: "cursor_ok (sw_feed w) (ss_cursor st)" "ss_needsBackfill ?o \<Longrightarrow> cursor_ok (sw_feed w) (ss_backfillCursor st)"
    "?s' = ?s \<and> ?s \<le> hi \<or> ?s = base \<and> ?s' = ie_changeSeq r"
    using pass cur got by (auto simp: same)
  have R: "ok_entry rt jl (computeSummaryConfigFingerprint (ss_config ?o)) ?m' (sw_docs w) x"
    if "x \<in> set (fx_index (sw_feed w))" "ie_changeSeq x \<le> ?s'" for x
    by (rule ok_receive [OF feed p old new(3) that])
  have "claims rt jl (sw_feed w) (sw_docs w) (ss_configFingerprint ?o) ?m'
      (ss_cursor st) (ss_needsBackfill ?o) (ss_backfillCursor st)"
    unfolding claims_def S(2) using new(1,2) dom R by blast
  moreover have "ss_cacheAttached st" "ss_config st = ss_config ?o" "ss_configFingerprint st = ss_configFingerprint ?o"
    "ss_needsBackfill st = ss_needsBackfill ?o" "ss_restored st" "ss_entries st = ss_entries ?a"
    "ss_dirtyBuckets st = ss_dirtyBuckets ?a"
    using pass S(1) restored by (auto simp: same)
  moreover have "cached_map (sw_cache w) d = map_of (ss_entries ?a) d" if "bucketIndexFor d \<notin> set (ss_dirtyBuckets ?a)" for d
    using A(3) [OF that] store restored by (simp add: store_ok_def Let_def)
  ultimately show ?thesis
    using A(1,2) S(2) by (simp add: store_ok_def Let_def)
qed

lemma store_ok_phase:
  "ss_restored st \<Longrightarrow> store_ok rt jl (w \<lparr> sw_phase := phase, sw_store := st \<rparr>) = store_ok rt jl (w \<lparr> sw_store := st \<rparr>)"
  by (simp add: store_ok_def Let_def)

lemma phase_world:
  assumes inv: "summary_inv rt jl w"
    and "ss_restored st" and "store_ok rt jl (w \<lparr> sw_store := st \<rparr>)"
    and "phase_ok (w \<lparr> sw_phase := phase, sw_store := st \<rparr>)" and "setup_ok (w \<lparr> sw_store := st \<rparr>)"
  shows "summary_inv rt jl (w \<lparr> sw_phase := phase, sw_store := st \<rparr>)"
  using assms summary_invD(1,2,4) [OF inv] by (simp add: summary_inv_def store_ok_phase)

lemma after_document_cases:
  "after_document batch stop n f = Idle \<or> (\<exists>k. after_document batch stop n f = f k)"
  by (auto simp: after_document_def)

lemma pass1_world:
  assumes inv: "summary_inv rt jl w" and w: "sw_phase w = Pass1 (r # rest) n"
    and run: "run_step rt jl lc (sw_feed w) (sw_docs w) batch stop (sw_phase w) (sw_store w) = (phase, st)"
  shows "summary_inv rt jl (w \<lparr> sw_phase := phase, sw_store := st \<rparr>)"
    and "\<exists>k. phase = after_document batch stop n (Pass1 rest)" and "ss_cursor st = Some (cursor_of r)"
proof -
  note I = summary_invD [OF inv]
  let ?o = "sw_store w"
  obtain hi0 where "pending (sw_feed w) (r # rest) (cursor_seq (ss_cursor ?o)) hi0"
    using I(5) w by (auto simp: phase_ok_def)
  then obtain e where e: "e \<in> set (fx_index (sw_feed w))" "ie_docId r = ie_docId e"
    using pending_head(6) by metis
  then obtain doc where doc: "iterated_doc (sw_docs w) r = Some (doc, cursor_of r)" "doc = view_of (sw_docs w) r"
      "dv_id doc = ie_docId r"
    using view_id [OF I(2) e] by blast
  let ?c = "configured doc ?o" and ?v = "w \<lparr> sw_store := configured doc (sw_store w) \<rparr>"
  have C: "store_ok rt jl ?v" "phase_ok ?v" using configured_world [OF inv, of doc] w by simp_all
  have st: "st = (applyDocument rt jl doc (cursor_of r) ?c) \<lparr> ss_cursor := Some (cursor_of r) \<rparr>"
    and phase: "phase = after_document batch stop n (Pass1 rest)"
    using run doc(1) by (simp_all add: run_step_def w applyDocument_configured [symmetric])
  show "ss_cursor st = Some (cursor_of r)" by (simp add: st)
  show "\<exists>k. phase = after_document batch stop n (Pass1 rest)" by (simp add: phase)
  have idem: "configured doc ?c = ?c" using configured_same [of doc ?o] by (auto simp: configured_def [of doc ?c])
  obtain hi where hi: "pending (sw_feed w) (r # rest) (cursor_seq (ss_cursor ?o)) hi"
      "ss_needsBackfill ?c \<longrightarrow> cursor_seq (ss_backfillCursor ?c) \<le> hi" and run1: "ss_restored ?o" "ss_setupDocSeeded ?o"
    using C(2) w by (auto simp: phase_ok_def)
  have "store_ok rt jl (?v \<lparr> sw_store := st \<rparr>)"
    by (rule received_store [OF _ _ C(1), where r = r and rest = rest and hi = hi and doc = doc and base = "cursor_seq (ss_cursor ?o)"])
      (use I(1,2) hi run1 doc(1) idem st in simp_all)
  then have store: "store_ok rt jl (w \<lparr> sw_store := st \<rparr>)" by simp
  have fields: "ss_restored st" "ss_setupDocSeeded st" "ss_hasExplicitConfig st = ss_hasExplicitConfig ?o"
    "ss_configFingerprint st = ss_configFingerprint ?c" "ss_needsBackfill st = ss_needsBackfill ?c"
    "ss_backfillCursor st = ss_backfillCursor ?c"
    using run1 by (simp_all add: st idem)
  have "phase_ok (w \<lparr> sw_phase := phase, sw_store := st \<rparr>)"
    using after_document_cases [of batch stop n "Pass1 rest"] pending_head(3) [OF hi(1)] hi(2)
    by (auto simp: phase phase_ok_def fields) (auto simp: st)
  moreover have "setup_ok (w \<lparr> sw_store := st \<rparr>)"
  proof -
    have "ss_configFingerprint ?c = computeSummaryConfigFingerprint (resolveSummaryConfig (setup_config_of (view_of (sw_docs w) x)))"
      if auto: "\<not> ss_hasExplicitConfig ?o" and x: "x \<in> set (fx_index (sw_feed w))" "ie_docId x = DB_SETUP_DOC_ID"
        "ie_changeSeq x \<le> ie_changeSeq r" for x
    proof (cases "x = r")
      case True
      then show ?thesis using auto doc(2,3) x(2) by (simp add: configured_def)
    next
      case False
      then have "ie_changeSeq x \<le> cursor_seq (ss_cursor ?o)" using pending_head(4) [OF hi(1) x(1,3)] by simp
      moreover have "ie_docId r \<noteq> DB_SETUP_DOC_ID"
        using pending_head(2) [OF hi(1)] pending_head(5) [OF hi(1) x(1) _ I(1)] False x(2,3) by auto
      ultimately show ?thesis
        using I(6) auto x run1 doc(3) by (simp add: setup_ok_def known_seq_def configured_def)
    qed
    then show ?thesis using fields by (auto simp: setup_ok_def known_seq_def) (auto simp: st)
  qed
  ultimately show "summary_inv rt jl (w \<lparr> sw_phase := phase, sw_store := st \<rparr>)"
    using phase_world [OF inv fields(1) store] by blast
qed

lemma pass2_world:
  assumes inv: "summary_inv rt jl w" and w: "sw_phase w = Pass2 (r # rest) n"
    and run: "run_step rt jl lc (sw_feed w) (sw_docs w) batch stop (sw_phase w) (sw_store w) = (phase, st)"
    and same: "ss_configFingerprint st = ss_configFingerprint (sw_store w)"
  shows "summary_inv rt jl (w \<lparr> sw_phase := phase, sw_store := st \<rparr>)"
    and "\<exists>k. phase = after_document batch stop n (Pass2 rest)" and "ss_cursor st = ss_cursor (sw_store w)"
proof -
  note I = summary_invD [OF inv]
  let ?o = "sw_store w"
  obtain hi where hi: "pending (sw_feed w) (r # rest) (cursor_seq (ss_backfillCursor ?o)) hi"
      "cursor_seq (ss_cursor ?o) \<le> hi" and run2: "ss_restored ?o" "ss_setupDocSeeded ?o" "ss_needsBackfill ?o"
    using I(5) w by (auto simp: phase_ok_def)
  then obtain e where e: "e \<in> set (fx_index (sw_feed w))" "ie_docId r = ie_docId e"
    using pending_head(6) by metis
  then obtain doc where doc: "iterated_doc (sw_docs w) r = Some (doc, cursor_of r)"
    using view_id [OF I(2) e] by blast
  have st: "st = (applyDocument rt jl doc (cursor_of r) ?o) \<lparr> ss_backfillCursor := Some (cursor_of r) \<rparr>"
    and phase: "phase = after_document batch stop n (Pass2 rest)"
    using run doc by (simp_all add: run_step_def w)
  show "\<exists>k. phase = after_document batch stop n (Pass2 rest)" by (simp add: phase)
  show "ss_cursor st = ss_cursor ?o" by (simp add: st)
  have "ss_configFingerprint (configured doc ?o) = ss_configFingerprint ?o" using same by (simp add: st)
  then have idem: "configured doc ?o = ?o" by (auto simp: configured_def applyConfig_same)
  have store: "store_ok rt jl (w \<lparr> sw_store := st \<rparr>)"
    by (rule received_store [OF I(1,2,3) run2(1) hi(1) doc idem]) (use run2 st in simp)
  have fields: "ss_restored st" "ss_setupDocSeeded st" "ss_hasExplicitConfig st = ss_hasExplicitConfig ?o"
    "ss_needsBackfill st" "ss_cursor st = ss_cursor ?o" "ss_backfillCursor st = Some (cursor_of r)"
    using run2 by (simp_all add: st idem)
  have "phase_ok (w \<lparr> sw_phase := phase, sw_store := st \<rparr>)"
    using after_document_cases [of batch stop n "Pass2 rest"] pending_head(3) [OF hi(1)] hi(2)
    by (auto simp: phase phase_ok_def fields)
  moreover have "setup_ok (w \<lparr> sw_store := st \<rparr>)"
    using I(6) run2 fields same by (simp add: setup_ok_def known_seq_def)
  ultimately show "summary_inv rt jl (w \<lparr> sw_phase := phase, sw_store := st \<rparr>)"
    using phase_world [OF inv fields(1) store] by blast
qed

lemma turn_world:
  assumes inv: "summary_inv rt jl w" and w: "sw_phase w = Idle \<or> (\<exists>n. sw_phase w = Pass1 [] n \<or> sw_phase w = Pass2 [] n)"
    and run: "run_step rt jl lc (sw_feed w) (sw_docs w) batch stop (sw_phase w) (sw_store w) = (phase, st)"
  shows "summary_inv rt jl (w \<lparr> sw_phase := phase, sw_store := st \<rparr>)"
proof -
  note I = summary_invD [OF inv] and S = store_okD [OF summary_invD(3) [OF inv]]
  let ?o = "sw_store w"
  consider "sw_phase w = Idle" | n where "sw_phase w = Pass1 [] n" | n where "sw_phase w = Pass2 [] n" using w by blast
  then show ?thesis
  proof cases
    case 1
    then have "w \<lparr> sw_phase := phase, sw_store := st \<rparr> = w" using run by (simp add: run_step_def)
    then show ?thesis using inv by simp
  next
    case (2 n)
    have r: "ss_restored ?o" "ss_setupDocSeeded ?o" using I(5) 2 by (simp_all add: phase_ok_def)
    have b: "cursor_ok (sw_feed w) (ss_backfillCursor ?o)" if "ss_needsBackfill ?o"
      using S(4) that by (simp add: claims_def)
    have st: "st = ?o" "phase = (if ss_needsBackfill ?o then Pass2 (changes_since lc None (ss_backfillCursor ?o) (sw_feed w)) n else Idle)"
      using run 2 by (auto simp: run_step_def split: if_splits)
    have "cursor_seq (ss_cursor ?o) \<le> fx_nextSeq (sw_feed w) - 1"
      using cursor_below [OF claims_cursors [OF S(4)]] by simp
    then have "\<exists>hi \<ge> cursor_seq (ss_cursor ?o). pending (sw_feed w) (changes_since lc None (ss_backfillCursor ?o) (sw_feed w))
        (cursor_seq (ss_backfillCursor ?o)) hi" if "ss_needsBackfill ?o"
      using pending_start [OF I(1) b [OF that], of lc] by blast
    then have "phase_ok (w \<lparr> sw_phase := phase, sw_store := st \<rparr>)"
      using r st by (simp add: phase_ok_def)
    then show ?thesis using phase_world [OF inv, of st phase] r I(3,6) by (simp add: st)
  next
    case (3 n)
    then obtain hi where hi: "pending (sw_feed w) [] (cursor_seq (ss_backfillCursor ?o)) hi"
        "cursor_seq (ss_cursor ?o) \<le> hi" and r: "ss_restored ?o" "ss_setupDocSeeded ?o" "ss_needsBackfill ?o"
      using I(5) by (auto simp: phase_ok_def)
    have st: "st = ?o \<lparr> ss_needsBackfill := False, ss_backfillCursor := None, ss_metaDirty := True \<rparr>" "phase = Idle"
      using run 3 by (auto simp: run_step_def)
    have "ok_entry rt jl (ss_configFingerprint ?o) (map_of (ss_entries ?o)) (sw_docs w) e"
      if "e \<in> set (fx_index (sw_feed w))" "ie_changeSeq e \<le> cursor_seq (ss_cursor ?o)" for e
      using S(4) that hi r(3) by (auto simp: claims_def pending_def)
    then have "claims rt jl (sw_feed w) (sw_docs w) (ss_configFingerprint ?o) (map_of (ss_entries ?o)) (ss_cursor ?o) False None"
      using S(4) by (simp add: claims_def)
    then have "store_ok rt jl (w \<lparr> sw_store := st \<rparr>)"
      using I(3) r by (simp add: store_ok_def Let_def st)
    moreover have "setup_ok (w \<lparr> sw_store := st \<rparr>)" using I(6) by (simp add: setup_ok_def known_seq_def st)
    ultimately show ?thesis using phase_world [OF inv, of st phase] r by (simp add: st phase_ok_def)
  qed
qed

section \<open>Every event keeps the invariant\<close>

lemma flush_world:
  assumes inv: "summary_inv rt jl w" and f: "flush_cacheable (sw_store w, sw_cache w) = (st, cache)"
  shows "summary_inv rt jl (w \<lparr> sw_store := st, sw_cache := cache \<rparr>)"
proof (cases "hasDirtyState (sw_store w)")
  case False
  then have "w \<lparr> sw_store := st, sw_cache := cache \<rparr> = w" using f by (simp add: flush_cacheable_def)
  then show ?thesis using inv by simp
next
  case True
  note I = summary_invD [OF inv] and S = store_okD [OF summary_invD(3) [OF inv]]
  let ?o = "sw_store w" and ?w = "w \<lparr> sw_store := st, sw_cache := cache \<rparr>"
  have st: "st = clearDirty ?o" "cache = flushSummaryToCache ?o (sw_cache w)"
    using f True by (simp_all add: flush_cacheable_def)
  have old: "wf_cache (sw_cache w)" using I(4) by (simp add: cache_ok_def)
  have wf: "wf_cache cache" using flush_wf [OF old S(3)] by (simp add: st)
  have meta: "sm_meta cache = Some \<lparr> mt_cursor = ss_cursor ?o, mt_configFingerprint = ss_configFingerprint ?o,
      mt_bucketCount = Some DEFAULT_BUCKET_COUNT, mt_needsBackfill = ss_needsBackfill ?o, mt_backfillCursor = ss_backfillCursor ?o \<rparr>"
    by (simp add: st flushSummaryToCache_def flush_from_def put_meta_def)
  have now: "cached_map cache d = map_of (ss_entries ?o) d" if "ss_restored ?o" for d
    using flush_cached_map [OF S(3), of "sw_cache w" d] I(3) that by (auto simp: st store_ok_def Let_def)
  have "claims rt jl (sw_feed w) (sw_docs w) (ss_configFingerprint ?o) (cached_map cache)
      (ss_cursor ?o) (ss_needsBackfill ?o) (ss_backfillCursor ?o)"
  proof (cases "ss_restored ?o")
    case True
    then have "cached_map cache = map_of (ss_entries ?o)" using now by blast
    then show ?thesis using S(4) by simp
  next
    case False
    then have e: "ss_entries ?o = []" "ss_cursor ?o = None" "\<not> ss_needsBackfill ?o"
      using I(3) by (simp_all add: store_ok_def Let_def)
    have "d \<in> ie_docId ` set (fx_index (sw_feed w))" if "cached_map cache d \<noteq> None" for d
    proof -
      have "cached_map (sw_cache w) d \<noteq> None"
        using that flush_cached_map [OF S(3), of "sw_cache w" d] e(1) by (auto simp: st split: if_splits)
      then show ?thesis
        using I(4) by (cases "sm_meta (sw_cache w)") (auto simp: cache_ok_def claims_def)
    qed
    then show ?thesis
      using cursor_ok_none [OF I(1)] feed_invD(2) [OF I(1)] e(2,3) by (force simp: claims_def)
  qed
  then have "cache_ok rt jl ?w" using wf by (simp add: cache_ok_def meta)
  moreover have "store_ok rt jl ?w" using I(3) now by (simp add: store_ok_def Let_def st(1) clearDirty_def)
  moreover have "phase_ok ?w" using I(5) by (cases "sw_phase w") (simp_all add: phase_ok_def st(1) clearDirty_def)
  moreover have "setup_ok ?w"
  proof (cases "ss_restored ?o")
    case True
    then show ?thesis using I(6) by (simp add: setup_ok_def known_seq_def st(1) clearDirty_def)
  next
    case False
    then have "ss_cursor ?o = None" using I(3) by (simp add: store_ok_def Let_def)
    then show ?thesis
      using I(6) False feed_invD(2) [OF I(1)] by (fastforce simp: setup_ok_def known_seq_def st(1) clearDirty_def meta)
  qed
  ultimately show ?thesis using I(1,2) by (simp add: summary_inv_def)
qed

lemma bumped_same:
  assumes "feed_inv feed'" and "fx_index feed' = fx_index feed" and "fx_nextSeq feed' = fx_nextSeq feed"
  shows "bumped feed feed' d"
  using assms by (simp add: bumped_def)

lemma fresh_store_world:
  assumes inv: "summary_inv rt jl w"
  shows "summary_inv rt jl (w \<lparr> sw_store := attachCache (new_summary_store config), sw_phase := Idle \<rparr>)"
proof -
  note I = summary_invD [OF inv]
  let ?w = "w \<lparr> sw_store := attachCache (new_summary_store config), sw_phase := Idle \<rparr>"
  have "claims rt jl (sw_feed w) (sw_docs w) fp Map.empty None False None" for fp
    using cursor_ok_none [OF I(1)] feed_invD(2) [OF I(1)] by (force simp: claims_def)
  then have "store_ok rt jl ?w"
    by (simp add: store_ok_def Let_def attachCache_def new_summary_store_def keyed_entries_def)
  moreover have "cache_ok rt jl ?w" using I(4) by (cases "sm_meta (sw_cache w)") (simp_all add: cache_ok_def)
  moreover have "setup_ok ?w" by (auto simp: setup_ok_def attachCache_def new_summary_store_def)
  ultimately show ?thesis using I(1,2) by (simp add: summary_inv_def phase_ok_def)
qed

lemma restart_world:
  assumes inv: "summary_inv rt jl w"
  shows "summary_inv rt jl (w \<lparr> sw_feed := restore_index (fx_index (sw_feed w)) (Some (fx_nextSeq (sw_feed w))),
    sw_store := attachCache (new_summary_store config), sw_phase := Idle \<rparr>)"
proof -
  let ?f = "restore_index (fx_index (sw_feed w)) (Some (fx_nextSeq (sw_feed w)))"
  note R = restore_step [OF summary_invD(1) [OF inv]]
  have "docs_ok ?f (sw_docs w)" using summary_invD(2) [OF inv] R(2) by (simp add: docs_ok_def)
  then have "summary_inv rt jl (w \<lparr> sw_feed := ?f, sw_docs := sw_docs w \<rparr>)"
    by (rule bump_world [OF inv bumped_same [OF R, where d = "[]"], rotated]) (simp add: docs_follow_def)
  from fresh_store_world [OF this] show ?thesis by simp
qed

lemma reset_world:
  assumes inv: "summary_inv rt jl w" and idle: "sw_phase w = Idle"
  shows "summary_inv rt jl (w \<lparr> sw_store := reset_summary (sw_store w) \<rparr>)"
proof -
  note I = summary_invD [OF inv]
  let ?w = "w \<lparr> sw_store := reset_summary (sw_store w) \<rparr>"
  have "claims rt jl (sw_feed w) (sw_docs w) fp Map.empty None False None" for fp
    using cursor_ok_none [OF I(1)] feed_invD(2) [OF I(1)] by (force simp: claims_def)
  moreover have "bucketIndexFor d \<in> set (fold set_add [0..<DEFAULT_BUCKET_COUNT] xs)" for d xs
    by (simp add: fold_set_add)
  ultimately have "store_ok rt jl ?w"
    using I(3) idle by (simp add: store_ok_def Let_def reset_summary_def keyed_entries_def)
  moreover have "setup_ok ?w"
    using I(6) feed_invD(2) [OF I(1)] by (fastforce simp: setup_ok_def known_seq_def reset_summary_def)
  ultimately show ?thesis using I(1,2,4) idle by (simp add: summary_inv_def phase_ok_def)
qed

lemma bumped_docs_ok:
  assumes "bumped feed feed' d" and "docs_ok feed docs" and "dv_id doc = d"
  shows "docs_ok feed' (docs(d \<mapsto> doc))"
  using assms unfolding docs_ok_def bumped_def by auto

lemma write_world:
  assumes inv: "summary_inv rt jl w" and force: "ic_force c" and d: "ic_docId c = d" "dv_id doc = d"
  shows "summary_inv rt jl (w \<lparr> sw_feed := updateIndex lc c (sw_feed w), sw_docs := (sw_docs w)(d \<mapsto> doc) \<rparr>)"
proof (rule bump_world [OF inv])
  note I = summary_invD [OF inv]
  show b: "bumped (sw_feed w) (updateIndex lc c (sw_feed w)) d" using update_bumps [OF I(1)] d by metis
  have "fx_nextSeq (updateIndex lc c (sw_feed w)) = fx_nextSeq (sw_feed w) + 1"
    using updateIndex_step(2) [OF I(1), of lc c] force by (auto simp: spec_update_def split: option.splits)
  then show "docs_follow (sw_feed w) (updateIndex lc c (sw_feed w)) (sw_docs w) ((sw_docs w)(d \<mapsto> doc)) d"
    unfolding docs_follow_def by auto
  show "docs_ok (updateIndex lc c (sw_feed w)) ((sw_docs w)(d \<mapsto> doc))"
    by (rule bumped_docs_ok [OF b I(2) d(2)])
qed

lemma state_world:
  assumes inv: "summary_inv rt jl w" and doc: "sw_docs w d = Some doc" and c: "ic_docId c = d"
  shows "summary_inv rt jl (w \<lparr> sw_feed := updateIndex lc c (sw_feed w) \<rparr>)"
    and "e \<in> set (fx_index (updateIndex lc c (sw_feed w))) \<Longrightarrow> ie_docId e = d \<Longrightarrow> ie_accessState e = ic_accessState c"
proof -
  note I = summary_invD [OF inv]
  have b: "bumped (sw_feed w) (updateIndex lc c (sw_feed w)) d" using update_bumps [OF I(1)] c by metis
  have id: "dv_id doc = d" "(sw_docs w)(d \<mapsto> doc) = sw_docs w"
    using I(2) doc by (auto simp: docs_ok_def)
  have "docs_ok (updateIndex lc c (sw_feed w)) (sw_docs w)"
    using bumped_docs_ok [OF b I(2) id(1)] by (simp add: id(2))
  then show "summary_inv rt jl (w \<lparr> sw_feed := updateIndex lc c (sw_feed w) \<rparr>)"
    using bump_world [OF inv b, of "sw_docs w"] by (simp add: docs_follow_def)
  note step = updateIndex_step [OF I(1), of lc c]
  assume "e \<in> set (fx_index (updateIndex lc c (sw_feed w)))" "ie_docId e = d"
  then have "fst (spec_update c (entry_map (sw_feed w), fx_nextSeq (sw_feed w))) d = Some e"
    using index_by_map [OF step(1), of e] step(2) by (metis fst_conv)
  then show "ie_accessState e = ic_accessState c"
    using c by (auto simp: spec_update_def entry_of_change_def same_tracked_def split: option.splits if_splits)
qed

lemma summary_step_inv:
  assumes inv: "summary_inv rt jl w" and calm: "calm rt jl lc ev w"
  shows "summary_inv rt jl (summary_step rt jl lc ev w)"
proof (cases ev)
  case (DbWrite c data)
  then show ?thesis
    using write_world [OF inv, of "c \<lparr> ic_force := True, ic_accessState := Visible \<rparr>" "ic_docId c" "doc_of_change c data" lc]
    by (simp add: summary_step_def doc_of_change_def)
next
  case (DbState d acc awaiting witn)
  show ?thesis
  proof (cases "sw_docs w d")
    case None
    then show ?thesis using inv by (simp add: summary_step_def DbState)
  next
    case (Some doc)
    let ?c = "state_change doc acc awaiting witn" and ?f = "updateIndex lc (state_change doc acc awaiting witn) (sw_feed w)"
    have "dv_id doc = d" using summary_invD(2) [OF inv] Some by (simp add: docs_ok_def)
    then have c: "ic_docId ?c = d" "ic_accessState ?c = acc" by (simp_all add: state_change_def)
    note W = state_world [OF inv Some c(1), where lc = lc]
    show ?thesis
    proof (cases "acc = Inaccessible")
      case True
      have "summary_inv rt jl (w \<lparr> sw_feed := ?f, sw_store := removeDocument d (sw_store w) \<rparr>)"
        using remove_world [OF W(1), of d] W(2) c(2) True by (simp add: view_of_def iterated_doc_def tombstone_doc_def)
      then show ?thesis by (simp add: summary_step_def DbState Some True)
    next
      case False
      then show ?thesis using W(1) by (simp add: summary_step_def DbState Some)
    qed
  qed
next
  case EnsureConfig
  then show ?thesis using seed_world(1) [OF inv] by (simp add: summary_step_def)
next
  case (StartUpdate aborted)
  then show ?thesis
    using start_world [OF inv] inv by (auto simp: summary_step_def Let_def split: prod.splits)
next
  case (UpdateStep batch stop)
  obtain phase st where run: "run_step rt jl lc (sw_feed w) (sw_docs w) batch stop (sw_phase w) (sw_store w) = (phase, st)"
    by (meson surj_pair)
  then have w': "summary_step rt jl lc ev w = w \<lparr> sw_phase := phase, sw_store := st \<rparr>"
    by (simp add: summary_step_def UpdateStep)
  show ?thesis
  proof (cases "sw_phase w")
    case Idle
    then show ?thesis unfolding w' using turn_world [OF inv _ run] by simp
  next
    case (Pass1 es n)
    then show ?thesis unfolding w' using turn_world [OF inv _ run] pass1_world(1) [OF inv _ run] by (cases es) auto
  next
    case (Pass2 es n)
    then have "ss_configFingerprint st = ss_configFingerprint (sw_store w)"
      using calm w' by (auto simp: calm_def UpdateStep)
    then show ?thesis unfolding w' using turn_world [OF inv _ run] pass2_world(1) [OF inv _ run] Pass2 by (cases es) auto
  qed
next
  case (SetConfig config)
  have "summary_inv rt jl (w \<lparr> sw_store := setConfig config (sw_store w) \<rparr>)"
    by (rule setConfig_world [OF inv]) (use calm SetConfig in \<open>simp add: summary_step_def calm_def\<close>)
  then show ?thesis by (simp add: summary_step_def SetConfig)
next
  case ResetSummary
  then show ?thesis using reset_world [OF inv] calm by (simp add: summary_step_def calm_def split: update_phase.splits)
next
  case FlushSummary
  then show ?thesis
    using flush_world [OF inv] by (auto simp: summary_step_def split: prod.splits)
next
  case (RestartDb config)
  then show ?thesis using restart_world [OF inv] by (simp add: summary_step_def)
qed

lemma new_world_inv: "summary_inv rt jl (new_world config)"
proof -
  have cm: "cached_map \<lparr> sm_meta = None, sm_buckets = [] \<rparr> = Map.empty"
    by (simp add: fun_eq_iff cached_map_def by_docId_def bucket_list_def)
  have "claims rt jl empty_index Map.empty fp Map.empty None False None" for fp
    using cursor_ok_none [OF empty_inv] by (simp add: claims_def empty_index_def)
  then show ?thesis
    using empty_inv cm
    by (simp add: summary_inv_def new_world_def docs_ok_def store_ok_def cache_ok_def phase_ok_def setup_ok_def
        attachCache_def new_summary_store_def keyed_entries_def wf_cache_def bucket_list_def empty_index_def Let_def)
qed

lemma summary_reach_inv: "summary_reach rt jl lc w \<Longrightarrow> summary_inv rt jl w"
  by (induction rule: summary_reach.induct) (auto intro: new_world_inv summary_step_inv)

section \<open>A run that is not interrupted\<close>

abbreviation go ::
  "js_runtime \<Rightarrow> (js_value \<Rightarrow> nat option) \<Rightarrow> (string \<Rightarrow> string \<Rightarrow> int) \<Rightarrow> nat \<Rightarrow> summary_world \<Rightarrow> summary_world" where
  "go rt jl lc batch \<equiv> summary_step rt jl lc (UpdateStep batch False)"

definition covers :: "summary_world \<Rightarrow> bool" where
  "covers w \<longleftrightarrow> (\<forall>e \<in> set (fx_index (sw_feed w)). ie_changeSeq e \<le> cursor_seq (ss_cursor (sw_store w)))"

definition same_db :: "summary_world \<Rightarrow> summary_world \<Rightarrow> bool" where
  "same_db w w' \<longleftrightarrow> sw_feed w' = sw_feed w \<and> sw_docs w' = sw_docs w \<and>
     ss_hasExplicitConfig (sw_store w') = ss_hasExplicitConfig (sw_store w)"

lemma same_db_trans: "same_db a b \<Longrightarrow> same_db b c \<Longrightarrow> same_db a c"
  by (simp add: same_db_def)

lemma after_document_go: "\<exists>k. after_document batch False n f = f k"
  by (auto simp: after_document_def)

lemma funpow_go: "(f ^^ n) (f w) = (f ^^ Suc n) w"
  by (simp add: funpow_swap1)

lemma explicit_step:
  "ss_hasExplicitConfig (snd (run_step rt jl lc feed load batch stop phase st)) = ss_hasExplicitConfig st"
  by (cases phase) (auto simp: run_step_def split: list.splits option.splits)

lemma go_db: "same_db w (go rt jl lc batch w)"
  using explicit_step [of rt jl lc "sw_feed w" "sw_docs w" batch False "sw_phase w" "sw_store w"]
  by (auto simp: same_db_def summary_step_def Let_def split: prod.splits)

lemma pass1_run:
  assumes "summary_inv rt jl w" and "sw_phase w = Pass1 es k" 
    and "pending (sw_feed w) es (cursor_seq (ss_cursor (sw_store w))) hi"
  shows "\<exists>n k'. let w' = (go rt jl lc batch ^^ n) w
    in summary_inv rt jl w' \<and> sw_phase w' = Pass1 [] k' \<and> same_db w w' \<and>
       pending (sw_feed w') [] (cursor_seq (ss_cursor (sw_store w'))) hi"
  using assms
proof (induction es arbitrary: w k)
  case Nil
  then show ?case by (intro exI [of _ 0] exI [of _ k]) (simp add: same_db_def)
next
  case (Cons r rest)
  obtain phase st where run: "run_step rt jl lc (sw_feed w) (sw_docs w) batch False (sw_phase w) (sw_store w) = (phase, st)"
    by (meson surj_pair)
  note P = pass1_world [OF Cons.prems(1,2) run]
  let ?w = "w \<lparr> sw_phase := phase, sw_store := st \<rparr>"
  have w1: "go rt jl lc batch w = ?w" by (simp add: summary_step_def run)
  obtain k' where k': "sw_phase ?w = Pass1 rest k'" using P(2) after_document_go [of batch k "Pass1 rest"] by auto
  have "pending (sw_feed ?w) rest (cursor_seq (ss_cursor (sw_store ?w))) hi"
    using pending_head(3) [OF Cons.prems(3)] P(3) by simp
  from Cons.IH [OF P(1) k' this] obtain n k'' where N: "let w' = (go rt jl lc batch ^^ n) ?w
    in summary_inv rt jl w' \<and> sw_phase w' = Pass1 [] k'' \<and> same_db ?w w' \<and>
       pending (sw_feed w') [] (cursor_seq (ss_cursor (sw_store w'))) hi" by blast
  have "same_db w ?w" using go_db [of w rt jl lc batch] w1 by simp
  then show ?case
    using N funpow_go [of n "go rt jl lc batch" w] unfolding w1
    by (intro exI [of _ "Suc n"] exI [of _ k'']) (auto simp: Let_def dest: same_db_trans simp del: funpow.simps)
qed

lemma pass2_run:
  assumes "summary_inv rt jl w" and "sw_phase w = Pass2 es k" and "covers w"
    and "pending (sw_feed w) es (cursor_seq (ss_backfillCursor (sw_store w))) (fx_nextSeq (sw_feed w) - 1)"
  shows "\<exists>n. let w' = (go rt jl lc batch ^^ n) w
    in summary_inv rt jl w' \<and> sw_phase w' = Idle \<and> same_db w w' \<and> covers w' \<and> \<not> ss_needsBackfill (sw_store w')"
  using assms
proof (induction es arbitrary: w k)
  case Nil
  let ?st = "(sw_store w) \<lparr> ss_needsBackfill := False, ss_backfillCursor := None, ss_metaDirty := True \<rparr>"
  have run: "run_step rt jl lc (sw_feed w) (sw_docs w) batch False (sw_phase w) (sw_store w) = (Idle, ?st)"
    using Nil.prems(2) by (simp add: run_step_def)
  have w1: "go rt jl lc batch w = w \<lparr> sw_phase := Idle, sw_store := ?st \<rparr>"
    by (simp add: summary_step_def run)
  have "summary_inv rt jl (w \<lparr> sw_phase := Idle, sw_store := ?st \<rparr>)"
    by (rule turn_world [OF Nil.prems(1) _ run]) (use Nil.prems(2) in blast)
  then show ?case
    using Nil.prems(3) by (intro exI [of _ 1]) (simp add: w1 same_db_def covers_def)
next
  case (Cons r rest)
  note I = summary_invD [OF Cons.prems(1)]
  obtain phase st where run: "run_step rt jl lc (sw_feed w) (sw_docs w) batch False (sw_phase w) (sw_store w) = (phase, st)"
    by (meson surj_pair)
  let ?w = "w \<lparr> sw_phase := phase, sw_store := st \<rparr>"
  obtain e where e: "e \<in> set (fx_index (sw_feed w))" "ie_docId e = ie_docId r"
    using pending_head(6) [OF Cons.prems(4)] by blast
  have "e = r" using pending_head(5) [OF Cons.prems(4) e I(1)] feed_invD(3) [OF I(1) e(1)] by auto
  then obtain doc where doc: "iterated_doc (sw_docs w) r = Some (doc, cursor_of r)" "doc = view_of (sw_docs w) r" "dv_id doc = ie_docId r"
    using view_id [OF I(2) e(1)] by blast
  have seeded: "ss_restored (sw_store w)" "ss_setupDocSeeded (sw_store w)"
    using I(5) Cons.prems(2) by (simp_all add: phase_ok_def)
  have "configured doc (sw_store w) = sw_store w"
    unfolding configured_def
    using I(6) Cons.prems(3) e \<open>e = r\<close> doc(2,3) seeded
    by (auto simp: setup_ok_def known_seq_def covers_def applyConfig_same)
  then have same: "ss_configFingerprint st = ss_configFingerprint (sw_store w)"
    and b: "ss_backfillCursor st = Some (cursor_of r)"
    using run doc(1) Cons.prems(2) by (auto simp: run_step_def)
  note P = pass2_world [OF Cons.prems(1,2) run same]
  have w1: "go rt jl lc batch w = ?w" by (simp add: summary_step_def run)
  obtain k' where k': "sw_phase ?w = Pass2 rest k'" using P(2) after_document_go [of batch k "Pass2 rest"] by auto
  have c: "covers ?w" using Cons.prems(3) P(3) by (simp add: covers_def)
  have "pending (sw_feed ?w) rest (cursor_seq (ss_backfillCursor (sw_store ?w))) (fx_nextSeq (sw_feed ?w) - 1)"
    using pending_head(3) [OF Cons.prems(4)] b by simp
  from Cons.IH [OF P(1) k' c this] obtain n where N: "let w' = (go rt jl lc batch ^^ n) ?w
    in summary_inv rt jl w' \<and> sw_phase w' = Idle \<and> same_db ?w w' \<and> covers w' \<and> \<not> ss_needsBackfill (sw_store w')" by blast
  have "same_db w ?w" using go_db [of w rt jl lc batch] w1 by simp
  then show ?case
    using N funpow_go [of n "go rt jl lc batch" w] unfolding w1
    by (intro exI [of _ "Suc n"]) (auto simp: Let_def dest: same_db_trans simp del: funpow.simps)
qed

lemma explicit_seed: "ss_hasExplicitConfig (seedConfigFromSetupDoc sd st) = ss_hasExplicitConfig st"
  by (cases sd) (simp_all add: seedConfigFromSetupDoc_def Let_def split: option.split)

lemma explicit_restore: "ss_hasExplicitConfig (ensureRestored cache st) = ss_hasExplicitConfig st"
  by (cases "sm_meta cache") (simp_all add: ensureRestored_def restoreSummaryFromCache_def scheduleBackfill_def Let_def)

lemma start_pass1:
  assumes inv: "summary_inv rt jl w" and idle: "sw_phase w = Idle"
  shows "let w' = summary_step rt jl lc (StartUpdate False) w
    in summary_inv rt jl w' \<and> same_db w w' \<and>
       (\<exists>es. sw_phase w' = Pass1 es 0 \<and>
          pending (sw_feed w') es (cursor_seq (ss_cursor (sw_store w'))) (fx_nextSeq (sw_feed w') - 1))"
proof -
  obtain phase st where run: "begin_run lc (sw_feed w) (readable_setup w) (sw_cache w) False (sw_store w) = (phase, st)"
    by (meson surj_pair)
  note inv' = start_world [OF inv idle run]
  have phase: "phase = Pass1 (changes_since lc None (ss_cursor st) (sw_feed w)) 0"
    using run by (auto simp: begin_run_def Let_def)
  have "ss_hasExplicitConfig (ensureRestored cache (seedConfigFromSetupDoc sd st')) = ss_hasExplicitConfig st'" for cache sd st'
    by (simp add: explicit_restore explicit_seed)
  then have "ss_hasExplicitConfig st = ss_hasExplicitConfig (sw_store w)"
    using run by (auto simp: begin_run_def Let_def)
  then show ?thesis
    using inv' pending_start [OF summary_invD(1) [OF inv'], of "ss_cursor st" lc]
      claims_cursors [OF store_okD(4) [OF summary_invD(3) [OF inv']]]
    by (simp add: summary_step_def idle run phase same_db_def Let_def)
qed

section \<open>What the store promises\<close>

text \<open>
  C38. After a run that nothing interrupts, the summary buffer is the extraction of the database.
  In any world that is reached by writes, changes of access, updates that were stopped anywhere,
  configuration changes outside a backfill, flushes and restarts: a run ends after finitely many
  steps, the coverage is full, and every document has exactly the entry that its current content
  gives under a configuration with the current fingerprint; deleted and inaccessible documents,
  the setup document and documents that do not exist have none.
\<close>

theorem summary_converges:
  assumes "summary_reach rt jl lc w" and "sw_phase w = Idle"
  shows "\<exists>n. let w' = (go rt jl lc batch ^^ n) (summary_step rt jl lc (StartUpdate False) w)
    in sw_phase w' = Idle \<and> getCoverage (sw_store w') = FullCoverage \<and>
       sw_feed w' = sw_feed w \<and> sw_docs w' = sw_docs w \<and>
       (\<forall>d. \<exists>config. computeSummaryConfigFingerprint config = ss_configFingerprint (sw_store w') \<and>
          map_of (ss_entries (sw_store w')) d =
            Option.bind (entry_map (sw_feed w) d) (summary_of rt jl config (sw_docs w)))"
proof -
  have inv: "summary_inv rt jl w" by (rule summary_reach_inv [OF assms(1)])
  let ?s = "summary_step rt jl lc (StartUpdate False) w"
  obtain es where A: "summary_inv rt jl ?s" "same_db w ?s" "sw_phase ?s = Pass1 es 0"
    "pending (sw_feed ?s) es (cursor_seq (ss_cursor (sw_store ?s))) (fx_nextSeq (sw_feed ?s) - 1)"
    using start_pass1 [OF inv assms(2), of lc] by (auto simp: Let_def)
  from pass1_run [OF A(1,3,4), of lc batch] obtain n k where
    B: "summary_inv rt jl ((go rt jl lc batch ^^ n) ?s)" "sw_phase ((go rt jl lc batch ^^ n) ?s) = Pass1 [] k"
      "same_db ?s ((go rt jl lc batch ^^ n) ?s)"
      "pending (sw_feed ((go rt jl lc batch ^^ n) ?s)) []
         (cursor_seq (ss_cursor (sw_store ((go rt jl lc batch ^^ n) ?s)))) (fx_nextSeq (sw_feed ?s) - 1)"
    by (auto simp: Let_def)
  define v where "v = (go rt jl lc batch ^^ n) ?s"
  note B = B [folded v_def]
  have "covers v"
    using B(3,4) feed_invD(3) [OF summary_invD(1) [OF B(1)]] by (fastforce simp: covers_def pending_def same_db_def)
  define u where "u = go rt jl lc batch v"
  have u: "summary_inv rt jl u" "same_db v u" "covers u"
    "ss_needsBackfill (sw_store v) \<Longrightarrow> sw_phase u = Pass2 (changes_since lc None (ss_backfillCursor (sw_store u)) (sw_feed u)) k"
    "\<not> ss_needsBackfill (sw_store v) \<Longrightarrow> sw_phase u = Idle" "sw_store u = sw_store v"
  proof -
    obtain phase st where run: "run_step rt jl lc (sw_feed v) (sw_docs v) batch False (sw_phase v) (sw_store v) = (phase, st)"
      by (meson surj_pair)
    then have "st = sw_store v" "phase = (if ss_needsBackfill (sw_store v)
        then Pass2 (changes_since lc None (ss_backfillCursor (sw_store v)) (sw_feed v)) k else Idle)"
      using B(2) by (auto simp: run_step_def split: if_splits)
    moreover have "u = v \<lparr> sw_phase := phase, sw_store := st \<rparr>" by (simp add: u_def summary_step_def run)
    ultimately show "summary_inv rt jl u" "same_db v u" "covers u"
      "ss_needsBackfill (sw_store v) \<Longrightarrow> sw_phase u = Pass2 (changes_since lc None (ss_backfillCursor (sw_store u)) (sw_feed u)) k"
      "\<not> ss_needsBackfill (sw_store v) \<Longrightarrow> sw_phase u = Idle" "sw_store u = sw_store v"
      using turn_world [OF B(1) _ run] B(2) \<open>covers v\<close> by (auto simp: same_db_def covers_def)
  qed
  have "\<exists>n. let w' = (go rt jl lc batch ^^ n) u
    in summary_inv rt jl w' \<and> sw_phase w' = Idle \<and> same_db u w' \<and> covers w' \<and> \<not> ss_needsBackfill (sw_store w')"
  proof (cases "ss_needsBackfill (sw_store v)")
    case True
    have "cursor_ok (sw_feed u) (ss_backfillCursor (sw_store u))"
      using store_okD(4) [OF summary_invD(3) [OF u(1)]] True u(6) by (simp add: claims_def)
    from pass2_run [OF u(1) u(4) [OF True] u(3) pending_start [OF summary_invD(1) [OF u(1)] this, of lc]]
    show ?thesis .
  next
    case False
    then show ?thesis using u by (intro exI [of _ 0]) (simp add: same_db_def)
  qed
  then obtain n' where C: "summary_inv rt jl ((go rt jl lc batch ^^ n') u)" "sw_phase ((go rt jl lc batch ^^ n') u) = Idle"
    "same_db u ((go rt jl lc batch ^^ n') u)" "covers ((go rt jl lc batch ^^ n') u)"
    "\<not> ss_needsBackfill (sw_store ((go rt jl lc batch ^^ n') u))"
    by (auto simp: Let_def)
  let ?x = "(go rt jl lc batch ^^ n') u"
  have x: "?x = (go rt jl lc batch ^^ (n' + Suc n)) ?s"
    by (simp add: u_def v_def funpow_add funpow_swap1)
  have db: "same_db w ?x" using A(2) B(3) u(2) C(3) same_db_trans by blast
  have "\<exists>config. computeSummaryConfigFingerprint config = ss_configFingerprint (sw_store ?x) \<and>
      map_of (ss_entries (sw_store ?x)) d = Option.bind (entry_map (sw_feed w) d) (summary_of rt jl config (sw_docs w))" for d
  proof -
    note S = store_okD [OF summary_invD(3) [OF C(1)]]
    show ?thesis
    proof (cases "entry_map (sw_feed w) d")
      case None
      have "d \<notin> ie_docId ` set (fx_index (sw_feed ?x))"
        using None db entry_map_iff [OF feed_invD(4) [OF summary_invD(1) [OF inv]], of d] by (auto simp: same_db_def)
      then have "map_of (ss_entries (sw_store ?x)) d = None" using S(4) unfolding claims_def by blast
      then show ?thesis using None S(2) by auto
    next
      case (Some e)
      then have e: "e \<in> set (fx_index (sw_feed ?x))" "ie_docId e = d"
        using db entry_map_iff [OF feed_invD(4) [OF summary_invD(1) [OF inv]], of d e] by (auto simp: same_db_def)
      then have "ok_entry rt jl (ss_configFingerprint (sw_store ?x)) (map_of (ss_entries (sw_store ?x))) (sw_docs ?x) e"
        using S(4) C(4,5) by (simp add: claims_def covers_def)
      then show ?thesis using db e(2) Some by (auto simp: ok_entry_def same_db_def)
    qed
  qed
  then show ?thesis
    using C(2,5) db
    by (intro exI [of _ "n' + Suc n"]) (unfold x [symmetric] Let_def, simp add: getCoverage_def same_db_def)
qed

text \<open>
  C39. What a flush writes, a restart reads. In every reached world with a restored store that has
  something to write, the store of the next session has the same entries and the same cursor
  after its restore, whatever buckets were dirty.
\<close>

theorem flush_restore_roundtrip:
  assumes "summary_reach rt jl lc w" and "ss_restored (sw_store w)" and "hasDirtyState (sw_store w)"
  shows "let w' = summary_step rt jl lc FlushSummary w;
             st = ensureRestored (sw_cache w') (attachCache (new_summary_store config))
    in map_of (ss_entries st) = map_of (ss_entries (sw_store w)) \<and> ss_cursor st = ss_cursor (sw_store w)"
proof -
  let ?cache = "flushSummaryToCache (sw_store w) (sw_cache w)"
  have inv: "summary_inv rt jl w" by (rule summary_reach_inv [OF assms(1)])
  note S = store_okD [OF summary_invD(3) [OF inv]]
  have "wf_cache (sw_cache w)" using summary_invD(4) [OF inv] by (simp add: cache_ok_def)
  then have wf: "wf_cache ?cache" by (rule flush_wf [OF _ S(3)])
  have meta: "sm_meta ?cache = Some \<lparr> mt_cursor = ss_cursor (sw_store w), mt_configFingerprint = ss_configFingerprint (sw_store w),
      mt_bucketCount = Some DEFAULT_BUCKET_COUNT, mt_needsBackfill = ss_needsBackfill (sw_store w),
      mt_backfillCursor = ss_backfillCursor (sw_store w) \<rparr>"
    by (simp add: flushSummaryToCache_def flush_from_def put_meta_def)
  have "cached_map ?cache d = map_of (ss_entries (sw_store w)) d" for d
    using flush_cached_map [OF S(3), of "sw_cache w" d] summary_invD(3) [OF inv] assms(2)
    by (auto simp: store_ok_def Let_def)
  then have "cached_map ?cache = map_of (ss_entries (sw_store w))" by blast
  then show ?thesis
    using restored_map [OF wf _ meta, of "attachCache (new_summary_store config)"] assms(3)
    by (simp add: summary_step_def flush_cacheable_def ensureRestored_def attachCache_def new_summary_store_def)
qed

section \<open>A concrete database\<close>

definition sample_write :: "string \<Rightarrow> int \<Rightarrow> summary_event" where
  "sample_write d t = DbWrite (change_of d t) [(''title'', JStr d)]"

definition sample_step :: "summary_event \<Rightarrow> summary_world \<Rightarrow> summary_world" where
  "sample_step = summary_step bare_runtime (\<lambda>v. Some 1) compare_by"

definition sample_world :: summary_world where
  "sample_world = sample_step (sample_write ''d1'' 10) (new_world None)"

lemma sample_reach: "summary_reach bare_runtime (\<lambda>v. Some 1) compare_by sample_world"
  unfolding sample_world_def sample_step_def
  by (rule summary_reach.step [OF summary_reach.start]) (simp add: calm_def new_world_def)

theorem summary_converges_witness:
  "\<exists>n. map_of (ss_entries (sw_store ((go bare_runtime (\<lambda>v. Some 1) compare_by 100 ^^ n)
      (summary_step bare_runtime (\<lambda>v. Some 1) compare_by (StartUpdate False) sample_world)))) ''d1'' \<noteq> None"
proof -
  have idle: "sw_phase sample_world = Idle" by (simp add: sample_world_def sample_step_def sample_write_def summary_step_def new_world_def)
  have e: "(case entry_map (sw_feed sample_world) ''d1'' of Some e \<Rightarrow> ie_docId e = ''d1'' \<and>
      \<not> dv_isDeleted (view_of (sw_docs sample_world) e) | None \<Rightarrow> False)"
    by code_simp
  then have "Option.bind (entry_map (sw_feed sample_world) ''d1'')
      (summary_of bare_runtime (\<lambda>v. Some 1) config (sw_docs sample_world)) \<noteq> None" for config
    by (auto simp: summary_of_def DB_SETUP_DOC_ID_def split: option.splits)
  then show ?thesis
    using summary_converges [OF sample_reach idle, of 100] unfolding Let_def by metis
qed

theorem flush_restore_roundtrip_witness:
  "map_of (ss_entries (ensureRestored (sw_cache (summary_step bare_runtime (\<lambda>v. Some 1) compare_by FlushSummary
      (sample_step (UpdateStep 100 False) (sample_step (StartUpdate False) sample_world))))
      (attachCache (new_summary_store None)))) ''d1'' \<noteq> None"
proof -
  let ?v = "sample_step (StartUpdate False) sample_world"
  let ?w = "sample_step (UpdateStep 100 False) ?v"
  have facts: "sw_phase sample_world = Idle" "case sw_phase ?v of Pass1 _ _ \<Rightarrow> True | _ \<Rightarrow> False"
    "ss_restored (sw_store ?w)" "hasDirtyState (sw_store ?w)"
    "map_of (ss_entries (sw_store ?w)) ''d1'' \<noteq> None"
    by code_simp+
  have "summary_reach bare_runtime (\<lambda>v. Some 1) compare_by ?v"
    unfolding sample_step_def by (rule summary_reach.step [OF sample_reach]) (simp add: calm_def facts(1))
  then have "summary_reach bare_runtime (\<lambda>v. Some 1) compare_by ?w"
    unfolding sample_step_def
    by (rule summary_reach.step) (use facts(2) in \<open>auto simp: calm_def sample_step_def split: update_phase.splits\<close>)
  from flush_restore_roundtrip [OF this facts(3,4), of None] facts(5) show ?thesis by (simp add: Let_def)
qed

section \<open>Interleavings that lose data\<close>

definition configured_with :: "rat \<Rightarrow> string list \<Rightarrow> summary_config option" where
  "configured_with bytes exclude =
     Some \<lparr> sc_autoInclude = None, sc_maxValueBytes = Some bytes, sc_include = None, sc_exclude = Some exclude,
            sc_includeAttachments = None \<rparr>"

text \<open>
  A configuration that is set while a backfill is under way: the end of the pass clears the
  request for a new one. The store reports full coverage, excludes the title, and keeps it.
\<close>

definition config_during_backfill :: "summary_event list" where
  "config_during_backfill =
     [sample_write ''d1'' 10, StartUpdate False, UpdateStep 100 False, UpdateStep 100 False,
      SetConfig (configured_with 100 []), StartUpdate False, UpdateStep 100 False, UpdateStep 100 False,
      SetConfig (configured_with 100 [''title'']), UpdateStep 100 False,
      StartUpdate False, UpdateStep 100 False]"

lemma config_during_backfill_lost:
  "let w = fold sample_step config_during_backfill (new_world None)
   in sw_phase w = Idle \<and> getCoverage (sw_store w) = FullCoverage \<and>
      exclude_paths (ss_config (sw_store w)) = [''title''] \<and>
      map_option se_fields (map_of (ss_entries (sw_store w)) ''d1'') = Some [(''title'', JStr ''d1'')]"
  by code_simp

text \<open>
  A document that is applied while a flush waits for a write: its bucket joins the set that the
  flush runs over, but not the groups it made, so the bucket is written empty; the cursor is
  written as it is then, and the marks are cleared. The next session does not have the
  document, and its cursor is past it.
\<close>

definition flush_race_store :: summary_store where
  "flush_race_store =
     sw_store (fold sample_step
       [sample_write ''a'' 10, sample_write ''b'' 20, StartUpdate False, UpdateStep 100 False, UpdateStep 100 False,
        UpdateStep 100 False, FlushSummary, sample_write ''a'' 30, StartUpdate False, UpdateStep 100 False] (new_world None))"

definition flush_race_cache :: summary_cache where
  "flush_race_cache =
     sw_cache (fold sample_step
       [sample_write ''a'' 10, sample_write ''b'' 20, StartUpdate False, UpdateStep 100 False, UpdateStep 100 False,
        UpdateStep 100 False, FlushSummary] (new_world None))"

definition flush_race_applied :: summary_store where
  "flush_race_applied =
     (let e = entry_of_change 4 (change_of ''b'' 40)
      in (applyDocument bare_runtime (\<lambda>v. Some 1) (doc_of_change (change_of ''b'' 40) [(''title'', JStr ''b'')])
            (cursor_of e) flush_race_store) \<lparr> ss_cursor := Some (cursor_of e) \<rparr>)"

lemma flush_race_loses_bucket:
  "let written = put_bucket (group_dirty flush_race_store) flush_race_cache (hd (ss_dirtyBuckets flush_race_store));
       cache = flush_from (group_dirty flush_race_store) 1 flush_race_applied written;
       next = ensureRestored cache (attachCache (new_summary_store None))
   in map_has (ss_entries flush_race_applied) ''b'' \<and> \<not> map_has (ss_entries next) ''b'' \<and>
      cursor_seq (ss_cursor next) = 4 \<and> \<not> hasDirtyState (clearDirty flush_race_applied)"
  by code_simp

text \<open>
  A removal before the store has read its cache finds nothing to remove, marks nothing, and the
  value is there again after the restore.
\<close>

lemma removal_before_restore_keeps_value:
  "let st = attachCache (new_summary_store None)
   in removeDocument ''b'' st = st \<and>
      map_has (ss_entries (ensureRestored flush_race_cache (removeDocument ''b'' st))) ''b''"
  by code_simp

end
