(* ===== verification/SortOrder.thy ===== *)
theory SortOrder
  imports Expressions TimedOrder
begin

text \<open>
  The order of view entries and query rows: the comparison of column values
  (\<^verbatim>\<open>core/indexing/virtualviews/types.ts\<close>) and the comparator of the entries of one level of
  a view (\<^verbatim>\<open>ViewEntrySortKey.ts\<close>, \<^verbatim>\<open>ViewEntrySortKeyComparator.ts\<close>). The two collators and
  \<^verbatim>\<open>localeCompare\<close> are arguments; of a difference of numbers only the sign is kept. Date objects
  are not values of the model.
\<close>

section \<open>Comparisons that a sort may use\<close>

text \<open>Opposite arguments give opposite signs, as the documentation of the collators promises.\<close>

locale js_strict_comparator = js_comparator cmp for cmp :: "'a \<Rightarrow> 'a \<Rightarrow> int" +
  assumes cmp_sign: "cmp x y < 0 \<longleftrightarrow> 0 < cmp y x"

context js_strict_comparator begin

lemma zero_sym: "cmp x y = 0 \<longleftrightarrow> cmp y x = 0"
  using cmp_sign [of x y] cmp_sign [of y x] by linarith

lemma self: "cmp x x = 0"
  using cmp_sign [of x x] by linarith

lemma opposite: "js_strict_comparator (\<lambda>x y. - cmp x y)"
proof
  show "- cmp x z \<le> 0" if "- cmp x y \<le> 0" "- cmp y z \<le> 0" for x y z
  proof -
    have "cmp z y \<le> 0" "cmp y x \<le> 0" using that cmp_sign [of x y] cmp_sign [of y z] by linarith+
    then have "cmp z x \<le> 0" by (rule cmp_trans)
    then show ?thesis using cmp_sign [of x z] by linarith
  qed
  show "- cmp x y \<le> 0 \<or> - cmp y x \<le> 0" for x y using cmp_sign [of x y] by linarith
  show "- cmp x y < 0 \<longleftrightarrow> 0 < - cmp y x" for x y using cmp_sign [of y x] by linarith
qed

lemma on_image: "js_strict_comparator (\<lambda>x y. cmp (f x) (f y))"
  by unfold_locales (use cmp_trans cmp_total cmp_sign in blast)+

end

text \<open>Comparing by a first order and then by a second one.\<close>

definition then_cmp :: "('a \<Rightarrow> 'a \<Rightarrow> int) \<Rightarrow> ('a \<Rightarrow> 'a \<Rightarrow> int) \<Rightarrow> 'a \<Rightarrow> 'a \<Rightarrow> int" where
  "then_cmp c d x y = (let r = c x y in if r \<noteq> 0 then r else d x y)"

lemma then_comparator:
  assumes c: "js_strict_comparator c" and d: "js_strict_comparator d"
  shows "js_strict_comparator (then_cmp c d)"
proof -
  note cs = js_strict_comparator.cmp_sign [OF c] and ds = js_strict_comparator.cmp_sign [OF d]
  note ct = js_comparator.cmp_trans [OF js_strict_comparator.axioms(1) [OF c]]
  note dt = js_comparator.cmp_trans [OF js_strict_comparator.axioms(1) [OF d]]
  have le: "then_cmp c d x y \<le> 0 \<longleftrightarrow> c x y \<le> 0 \<and> (c x y = 0 \<longrightarrow> d x y \<le> 0)" for x y
    by (auto simp: then_cmp_def Let_def)
  have sign: "then_cmp c d x y < 0 \<longleftrightarrow> 0 < then_cmp c d y x" for x y
    using cs [of x y] cs [of y x] ds [of x y] by (auto simp: then_cmp_def Let_def)
  have trans: "then_cmp c d x z \<le> 0" if xy: "then_cmp c d x y \<le> 0" and yz: "then_cmp c d y z \<le> 0" for x y z
  proof -
    have le1: "c x y \<le> 0" "c y z \<le> 0" using xy yz le by blast+
    then have xz: "c x z \<le> 0" by (rule ct)
    have "d x z \<le> 0" if eq: "c x z = 0"
    proof -
      have "c z x \<le> 0" using eq cs [of z x] cs [of x z] by linarith
      then have "c z y \<le> 0" "c y x \<le> 0" using ct le1 by blast+
      then have "c x y = 0" "c y z = 0" using le1 cs [of x y] cs [of y z] by linarith+
      then show ?thesis using xy yz le dt by blast
    qed
    then show ?thesis using xz le by blast
  qed
  show ?thesis
    by unfold_locales (use trans sign in \<open>metis linorder_not_le less_le\<close>)+
qed

lemma then_zero: "then_cmp c d x y = 0 \<longleftrightarrow> c x y = 0 \<and> d x y = 0"
  by (simp add: then_cmp_def Let_def)

lemma foldr_then_comparator:
  assumes "\<And>c. c \<in> set cs \<Longrightarrow> js_strict_comparator c" and "js_strict_comparator d"
  shows "js_strict_comparator (foldr then_cmp cs d)"
  using assms by (induction cs) (auto intro: then_comparator)

lemma foldr_then_zero: "foldr then_cmp cs d x y = 0 \<longleftrightarrow> (\<forall>c \<in> set cs. c x y = 0) \<and> d x y = 0"
  by (induction cs) (auto simp: then_zero)

section \<open>Column values\<close>

text \<open>A value, or one of the two ends that range scans use.\<close>

datatype sort_value = LowSortval | HighSortval | SortVal js_value

definition MAX_SAFE_INTEGER :: int where "MAX_SAFE_INTEGER = 9007199254740991"

definition getDataTypeSortOrder :: "js_value \<Rightarrow> int" where
  "getDataTypeSortOrder v =
     (case v of JNull \<Rightarrow> MAX_SAFE_INTEGER | JUndefined \<Rightarrow> MAX_SAFE_INTEGER | JNum n \<Rightarrow> 1 | JStr s \<Rightarrow> 3 | _ \<Rightarrow> 4)"

record collators =
  co_base :: "string \<Rightarrow> string \<Rightarrow> int"
  co_default :: "string \<Rightarrow> string \<Rightarrow> int"
  co_locale :: "string \<Rightarrow> string \<Rightarrow> int"

definition empty_as_null :: "js_value \<Rightarrow> js_value" where
  "empty_as_null v = (if v = JStr '''' then JNull else v)"

definition same_type_result :: "js_runtime \<Rightarrow> collators \<Rightarrow> js_value \<Rightarrow> js_value \<Rightarrow> int" where
  "same_type_result rt co a b =
     (case (a, b) of
        (JStr s, JStr t) \<Rightarrow> co_base co s t
      | (JNum m, JNum n) \<Rightarrow> compare_by m n
      | _ \<Rightarrow> co_default co (js_to_string rt a) (js_to_string rt b))"

definition compare_plain :: "js_runtime \<Rightarrow> collators \<Rightarrow> js_value \<Rightarrow> js_value \<Rightarrow> bool \<Rightarrow> int" where
  "compare_plain rt co a0 b0 descending =
     (let a = empty_as_null a0; b = empty_as_null b0
      in if js_nullish a then (if js_nullish b then 0 else if descending then -1 else 1)
         else if js_nullish b then (if descending then 1 else -1)
         else if getDataTypeSortOrder a \<noteq> getDataTypeSortOrder b
         then (if descending then -1 else 1) * (getDataTypeSortOrder a - getDataTypeSortOrder b)
         else (let result = same_type_result rt co a b in if descending then - result else result))"

definition compareValues :: "js_runtime \<Rightarrow> collators \<Rightarrow> sort_value \<Rightarrow> sort_value \<Rightarrow> bool \<Rightarrow> int" where
  "compareValues rt co a b descending =
     (if a = LowSortval then (if b = LowSortval then 0 else -1)
      else if b = LowSortval then 1
      else if a = HighSortval then (if b = HighSortval then 0 else 1)
      else if b = HighSortval then -1
      else (case (a, b) of (SortVal x, SortVal y) \<Rightarrow> compare_plain rt co x y descending | _ \<Rightarrow> 0))"

section \<open>The entries of one level of a view\<close>

datatype categorization_style = DocumentThenCategory | CategoryThenDocument

record view_sort_key =
  vk_isCategory :: bool
  vk_values :: "sort_value list"
  vk_origin :: string
  vk_docId :: string

record key_comparator =
  kc_categoriesOnTopOfDocuments :: bool
  kc_categoryOrderDescending :: bool
  kc_docOrderPerColumnDescending :: "bool list"

definition new_key_comparator :: "categorization_style \<Rightarrow> bool \<Rightarrow> bool list \<Rightarrow> key_comparator" where
  "new_key_comparator style categoryDescending docDescending =
     \<lparr> kc_categoriesOnTopOfDocuments = (style = CategoryThenDocument),
       kc_categoryOrderDescending = categoryDescending, kc_docOrderPerColumnDescending = docDescending \<rparr>"

definition LOW_ORIGIN :: string where "LOW_ORIGIN = ''~~LOW~''"

definition HIGH_ORIGIN :: string where "HIGH_ORIGIN = ''~~HIGH~''"

definition compareOriginAndDocId :: "collators \<Rightarrow> view_sort_key \<Rightarrow> view_sort_key \<Rightarrow> int" where
  "compareOriginAndDocId co o1 o2 =
     (if vk_origin o1 = LOW_ORIGIN then (if vk_origin o2 = LOW_ORIGIN then 0 else -1)
      else if vk_origin o2 = LOW_ORIGIN then 1
      else if vk_origin o1 = HIGH_ORIGIN then (if vk_origin o2 = HIGH_ORIGIN then 0 else 1)
      else if vk_origin o2 = HIGH_ORIGIN then -1
      else (let originResult = co_locale co (vk_origin o1) (vk_origin o2)
            in if originResult \<noteq> 0 then originResult else co_locale co (vk_docId o1) (vk_docId o2)))"

definition first_value :: "view_sort_key \<Rightarrow> sort_value" where
  "first_value k = (if length (vk_values k) > 0 then vk_values k ! 0 else SortVal JNull)"

definition null_value :: "sort_value \<Rightarrow> bool" where
  "null_value v = (case v of SortVal x \<Rightarrow> js_nullish x | _ \<Rightarrow> False)"

definition compareCategories :: "js_runtime \<Rightarrow> collators \<Rightarrow> key_comparator \<Rightarrow> view_sort_key \<Rightarrow> view_sort_key \<Rightarrow> int" where
  "compareCategories rt co kc o1 o2 =
     (let v1 = first_value o1; v2 = first_value o2
      in if v1 = LowSortval then (if v2 = LowSortval then 0 else -1)
         else if v2 = LowSortval then 1
         else if v1 = HighSortval then (if v2 = HighSortval then 0 else 1)
         else if v2 = HighSortval then -1
         else if null_value v1 then
           (if null_value v2 then compareOriginAndDocId co o1 o2
            else if kc_categoryOrderDescending kc then -1 else 1)
         else if null_value v2 then (if kc_categoryOrderDescending kc then 1 else -1)
         else (let result = compareValues rt co v1 v2 (kc_categoryOrderDescending kc)
               in if result \<noteq> 0 then result else compareOriginAndDocId co o1 o2))"

text \<open>The loop over the columns, from column \<open>i\<close>; a missing value is null.\<close>

definition column_value :: "view_sort_key \<Rightarrow> nat \<Rightarrow> sort_value" where
  "column_value k i = (if i < length (vk_values k) then vk_values k ! i else SortVal JNull)"

definition column_descending :: "key_comparator \<Rightarrow> nat \<Rightarrow> bool" where
  "column_descending kc i =
     (if i < length (kc_docOrderPerColumnDescending kc) then kc_docOrderPerColumnDescending kc ! i else False)"

fun compare_columns :: "js_runtime \<Rightarrow> collators \<Rightarrow> key_comparator \<Rightarrow> view_sort_key \<Rightarrow> view_sort_key \<Rightarrow> nat list \<Rightarrow> int" where
  "compare_columns rt co kc o1 o2 [] = compareOriginAndDocId co o1 o2"
| "compare_columns rt co kc o1 o2 (i # is) =
     (let v1 = column_value o1 i; v2 = column_value o2 i
      in if v1 = LowSortval then (if v2 = LowSortval then 0 else -1)
         else if v2 = LowSortval then 1
         else if v1 = HighSortval then (if v2 = HighSortval then 0 else 1)
         else if v2 = HighSortval then -1
         else (let result = compareValues rt co v1 v2 (column_descending kc i)
               in if result \<noteq> 0 then result else compare_columns rt co kc o1 o2 is))"

definition compareDocuments :: "js_runtime \<Rightarrow> collators \<Rightarrow> key_comparator \<Rightarrow> view_sort_key \<Rightarrow> view_sort_key \<Rightarrow> int" where
  "compareDocuments rt co kc o1 o2 =
     compare_columns rt co kc o1 o2 [0..<max (length (vk_values o1)) (length (vk_values o2))]"

definition compare_keys :: "js_runtime \<Rightarrow> collators \<Rightarrow> key_comparator \<Rightarrow> view_sort_key \<Rightarrow> view_sort_key \<Rightarrow> int" where
  "compare_keys rt co kc o1 o2 =
     (if vk_isCategory o1 \<and> \<not> vk_isCategory o2 then (if kc_categoriesOnTopOfDocuments kc then -1 else 1)
      else if \<not> vk_isCategory o1 \<and> vk_isCategory o2 then (if kc_categoriesOnTopOfDocuments kc then 1 else -1)
      else if vk_isCategory o1 \<and> vk_isCategory o2 then compareCategories rt co kc o1 o2
      else compareDocuments rt co kc o1 o2)"

section \<open>The orders are orders\<close>

text \<open>What the collators promise; the base collator may find different texts equal.\<close>

definition proper_collators :: "collators \<Rightarrow> bool" where
  "proper_collators co \<longleftrightarrow>
     js_strict_comparator (co_base co) \<and> js_strict_comparator (co_default co) \<and> strict_collation (co_locale co)"

definition code_unit_collators :: collators where
  "code_unit_collators = \<lparr> co_base = compare_by, co_default = compare_by, co_locale = compare_by \<rparr>"

interpretation code_unit_order: js_strict_comparator compare_by
  by unfold_locales (auto simp: compare_by_def split: if_splits)

lemma code_unit_proper: "proper_collators code_unit_collators"
  by (simp add: proper_collators_def code_unit_collators_def code_unit_order.js_strict_comparator_axioms
      code_units_strict.strict_collation_axioms)

lemma strict_collation_comparator:
  assumes "strict_collation lc"
  shows "js_strict_comparator lc"
proof -
  note c = strict_collation.axioms(1) [OF assms]
  show ?thesis
    by unfold_locales
      (use collation.lc_trans [OF c] collation.lc_total [OF c] strict_collation.lc_sign [OF assms] in blast)+
qed

text \<open>
  Plain values fall into ranks: numbers, strings, the rest, and nothing; within a rank one strict
  comparison decides. A descending column turns both around.
\<close>

definition type_rank :: "js_value \<Rightarrow> int" where
  "type_rank v = getDataTypeSortOrder (empty_as_null v)"

fun rank_text :: "js_runtime \<Rightarrow> js_value \<Rightarrow> string" where
  "rank_text rt (JNum n) = ''''"
| "rank_text rt (JStr s) = ''''"
| "rank_text rt JNull = ''''"
| "rank_text rt JUndefined = ''''"
| "rank_text rt v = js_to_string rt v"

fun rank_string :: "js_value \<Rightarrow> string" where
  "rank_string (JStr s) = s"
| "rank_string v = ''''"

fun rank_number :: "js_value \<Rightarrow> rat" where
  "rank_number (JNum n) = n"
| "rank_number v = 0"

definition plain_order :: "js_runtime \<Rightarrow> collators \<Rightarrow> js_value \<Rightarrow> js_value \<Rightarrow> int" where
  "plain_order rt co =
     then_cmp (\<lambda>a b. compare_by (type_rank a) (type_rank b))
       (then_cmp (\<lambda>a b. compare_by (rank_number (empty_as_null a)) (rank_number (empty_as_null b)))
          (then_cmp (\<lambda>a b. co_base co (rank_string (empty_as_null a)) (rank_string (empty_as_null b)))
             (\<lambda>a b. co_default co (rank_text rt (empty_as_null a)) (rank_text rt (empty_as_null b)))))"

lemma plain_comparator: "proper_collators co \<Longrightarrow> js_strict_comparator (plain_order rt co)"
  unfolding plain_order_def proper_collators_def
  by (intro then_comparator) (auto intro: js_strict_comparator.on_image code_unit_order.js_strict_comparator_axioms)

lemma compare_plain_sign:
  assumes "proper_collators co"
  shows "sgn (compare_plain rt co a b False) = sgn (plain_order rt co a b)"
proof -
  note z = js_strict_comparator.self
  have "co_base co x x = 0" "co_default co x x = 0" for x
    using assms z by (auto simp: proper_collators_def)
  then show ?thesis
    by (cases "empty_as_null a"; cases "empty_as_null b";
        simp add: compare_plain_def plain_order_def then_cmp_def type_rank_def getDataTypeSortOrder_def
          js_nullish_def same_type_result_def MAX_SAFE_INTEGER_def compare_by_def Let_def)
qed

text \<open>Only the sign of a result is read, so comparisons with equal signs are interchangeable.\<close>

lemma sgn_comparator:
  assumes g: "js_strict_comparator g" and same: "\<And>x y. sgn (f x y) = sgn (g x y :: int)"
  shows "js_strict_comparator f"
proof -
  have le: "f x y \<le> 0 \<longleftrightarrow> g x y \<le> 0" and lt: "f x y < 0 \<longleftrightarrow> g x y < 0" and gt: "0 < f x y \<longleftrightarrow> 0 < g x y" for x y
    using same [of x y] by (auto simp: sgn_if split: if_splits)
  note c = js_strict_comparator.axioms(1) [OF g]
  show ?thesis
    by unfold_locales
      (use le lt gt js_comparator.cmp_trans [OF c] js_comparator.cmp_total [OF c] js_strict_comparator.cmp_sign [OF g] in metis)+
qed

definition directed :: "bool \<Rightarrow> ('a \<Rightarrow> 'a \<Rightarrow> int) \<Rightarrow> 'a \<Rightarrow> 'a \<Rightarrow> int" where
  "directed descending c x y = (if descending then - c x y else c x y)"

lemma directed_comparator: "js_strict_comparator c \<Longrightarrow> js_strict_comparator (directed descending c)"
  by (cases descending) (simp_all add: directed_def [abs_def] js_strict_comparator.opposite)

lemma directed_zero: "directed descending c x y = 0 \<longleftrightarrow> c x y = 0"
  by (simp add: directed_def)

lemma compare_plain_directed: "compare_plain rt co a b descending = directed descending (\<lambda>a b. compare_plain rt co a b False) a b"
  by (cases descending) (auto simp: directed_def compare_plain_def Let_def)

lemma compareValues_plain: "compareValues rt co (SortVal a) (SortVal b) descending = compare_plain rt co a b descending"
  by (simp add: compareValues_def)

lemma values_comparator:
  assumes "proper_collators co"
  shows "js_strict_comparator (\<lambda>a b. compareValues rt co (SortVal a) (SortVal b) descending)"
proof -
  have "js_strict_comparator (\<lambda>a b. compare_plain rt co a b False)"
    by (rule sgn_comparator [OF plain_comparator [OF assms]]) (rule compare_plain_sign [OF assms])
  moreover have "(\<lambda>a b. compareValues rt co (SortVal a) (SortVal b) descending) =
      directed descending (\<lambda>a b. compare_plain rt co a b False)"
    by (intro ext) (unfold compareValues_plain, rule compare_plain_directed)
  ultimately show ?thesis using directed_comparator by metis
qed

text \<open>The keys of real entries: values only, no scan ends.\<close>

type_synonym entry_key = "bool \<times> js_value list \<times> string \<times> string"

definition view_key :: "entry_key \<Rightarrow> view_sort_key" where
  "view_key k = (case k of (isCategory, vals, origin, docId) \<Rightarrow>
     \<lparr> vk_isCategory = isCategory, vk_values = map SortVal vals, vk_origin = origin, vk_docId = docId \<rparr>)"

definition key_column :: "nat \<Rightarrow> entry_key \<Rightarrow> js_value" where
  "key_column i k = (case k of (_, vals, _, _) \<Rightarrow> if i < length vals then vals ! i else JNull)"

lemma column_value_key: "column_value (view_key k) i = SortVal (key_column i k)"
  by (cases k) (simp add: column_value_def view_key_def key_column_def)

definition origin_rank :: "string \<Rightarrow> int" where
  "origin_rank org = (if org = LOW_ORIGIN then 0 else if org = HIGH_ORIGIN then 2 else 1)"

definition origin_order :: "collators \<Rightarrow> view_sort_key \<Rightarrow> view_sort_key \<Rightarrow> int" where
  "origin_order co =
     then_cmp (\<lambda>a b. compare_by (origin_rank (vk_origin a)) (origin_rank (vk_origin b)))
       (then_cmp (\<lambda>a b. co_locale co (if origin_rank (vk_origin a) = 1 then vk_origin a else '''')
                                      (if origin_rank (vk_origin b) = 1 then vk_origin b else ''''))
          (\<lambda>a b. co_locale co (if origin_rank (vk_origin a) = 1 then vk_docId a else '''')
                               (if origin_rank (vk_origin b) = 1 then vk_docId b else '''')))"

lemma origin_comparator:
  assumes "proper_collators co"
  shows "js_strict_comparator (origin_order co)"
proof -
  have "js_strict_comparator (co_locale co)"
    using assms strict_collation_comparator by (simp add: proper_collators_def)
  then show ?thesis
    unfolding origin_order_def
    by (intro then_comparator) (auto intro: js_strict_comparator.on_image code_unit_order.js_strict_comparator_axioms)
qed

lemma compareOrigin_order:
  assumes "proper_collators co"
  shows "compareOriginAndDocId co = origin_order co"
proof (intro ext)
  fix a b
  have "co_locale co x x = 0" for x
    using assms js_strict_comparator.self [OF strict_collation_comparator] by (simp add: proper_collators_def)
  moreover have "LOW_ORIGIN \<noteq> HIGH_ORIGIN" by (simp add: LOW_ORIGIN_def HIGH_ORIGIN_def)
  ultimately show "compareOriginAndDocId co a b = origin_order co a b"
    by (auto simp: compareOriginAndDocId_def origin_order_def then_cmp_def origin_rank_def compare_by_def Let_def)
qed

text \<open>One level: categories against documents, then the columns, then origin and id.\<close>

definition null_rank :: "js_value \<Rightarrow> int" where
  "null_rank v = (if js_nullish v then 1 else 0)"

definition category_order :: "js_runtime \<Rightarrow> collators \<Rightarrow> key_comparator \<Rightarrow> entry_key \<Rightarrow> entry_key \<Rightarrow> int" where
  "category_order rt co kc =
     then_cmp (directed (kc_categoryOrderDescending kc) (\<lambda>a b. compare_by (null_rank (key_column 0 a)) (null_rank (key_column 0 b))))
       (then_cmp (\<lambda>a b. compareValues rt co (SortVal (key_column 0 a)) (SortVal (key_column 0 b)) (kc_categoryOrderDescending kc))
          (\<lambda>a b. origin_order co (view_key a) (view_key b)))"

definition document_order :: "js_runtime \<Rightarrow> collators \<Rightarrow> key_comparator \<Rightarrow> nat \<Rightarrow> entry_key \<Rightarrow> entry_key \<Rightarrow> int" where
  "document_order rt co kc n =
     foldr then_cmp
       (map (\<lambda>i a b. compareValues rt co (SortVal (key_column i a)) (SortVal (key_column i b)) (column_descending kc i)) [0..<n])
       (\<lambda>a b. origin_order co (view_key a) (view_key b))"

definition level_order :: "js_runtime \<Rightarrow> collators \<Rightarrow> key_comparator \<Rightarrow> nat \<Rightarrow> entry_key \<Rightarrow> entry_key \<Rightarrow> int" where
  "level_order rt co kc n =
     then_cmp (directed (kc_categoriesOnTopOfDocuments kc) (\<lambda>a b. compare_by (if fst a then 1 else 0 :: int) (if fst b then 1 else 0)))
       (\<lambda>a b. if fst a \<and> fst b then category_order rt co kc a b else document_order rt co kc n a b)"

lemma category_comparator:
  "proper_collators co \<Longrightarrow> js_strict_comparator (category_order rt co kc)"
  unfolding category_order_def
  by (intro then_comparator directed_comparator js_strict_comparator.on_image [OF values_comparator]
      js_strict_comparator.on_image [OF origin_comparator]
      js_strict_comparator.on_image [OF code_unit_order.js_strict_comparator_axioms])

lemma document_comparator:
  "proper_collators co \<Longrightarrow> js_strict_comparator (document_order rt co kc n)"
  unfolding document_order_def
  by (intro foldr_then_comparator)
    (auto intro: js_strict_comparator.on_image [OF values_comparator] js_strict_comparator.on_image [OF origin_comparator])

lemma nullish_values_equal:
  "js_nullish a \<Longrightarrow> js_nullish b \<Longrightarrow> compareValues rt co (SortVal a) (SortVal b) descending = 0"
  by (auto simp: compareValues_plain compare_plain_def empty_as_null_def js_nullish_def Let_def)

lemma first_value_key: "first_value (view_key k) = SortVal (key_column 0 k)"
  by (cases k) (simp add: first_value_def view_key_def key_column_def)

lemma compareCategories_order:
  assumes "proper_collators co"
  shows "compareCategories rt co kc (view_key a) (view_key b) = category_order rt co kc a b"
  using nullish_values_equal [of "key_column 0 a" "key_column 0 b" rt co "kc_categoryOrderDescending kc"]
  by (simp add: compareCategories_def first_value_key null_value_def compareOrigin_order [OF assms]
      category_order_def then_cmp_def directed_def null_rank_def compare_by_def Let_def)

lemma compare_columns_order:
  assumes "proper_collators co"
  shows "compare_columns rt co kc (view_key a) (view_key b) is =
    foldr then_cmp
       (map (\<lambda>i a b. compareValues rt co (SortVal (key_column i a)) (SortVal (key_column i b)) (column_descending kc i)) is)
       (\<lambda>a b. origin_order co (view_key a) (view_key b)) a b"
  by (induction "is") (simp_all add: compareOrigin_order [OF assms] column_value_key then_cmp_def Let_def)

lemma document_order_longer:
  assumes "length (fst (snd a)) \<le> m" "length (fst (snd b)) \<le> m"
  shows "document_order rt co kc (m + k) a b = document_order rt co kc m a b"
proof (induction k)
  case (Suc k)
  have null: "key_column i a = JNull" "key_column i b = JNull" if "m \<le> i" for i
    using assms that by (cases a; cases b; simp add: key_column_def)+
  have step: "foldr then_cmp (cs @ [c]) d a b = foldr then_cmp cs d a b" if "c a b = 0" for cs and c d :: "entry_key \<Rightarrow> entry_key \<Rightarrow> int"
    using that by (induction cs) (simp_all add: then_cmp_def Let_def)
  have "compareValues rt co (SortVal (key_column (m + k) a)) (SortVal (key_column (m + k) b)) (column_descending kc (m + k)) = 0"
    by (rule nullish_values_equal) (simp_all add: null js_nullish_def)
  moreover have "[0..<m + Suc k] = [0..<m + k] @ [m + k]" by simp
  ultimately show ?case
    using Suc unfolding document_order_def by (simp only: map_append list.map step)
qed simp

lemma compareDocuments_order:
  assumes "proper_collators co" and "length (fst (snd a)) \<le> n" and "length (fst (snd b)) \<le> n"
  shows "compareDocuments rt co kc (view_key a) (view_key b) = document_order rt co kc n a b"
proof -
  let ?m = "max (length (fst (snd a))) (length (fst (snd b)))"
  have len: "length (vk_values (view_key k)) = length (fst (snd k))" for k by (cases k) (simp add: view_key_def)
  have "compareDocuments rt co kc (view_key a) (view_key b) = document_order rt co kc ?m a b"
    unfolding compareDocuments_def compare_columns_order [OF assms(1)] document_order_def len ..
  also have "\<dots> = document_order rt co kc (?m + (n - ?m)) a b"
    by (rule document_order_longer [symmetric]) simp_all
  finally show ?thesis using assms(2,3) by (simp add: max_def split: if_splits)
qed

lemma compare_keys_order:
  assumes "proper_collators co" and "length (fst (snd a)) \<le> n" and "length (fst (snd b)) \<le> n"
  shows "compare_keys rt co kc (view_key a) (view_key b) = level_order rt co kc n a b"
proof -
  have "vk_isCategory (view_key k) = fst k" for k by (cases k) (simp add: view_key_def)
  then show ?thesis
    by (auto simp: compare_keys_def level_order_def then_cmp_def directed_def compare_by_def
        compareCategories_order [OF assms(1)] compareDocuments_order [OF assms] Let_def)
qed

lemma level_comparator:
  assumes "proper_collators co"
  shows "js_strict_comparator (level_order rt co kc n)"
proof -
  note cat = category_comparator [OF assms, of rt kc] and doc = document_comparator [OF assms, of rt kc n]
  note cs = js_strict_comparator.cmp_sign [OF cat] js_strict_comparator.cmp_sign [OF doc]
  note ct = js_comparator.cmp_trans [OF js_strict_comparator.axioms(1) [OF cat]]
    js_comparator.cmp_trans [OF js_strict_comparator.axioms(1) [OF doc]]
  note cl = js_comparator.cmp_total [OF js_strict_comparator.axioms(1) [OF cat]]
    js_comparator.cmp_total [OF js_strict_comparator.axioms(1) [OF doc]]
  let ?f = "\<lambda>a b. if fst a \<and> fst b then category_order rt co kc a b else document_order rt co kc n a b"
  have flag: "directed d (\<lambda>a b. compare_by (if fst a then 1 else 0 :: int) (if fst b then 1 else 0)) a b = 0 \<longleftrightarrow> fst a = fst b" for a b :: entry_key and d
    by (auto simp: directed_def compare_by_def)
  let ?d = "directed (kc_categoriesOnTopOfDocuments kc) (\<lambda>a b :: entry_key. compare_by (if fst a then 1 else 0 :: int) (if fst b then 1 else 0))"
  show ?thesis
  proof
    show "level_order rt co kc n x y \<le> 0 \<or> level_order rt co kc n y x \<le> 0" for x y
      using cl(1) [of x y] cl(2) [of x y]
      by (auto simp: level_order_def then_cmp_def directed_def compare_by_def Let_def)
    show "level_order rt co kc n x y < 0 \<longleftrightarrow> 0 < level_order rt co kc n y x" for x y
      using cs(1) [of x y] cs(2) [of x y]
      by (auto simp: level_order_def then_cmp_def directed_def compare_by_def Let_def)
    show "level_order rt co kc n x z \<le> 0" if "level_order rt co kc n x y \<le> 0" "level_order rt co kc n y z \<le> 0" for x y z
      using that ct(1) [of x y z] ct(2) [of x y z]
      by (auto simp: level_order_def then_cmp_def directed_def compare_by_def Let_def split: if_splits)
  qed
qed

text \<open>
  C40. The comparator of a view level is an order, and it separates documents. For collators that
  behave as documented, comparing the keys of entries is total, transitive and antisymmetric in
  sign, whatever mix of numbers, texts, empty values and objects the columns hold, however many
  values each key has, and in whatever directions the columns are sorted; and two entries compare
  as equal only if they are both categories or both documents of the same origin and id.
\<close>

theorem view_level_order:
  assumes "proper_collators co"
  shows "js_strict_comparator (\<lambda>a b. compare_keys rt co kc (view_key a) (view_key b)) \<and>
    (\<forall>a b. compare_keys rt co kc (view_key a) (view_key b) \<noteq> 0 \<or> fst a = fst b \<and>
       (origin_rank (fst (snd (snd a))) \<noteq> 1 \<or> snd (snd a) = snd (snd b)))"
proof
  let ?c = "\<lambda>a b. compare_keys rt co kc (view_key a) (view_key b)"
  let ?n = "\<lambda>a b c. length (fst (snd a)) + length (fst (snd b)) + length (fst (snd (c :: entry_key)))"
  have c: "?c a b = level_order rt co kc (?n a b d) a b" "?c b d = level_order rt co kc (?n a b d) b d"
    "?c a d = level_order rt co kc (?n a b d) a d" "?c b a = level_order rt co kc (?n a b d) b a" for a b d :: entry_key
    by (intro compare_keys_order [OF assms]; simp)+
  note L = level_comparator [OF assms, of rt kc]
  note LC = js_strict_comparator.axioms(1) [OF L]
  show "js_strict_comparator ?c"
  proof
    show "?c x z \<le> 0" if "?c x y \<le> 0" "?c y z \<le> 0" for x y z
      using that js_comparator.cmp_trans [OF LC, of "?n x y z" x y z]
      by (simp only: c(1) [of x y z] c(2) [of y z x] c(3) [of x z y])
    show "?c x y \<le> 0 \<or> ?c y x \<le> 0" for x y
      using js_comparator.cmp_total [OF LC, of "?n x y y" x y]
      by (simp only: c(1) [of x y y] c(4) [of y x y])
    show "?c x y < 0 \<longleftrightarrow> 0 < ?c y x" for x y
      using js_strict_comparator.cmp_sign [OF L, of "?n x y y" x y]
      by (simp only: c(1) [of x y y] c(4) [of y x y])
  qed
  show "\<forall>a b. ?c a b \<noteq> 0 \<or> fst a = fst b \<and> (origin_rank (fst (snd (snd a))) \<noteq> 1 \<or> snd (snd a) = snd (snd b))"
  proof (intro allI)
    fix a b :: entry_key
    have "fst a = fst b \<and> origin_order co (view_key a) (view_key b) = 0" if z: "?c a b = 0"
      using z unfolding c(1) [of a b a]
      by (auto simp: level_order_def then_zero directed_zero category_order_def document_order_def foldr_then_zero
          compare_by_def split: if_splits)
    moreover have "origin_rank (fst (snd (snd a))) \<noteq> 1 \<or> snd (snd a) = snd (snd b)"
      if z: "origin_order co (view_key a) (view_key b) = 0"
    proof -
      have eq: "x = y" if "co_locale co x y = 0" for x y
      proof -
        have s: "strict_collation (co_locale co)" using assms by (simp add: proper_collators_def)
        have "co_locale co y x = 0"
          using that js_strict_comparator.zero_sym [OF strict_collation_comparator [OF s]] by blast
        then show ?thesis using collation.lc_eq [OF strict_collation.axioms(1) [OF s], of x y] that by simp
      qed
      have "vk_origin (view_key k) = fst (snd (snd k))" "vk_docId (view_key k) = snd (snd (snd k))" for k
        by (cases k; simp add: view_key_def)+
      then show ?thesis
        using z eq by (auto simp: origin_order_def then_zero compare_by_def prod_eq_iff split: if_splits)
    qed
    ultimately show "?c a b \<noteq> 0 \<or> fst a = fst b \<and> (origin_rank (fst (snd (snd a))) \<noteq> 1 \<or> snd (snd a) = snd (snd b))"
      by blast
  qed
qed

theorem view_level_order_witness:
  "compare_keys bare_runtime code_unit_collators (new_key_comparator DocumentThenCategory False [True])
     (view_key (False, [JNum 2, JStr ''''], ''o'', ''1'')) (view_key (False, [JNum 2, JNull], ''o'', ''2'')) \<noteq> 0"
proof -
  have "origin_rank ''o'' = 1" by (simp add: origin_rank_def LOW_ORIGIN_def HIGH_ORIGIN_def)
  moreover have "snd (snd (False, [JNum 2, JStr ''''], ''o'', ''1'')) \<noteq> snd (snd (False, [JNum 2, JNull], ''o'', ''2''))"
    by simp
  ultimately show ?thesis
    using view_level_order [OF code_unit_proper, of bare_runtime "new_key_comparator DocumentThenCategory False [True]"]
    by (metis fst_conv snd_conv)
qed

text \<open>Nulls come last in an ascending column and first in a descending one.\<close>

lemma nulls_first_when_descending:
  "compareValues bare_runtime code_unit_collators (SortVal JNull) (SortVal (JNum 1)) False = 1 \<and>
   compareValues bare_runtime code_unit_collators (SortVal JNull) (SortVal (JNum 1)) True = -1"
  by code_simp

end
