(* ===== verification/QueryExec.thy ===== *)
theory QueryExec
  imports SummaryStore SortOrder
begin

text \<open>
  Ad-hoc queries (\<^verbatim>\<open>core/query/executeQuery.ts\<close>, \<^verbatim>\<open>types.ts\<close>): the guardrails, the
  coverage check, the execution against the summary buffer and by a full scan, sorting and paging.
  The full-text index is an argument that gives the hits of a text clause; so are the decryption
  of a field's ciphertext by the tenant, the ISO text of a time, and the moments at which a run is
  aborted. The texts of errors are left out.
\<close>

section \<open>Queries and results\<close>

datatype sort_direction = Ascending | Descending

record query_sort_key =
  qs_field :: "string option"
  qs_expression :: "expr option"
  qs_textScore :: bool
  qs_direction :: "sort_direction option"

record text_clause =
  tc_query :: string
  tc_fields :: "string list option"
  tc_prefix :: "bool option"
  tc_fuzzy :: "js_value option"
  tc_combineWith :: "string option"

record query =
  q_filter :: "expr option"
  q_text :: "text_clause option"
  q_sortBy :: "query_sort_key list option"
  q_limit :: "int option"
  q_offset :: "int option"
  q_fields :: "string list option"

record query_row =
  qr_docId :: string
  qr_fields :: js_object
  qr_lastModified :: int
  qr_textScore :: "rat option"

record candidate_row = query_row +
  cr_sortValues :: "js_value list"

datatype query_coverage = SummaryCoverage summary_coverage | FullScanCoverage

record query_result =
  qx_rows :: "query_row list"
  qx_total :: nat
  qx_coverage :: query_coverage

datatype query_error =
    FulltextNotEnabled
  | ViewTreeOperations "expr_op list"
  | DecryptNeedsFullScan
  | FieldNotCovered string
  | AbortedUpdatingText
  | AbortedUpdatingSummary
  | AbortedFullScan
  | CancelledFullScan

text \<open>The full-text index after it has been brought up to date.\<close>

record text_index =
  ti_enabled :: bool
  ti_search :: "text_clause \<Rightarrow> (string \<times> rat) list"
  ti_coverage :: summary_coverage

text \<open>
  What a run meets: the index if the database has one, the origin, and the state of the abort
  signal after each await; during a full scan, by the number of documents processed.
\<close>

record query_env =
  qe_textIndex :: "text_index option"
  qe_origin :: string
  qe_abortedAfterText :: bool
  qe_abortedAfterSummary :: bool
  qe_abortedAt :: "nat \<Rightarrow> bool"
  qe_cancelledAt :: "nat \<Rightarrow> bool"
  qe_iso :: "int \<Rightarrow> string"
  qe_decryptPayload :: "string \<Rightarrow> string \<Rightarrow> string option"

section \<open>Preparation\<close>

definition resolveTextClauseScores ::
  "query_env \<Rightarrow> query \<Rightarrow> query_error + ((string, rat) jsmap \<times> text_index) option" where
  "resolveTextClauseScores env q =
     (case q_text q of
        None \<Rightarrow> Inr None
      | Some clause \<Rightarrow>
          (case qe_textIndex env of
             None \<Rightarrow> Inl FulltextNotEnabled
           | Some index \<Rightarrow>
               (if \<not> ti_enabled index then Inl FulltextNotEnabled
                else Inr (Some (foldl (\<lambda>scores (docId, score). AList.update docId score scores) [] (ti_search index clause), index)))))"

definition effectiveSortKeys :: "query \<Rightarrow> query_sort_key list" where
  "effectiveSortKeys q =
     (case q_sortBy q of
        Some (k # ks) \<Rightarrow> k # ks
      | _ \<Rightarrow>
          (if q_text q \<noteq> None
           then [\<lparr> qs_field = None, qs_expression = None, qs_textScore = True, qs_direction = Some Descending \<rparr>]
           else []))"

definition collectQueryExpressions :: "query \<Rightarrow> expr list" where
  "collectQueryExpressions q =
     (case q_filter q of Some e \<Rightarrow> [e] | None \<Rightarrow> []) @
     List.map_filter qs_expression (case q_sortBy q of Some ks \<Rightarrow> ks | None \<Rightarrow> [])"

fun validateQueryExpressions :: "expr list \<Rightarrow> bool \<Rightarrow> query_error option" where
  "validateQueryExpressions [] allowFullScan = None"
| "validateQueryExpressions (e # es) allowFullScan =
     (let requirements = analyzeExpressionRequirements e
      in if needsViewContext requirements then Some (ViewTreeOperations (viewContextOperations requirements))
         else if needsDecryption requirements \<and> \<not> allowFullScan then Some DecryptNeedsFullScan
         else validateQueryExpressions es allowFullScan)"

definition sortDirectionDescending :: "query_sort_key \<Rightarrow> bool" where
  "sortDirectionDescending k \<longleftrightarrow> qs_direction k = Some Descending"

definition compute_sort_value :: "js_runtime \<Rightarrow> eval_context \<Rightarrow> rat option \<Rightarrow> query_sort_key \<Rightarrow> js_value" where
  "compute_sort_value rt ctx textScore k =
     (if qs_textScore k then JNum (case textScore of Some s \<Rightarrow> s | None \<Rightarrow> 0)
      else case qs_expression k of
        Some e \<Rightarrow> evaluateExpression rt ctx e
      | None \<Rightarrow> getSummaryFieldValue rt (ec_doc ctx) (case qs_field k of Some f \<Rightarrow> f | None \<Rightarrow> ''''))"

definition computeSortValues :: "js_runtime \<Rightarrow> query_sort_key list \<Rightarrow> eval_context \<Rightarrow> rat option \<Rightarrow> js_value list" where
  "computeSortValues rt sortKeys ctx textScore = map (compute_sort_value rt ctx textScore) sortKeys"

section \<open>Sorting and paging\<close>

definition sort_value_at :: "candidate_row \<Rightarrow> nat \<Rightarrow> sort_value" where
  "sort_value_at c i = SortVal (if i < length (cr_sortValues c) then cr_sortValues c ! i else JUndefined)"

text \<open>The loop over the sort keys, from key \<open>i\<close>.\<close>

fun compare_candidates ::
  "js_runtime \<Rightarrow> collators \<Rightarrow> nat \<Rightarrow> query_sort_key list \<Rightarrow> candidate_row \<Rightarrow> candidate_row \<Rightarrow> int" where
  "compare_candidates rt co i [] left right = co_locale co (qr_docId left) (qr_docId right)"
| "compare_candidates rt co i (k # ks) left right =
     (let result = compareValues rt co (sort_value_at left i) (sort_value_at right i) (sortDirectionDescending k)
      in if result \<noteq> 0 then result else compare_candidates rt co (i + 1) ks left right)"

definition sorted_candidates ::
  "js_runtime \<Rightarrow> collators \<Rightarrow> query_sort_key list \<Rightarrow> candidate_row list \<Rightarrow> candidate_row list" where
  "sorted_candidates rt co sortKeys candidates =
     (if length sortKeys > 0 then js_sort (compare_candidates rt co 0 sortKeys) candidates else candidates)"

definition row_of :: "candidate_row \<Rightarrow> query_row" where
  "row_of c = query_row.truncate c"

definition sortAndPage ::
  "js_runtime \<Rightarrow> collators \<Rightarrow> candidate_row list \<Rightarrow> query \<Rightarrow> query_sort_key list \<Rightarrow> query_row list \<times> nat" where
  "sortAndPage rt co candidates q sortKeys =
     (let all = sorted_candidates rt co sortKeys candidates;
          offset = nat (max 0 (case q_offset q of Some n \<Rightarrow> n | None \<Rightarrow> 0));
          paged = (case q_limit q of None \<Rightarrow> drop offset all | Some l \<Rightarrow> take (nat (max 0 l)) (drop offset all))
      in (map row_of paged, length all))"

definition projectFields :: "js_runtime \<Rightarrow> js_object \<Rightarrow> string list option \<Rightarrow> js_object" where
  "projectFields rt flds projection =
     (case projection of
        None \<Rightarrow> flds
      | Some paths \<Rightarrow>
          foldl (\<lambda>projected path.
              let v = getSummaryFieldValue rt flds path
              in if v \<noteq> JUndefined then AList.update path v projected else projected) [] paths)"

section \<open>The summary path\<close>

definition referenced_paths :: "query \<Rightarrow> string list" where
  "referenced_paths q =
     js_dedup (concat (map getReferencedFields (collectQueryExpressions q)) @
       List.map_filter (\<lambda>k. if qs_expression k = None then
           (case qs_field k of Some f \<Rightarrow> if f \<noteq> '''' then Some f else None | None \<Rightarrow> None) else None)
         (case q_sortBy q of Some ks \<Rightarrow> ks | None \<Rightarrow> []))"

text \<open>The score of a document, and whether it takes part at all.\<close>

definition text_score :: "(string, rat) jsmap option \<Rightarrow> string \<Rightarrow> rat option option" where
  "text_score scores docId =
     (case scores of
        None \<Rightarrow> Some None
      | Some m \<Rightarrow> (case map_of m docId of None \<Rightarrow> None | Some s \<Rightarrow> Some (Some s)))"

definition passes_filter :: "js_runtime \<Rightarrow> query \<Rightarrow> eval_context \<Rightarrow> bool" where
  "passes_filter rt q ctx \<longleftrightarrow>
     (case q_filter q of None \<Rightarrow> True | Some e \<Rightarrow> expressionToBoolean (evaluateExpression rt ctx e))"

definition summary_context :: "query_env \<Rightarrow> summary_entry \<Rightarrow> eval_context" where
  "summary_context env entry =
     \<lparr> ec_doc = buildSummaryEvaluationDoc (se_fields entry) (Some (of_int (se_lastModified entry))),
       ec_values = [], ec_origin = qe_origin env, ec_createdAt = None,
       ec_lastModifiedAt = Some (qe_iso env (se_lastModified entry)),
       ec_decryptionKeyId = se_decryptionKeyId entry, ec_witnessed = None, ec_awaitingWitness = None,
       ec_counts = [], ec_variables = [], ec_decrypted = None \<rparr>"

definition new_candidate ::
  "js_runtime \<Rightarrow> query \<Rightarrow> query_sort_key list \<Rightarrow> string \<Rightarrow> int \<Rightarrow> rat option \<Rightarrow> eval_context \<Rightarrow> candidate_row" where
  "new_candidate rt q sortKeys docId lastModified textScore ctx =
     \<lparr> qr_docId = docId, qr_fields = projectFields rt (ec_doc ctx) (q_fields q), qr_lastModified = lastModified,
       qr_textScore = textScore, cr_sortValues = computeSortValues rt sortKeys ctx textScore \<rparr>"

definition candidate_of_entry ::
  "js_runtime \<Rightarrow> query_env \<Rightarrow> query \<Rightarrow> (string, rat) jsmap option \<Rightarrow> summary_entry \<Rightarrow> candidate_row option" where
  "candidate_of_entry rt env q scores entry =
     (case text_score scores (se_docId entry) of
        None \<Rightarrow> None
      | Some textScore \<Rightarrow>
          (let ctx = summary_context env entry
           in if \<not> passes_filter rt q ctx then None
              else Some (new_candidate rt q (effectiveSortKeys q) (se_docId entry) (se_lastModified entry) textScore ctx)))"

text \<open>The store is given as it is when the query starts and as it is after its update.\<close>

definition execute_on_summary ::
  "js_runtime \<Rightarrow> collators \<Rightarrow> query_env \<Rightarrow> summary_store \<Rightarrow> summary_store \<Rightarrow> query \<Rightarrow> query_error + query_result" where
  "execute_on_summary rt co env summary updated q =
     (case validateQueryExpressions (collectQueryExpressions q) False of
        Some e \<Rightarrow> Inl e
      | None \<Rightarrow>
          (case find (\<lambda>path. \<not> isFieldPathCovered path (ss_config summary)) (referenced_paths q) of
             Some path \<Rightarrow> Inl (FieldNotCovered path)
           | None \<Rightarrow>
               (case resolveTextClauseScores env q of
                  Inl e \<Rightarrow> Inl e
                | Inr textMatch \<Rightarrow>
                    (if qe_abortedAfterText env then Inl AbortedUpdatingText
                     else if qe_abortedAfterSummary env then Inl AbortedUpdatingSummary
                     else
                       (let candidates = List.map_filter (candidate_of_entry rt env q (map_option fst textMatch))
                              (map_values (ss_entries updated));
                            (rows, total) = sortAndPage rt co candidates q (effectiveSortKeys q);
                            coverage = (case textMatch of
                                Some (_, index) \<Rightarrow> if ti_coverage index = Rebuilding then Rebuilding else getCoverage updated
                              | None \<Rightarrow> getCoverage updated)
                        in Inr \<lparr> qx_rows = rows, qx_total = total, qx_coverage = SummaryCoverage coverage \<rparr>)))))"

section \<open>The full scan\<close>

text \<open>What the scan reads of a materialized document beyond what the summary reads.\<close>

record query_doc = doc_view +
  qd_createdAt :: int
  qd_witnessed :: bool
  qd_awaitingWitness :: bool

definition DEFAULT_TENANT_KEY_ID :: string where "DEFAULT_TENANT_KEY_ID = ''default''"

definition getEncryptedFieldKeyId :: "js_runtime \<Rightarrow> js_object \<Rightarrow> string \<Rightarrow> string option \<Rightarrow> string" where
  "getEncryptedFieldKeyId rt data encryptedFieldName override =
     (case override of
        Some k \<Rightarrow> if js_trim k \<noteq> '''' then k else
          (case js_string (member_get (rt_proto rt) (JObj data) (encryptedFieldName @ ''_key'')) of
             Some companion \<Rightarrow> if js_trim companion \<noteq> '''' then companion else DEFAULT_TENANT_KEY_ID
           | None \<Rightarrow> DEFAULT_TENANT_KEY_ID)
      | None \<Rightarrow>
          (case js_string (member_get (rt_proto rt) (JObj data) (encryptedFieldName @ ''_key'')) of
             Some companion \<Rightarrow> if js_trim companion \<noteq> '''' then companion else DEFAULT_TENANT_KEY_ID
           | None \<Rightarrow> DEFAULT_TENANT_KEY_ID))"

definition decryptEncryptedField :: "js_runtime \<Rightarrow> query_env \<Rightarrow> js_object \<Rightarrow> string \<Rightarrow> string option \<Rightarrow> js_value" where
  "decryptEncryptedField rt env data encryptedFieldName keyIdOverride =
     (case js_string (member_get (rt_proto rt) (JObj data) encryptedFieldName) of
        None \<Rightarrow> JNull
      | Some ciphertext \<Rightarrow>
          (if ciphertext = '''' then JNull
           else case qe_decryptPayload env ciphertext (getEncryptedFieldKeyId rt data encryptedFieldName keyIdOverride) of
             None \<Rightarrow> JNull
           | Some plaintext \<Rightarrow> JStr plaintext))"

definition key_override :: "js_runtime \<Rightarrow> eval_context \<Rightarrow> expr option \<Rightarrow> string option" where
  "key_override rt ctx key =
     (case key of
        None \<Rightarrow> None
      | Some e \<Rightarrow> (let s = js_text rt (evaluateExpression rt ctx e) in if s \<noteq> '''' then Some s else None))"

definition resolveDecryptedFields ::
  "js_runtime \<Rightarrow> query_env \<Rightarrow> (string \<times> expr option) list \<Rightarrow> js_object \<Rightarrow> eval_context \<Rightarrow> js_object option" where
  "resolveDecryptedFields rt env requests data ctx =
     (if length requests = 0 then None
      else Some (foldl (\<lambda>decrypted (field, key).
             if map_has decrypted field \<or> rt_proto rt (JObj decrypted) field \<noteq> JUndefined then decrypted
             else AList.update field (decryptEncryptedField rt env data field (key_override rt ctx key)) decrypted)
           [] requests))"

definition scan_context :: "query_env \<Rightarrow> query_doc \<Rightarrow> eval_context" where
  "scan_context env doc =
     \<lparr> ec_doc = dv_data doc, ec_values = [], ec_origin = qe_origin env,
       ec_createdAt = Some (qe_iso env (qd_createdAt doc)),
       ec_lastModifiedAt = Some (qe_iso env (dv_lastModified doc)),
       ec_decryptionKeyId = dv_decryptionKeyId doc, ec_witnessed = Some (qd_witnessed doc),
       ec_awaitingWitness = Some (qd_awaitingWitness doc),
       ec_counts = [], ec_variables = [], ec_decrypted = None \<rparr>"

definition candidate_of_doc ::
  "js_runtime \<Rightarrow> query_env \<Rightarrow> query \<Rightarrow> (string, rat) jsmap option \<Rightarrow> (string \<times> expr option) list \<Rightarrow>
   query_doc \<Rightarrow> candidate_row option" where
  "candidate_of_doc rt env q scores requests doc =
     (if dv_isDeleted doc then None
      else case text_score scores (dv_id doc) of
        None \<Rightarrow> None
      | Some textScore \<Rightarrow>
          (let baseContext = scan_context env doc;
               ctx = baseContext \<lparr> ec_decrypted := resolveDecryptedFields rt env requests (dv_data doc) baseContext \<rparr>
           in if \<not> passes_filter rt q ctx then None
              else Some (new_candidate rt q (effectiveSortKeys q) (dv_id doc) (dv_lastModified doc) textScore ctx)))"

text \<open>The loop over the change feed, after \<open>processed\<close> documents.\<close>

fun scan_documents ::
  "js_runtime \<Rightarrow> query_env \<Rightarrow> query \<Rightarrow> (string, rat) jsmap option \<Rightarrow> (string \<times> expr option) list \<Rightarrow>
   nat \<Rightarrow> query_doc list \<Rightarrow> candidate_row list \<Rightarrow> query_error + candidate_row list" where
  "scan_documents rt env q scores requests processed [] candidates = Inr candidates"
| "scan_documents rt env q scores requests processed (doc # docs) candidates =
     (if qe_abortedAt env (processed + 1) then Inl AbortedFullScan
      else if qe_cancelledAt env (processed + 1) then Inl CancelledFullScan
      else scan_documents rt env q scores requests (processed + 1) docs
        (candidates @ (case candidate_of_doc rt env q scores requests doc of Some c \<Rightarrow> [c] | None \<Rightarrow> [])))"

definition executeFullScanQuery ::
  "js_runtime \<Rightarrow> collators \<Rightarrow> query_env \<Rightarrow> query_doc list \<Rightarrow> query \<Rightarrow> expr list \<Rightarrow> query_error + query_result" where
  "executeFullScanQuery rt co env docs q expressions =
     (case resolveTextClauseScores env q of
        Inl e \<Rightarrow> Inl e
      | Inr textMatch \<Rightarrow>
          (case scan_documents rt env q (map_option fst textMatch) (concat (map collectDecryptRequests expressions)) 0 docs [] of
             Inl e \<Rightarrow> Inl e
           | Inr candidates \<Rightarrow>
               (let (rows, total) = sortAndPage rt co candidates q (effectiveSortKeys q)
                in Inr \<lparr> qx_rows = rows, qx_total = total, qx_coverage = FullScanCoverage \<rparr>)))"

definition executeQuery ::
  "js_runtime \<Rightarrow> collators \<Rightarrow> query_env \<Rightarrow> bool \<Rightarrow> summary_store \<Rightarrow> summary_store \<Rightarrow> query_doc list \<Rightarrow> query \<Rightarrow>
   query_error + query_result" where
  "executeQuery rt co env allowFullScan summary updated docs q =
     (if allowFullScan then
        (case validateQueryExpressions (collectQueryExpressions q) True of
           Some e \<Rightarrow> Inl e
         | None \<Rightarrow> executeFullScanQuery rt co env docs q (collectQueryExpressions q))
      else execute_on_summary rt co env summary updated q)"

section \<open>The order of candidates\<close>

definition candidate_value :: "nat \<Rightarrow> candidate_row \<Rightarrow> js_value" where
  "candidate_value i c = (if i < length (cr_sortValues c) then cr_sortValues c ! i else JUndefined)"

lemma compare_candidates_order:
  "compare_candidates rt co i keys = foldr then_cmp
     (map (\<lambda>(j, k) l r. compareValues rt co (SortVal (candidate_value j l)) (SortVal (candidate_value j r)) (sortDirectionDescending k))
        (enumerate i keys))
     (\<lambda>l r. co_locale co (qr_docId l) (qr_docId r))"
  by (induction keys arbitrary: i) (auto intro!: ext simp: then_cmp_def sort_value_at_def candidate_value_def Let_def)

lemma candidates_comparator:
  assumes "proper_collators co"
  shows "js_strict_comparator (compare_candidates rt co i keys)"
proof -
  have "js_strict_comparator (co_locale co)"
    using assms strict_collation_comparator by (simp add: proper_collators_def)
  then show ?thesis
    unfolding compare_candidates_order
    by (intro foldr_then_comparator)
      (auto intro: js_strict_comparator.on_image [OF values_comparator [OF assms]] js_strict_comparator.on_image)
qed

section \<open>Candidates, and the pages of a result\<close>

lemma scan_documents_candidates:
  "scan_documents rt env q scores requests processed docs candidates = Inr cs \<Longrightarrow>
     cs = candidates @ List.map_filter (candidate_of_doc rt env q scores requests) docs"
proof (induction docs arbitrary: processed candidates)
  case (Cons d ds)
  then show ?case
    by (cases "candidate_of_doc rt env q scores requests d")
      (force simp: List.map_filter_simps split: if_splits)+
qed (simp add: List.map_filter_simps)

text \<open>The documents that take part in a query that is answered, in the order they are met.\<close>

definition query_scores :: "query_env \<Rightarrow> query \<Rightarrow> (string, rat) jsmap option" where
  "query_scores env q = (case resolveTextClauseScores env q of Inr m \<Rightarrow> map_option fst m | Inl e \<Rightarrow> None)"

definition query_matches ::
  "js_runtime \<Rightarrow> query_env \<Rightarrow> bool \<Rightarrow> summary_store \<Rightarrow> query_doc list \<Rightarrow> query \<Rightarrow> candidate_row list" where
  "query_matches rt env allowFullScan updated docs q =
     (if allowFullScan
      then List.map_filter (candidate_of_doc rt env q (query_scores env q)
             (concat (map collectDecryptRequests (collectQueryExpressions q)))) docs
      else List.map_filter (candidate_of_entry rt env q (query_scores env q)) (map_values (ss_entries updated)))"

lemma executeQuery_matches:
  assumes "executeQuery rt co env full summary updated docs q = Inr r"
  shows "(qx_rows r, qx_total r) =
    sortAndPage rt co (query_matches rt env full updated docs q) q (effectiveSortKeys q)"
  using assms
  by (auto simp: executeQuery_def execute_on_summary_def executeFullScanQuery_def query_matches_def query_scores_def
      Let_def dest!: scan_documents_candidates split: option.splits sum.splits if_splits prod.splits)

text \<open>Limit and offset only cut the result.\<close>

lemma unpaged [simp]:
  "collectQueryExpressions (q \<lparr> q_limit := l, q_offset := off \<rparr>) = collectQueryExpressions q"
  "effectiveSortKeys (q \<lparr> q_limit := l, q_offset := off \<rparr>) = effectiveSortKeys q"
  "referenced_paths (q \<lparr> q_limit := l, q_offset := off \<rparr>) = referenced_paths q"
  "resolveTextClauseScores env (q \<lparr> q_limit := l, q_offset := off \<rparr>) = resolveTextClauseScores env q"
  "query_scores env (q \<lparr> q_limit := l, q_offset := off \<rparr>) = query_scores env q"
  by (cases "q_text q"; simp add: collectQueryExpressions_def effectiveSortKeys_def referenced_paths_def
      resolveTextClauseScores_def query_scores_def)+

lemma unpaged_candidates [simp]:
  "candidate_of_entry rt env (q \<lparr> q_limit := l, q_offset := off \<rparr>) = candidate_of_entry rt env q"
  "candidate_of_doc rt env (q \<lparr> q_limit := l, q_offset := off \<rparr>) = candidate_of_doc rt env q"
  unfolding candidate_of_entry_def [abs_def] candidate_of_doc_def [abs_def] passes_filter_def [abs_def] new_candidate_def [abs_def]
  by (simp_all cong: if_cong option.case_cong)

lemma unpaged_scan [simp]:
  "scan_documents rt env (q \<lparr> q_limit := l, q_offset := off \<rparr>) scores requests n docs cs = scan_documents rt env q scores requests n docs cs"
  by (induction rt env q scores requests n docs cs rule: scan_documents.induct) simp_all

lemma paged_answer:
  assumes "executeQuery rt co env full summary updated docs (q \<lparr> q_limit := l, q_offset := off \<rparr>) = Inr r"
  shows "\<exists>p. executeQuery rt co env full summary updated docs (q \<lparr> q_limit := l', q_offset := off' \<rparr>) = Inr p"
  using assms
  by (auto simp: executeQuery_def execute_on_summary_def executeFullScanQuery_def Let_def
      split: option.splits sum.splits if_splits prod.splits)

lemma unpaged_matches [simp]:
  "query_matches rt env full updated docs (q \<lparr> q_limit := l, q_offset := off \<rparr>) = query_matches rt env full updated docs q"
  by (simp add: query_matches_def)

text \<open>
  What a query returns. The rows of a query without paging are the matching documents, each
  as often as it is listed, ordered by the sort keys and then by id; the total is their number. A
  query with limit \<open>n\<close> and offset \<open>n * i\<close> answers whenever the unpaged one does, returns exactly
  the rows from \<open>n * i\<close> to \<open>n * i + n\<close> of it, and reports the same total, so the pages put
  together are the whole result.
\<close>

theorem query_pages_complete:
  assumes "proper_collators co"
    and "executeQuery rt co env full summary updated docs (q \<lparr> q_limit := None, q_offset := None \<rparr>) = Inr r"
  shows "(\<exists>cs. qx_rows r = map row_of cs \<and> qx_total r = length cs \<and>
      mset cs = mset (query_matches rt env full updated docs q) \<and>
      (effectiveSortKeys q \<noteq> [] \<longrightarrow>
        sorted_wrt (\<lambda>a b. compare_candidates rt co 0 (effectiveSortKeys q) a b \<le> 0) cs)) \<and>
    (\<forall>i. \<exists>p. executeQuery rt co env full summary updated docs
          (q \<lparr> q_limit := Some (int n), q_offset := Some (int (n * i)) \<rparr>) = Inr p \<and>
        qx_total p = qx_total r \<and> qx_rows p = take n (drop (n * i) (qx_rows r)))"
proof (intro conjI allI)
  let ?keys = "effectiveSortKeys q" and ?m = "query_matches rt env full updated docs q"
  note C = js_strict_comparator.axioms(1) [OF candidates_comparator [OF assms(1), of rt 0 ?keys]]
  have r: "qx_rows r = map row_of (sorted_candidates rt co ?keys ?m)" "qx_total r = length (sorted_candidates rt co ?keys ?m)"
    using executeQuery_matches [OF assms(2)] by (simp_all add: sortAndPage_def Let_def)
  show "\<exists>cs. qx_rows r = map row_of cs \<and> qx_total r = length cs \<and> mset cs = mset ?m \<and>
      (?keys \<noteq> [] \<longrightarrow> sorted_wrt (\<lambda>a b. compare_candidates rt co 0 ?keys a b \<le> 0) cs)"
    using js_comparator.js_sort_sorted [OF C, of ?m] r
    by (intro exI [of _ "sorted_candidates rt co ?keys ?m"]) (simp add: sorted_candidates_def)
  show "\<exists>p. executeQuery rt co env full summary updated docs
          (q \<lparr> q_limit := Some (int n), q_offset := Some (int (n * i)) \<rparr>) = Inr p \<and>
        qx_total p = qx_total r \<and> qx_rows p = take n (drop (n * i) (qx_rows r))" for i
  proof -
    obtain p where p: "executeQuery rt co env full summary updated docs
        (q \<lparr> q_limit := Some (int n), q_offset := Some (int (n * i)) \<rparr>) = Inr p"
      using paged_answer [OF assms(2)] by blast
    have "qx_total p = qx_total r \<and> qx_rows p = take n (drop (n * i) (qx_rows r))"
      using executeQuery_matches [OF p] by (simp add: r sortAndPage_def Let_def take_map drop_map nat_mult_distrib)
    then show ?thesis using p by blast
  qed
qed

section \<open>Where the two paths differ\<close>

definition query_env_of :: "text_index option \<Rightarrow> query_env" where
  "query_env_of index =
     \<lparr> qe_textIndex = index, qe_origin = ''t/db'', qe_abortedAfterText = False, qe_abortedAfterSummary = False,
       qe_abortedAt = \<lambda>n. False, qe_cancelledAt = \<lambda>n. False, qe_iso = \<lambda>t. ''2026'', qe_decryptPayload = \<lambda>c k. None \<rparr>"

definition filter_query :: "expr \<Rightarrow> query" where
  "filter_query e =
     \<lparr> q_filter = Some e, q_text = None, q_sortBy = None, q_limit = None, q_offset = None, q_fields = None \<rparr>"

definition status_open :: expr where
  "status_open = Operation Op_eq [Field ''status'', Literal (JStr ''open'')] None"

definition task_doc :: query_doc where
  "task_doc =
     \<lparr> dv_id = ''d1'', dv_isDeleted = False, dv_data = [(''title'', JStr ''x''), (''status'', JStr ''open'')],
       dv_lastModified = 5, dv_decryptionKeyId = None, qd_createdAt = 3, qd_witnessed = True, qd_awaitingWitness = False \<rparr>"

text \<open>
  The coverage check runs before the first update has read the setup document. A query on a field
  that the setup excludes passes the check against the default configuration, is answered without
  an error, and misses the document that the full scan finds.
\<close>

lemma coverage_checked_before_setup:
  fixes title_only summary updated
  defines "title_only \<equiv> [(SUMMARY_SETUP_FIELD, JObj [(''autoInclude'', JBool False), (''include'', JArr [JStr ''title''])])]"
    and "summary \<equiv> new_summary_store None"
    and "updated \<equiv> applyDocument bare_runtime (\<lambda>v. Some 1) (doc_view.truncate task_doc)
      \<lparr> cc_changeSeq = Some 1, cc_docId = ''d1'' \<rparr> (seedConfigFromSetupDoc (Some title_only) summary)"
  shows "isFieldPathCovered ''status'' (ss_config updated) = False"
    and "executeQuery bare_runtime code_unit_collators (query_env_of None) False summary updated [task_doc] (filter_query status_open) =
      Inr \<lparr> qx_rows = [], qx_total = 0, qx_coverage = SummaryCoverage FullCoverage \<rparr>"
    and "map_sum id qx_total (executeQuery bare_runtime code_unit_collators (query_env_of None) True summary updated [task_doc]
      (filter_query status_open)) = Inr 1"
  unfolding assms by code_simp+

text \<open>
  A summary has no creation time and no witness status: an expression that reads them passes every
  check on the summary path and is answered as if the document had none.
\<close>

lemma creation_unknown_on_summary:
  "evaluateExpression rt (summary_context env entry) (Operation Op_createdAt [] None) = JNull"
  "evaluateExpression rt (summary_context env entry) (Operation Op_isWitnessed [] None) = JBool False"
  "evaluateExpression rt (scan_context env doc) (Operation Op_createdAt [] None) = JStr (qe_iso env (qd_createdAt doc))"
  "evaluateExpression rt (scan_context env doc) (Operation Op_isWitnessed [] None) = JBool (qd_witnessed doc)"
  "validateQueryExpressions [Operation Op_createdAt [] None, Operation Op_isWitnessed [] None] False = None"
  by (simp_all add: summary_context_def scan_context_def apply_operation_def or_null_def) code_simp

end
