(* ===== verification/Spec2Isabelle.thy ===== *)
theory Spec2Isabelle
  imports StoreBehaviour Bloom MaterializationPlanner AttachmentReadPlanner BinaryFraming EntryWireCodec
    AccessEvaluate TimeTravelIndex Quarantine WitnessReceipts SyncProperties DagAnalysis AuthBehaviour SummaryBehaviour SortOrder QueryExec
begin

text \<open>
  A verification of the core of MindooDB, an end-to-end encrypted, offline-first document
  database whose documents are Automerge histories kept as signed entries in append-only stores
  (\<^verbatim>\<open>src/src/core\<close>). Paths below are relative to that directory.

  \<^bold>\<open>The program.\<close> An entry is a signed, encrypted change or snapshot of a document, named by its
  content, its document and its causal predecessors. Stores hold entries, number them as they
  arrive, and answer scans, Bloom summaries and plans. Two stores are brought together by the
  sync engine, which talks to both only through the store interface. What a device accepts is
  decided by signatures, witness receipts and the access rules that were in force at the trusted
  time of an entry; the rules come from the directory, itself a database of documents. From the
  accepted entries of a document its graph is analysed: order, lifecycle, heads, plans. On top
  of the documents lie a change feed, the summary buffer that consumes it, and expressions, view
  orders and queries that read the summary. A server lets devices in by challenge and token.

  \<^bold>\<open>Foundations.\<close> \<open>JsPrelude\<close>: JavaScript maps and sets as association lists and distinct lists
  in insertion order, the stable sort, the locale \<open>js_comparator\<close>; its collections \<open>js_simps\<close>
  and \<open>store_defs\<close> serve all theories. \<open>JsValue\<close>: untyped values. \<open>TimedOrder\<close>: the laws wanted
  of \<^verbatim>\<open>localeCompare\<close> (\<open>collation\<close>, \<open>strict_collation\<close>), and the order by time and id.
  \<open>ByteLayout\<close>: big-endian integers, UTF-8 and length prefixes, each an instance of the locale
  \<open>prefix_code\<close>, from which every layout result follows. \<open>Base64\<close>: \<^verbatim>\<open>btoa\<close>, \<^verbatim>\<open>atob\<close>.

  \<^bold>\<open>Stores.\<close>
  \<^item> \<open>StoreTypes\<close> (\<^verbatim>\<open>types.ts\<close>, \<^verbatim>\<open>appendonlystores/types.ts\<close>, \<^verbatim>\<open>storeEntryTime.ts\<close>): entries,
    cursors, results as records, the trusted time.
  \<^item> \<open>ScanUtils\<close> (\<^verbatim>\<open>appendonlystores/scanUtils.ts\<close>): scan order and cursors; the locale
    \<open>paged_scan\<close> proves paging complete once, for the document scan and the store scan.
  \<^item> \<open>InMemoryStore\<close>, \<open>StoreBehaviour\<close> (\<^verbatim>\<open>InMemoryContentAddressedStore.ts\<close>): the fields of the
    class as a record, one function per method. \<open>store_inv\<close> holds in every state that the
    operations reach; a page of the cached or indexed scan is the page of the specification;
    paging ends and delivers every entry once.
  \<^item> \<open>Bloom\<close> (\<^verbatim>\<open>bloom.ts\<close>): 32-bit hashes and the bit set; membership is characterised exactly.
  \<^item> \<open>MaterializationPlanner\<close>, \<open>AttachmentReadPlanner\<close>: the plans of the same named files; a plan
    replays what the snapshot does not cover, once and after its dependencies, and a byte range
    is read exactly.
  \<^item> \<open>IdGeneration\<close> (\<^verbatim>\<open>utils/idGeneration.ts\<close>): ids from clock, process bytes and a 24-bit
    counter.

  \<^bold>\<open>Wire formats and signatures.\<close> \<open>BinaryFraming\<close>, \<open>EntryWireCodec\<close>
  (\<^verbatim>\<open>appendonlystores/network\<close>): round trips, measured sizes, and what truncation gives.
  \<open>EntrySignature\<close> (\<^verbatim>\<open>crypto/EntrySignature.ts\<close>) and \<open>WitnessReceipts\<close>
  (\<^verbatim>\<open>crypto/WitnessReceipt.ts\<close>, \<^verbatim>\<open>accesscontrol/receiptValidation.ts\<close>): the signed layouts
  determine every field. The authenticity theorems assume of the signature scheme only that what
  is made with a private key verifies under its public key: an accepted entry or receipt has the
  fields of one that the key holder signed, or its signature is a forgery in the sense of
  \<open>forged_signature\<close>, one that verifies for bytes that were never signed. That forgeries are
  hard to find is the business of the scheme.

  \<^bold>\<open>Access control\<close> (\<^verbatim>\<open>accesscontrol\<close>). \<open>AclTypes\<close> (\<^verbatim>\<open>types.ts\<close>), \<open>GrantKeys\<close>, \<open>DirectoryChain\<close>
  (\<^verbatim>\<open>DirectoryStateNode.ts\<close>: the chain of states, a list with the head first),
  \<open>DirectoryProjection\<close> (document revisions to chain calls), \<open>TimeTravelIndex\<close> (rebuild in
  trusted-time order), \<open>AccessEvaluate\<close> (\<^verbatim>\<open>evaluate.ts\<close>, proved equal to a deny-overrides
  policy), \<open>Quarantine\<close> (\<^verbatim>\<open>quarantine.ts\<close>, \<^verbatim>\<open>materializationGuard.ts\<close>). The lemmas show that a
  state looked up for a time is the state of the revisions up to it, whatever order they arrived
  in; that revoked devices are out and keys resolve to active grants; and that the accepted
  entries are the causally closed clean ones.

  \<^bold>\<open>Sync\<close> (\<^verbatim>\<open>BaseMindooDB.ts\<close>, the methods from \<^verbatim>\<open>syncEntriesFromStore\<close> to
  \<^verbatim>\<open>transferEntriesInBatches\<close>). \<open>StoreApi\<close> has the interface as a record of methods over an
  abstract state, each of which may throw, and the contracts as the locales \<open>source_store\<close>,
  \<open>target_store\<close>, \<open>reliable_source\<close> and \<open>reliable_target\<close>, interpreted on the in-memory store.
  \<open>SyncTransfer\<close> has the missing-id filter and the worker pool, \<open>SyncEngine\<close> the cursor scan,
  with and without an upper bound, and dense sync; \<open>SyncProperties\<close> instantiates the results,
  also on a witnessing target that rejects entries. A sync keeps \<open>persisted_cursor_sound\<close>: its
  stored cursor never passes an entry that is neither at the target nor rejected.

  \<^bold>\<open>Document graphs\<close> (\<^verbatim>\<open>DocumentDagAnalysis.ts\<close>). \<open>DocumentDag\<close> (causal order), \<open>DagLifecycle\<close>
  (deleted or alive, pruning as a greatest fixed point), \<open>DagAnalysis\<close> (lanes, branches, plans
  for heads).

  \<^bold>\<open>Login\<close> (\<^verbatim>\<open>appendonlystores/network/AuthenticationService.ts\<close>). \<open>AuthTokens\<close>, \<open>AuthService\<close>
  and \<open>AuthBehaviour\<close>: challenges are used once, tokens are given for vouched keys, and
  validation needs a signature, a time and an active key, over any interleaving of calls.

  \<^bold>\<open>Feed, summary, queries.\<close> \<open>ChangeFeed\<close> (the sorted index of \<^verbatim>\<open>BaseMindooDB.ts\<close>, its lazily
  repaired lookup and cursors), \<open>Expressions\<close> (\<^verbatim>\<open>expressions\<close>), \<open>SummaryFields\<close>, \<open>SummaryStore\<close>
  and \<open>SummaryBehaviour\<close> (\<^verbatim>\<open>indexing/summary\<close>; a run is a sequence of steps, so that edits,
  flushes, configuration changes and restarts come between them), \<open>SortOrder\<close>
  (\<^verbatim>\<open>indexing/virtualviews\<close>, the comparator of a level), \<open>QueryExec\<close> (\<^verbatim>\<open>query/executeQuery.ts\<close>).

  \<^bold>\<open>Loops and fuel.\<close> Loops whose end is not obvious are \<open>partial_function (option)\<close>, where
  \<open>None\<close> is a run that never returns: the sync loop, the worker pool, the dense transfer and the
  retry loop for chunk ids. That they return is proved: the sync loop and the transfers decrease
  the entries that are ahead of the cursor or still to be moved; the retry loop ends while fewer
  than \<open>2^24\<close> ids are in use. Client paging (\<open>scan_all\<close>) takes fuel; one more than the number of
  remaining entries is enough, and that is part of its theorem. All other recursion ends by
  structure or by a measure.

  \<^bold>\<open>Parameters.\<close> What is not under \<^verbatim>\<open>src/\<close> is an argument: \<^verbatim>\<open>localeCompare\<close> and the collators,
  Ed25519, HMAC and SHA-256, \<^verbatim>\<open>JSON\<close> codecs, uuids, random bytes, clocks, the calendar and the
  prototypes of the runtime (\<open>js_runtime\<close>), full-text hits. So are schedules and abort times of
  concurrent work, and the directory that each call of the login sees. The laws assumed of them
  are hypotheses of the theorem that needs them, and a witness shows that they can hold.

  \<^bold>\<open>Abstractions.\<close> Strings are lists of code units \<open>0..255\<close>. Numbers that are times, counters or
  sizes are integers; numbers in documents are rationals, so neither rounding nor \<^verbatim>\<open>NaN\<close> occurs.
  Machine words are kept in the Bloom filter, the byte layouts and the document-id hash.
  Progress callbacks, logging and error texts are left out, unless a text is a result.

  \<^bold>\<open>Not modelled.\<close> The Automerge documents themselves and their checkpoints (a third-party
  CRDT); the reconciliation of a restored change feed with the store; key bags and user keys,
  which call Web Crypto; on-disk, IndexedDB and network stores (I/O behind the interface whose
  contract the in-memory store keeps); the server, the command line and the React Native
  adapters; the category tree of virtual views; the formula parser; document copy. The names of
  single facts about the code that differ from its comments or documentation stand at the end of
  the theory they belong to, as closed examples.
\<close>

end
